(* ===== verification/Prelude.thy ===== *)
theory Prelude
  imports Main "HOL-Library.Word" "HOL-Library.Signed_Division"
begin

text \<open>
  Shared vocabulary of the development: the faults a C++ operation can end in, results that
  carry a fault or a value, the effect of \<^verbatim>\<open>assert\<close> in the two builds, arithmetic on
  \<^verbatim>\<open>size_t\<close>, and \<^verbatim>\<open>std::copy\<close> into a vector or array. Every component theory
  imports it.
\<close>

section \<open>Collections of facts\<close>

named_theorems res_simps "evaluation of results, asserts and size_t arithmetic"
named_theorems inv_intros "operations preserve the invariant of their component"
named_theorems abs_simps "what an operation does to the abstraction of its state"

section \<open>Faults and results\<close>

text \<open>
  The ways an operation of the code stops without returning: a failed \<^verbatim>\<open>assert\<close>, an
  access outside an array or vector, a null or dangling pointer used, an uninitialised object read,
  a signed integer operation that overflows (undefined behaviour in C++) or divides by zero,
  \<^verbatim>\<open>std::length_error\<close>, \<^verbatim>\<open>std::bad_alloc\<close>, \<^verbatim>\<open>std::bad_function_call\<close> (an empty
  \<^verbatim>\<open>std::function\<close> called), a \<^verbatim>\<open>LOG_FATAL\<close> or \<^verbatim>\<open>LOG_SYSFATAL\<close> (both call
  \<^verbatim>\<open>abort\<close>), and \<^verbatim>\<open>std::logic_error\<close> with its message. \<open>NoFuel\<close> is
  the model's own: a recursion was given too little fuel; each use has a lemma that enough is given.
\<close>

datatype fault =
    AssertFail
  | OutOfBounds
  | BadPointer
  | Uninitialised
  | Overflow
  | LengthError
  | FatalAbort
  | LogicError string
  | BadAlloc
  | BadCall
  | NoFuel

type_synonym 'a res = "fault + 'a"

definition bindR :: "'a res \<Rightarrow> ('a \<Rightarrow> 'b res) \<Rightarrow> 'b res" where
  "bindR r f = (case r of Inl e \<Rightarrow> Inl e | Inr x \<Rightarrow> f x)"

lemma bindR_simps [simp]:
  "bindR (Inl e) f = Inl e"
  "bindR (Inr x) f = f x"
  by (simp_all add: bindR_def)

lemma bindR_eq_Inr [simp]:
  "bindR r f = Inr y \<longleftrightarrow> (\<exists>x. r = Inr x \<and> f x = Inr y)"
  by (cases r) simp_all

lemma bindR_eq_Inl:
  "bindR r f = Inl e \<longleftrightarrow> r = Inl e \<or> (\<exists>x. r = Inr x \<and> f x = Inl e)"
  by (cases r) simp_all

lemma bindR_return: "bindR r Inr = r"
  by (cases r) simp_all

lemma bindR_assoc: "bindR (bindR r f) g = bindR r (\<lambda>x. bindR (f x) g)"
  by (cases r) simp_all

lemma bindR_cong [fundef_cong]:
  "r = r' \<Longrightarrow> (\<And>x. r' = Inr x \<Longrightarrow> f x = f' x) \<Longrightarrow> bindR r f = bindR r' f'"
  by (cases r') simp_all

text \<open>
  \<^verbatim>\<open>assert(c); k\<close>. The build sets \<^verbatim>\<open>-DNDEBUG\<close> for the Release
  configuration only (CMakeLists.txt), so both behaviours exist: \<open>dbg\<close> says whether
  asserts are compiled in.
\<close>

definition cassert :: "bool \<Rightarrow> bool \<Rightarrow> 'a res \<Rightarrow> 'a res" where
  "cassert dbg c k = (if dbg \<and> \<not> c then Inl AssertFail else k)"

lemma cassert_simps [simp]:
  "cassert dbg True k = k"
  "cassert False c k = k"
  "cassert True False k = Inl AssertFail"
  by (simp_all add: cassert_def)

lemma cassert_eq_Inr:
  "cassert dbg c k = Inr y \<longleftrightarrow> (dbg \<longrightarrow> c) \<and> k = Inr y"
  by (auto simp: cassert_def)

lemma cassert_holds [res_simps]: "c \<Longrightarrow> cassert dbg c k = k"
  by (simp add: cassert_def)

text \<open>
  \<open>returns r P\<close>: the operation returns, and its result satisfies \<open>P\<close>. Total
  correctness of a sequence follows from that of its parts.
\<close>

definition returns :: "'a res \<Rightarrow> ('a \<Rightarrow> bool) \<Rightarrow> bool" where
  "returns r P \<longleftrightarrow> (case r of Inl _ \<Rightarrow> False | Inr x \<Rightarrow> P x)"

lemma returns_simps [simp]:
  "returns (Inr x) P \<longleftrightarrow> P x"
  "\<not> returns (Inl e) P"
  by (simp_all add: returns_def)

lemma returns_iff: "returns r P \<longleftrightarrow> (\<exists>x. r = Inr x \<and> P x)"
  by (cases r) simp_all

lemma returns_bind:
  "returns r P \<Longrightarrow> (\<And>x. P x \<Longrightarrow> returns (f x) Q) \<Longrightarrow> returns (bindR r f) Q"
  by (cases r) simp_all

lemma returns_bind_eq:
  "returns r P \<Longrightarrow> (\<And>x. r = Inr x \<Longrightarrow> P x \<Longrightarrow> returns (f x) Q) \<Longrightarrow> returns (bindR r f) Q"
  by (cases r) simp_all

lemma returns_mono: "returns r P \<Longrightarrow> (\<And>x. P x \<Longrightarrow> Q x) \<Longrightarrow> returns r Q"
  by (cases r) simp_all

lemma returns_cassert [simp]:
  "returns (cassert dbg c k) P \<longleftrightarrow> (dbg \<longrightarrow> c) \<and> returns k P"
  by (auto simp: cassert_def)

text \<open>
  \<open>outcome F r P\<close>: the operation returns a result that satisfies \<open>P\<close>, or stops
  with one of the faults in \<open>F\<close>.
\<close>

definition outcome :: "fault set \<Rightarrow> 'a res \<Rightarrow> ('a \<Rightarrow> bool) \<Rightarrow> bool" where
  "outcome F r P \<longleftrightarrow> (case r of Inl f \<Rightarrow> f \<in> F | Inr x \<Rightarrow> P x)"

lemma outcome_simps [simp]:
  "outcome F (Inr x) P \<longleftrightarrow> P x"
  "outcome F (Inl f) P \<longleftrightarrow> f \<in> F"
  by (simp_all add: outcome_def)

lemma outcome_bind:
  "outcome F r P \<Longrightarrow> (\<And>x. P x \<Longrightarrow> outcome F (f x) Q) \<Longrightarrow> outcome F (bindR r f) Q"
  by (cases r) simp_all

lemma outcome_mono:
  "outcome F r P \<Longrightarrow> F \<subseteq> G \<Longrightarrow> (\<And>x. P x \<Longrightarrow> Q x) \<Longrightarrow> outcome G r Q"
  by (cases r) auto

text \<open>What the result is, kept beside what is known of it.\<close>

lemma outcome_self: "outcome F r P \<Longrightarrow> outcome F r (\<lambda>x. P x \<and> r = Inr x)"
  by (cases r) simp_all

lemma returns_outcome: "returns r P \<Longrightarrow> outcome F r P"
  by (cases r) simp_all

lemma outcome_cassert: "AssertFail \<in> F \<Longrightarrow> (c \<Longrightarrow> outcome F k P) \<Longrightarrow> outcome F (cassert True c k) P"
  by (simp add: cassert_def)

section \<open>Sizes\<close>

text \<open>
  A \<^verbatim>\<open>size_t\<close> is a natural number below \<open>2 ^ 64\<close>; sums and differences wrap.
\<close>

definition szadd :: "nat \<Rightarrow> nat \<Rightarrow> nat" where
  "szadd a b = (a + b) mod 2 ^ 64"

definition szsub :: "nat \<Rightarrow> nat \<Rightarrow> nat" where
  "szsub a b = (a + (2 ^ 64 - b)) mod 2 ^ 64"

definition szmul :: "nat \<Rightarrow> nat \<Rightarrow> nat" where
  "szmul a b = (a * b) mod 2 ^ 64"

lemma szadd_exact [res_simps]: "a + b < 2 ^ 64 \<Longrightarrow> szadd a b = a + b"
  by (simp add: szadd_def)

lemma szmul_exact [res_simps]: "a * b < 2 ^ 64 \<Longrightarrow> szmul a b = a * b"
  by (simp add: szmul_def)

lemma szsub_exact [res_simps]:
  assumes "b \<le> a" "a < 2 ^ 64"
  shows "szsub a b = a - b"
proof -
  have "a + (2 ^ 64 - b) = (a - b) + 2 ^ 64"
    using assms by simp
  then have "szsub a b = ((a - b) + 2 ^ 64) mod 2 ^ 64"
    by (simp only: szsub_def)
  also have "\<dots> = a - b"
    using assms by (simp only: mod_add_self2) simp
  finally show ?thesis .
qed

lemma szsub_wraps:
  assumes "a < b" "b < 2 ^ 64"
  shows "szsub a b = a + (2 ^ 64 - b)"
  using assms by (simp add: szsub_def)

text \<open>
  A \<^verbatim>\<open>size_t\<close> converted to \<^verbatim>\<open>int\<close> keeps its low 32 bits, read as two's
  complement; an \<^verbatim>\<open>int\<close> converted to \<^verbatim>\<open>size_t\<close> wraps modulo \<open>2 ^ 64\<close>.
\<close>

definition int_of_size :: "nat \<Rightarrow> int" where
  "int_of_size n = sint (word_of_nat n :: 32 word)"

definition size_of_int :: "int \<Rightarrow> nat" where
  "size_of_int i = nat (i mod 2 ^ 64)"

lemma int_of_size_eq: "int_of_size n = (int n + 2 ^ 31) mod 2 ^ 32 - 2 ^ 31"
  unfolding int_of_size_def signed_of_nat
  by (simp add: signed_take_bit_eq_take_bit_shift take_bit_eq_mod)

lemma int_of_size_exact [res_simps]: "n < 2 ^ 31 \<Longrightarrow> int_of_size n = int n"
  by (simp add: int_of_size_eq)

lemma int_szsub:
  assumes "b < 2 ^ 64"
  shows "int (szsub a b) = (int a - int b) mod 2 ^ 64"
proof -
  have "int (a + (2 ^ 64 - b)) = (int a - int b) + 2 ^ 64"
    using assms by simp
  moreover have "int (szsub a b) = int (a + (2 ^ 64 - b)) mod 2 ^ 64"
    unfolding szsub_def of_nat_mod by simp
  ultimately have "int (szsub a b) = ((int a - int b) + 2 ^ 64) mod 2 ^ 64"
    by (simp only:)
  then show ?thesis
    by (simp only: mod_add_self2)
qed

lemma size_of_int_neg:
  assumes "i < 0" "- (2 ^ 64) \<le> i"
  shows "size_of_int i = nat (i + 2 ^ 64)"
proof -
  have "i mod 2 ^ 64 = (i + 2 ^ 64) mod 2 ^ 64"
    by (simp only: mod_add_self2)
  also have "\<dots> = i + 2 ^ 64"
    using assms by (intro mod_pos_pos_trivial) simp_all
  finally show ?thesis
    by (simp only: size_of_int_def)
qed

text \<open>The \<^verbatim>\<open>int\<close> difference of two small sizes is exact whichever of them is larger.\<close>

lemma int_of_size_diff:
  assumes "a < 2 ^ 31" "b < 2 ^ 31"
  shows "int_of_size (szsub a b) = int a - int b"
proof -
  have "(2 ^ 32 :: int) dvd 2 ^ 64"
    by (rule le_imp_power_dvd) simp
  then have "((int a - int b) mod 2 ^ 64 + 2 ^ 31) mod 2 ^ 32 = (int a - int b + 2 ^ 31) mod 2 ^ 32"
    by (metis mod_add_left_eq mod_mod_cancel)
  also have "\<dots> = int a - int b + 2 ^ 31"
    using assms by (intro mod_pos_pos_trivial) simp_all
  finally show ?thesis
    using assms by (simp add: int_of_size_eq int_szsub)
qed

lemma size_of_int_exact [res_simps]: "0 \<le> i \<Longrightarrow> i < 2 ^ 64 \<Longrightarrow> size_of_int i = nat i"
  by (simp add: size_of_int_def)

text \<open>The largest size a \<^verbatim>\<open>std::vector<char>\<close> accepts; beyond it \<^verbatim>\<open>std::length_error\<close>.\<close>

definition vec_max :: nat where
  "vec_max = 2 ^ 63 - 1"

definition vec_resize :: "'a \<Rightarrow> 'a list \<Rightarrow> nat \<Rightarrow> 'a list res" where
  "vec_resize z xs n =
     (if vec_max < n then Inl LengthError
      else Inr (take n xs @ replicate (n - length xs) z))"

lemma vec_resize_grow:
  "length xs \<le> n \<Longrightarrow> n \<le> vec_max \<Longrightarrow> vec_resize z xs n = Inr (xs @ replicate (n - length xs) z)"
  by (simp add: vec_resize_def)

section \<open>Copies into and out of an array\<close>

text \<open>
  \<^verbatim>\<open>std::copy(d, d + len, begin() + i)\<close> with the \<open>len\<close> bytes as a list: the bytes from
  \<open>i\<close> on are overwritten. Outside the array the copy is out of bounds.
\<close>

definition copy_to :: "'a list \<Rightarrow> nat \<Rightarrow> 'a list \<Rightarrow> 'a list res" where
  "copy_to buf i xs =
     (if i + length xs \<le> length buf
      then Inr (take i buf @ xs @ drop (i + length xs) buf)
      else Inl OutOfBounds)"

text \<open>The elements from position \<open>i\<close> up to \<open>j\<close>, excluding \<open>j\<close>; out of bounds
  when the range does not lie in the array.\<close>

definition slice :: "'a list \<Rightarrow> nat \<Rightarrow> nat \<Rightarrow> 'a list" where
  "slice xs i j = take (j - i) (drop i xs)"

definition copy_from :: "'a list \<Rightarrow> nat \<Rightarrow> nat \<Rightarrow> 'a list res" where
  "copy_from buf i n =
     (if i + n \<le> length buf then Inr (slice buf i (i + n)) else Inl OutOfBounds)"

lemma length_slice [simp]: "j \<le> length xs \<Longrightarrow> length (slice xs i j) = j - i"
  by (simp add: slice_def)

lemma slice_same [simp]: "slice xs i i = []"
  by (simp add: slice_def)

lemma slice_empty: "j \<le> i \<Longrightarrow> slice xs i j = []"
  by (simp add: slice_def)

lemma slice_split:
  assumes "i \<le> k" "k \<le> j"
  shows "slice xs i j = slice xs i k @ slice xs k j"
proof -
  have "take (j - i) (drop i xs) = take (k - i) (drop i xs) @ take (j - k) (drop (k - i) (drop i xs))"
    using assms by (metis Nat.add_diff_assoc2 add.commute diff_add_inverse2 le_add_diff_inverse take_add)
  then show ?thesis
    using assms by (simp add: slice_def)
qed

lemma take_slice: "i + n \<le> j \<Longrightarrow> take n (slice xs i j) = slice xs i (i + n)"
  by (simp add: slice_def min_def)

lemma drop_slice: "drop n (slice xs i j) = slice xs (i + n) j"
  by (simp add: slice_def drop_take add.commute)

lemma slice_take: "j \<le> n \<Longrightarrow> slice (take n xs) i j = slice xs i j"
  by (simp add: slice_def drop_take min_def)

lemma slice_append_left: "j \<le> length xs \<Longrightarrow> slice (xs @ ys) i j = slice xs i j"
  by (cases "i \<le> j") (simp_all add: slice_def)

lemma copy_to_ok [res_simps]:
  "i + length xs \<le> length buf \<Longrightarrow>
     copy_to buf i xs = Inr (take i buf @ xs @ drop (i + length xs) buf)"
  by (simp add: copy_to_def)

lemma copy_to_length: "copy_to buf i xs = Inr buf' \<Longrightarrow> length buf' = length buf"
  by (auto simp: copy_to_def split: if_splits)

lemma copy_to_total:
  "i + length xs \<le> length buf \<Longrightarrow> \<exists>v. copy_to buf i xs = Inr v \<and> length v = length buf"
  by (simp add: copy_to_def)

text \<open>What a copy leaves in the three regions of the array: before, at and after the target.\<close>

lemma slice_copy_before:
  "copy_to buf i xs = Inr buf' \<Longrightarrow> k \<le> i \<Longrightarrow> slice buf' j k = slice buf j k"
  by (auto simp: copy_to_def slice_def drop_take min_def split: if_splits)

lemma slice_copy_at:
  "copy_to buf i xs = Inr buf' \<Longrightarrow> slice buf' i (i + length xs) = xs"
  by (auto simp: copy_to_def slice_def split: if_splits)

lemma slice_copy_after:
  assumes "copy_to buf i xs = Inr buf'" "i + length xs \<le> j"
  shows "slice buf' j k = slice buf j k"
proof -
  have b: "i + length xs \<le> length buf" and
       eq: "buf' = take i buf @ xs @ drop (i + length xs) buf"
    using assms(1) by (auto simp: copy_to_def split: if_splits)
  have "drop j buf' = drop j buf"
    using assms(2) b by (simp add: eq)
  then show ?thesis by (simp add: slice_def)
qed

end
