(* ===== verification/Endian.thy ===== *)
theory Endian
  imports Prelude
begin

text \<open>
  Byte order: the bytes of an integer object in the host's memory, the conversions
  \<^verbatim>\<open>hostToNet*\<close> and \<^verbatim>\<open>netToHost*\<close> of sockets.cc (which forward to
  \<^verbatim>\<open>htobe64\<close>, \<^verbatim>\<open>htonl\<close>, \<^verbatim>\<open>htons\<close> and their inverses), and the fact the
  rest of the library relies on: an integer that was converted and copied to a buffer lies there
  with its most significant byte first, on either kind of host.
\<close>

unbundle bit_operations_syntax

type_synonym byte = "8 word"

datatype endian = Little | Big

section \<open>Words as byte sequences\<close>

primrec le_bytes :: "nat \<Rightarrow> 'a::len word \<Rightarrow> byte list" where
  "le_bytes 0 w = []"
| "le_bytes (Suc n) w = ucast w # le_bytes n (drop_bit 8 w)"

primrec of_le_bytes :: "byte list \<Rightarrow> 'a::len word" where
  "of_le_bytes [] = 0"
| "of_le_bytes (b # bs) = ucast b OR push_bit 8 (of_le_bytes bs)"

lemma length_le_bytes [simp]: "length (le_bytes n w) = n"
  by (induction n arbitrary: w) simp_all

lemma of_le_le_bytes:
  fixes w :: "'a::len word"
  shows "of_le_bytes (le_bytes n w) = take_bit (8 * n) w"
proof (induction n arbitrary: w)
  case 0
  then show ?case by simp
next
  case (Suc n)
  show ?case
    unfolding le_bytes.simps of_le_bytes.simps Suc.IH
    by (rule bit_word_eqI) (auto simp: bit_simps)
qed

lemma le_of_le_bytes:
  assumes "8 * length bs \<le> LENGTH('a::len)"
  shows "le_bytes (length bs) (of_le_bytes bs :: 'a word) = bs"
  using assms
proof (induction bs)
  case Nil
  then show ?case by simp
next
  case (Cons b bs)
  let ?r = "of_le_bytes bs :: 'a word"
  have n: "8 * length bs + 8 \<le> LENGTH('a)" using Cons.prems by simp
  have "ucast (ucast b OR push_bit 8 ?r) = b"
    using n by (intro bit_word_eqI) (auto simp: bit_simps)
  moreover have "le_bytes (length bs) (drop_bit 8 (ucast b OR push_bit 8 ?r)) = bs"
  proof -
    have take: "take_bit (8 * length bs) ?r = ?r"
      using Cons.IH n of_le_le_bytes [of "length bs" ?r] by simp
    have "drop_bit 8 (ucast b OR push_bit 8 ?r) = ?r"
    proof (rule bit_word_eqI)
      fix k assume "k < LENGTH('a)"
      have "bit ?r k \<longleftrightarrow> k < 8 * length bs \<and> bit ?r k"
        using bit_take_bit_iff [of "8 * length bs" ?r k] by (simp only: take)
      then show "bit (drop_bit 8 (ucast b OR push_bit 8 ?r)) k = bit ?r k"
        using n bit_imp_le_length [of b "8 + k"] by (auto simp: bit_simps)
    qed
    then show ?thesis using Cons.IH n by simp
  qed
  ultimately show ?case by simp
qed

section \<open>Objects in memory and byte-order conversion\<close>

text \<open>The object representation of an \<open>n\<close>-byte integer, as \<^verbatim>\<open>memcpy\<close> sees it.\<close>

definition mem_bytes :: "endian \<Rightarrow> nat \<Rightarrow> 'a::len word \<Rightarrow> byte list" where
  "mem_bytes h n w = (case h of Little \<Rightarrow> le_bytes n w | Big \<Rightarrow> rev (le_bytes n w))"

definition of_mem_bytes :: "endian \<Rightarrow> byte list \<Rightarrow> 'a::len word" where
  "of_mem_bytes h bs = (case h of Little \<Rightarrow> of_le_bytes bs | Big \<Rightarrow> of_le_bytes (rev bs))"

definition bswap :: "nat \<Rightarrow> 'a::len word \<Rightarrow> 'a word" where
  "bswap n w = of_le_bytes (rev (le_bytes n w))"

text \<open>
  \<^verbatim>\<open>htobe64\<close>, \<^verbatim>\<open>htonl\<close>, \<^verbatim>\<open>htons\<close> and their inverses: the identity on a
  big-endian host, a byte swap on a little-endian one.
\<close>

definition hton :: "endian \<Rightarrow> nat \<Rightarrow> 'a::len word \<Rightarrow> 'a word" where
  "hton h n w = (case h of Little \<Rightarrow> bswap n w | Big \<Rightarrow> w)"

definition netToHost64 :: "endian \<Rightarrow> 64 word \<Rightarrow> 64 word" where
  "netToHost64 h n = hton h 8 n"

definition hostToNet64 :: "endian \<Rightarrow> 64 word \<Rightarrow> 64 word" where
  "hostToNet64 h n = hton h 8 n"

definition netToHost32 :: "endian \<Rightarrow> 32 word \<Rightarrow> 32 word" where
  "netToHost32 h n = hton h 4 n"

definition hostToNet32 :: "endian \<Rightarrow> 32 word \<Rightarrow> 32 word" where
  "hostToNet32 h n = hton h 4 n"

definition netToHost16 :: "endian \<Rightarrow> 16 word \<Rightarrow> 16 word" where
  "netToHost16 h n = hton h 2 n"

definition hostToNet16 :: "endian \<Rightarrow> 16 word \<Rightarrow> 16 word" where
  "hostToNet16 h n = hton h 2 n"

lemmas byte_order_defs =
  netToHost64_def hostToNet64_def netToHost32_def hostToNet32_def netToHost16_def hostToNet16_def

text \<open>The bytes of an integer in network order, most significant first.\<close>

definition be_bytes :: "nat \<Rightarrow> 'a::len word \<Rightarrow> byte list" where
  "be_bytes n w = rev (le_bytes n w)"

lemma length_be_bytes [simp]: "length (be_bytes n w) = n"
  by (simp add: be_bytes_def)

lemma length_mem_bytes [simp]: "length (mem_bytes h n w) = n"
  by (cases h) (simp_all add: mem_bytes_def)

lemma mem_bytes_hton:
  fixes w :: "'a::len word"
  assumes "8 * n \<le> LENGTH('a)"
  shows "mem_bytes h n (hton h n w) = be_bytes n w"
proof (cases h)
  case Little
  have "le_bytes (length (rev (le_bytes n w))) (of_le_bytes (rev (le_bytes n w)) :: 'a word)
      = rev (le_bytes n w)"
    using assms by (intro le_of_le_bytes) simp
  then show ?thesis
    by (simp add: Little mem_bytes_def hton_def bswap_def be_bytes_def)
next
  case Big
  then show ?thesis by (simp add: mem_bytes_def hton_def be_bytes_def)
qed

lemma hton_of_mem_bytes:
  fixes w :: "'a::len word"
  assumes "LENGTH('a) = 8 * n"
  shows "hton h n (of_mem_bytes h (be_bytes n w) :: 'a word) = w"
proof -
  have full: "of_le_bytes (le_bytes n w) = w"
    using assms by (simp add: of_le_le_bytes take_bit_word_eq_self)
  have swap: "le_bytes n (of_le_bytes (rev (le_bytes n w)) :: 'a word) = rev (le_bytes n w)"
    using le_of_le_bytes [of "rev (le_bytes n w)", where 'a = 'a] assms by simp
  show ?thesis
    by (cases h) (simp_all add: hton_def of_mem_bytes_def bswap_def be_bytes_def swap full)
qed

lemma be_bytes_hton_of_mem:
  fixes bs :: "byte list"
  assumes "LENGTH('a::len) = 8 * n" "length bs = n"
  shows "be_bytes n (hton h n (of_mem_bytes h bs :: 'a word)) = bs"
proof -
  have inverse: "\<And>cs. length cs = n \<Longrightarrow> le_bytes n (of_le_bytes cs :: 'a word) = cs"
    using assms(1) le_of_le_bytes [where 'a = 'a] by fastforce
  show ?thesis
    using assms(2)
    by (cases h) (simp_all add: hton_def of_mem_bytes_def bswap_def be_bytes_def inverse)
qed

section \<open>The codec interface\<close>

text \<open>
  What a client of an integer encoding uses: encodings have a fixed positive width and decoding
  inverts encoding, both ways.
\<close>

locale int_codec =
  fixes width :: nat
    and enc :: "'w \<Rightarrow> byte list"
    and dec :: "byte list \<Rightarrow> 'w"
  assumes width_pos: "0 < width"
    and length_enc: "length (enc x) = width"
    and dec_enc: "dec (enc x) = x"
    and enc_dec: "length bs = width \<Longrightarrow> enc (dec bs) = bs"
begin

lemma enc_inject: "enc x = enc y \<longleftrightarrow> x = y"
  using dec_enc by metis

lemma dec_inject: "length bs = width \<Longrightarrow> length cs = width \<Longrightarrow> dec bs = dec cs \<longleftrightarrow> bs = cs"
  using enc_dec by metis

text \<open>A sequence of encodings is read back value by value.\<close>

lemma dec_first: "dec (take width (enc x @ rest)) = x"
  by (simp add: length_enc dec_enc)

lemma rest_after_first: "drop width (enc x @ rest) = rest"
  by (simp add: length_enc)

end

text \<open>
  The encodings of buffer.h: convert to network order, then copy the object's bytes; to read, copy
  the bytes into an object and convert back.
\<close>

definition net_enc64 :: "endian \<Rightarrow> 64 word \<Rightarrow> byte list" where
  "net_enc64 h x = mem_bytes h 8 (hostToNet64 h x)"

definition net_dec64 :: "endian \<Rightarrow> byte list \<Rightarrow> 64 word" where
  "net_dec64 h bs = netToHost64 h (of_mem_bytes h bs)"

definition net_enc32 :: "endian \<Rightarrow> 32 word \<Rightarrow> byte list" where
  "net_enc32 h x = mem_bytes h 4 (hostToNet32 h x)"

definition net_dec32 :: "endian \<Rightarrow> byte list \<Rightarrow> 32 word" where
  "net_dec32 h bs = netToHost32 h (of_mem_bytes h bs)"

definition net_enc16 :: "endian \<Rightarrow> 16 word \<Rightarrow> byte list" where
  "net_enc16 h x = mem_bytes h 2 (hostToNet16 h x)"

definition net_dec16 :: "endian \<Rightarrow> byte list \<Rightarrow> 16 word" where
  "net_dec16 h bs = netToHost16 h (of_mem_bytes h bs)"

lemma net_enc_be:
  "net_enc64 h x = be_bytes 8 x"
  "net_enc32 h y = be_bytes 4 y"
  "net_enc16 h z = be_bytes 2 z"
  by (simp_all add: net_enc64_def net_enc32_def net_enc16_def byte_order_defs mem_bytes_hton)

interpretation net64: int_codec 8 "net_enc64 h" "net_dec64 h" for h
  by unfold_locales
    (simp_all add: net_enc_be net_dec64_def byte_order_defs hton_of_mem_bytes be_bytes_hton_of_mem)

interpretation net32: int_codec 4 "net_enc32 h" "net_dec32 h" for h
  by unfold_locales
    (simp_all add: net_enc_be net_dec32_def byte_order_defs hton_of_mem_bytes be_bytes_hton_of_mem)

interpretation net16: int_codec 2 "net_enc16 h" "net_dec16 h" for h
  by unfold_locales
    (simp_all add: net_enc_be net_dec16_def byte_order_defs hton_of_mem_bytes be_bytes_hton_of_mem)

end
