(* ===== verification/Posix.thy ===== *)
theory Posix
  imports Endian
begin

text \<open>
  The system calls the library makes, seen from its side. What a call returns is a parameter of
  the operation that makes it; this theory has the types of those results, the error numbers the
  code compares them with (the Linux values of \<^verbatim>\<open>errno.h\<close>), and the documented
  contracts the properties name as hypotheses.
\<close>

section \<open>Results of read and write calls\<close>

text \<open>
  \<^verbatim>\<open>read\<close>, \<^verbatim>\<open>readv\<close>: the bytes delivered, or the error number. Zero bytes mean end
  of file.
\<close>

datatype read_result = ReadOk "byte list" | ReadErr int

text \<open>\<^verbatim>\<open>write\<close>: how many bytes the kernel took, or the error number.\<close>

datatype write_result = WriteOk nat | WriteErr int

text \<open>A read never delivers more bytes than the caller made room for.\<close>

definition read_contract :: "nat \<Rightarrow> read_result \<Rightarrow> bool" where
  "read_contract room r = (case r of ReadOk d \<Rightarrow> length d \<le> room | ReadErr _ \<Rightarrow> True)"

text \<open>A write never takes more bytes than it was given.\<close>

definition write_contract :: "nat \<Rightarrow> write_result \<Rightarrow> bool" where
  "write_contract len r = (case r of WriteOk n \<Rightarrow> n \<le> len | WriteErr _ \<Rightarrow> True)"

lemma read_contract_simps [simp]:
  "read_contract room (ReadOk d) \<longleftrightarrow> length d \<le> room"
  "read_contract room (ReadErr e)"
  by (simp_all add: read_contract_def)

lemma write_contract_simps [simp]:
  "write_contract len (WriteOk n) \<longleftrightarrow> n \<le> len"
  "write_contract len (WriteErr e)"
  by (simp_all add: write_contract_def)

section \<open>Broken-down time\<close>

text \<open>\<^verbatim>\<open>struct tm\<close> of \<^verbatim>\<open>time.h\<close>, the members the code uses.\<close>

record tm =
  tm_sec :: int
  tm_min :: int
  tm_hour :: int
  tm_mday :: int
  tm_mon :: int
  tm_year :: int
  tm_wday :: int
  tm_yday :: int
  tm_isdst :: int
  tm_gmtoff :: int
  tm_zone :: string

section \<open>Error numbers\<close>

abbreviation (input) EPERM :: int where "EPERM \<equiv> 1"
abbreviation (input) EINTR :: int where "EINTR \<equiv> 4"
abbreviation (input) EBADF :: int where "EBADF \<equiv> 9"
abbreviation (input) EAGAIN :: int where "EAGAIN \<equiv> 11"
abbreviation (input) ENOMEM :: int where "ENOMEM \<equiv> 12"
abbreviation (input) EACCES :: int where "EACCES \<equiv> 13"
abbreviation (input) EFAULT :: int where "EFAULT \<equiv> 14"
abbreviation (input) EINVAL :: int where "EINVAL \<equiv> 22"
abbreviation (input) ENFILE :: int where "ENFILE \<equiv> 23"
abbreviation (input) EMFILE :: int where "EMFILE \<equiv> 24"
abbreviation (input) EPIPE :: int where "EPIPE \<equiv> 32"
abbreviation (input) EPROTO :: int where "EPROTO \<equiv> 71"
abbreviation (input) ENOTSOCK :: int where "ENOTSOCK \<equiv> 88"
abbreviation (input) EOPNOTSUPP :: int where "EOPNOTSUPP \<equiv> 95"
abbreviation (input) EAFNOSUPPORT :: int where "EAFNOSUPPORT \<equiv> 97"
abbreviation (input) EADDRINUSE :: int where "EADDRINUSE \<equiv> 98"
abbreviation (input) EADDRNOTAVAIL :: int where "EADDRNOTAVAIL \<equiv> 99"
abbreviation (input) ENETUNREACH :: int where "ENETUNREACH \<equiv> 101"
abbreviation (input) ECONNABORTED :: int where "ECONNABORTED \<equiv> 103"
abbreviation (input) ECONNRESET :: int where "ECONNRESET \<equiv> 104"
abbreviation (input) ENOBUFS :: int where "ENOBUFS \<equiv> 105"
abbreviation (input) EISCONN :: int where "EISCONN \<equiv> 106"
abbreviation (input) ETIMEDOUT :: int where "ETIMEDOUT \<equiv> 110"
abbreviation (input) ECONNREFUSED :: int where "ECONNREFUSED \<equiv> 111"
abbreviation (input) EHOSTUNREACH :: int where "EHOSTUNREACH \<equiv> 113"
abbreviation (input) EALREADY :: int where "EALREADY \<equiv> 114"
abbreviation (input) EINPROGRESS :: int where "EINPROGRESS \<equiv> 115"
abbreviation (input) EWOULDBLOCK :: int where "EWOULDBLOCK \<equiv> EAGAIN"

end
