(* ===== verification/Byte_Queue.thy ===== *)
theory Byte_Queue
  imports Posix
begin

text \<open>
  The interface of a byte buffer as a queue: append bytes at the back, take bytes off the front.
  The two buffers of the library, the vector of buffer.h and the ring of circularbuffer.h, provide
  it; a connection and the stream properties use nothing else of them.
\<close>

section \<open>Scripts of appends and retrieves\<close>

datatype queue_op = Put "byte list" | Get nat

fun queue_run ::
  "('q \<Rightarrow> byte list \<Rightarrow> 'q res) \<Rightarrow> ('q \<Rightarrow> nat \<Rightarrow> 'q res) \<Rightarrow> 'q \<Rightarrow> queue_op list \<Rightarrow> 'q res" where
  "queue_run put get q [] = Inr q"
| "queue_run put get q (Put d # xs) = bindR (put q d) (\<lambda>q'. queue_run put get q' xs)"
| "queue_run put get q (Get n # xs) = bindR (get q n) (\<lambda>q'. queue_run put get q' xs)"

text \<open>
  The same script on an ideal queue; \<open>queue_fits M\<close> says that it never takes more than there is
  and never holds more than \<open>M\<close> bytes.
\<close>

fun queue_after :: "byte list \<Rightarrow> queue_op list \<Rightarrow> byte list" where
  "queue_after c [] = c"
| "queue_after c (Put d # xs) = queue_after (c @ d) xs"
| "queue_after c (Get n # xs) = queue_after (drop n c) xs"

fun queue_fits :: "nat \<Rightarrow> byte list \<Rightarrow> queue_op list \<Rightarrow> bool" where
  "queue_fits M c [] \<longleftrightarrow> length c \<le> M"
| "queue_fits M c (Put d # xs) \<longleftrightarrow> length c + length d \<le> M \<and> queue_fits M (c @ d) xs"
| "queue_fits M c (Get n # xs) \<longleftrightarrow> n \<le> length c \<and> queue_fits M (drop n c) xs"

text \<open>All bytes put by a script, and how many it takes.\<close>

fun queue_puts :: "queue_op list \<Rightarrow> byte list" where
  "queue_puts [] = []"
| "queue_puts (Put d # xs) = d @ queue_puts xs"
| "queue_puts (Get n # xs) = queue_puts xs"

fun queue_gets :: "queue_op list \<Rightarrow> nat" where
  "queue_gets [] = 0"
| "queue_gets (Put d # xs) = queue_gets xs"
| "queue_gets (Get n # xs) = n + queue_gets xs"

lemma queue_fits_gets: "queue_fits M c xs \<Longrightarrow> queue_gets xs \<le> length c + length (queue_puts xs)"
  by (induction xs arbitrary: c rule: queue_puts.induct) fastforce+

text \<open>First in, first out: what is left is what was put, less as many bytes from the front.\<close>

lemma queue_after_fifo:
  "queue_fits M c xs \<Longrightarrow> queue_after c xs = drop (queue_gets xs) (c @ queue_puts xs)"
proof (induction xs arbitrary: c rule: queue_puts.induct)
  case (3 n xs)
  then have "queue_after c (Get n # xs) = drop (queue_gets xs) (drop n c @ queue_puts xs)"
    by simp
  also have "drop n c @ queue_puts xs = drop n (c @ queue_puts xs)"
    using 3 by simp
  finally show ?case
    by (simp only: drop_drop queue_gets.simps queue_puts.simps add.commute)
qed simp_all

section \<open>The interface\<close>

text \<open>
  The laws of a provider. \<open>size\<close> is the memory it holds; it grows with the content only, so
  that a bound on the content bounds the memory, whatever the number of calls.
\<close>

locale byte_queue =
  fixes inv :: "'q \<Rightarrow> bool"
    and content :: "'q \<Rightarrow> byte list"
    and size :: "'q \<Rightarrow> nat"
    and put :: "'q \<Rightarrow> byte list \<Rightarrow> 'q res"
    and get :: "'q \<Rightarrow> nat \<Rightarrow> 'q res"
    and limit :: nat
  assumes put_ok: "inv q \<Longrightarrow> max (size q) (2 * (length (content q) + length d) + 8) \<le> limit \<Longrightarrow>
      returns (put q d) (\<lambda>q'. inv q' \<and> content q' = content q @ d \<and>
        size q' \<le> max (size q) (2 * (length (content q) + length d) + 8))"
    and get_ok: "inv q \<Longrightarrow> n \<le> length (content q) \<Longrightarrow>
      returns (get q n) (\<lambda>q'. inv q' \<and> content q' = drop n (content q) \<and> size q' = size q)"
begin

lemma run_ok:
  assumes "inv q" "queue_fits M (content q) xs" "max (size q) (2 * M + 8) \<le> limit"
  shows "returns (queue_run put get q xs)
     (\<lambda>q'. inv q' \<and> content q' = queue_after (content q) xs \<and> size q' \<le> max (size q) (2 * M + 8))"
  using assms
proof (induction xs arbitrary: q rule: queue_puts.induct)
  case 1
  then show ?case by simp
next
  case (2 d xs)
  then have "returns (put q d) (\<lambda>q'. inv q' \<and> content q' = content q @ d \<and>
      size q' \<le> max (size q) (2 * M + 8))"
    using put_ok [of q d] by (auto elim!: returns_mono)
  then show ?case
    unfolding queue_run.simps
  proof (rule returns_bind)
    fix q'
    assume q': "inv q' \<and> content q' = content q @ d \<and> size q' \<le> max (size q) (2 * M + 8)"
    then show "returns (queue_run put get q' xs) (\<lambda>q'. inv q' \<and>
        content q' = queue_after (content q) (Put d # xs) \<and> size q' \<le> max (size q) (2 * M + 8))"
      using 2 by (intro returns_mono [OF "2.IH" [of q']]) auto
  qed
next
  case (3 n xs)
  then have "returns (get q n) (\<lambda>q'. inv q' \<and> content q' = drop n (content q) \<and> size q' = size q)"
    using get_ok [of q n] by simp
  then show ?case
    unfolding queue_run.simps
  proof (rule returns_bind)
    fix q'
    assume q': "inv q' \<and> content q' = drop n (content q) \<and> size q' = size q"
    then show "returns (queue_run put get q' xs) (\<lambda>q'. inv q' \<and>
        content q' = queue_after (content q) (Get n # xs) \<and> size q' \<le> max (size q) (2 * M + 8))"
      using 3 by (intro returns_mono [OF "3.IH" [of q']]) auto
  qed
qed

text \<open>A script from an empty queue leaves the bytes put and not yet taken, in order.\<close>

lemma run_fifo:
  assumes "inv q" "content q = []" "queue_fits M [] xs" "max (size q) (2 * M + 8) \<le> limit"
  shows "returns (queue_run put get q xs)
     (\<lambda>q'. inv q' \<and> content q' = drop (queue_gets xs) (queue_puts xs) \<and>
           size q' \<le> max (size q) (2 * M + 8))"
  using run_ok [of q M xs] queue_after_fifo [of M "[]" xs] assms by simp

end

end
