(* ===== verification/Buffer.thy ===== *)
theory Buffer
  imports Byte_Queue
begin

text \<open>
  The byte buffer of buffer.h and buffer.cc: a vector with a reader and a writer index, bytes to
  be read between them, and eight spare bytes in front for a length prefix. The theory has every
  operation of the class, the invariant of the indices, and the view of the buffer as a queue of
  bytes that each operation implements.
\<close>

section \<open>State\<close>

record Buffer =
  b_buffer :: "byte list"
  b_readerIndex :: nat
  b_writerIndex :: nat

definition kCheapPrepend :: nat where
  "kCheapPrepend = 8"

definition kInitialSize :: nat where
  "kInitialSize = 1024"

definition Buffer_prependableBytes :: "Buffer \<Rightarrow> nat" where
  "Buffer_prependableBytes b = b_readerIndex b"

definition Buffer_readableBytes :: "Buffer \<Rightarrow> nat" where
  "Buffer_readableBytes b = szsub (b_writerIndex b) (b_readerIndex b)"

definition Buffer_writableBytes :: "Buffer \<Rightarrow> nat" where
  "Buffer_writableBytes b = szsub (length (b_buffer b)) (b_writerIndex b)"

definition Buffer_new :: "bool \<Rightarrow> nat \<Rightarrow> Buffer res" where
  "Buffer_new dbg initialSize =
     bindR (vec_resize 0 [] (szadd kCheapPrepend initialSize)) (\<lambda>v.
       let b = \<lparr>b_buffer = v, b_readerIndex = kCheapPrepend, b_writerIndex = kCheapPrepend\<rparr> in
       cassert dbg (Buffer_readableBytes b = 0)
         (cassert dbg (Buffer_writableBytes b = initialSize)
           (cassert dbg (Buffer_prependableBytes b = kCheapPrepend) (Inr b))))"

definition Buffer_swap :: "Buffer \<Rightarrow> Buffer \<Rightarrow> Buffer \<times> Buffer" where
  "Buffer_swap b other =
     (b\<lparr>b_buffer := b_buffer other, b_readerIndex := b_readerIndex other,
        b_writerIndex := b_writerIndex other\<rparr>,
      other\<lparr>b_buffer := b_buffer b, b_readerIndex := b_readerIndex b,
        b_writerIndex := b_writerIndex b\<rparr>)"

section \<open>Prepending\<close>

definition Buffer_prepend :: "bool \<Rightarrow> Buffer \<Rightarrow> byte list \<Rightarrow> Buffer res" where
  "Buffer_prepend dbg b data =
     cassert dbg (length data \<le> Buffer_prependableBytes b)
       (let r = szsub (b_readerIndex b) (length data) in
        bindR (copy_to (b_buffer b) r data) (\<lambda>v.
          Inr (b\<lparr>b_buffer := v, b_readerIndex := r\<rparr>)))"

definition Buffer_prependInt64 :: "bool \<Rightarrow> endian \<Rightarrow> Buffer \<Rightarrow> 64 word \<Rightarrow> Buffer res" where
  "Buffer_prependInt64 dbg h b x = Buffer_prepend dbg b (mem_bytes h 8 (hostToNet64 h x))"

definition Buffer_prependInt32 :: "bool \<Rightarrow> endian \<Rightarrow> Buffer \<Rightarrow> 32 word \<Rightarrow> Buffer res" where
  "Buffer_prependInt32 dbg h b x = Buffer_prepend dbg b (mem_bytes h 4 (hostToNet32 h x))"

definition Buffer_prependInt16 :: "bool \<Rightarrow> endian \<Rightarrow> Buffer \<Rightarrow> 16 word \<Rightarrow> Buffer res" where
  "Buffer_prependInt16 dbg h b x = Buffer_prepend dbg b (mem_bytes h 2 (hostToNet16 h x))"

definition Buffer_prependInt8 :: "bool \<Rightarrow> Buffer \<Rightarrow> 8 word \<Rightarrow> Buffer res" where
  "Buffer_prependInt8 dbg b x = Buffer_prepend dbg b [x]"

section \<open>Reading\<close>

text \<open>
  \<^verbatim>\<open>memcpy(&i, peek(), n)\<close> after the assert that \<open>n\<close> bytes can be read; without
  asserts the copy may read bytes past the writer, and past the vector it is out of bounds.
\<close>

definition Buffer_peekBytes :: "bool \<Rightarrow> Buffer \<Rightarrow> nat \<Rightarrow> byte list res" where
  "Buffer_peekBytes dbg b n =
     cassert dbg (n \<le> Buffer_readableBytes b) (copy_from (b_buffer b) (b_readerIndex b) n)"

definition Buffer_peekInt64 :: "bool \<Rightarrow> endian \<Rightarrow> Buffer \<Rightarrow> 64 word res" where
  "Buffer_peekInt64 dbg h b =
     bindR (Buffer_peekBytes dbg b 8) (\<lambda>m. Inr (netToHost64 h (of_mem_bytes h m)))"

definition Buffer_peekInt32 :: "bool \<Rightarrow> endian \<Rightarrow> Buffer \<Rightarrow> 32 word res" where
  "Buffer_peekInt32 dbg h b =
     bindR (Buffer_peekBytes dbg b 4) (\<lambda>m. Inr (netToHost32 h (of_mem_bytes h m)))"

definition Buffer_peekInt16 :: "bool \<Rightarrow> endian \<Rightarrow> Buffer \<Rightarrow> 16 word res" where
  "Buffer_peekInt16 dbg h b =
     bindR (Buffer_peekBytes dbg b 2) (\<lambda>m. Inr (netToHost16 h (of_mem_bytes h m)))"

definition Buffer_peekInt8 :: "bool \<Rightarrow> Buffer \<Rightarrow> 8 word res" where
  "Buffer_peekInt8 dbg b = bindR (Buffer_peekBytes dbg b 1) (\<lambda>m. Inr (hd m))"

definition Buffer_retrieveAll :: "Buffer \<Rightarrow> Buffer" where
  "Buffer_retrieveAll b = b\<lparr>b_readerIndex := kCheapPrepend, b_writerIndex := kCheapPrepend\<rparr>"

definition Buffer_retrieve :: "bool \<Rightarrow> Buffer \<Rightarrow> nat \<Rightarrow> Buffer res" where
  "Buffer_retrieve dbg b len =
     cassert dbg (len \<le> Buffer_readableBytes b)
       (if len < Buffer_readableBytes b
        then Inr (b\<lparr>b_readerIndex := szadd (b_readerIndex b) len\<rparr>)
        else Inr (Buffer_retrieveAll b))"

definition Buffer_retrieveInt64 :: "bool \<Rightarrow> Buffer \<Rightarrow> Buffer res" where
  "Buffer_retrieveInt64 dbg b = Buffer_retrieve dbg b 8"

definition Buffer_retrieveInt32 :: "bool \<Rightarrow> Buffer \<Rightarrow> Buffer res" where
  "Buffer_retrieveInt32 dbg b = Buffer_retrieve dbg b 4"

definition Buffer_retrieveInt16 :: "bool \<Rightarrow> Buffer \<Rightarrow> Buffer res" where
  "Buffer_retrieveInt16 dbg b = Buffer_retrieve dbg b 2"

definition Buffer_retrieveInt8 :: "bool \<Rightarrow> Buffer \<Rightarrow> Buffer res" where
  "Buffer_retrieveInt8 dbg b = Buffer_retrieve dbg b 1"

definition Buffer_readInt64 :: "bool \<Rightarrow> endian \<Rightarrow> Buffer \<Rightarrow> (64 word \<times> Buffer) res" where
  "Buffer_readInt64 dbg h b =
     bindR (Buffer_peekInt64 dbg h b) (\<lambda>i. bindR (Buffer_retrieveInt64 dbg b) (\<lambda>b'. Inr (i, b')))"

definition Buffer_readInt32 :: "bool \<Rightarrow> endian \<Rightarrow> Buffer \<Rightarrow> (32 word \<times> Buffer) res" where
  "Buffer_readInt32 dbg h b =
     bindR (Buffer_peekInt32 dbg h b) (\<lambda>i. bindR (Buffer_retrieveInt32 dbg b) (\<lambda>b'. Inr (i, b')))"

definition Buffer_readInt16 :: "bool \<Rightarrow> endian \<Rightarrow> Buffer \<Rightarrow> (16 word \<times> Buffer) res" where
  "Buffer_readInt16 dbg h b =
     bindR (Buffer_peekInt16 dbg h b) (\<lambda>i. bindR (Buffer_retrieveInt16 dbg b) (\<lambda>b'. Inr (i, b')))"

definition Buffer_readInt8 :: "bool \<Rightarrow> Buffer \<Rightarrow> (8 word \<times> Buffer) res" where
  "Buffer_readInt8 dbg b =
     bindR (Buffer_peekInt8 dbg b) (\<lambda>i. bindR (Buffer_retrieveInt8 dbg b) (\<lambda>b'. Inr (i, b')))"

text \<open>The pointer \<open>e\<close> is an offset into the vector.\<close>

definition Buffer_retrieveUntil :: "bool \<Rightarrow> Buffer \<Rightarrow> nat \<Rightarrow> Buffer res" where
  "Buffer_retrieveUntil dbg b e =
     cassert dbg (b_readerIndex b \<le> e)
       (cassert dbg (e \<le> b_writerIndex b)
         (Buffer_retrieve dbg b (szsub e (b_readerIndex b))))"

definition Buffer_retrieveAsString :: "bool \<Rightarrow> Buffer \<Rightarrow> nat \<Rightarrow> (byte list \<times> Buffer) res" where
  "Buffer_retrieveAsString dbg b len =
     cassert dbg (len \<le> Buffer_readableBytes b)
       (bindR (copy_from (b_buffer b) (b_readerIndex b) len) (\<lambda>ret.
          bindR (Buffer_retrieve dbg b len) (\<lambda>b'. Inr (ret, b'))))"

definition Buffer_retrieveAllAsString :: "bool \<Rightarrow> Buffer \<Rightarrow> (byte list \<times> Buffer) res" where
  "Buffer_retrieveAllAsString dbg b = Buffer_retrieveAsString dbg b (Buffer_readableBytes b)"

definition Buffer_toStringView :: "Buffer \<Rightarrow> byte list res" where
  "Buffer_toStringView b = copy_from (b_buffer b) (b_readerIndex b) (Buffer_readableBytes b)"

section \<open>Writing\<close>

definition Buffer_hasWritten :: "bool \<Rightarrow> Buffer \<Rightarrow> nat \<Rightarrow> Buffer res" where
  "Buffer_hasWritten dbg b len =
     cassert dbg (len \<le> Buffer_writableBytes b)
       (Inr (b\<lparr>b_writerIndex := szadd (b_writerIndex b) len\<rparr>))"

definition Buffer_unwrite :: "bool \<Rightarrow> Buffer \<Rightarrow> nat \<Rightarrow> Buffer res" where
  "Buffer_unwrite dbg b len =
     cassert dbg (len \<le> Buffer_readableBytes b)
       (Inr (b\<lparr>b_writerIndex := szsub (b_writerIndex b) len\<rparr>))"

text \<open>
  \<^verbatim>\<open>extend\<close>: grow the vector when the free bytes on both sides do not suffice, else move the
  readable bytes to the front. The move is a forward copy to a lower address.
\<close>

definition Buffer_extend :: "bool \<Rightarrow> Buffer \<Rightarrow> nat \<Rightarrow> Buffer res" where
  "Buffer_extend dbg b len =
     (if szadd (Buffer_writableBytes b) (Buffer_prependableBytes b) < szadd len kCheapPrepend
      then bindR (vec_resize 0 (b_buffer b) (szadd (b_writerIndex b) len)) (\<lambda>v.
             Inr (b\<lparr>b_buffer := v\<rparr>))
      else cassert dbg (kCheapPrepend < b_readerIndex b)
        (let readable = Buffer_readableBytes b in
         bindR (copy_from (b_buffer b) (b_readerIndex b) readable) (\<lambda>m.
         bindR (copy_to (b_buffer b) kCheapPrepend m) (\<lambda>v.
           let b' = b\<lparr>b_buffer := v, b_readerIndex := kCheapPrepend,
                      b_writerIndex := szadd kCheapPrepend readable\<rparr> in
           cassert dbg (readable = Buffer_readableBytes b') (Inr b')))))"

definition Buffer_ensureWritableBytes :: "bool \<Rightarrow> Buffer \<Rightarrow> nat \<Rightarrow> Buffer res" where
  "Buffer_ensureWritableBytes dbg b len =
     bindR (if Buffer_writableBytes b < len then Buffer_extend dbg b len else Inr b) (\<lambda>b'.
       cassert dbg (len \<le> Buffer_writableBytes b') (Inr b'))"

definition Buffer_append :: "bool \<Rightarrow> Buffer \<Rightarrow> byte list \<Rightarrow> Buffer res" where
  "Buffer_append dbg b data =
     bindR (Buffer_ensureWritableBytes dbg b (length data)) (\<lambda>b'.
     bindR (copy_to (b_buffer b') (b_writerIndex b') data) (\<lambda>v.
       Buffer_hasWritten dbg (b'\<lparr>b_buffer := v\<rparr>) (length data)))"

definition Buffer_appendInt64 :: "bool \<Rightarrow> endian \<Rightarrow> Buffer \<Rightarrow> 64 word \<Rightarrow> Buffer res" where
  "Buffer_appendInt64 dbg h b x = Buffer_append dbg b (mem_bytes h 8 (hostToNet64 h x))"

definition Buffer_appendInt32 :: "bool \<Rightarrow> endian \<Rightarrow> Buffer \<Rightarrow> 32 word \<Rightarrow> Buffer res" where
  "Buffer_appendInt32 dbg h b x = Buffer_append dbg b (mem_bytes h 4 (hostToNet32 h x))"

definition Buffer_appendInt16 :: "bool \<Rightarrow> endian \<Rightarrow> Buffer \<Rightarrow> 16 word \<Rightarrow> Buffer res" where
  "Buffer_appendInt16 dbg h b x = Buffer_append dbg b (mem_bytes h 2 (hostToNet16 h x))"

definition Buffer_appendInt8 :: "bool \<Rightarrow> Buffer \<Rightarrow> 8 word \<Rightarrow> Buffer res" where
  "Buffer_appendInt8 dbg b x = Buffer_append dbg b [x]"

text \<open>
  \<^verbatim>\<open>readFd\<close>: one \<^verbatim>\<open>readv\<close> into the free bytes of the vector and, when those are
  fewer than 65536, a second array on the stack, whose bytes are then appended. the argument \<open>readv\<close> gives
  the outcome of \<^verbatim>\<open>readv\<close> for the room it was offered. Returns the call's result, the
  saved error number if it was set, and the buffer.
\<close>

definition extrabuf_size :: nat where
  "extrabuf_size = 65536"

definition Buffer_readRoom :: "Buffer \<Rightarrow> nat" where
  "Buffer_readRoom b =
     (let writable = Buffer_writableBytes b in
      if writable < extrabuf_size then writable + extrabuf_size else writable)"

definition Buffer_readFd ::
  "bool \<Rightarrow> (nat \<Rightarrow> read_result) \<Rightarrow> Buffer \<Rightarrow> (int \<times> int option \<times> Buffer) res" where
  "Buffer_readFd dbg readv b =
     (let writable = Buffer_writableBytes b in
      case readv (Buffer_readRoom b) of
        ReadErr e \<Rightarrow> Inr (- 1, Some e, b)
      | ReadOk data \<Rightarrow>
          bindR (copy_to (b_buffer b) (b_writerIndex b) (take writable data)) (\<lambda>v.
            let b' = b\<lparr>b_buffer := v\<rparr>; n = length data in
            bindR (if n \<le> writable then Buffer_hasWritten dbg b' n
                   else Buffer_append dbg (b'\<lparr>b_writerIndex := length v\<rparr>) (drop writable data))
              (\<lambda>b''. Inr (int n, None, b''))))"

section \<open>Invariant and abstraction\<close>

text \<open>
  The invariant of the indices, and the bytes the buffer holds for its reader, oldest first.
\<close>

definition Buffer_inv :: "Buffer \<Rightarrow> bool" where
  "Buffer_inv b \<longleftrightarrow>
     b_readerIndex b \<le> b_writerIndex b \<and> b_writerIndex b \<le> length (b_buffer b) \<and>
     kCheapPrepend \<le> length (b_buffer b) \<and> length (b_buffer b) \<le> vec_max"

definition Buffer_content :: "Buffer \<Rightarrow> byte list" where
  "Buffer_content b = slice (b_buffer b) (b_readerIndex b) (b_writerIndex b)"

definition Buffer_size :: "Buffer \<Rightarrow> nat" where
  "Buffer_size b = length (b_buffer b)"

lemma kCheapPrepend_simp [simp]: "kCheapPrepend = 8"
  by (simp add: kCheapPrepend_def)

lemma Buffer_inv_less: "Buffer_inv b \<Longrightarrow> length (b_buffer b) < 2 ^ 64"
  by (simp add: Buffer_inv_def vec_max_def)

lemma Buffer_prependable [simp]: "Buffer_prependableBytes b = b_readerIndex b"
  by (simp add: Buffer_prependableBytes_def)

lemma Buffer_readable:
  "Buffer_inv b \<Longrightarrow> Buffer_readableBytes b = b_writerIndex b - b_readerIndex b"
  by (simp add: Buffer_readableBytes_def Buffer_inv_def vec_max_def szsub_exact)

lemma Buffer_writable:
  "Buffer_inv b \<Longrightarrow> Buffer_writableBytes b = length (b_buffer b) - b_writerIndex b"
  by (simp add: Buffer_writableBytes_def Buffer_inv_def vec_max_def szsub_exact)

lemma length_Buffer_content: "Buffer_inv b \<Longrightarrow> length (Buffer_content b) = Buffer_readableBytes b"
  by (simp add: Buffer_content_def Buffer_readable Buffer_inv_def)

lemma Buffer_content_empty [simp]: "b_readerIndex b = b_writerIndex b \<Longrightarrow> Buffer_content b = []"
  by (simp add: Buffer_content_def)

subsection \<open>Construction\<close>

lemma Buffer_new_ok:
  assumes "8 + n \<le> vec_max"
  shows "returns (Buffer_new dbg n)
     (\<lambda>b. Buffer_inv b \<and> Buffer_content b = [] \<and> Buffer_writableBytes b = n \<and>
          Buffer_prependableBytes b = 8)"
  using assms
  by (simp add: Buffer_new_def vec_max_def vec_resize_def szadd_exact szsub_exact Let_def
      Buffer_inv_def Buffer_readableBytes_def Buffer_writableBytes_def)

lemma Buffer_new_size:
  assumes "8 + n \<le> vec_max"
  shows "returns (Buffer_new dbg n)
     (\<lambda>b. Buffer_inv b \<and> Buffer_content b = [] \<and> Buffer_size b = 8 + n)"
  using assms
  by (simp add: Buffer_new_def vec_max_def vec_resize_def szadd_exact szsub_exact Let_def
      Buffer_inv_def Buffer_readableBytes_def Buffer_writableBytes_def Buffer_size_def)

subsection \<open>Retrieving\<close>

lemma Buffer_retrieveAll_ok:
  assumes "Buffer_inv b"
  shows "Buffer_inv (Buffer_retrieveAll b)" "Buffer_content (Buffer_retrieveAll b) = []"
    "Buffer_size (Buffer_retrieveAll b) = Buffer_size b"
  using assms by (simp_all add: Buffer_retrieveAll_def Buffer_inv_def Buffer_size_def)

lemma Buffer_retrieve_ok:
  assumes inv: "Buffer_inv b" and len: "len \<le> length (Buffer_content b)"
  shows "returns (Buffer_retrieve dbg b len)
     (\<lambda>b'. Buffer_inv b' \<and> Buffer_content b' = drop len (Buffer_content b) \<and>
           Buffer_size b' = Buffer_size b)"
proof (cases "len < Buffer_readableBytes b")
  case True
  with inv have "b_readerIndex b + len < b_writerIndex b"
    by (simp add: Buffer_readable)
  moreover from this inv have "szadd (b_readerIndex b) len = b_readerIndex b + len"
    by (intro szadd_exact) (simp add: Buffer_inv_def vec_max_def)
  ultimately show ?thesis
    using True inv
    by (simp add: Buffer_retrieve_def Buffer_inv_def Buffer_content_def drop_slice Buffer_size_def)
next
  case False
  with inv len show ?thesis
    by (simp add: Buffer_retrieve_def length_Buffer_content Buffer_retrieveAll_ok)
qed

lemma Buffer_peekBytes_ok:
  assumes inv: "Buffer_inv b" and n: "n \<le> length (Buffer_content b)"
  shows "Buffer_peekBytes dbg b n = Inr (take n (Buffer_content b))"
proof -
  have le: "b_readerIndex b + n \<le> b_writerIndex b"
    using n inv by (simp add: length_Buffer_content Buffer_readable Buffer_inv_def le_diff_conv2)
  moreover have "take n (Buffer_content b) = slice (b_buffer b) (b_readerIndex b) (b_readerIndex b + n)"
    unfolding Buffer_content_def by (rule take_slice [OF le])
  ultimately show ?thesis
    using inv n
    by (simp add: Buffer_peekBytes_def copy_from_def length_Buffer_content Buffer_inv_def res_simps)
qed

lemma Buffer_retrieveAsString_eq:
  "Buffer_retrieveAsString dbg b len =
     bindR (Buffer_peekBytes dbg b len) (\<lambda>ret. bindR (Buffer_retrieve dbg b len) (\<lambda>b'. Inr (ret, b')))"
  by (simp add: Buffer_retrieveAsString_def Buffer_peekBytes_def cassert_def)

lemma Buffer_retrieveAsString_ok:
  assumes "Buffer_inv b" "len \<le> length (Buffer_content b)"
  shows "returns (Buffer_retrieveAsString dbg b len)
     (\<lambda>(s, b'). s = take len (Buffer_content b) \<and> Buffer_inv b' \<and>
           Buffer_content b' = drop len (Buffer_content b) \<and> Buffer_size b' = Buffer_size b)"
  unfolding Buffer_retrieveAsString_eq Buffer_peekBytes_ok [OF assms] bindR_simps
  by (rule returns_bind [OF Buffer_retrieve_ok [OF assms]]) simp

lemma Buffer_toStringView_ok:
  assumes "Buffer_inv b"
  shows "Buffer_toStringView b = Inr (Buffer_content b)"
  using assms
  by (simp add: Buffer_toStringView_def copy_from_def Buffer_readable Buffer_content_def Buffer_inv_def)

lemma Buffer_retrieveUntil_ok:
  assumes inv: "Buffer_inv b" and e: "b_readerIndex b \<le> e" "e \<le> b_writerIndex b"
  shows "returns (Buffer_retrieveUntil dbg b e)
     (\<lambda>b'. Buffer_inv b' \<and> Buffer_content b' = slice (b_buffer b) e (b_writerIndex b) \<and>
           Buffer_size b' = Buffer_size b)"
proof -
  have sub: "szsub e (b_readerIndex b) = e - b_readerIndex b"
    using inv e by (intro szsub_exact) (simp_all add: Buffer_inv_def vec_max_def)
  have "e - b_readerIndex b \<le> length (Buffer_content b)"
    using inv e by (simp add: length_Buffer_content Buffer_readable)
  from Buffer_retrieve_ok [OF inv this, of dbg]
  show ?thesis
    using e by (simp add: Buffer_retrieveUntil_def sub Buffer_content_def drop_slice)
qed

subsection \<open>Prepending\<close>

lemma Buffer_prepend_ok:
  assumes inv: "Buffer_inv b" and len: "length data \<le> Buffer_prependableBytes b"
  shows "returns (Buffer_prepend dbg b data)
     (\<lambda>b'. Buffer_inv b' \<and> Buffer_content b' = data @ Buffer_content b \<and>
           Buffer_size b' = Buffer_size b \<and>
           Buffer_prependableBytes b' = Buffer_prependableBytes b - length data)"
proof -
  let ?r = "b_readerIndex b - length data"
  have sub: "szsub (b_readerIndex b) (length data) = ?r"
    using inv len by (intro szsub_exact) (simp_all add: Buffer_inv_def vec_max_def)
  have r: "?r + length data = b_readerIndex b" using len by simp
  obtain v where v: "copy_to (b_buffer b) ?r data = Inr v"
    using inv len by (simp add: copy_to_def Buffer_inv_def)
  have "slice v ?r (b_writerIndex b)
      = slice v ?r (?r + length data) @ slice v (b_readerIndex b) (b_writerIndex b)"
    using slice_split [of ?r "b_readerIndex b" "b_writerIndex b" v] inv r
    by (simp add: Buffer_inv_def)
  also have "\<dots> = data @ slice (b_buffer b) (b_readerIndex b) (b_writerIndex b)"
    using slice_copy_at [OF v] slice_copy_after [OF v] r by simp
  finally show ?thesis
    using inv len v copy_to_length [OF v]
    by (auto simp: Buffer_prepend_def sub Let_def Buffer_inv_def Buffer_content_def Buffer_size_def)
qed

subsection \<open>Making room and appending\<close>

lemma Buffer_extend_grow_ok:
  assumes inv: "Buffer_inv b" and small: "Buffer_writableBytes b < len"
    and free: "Buffer_writableBytes b + b_readerIndex b < len + 8"
    and room: "b_writerIndex b + len \<le> vec_max"
  shows "returns (Buffer_extend dbg b len)
     (\<lambda>b'. Buffer_inv b' \<and> Buffer_content b' = Buffer_content b \<and>
           len \<le> Buffer_writableBytes b' \<and> Buffer_size b' = b_writerIndex b + len)"
proof -
  let ?v = "b_buffer b @ replicate (b_writerIndex b + len - length (b_buffer b)) 0"
  have w: "Buffer_writableBytes b = length (b_buffer b) - b_writerIndex b"
    by (rule Buffer_writable [OF inv])
  have le: "length (b_buffer b) \<le> b_writerIndex b + len"
    using small inv by (simp add: w Buffer_inv_def)
  have add: "szadd (Buffer_writableBytes b) (b_readerIndex b) = Buffer_writableBytes b + b_readerIndex b"
            "szadd len 8 = len + 8" "szadd (b_writerIndex b) len = b_writerIndex b + len"
    using inv room by (auto simp: szadd_def w Buffer_inv_def vec_max_def intro!: mod_less)
  have "vec_resize 0 (b_buffer b) (b_writerIndex b + len) = Inr ?v"
    using vec_resize_grow [OF le room] by simp
  then have e: "Buffer_extend dbg b len = Inr (b\<lparr>b_buffer := ?v\<rparr>)"
    using free by (simp add: Buffer_extend_def add)
  have i: "Buffer_inv (b\<lparr>b_buffer := ?v\<rparr>)"
    using inv le room by (simp add: Buffer_inv_def)
  then show ?thesis
    using inv le by (simp add: e Buffer_content_def slice_append_left Buffer_inv_def
        Buffer_writable Buffer_size_def)
qed

lemma Buffer_extend_move_ok:
  assumes inv: "Buffer_inv b" and small: "Buffer_writableBytes b < len"
    and free: "len + 8 \<le> Buffer_writableBytes b + b_readerIndex b"
  shows "returns (Buffer_extend dbg b len)
     (\<lambda>b'. Buffer_inv b' \<and> Buffer_content b' = Buffer_content b \<and>
           len \<le> Buffer_writableBytes b' \<and> Buffer_size b' = Buffer_size b)"
proof -
  let ?n = "Buffer_readableBytes b"
  have w: "Buffer_writableBytes b = length (b_buffer b) - b_writerIndex b"
    by (rule Buffer_writable [OF inv])
  have n: "?n = b_writerIndex b - b_readerIndex b" by (rule Buffer_readable [OF inv])
  have r8: "8 < b_readerIndex b" using small free by simp
  have add: "szadd (Buffer_writableBytes b) (b_readerIndex b) = Buffer_writableBytes b + b_readerIndex b"
            "szadd len 8 = len + 8" "szadd 8 ?n = 8 + ?n"
    using inv small r8 free
    by (auto simp: szadd_def w n Buffer_inv_def vec_max_def intro!: mod_less)
  have from': "copy_from (b_buffer b) (b_readerIndex b) ?n = Inr (Buffer_content b)"
    using Buffer_toStringView_ok [OF inv] by (simp add: Buffer_toStringView_def)
  have len_c: "length (Buffer_content b) = ?n" by (rule length_Buffer_content [OF inv])
  have "8 + length (Buffer_content b) \<le> length (b_buffer b)"
    using inv r8 by (auto simp: len_c n Buffer_inv_def)
  then obtain v where v: "copy_to (b_buffer b) 8 (Buffer_content b) = Inr v"
    by (simp add: copy_to_def)
  let ?b' = "b\<lparr>b_buffer := v, b_readerIndex := 8, b_writerIndex := 8 + ?n\<rparr>"
  have lv: "length v = length (b_buffer b)" by (rule copy_to_length [OF v])
  have inv': "Buffer_inv ?b'"
    using inv r8 by (auto simp: Buffer_inv_def n lv)
  have "Buffer_content ?b' = Buffer_content b"
    using slice_copy_at [OF v] by (simp add: Buffer_content_def [of ?b'] len_c)
  moreover have "Buffer_extend dbg b len = Inr ?b'"
    using free r8 inv'
    by (simp add: Buffer_extend_def add from' v Let_def Buffer_readable)
  moreover have "len \<le> Buffer_writableBytes ?b'"
    unfolding Buffer_writable [OF inv'] using free inv r8
    by (auto simp: w n lv Buffer_inv_def)
  ultimately show ?thesis
    using inv' by (simp add: Buffer_size_def lv)
qed

text \<open>
  Making room keeps the content. The vector grows only when the free bytes on both sides do not
  suffice, and then to less than twice the bytes it has to hold, plus eight.
\<close>

lemma Buffer_ensureWritableBytes_ok:
  assumes inv: "Buffer_inv b"
    and room: "max (Buffer_size b) (2 * (length (Buffer_content b) + len) + 8) \<le> vec_max"
  shows "returns (Buffer_ensureWritableBytes dbg b len)
     (\<lambda>b'. Buffer_inv b' \<and> Buffer_content b' = Buffer_content b \<and>
           len \<le> Buffer_writableBytes b' \<and>
           Buffer_size b' \<le> max (Buffer_size b) (2 * (length (Buffer_content b) + len) + 8))"
proof (cases "Buffer_writableBytes b < len")
  case False
  then show ?thesis using inv by (simp add: Buffer_ensureWritableBytes_def)
next
  case small: True
  have content: "length (Buffer_content b) = b_writerIndex b - b_readerIndex b"
    using inv by (simp add: length_Buffer_content Buffer_readable)
  have "returns (Buffer_extend dbg b len)
     (\<lambda>b'. Buffer_inv b' \<and> Buffer_content b' = Buffer_content b \<and> len \<le> Buffer_writableBytes b' \<and>
           Buffer_size b' \<le> max (Buffer_size b) (2 * (length (Buffer_content b) + len) + 8))"
  proof (cases "Buffer_writableBytes b + b_readerIndex b < len + 8")
    case free: True
    have bound: "b_writerIndex b + len \<le> 2 * (length (Buffer_content b) + len) + 8"
      using free inv content by (auto simp: Buffer_inv_def)
    then have "b_writerIndex b + len \<le> vec_max" using room by linarith
    from Buffer_extend_grow_ok [OF inv small free this, of dbg] show ?thesis
      by (rule returns_mono) (use bound in auto)
  next
    case False
    then have "len + 8 \<le> Buffer_writableBytes b + b_readerIndex b" by simp
    from Buffer_extend_move_ok [OF inv small this, of dbg] show ?thesis
      by (rule returns_mono) simp
  qed
  then show ?thesis
    using small by (auto simp: Buffer_ensureWritableBytes_def intro: returns_bind)
qed

lemma Buffer_write_ok:
  assumes inv: "Buffer_inv b" and len: "length data \<le> Buffer_writableBytes b"
  shows "returns (bindR (copy_to (b_buffer b) (b_writerIndex b) data) (\<lambda>v.
            Buffer_hasWritten dbg (b\<lparr>b_buffer := v\<rparr>) (length data)))
     (\<lambda>b'. Buffer_inv b' \<and> Buffer_content b' = Buffer_content b @ data \<and>
           Buffer_size b' = Buffer_size b \<and>
           Buffer_writableBytes b' = Buffer_writableBytes b - length data)"
proof -
  let ?w = "b_writerIndex b"
  have fit: "?w + length data \<le> length (b_buffer b)"
    using inv len by (auto simp: Buffer_writable Buffer_inv_def)
  then obtain v where v: "copy_to (b_buffer b) ?w data = Inr v"
    by (simp add: copy_to_def)
  have lv: "length v = length (b_buffer b)" by (rule copy_to_length [OF v])
  have add: "szadd ?w (length data) = ?w + length data"
    using fit inv by (intro szadd_exact) (simp add: Buffer_inv_def vec_max_def)
  let ?b' = "b\<lparr>b_buffer := v, b_writerIndex := ?w + length data\<rparr>"
  have inv': "Buffer_inv ?b'" "Buffer_inv (b\<lparr>b_buffer := v\<rparr>)"
    using inv fit by (simp_all add: Buffer_inv_def lv)
  have "Buffer_content ?b' = slice v (b_readerIndex b) ?w @ slice v ?w (?w + length data)"
    using inv slice_split [of "b_readerIndex b" ?w "?w + length data" v]
    by (simp add: Buffer_content_def Buffer_inv_def)
  also have "\<dots> = Buffer_content b @ data"
    using slice_copy_before [OF v] slice_copy_at [OF v] by (simp add: Buffer_content_def)
  finally show ?thesis
    using inv inv' len fit
    by (simp add: v Buffer_hasWritten_def add Buffer_writable Buffer_size_def lv)
qed

lemma Buffer_append_ok:
  assumes inv: "Buffer_inv b"
    and room: "max (Buffer_size b) (2 * (length (Buffer_content b) + length data) + 8) \<le> vec_max"
  shows "returns (Buffer_append dbg b data)
     (\<lambda>b'. Buffer_inv b' \<and> Buffer_content b' = Buffer_content b @ data \<and>
           Buffer_size b' \<le> max (Buffer_size b) (2 * (length (Buffer_content b) + length data) + 8))"
  unfolding Buffer_append_def
  by (rule returns_bind [OF Buffer_ensureWritableBytes_ok [OF assms]])
    (auto elim!: returns_mono [OF Buffer_write_ok])

lemma Buffer_unwrite_ok:
  assumes inv: "Buffer_inv b" and len: "len \<le> length (Buffer_content b)"
  shows "returns (Buffer_unwrite dbg b len)
     (\<lambda>b'. Buffer_inv b' \<and> Buffer_size b' = Buffer_size b \<and>
           Buffer_content b' = take (length (Buffer_content b) - len) (Buffer_content b))"
proof -
  have le: "len \<le> b_writerIndex b - b_readerIndex b"
    using inv len by (simp add: length_Buffer_content Buffer_readable)
  have sub: "szsub (b_writerIndex b) len = b_writerIndex b - len"
    using inv le by (intro szsub_exact) (simp_all add: Buffer_inv_def vec_max_def)
  have l: "length (Buffer_content b) - len = b_writerIndex b - len - b_readerIndex b"
    using inv by (simp add: length_Buffer_content Buffer_readable)
  have "take (length (Buffer_content b) - len) (Buffer_content b)
      = slice (b_buffer b) (b_readerIndex b) (b_writerIndex b - len)"
    unfolding l Buffer_content_def using le inv
    by (subst take_slice) (auto simp: Buffer_inv_def)
  then show ?thesis
    using inv le len
    by (simp add: Buffer_unwrite_def sub length_Buffer_content)
      (auto simp: Buffer_inv_def Buffer_size_def Buffer_content_def)
qed

subsection \<open>Integers in network order\<close>

lemma Buffer_peekInt_ok:
  assumes "Buffer_inv b"
  shows "8 \<le> length (Buffer_content b) \<Longrightarrow>
      Buffer_peekInt64 dbg h b = Inr (net_dec64 h (take 8 (Buffer_content b)))"
    and "4 \<le> length (Buffer_content b) \<Longrightarrow>
      Buffer_peekInt32 dbg h b = Inr (net_dec32 h (take 4 (Buffer_content b)))"
    and "2 \<le> length (Buffer_content b) \<Longrightarrow>
      Buffer_peekInt16 dbg h b = Inr (net_dec16 h (take 2 (Buffer_content b)))"
    and "1 \<le> length (Buffer_content b) \<Longrightarrow>
      Buffer_peekInt8 dbg b = Inr (hd (Buffer_content b))"
  using assms
  by (simp_all add: Buffer_peekInt64_def Buffer_peekInt32_def Buffer_peekInt16_def
      Buffer_peekInt8_def Buffer_peekBytes_ok net_dec64_def net_dec32_def net_dec16_def)

text \<open>The append and prepend operations for integers are those for their encodings.\<close>

lemmas Buffer_int_enc =
  Buffer_appendInt64_def [folded net_enc64_def] Buffer_appendInt32_def [folded net_enc32_def]
  Buffer_appendInt16_def [folded net_enc16_def] Buffer_appendInt8_def
  Buffer_prependInt64_def [folded net_enc64_def] Buffer_prependInt32_def [folded net_enc32_def]
  Buffer_prependInt16_def [folded net_enc16_def] Buffer_prependInt8_def

text \<open>Reading an encoding off the front of the content.\<close>

lemma Buffer_take_front:
  assumes inv: "Buffer_inv b" and c: "Buffer_content b = e @ rest" and n: "length e = n"
  shows "Buffer_peekBytes dbg b n = Inr e"
    and "returns (Buffer_retrieve dbg b n)
      (\<lambda>b'. Buffer_inv b' \<and> Buffer_content b' = rest \<and> Buffer_size b' = Buffer_size b)"
proof -
  have len: "n \<le> length (Buffer_content b)" using n by (simp add: c)
  show "Buffer_peekBytes dbg b n = Inr e"
    using Buffer_peekBytes_ok [OF inv len] n by (simp add: c)
  show "returns (Buffer_retrieve dbg b n)
      (\<lambda>b'. Buffer_inv b' \<and> Buffer_content b' = rest \<and> Buffer_size b' = Buffer_size b)"
    using Buffer_retrieve_ok [OF inv len, of dbg] n by (simp add: c)
qed

lemmas Buffer_readInt_defs =
  Buffer_readInt64_def Buffer_retrieveInt64_def Buffer_peekInt64_def
  Buffer_readInt32_def Buffer_retrieveInt32_def Buffer_peekInt32_def
  Buffer_readInt16_def Buffer_retrieveInt16_def Buffer_peekInt16_def
  Buffer_readInt8_def Buffer_retrieveInt8_def Buffer_peekInt8_def

lemma Buffer_readInt64_ok:
  assumes "Buffer_inv b" "Buffer_content b = net_enc64 h x @ rest"
  shows "returns (Buffer_readInt64 dbg h b)
     (\<lambda>(y, b'). y = x \<and> Buffer_inv b' \<and> Buffer_content b' = rest \<and> Buffer_size b' = Buffer_size b)"
  using Buffer_take_front [OF assms net64.length_enc, of dbg] net64.dec_enc [of h x]
  by (auto simp: Buffer_readInt_defs net_dec64_def returns_iff)

lemma Buffer_readInt32_ok:
  assumes "Buffer_inv b" "Buffer_content b = net_enc32 h x @ rest"
  shows "returns (Buffer_readInt32 dbg h b)
     (\<lambda>(y, b'). y = x \<and> Buffer_inv b' \<and> Buffer_content b' = rest \<and> Buffer_size b' = Buffer_size b)"
  using Buffer_take_front [OF assms net32.length_enc, of dbg] net32.dec_enc [of h x]
  by (auto simp: Buffer_readInt_defs net_dec32_def returns_iff)

lemma Buffer_readInt16_ok:
  assumes "Buffer_inv b" "Buffer_content b = net_enc16 h x @ rest"
  shows "returns (Buffer_readInt16 dbg h b)
     (\<lambda>(y, b'). y = x \<and> Buffer_inv b' \<and> Buffer_content b' = rest \<and> Buffer_size b' = Buffer_size b)"
  using Buffer_take_front [OF assms net16.length_enc, of dbg] net16.dec_enc [of h x]
  by (auto simp: Buffer_readInt_defs net_dec16_def returns_iff)

lemma Buffer_readInt8_ok:
  assumes "Buffer_inv b" "Buffer_content b = [x] @ rest"
  shows "returns (Buffer_readInt8 dbg b)
     (\<lambda>(y, b'). y = x \<and> Buffer_inv b' \<and> Buffer_content b' = rest \<and> Buffer_size b' = Buffer_size b)"
  using Buffer_take_front [OF assms, of 1 dbg]
  by (auto simp: Buffer_readInt_defs returns_iff)

subsection \<open>Reading from a descriptor\<close>

lemma Buffer_writable_room:
  "Buffer_inv b \<Longrightarrow> Buffer_readRoom b \<le> Buffer_writableBytes b + extrabuf_size"
  by (simp add: Buffer_readRoom_def Let_def)

text \<open>When more arrives than the vector has room for, its free bytes are filled first.\<close>

lemma Buffer_fill:
  assumes inv: "Buffer_inv b" and more: "Buffer_writableBytes b < length d"
  obtains v where "copy_to (b_buffer b) (b_writerIndex b) (take (Buffer_writableBytes b) d) = Inr v"
    and "Buffer_inv (b\<lparr>b_buffer := v, b_writerIndex := length v\<rparr>)"
    and "Buffer_content (b\<lparr>b_buffer := v, b_writerIndex := length v\<rparr>)
        = Buffer_content b @ take (Buffer_writableBytes b) d"
    and "Buffer_size (b\<lparr>b_buffer := v, b_writerIndex := length v\<rparr>) = Buffer_size b"
proof -
  let ?w = "Buffer_writableBytes b" and ?i = "b_writerIndex b"
  have wi: "?i + ?w = length (b_buffer b)"
    using inv by (simp add: Buffer_writable [OF inv] Buffer_inv_def)
  have ld: "length (take ?w d) = ?w" using more by simp
  obtain v where v: "copy_to (b_buffer b) ?i (take ?w d) = Inr v"
    using wi ld by (simp add: copy_to_def)
  have lv: "length v = length (b_buffer b)" by (rule copy_to_length [OF v])
  have "slice v (b_readerIndex b) (length v) = slice v (b_readerIndex b) ?i @ slice v ?i (length v)"
    using inv lv by (intro slice_split) (simp_all add: Buffer_inv_def)
  also have "slice v ?i (length v) = take ?w d"
    using slice_copy_at [OF v] by (simp only: ld wi lv)
  also have "slice v (b_readerIndex b) ?i = Buffer_content b"
    using slice_copy_before [OF v] by (simp add: Buffer_content_def)
  finally show thesis
    using inv lv by (intro that [OF v]) (simp_all add: Buffer_content_def Buffer_inv_def Buffer_size_def)
qed

lemma Buffer_readFd_ok:
  assumes inv: "Buffer_inv b"
    and data: "readv (Buffer_readRoom b) = ReadOk data"
    and room: "max (Buffer_size b) (2 * (length (Buffer_content b) + length data) + 8) \<le> vec_max"
  shows "returns (Buffer_readFd dbg readv b)
     (\<lambda>(n, err, b'). n = int (length data) \<and> err = None \<and> Buffer_inv b' \<and>
        Buffer_content b' = Buffer_content b @ data \<and>
        Buffer_size b' \<le> max (Buffer_size b) (2 * (length (Buffer_content b) + length data) + 8))"
proof (cases "length data \<le> Buffer_writableBytes b")
  case True
  show ?thesis
    unfolding Buffer_readFd_def data Let_def
    using Buffer_write_ok [OF inv True, of dbg] True
    by (auto simp: returns_iff)
next
  case False
  let ?w = "Buffer_writableBytes b" and ?b = "\<lambda>v. b\<lparr>b_buffer := v, b_writerIndex := length v\<rparr>"
  from False have "?w < length data" by simp
  from Buffer_fill [OF inv this] obtain v where v: "copy_to (b_buffer b) (b_writerIndex b) (take ?w data) = Inr v"
    and inv': "Buffer_inv (?b v)" and c: "Buffer_content (?b v) = Buffer_content b @ take ?w data"
    and sz: "Buffer_size (?b v) = Buffer_size b" .
  have ll: "length (Buffer_content b @ take ?w data) + length (drop ?w data)
      = length (Buffer_content b) + length data"
    using False by simp
  have "returns (Buffer_append dbg (?b v) (drop ?w data))
      (\<lambda>b'. Buffer_inv b' \<and> Buffer_content b' = Buffer_content b @ data \<and>
        Buffer_size b' \<le> max (Buffer_size b) (2 * (length (Buffer_content b) + length data) + 8))"
    using Buffer_append_ok [OF inv', of "drop ?w data" dbg, unfolded c sz ll, OF room]
    by (simp only: append_assoc append_take_drop_id)
  then show ?thesis
    using False by (auto simp: Buffer_readFd_def data v Let_def returns_iff)
qed

lemma Buffer_readFd_err:
  "readv (Buffer_readRoom b) = ReadErr e \<Longrightarrow> Buffer_readFd dbg readv b = Inr (- 1, Some e, b)"
  by (simp add: Buffer_readFd_def Let_def)

section \<open>The buffer as a byte queue\<close>

interpretation buffer: byte_queue Buffer_inv Buffer_content Buffer_size
    "Buffer_append dbg" "Buffer_retrieve dbg" vec_max for dbg
  by unfold_locales (rule Buffer_append_ok Buffer_retrieve_ok; assumption)+

section \<open>Every operation, with asserts compiled in\<close>

text \<open>
  The calls a client can make, as a type. Reading integers and appending or prepending them are
  combinations of these. A step also gives the bytes the call returned.
\<close>

datatype Buffer_op =
    OpAppend "byte list"
  | OpPrepend "byte list"
  | OpRetrieve nat
  | OpRetrieveAll
  | OpRetrieveUntil nat
  | OpRetrieveAsString nat
  | OpEnsureWritable nat
  | OpHasWritten nat
  | OpUnwrite nat
  | OpReadFd "nat \<Rightarrow> read_result"

fun Buffer_step :: "bool \<Rightarrow> Buffer \<Rightarrow> Buffer_op \<Rightarrow> (byte list \<times> Buffer) res" where
  "Buffer_step dbg b (OpAppend d) = bindR (Buffer_append dbg b d) (\<lambda>b'. Inr ([], b'))"
| "Buffer_step dbg b (OpPrepend d) = bindR (Buffer_prepend dbg b d) (\<lambda>b'. Inr ([], b'))"
| "Buffer_step dbg b (OpRetrieve n) = bindR (Buffer_retrieve dbg b n) (\<lambda>b'. Inr ([], b'))"
| "Buffer_step dbg b OpRetrieveAll = Inr ([], Buffer_retrieveAll b)"
| "Buffer_step dbg b (OpRetrieveUntil e) = bindR (Buffer_retrieveUntil dbg b e) (\<lambda>b'. Inr ([], b'))"
| "Buffer_step dbg b (OpRetrieveAsString n) = Buffer_retrieveAsString dbg b n"
| "Buffer_step dbg b (OpEnsureWritable n) = bindR (Buffer_ensureWritableBytes dbg b n) (\<lambda>b'. Inr ([], b'))"
| "Buffer_step dbg b (OpHasWritten n) = bindR (Buffer_hasWritten dbg b n) (\<lambda>b'. Inr ([], b'))"
| "Buffer_step dbg b (OpUnwrite n) = bindR (Buffer_unwrite dbg b n) (\<lambda>b'. Inr ([], b'))"
| "Buffer_step dbg b (OpReadFd readv) = bindR (Buffer_readFd dbg readv b) (\<lambda>(n, err, b'). Inr ([], b'))"

fun Buffer_run :: "bool \<Rightarrow> Buffer \<Rightarrow> Buffer_op list \<Rightarrow> (byte list \<times> Buffer) res" where
  "Buffer_run dbg b [] = Inr ([], b)"
| "Buffer_run dbg b (x # xs) =
     bindR (Buffer_step dbg b x) (\<lambda>(out, b').
     bindR (Buffer_run dbg b' xs) (\<lambda>(outs, b''). Inr (out @ outs, b'')))"

text \<open>What each call may do to the bytes of an ideal queue, and what it returns.\<close>

inductive queue_step :: "byte list \<Rightarrow> Buffer_op \<Rightarrow> byte list \<Rightarrow> byte list \<Rightarrow> bool" where
  append: "queue_step c (OpAppend d) [] (c @ d)"
| prepend: "queue_step c (OpPrepend d) [] (d @ c)"
| retrieve: "n \<le> length c \<Longrightarrow> queue_step c (OpRetrieve n) [] (drop n c)"
| retrieve_all: "queue_step c OpRetrieveAll [] []"
| retrieve_until: "n \<le> length c \<Longrightarrow> queue_step c (OpRetrieveUntil e) [] (drop n c)"
| retrieve_string: "n \<le> length c \<Longrightarrow> queue_step c (OpRetrieveAsString n) (take n c) (drop n c)"
| ensure_writable: "queue_step c (OpEnsureWritable n) [] c"
| has_written: "length d = n \<Longrightarrow> queue_step c (OpHasWritten n) [] (c @ d)"
| unwrite: "n \<le> length c \<Longrightarrow> queue_step c (OpUnwrite n) [] (take (length c - n) c)"
| read_data: "readv room = ReadOk d \<Longrightarrow> queue_step c (OpReadFd readv) [] (c @ d)"
| read_error: "readv room = ReadErr e \<Longrightarrow> queue_step c (OpReadFd readv) [] c"

text \<open>
  The arguments a real call can have: no object is larger than \<open>vec_max\<close> bytes, and
  \<^verbatim>\<open>readv\<close> keeps its contract.
\<close>

fun op_fits :: "Buffer_op \<Rightarrow> bool" where
  "op_fits (OpAppend d) = (length d \<le> vec_max)"
| "op_fits (OpEnsureWritable n) = (n \<le> vec_max)"
| "op_fits (OpReadFd readv) = (\<forall>room. read_contract room (readv room))"
| "op_fits x = True"

lemma Buffer_ensure_outcome:
  assumes inv: "Buffer_inv b" and len: "len \<le> vec_max"
  shows "outcome {LengthError} (Buffer_ensureWritableBytes dbg b len)
     (\<lambda>b'. Buffer_inv b' \<and> Buffer_content b' = Buffer_content b \<and> len \<le> Buffer_writableBytes b')"
proof (cases "Buffer_writableBytes b < len")
  case False
  then show ?thesis using inv by (simp add: Buffer_ensureWritableBytes_def)
next
  case small: True
  have "outcome {LengthError} (Buffer_extend dbg b len)
     (\<lambda>b'. Buffer_inv b' \<and> Buffer_content b' = Buffer_content b \<and> len \<le> Buffer_writableBytes b')"
  proof (cases "Buffer_writableBytes b + b_readerIndex b < len + 8")
    case free: True
    show ?thesis
    proof (cases "b_writerIndex b + len \<le> vec_max")
      case True
      then show ?thesis
        using Buffer_extend_grow_ok [OF inv small free True, of dbg]
        by (auto intro: returns_outcome elim!: returns_mono)
    next
      case False
      have add: "szadd (Buffer_writableBytes b) (b_readerIndex b) = Buffer_writableBytes b + b_readerIndex b"
            "szadd len 8 = len + 8" "szadd (b_writerIndex b) len = b_writerIndex b + len"
        using inv len
        by (auto simp: szadd_def Buffer_writable Buffer_inv_def vec_max_def intro!: mod_less)
      show ?thesis using free False by (simp add: Buffer_extend_def add vec_resize_def)
    qed
  next
    case False
    then have "len + 8 \<le> Buffer_writableBytes b + b_readerIndex b" by simp
    from Buffer_extend_move_ok [OF inv small this, of dbg] show ?thesis
      by (auto intro: returns_outcome elim!: returns_mono)
  qed
  then show ?thesis
    using small by (auto simp: Buffer_ensureWritableBytes_def res_simps intro: outcome_bind)
qed

lemma Buffer_append_outcome:
  assumes inv: "Buffer_inv b" and len: "length d \<le> vec_max"
  shows "outcome {LengthError} (Buffer_append dbg b d)
     (\<lambda>b'. Buffer_inv b' \<and> Buffer_content b' = Buffer_content b @ d)"
  unfolding Buffer_append_def
proof (rule outcome_bind [OF Buffer_ensure_outcome [OF assms]])
  fix b'
  assume a: "Buffer_inv b' \<and> Buffer_content b' = Buffer_content b \<and> length d \<le> Buffer_writableBytes b'"
  then show "outcome {LengthError} (bindR (copy_to (b_buffer b') (b_writerIndex b') d) (\<lambda>v.
       Buffer_hasWritten dbg (b'\<lparr>b_buffer := v\<rparr>) (length d)))
     (\<lambda>b'. Buffer_inv b' \<and> Buffer_content b' = Buffer_content b @ d)"
    by (intro returns_outcome returns_mono [OF Buffer_write_ok]) auto
qed

lemma Buffer_readFd_outcome:
  assumes inv: "Buffer_inv b" and k: "\<forall>room. read_contract room (readv room)"
  shows "outcome {LengthError} (Buffer_readFd dbg readv b)
     (\<lambda>(n, err, b'). Buffer_inv b' \<and> queue_step (Buffer_content b) (OpReadFd readv) [] (Buffer_content b'))"
proof (cases "readv (Buffer_readRoom b)")
  case (ReadErr e)
  then show ?thesis
    using inv by (auto simp: Buffer_readFd_err intro: queue_step.read_error)
next
  case data: (ReadOk d)
  have "length d \<le> Buffer_readRoom b" using k data by (metis read_contract_simps(1))
  then have room: "length d \<le> Buffer_writableBytes b + extrabuf_size"
    using Buffer_writable_room [OF inv] by simp
  let ?w = "Buffer_writableBytes b" and ?b = "\<lambda>v. b\<lparr>b_buffer := v, b_writerIndex := length v\<rparr>"
  have read: "queue_step (Buffer_content b) (OpReadFd readv) [] (Buffer_content b @ d)"
    by (rule queue_step.read_data [where room = "Buffer_readRoom b"]) (rule data)
  show ?thesis
  proof (cases "length d \<le> ?w")
    case True
    show ?thesis
      using Buffer_write_ok [OF inv True, of dbg] True read
      by (auto simp: Buffer_readFd_def data Let_def returns_iff)
  next
    case False
    then have "?w < length d" by simp
    from Buffer_fill [OF inv this] obtain v where v: "copy_to (b_buffer b) (b_writerIndex b) (take ?w d) = Inr v"
      and inv': "Buffer_inv (?b v)" and c: "Buffer_content (?b v) = Buffer_content b @ take ?w d" .
    have "length (drop ?w d) \<le> vec_max"
      using room by (simp add: extrabuf_size_def vec_max_def)
    from Buffer_append_outcome [OF inv' this, of dbg]
    have "outcome {LengthError} (Buffer_append dbg (?b v) (drop ?w d))
        (\<lambda>b'. Buffer_inv b' \<and> Buffer_content b' = Buffer_content b @ d)"
      by (simp add: c)
    then show ?thesis
      using False read
      by (auto simp: Buffer_readFd_def data Let_def v elim!: outcome_bind)
  qed
qed

text \<open>
  With asserts compiled in, a call with any arguments keeps the invariant and does to the content
  what the ideal queue allows, or stops at an assert or a \<^verbatim>\<open>length_error\<close>; it never
  touches memory outside the vector.
\<close>

lemma Buffer_content_drop:
  "Buffer_inv b \<Longrightarrow> e \<le> b_writerIndex b \<Longrightarrow> b_readerIndex b \<le> e \<Longrightarrow>
     slice (b_buffer b) e (b_writerIndex b) = drop (e - b_readerIndex b) (Buffer_content b)"
  by (simp add: Buffer_content_def drop_slice)

lemma Buffer_step_outcome:
  assumes inv: "Buffer_inv b" and fits: "op_fits x"
  shows "outcome {AssertFail, LengthError} (Buffer_step True b x)
     (\<lambda>(out, b'). Buffer_inv b' \<and> queue_step (Buffer_content b) x out (Buffer_content b'))"
proof (cases x)
  case (OpAppend d)
  with fits have "length d \<le> vec_max" by simp
  from Buffer_append_outcome [OF inv this, of True] show ?thesis
    by (cases "Buffer_append True b d") (auto simp: OpAppend intro: queue_step.append)
next
  case (OpPrepend d)
  show ?thesis
  proof (cases "length d \<le> b_readerIndex b")
    case True
    then show ?thesis
      using Buffer_prepend_ok [OF inv, of d True] by (auto simp: OpPrepend returns_iff queue_step.prepend)
  qed (simp add: OpPrepend Buffer_prepend_def)
next
  case (OpRetrieve n)
  show ?thesis
  proof (cases "n \<le> length (Buffer_content b)")
    case True
    then show ?thesis
      using Buffer_retrieve_ok [OF inv True, of True] by (auto simp: OpRetrieve returns_iff queue_step.retrieve)
  qed (use inv in \<open>simp add: OpRetrieve Buffer_retrieve_def length_Buffer_content\<close>)
next
  case OpRetrieveAll
  then show ?thesis
    using inv by (simp add: Buffer_retrieveAll_ok queue_step.retrieve_all)
next
  case (OpRetrieveUntil e)
  show ?thesis
  proof (cases "b_readerIndex b \<le> e \<and> e \<le> b_writerIndex b")
    case True
    then have "queue_step (Buffer_content b) x [] (slice (b_buffer b) e (b_writerIndex b))"
      unfolding OpRetrieveUntil
      using inv Buffer_content_drop [OF inv, of e]
      by (auto simp: length_Buffer_content Buffer_readable diff_le_mono intro!: queue_step.retrieve_until)
    then show ?thesis
      using Buffer_retrieveUntil_ok [OF inv, of e True] True by (auto simp: OpRetrieveUntil returns_iff)
  qed (auto simp: OpRetrieveUntil Buffer_retrieveUntil_def cassert_def)
next
  case (OpRetrieveAsString n)
  show ?thesis
  proof (cases "n \<le> length (Buffer_content b)")
    case True
    then show ?thesis
      using Buffer_retrieveAsString_ok [OF inv True, of True]
      by (auto simp: OpRetrieveAsString returns_iff queue_step.retrieve_string)
  qed (use inv in \<open>simp add: OpRetrieveAsString Buffer_retrieveAsString_def length_Buffer_content\<close>)
next
  case (OpEnsureWritable n)
  with fits have "n \<le> vec_max" by simp
  from Buffer_ensure_outcome [OF inv this, of True] show ?thesis
    by (cases "Buffer_ensureWritableBytes True b n")
      (auto simp: OpEnsureWritable intro: queue_step.ensure_writable)
next
  case (OpHasWritten n)
  show ?thesis
  proof (cases "n \<le> Buffer_writableBytes b")
    case True
    let ?d = "slice (b_buffer b) (b_writerIndex b) (b_writerIndex b + n)"
    have le: "b_writerIndex b + n \<le> length (b_buffer b)"
      using True inv by (auto simp: Buffer_writable Buffer_inv_def)
    have add: "szadd (b_writerIndex b) n = b_writerIndex b + n"
      using le inv by (intro szadd_exact) (simp add: Buffer_inv_def vec_max_def)
    have "slice (b_buffer b) (b_readerIndex b) (b_writerIndex b + n) = Buffer_content b @ ?d"
      using inv unfolding Buffer_content_def by (intro slice_split) (auto simp: Buffer_inv_def)
    then show ?thesis
      using True inv le
      by (auto simp: OpHasWritten Buffer_hasWritten_def add Buffer_inv_def Buffer_content_def
          intro: queue_step.has_written)
  qed (simp add: OpHasWritten Buffer_hasWritten_def)
next
  case (OpUnwrite n)
  show ?thesis
  proof (cases "n \<le> length (Buffer_content b)")
    case True
    then show ?thesis
      using Buffer_unwrite_ok [OF inv True, of True] by (auto simp: OpUnwrite returns_iff queue_step.unwrite)
  qed (use inv in \<open>simp add: OpUnwrite Buffer_unwrite_def length_Buffer_content\<close>)
next
  case (OpReadFd readv)
  with fits have "\<forall>room. read_contract room (readv room)" by simp
  from Buffer_readFd_outcome [OF inv this, of True] show ?thesis
    by (cases "Buffer_readFd True readv b") (auto simp: OpReadFd)
qed

inductive queue_trace :: "byte list \<Rightarrow> Buffer_op list \<Rightarrow> byte list \<Rightarrow> byte list \<Rightarrow> bool" where
  nil: "queue_trace c [] [] c"
| cons: "queue_step c x out c' \<Longrightarrow> queue_trace c' xs outs c'' \<Longrightarrow>
     queue_trace c (x # xs) (out @ outs) c''"

inductive_cases queue_step_elims [elim!]:
  "queue_step c (OpAppend d) out c'"
  "queue_step c (OpRetrieveAsString n) out c'"
  "queue_step c (OpEnsureWritable n) out c'"
inductive_cases queue_trace_elims [elim!]:
  "queue_trace c [] out c'"
  "queue_trace c (x # xs) out c'"

section \<open>Sequences of integers\<close>

text \<open>
  A message of integers of the four widths, appended with the overload for each and read back with
  the read of the same width.
\<close>

datatype net_int = I8 "8 word" | I16 "16 word" | I32 "32 word" | I64 "64 word"

fun Buffer_appendInt :: "bool \<Rightarrow> endian \<Rightarrow> Buffer \<Rightarrow> net_int \<Rightarrow> Buffer res" where
  "Buffer_appendInt dbg h b (I8 x) = Buffer_appendInt8 dbg b x"
| "Buffer_appendInt dbg h b (I16 x) = Buffer_appendInt16 dbg h b x"
| "Buffer_appendInt dbg h b (I32 x) = Buffer_appendInt32 dbg h b x"
| "Buffer_appendInt dbg h b (I64 x) = Buffer_appendInt64 dbg h b x"

fun Buffer_readInt :: "bool \<Rightarrow> endian \<Rightarrow> Buffer \<Rightarrow> net_int \<Rightarrow> (net_int \<times> Buffer) res" where
  "Buffer_readInt dbg h b (I8 _) = bindR (Buffer_readInt8 dbg b) (\<lambda>(x, b'). Inr (I8 x, b'))"
| "Buffer_readInt dbg h b (I16 _) = bindR (Buffer_readInt16 dbg h b) (\<lambda>(x, b'). Inr (I16 x, b'))"
| "Buffer_readInt dbg h b (I32 _) = bindR (Buffer_readInt32 dbg h b) (\<lambda>(x, b'). Inr (I32 x, b'))"
| "Buffer_readInt dbg h b (I64 _) = bindR (Buffer_readInt64 dbg h b) (\<lambda>(x, b'). Inr (I64 x, b'))"

fun net_int_enc :: "net_int \<Rightarrow> byte list" where
  "net_int_enc (I8 x) = [x]"
| "net_int_enc (I16 x) = be_bytes 2 x"
| "net_int_enc (I32 x) = be_bytes 4 x"
| "net_int_enc (I64 x) = be_bytes 8 x"

text \<open>Two values of the same width; the reader knows the widths only.\<close>

fun same_width :: "net_int \<Rightarrow> net_int \<Rightarrow> bool" where
  "same_width (I8 _) (I8 _) = True"
| "same_width (I16 _) (I16 _) = True"
| "same_width (I32 _) (I32 _) = True"
| "same_width (I64 _) (I64 _) = True"
| "same_width _ _ = False"

fun Buffer_appendInts :: "bool \<Rightarrow> endian \<Rightarrow> Buffer \<Rightarrow> net_int list \<Rightarrow> Buffer res" where
  "Buffer_appendInts dbg h b [] = Inr b"
| "Buffer_appendInts dbg h b (x # xs) =
     bindR (Buffer_appendInt dbg h b x) (\<lambda>b'. Buffer_appendInts dbg h b' xs)"

fun Buffer_readInts :: "bool \<Rightarrow> endian \<Rightarrow> Buffer \<Rightarrow> net_int list \<Rightarrow> (net_int list \<times> Buffer) res" where
  "Buffer_readInts dbg h b [] = Inr ([], b)"
| "Buffer_readInts dbg h b (w # ws) =
     bindR (Buffer_readInt dbg h b w) (\<lambda>(x, b').
     bindR (Buffer_readInts dbg h b' ws) (\<lambda>(xs, b''). Inr (x # xs, b'')))"

lemma Buffer_appendInt_eq: "Buffer_appendInt dbg h b x = Buffer_append dbg b (net_int_enc x)"
  by (cases x) (simp_all add: Buffer_int_enc net_enc_be)

lemma Buffer_appendInts_run:
  "Buffer_appendInts dbg h b xs
     = queue_run (Buffer_append dbg) (Buffer_retrieve dbg) b (map (Put \<circ> net_int_enc) xs)"
  by (induction xs arbitrary: b) (simp_all add: Buffer_appendInt_eq cong: bindR_cong)

lemma queue_puts_map: "queue_puts (map (Put \<circ> f) xs) = concat (map f xs)"
  by (induction xs) simp_all

lemma queue_gets_map: "queue_gets (map (Put \<circ> f) xs) = 0"
  by (induction xs) simp_all

lemma queue_fits_map:
  "length c + length (concat (map f xs)) \<le> M \<Longrightarrow> queue_fits M c (map (Put \<circ> f) xs)"
  by (induction xs arbitrary: c) simp_all

lemma Buffer_readInt_ok:
  assumes "Buffer_inv b" "Buffer_content b = net_int_enc x @ rest" "same_width x w"
  shows "returns (Buffer_readInt dbg h b w)
     (\<lambda>(y, b'). y = x \<and> Buffer_inv b' \<and> Buffer_content b' = rest)"
  using assms Buffer_readInt64_ok [of b h _ rest dbg] Buffer_readInt32_ok [of b h _ rest dbg]
    Buffer_readInt16_ok [of b h _ rest dbg] Buffer_readInt8_ok [of b _ rest dbg]
  by (cases x; cases w) (fastforce simp: net_enc_be returns_iff)+

lemma Buffer_readInts_ok:
  assumes "Buffer_inv b" "Buffer_content b = concat (map net_int_enc xs) @ rest"
    and "list_all2 same_width xs ws"
  shows "returns (Buffer_readInts dbg h b ws)
     (\<lambda>(ys, b'). ys = xs \<and> Buffer_inv b' \<and> Buffer_content b' = rest)"
  using assms(3,1,2)
proof (induction xs ws arbitrary: b rule: list_all2_induct)
  case Nil
  then show ?case by simp
next
  case (Cons x xs w ws)
  then have "Buffer_content b = net_int_enc x @ (concat (map net_int_enc xs) @ rest)" by simp
  from Buffer_readInt_ok [OF Cons.prems(1) this Cons.hyps(1), of dbg h] show ?case
    unfolding Buffer_readInts.simps
  proof (rule returns_bind, clarify)
    fix b'
    assume b': "Buffer_inv b'" "Buffer_content b' = concat (map net_int_enc xs) @ rest"
    show "returns (bindR (Buffer_readInts dbg h b' ws) (\<lambda>(ys, b''). Inr (x # ys, b'')))
        (\<lambda>(ys, b'). ys = x # xs \<and> Buffer_inv b' \<and> Buffer_content b' = rest)"
      by (rule returns_bind [OF Cons.IH [OF b']]) auto
  qed
qed

text \<open>Appending never eats into the spare bytes in front.\<close>

lemma Buffer_append_spare:
  assumes "kCheapPrepend \<le> b_readerIndex b" "Buffer_append dbg b d = Inr b'"
  shows "kCheapPrepend \<le> b_readerIndex b'"
  using assms
  by (auto simp: Buffer_append_def Buffer_ensureWritableBytes_def Buffer_extend_def Let_def
      Buffer_hasWritten_def cassert_eq_Inr split: if_splits)

section \<open>Properties\<close>

lemma Buffer_run_ok:
  assumes "Buffer_inv b" "list_all op_fits ops"
  shows "outcome {AssertFail, LengthError} (Buffer_run True b ops)
     (\<lambda>(outs, b'). Buffer_inv b' \<and> queue_trace (Buffer_content b) ops outs (Buffer_content b'))"
  using assms
proof (induction ops arbitrary: b)
  case Nil
  then show ?case by (simp add: queue_trace.nil)
next
  case (Cons x xs)
  then have fits: "op_fits x" "list_all op_fits xs" by simp_all
  show ?case
    unfolding Buffer_run.simps
  proof (rule outcome_bind [OF Buffer_step_outcome [OF Cons.prems(1) fits(1)]], clarify)
    fix out b'
    assume inv': "Buffer_inv b'"
      and step: "queue_step (Buffer_content b) x out (Buffer_content b')"
    show "outcome {AssertFail, LengthError}
        (bindR (Buffer_run True b' xs) (\<lambda>(outs, b''). Inr (out @ outs, b'')))
        (\<lambda>(outs, b'). Buffer_inv b' \<and> queue_trace (Buffer_content b) (x # xs) outs (Buffer_content b'))"
      by (rule outcome_bind [OF Cons.IH [OF inv' fits(2)]])
        (auto intro: queue_trace.cons [OF step])
  qed
qed

text \<open>
  The one argument that defeats the asserts: for a length so close to \<open>2 ^ 64\<close> that
  \<^verbatim>\<open>writerIndex_ + len\<close> wraps, \<^verbatim>\<open>ensureWritableBytes\<close> shrinks the vector below
  its writer index, and the final assert passes because the difference of the two wraps as well.
\<close>

theorem Buffer_ensureWritable_wraps:
  assumes inv: "Buffer_inv b" and wrap: "2 ^ 64 \<le> b_writerIndex b + len" and len: "len + 8 < 2 ^ 64"
  shows "\<exists>b'. Buffer_ensureWritableBytes dbg b len = Inr b' \<and>
    b_writerIndex b' = b_writerIndex b \<and> Buffer_size b' < b_writerIndex b' \<and> \<not> Buffer_inv b'"
proof -
  let ?k = "b_writerIndex b + len - 2 ^ 64"
  have w: "b_writerIndex b \<le> length (b_buffer b)" "length (b_buffer b) < 2 ^ 63" "b_readerIndex b \<le> b_writerIndex b"
    using inv by (auto simp: Buffer_inv_def vec_max_def)
  have k: "?k < b_writerIndex b" using len wrap by simp
  have idx: "szadd (b_writerIndex b) len = ?k"
    using wrap len w by (simp add: szadd_def mod_if)
  have small: "Buffer_writableBytes b < len"
    using w wrap by (simp add: Buffer_writable [OF inv])
  have add: "szadd (Buffer_writableBytes b) (b_readerIndex b) = Buffer_writableBytes b + b_readerIndex b"
    "szadd len 8 = len + 8"
    using w len by (auto simp: szadd_def Buffer_writable [OF inv] intro!: mod_less)
  have free: "Buffer_writableBytes b + b_readerIndex b < len + 8"
    using w wrap by (simp add: Buffer_writable [OF inv])
  have "vec_resize 0 (b_buffer b) ?k = Inr (take ?k (b_buffer b))"
    using k w by (simp add: vec_resize_def vec_max_def)
  then have ext: "Buffer_extend dbg b len = Inr (b\<lparr>b_buffer := take ?k (b_buffer b)\<rparr>)" (is "_ = Inr ?b'")
    using free by (simp add: Buffer_extend_def add idx)
  have l: "length (take ?k (b_buffer b)) = ?k" using k w by simp
  have "szsub ?k (b_writerIndex b) = len"
    using k w wrap szsub_wraps [of ?k "b_writerIndex b"] by simp
  then have "len \<le> Buffer_writableBytes ?b'"
    using l by (simp add: Buffer_writableBytes_def del: length_take)
  then have "Buffer_ensureWritableBytes dbg b len = Inr ?b'"
    using small ext by (simp add: Buffer_ensureWritableBytes_def)
  moreover have "Buffer_size ?b' < b_writerIndex ?b'"
    using k l by (simp add: Buffer_size_def)
  ultimately show ?thesis by (auto simp: Buffer_inv_def Buffer_size_def)
qed

theorem Buffer_ensureWritable_wraps_witness:
  "\<exists>b'. Buffer_ensureWritableBytes True \<lparr>b_buffer = replicate 100 0, b_readerIndex = 8, b_writerIndex = 60\<rparr>
      (2 ^ 64 - 50) = Inr b' \<and> Buffer_size b' < 60"
  using Buffer_ensureWritable_wraps [of "\<lparr>b_buffer = replicate 100 0, b_readerIndex = 8, b_writerIndex = 60\<rparr>"
      "2 ^ 64 - 50" True]
  by (auto simp: Buffer_inv_def vec_max_def)

text \<open>
  C5. Safety and refinement of the whole class in a build with asserts: any sequence of calls from a state that
  satisfies the invariant, in which no \<^verbatim>\<open>append\<close> and no \<^verbatim>\<open>ensureWritableBytes\<close> is given
  more than the largest vector has bytes and \<^verbatim>\<open>readv\<close> keeps its contract (the other arguments are
  arbitrary), either stops at an assert or a \<^verbatim>\<open>length_error\<close>, or keeps the invariant, and then the
  bytes it returned and the bytes it left are those of an ideal byte queue under the same calls. No call reads or
  writes outside the vector. The bound on the lengths is needed: a length that wraps
  \<^verbatim>\<open>writerIndex_ + len\<close> defeats the asserts and breaks the invariant, the second part.
\<close>

theorem Buffer_run_refines:
  assumes "Buffer_inv b" "list_all op_fits ops"
  shows "outcome {AssertFail, LengthError} (Buffer_run True b ops)
     (\<lambda>(outs, b'). Buffer_inv b' \<and> queue_trace (Buffer_content b) ops outs (Buffer_content b')) \<and>
    (\<forall>len. 2 ^ 64 \<le> b_writerIndex b + len \<and> len + 8 < 2 ^ 64 \<longrightarrow>
       (\<exists>b'. Buffer_run True b [OpEnsureWritable len] = Inr ([], b') \<and> \<not> Buffer_inv b'))"
proof (intro conjI)
  show "outcome {AssertFail, LengthError} (Buffer_run True b ops)
     (\<lambda>(outs, b'). Buffer_inv b' \<and> queue_trace (Buffer_content b) ops outs (Buffer_content b'))"
    by (rule Buffer_run_ok [OF assms])
  show "\<forall>len. 2 ^ 64 \<le> b_writerIndex b + len \<and> len + 8 < 2 ^ 64 \<longrightarrow>
      (\<exists>b'. Buffer_run True b [OpEnsureWritable len] = Inr ([], b') \<and> \<not> Buffer_inv b')"
    using Buffer_ensureWritable_wraps [OF assms(1), of _ True] by fastforce
qed

theorem Buffer_run_refines_witness:
  "Buffer_inv \<lparr>b_buffer = replicate 16 0, b_readerIndex = 8, b_writerIndex = 8\<rparr> \<and>
   outcome {AssertFail, LengthError}
     (Buffer_run True \<lparr>b_buffer = replicate 16 0, b_readerIndex = 8, b_writerIndex = 8\<rparr>
        [OpAppend [1, 2, 3], OpRetrieveAsString 2])
     (\<lambda>(outs, b'). Buffer_inv b' \<and> queue_trace [] [OpAppend [1, 2, 3], OpRetrieveAsString 2] outs (Buffer_content b'))"
proof -
  let ?b = "\<lparr>b_buffer = replicate 16 0, b_readerIndex = 8, b_writerIndex = 8\<rparr> :: Buffer"
  have inv: "Buffer_inv ?b" by (simp add: Buffer_inv_def vec_max_def)
  have "list_all op_fits [OpAppend [1, 2, 3], OpRetrieveAsString 2]" by (simp add: vec_max_def)
  from Buffer_run_refines [OF inv this, THEN conjunct1] show ?thesis
    using inv by simp
qed

text \<open>
  C15. First in, first out, in either build: from an empty buffer any script of appends and retrieves
  that never takes more than there is returns without a fault and leaves exactly the bytes appended
  and not yet retrieved, in order. The vector never exceeds the larger of its size before and of twice the largest
  content \<open>M\<close> plus eight.
\<close>

theorem Buffer_fifo:
  assumes "Buffer_inv b" "Buffer_content b = []" "queue_fits M [] xs"
    and "max (Buffer_size b) (2 * M + 8) \<le> vec_max"
  shows "returns (queue_run (Buffer_append dbg) (Buffer_retrieve dbg) b xs)
     (\<lambda>b'. Buffer_inv b' \<and> Buffer_content b' = drop (queue_gets xs) (queue_puts xs) \<and>
           Buffer_size b' \<le> max (Buffer_size b) (2 * M + 8))"
  using assms by (rule buffer.run_fifo)

theorem Buffer_fifo_witness:
  "returns (queue_run (Buffer_append True) (Buffer_retrieve True)
       \<lparr>b_buffer = replicate 9 0, b_readerIndex = 8, b_writerIndex = 8\<rparr> [Put [1, 2, 3], Get 2, Put [4]])
     (\<lambda>b'. Buffer_inv b' \<and> Buffer_content b' = [3, 4] \<and> Buffer_size b' \<le> 14)"
  using Buffer_fifo [of "\<lparr>b_buffer = replicate 9 0, b_readerIndex = 8, b_writerIndex = 8\<rparr>" 3
      "[Put [1, 2, 3], Get 2, Put [4]]" True]
  by (simp add: Buffer_inv_def vec_max_def Buffer_size_def)

text \<open>
  C26. Round trip of integers through the network encoding: on a host of either byte order and in
  either build, a message of 8, 16, 32 and 64 bit integers appended to an empty buffer puts each of
  them there most significant byte first, and reading the same widths returns the same integers and
  empties the buffer.
\<close>

theorem Buffer_ints_roundtrip:
  assumes inv: "Buffer_inv b" and empty: "Buffer_content b = []" and widths: "list_all2 same_width xs ws"
    and room: "max (Buffer_size b) (2 * length (concat (map net_int_enc xs)) + 8) \<le> vec_max"
  shows "returns (Buffer_appendInts dbg h b xs)
     (\<lambda>b'. Buffer_content b' = concat (map net_int_enc xs) \<and>
           returns (Buffer_readInts dbg h' b' ws) (\<lambda>(ys, b''). ys = xs \<and> Buffer_content b'' = []))"
proof -
  let ?M = "length (concat (map net_int_enc xs))"
  have "returns (Buffer_appendInts dbg h b xs)
      (\<lambda>b'. Buffer_inv b' \<and> Buffer_content b' = concat (map net_int_enc xs))"
    unfolding Buffer_appendInts_run
    using buffer.run_fifo [OF inv empty queue_fits_map [of "[]"] room, of net_int_enc xs dbg]
    by (auto simp: queue_puts_map queue_gets_map elim!: returns_mono)
  then show ?thesis
    using Buffer_readInts_ok [of _ xs "[]" ws dbg h'] widths
    by (auto simp: returns_iff) fastforce
qed

theorem Buffer_ints_roundtrip_witness:
  "returns (Buffer_appendInts True Little \<lparr>b_buffer = replicate 9 0, b_readerIndex = 8, b_writerIndex = 8\<rparr>
       [I32 258, I8 7])
     (\<lambda>b'. Buffer_content b' = [0, 0, 1, 2, 7] \<and>
           returns (Buffer_readInts True Little b' [I32 0, I8 0])
             (\<lambda>(ys, b''). ys = [I32 258, I8 7] \<and> Buffer_content b'' = []))"
proof -
  let ?b = "\<lparr>b_buffer = replicate 9 0, b_readerIndex = 8, b_writerIndex = 8\<rparr> :: Buffer"
  have e: "concat (map net_int_enc [I32 258, I8 7]) = [0, 0, 1, 2, 7]" by code_simp
  show ?thesis
    using Buffer_ints_roundtrip [of ?b "[I32 258, I8 7]" "[I32 0, I8 0]" True Little Little]
    unfolding e by (simp add: Buffer_inv_def Buffer_size_def vec_max_def)
qed

text \<open>
  \<^verbatim>\<open>readFd\<close> loses nothing: whatever split of the received bytes between the vector
  and the stack array the free space causes, the call returns their number, and they are appended to
  the content in order; on an error it returns -1, saves the error number, and leaves the buffer as it was.
\<close>

theorem Buffer_readFd_appends:
  assumes inv: "Buffer_inv b"
    and room: "\<And>data. readv (Buffer_readRoom b) = ReadOk data \<Longrightarrow>
      max (Buffer_size b) (2 * (length (Buffer_content b) + length data) + 8) \<le> vec_max"
  shows "returns (Buffer_readFd dbg readv b)
     (\<lambda>(n, err, b'). Buffer_inv b' \<and>
        (case readv (Buffer_readRoom b) of
           ReadOk data \<Rightarrow> n = int (length data) \<and> err = None \<and> Buffer_content b' = Buffer_content b @ data
         | ReadErr e \<Rightarrow> n = - 1 \<and> err = Some e \<and> b' = b))"
proof (cases "readv (Buffer_readRoom b)")
  case (ReadOk data)
  from Buffer_readFd_ok [where readv = readv and dbg = dbg, OF inv ReadOk room [OF ReadOk]]
  show ?thesis by (rule returns_mono) (auto simp: ReadOk)
next
  case (ReadErr e)
  then show ?thesis using inv by (simp add: Buffer_readFd_err)
qed

theorem Buffer_readFd_appends_witness:
  "returns (Buffer_readFd True (\<lambda>room. ReadOk [1, 2, 3])
       \<lparr>b_buffer = replicate 9 0, b_readerIndex = 8, b_writerIndex = 8\<rparr>)
     (\<lambda>(n, err, b'). n = 3 \<and> err = None \<and> Buffer_content b' = [1, 2, 3])"
  using Buffer_readFd_appends [of "\<lparr>b_buffer = replicate 9 0, b_readerIndex = 8, b_writerIndex = 8\<rparr>"
      "\<lambda>room. ReadOk [1, 2, 3]" True]
  by (simp add: Buffer_inv_def Buffer_size_def vec_max_def returns_iff) auto

text \<open>
  A length prefix written afterwards: on a buffer with the eight spare bytes in front, appending a
  body and then prepending its length as a 32 bit integer gives the frame; reading the integer returns
  the length and the rest of the content is the body.
\<close>

theorem Buffer_frame_roundtrip:
  assumes inv: "Buffer_inv b" and empty: "Buffer_content b = []"
    and spare: "kCheapPrepend \<le> b_readerIndex b"
    and room: "max (Buffer_size b) (2 * length body + 8) \<le> vec_max"
  shows "returns (bindR (Buffer_append dbg b body) (\<lambda>b1.
       bindR (Buffer_prependInt32 dbg h b1 (word_of_nat (length body))) (\<lambda>b2.
       bindR (Buffer_readInt32 dbg h b2) (\<lambda>(n, b3).
       bindR (Buffer_retrieveAllAsString dbg b3) (\<lambda>(s, b4). Inr (n, s, b4))))))
     (\<lambda>(n, s, b4). n = word_of_nat (length body) \<and> s = body \<and> Buffer_content b4 = [])"
proof -
  let ?n = "word_of_nat (length body) :: 32 word"
  from Buffer_append_ok [OF inv, of body dbg] room empty
  obtain b1 where b1: "Buffer_append dbg b body = Inr b1" "Buffer_inv b1" "Buffer_content b1 = body"
    by (auto simp: returns_iff)
  have "length (net_enc32 h ?n) \<le> Buffer_prependableBytes b1"
    using Buffer_append_spare [OF spare b1(1)] by (simp add: net32.length_enc)
  from Buffer_prepend_ok [OF b1(2) this, of dbg] b1(3)
  obtain b2 where b2: "Buffer_prependInt32 dbg h b1 ?n = Inr b2" "Buffer_inv b2"
      "Buffer_content b2 = net_enc32 h ?n @ body"
    by (auto simp: returns_iff Buffer_int_enc)
  from Buffer_readInt32_ok [OF b2(2,3), of dbg]
  obtain b3 where b3: "Buffer_readInt32 dbg h b2 = Inr (?n, b3)" "Buffer_inv b3" "Buffer_content b3 = body"
    by (auto simp: returns_iff)
  have "length (Buffer_content b3) = Buffer_readableBytes b3"
    by (rule length_Buffer_content [OF b3(2)])
  then have "returns (Buffer_retrieveAllAsString dbg b3) (\<lambda>(s, b4). s = body \<and> Buffer_content b4 = [])"
    using Buffer_retrieveAsString_ok [OF b3(2), of "Buffer_readableBytes b3" dbg] b3(3)
    by (auto simp: Buffer_retrieveAllAsString_def elim!: returns_mono)
  then show ?thesis by (auto simp: b1 b2 b3 returns_iff)
qed

theorem Buffer_frame_roundtrip_witness:
  "returns (bindR (Buffer_append True \<lparr>b_buffer = replicate 9 0, b_readerIndex = 8, b_writerIndex = 8\<rparr> [5, 6])
     (\<lambda>b1. bindR (Buffer_prependInt32 True Little b1 2) (\<lambda>b2.
       bindR (Buffer_readInt32 True Little b2) (\<lambda>(n, b3).
       bindR (Buffer_retrieveAllAsString True b3) (\<lambda>(s, b4). Inr (n, s, b4))))))
     (\<lambda>(n, s, b4). n = 2 \<and> s = [5, 6] \<and> Buffer_content b4 = [])"
  using Buffer_frame_roundtrip [of "\<lparr>b_buffer = replicate 9 0, b_readerIndex = 8, b_writerIndex = 8\<rparr>"
      "[5, 6]" True Little]
  by (simp add: Buffer_inv_def Buffer_size_def vec_max_def)

end
