(* ===== verification/CircularBuffer.thy ===== *)
theory CircularBuffer
  imports Buffer
begin

text \<open>
  The ring buffer of circularbuffer.h (a class that is also called \<^verbatim>\<open>Buffer\<close> there): an
  array of \<open>size_\<close> bytes of which one stays free, a reader and a writer index that wrap, and
  readable sizes computed in a 32 bit \<^verbatim>\<open>int\<close>. It provides the byte queue interface as long
  as the array is smaller than \<open>2 ^ 31\<close> bytes.
\<close>

section \<open>State\<close>

record CircularBuffer =
  cb_size :: nat
  cb_buffer :: "byte list"
  cb_writerIndex :: nat
  cb_readerIndex :: nat

text \<open>\<open>junk\<close> is what \<^verbatim>\<open>new char[n]\<close> leaves in the array.\<close>

definition CircularBuffer_readableBytes :: "bool \<Rightarrow> CircularBuffer \<Rightarrow> nat res" where
  "CircularBuffer_readableBytes dbg b =
     (let diff = int_of_size (szsub (cb_writerIndex b) (cb_readerIndex b));
          diff' = (if diff < 0 then int_of_size (szadd (size_of_int diff) (cb_size b)) else diff)
      in cassert dbg (0 \<le> diff') (Inr (size_of_int diff')))"

definition CircularBuffer_writableBytes :: "bool \<Rightarrow> CircularBuffer \<Rightarrow> nat res" where
  "CircularBuffer_writableBytes dbg b =
     bindR (CircularBuffer_readableBytes dbg b) (\<lambda>r. Inr (szsub (szsub (cb_size b) 1) r))"

definition CircularBuffer_new :: "bool \<Rightarrow> (nat \<Rightarrow> byte) \<Rightarrow> nat \<Rightarrow> CircularBuffer res" where
  "CircularBuffer_new dbg junk initialSize =
     (let sz = szadd initialSize 1;
          b = \<lparr>cb_size = sz, cb_buffer = map junk [0..<sz], cb_writerIndex = 0, cb_readerIndex = 0\<rparr> in
      bindR (CircularBuffer_readableBytes dbg b) (\<lambda>r. cassert dbg (r = 0)
        (bindR (CircularBuffer_writableBytes dbg b) (\<lambda>w. cassert dbg (w = szsub sz 1) (Inr b)))))"

definition CircularBuffer_needRewind :: "CircularBuffer \<Rightarrow> bool" where
  "CircularBuffer_needRewind b \<longleftrightarrow> cb_writerIndex b < cb_readerIndex b"

text \<open>The copy constructor copies the readable bytes to the same positions of a new array.\<close>

definition CircularBuffer_copy :: "(nat \<Rightarrow> byte) \<Rightarrow> CircularBuffer \<Rightarrow> CircularBuffer res" where
  "CircularBuffer_copy junk other =
     (let arr = map junk [0..<cb_size other]; r = cb_readerIndex other; w = cb_writerIndex other in
      bindR (if CircularBuffer_needRewind other
             then bindR (copy_from (cb_buffer other) r (cb_size other - r)) (\<lambda>tail.
                  bindR (copy_to arr r tail) (\<lambda>arr'.
                  bindR (copy_from (cb_buffer other) 0 w) (\<lambda>head. copy_to arr' 0 head)))
             else bindR (copy_from (cb_buffer other) r (w - r)) (\<lambda>mid. copy_to arr r mid))
        (\<lambda>v. Inr \<lparr>cb_size = cb_size other, cb_buffer = v, cb_writerIndex = w, cb_readerIndex = r\<rparr>))"

definition CircularBuffer_swap :: "CircularBuffer \<Rightarrow> CircularBuffer \<Rightarrow> CircularBuffer \<times> CircularBuffer" where
  "CircularBuffer_swap b other =
     (b\<lparr>cb_size := cb_size other, cb_buffer := cb_buffer other,
        cb_writerIndex := cb_writerIndex other, cb_readerIndex := cb_readerIndex other\<rparr>,
      other\<lparr>cb_size := cb_size b, cb_buffer := cb_buffer b,
        cb_writerIndex := cb_writerIndex b, cb_readerIndex := cb_readerIndex b\<rparr>)"

definition CircularBuffer_assign ::
  "(nat \<Rightarrow> byte) \<Rightarrow> CircularBuffer \<Rightarrow> CircularBuffer \<Rightarrow> CircularBuffer res" where
  "CircularBuffer_assign junk b other =
     bindR (CircularBuffer_copy junk other) (\<lambda>tmp. Inr (snd (CircularBuffer_swap tmp b)))"

section \<open>Retrieving\<close>

definition CircularBuffer_writeAhead :: "CircularBuffer \<Rightarrow> nat \<Rightarrow> CircularBuffer" where
  "CircularBuffer_writeAhead b len =
     b\<lparr>cb_writerIndex := szadd (cb_writerIndex b) len mod cb_size b\<rparr>"

definition CircularBuffer_readAhead :: "CircularBuffer \<Rightarrow> nat \<Rightarrow> CircularBuffer" where
  "CircularBuffer_readAhead b len =
     b\<lparr>cb_readerIndex := szadd (cb_readerIndex b) len mod cb_size b\<rparr>"

definition CircularBuffer_retrieveAll :: "CircularBuffer \<Rightarrow> CircularBuffer" where
  "CircularBuffer_retrieveAll b = b\<lparr>cb_readerIndex := 0, cb_writerIndex := 0\<rparr>"

definition CircularBuffer_retrieve :: "bool \<Rightarrow> CircularBuffer \<Rightarrow> nat \<Rightarrow> CircularBuffer res" where
  "CircularBuffer_retrieve dbg b len =
     bindR (CircularBuffer_readableBytes dbg b) (\<lambda>r.
       if len < r then Inr (CircularBuffer_readAhead b len) else Inr (CircularBuffer_retrieveAll b))"

definition CircularBuffer_retrieveAsString ::
  "bool \<Rightarrow> CircularBuffer \<Rightarrow> nat \<Rightarrow> (byte list \<times> CircularBuffer) res" where
  "CircularBuffer_retrieveAsString dbg b n =
     bindR (CircularBuffer_readableBytes dbg b) (\<lambda>r.
       let len = min r n in
       bindR (if CircularBuffer_needRewind b
              then bindR (copy_from (cb_buffer b) (cb_readerIndex b) (cb_size b - cb_readerIndex b)) (\<lambda>x.
                   bindR (copy_from (cb_buffer b) 0 (cb_writerIndex b)) (\<lambda>y. Inr (x @ y)))
              else copy_from (cb_buffer b) (cb_readerIndex b) (cb_writerIndex b - cb_readerIndex b))
         (\<lambda>result. bindR (CircularBuffer_retrieve dbg b len) (\<lambda>b'. Inr (result, b'))))"

definition CircularBuffer_retrieveAllAsString ::
  "bool \<Rightarrow> CircularBuffer \<Rightarrow> (byte list \<times> CircularBuffer) res" where
  "CircularBuffer_retrieveAllAsString dbg b =
     bindR (CircularBuffer_readableBytes dbg b) (\<lambda>r. CircularBuffer_retrieveAsString dbg b r)"

section \<open>Appending\<close>

text \<open>
  \<^verbatim>\<open>append\<close>, \<^verbatim>\<open>ensureWritableBytes\<close> and \<^verbatim>\<open>extend\<close> call one another:
  \<^verbatim>\<open>extend\<close> appends the readable bytes to a larger temporary buffer. \<open>app\<close> is the
  append that \<^verbatim>\<open>extend\<close> calls; the recursion is bounded by fuel, of which two suffice.
\<close>

definition CircularBuffer_extend ::
  "(CircularBuffer \<Rightarrow> byte list \<Rightarrow> CircularBuffer res) \<Rightarrow>
   bool \<Rightarrow> (nat \<Rightarrow> byte) \<Rightarrow> CircularBuffer \<Rightarrow> nat \<Rightarrow> CircularBuffer res" where
  "CircularBuffer_extend app dbg junk b len =
     bindR (CircularBuffer_readableBytes dbg b) (\<lambda>rlen.
     bindR (CircularBuffer_new dbg junk (szmul (szadd len rlen) 2)) (\<lambda>tmp.
     bindR (if CircularBuffer_needRewind b
            then bindR (copy_from (cb_buffer b) (cb_readerIndex b) (cb_size b - cb_readerIndex b)) (\<lambda>x.
                 bindR (app tmp x) (\<lambda>tmp'.
                 bindR (copy_from (cb_buffer b) 0 (cb_writerIndex b)) (\<lambda>y. app tmp' y)))
            else bindR (copy_from (cb_buffer b) (cb_readerIndex b) rlen) (\<lambda>x. app tmp x))
       (\<lambda>tmp''. Inr (snd (CircularBuffer_swap tmp'' b)))))"

definition CircularBuffer_ensureWritableBytes ::
  "(CircularBuffer \<Rightarrow> byte list \<Rightarrow> CircularBuffer res) \<Rightarrow>
   bool \<Rightarrow> (nat \<Rightarrow> byte) \<Rightarrow> CircularBuffer \<Rightarrow> nat \<Rightarrow> CircularBuffer res" where
  "CircularBuffer_ensureWritableBytes app dbg junk b len =
     bindR (CircularBuffer_writableBytes dbg b) (\<lambda>w.
     bindR (if w < len then CircularBuffer_extend app dbg junk b len else Inr b) (\<lambda>b'.
     bindR (CircularBuffer_writableBytes dbg b') (\<lambda>w'. cassert dbg (len \<le> w') (Inr b'))))"

definition CircularBuffer_store :: "CircularBuffer \<Rightarrow> byte list \<Rightarrow> CircularBuffer res" where
  "CircularBuffer_store b data =
     (let len = length data; last = szadd (cb_writerIndex b) len in
      bindR (if last \<le> cb_size b
             then copy_to (cb_buffer b) (cb_writerIndex b) data
             else let k = szsub (cb_size b) (cb_writerIndex b) in
               bindR (copy_to (cb_buffer b) (cb_writerIndex b) (take k data)) (\<lambda>v.
                 copy_to v 0 (drop k data)))
        (\<lambda>v. Inr (CircularBuffer_writeAhead (b\<lparr>cb_buffer := v\<rparr>) len)))"

fun CircularBuffer_append_fuel ::
  "nat \<Rightarrow> bool \<Rightarrow> (nat \<Rightarrow> byte) \<Rightarrow> CircularBuffer \<Rightarrow> byte list \<Rightarrow> CircularBuffer res" where
  "CircularBuffer_append_fuel 0 dbg junk b data = Inl NoFuel"
| "CircularBuffer_append_fuel (Suc fuel) dbg junk b data =
     bindR (CircularBuffer_ensureWritableBytes (CircularBuffer_append_fuel fuel dbg junk) dbg junk b
        (length data))
       (\<lambda>b'. CircularBuffer_store b' data)"

definition CircularBuffer_append ::
  "bool \<Rightarrow> (nat \<Rightarrow> byte) \<Rightarrow> CircularBuffer \<Rightarrow> byte list \<Rightarrow> CircularBuffer res" where
  "CircularBuffer_append dbg junk b data = CircularBuffer_append_fuel 2 dbg junk b data"

section \<open>Invariant and abstraction\<close>

definition CircularBuffer_inv :: "CircularBuffer \<Rightarrow> bool" where
  "CircularBuffer_inv b \<longleftrightarrow>
     length (cb_buffer b) = cb_size b \<and> cb_readerIndex b < cb_size b \<and>
     cb_writerIndex b < cb_size b \<and> cb_size b < 2 ^ 31"

definition CircularBuffer_content :: "CircularBuffer \<Rightarrow> byte list" where
  "CircularBuffer_content b =
     (if CircularBuffer_needRewind b
      then slice (cb_buffer b) (cb_readerIndex b) (cb_size b) @ slice (cb_buffer b) 0 (cb_writerIndex b)
      else slice (cb_buffer b) (cb_readerIndex b) (cb_writerIndex b))"

definition CircularBuffer_limit :: nat where
  "CircularBuffer_limit = 2 ^ 31 - 1"

lemma length_CircularBuffer_content:
  "CircularBuffer_inv b \<Longrightarrow> length (CircularBuffer_content b) =
     (if CircularBuffer_needRewind b then cb_size b - cb_readerIndex b + cb_writerIndex b
      else cb_writerIndex b - cb_readerIndex b)"
  by (simp add: CircularBuffer_content_def CircularBuffer_inv_def)

lemma CircularBuffer_readable:
  assumes "CircularBuffer_inv b"
  shows "CircularBuffer_readableBytes dbg b = Inr (length (CircularBuffer_content b))"
proof (cases "CircularBuffer_needRewind b")
  case False
  have bounds: "cb_readerIndex b \<le> cb_writerIndex b" "cb_writerIndex b < 2 ^ 31"
    using assms False by (auto simp: CircularBuffer_inv_def CircularBuffer_needRewind_def)
  then have "szsub (cb_writerIndex b) (cb_readerIndex b) = cb_writerIndex b - cb_readerIndex b"
    by (intro szsub_exact) auto
  moreover have "int_of_size (cb_writerIndex b - cb_readerIndex b) = int (cb_writerIndex b - cb_readerIndex b)"
    using bounds by (intro int_of_size_exact) auto
  moreover have "size_of_int (int (cb_writerIndex b - cb_readerIndex b)) = cb_writerIndex b - cb_readerIndex b"
    using bounds by (subst size_of_int_exact) auto
  ultimately show ?thesis
    using False assms
    by (simp add: CircularBuffer_readableBytes_def length_CircularBuffer_content Let_def)
next
  case True
  let ?r = "cb_readerIndex b" and ?w = "cb_writerIndex b" and ?s = "cb_size b"
  have rw: "?w < ?r" "?r < ?s" "?s < 2 ^ 31"
    using assms True by (auto simp: CircularBuffer_inv_def CircularBuffer_needRewind_def)
  have diff: "int_of_size (szsub ?w ?r) = int ?w - int ?r"
    using rw by (intro int_of_size_diff) auto
  have "size_of_int (int ?w - int ?r) = nat (int ?w - int ?r + 2 ^ 64)"
    using rw by (intro size_of_int_neg) auto
  also have "\<dots> = ?w + (2 ^ 64 - ?r)"
    using rw by auto
  finally have "size_of_int (int ?w - int ?r) + ?s = (?s - ?r + ?w) + 2 ^ 64"
    using rw by auto
  then have "szadd (size_of_int (int ?w - int ?r)) ?s = ((?s - ?r + ?w) + 2 ^ 64) mod 2 ^ 64"
    by (simp only: szadd_def)
  also have "\<dots> = ?s - ?r + ?w"
    using rw by (simp only: mod_add_self2) simp
  finally have "szadd (size_of_int (int ?w - int ?r)) ?s = ?s - ?r + ?w" .
  then show ?thesis
    using rw True diff assms
    by (simp add: CircularBuffer_readableBytes_def length_CircularBuffer_content res_simps Let_def)
qed

lemma CircularBuffer_content_less: "CircularBuffer_inv b \<Longrightarrow> length (CircularBuffer_content b) < cb_size b"
  by (auto simp: length_CircularBuffer_content CircularBuffer_inv_def CircularBuffer_needRewind_def)

lemma CircularBuffer_writable:
  assumes inv: "CircularBuffer_inv b"
  shows "CircularBuffer_writableBytes dbg b = Inr (cb_size b - 1 - length (CircularBuffer_content b))"
proof -
  have bounds: "length (CircularBuffer_content b) < cb_size b" "cb_size b < 2 ^ 31"
    using CircularBuffer_content_less [OF inv] inv by (auto simp: CircularBuffer_inv_def)
  then have "szsub (cb_size b) 1 = cb_size b - 1"
    by (intro szsub_exact) auto
  moreover have "szsub (cb_size b - 1) (length (CircularBuffer_content b)) =
      cb_size b - 1 - length (CircularBuffer_content b)"
    using bounds by (intro szsub_exact) auto
  ultimately show ?thesis
    by (simp add: CircularBuffer_writableBytes_def CircularBuffer_readable [OF inv])
qed

lemma CircularBuffer_new_ok:
  assumes "n + 1 < 2 ^ 31"
  shows "returns (CircularBuffer_new dbg junk n)
     (\<lambda>b. CircularBuffer_inv b \<and> CircularBuffer_content b = [] \<and> cb_size b = n + 1)"
proof -
  define b where "b = \<lparr>cb_size = n + 1, cb_buffer = map junk [0..<n + 1], cb_writerIndex = 0, cb_readerIndex = 0\<rparr>"
  have sz: "szadd n 1 = n + 1" using assms by (intro szadd_exact) simp
  have inv: "CircularBuffer_inv b" using assms by (simp add: CircularBuffer_inv_def b_def)
  have c: "CircularBuffer_content b = []"
    by (simp add: CircularBuffer_content_def CircularBuffer_needRewind_def b_def)
  have s: "szsub (n + 1) 1 = n" using assms by (subst szsub_exact) simp_all
  have sb: "cb_size b = n + 1" by (simp add: b_def)
  show ?thesis
    unfolding CircularBuffer_new_def sz Let_def b_def [symmetric]
    using inv c CircularBuffer_readable [OF inv, of dbg] CircularBuffer_writable [OF inv, of dbg] s sb
    by simp
qed

section \<open>Retrieving\<close>

lemma CircularBuffer_retrieveAll_ok:
  "CircularBuffer_inv b \<Longrightarrow> CircularBuffer_inv (CircularBuffer_retrieveAll b) \<and>
     CircularBuffer_content (CircularBuffer_retrieveAll b) = [] \<and>
     cb_size (CircularBuffer_retrieveAll b) = cb_size b"
  by (simp add: CircularBuffer_retrieveAll_def CircularBuffer_inv_def CircularBuffer_content_def
      CircularBuffer_needRewind_def)

lemma CircularBuffer_readAhead_ok:
  assumes inv: "CircularBuffer_inv b" and n: "n < length (CircularBuffer_content b)"
  shows "CircularBuffer_inv (CircularBuffer_readAhead b n) \<and>
     CircularBuffer_content (CircularBuffer_readAhead b n) = drop n (CircularBuffer_content b)"
proof -
  let ?r = "cb_readerIndex b" and ?w = "cb_writerIndex b" and ?s = "cb_size b"
  have bounds: "?r < ?s" "?w < ?s" "?s < 2 ^ 31" "length (cb_buffer b) = ?s"
    using inv by (auto simp: CircularBuffer_inv_def)
  have add: "szadd ?r n = ?r + n"
    using bounds n CircularBuffer_content_less [OF inv] by (intro szadd_exact) simp
  consider (straight) "\<not> CircularBuffer_needRewind b" "?r + n < ?w"
    | (before) "CircularBuffer_needRewind b" "?r + n < ?s"
    | (after) "CircularBuffer_needRewind b" "?s \<le> ?r + n" "?r + n - ?s < ?w"
    using n bounds by (fastforce simp: length_CircularBuffer_content [OF inv] split: if_splits)
  then show ?thesis
  proof cases
    case straight
    then show ?thesis
      using bounds
      by (auto simp: CircularBuffer_readAhead_def add CircularBuffer_inv_def CircularBuffer_content_def
          CircularBuffer_needRewind_def drop_slice)
  next
    case before
    then show ?thesis
      using bounds
      by (auto simp: CircularBuffer_readAhead_def add CircularBuffer_inv_def CircularBuffer_content_def
          CircularBuffer_needRewind_def drop_slice)
  next
    case after
    have m: "(n + ?r) mod ?s = n + ?r - ?s"
      using after bounds by (simp add: mod_if)
    show ?thesis
      using after bounds
      by (auto simp: CircularBuffer_readAhead_def add m CircularBuffer_inv_def CircularBuffer_content_def
          CircularBuffer_needRewind_def drop_slice slice_empty add.commute)
  qed
qed

lemma CircularBuffer_retrieve_ok:
  assumes inv: "CircularBuffer_inv b" and n: "n \<le> length (CircularBuffer_content b)"
  shows "returns (CircularBuffer_retrieve dbg b n)
     (\<lambda>b'. CircularBuffer_inv b' \<and> CircularBuffer_content b' = drop n (CircularBuffer_content b) \<and>
           cb_size b' = cb_size b)"
  using CircularBuffer_readAhead_ok [OF inv, of n] CircularBuffer_retrieveAll_ok [OF inv] n
  by (simp add: CircularBuffer_retrieve_def CircularBuffer_readable [OF inv] CircularBuffer_readAhead_def)

section \<open>Appending\<close>

text \<open>Writing into the free bytes, in one piece or wrapping, appends to the content.\<close>

lemma CircularBuffer_store_ok:
  assumes inv: "CircularBuffer_inv b"
    and room: "length (CircularBuffer_content b) + length d < cb_size b"
  shows "returns (CircularBuffer_store b d)
     (\<lambda>b'. CircularBuffer_inv b' \<and> CircularBuffer_content b' = CircularBuffer_content b @ d \<and>
           cb_size b' = cb_size b)"
proof -
  let ?r = "cb_readerIndex b" and ?w = "cb_writerIndex b" and ?s = "cb_size b" and ?v = "cb_buffer b"
  have bounds: "?r < ?s" "?w < ?s" "?s < 2 ^ 31" "length ?v = ?s"
    using inv by (auto simp: CircularBuffer_inv_def)
  have add: "szadd ?w (length d) = ?w + length d"
    using bounds room by (intro szadd_exact) simp
  have len: "length (CircularBuffer_content b) = (if ?w < ?r then ?s - ?r + ?w else ?w - ?r)"
    using length_CircularBuffer_content [OF inv] by (simp add: CircularBuffer_needRewind_def)
  show ?thesis
  proof (cases "?w + length d \<le> ?s")
    case True
    then obtain v where v: "copy_to ?v ?w d = Inr v" "length v = ?s"
      using bounds by (simp add: copy_to_def)
    note regions = slice_copy_before [OF v(1)] slice_copy_at [OF v(1)] slice_copy_after [OF v(1)]
    define w' where "w' = (?w + length d) mod ?s"
    have w': "w' = (if ?w + length d = ?s then 0 else ?w + length d)"
      using True bounds by (auto simp: w'_def)
    have b': "CircularBuffer_store b d = Inr (b\<lparr>cb_buffer := v, cb_writerIndex := w'\<rparr>)"
      using True v add by (simp add: CircularBuffer_store_def CircularBuffer_writeAhead_def w'_def)
    have "slice v ?r (?w + length d) = slice v ?r ?w @ slice v ?w (?w + length d)" if "?r \<le> ?w"
      using that by (intro slice_split) auto
    then show ?thesis
      using b' v bounds room True len regions
      by (auto simp: CircularBuffer_inv_def CircularBuffer_content_def CircularBuffer_needRewind_def w'
          slice_split [of 0 ?w "?w + length d"])
  next
    case False
    then have kw: "szsub ?s ?w = ?s - ?w" "\<not> ?w < ?r"
      using bounds room len by (auto simp: szsub_exact split: if_splits)
    let ?k = "?s - ?w"
    have k: "?k < length d"
      using False bounds by simp
    then obtain v1 where v1: "copy_to ?v ?w (take ?k d) = Inr v1" "length v1 = ?s"
      using bounds by (simp add: copy_to_def)
    have "0 + length (drop ?k d) \<le> length v1"
      using v1(2) room len kw k by simp
    then obtain v where v: "copy_to v1 0 (drop ?k d) = Inr v" "length v = ?s"
      using copy_to_total v1(2) by metis
    define w' where "w' = (?w + length d) mod ?s"
    have w': "w' = length d - ?k" "w' < ?r"
      using False bounds room len kw by (auto simp: w'_def mod_if)
    have b': "CircularBuffer_store b d = Inr (b\<lparr>cb_buffer := v, cb_writerIndex := w'\<rparr>)"
      using False v v1 add kw by (simp add: CircularBuffer_store_def CircularBuffer_writeAhead_def w'_def)
    have head: "slice v 0 w' = drop ?k d"
      using slice_copy_at [OF v(1)] w' by simp
    have "slice v ?r ?s = slice v1 ?r ?s"
      using w' k by (intro slice_copy_after [OF v(1)]) simp
    also have "\<dots> = slice v1 ?r ?w @ slice v1 ?w ?s"
      using kw bounds by (intro slice_split) auto
    also have "slice v1 ?r ?w = slice ?v ?r ?w"
      by (rule slice_copy_before [OF v1(1)]) simp
    also have "slice v1 ?w ?s = take ?k d"
      using slice_copy_at [OF v1(1)] k bounds by simp
    finally show ?thesis
      using b' v bounds kw w' head
      by (auto simp: CircularBuffer_inv_def CircularBuffer_content_def CircularBuffer_needRewind_def)
  qed
qed

lemma CircularBuffer_ensure_noop:
  assumes "CircularBuffer_inv b" "length (CircularBuffer_content b) + n < cb_size b"
  shows "CircularBuffer_ensureWritableBytes app dbg junk b n = Inr b"
  using assms by (auto simp: CircularBuffer_ensureWritableBytes_def CircularBuffer_writable)

lemma CircularBuffer_append_noextend:
  assumes "CircularBuffer_inv b" "length (CircularBuffer_content b) + length d < cb_size b"
  shows "returns (CircularBuffer_append_fuel (Suc fuel) dbg junk b d)
     (\<lambda>b'. CircularBuffer_inv b' \<and> CircularBuffer_content b' = CircularBuffer_content b @ d \<and>
           cb_size b' = cb_size b)"
  using assms CircularBuffer_store_ok [OF assms] by (simp add: CircularBuffer_ensure_noop)

lemma CircularBuffer_extend_ok:
  assumes inv: "CircularBuffer_inv b"
    and n: "2 * (length (CircularBuffer_content b) + n) + 1 < 2 ^ 31"
  shows "returns (CircularBuffer_extend (CircularBuffer_append_fuel (Suc fuel) dbg junk) dbg junk b n)
     (\<lambda>b'. CircularBuffer_inv b' \<and> CircularBuffer_content b' = CircularBuffer_content b \<and>
           cb_size b' = 2 * (length (CircularBuffer_content b) + n) + 1)"
proof -
  let ?c = "CircularBuffer_content b" and ?r = "cb_readerIndex b" and ?w = "cb_writerIndex b"
  let ?n = "2 * (length ?c + n)" and ?app = "CircularBuffer_append_fuel (Suc fuel) dbg junk"
  have bounds: "?r < cb_size b" "?w < cb_size b" "length (cb_buffer b) = cb_size b"
    using inv by (auto simp: CircularBuffer_inv_def)
  have sz: "szmul (szadd n (length ?c)) 2 = ?n"
    using n by (simp add: szadd_exact szmul_exact)
  obtain t where t: "CircularBuffer_new dbg junk ?n = Inr t"
    "CircularBuffer_inv t" "CircularBuffer_content t = []" "cb_size t = ?n + 1"
    using CircularBuffer_new_ok [of ?n dbg junk] n by (auto simp: returns_iff)
  have app1: "returns (?app t x) (\<lambda>t'. CircularBuffer_inv t' \<and> CircularBuffer_content t' = x \<and>
      cb_size t' = ?n + 1)" if "length x \<le> length ?c" for x
    using CircularBuffer_append_noextend [OF t(2), of x fuel dbg junk] that t by simp
  have fill: "returns (if CircularBuffer_needRewind b
      then bindR (copy_from (cb_buffer b) ?r (cb_size b - ?r)) (\<lambda>x.
           bindR (?app t x) (\<lambda>t'. bindR (copy_from (cb_buffer b) 0 ?w) (\<lambda>y. ?app t' y)))
      else bindR (copy_from (cb_buffer b) ?r (length ?c)) (\<lambda>x. ?app t x))
      (\<lambda>t'. CircularBuffer_inv t' \<and> CircularBuffer_content t' = ?c \<and> cb_size t' = ?n + 1)"
  proof (cases "CircularBuffer_needRewind b")
    case True
    let ?x = "slice (cb_buffer b) ?r (cb_size b)" and ?y = "slice (cb_buffer b) 0 ?w"
    have c: "?c = ?x @ ?y" using True by (simp add: CircularBuffer_content_def)
    have "returns (bindR (?app t ?x) (\<lambda>t'. ?app t' ?y))
        (\<lambda>t'. CircularBuffer_inv t' \<and> CircularBuffer_content t' = ?c \<and> cb_size t' = ?n + 1)"
    proof (rule returns_bind [OF app1])
      show "length ?x \<le> length ?c" by (simp add: c)
    next
      fix t' assume t': "CircularBuffer_inv t' \<and> CircularBuffer_content t' = ?x \<and> cb_size t' = ?n + 1"
      have "length ?x + length ?y < cb_size t'"
        using t' c by (simp flip: length_append)
      then show "returns (?app t' ?y)
          (\<lambda>t'. CircularBuffer_inv t' \<and> CircularBuffer_content t' = ?c \<and> cb_size t' = ?n + 1)"
        using CircularBuffer_append_noextend [of t' ?y fuel dbg junk] t' c by simp
    qed
    then show ?thesis
      using True bounds by (simp add: copy_from_def)
  next
    case False
    then have "?c = slice (cb_buffer b) ?r (?r + length ?c)" "?r + length ?c \<le> cb_size b"
      using bounds by (auto simp: CircularBuffer_content_def CircularBuffer_needRewind_def)
    then show ?thesis
      using False app1 [of ?c] bounds by (simp add: copy_from_def)
  qed
  show ?thesis
    unfolding CircularBuffer_extend_def CircularBuffer_readable [OF inv] bindR_simps sz t(1)
    by (rule returns_bind [OF fill])
      (auto simp: CircularBuffer_swap_def CircularBuffer_inv_def CircularBuffer_content_def
        CircularBuffer_needRewind_def)
qed

lemma CircularBuffer_append_ok:
  assumes inv: "CircularBuffer_inv b"
    and lim: "max (cb_size b) (2 * (length (CircularBuffer_content b) + length d) + 8) \<le> CircularBuffer_limit"
  shows "returns (CircularBuffer_append dbg junk b d)
     (\<lambda>b'. CircularBuffer_inv b' \<and> CircularBuffer_content b' = CircularBuffer_content b @ d \<and>
           cb_size b' \<le> max (cb_size b) (2 * (length (CircularBuffer_content b) + length d) + 8))"
proof (cases "length (CircularBuffer_content b) + length d < cb_size b")
  case True
  then show ?thesis
    unfolding CircularBuffer_append_def numeral_2_eq_2
    by (intro returns_mono [OF CircularBuffer_append_noextend [OF inv]]) auto
next
  case False
  let ?c = "CircularBuffer_content b"
  have n: "2 * (length ?c + length d) + 1 < 2 ^ 31"
    using lim by (simp add: CircularBuffer_limit_def)
  have "cb_size b - 1 - length ?c < length d"
    using False CircularBuffer_content_less [OF inv] by simp
  then have "CircularBuffer_append dbg junk b d =
      bindR (CircularBuffer_extend (CircularBuffer_append_fuel 1 dbg junk) dbg junk b (length d)) (\<lambda>b'.
        bindR (bindR (CircularBuffer_writableBytes dbg b') (\<lambda>w'. cassert dbg (length d \<le> w') (Inr b')))
          (\<lambda>b'. CircularBuffer_store b' d))"
    using inv by (simp add: CircularBuffer_append_def numeral_2_eq_2 CircularBuffer_ensureWritableBytes_def
        CircularBuffer_writable bindR_assoc)
  also have "returns \<dots>
     (\<lambda>b'. CircularBuffer_inv b' \<and> CircularBuffer_content b' = ?c @ d \<and>
           cb_size b' \<le> max (cb_size b) (2 * (length ?c + length d) + 8))"
  proof (rule returns_bind [OF CircularBuffer_extend_ok [OF inv n, of 0, simplified One_nat_def [symmetric]]])
    fix b' assume b': "CircularBuffer_inv b' \<and> CircularBuffer_content b' = ?c \<and>
      cb_size b' = 2 * (length ?c + length d) + 1"
    then show "returns (bindR (bindR (CircularBuffer_writableBytes dbg b')
          (\<lambda>w'. cassert dbg (length d \<le> w') (Inr b'))) (\<lambda>b'. CircularBuffer_store b' d))
        (\<lambda>b'. CircularBuffer_inv b' \<and> CircularBuffer_content b' = ?c @ d \<and>
           cb_size b' \<le> max (cb_size b) (2 * (length ?c + length d) + 8))"
      using CircularBuffer_store_ok [of b' d]
      by (auto simp: CircularBuffer_writable cassert_holds elim!: returns_mono)
  qed
  finally show ?thesis .
qed

interpretation ring: byte_queue CircularBuffer_inv CircularBuffer_content cb_size
    "\<lambda>b. CircularBuffer_append dbg junk b" "\<lambda>b. CircularBuffer_retrieve dbg b" CircularBuffer_limit
  for dbg junk
  by unfold_locales (rule CircularBuffer_append_ok CircularBuffer_retrieve_ok; assumption)+

section \<open>Copies\<close>

lemma CircularBuffer_copy_ok:
  assumes inv: "CircularBuffer_inv b"
  shows "returns (CircularBuffer_copy junk b)
     (\<lambda>b'. CircularBuffer_inv b' \<and> CircularBuffer_content b' = CircularBuffer_content b \<and>
           cb_size b' = cb_size b)"
proof -
  let ?r = "cb_readerIndex b" and ?w = "cb_writerIndex b" and ?s = "cb_size b" and ?v = "cb_buffer b"
  let ?a = "map junk [0..<?s]"
  have bounds: "?r < ?s" "?w < ?s" "?s < 2 ^ 31" "length ?v = ?s"
    using inv by (auto simp: CircularBuffer_inv_def)
  show ?thesis
  proof (cases "?w < ?r")
    case True
    let ?x = "slice ?v ?r ?s" and ?y = "slice ?v 0 ?w"
    obtain v1 where v1: "copy_to ?a ?r ?x = Inr v1" "length v1 = ?s"
      using copy_to_total [of ?r ?x ?a] bounds by auto
    obtain v where v: "copy_to v1 0 ?y = Inr v" "length v = ?s"
      using copy_to_total [of 0 ?y v1] bounds v1(2) by auto
    have "slice v ?r ?s = ?x" "slice v 0 ?w = ?y"
      using slice_copy_at [OF v1(1)] slice_copy_at [OF v(1)] slice_copy_after [OF v(1), of ?r ?s] bounds True
      by auto
    then show ?thesis
      using True v v1 bounds
      by (simp add: CircularBuffer_copy_def Let_def copy_from_def CircularBuffer_inv_def
          CircularBuffer_content_def CircularBuffer_needRewind_def)
  next
    case False
    let ?x = "slice ?v ?r ?w"
    obtain v where v: "copy_to ?a ?r ?x = Inr v" "length v = ?s"
      using copy_to_total [of ?r ?x ?a] bounds False by auto
    have "slice v ?r ?w = ?x"
      using slice_copy_at [OF v(1)] bounds False by simp
    then show ?thesis
      using False v bounds
      by (simp add: CircularBuffer_copy_def Let_def copy_from_def CircularBuffer_inv_def
          CircularBuffer_content_def CircularBuffer_needRewind_def)
  qed
qed

lemma CircularBuffer_assign_ok:
  assumes "CircularBuffer_inv other"
  shows "returns (CircularBuffer_assign junk b other)
     (\<lambda>b'. CircularBuffer_inv b' \<and> CircularBuffer_content b' = CircularBuffer_content other)"
  unfolding CircularBuffer_assign_def
  by (rule returns_bind [OF CircularBuffer_copy_ok [OF assms]])
    (auto simp: CircularBuffer_swap_def CircularBuffer_inv_def CircularBuffer_content_def
      CircularBuffer_needRewind_def)

lemma CircularBuffer_raw_content:
  assumes "CircularBuffer_inv b"
  shows "(if CircularBuffer_needRewind b
          then bindR (copy_from (cb_buffer b) (cb_readerIndex b) (cb_size b - cb_readerIndex b)) (\<lambda>x.
               bindR (copy_from (cb_buffer b) 0 (cb_writerIndex b)) (\<lambda>y. Inr (x @ y)))
          else copy_from (cb_buffer b) (cb_readerIndex b) (cb_writerIndex b - cb_readerIndex b))
       = Inr (CircularBuffer_content b)"
  using assms
  by (simp add: copy_from_def CircularBuffer_inv_def CircularBuffer_content_def CircularBuffer_needRewind_def)

section \<open>Properties\<close>

text \<open>
  C21. The ring and the vector buffer are interchangeable: the same script of appends and retrieves,
  taking at most what is there and holding at most \<open>M\<close> bytes, run on a new buffer of each class
  returns on both without a fault, in either build, and leaves the same readable bytes.
\<close>

theorem CircularBuffer_equals_Buffer:
  assumes "queue_fits M [] xs" "max (n + 8) (2 * M + 8) \<le> CircularBuffer_limit"
  shows "returns (bindR (CircularBuffer_new dbg junk n) (\<lambda>q.
             queue_run (CircularBuffer_append dbg junk) (CircularBuffer_retrieve dbg) q xs)) (\<lambda>q'.
           returns (bindR (Buffer_new dbg n) (\<lambda>b.
             queue_run (Buffer_append dbg) (Buffer_retrieve dbg) b xs)) (\<lambda>b'.
           CircularBuffer_content q' = Buffer_content b' \<and> CircularBuffer_inv q' \<and> Buffer_inv b'))"
proof -
  have ring: "returns (bindR (CircularBuffer_new dbg junk n) (\<lambda>q.
      queue_run (CircularBuffer_append dbg junk) (CircularBuffer_retrieve dbg) q xs))
      (\<lambda>q'. CircularBuffer_inv q' \<and> CircularBuffer_content q' = drop (queue_gets xs) (queue_puts xs))"
    by (rule returns_bind [OF CircularBuffer_new_ok])
      (use assms in \<open>auto simp: CircularBuffer_limit_def elim!: returns_mono
          intro!: returns_mono [OF ring.run_fifo [where M = M]]\<close>)
  have vector: "returns (bindR (Buffer_new dbg n) (\<lambda>b.
      queue_run (Buffer_append dbg) (Buffer_retrieve dbg) b xs))
      (\<lambda>b'. Buffer_inv b' \<and> Buffer_content b' = drop (queue_gets xs) (queue_puts xs))"
    by (rule returns_bind [OF Buffer_new_size])
      (use assms in \<open>auto simp: CircularBuffer_limit_def vec_max_def elim!: returns_mono
          intro!: returns_mono [OF buffer.run_fifo [where M = M]]\<close>)
  show ?thesis
    by (rule returns_mono [OF ring], rule returns_mono [OF vector]) auto
qed

theorem CircularBuffer_equals_Buffer_witness:
  "returns (bindR (CircularBuffer_new True (\<lambda>_. 0) 2) (\<lambda>q.
       queue_run (CircularBuffer_append True (\<lambda>_. 0)) (CircularBuffer_retrieve True) q
         [Put [1, 2], Get 1, Put [3], Put [4, 5], Get 2])) (\<lambda>q'.
     returns (bindR (Buffer_new True 2) (\<lambda>b.
       queue_run (Buffer_append True) (Buffer_retrieve True) b
         [Put [1, 2], Get 1, Put [3], Put [4, 5], Get 2])) (\<lambda>b'.
     CircularBuffer_content q' = Buffer_content b' \<and> CircularBuffer_inv q' \<and> Buffer_inv b'))"
  by (rule CircularBuffer_equals_Buffer [where M = 4]) (simp_all add: CircularBuffer_limit_def)

text \<open>
  \<^verbatim>\<open>retrieveAsString(len)\<close> of the ring consumes \<open>len\<close> bytes and returns all readable
  bytes, so that the bytes after the first \<open>len\<close> are returned and stay readable; the vector
  buffer returns what it consumes.
\<close>

theorem CircularBuffer_retrieveAsString_returns_all:
  assumes inv: "CircularBuffer_inv b"
  shows "returns (CircularBuffer_retrieveAsString dbg b n)
     (\<lambda>(s, b'). s = CircularBuffer_content b \<and>
        CircularBuffer_content b' = drop n (CircularBuffer_content b) \<and> CircularBuffer_inv b')"
proof -
  let ?c = "CircularBuffer_content b"
  have "returns (CircularBuffer_retrieve dbg b (min (length ?c) n))
      (\<lambda>b'. CircularBuffer_inv b' \<and> CircularBuffer_content b' = drop (min (length ?c) n) ?c \<and>
            cb_size b' = cb_size b)"
    by (rule CircularBuffer_retrieve_ok [OF inv]) simp
  then show ?thesis
    using CircularBuffer_raw_content [OF inv]
    by (auto simp: CircularBuffer_retrieveAsString_def CircularBuffer_readable [OF inv] Let_def
        returns_iff min_def split: if_splits)
qed

theorem CircularBuffer_retrieveAsString_returns_all_witness:
  "returns (CircularBuffer_retrieveAsString True
      \<lparr>cb_size = 4, cb_buffer = [7, 8, 0, 6], cb_writerIndex = 2, cb_readerIndex = 3\<rparr> 1)
     (\<lambda>(s, b'). s = [6, 7, 8] \<and> CircularBuffer_content b' = [7, 8])"
  using CircularBuffer_retrieveAsString_returns_all
    [of "\<lparr>cb_size = 4, cb_buffer = [7, 8, 0, 6], cb_writerIndex = 2, cb_readerIndex = 3\<rparr>" True 1]
  by (auto simp: CircularBuffer_inv_def CircularBuffer_content_def CircularBuffer_needRewind_def
      slice_def elim!: returns_mono)

text \<open>
  The ring counts its readable bytes in a 32 bit \<^verbatim>\<open>int\<close>: from \<open>2 ^ 31\<close> readable bytes on,
  \<^verbatim>\<open>readableBytes()\<close> never returns their number, in either build.
\<close>

theorem CircularBuffer_readableBytes_truncates:
  assumes "2 ^ 31 \<le> length (CircularBuffer_content b)" "length (CircularBuffer_content b) < 2 ^ 63"
  shows "CircularBuffer_readableBytes dbg b \<noteq> Inr (length (CircularBuffer_content b))"
proof -
  have "size_of_int d < 2 ^ 31 \<or> 2 ^ 63 \<le> size_of_int d" if "- (2 ^ 31) \<le> d" "d < 2 ^ 31" for d
    using that by (cases "0 \<le> d") (auto simp: size_of_int_exact size_of_int_neg)
  then have "size_of_int (int_of_size n) < 2 ^ 31 \<or> 2 ^ 63 \<le> size_of_int (int_of_size n)" for n
    by (simp add: int_of_size_eq)
  then show ?thesis
    using assms unfolding CircularBuffer_readableBytes_def Let_def cassert_def
    by (auto simp: not_le not_less split: if_splits) (metis not_less)+
qed

theorem CircularBuffer_readableBytes_truncates_witness:
  "CircularBuffer_readableBytes True \<lparr>cb_size = 2 ^ 31 + 1, cb_buffer = replicate (2 ^ 31 + 1) 0,
     cb_writerIndex = 2 ^ 31, cb_readerIndex = 0\<rparr> \<noteq> Inr (2 ^ 31)"
  using CircularBuffer_readableBytes_truncates [of "\<lparr>cb_size = 2 ^ 31 + 1,
     cb_buffer = replicate (2 ^ 31 + 1) 0, cb_writerIndex = 2 ^ 31, cb_readerIndex = 0\<rparr>" True]
  by (simp add: CircularBuffer_content_def CircularBuffer_needRewind_def)

end
