(* ===== verification/CInt.thy ===== *)
theory CInt
  imports Prelude
begin

text \<open>
  Signed C++ integers. An operation of type \<^verbatim>\<open>int\<close> (32 bits) or \<^verbatim>\<open>int64_t\<close>,
  \<^verbatim>\<open>time_t\<close> (64 bits) whose exact result does not fit is undefined in C++; here it is the
  fault \<open>Overflow\<close>. Division and remainder truncate towards zero.
\<close>

section \<open>Checked operations\<close>

definition in_int :: "nat \<Rightarrow> int \<Rightarrow> bool" where
  "in_int w x \<longleftrightarrow> - (2 ^ (w - 1)) \<le> x \<and> x < 2 ^ (w - 1)"

definition cint :: "nat \<Rightarrow> int \<Rightarrow> int res" where
  "cint w x = (if in_int w x then Inr x else Inl Overflow)"

definition c_op :: "nat \<Rightarrow> (int \<Rightarrow> int \<Rightarrow> int) \<Rightarrow> int res \<Rightarrow> int res \<Rightarrow> int res" where
  "c_op w f x y = bindR x (\<lambda>a. bindR y (\<lambda>b. cint w (f a b)))"

definition c_quot :: "nat \<Rightarrow> (int \<Rightarrow> int \<Rightarrow> int) \<Rightarrow> int res \<Rightarrow> int res \<Rightarrow> int res" where
  "c_quot w f x y = bindR x (\<lambda>a. bindR y (\<lambda>b.
     if b = 0 then Inl Overflow else bindR (cint w (a sdiv b)) (\<lambda>_. cint w (f a b))))"

abbreviation add32 :: "int res \<Rightarrow> int res \<Rightarrow> int res" where "add32 \<equiv> c_op 32 (+)"
abbreviation sub32 :: "int res \<Rightarrow> int res \<Rightarrow> int res" where "sub32 \<equiv> c_op 32 (-)"
abbreviation mul32 :: "int res \<Rightarrow> int res \<Rightarrow> int res" where "mul32 \<equiv> c_op 32 (*)"
abbreviation div32 :: "int res \<Rightarrow> int res \<Rightarrow> int res" where "div32 \<equiv> c_quot 32 (sdiv)"
abbreviation mod32 :: "int res \<Rightarrow> int res \<Rightarrow> int res" where "mod32 \<equiv> c_quot 32 (smod)"
abbreviation add64 :: "int res \<Rightarrow> int res \<Rightarrow> int res" where "add64 \<equiv> c_op 64 (+)"
abbreviation sub64 :: "int res \<Rightarrow> int res \<Rightarrow> int res" where "sub64 \<equiv> c_op 64 (-)"
abbreviation mul64 :: "int res \<Rightarrow> int res \<Rightarrow> int res" where "mul64 \<equiv> c_op 64 (*)"
abbreviation div64 :: "int res \<Rightarrow> int res \<Rightarrow> int res" where "div64 \<equiv> c_quot 64 (sdiv)"
abbreviation mod64 :: "int res \<Rightarrow> int res \<Rightarrow> int res" where "mod64 \<equiv> c_quot 64 (smod)"

lemma in_int_32 [simp]: "in_int 32 x \<longleftrightarrow> - 2147483648 \<le> x \<and> x < 2147483648"
  by (simp add: in_int_def)

lemma in_int_64 [simp]: "in_int 64 x \<longleftrightarrow> - 9223372036854775808 \<le> x \<and> x < 9223372036854775808"
  by (simp add: in_int_def)

lemma cint_exact [simp]: "in_int w x \<Longrightarrow> cint w x = Inr x"
  by (simp add: cint_def)

lemma c_op_Inr [simp]: "c_op w f (Inr a) (Inr b) = cint w (f a b)"
  by (simp add: c_op_def)

lemma c_op_Inl [simp]: "c_op w f (Inl e) y = Inl e" "c_op w f (Inr a) (Inl e) = Inl e"
  by (simp_all add: c_op_def)

lemma c_quot_Inl [simp]: "c_quot w f (Inl e) y = Inl e" "c_quot w f (Inr a) (Inl e) = Inl e"
  by (simp_all add: c_quot_def)

text \<open>For a non-negative dividend and a positive divisor the C++ operators are \<open>div\<close> and \<open>mod\<close>.\<close>

lemma sdiv_nonneg: "0 \<le> a \<Longrightarrow> 0 < b \<Longrightarrow> a sdiv b = a div (b :: int)"
  by (cases "a = 0") (simp_all add: signed_divide_int_def)

lemma smod_nonneg: "0 \<le> a \<Longrightarrow> 0 < b \<Longrightarrow> a smod b = a mod (b :: int)"
  by (simp add: sdiv_nonneg minus_div_mult_eq_mod flip: minus_sdiv_mult_eq_smod)

lemma div_in_int:
  assumes "0 \<le> a" "0 < b" "in_int w a"
  shows "in_int w (a div b)"
proof -
  have "0 \<le> a div b" "a div b \<le> a"
    using assms zdiv_mono2 [of a 1 b] by (simp_all add: pos_imp_zdiv_nonneg_iff)
  then show ?thesis using assms by (simp add: in_int_def)
qed

lemma c_div_nonneg:
  assumes "0 \<le> a" "0 < b" "in_int w a"
  shows "c_quot w (sdiv) (Inr a) (Inr b) = Inr (a div b)"
  using assms div_in_int [OF assms] by (simp add: c_quot_def sdiv_nonneg)

lemma c_mod_nonneg:
  assumes "0 \<le> a" "0 < b" "in_int w a"
  shows "c_quot w (smod) (Inr a) (Inr b) = Inr (a mod b)"
proof -
  have "in_int w (a mod b)"
    using assms zmod_le_nonneg_dividend [of a b] by (simp add: in_int_def) (smt (verit) pos_mod_sign)
  then show ?thesis
    using assms div_in_int [OF assms] by (simp add: c_quot_def sdiv_nonneg smod_nonneg)
qed

text \<open>A quotient is determined by its remainder.\<close>

lemma div_unique_int: "a = b * q + r \<Longrightarrow> 0 \<le> r \<Longrightarrow> r < b \<Longrightarrow> a div b = (q :: int)"
  by (rule int_div_pos_eq)

lemma mod_unique_int: "a = b * q + r \<Longrightarrow> 0 \<le> r \<Longrightarrow> r < b \<Longrightarrow> a mod b = (r :: int)"
  by (rule int_mod_pos_eq)

lemma int_split:
  assumes "0 < (k :: int)"
  obtains q r where "n = k * q + r" "0 \<le> r" "r < k"
  using that [OF mult_div_mod_eq [symmetric] pos_mod_sign [OF assms] pos_mod_bound [OF assms]] .

end
