(* ===== verification/Printf.thy ===== *)
theory Printf
  imports CInt "HOL-Library.Char_ord"
begin

text \<open>
  The conversions of \<^verbatim>\<open>snprintf\<close> that the code uses: \<^verbatim>\<open>%d\<close> with a minimum width
  padded by blanks or zeros, and the truncation to the size of the destination.
\<close>

section \<open>Decimal digits\<close>

definition digit_char :: "nat \<Rightarrow> char" where
  "digit_char n = char_of (48 + n)"

definition char_digit :: "char \<Rightarrow> nat" where
  "char_digit c = of_char c - 48"

fun dec_nat :: "nat \<Rightarrow> string" where
  "dec_nat n = (if n < 10 then [digit_char n] else dec_nat (n div 10) @ [digit_char (n mod 10)])"

declare dec_nat.simps [simp del]

text \<open>Reading a string of decimal digits.\<close>

definition dec_value :: "string \<Rightarrow> nat" where
  "dec_value s = foldl (\<lambda>v c. 10 * v + char_digit c) 0 s"

lemma char_digit_char [simp]: "n < 10 \<Longrightarrow> char_digit (digit_char n) = n"
  by (simp add: char_digit_def digit_char_def)

lemma digit_char_simps:
  "digit_char 0 = CHR ''0''" "digit_char 1 = CHR ''1''" "digit_char 2 = CHR ''2''"
  "digit_char 3 = CHR ''3''" "digit_char 4 = CHR ''4''" "digit_char 5 = CHR ''5''"
  "digit_char 6 = CHR ''6''" "digit_char 7 = CHR ''7''" "digit_char 8 = CHR ''8''"
  "digit_char 9 = CHR ''9''"
  by code_simp+

lemma digit_char_cases:
  assumes "n < 10"
  shows "digit_char n \<in> set ''0123456789''"
proof -
  have "n = 0 \<or> n = 1 \<or> n = 2 \<or> n = 3 \<or> n = 4 \<or> n = 5 \<or> n = 6 \<or> n = 7 \<or> n = 8 \<or> n = 9"
    using assms by presburger
  then show ?thesis
    by (elim disjE) (simp_all only: digit_char_simps list.set insert_iff simp_thms)
qed

lemma dec_value_snoc: "dec_value (s @ [c]) = 10 * dec_value s + char_digit c"
  by (simp add: dec_value_def)

lemma dec_value_dec_nat [simp]: "dec_value (dec_nat n) = n"
proof (induction n rule: dec_nat.induct)
  case (1 n)
  show ?case
  proof (cases "n < 10")
    case True
    then show ?thesis by (simp add: dec_nat.simps [of n] dec_value_def)
  next
    case False
    then show ?thesis using 1 by (simp add: dec_nat.simps [of n] dec_value_snoc)
  qed
qed

lemma dec_nat_digits: "c \<in> set (dec_nat n) \<Longrightarrow> c \<in> set ''0123456789''"
proof (induction n rule: dec_nat.induct)
  case (1 n)
  then show ?case
    using digit_char_cases [of n] digit_char_cases [of "n mod 10"]
    by (subst (asm) (2) dec_nat.simps) (auto split: if_splits)
qed

lemma length_dec_nat: "n < 10 ^ k \<Longrightarrow> 0 < k \<Longrightarrow> length (dec_nat n) \<le> k"
proof (induction n arbitrary: k rule: dec_nat.induct)
  case (1 n)
  show ?case
  proof (cases "n < 10")
    case True
    then show ?thesis using 1 by (simp add: dec_nat.simps [of n])
  next
    case False
    then have "k \<noteq> 1" using 1(2) by (cases "k = 1") auto
    then obtain k' where k: "k = Suc k'" "0 < k'"
      using 1(3) by (cases k) auto
    then have "n div 10 < 10 ^ k'" using 1 by auto
    then show ?thesis using 1 False k by (simp add: dec_nat.simps [of n])
  qed
qed

lemma length_dec_nat_eq: "10 ^ (k - 1) \<le> n \<Longrightarrow> n < 10 ^ k \<Longrightarrow> 2 \<le> k \<Longrightarrow> length (dec_nat n) = k"
proof (induction k arbitrary: n)
  case (Suc k)
  then have n: "\<not> n < 10" "n div 10 < 10 ^ k"
    by (auto simp: less_mult_imp_div_less mult.commute) (metis One_nat_def Suc_leI diff_Suc_1 le_trans
        not_less one_less_numeral_iff power_one_right power_increasing_iff semiring_norm(76))
  show ?case
  proof (cases "k = 1")
    case True
    then show ?thesis using n by (simp add: dec_nat.simps [of n] dec_nat.simps [of "n div 10"])
  next
    case False
    then have "10 ^ (k - 1) \<le> n div 10"
      using Suc.prems by (cases k) (auto simp: less_eq_div_iff_mult_less_eq mult.commute)
    then show ?thesis
      using n False Suc by (simp add: dec_nat.simps [of n])
  qed
qed simp

section \<open>Padding and truncation\<close>

definition pad_left :: "char \<Rightarrow> nat \<Rightarrow> string \<Rightarrow> string" where
  "pad_left c w s = replicate (w - length s) c @ s"

text \<open>\<^verbatim>\<open>%<w>d\<close> and \<^verbatim>\<open>%0<w>d\<close>; the zeros go between the sign and the digits.\<close>

definition fmt_d :: "nat \<Rightarrow> int \<Rightarrow> string" where
  "fmt_d w i = pad_left CHR '' '' w (if i < 0 then CHR ''-'' # dec_nat (nat (- i)) else dec_nat (nat i))"

definition fmt_0d :: "nat \<Rightarrow> int \<Rightarrow> string" where
  "fmt_0d w i = (if i < 0 then CHR ''-'' # pad_left CHR ''0'' (w - 1) (dec_nat (nat (- i)))
                 else pad_left CHR ''0'' w (dec_nat (nat i)))"

text \<open>\<^verbatim>\<open>snprintf\<close> into \<open>n\<close> bytes, the last of which is the terminator.\<close>

definition snprintf :: "nat \<Rightarrow> string \<Rightarrow> string" where
  "snprintf n s = take (n - 1) s"

lemma snprintf_fits: "length s < n \<Longrightarrow> snprintf n s = s"
  by (simp add: snprintf_def)

lemma length_pad_left [simp]: "length (pad_left c w s) = max w (length s)"
  by (simp add: pad_left_def)

lemma char_digit_zero [simp]: "char_digit CHR ''0'' = 0"
  by (simp add: char_digit_def of_char_def)

lemma dec_value_zeros [simp]: "dec_value (replicate k CHR ''0'' @ s) = dec_value s"
  by (induction k) (simp_all add: dec_value_def)

lemma dec_value_pad [simp]: "dec_value (pad_left CHR ''0'' w s) = dec_value s"
  by (simp add: pad_left_def)

lemma length_fmt_0d:
  assumes "0 \<le> i" "i < 10 ^ w" "0 < w"
  shows "length (fmt_0d w i) = w"
proof -
  have "nat i < 10 ^ w" using assms by (simp add: nat_less_iff)
  then show ?thesis using assms length_dec_nat [of "nat i" w] by (simp add: fmt_0d_def)
qed

lemma dec_value_fmt_0d: "0 \<le> i \<Longrightarrow> int (dec_value (fmt_0d w i)) = i"
  by (simp add: fmt_0d_def)


end
