(* ===== verification/Date.thy ===== *)
theory Date
  imports Printf Posix Complex_Main
begin

text \<open>
  The Gregorian dates of date.h and date.cc: conversion between year, month and day and the Julian
  day number in 32 bit arithmetic, and a calendar written independently of the formulas (leap years,
  lengths of months, the following day) against which they are proved.
\<close>

section \<open>The code\<close>

record Date =
  d_julianDateNumber :: int

record YearMonthDay =
  ymd_year :: int
  ymd_month :: int
  ymd_day :: int

definition getJulianDayNumber :: "int \<Rightarrow> int \<Rightarrow> int \<Rightarrow> int res" where
  "getJulianDayNumber year month day =
     bindR (div32 (sub32 (Inr 14) (Inr month)) (Inr 12)) (\<lambda>a.
     bindR (sub32 (add32 (Inr year) (Inr 4800)) (Inr a)) (\<lambda>y.
     bindR (sub32 (add32 (Inr month) (mul32 (Inr 12) (Inr a))) (Inr 3)) (\<lambda>m.
       sub32 (add32 (sub32 (add32 (add32 (add32 (Inr day)
           (div32 (add32 (mul32 (Inr 153) (Inr m)) (Inr 2)) (Inr 5)))
           (mul32 (Inr y) (Inr 365)))
           (div32 (Inr y) (Inr 4)))
           (div32 (Inr y) (Inr 100)))
           (div32 (Inr y) (Inr 400)))
         (Inr 32045))))"

definition getYearMonthDay :: "int \<Rightarrow> YearMonthDay res" where
  "getYearMonthDay julianDayNumber =
     bindR (add32 (Inr julianDayNumber) (Inr 32044)) (\<lambda>a.
     bindR (div32 (add32 (mul32 (Inr 4) (Inr a)) (Inr 3)) (Inr 146097)) (\<lambda>b.
     bindR (sub32 (Inr a) (div32 (mul32 (Inr b) (Inr 146097)) (Inr 4))) (\<lambda>c.
     bindR (div32 (add32 (mul32 (Inr 4) (Inr c)) (Inr 3)) (Inr 1461)) (\<lambda>d.
     bindR (sub32 (Inr c) (div32 (mul32 (Inr 1461) (Inr d)) (Inr 4))) (\<lambda>e.
     bindR (div32 (add32 (mul32 (Inr 5) (Inr e)) (Inr 2)) (Inr 153)) (\<lambda>m.
     bindR (add32 (sub32 (Inr e) (div32 (add32 (mul32 (Inr 153) (Inr m)) (Inr 2)) (Inr 5))) (Inr 1)) (\<lambda>day.
     bindR (sub32 (add32 (Inr m) (Inr 3)) (mul32 (Inr 12) (div32 (Inr m) (Inr 10)))) (\<lambda>month.
     bindR (add32 (sub32 (add32 (mul32 (Inr b) (Inr 100)) (Inr d)) (Inr 4800)) (div32 (Inr m) (Inr 10)))
       (\<lambda>year. Inr \<lparr>ymd_year = year, ymd_month = month, ymd_day = day\<rparr>)))))))))"

definition kJulianDayOf1970_01_01 :: "int res" where
  "kJulianDayOf1970_01_01 = getJulianDayNumber 1970 1 1"

definition kDaysPerWeek :: int where
  "kDaysPerWeek = 7"

definition Date_default :: Date where
  "Date_default = \<lparr>d_julianDateNumber = 0\<rparr>"

definition Date_new :: "int \<Rightarrow> int \<Rightarrow> int \<Rightarrow> Date res" where
  "Date_new y m d = bindR (getJulianDayNumber y m d) (\<lambda>n. Inr \<lparr>d_julianDateNumber = n\<rparr>)"

definition Date_ofJulian :: "int \<Rightarrow> Date" where
  "Date_ofJulian julianDayNum = \<lparr>d_julianDateNumber = julianDayNum\<rparr>"

definition Date_ofTm :: "tm \<Rightarrow> Date res" where
  "Date_ofTm t =
     bindR (add32 (Inr (tm_year t)) (Inr 1900)) (\<lambda>y.
     bindR (add32 (Inr (tm_mon t)) (Inr 1)) (\<lambda>m.
     bindR (getJulianDayNumber y m (tm_mday t)) (\<lambda>n. Inr \<lparr>d_julianDateNumber = n\<rparr>)))"

definition Date_swap :: "Date \<Rightarrow> Date \<Rightarrow> Date \<times> Date" where
  "Date_swap a b =
     (a\<lparr>d_julianDateNumber := d_julianDateNumber b\<rparr>, b\<lparr>d_julianDateNumber := d_julianDateNumber a\<rparr>)"

definition Date_valid :: "Date \<Rightarrow> bool" where
  "Date_valid d \<longleftrightarrow> 0 < d_julianDateNumber d"

definition Date_yearMonthDay :: "Date \<Rightarrow> YearMonthDay res" where
  "Date_yearMonthDay d = getYearMonthDay (d_julianDateNumber d)"

definition Date_year :: "Date \<Rightarrow> int res" where
  "Date_year d = bindR (Date_yearMonthDay d) (\<lambda>ymd. Inr (ymd_year ymd))"

definition Date_month :: "Date \<Rightarrow> int res" where
  "Date_month d = bindR (Date_yearMonthDay d) (\<lambda>ymd. Inr (ymd_month ymd))"

definition Date_day :: "Date \<Rightarrow> int res" where
  "Date_day d = bindR (Date_yearMonthDay d) (\<lambda>ymd. Inr (ymd_day ymd))"

definition Date_weekDay :: "Date \<Rightarrow> int res" where
  "Date_weekDay d = mod32 (add32 (Inr (d_julianDateNumber d)) (Inr 1)) (Inr kDaysPerWeek)"

definition Date_toIsoString :: "Date \<Rightarrow> string res" where
  "Date_toIsoString d =
     bindR (Date_yearMonthDay d) (\<lambda>ymd.
       Inr (snprintf 32 (fmt_d 4 (ymd_year ymd) @ ''-'' @ fmt_0d 2 (ymd_month ymd) @ ''-'' @
         fmt_0d 2 (ymd_day ymd))))"

definition Date_less :: "Date \<Rightarrow> Date \<Rightarrow> bool" where
  "Date_less lhs rhs \<longleftrightarrow> d_julianDateNumber lhs < d_julianDateNumber rhs"

definition Date_eq :: "Date \<Rightarrow> Date \<Rightarrow> bool" where
  "Date_eq lhs rhs \<longleftrightarrow> d_julianDateNumber lhs = d_julianDateNumber rhs"

section \<open>The calendar\<close>

definition leap :: "int \<Rightarrow> bool" where
  "leap y \<longleftrightarrow> 4 dvd y \<and> (100 dvd y \<longrightarrow> 400 dvd y)"

definition month_length :: "int \<Rightarrow> int \<Rightarrow> int" where
  "month_length y m = (if m = 2 then (if leap y then 29 else 28) else if m \<in> {4, 6, 9, 11} then 30 else 31)"

definition valid_date :: "int \<times> int \<times> int \<Rightarrow> bool" where
  "valid_date = (\<lambda>(y, m, d). 1 \<le> m \<and> m \<le> 12 \<and> 1 \<le> d \<and> d \<le> month_length y m)"

definition next_day :: "int \<times> int \<times> int \<Rightarrow> int \<times> int \<times> int" where
  "next_day = (\<lambda>(y, m, d). if d < month_length y m then (y, m, d + 1)
     else if m < 12 then (y, m + 1, 1) else (y + 1, 1, 1))"

text \<open>
  The years for which the 32 bit formulas neither overflow nor divide a negative number; beyond
  them \<open>getJulianDayNumber\<close> or \<open>getYearMonthDay\<close> is undefined or off by one.
\<close>

definition date_range :: "int \<Rightarrow> bool" where
  "date_range y \<longleftrightarrow> - 4799 \<le> y \<and> y \<le> 1465000"

text \<open>The day number over unbounded integers with \<open>div\<close>, for the proofs.\<close>

definition jdn :: "int \<times> int \<times> int \<Rightarrow> int" where
  "jdn = (\<lambda>(year, month, day).
     let a = (14 - month) div 12; y = year + 4800 - a; m = month + 12 * a - 3
     in day + (153 * m + 2) div 5 + y * 365 + y div 4 - y div 100 + y div 400 - 32045)"

lemma month_cases:
  assumes "1 \<le> m" "m \<le> (12 :: int)"
  shows "m = 1 \<or> m = 2 \<or> m = 3 \<or> m = 4 \<or> m = 5 \<or> m = 6 \<or> m = 7 \<or> m = 8 \<or> m = 9 \<or>
     m = 10 \<or> m = 11 \<or> m = 12"
  using assms by presburger

lemma month_length_bounds: "28 \<le> month_length y m" "month_length y m \<le> 31"
  by (simp_all add: month_length_def)

lemma jdn_mid:
  assumes "1 \<le> m" "m \<le> 12"
  shows "(14 - m) div 12 = (if m \<le> 2 then 1 else (0 :: int))"
    "(14 - m) sdiv 12 = (if m \<le> 2 then 1 else (0 :: int))"
  using month_cases [OF assms] by (auto simp: sdiv_nonneg)

lemma getJulianDayNumber_eq:
  assumes "valid_date (y, m, d)" "date_range y"
  shows "getJulianDayNumber y m d = Inr (jdn (y, m, d))"
proof -
  have m: "1 \<le> m" "m \<le> 12" "1 \<le> d" "d \<le> 31" and y: "- 4799 \<le> y" "y \<le> 1465000"
    using assms month_length_bounds [of y m] by (auto simp: valid_date_def date_range_def)
  let ?a = "(14 - m) div 12"
  define y' where "y' = y + 4800 - ?a"
  define m' where "m' = m + 12 * ?a - 3"
  have a: "0 \<le> ?a" "?a \<le> 1"
    using m by (simp_all add: jdn_mid)
  have y': "0 \<le> y'" "y' \<le> 1469800"
    using y a by (simp_all add: y'_def)
  have m': "0 \<le> m'" "m' \<le> 11"
    using m by (simp_all add: m'_def jdn_mid)
  have q: "0 \<le> y' div k" "y' div k \<le> y'" if "0 < k" for k :: int
    using y' that zdiv_mono2 [of y' 1 k] by (simp_all add: pos_imp_zdiv_nonneg_iff)
  have e: "0 \<le> (153 * m' + 2) div 5" "(153 * m' + 2) div 5 \<le> 337"
    using m' zdiv_mono1 [of "153 * m' + 2" 1685 5] by (simp_all add: pos_imp_zdiv_nonneg_iff)
  have s1: "div32 (sub32 (Inr 14) (Inr m)) (Inr 12) = Inr ?a"
    using m by (simp add: c_div_nonneg)
  have s2: "sub32 (add32 (Inr y) (Inr 4800)) (Inr ?a) = Inr y'"
    using y a by (simp add: y'_def)
  have s3: "sub32 (add32 (Inr m) (mul32 (Inr 12) (Inr ?a))) (Inr 3) = Inr m'"
    using m a by (simp add: m'_def)
  have s4: "div32 (add32 (mul32 (Inr 153) (Inr m')) (Inr 2)) (Inr 5) = Inr ((153 * m' + 2) div 5)"
    using m' by (simp add: c_div_nonneg)
  have s5: "div32 (Inr y') (Inr 4) = Inr (y' div 4)" "div32 (Inr y') (Inr 100) = Inr (y' div 100)"
    "div32 (Inr y') (Inr 400) = Inr (y' div 400)"
    using y' by (simp_all add: c_div_nonneg)
  have "jdn (y, m, d) = d + (153 * m' + 2) div 5 + y' * 365 + y' div 4 - y' div 100 + y' div 400 - 32045"
    by (simp only: jdn_def Let_def prod.case y'_def m'_def)
  then show ?thesis
    unfolding getJulianDayNumber_def s1 bindR_simps s2 s3 s4 s5
    using m y' e q [of 4] q [of 100] q [of 400] by simp
qed

section \<open>The day number counts days\<close>

lemma diff_diff_swap3:
  "(a - b + c) - (a' - b' + c') = (a - a') - (b - b') + (c - (c' :: int))"
  by simp

lemma leap_shift: "leap (y + 4800) = leap y"
  by (simp add: leap_def dvd_add_left_iff)

text \<open>The three terms that count leap years step together exactly at a leap year.\<close>

lemma div_step: "0 < k \<Longrightarrow> y div k - (y - 1) div k = (if k dvd y then 1 else (0 :: int))"
proof -
  assume k: "0 < k"
  show ?thesis
  proof (cases "k dvd y")
    case True
    then obtain q where q: "y = k * q" by auto
    have "(y - 1) div k = q - 1"
      using k by (intro div_unique_int [where r = "k - 1"]) (auto simp: q algebra_simps)
    then show ?thesis using k True by (simp add: q)
  next
    case False
    then have "y mod k \<noteq> 0" by (simp add: dvd_eq_mod_eq_0)
    then have "0 < y mod k" "y mod k < k"
      using k pos_mod_sign [OF k, of y] pos_mod_bound [OF k, of y] by linarith+
    then have "(y - 1) div k = y div k"
      by (intro div_unique_int [where r = "y mod k - 1"]) (auto simp: algebra_simps)
    then show ?thesis using False by simp
  qed
qed

definition leap_days :: "int \<Rightarrow> int" where
  "leap_days y = y div 4 - y div 100 + y div 400"

lemma leap_days_step: "leap_days y - leap_days (y - 1) = (if leap y then 1 else 0)"
proof -
  have "(100 :: int) dvd 400" "(4 :: int) dvd 100" by simp_all
  then have chain: "400 dvd y \<longrightarrow> 100 dvd y" "100 dvd y \<longrightarrow> 4 dvd y"
    by (blast intro: dvd_trans)+
  let ?D = "\<lambda>k. y div k - (y - 1) div k"
  have bool: "(if a then 1 else 0) - (if b then 1 else 0) + (if c then 1 else 0) =
      (if a \<and> (b \<longrightarrow> c) then 1 else (0 :: int))" if "c \<longrightarrow> b" "b \<longrightarrow> a" for a b c
    using that by (cases a; cases b; cases c) simp_all
  have "leap_days y - leap_days (y - 1) = ?D 4 - ?D 100 + ?D 400"
    unfolding leap_days_def by (rule diff_diff_swap3)
  also have "?D 4 = (if 4 dvd y then 1 else 0)"
    by (rule div_step) simp
  also have "?D 100 = (if 100 dvd y then 1 else 0)"
    by (rule div_step) simp
  also have "?D 400 = (if 400 dvd y then 1 else 0)"
    by (rule div_step) simp
  finally show ?thesis
    unfolding leap_def bool [OF chain] .
qed

lemma jdn_eq:
  "jdn (y, m, d) =
     (let a = (14 - m) div 12 in
      d + (153 * (m + 12 * a - 3) + 2) div 5 + (y + 4800 - a) * 365 + leap_days (y + 4800 - a) - 32045)"
  by (simp add: jdn_def leap_days_def Let_def)

lemma jdn_next_day:
  assumes "valid_date d"
  shows "jdn (next_day d) = jdn d + 1"
proof -
  obtain y m k where d: "d = (y, m, k)" by (cases d)
  have v: "1 \<le> m" "m \<le> 12" "1 \<le> k" "k \<le> month_length y m"
    using assms by (auto simp: d valid_date_def)
  have leap: "leap_days (y + 4800) = leap_days (y + 4799) + (if leap y then 1 else 0)"
    using leap_days_step [of "y + 4800"] by (simp add: leap_shift add.commute split: if_splits)
  show ?thesis
  proof (cases "k < month_length y m")
    case True
    then show ?thesis by (simp add: d next_day_def jdn_eq Let_def)
  next
    case False
    then have k: "k = month_length y m" using v by simp
    have c: "leap_days (4799 + y) = leap_days (y + 4799)" "leap_days (4800 + y) = leap_days (y + 4800)"
      by (simp_all only: add.commute)
    show ?thesis
      using month_cases [OF v(1, 2)] leap
      by (elim disjE) (simp_all add: d k next_day_def jdn_eq month_length_def c split: if_splits)
  qed
qed

lemma valid_next_day: "valid_date d \<Longrightarrow> valid_date (next_day d)"
  by (cases d) (auto simp: valid_date_def next_day_def month_length_def split: if_splits)

section \<open>Back from the day number\<close>

definition civil :: "int \<Rightarrow> int \<times> int \<times> int" where
  "civil n =
     (let a = n + 32044; b = (4 * a + 3) div 146097; c = a - (b * 146097) div 4;
          d = (4 * c + 3) div 1461; e = c - (1461 * d) div 4; m = (5 * e + 2) div 153
      in (b * 100 + d - 4800 + m div 10, m + 3 - 12 * (m div 10), e - (153 * m + 2) div 5 + 1))"

text \<open>The position of a day in a year that begins in March.\<close>

lemma day_of_march_year:
  assumes "1 \<le> m" "m \<le> 12" "1 \<le> d" "d \<le> month_length y m"
  defines "M \<equiv> m + 12 * ((14 - m) div 12) - 3"
  defines "E \<equiv> (153 * M + 2) div 5 + d - 1"
  shows "(5 * E + 2) div 153 = M" "0 \<le> E" "E \<le> 365" "E = 365 \<Longrightarrow> m = 2 \<and> leap y"
    "M div 10 = (14 - m) div 12"
proof -
  have len: "d \<le> month_length y m" by fact
  show "(5 * E + 2) div 153 = M"
    using month_cases [OF assms(1, 2)] len assms(3)
    by (elim disjE; intro div_unique_int [where r = "5 * E + 2 - 153 * M"])
      (simp_all add: E_def M_def month_length_def split: if_splits)
  show "0 \<le> E" "E \<le> 365" "E = 365 \<Longrightarrow> m = 2 \<and> leap y" "M div 10 = (14 - m) div 12"
    using month_cases [OF assms(1, 2)] len assms(3)
    by (auto simp: E_def M_def month_length_def split: if_splits)
qed

text \<open>
  The year, counted in four hundreds, hundreds, fours and ones, and the day in it come back from the
  number of days.
\<close>

lemma year_of_days:
  fixes q s t u E :: int
  assumes s: "0 \<le> s" "s \<le> 3" and t: "0 \<le> t" "t \<le> 24" and u: "0 \<le> u" "u \<le> 3"
    and E: "0 \<le> E" "E \<le> 365" "E = 365 \<Longrightarrow> u = 3 \<and> (t = 24 \<longrightarrow> s = 3)"
  defines "n \<equiv> 146097 * q + 36524 * s + 1461 * t + 365 * u + (E :: int)"
  defines "b \<equiv> (4 * n + 3) div 146097"
  defines "c \<equiv> n - (b * 146097) div 4"
  defines "d \<equiv> (4 * c + 3) div 1461"
  shows "b = 4 * q + s" "d = 4 * t + u" "c - (1461 * d) div 4 = E"
proof -
  let ?r = "1461 * t + 365 * u + E"
  have r: "0 \<le> ?r" "?r \<le> 36524"
    using t u E by linarith+
  have "s = 3" if "?r = 36524"
  proof -
    have "u = 3" using that t u E by linarith
    moreover have "E = 365" "t = 24" using that t u E calculation by linarith+
    ultimately show ?thesis using E by simp
  qed
  then have "4 * ?r + 3 - s < 146097"
    using r s by (cases "?r = 36524") simp_all
  show b: "b = 4 * q + s"
    unfolding b_def n_def using r s \<open>4 * ?r + 3 - s < 146097\<close>
    by (intro div_unique_int [where r = "4 * ?r + 3 - s"]) auto
  have "(b * 146097) div 4 = 146097 * q + 36524 * s"
    using s by (intro div_unique_int [where r = s]) (auto simp: b)
  then have c: "c = ?r" by (simp add: c_def n_def)
  show d: "d = 4 * t + u"
    unfolding d_def c using E u by (intro div_unique_int [where r = "4 * E + 3 - u"]) (auto simp: le_less)
  have "(1461 * d) div 4 = 1461 * t + 365 * u"
    using u by (intro div_unique_int [where r = u]) (auto simp: d)
  then show "c - (1461 * d) div 4 = E" by (simp add: c)
qed

lemma year_split:
  fixes Y :: int
  obtains q s t u where "Y = 400 * q + 100 * s + 4 * t + u"
    "0 \<le> s" "s \<le> 3" "0 \<le> t" "t \<le> 24" "0 \<le> u" "u \<le> 3"
proof -
  obtain q r where q: "Y = 400 * q + r" "0 \<le> r" "r < 400" by (rule int_split [of 400]) simp
  obtain s w where s: "r = 100 * s + w" "0 \<le> w" "w < 100" by (rule int_split [of 100]) simp
  obtain t u where t: "w = 4 * t + u" "0 \<le> u" "u < 4" by (rule int_split [of 4]) simp
  show ?thesis
    by (rule that [of q s t u]) (use q s t in linarith)+
qed

lemma civil_jdn:
  assumes "valid_date (y, m, d)"
  shows "civil (jdn (y, m, d)) = (y, m, d)"
proof -
  have v: "1 \<le> m" "m \<le> 12" "1 \<le> d" "d \<le> month_length y m"
    using assms by (auto simp: valid_date_def)
  define a where "a = (14 - m) div 12"
  define Y where "Y = y + 4800 - a"
  define M where "M = m + 12 * a - 3"
  define E where "E = (153 * M + 2) div 5 + d - 1"
  note day = day_of_march_year [OF v, folded a_def, folded M_def, folded E_def]
  obtain q s t u where Y: "Y = 400 * q + 100 * s + 4 * t + u"
    and b: "0 \<le> s" "s \<le> 3" "0 \<le> t" "t \<le> 24" "0 \<le> u" "u \<le> 3"
    by (rule year_split)
  have divs: "Y div 4 = 100 * q + 25 * s + t" "Y div 100 = 4 * q + s" "Y div 400 = q"
    by (rule div_unique_int [where r = u] div_unique_int [where r = "4 * t + u"]
        div_unique_int [where r = "100 * s + 4 * t + u"]; use b in \<open>simp add: Y\<close>)+
  have n: "jdn (y, m, d) + 32044 = 146097 * q + 36524 * s + 1461 * t + 365 * u + E"
  proof -
    have "jdn (y, m, d) = d + (153 * M + 2) div 5 + Y * 365 + Y div 4 - Y div 100 + Y div 400 - 32045"
      by (simp only: jdn_def Let_def prod.case a_def M_def Y_def)
    then show ?thesis unfolding divs by (simp add: E_def) (simp add: Y)
  qed
  have last: "u = 3 \<and> (t = 24 \<longrightarrow> s = 3)" if "E = 365"
  proof -
    have "m = 2" "leap y"
      using day(4) [OF that] by simp_all
    moreover have "Y + 1 = y + 4800"
      using \<open>m = 2\<close> by (simp add: Y_def a_def)
    ultimately have "leap (Y + 1)"
      by (simp only: leap_shift)
    then have "4 dvd Y + 1" unfolding leap_def by (rule conjunct1)
    then obtain v where v: "Y + 1 = 4 * v" by (rule dvdE)
    have small: "x = 3" if "x + 1 = 4 * z" "0 \<le> x" "x \<le> 3" for x z :: int
      using that by arith
    have "u + 1 = 4 * (v - 100 * q - 25 * s - t)" using v Y by (simp add: algebra_simps)
    then have u: "u = 3" using b(5, 6) by (rule small)
    have "s = 3" if "t = 24"
    proof -
      have "Y + 1 = 100 * (4 * q + s + 1)" using that u by (simp add: Y)
      then have "100 dvd Y + 1" by (rule dvdI)
      then have "400 dvd Y + 1" using \<open>leap (Y + 1)\<close> unfolding leap_def by blast
      then obtain v where v: "Y + 1 = 400 * v" by (rule dvdE)
      have "s + 1 = 4 * (v - q)" using v Y that u by (simp add: algebra_simps)
      then show ?thesis using b(1, 2) by (rule small)
    qed
    then show ?thesis using u by simp
  qed
  have E: "E = 365 \<Longrightarrow> u = 3 \<and> (t = 24 \<longrightarrow> s = 3)"
    by (rule last)
  define J where "J = jdn (y, m, d)"
  define B where "B = (4 * (J + 32044) + 3) div 146097"
  define C where "C = J + 32044 - (B * 146097) div 4"
  define D where "D = (4 * C + 3) div 1461"
  have year: "B = 4 * q + s" "D = 4 * t + u" "C - (1461 * D) div 4 = E"
    using year_of_days [OF b day(2) day(3) E, of q, folded n]
    unfolding J_def B_def C_def D_def by blast+
  have "civil J = (B * 100 + D - 4800 + M div 10, M + 3 - 12 * (M div 10), E - (153 * M + 2) div 5 + 1)"
    unfolding civil_def Let_def B_def [symmetric] C_def [symmetric] D_def [symmetric] year(3) day(1) ..
  also have "B * 100 + D = Y"
    using year(1, 2) Y by simp
  finally show ?thesis
    using day(5) by (simp add: E_def M_def Y_def J_def)
qed

lemma div_bounds: "0 < k \<Longrightarrow> k * (n div k) \<le> n" "0 < k \<Longrightarrow> n < k * (n div k) + (k :: int)"
  using mult_div_mod_eq [of k n] pos_mod_sign [of k n] pos_mod_bound [of k n] by linarith+

lemma getYearMonthDay_eq:
  assumes "- 32044 \<le> n" "n \<le> 536838867"
  shows "getYearMonthDay n = Inr (case civil n of (y, m, d) \<Rightarrow> \<lparr>ymd_year = y, ymd_month = m, ymd_day = d\<rparr>)"
proof -
  define a where "a = n + 32044"
  define b where "b = (4 * a + 3) div 146097"
  define x where "x = (b * 146097) div 4"
  define c where "c = a - x"
  define d where "d = (4 * c + 3) div 1461"
  define z where "z = (1461 * d) div 4"
  define e where "e = c - z"
  define m where "m = (5 * e + 2) div 153"
  define p where "p = (153 * m + 2) div 5"
  define t where "t = m div 10"
  have a: "0 \<le> a" "a \<le> 536870911" using assms by (simp_all add: a_def)
  have b: "146097 * b \<le> 4 * a + 3" "4 * a + 3 < 146097 * b + 146097"
    unfolding b_def by (rule div_bounds; simp)+
  have x: "4 * x \<le> b * 146097" "b * 146097 < 4 * x + 4"
    unfolding x_def by (rule div_bounds; simp)+
  have c: "0 \<le> c" "c \<le> 36524" using b x by (simp_all add: c_def)
  have d: "1461 * d \<le> 4 * c + 3" "4 * c + 3 < 1461 * d + 1461"
    unfolding d_def by (rule div_bounds; simp)+
  have z: "4 * z \<le> 1461 * d" "1461 * d < 4 * z + 4"
    unfolding z_def by (rule div_bounds; simp)+
  have e: "0 \<le> e" "e \<le> 365" using d z by (simp_all add: e_def)
  have m: "153 * m \<le> 5 * e + 2" "5 * e + 2 < 153 * m + 153"
    unfolding m_def by (rule div_bounds; simp)+
  then have m': "0 \<le> m" "m \<le> 11" using e by simp_all
  have p: "5 * p \<le> 153 * m + 2" "153 * m + 2 < 5 * p + 5"
    unfolding p_def by (rule div_bounds; simp)+
  have t: "10 * t \<le> m" "m < 10 * t + 10"
    unfolding t_def by (rule div_bounds; simp)+
  have b0: "0 \<le> b" "0 \<le> d" using a b c d by linarith+
  have s1: "add32 (Inr n) (Inr 32044) = Inr a" using a by (simp add: a_def)
  have s2: "div32 (add32 (mul32 (Inr 4) (Inr a)) (Inr 3)) (Inr 146097) = Inr b"
    using a by (simp add: c_div_nonneg b_def)
  have s3: "sub32 (Inr a) (div32 (mul32 (Inr b) (Inr 146097)) (Inr 4)) = Inr c"
    using a b b0 c by (simp add: c_div_nonneg flip: x_def c_def)
  have s4: "div32 (add32 (mul32 (Inr 4) (Inr c)) (Inr 3)) (Inr 1461) = Inr d"
    using c by (simp add: c_div_nonneg d_def)
  have s5: "sub32 (Inr c) (div32 (mul32 (Inr 1461) (Inr d)) (Inr 4)) = Inr e"
    using c d b0 e by (simp add: c_div_nonneg flip: z_def e_def)
  have s6: "div32 (add32 (mul32 (Inr 5) (Inr e)) (Inr 2)) (Inr 153) = Inr m"
    using e by (simp add: c_div_nonneg m_def)
  have s7: "add32 (sub32 (Inr e) (div32 (add32 (mul32 (Inr 153) (Inr m)) (Inr 2)) (Inr 5))) (Inr 1) = Inr (e - p + 1)"
    using e m' p by (simp add: c_div_nonneg flip: p_def)
  have s8: "sub32 (add32 (Inr m) (Inr 3)) (mul32 (Inr 12) (div32 (Inr m) (Inr 10))) = Inr (m + 3 - 12 * t)"
    using m' t by (simp add: c_div_nonneg flip: t_def)
  have s9: "add32 (sub32 (add32 (mul32 (Inr b) (Inr 100)) (Inr d)) (Inr 4800)) (div32 (Inr m) (Inr 10)) =
      Inr (b * 100 + d - 4800 + t)"
    using a b b0 c d m' t by (simp add: c_div_nonneg flip: t_def)
  have "civil n = (b * 100 + d - 4800 + t, m + 3 - 12 * t, e - p + 1)"
    by (simp only: civil_def Let_def a_def b_def x_def c_def d_def z_def e_def m_def p_def t_def)
  then show ?thesis
    unfolding getYearMonthDay_def s1 bindR_simps s2 s3 s4 s5 s6 s7 s8 s9 by simp
qed

lemma jdn_range:
  assumes "valid_date (y, m, d)" "date_range y"
  shows "- 32044 \<le> jdn (y, m, d) \<and> jdn (y, m, d) \<le> 536838867"
proof -
  have v: "1 \<le> m" "m \<le> 12" "1 \<le> d" "d \<le> 31" and y: "- 4799 \<le> y" "y \<le> 1465000"
    using assms month_length_bounds [of y m] by (auto simp: valid_date_def date_range_def)
  have i: "jdn (y, m, d) = d + (153 * (m + 12 * ((14 - m) div 12) - 3) + 2) div 5 +
      (y + 4800 - (14 - m) div 12) * 365 + leap_days (y + 4800 - (14 - m) div 12) - 32045"
    by (simp add: jdn_eq Let_def)
  define Y where "Y = y + 4800 - (14 - m) div 12"
  have Y: "0 \<le> Y" "Y \<le> 1469800"
    using v y jdn_mid(1) [of m] by (auto simp: Y_def)
  have "0 \<le> leap_days Y"
    using Y zdiv_mono2 [of Y 4 100] by (simp add: leap_days_def pos_imp_zdiv_nonneg_iff)
  moreover have "400 * leap_days Y \<le> 97 * Y + 396"
  proof -
    define A B C where "A = Y div 4" and "B = Y div 100" and "C = Y div 400"
    have "4 * A \<le> Y" "Y < 100 * B + 100" "400 * C \<le> Y"
      unfolding A_def B_def C_def by (rule div_bounds; simp)+
    then show ?thesis
      unfolding leap_days_def A_def [symmetric] B_def [symmetric] C_def [symmetric]
      by (simp add: algebra_simps)
  qed
  moreover have "0 \<le> (153 * (m + 12 * ((14 - m) div 12) - 3) + 2) div 5"
    "(153 * (m + 12 * ((14 - m) div 12) - 3) + 2) div 5 \<le> 337"
    using month_cases [OF v(1, 2)] by (elim disjE; simp)+
  ultimately show ?thesis
    using v Y unfolding i Y_def [symmetric] by linarith
qed

section \<open>Dates\<close>

definition ymd_of :: "int \<times> int \<times> int \<Rightarrow> YearMonthDay" where
  "ymd_of = (\<lambda>(y, m, d). \<lparr>ymd_year = y, ymd_month = m, ymd_day = d\<rparr>)"

lemma getYearMonthDay_jdn:
  assumes "valid_date D" "date_range (fst D)"
  shows "getYearMonthDay (jdn D) = Inr (ymd_of D)"
  using assms getYearMonthDay_eq [of "jdn D"] jdn_range civil_jdn
  by (cases D) (simp add: ymd_of_def)

lemma Date_new_eq:
  "valid_date (y, m, d) \<Longrightarrow> date_range y \<Longrightarrow> Date_new y m d = Inr \<lparr>d_julianDateNumber = jdn (y, m, d)\<rparr>"
  by (simp add: Date_new_def getJulianDayNumber_eq)

lemma jdn_days: "valid_date D \<Longrightarrow> valid_date ((next_day ^^ k) D) \<and> jdn ((next_day ^^ k) D) = jdn D + int k"
  by (induction k) (auto simp: jdn_next_day valid_next_day)

lemma jdn_inject: "valid_date D \<Longrightarrow> valid_date D' \<Longrightarrow> jdn D = jdn D' \<Longrightarrow> D = D'"
  using civil_jdn by (metis prod_cases3)

text \<open>Dates in lexicographic order are dates in the order of their day numbers.\<close>

definition date_less :: "int \<times> int \<times> int \<Rightarrow> int \<times> int \<times> int \<Rightarrow> bool" where
  "date_less = (\<lambda>(y, m, d) (y', m', d'). y < y' \<or> y = y' \<and> (m < m' \<or> m = m' \<and> d < d'))"

lemma date_less_trans: "date_less a b \<Longrightarrow> date_less b c \<Longrightarrow> date_less a c"
  by (cases a; cases b; cases c) (auto simp: date_less_def)

lemma date_less_total: "date_less a b \<or> a = b \<or> date_less b a"
  by (cases a; cases b) (auto simp: date_less_def)

lemma date_less_days: "date_less D ((next_day ^^ Suc k) D)"
proof (induction k)
  case 0
  show ?case by (cases D) (auto simp: date_less_def next_day_def)
next
  case (Suc k)
  moreover have "date_less E (next_day E)" for E
    by (cases E) (auto simp: date_less_def next_day_def)
  ultimately show ?case using date_less_trans by auto
qed

lemma jdn_less_imp:
  assumes "valid_date D" "valid_date D'" "jdn D < jdn D'"
  shows "date_less D D'"
proof -
  obtain k where k: "jdn D' = jdn D + int (Suc k)"
    using assms(3) by (metis add_diff_cancel_left' less_iff_diff_less_0 zless_iff_Suc_zadd)
  then have "D' = (next_day ^^ Suc k) D"
    using jdn_days [OF assms(1), of "Suc k"] assms(2) by (intro jdn_inject) auto
  then show ?thesis using date_less_days by simp
qed

lemma date_less_irrefl: "\<not> (date_less a b \<and> date_less b a)"
  by (cases a; cases b) (auto simp: date_less_def)

lemma jdn_less_iff:
  assumes "valid_date D" "valid_date D'"
  shows "jdn D < jdn D' \<longleftrightarrow> date_less D D'"
  using jdn_less_imp [OF assms] jdn_less_imp [OF assms(2, 1)] date_less_irrefl [of D D'] jdn_inject [OF assms]
  by (metis linorder_less_linear date_less_irrefl)

section \<open>Properties\<close>

text \<open>
  A date built from a valid year, month and day of the Gregorian calendar gives back that year,
  month and day, and the conversions neither overflow nor divide a negative number, for all years
  from 4800 BC to 1465000 (the class documents 1900 to 2500).
\<close>

theorem Date_roundtrip:
  assumes "valid_date (y, m, d)" "date_range y"
  shows "bindR (Date_new y m d) (\<lambda>t. bindR (Date_year t) (\<lambda>y'. bindR (Date_month t) (\<lambda>m'.
           bindR (Date_day t) (\<lambda>d'. Inr (y', m', d'))))) = Inr (y, m, d)"
  using assms getYearMonthDay_jdn [of "(y, m, d)"]
  by (simp add: Date_new_eq Date_year_def Date_month_def Date_day_def Date_yearMonthDay_def ymd_of_def)

theorem Date_roundtrip_witness:
  "bindR (Date_new 2000 2 29) (\<lambda>t. bindR (Date_year t) (\<lambda>y'. bindR (Date_month t) (\<lambda>m'.
     bindR (Date_day t) (\<lambda>d'. Inr (y', m', d'))))) = Inr (2000, 2, 29)"
  by (rule Date_roundtrip) (simp_all add: valid_date_def month_length_def leap_def date_range_def)

text \<open>
  C32. Day numbers count days: for a valid date \<open>D\<close> and the date \<open>k\<close> days later in the calendar,
  the second number is the first plus \<open>k\<close>, the weekday of the second is that of the first plus
  \<open>k\<close> modulo 7, and the 1st of January 1970 is day 2440588, a Thursday.
\<close>

theorem Date_counts_days:
  assumes "valid_date D" "date_range (fst D)" "(next_day ^^ k) D = (y, m, d)" "date_range y"
  shows "kJulianDayOf1970_01_01 = Inr 2440588 \<and> Date_weekDay (Date_ofJulian 2440588) = Inr 4 \<and>
     (case D of (y0, m0, d0) \<Rightarrow>
       returns (Date_new y0 m0 d0) (\<lambda>t0. returns (Date_new y m d) (\<lambda>t.
         d_julianDateNumber t = d_julianDateNumber t0 + int k \<and>
         (0 \<le> d_julianDateNumber t0 \<longrightarrow> returns (Date_weekDay t0) (\<lambda>w0. returns (Date_weekDay t) (\<lambda>w.
            w = (w0 + int k) mod 7 \<and> 0 \<le> w \<and> w < 7))))))"
proof -
  obtain y0 m0 d0 where D: "D = (y0, m0, d0)" by (cases D)
  let ?n = "jdn (y0, m0, d0)"
  have n: "?n + int k = jdn (y, m, d)" "valid_date (y, m, d)"
    using jdn_days [OF assms(1), of k] assms(3) by (simp_all add: D)
  have new: "Date_new y0 m0 d0 = Inr \<lparr>d_julianDateNumber = ?n\<rparr>"
    "Date_new y m d = Inr \<lparr>d_julianDateNumber = ?n + int k\<rparr>"
    using assms n by (simp_all add: D Date_new_eq)
  have range: "?n \<le> 536838867" "?n + int k \<le> 536838867"
    using jdn_range [of y0 m0 d0] jdn_range [of y m d] assms n by (simp_all add: D)
  have week: "Date_weekDay \<lparr>d_julianDateNumber = j\<rparr> = Inr ((j + 1) mod 7)"
    if "0 \<le> j" "j \<le> 536838867" for j
    using that by (simp add: Date_weekDay_def kDaysPerWeek_def c_mod_nonneg)
  have epoch: "kJulianDayOf1970_01_01 = Inr 2440588" "Date_weekDay (Date_ofJulian 2440588) = Inr 4"
    unfolding kJulianDayOf1970_01_01_def
    by (simp_all add: getJulianDayNumber_eq valid_date_def month_length_def date_range_def jdn_def
        Date_ofJulian_def week)
  have "(?n + int k + 1) mod 7 = ((?n + 1) mod 7 + int k) mod 7"
    by (simp add: mod_simps algebra_simps)
  then show ?thesis
    using week range by (simp add: epoch D new)
qed

theorem Date_counts_days_witness:
  "returns (Date_new 2023 12 31) (\<lambda>t0. returns (Date_new 2024 1 2) (\<lambda>t.
     d_julianDateNumber t = d_julianDateNumber t0 + 2))"
proof -
  have "(next_day ^^ 2) (2023, 12, 31) = (2024, 1, 2)"
    by (simp add: numeral_2_eq_2 next_day_def month_length_def)
  from Date_counts_days [OF _ _ this] show ?thesis
    by (auto simp: valid_date_def month_length_def leap_def date_range_def elim!: returns_mono)
qed

text \<open>
  \<^verbatim>\<open>operator<\<close> and \<^verbatim>\<open>operator==\<close> on dates are the lexicographic order and the equality of
  year, month and day.
\<close>

theorem Date_order:
  assumes "valid_date (y, m, d)" "date_range y" "valid_date (y', m', d')" "date_range y'"
  shows "returns (Date_new y m d) (\<lambda>a. returns (Date_new y' m' d') (\<lambda>b.
     Date_less a b = (y < y' \<or> y = y' \<and> (m < m' \<or> m = m' \<and> d < d')) \<and>
     Date_eq a b = (y = y' \<and> m = m' \<and> d = d')))"
  using assms jdn_less_iff [OF assms(1, 3)] jdn_inject [OF assms(1, 3)]
  by (auto simp: Date_new_eq Date_less_def Date_eq_def date_less_def)

theorem Date_order_witness:
  "returns (Date_new 1999 12 31) (\<lambda>a. returns (Date_new 2000 1 1) (\<lambda>b. Date_less a b \<and> \<not> Date_eq a b))"
  using Date_order [of 1999 12 31 2000 1 1]
  by (auto simp: valid_date_def month_length_def date_range_def elim!: returns_mono)

text \<open>
  For years with four digits \<^verbatim>\<open>toIsoString\<close> prints ten characters, the year, month and day
  separated by dashes, and reading the three numbers gives the date back.
\<close>

theorem Date_iso_reads_back:
  assumes "valid_date (y, m, d)" "1000 \<le> y" "y \<le> 9999"
  shows "returns (bindR (Date_new y m d) Date_toIsoString) (\<lambda>s. length s = 10 \<and>
     s ! 4 = CHR ''-'' \<and> s ! 7 = CHR ''-'' \<and> int (dec_value (take 4 s)) = y \<and>
     int (dec_value (take 2 (drop 5 s))) = m \<and> int (dec_value (drop 8 s)) = d)"
proof -
  have v: "1 \<le> m" "m \<le> 12" "1 \<le> d" "d \<le> 31" "date_range y"
    using assms month_length_bounds [of y m] by (auto simp: valid_date_def date_range_def)
  have m: "length (fmt_0d 2 m) = 2" "int (dec_value (fmt_0d 2 m)) = m"
    and d: "length (fmt_0d 2 d) = 2" "int (dec_value (fmt_0d 2 d)) = d"
    using v by (simp_all add: length_fmt_0d dec_value_fmt_0d)
  have "length (dec_nat (nat y)) = 4"
    using assms length_dec_nat_eq [of 4 "nat y"] by simp
  then have y: "length (fmt_d 4 y) = 4" "int (dec_value (fmt_d 4 y)) = y"
    using assms by (simp_all add: fmt_d_def pad_left_def)
  have iso: "bindR (Date_new y m d) Date_toIsoString =
      Inr (fmt_d 4 y @ ''-'' @ fmt_0d 2 m @ ''-'' @ fmt_0d 2 d)"
    using assms v m d y getYearMonthDay_jdn [of "(y, m, d)"]
    by (simp add: Date_new_eq Date_toIsoString_def Date_yearMonthDay_def ymd_of_def snprintf_fits)
  show ?thesis
    unfolding iso using m d y by (simp add: nth_append)
qed

theorem Date_iso_reads_back_witness:
  "returns (bindR (Date_new 2014 3 9) Date_toIsoString) (\<lambda>s. length s = 10 \<and>
     int (dec_value (take 4 s)) = 2014 \<and> int (dec_value (take 2 (drop 5 s))) = 3 \<and>
     int (dec_value (drop 8 s)) = 9)"
  using Date_iso_reads_back [of 2014 3 9]
  by (auto simp: valid_date_def month_length_def elim!: returns_mono)

end
