(* ===== verification/Ctime.thy ===== *)
theory Ctime
  imports Date
begin

text \<open>
  The parts of the C library's \<^verbatim>\<open>time.h\<close> and of IEEE 754 arithmetic that timestamps and time zones
  use: \<^verbatim>\<open>gmtime_r\<close> by the calendar of the theory \<open>Date\<close>, and \<^verbatim>\<open>double\<close> products and quotients
  as rationals rounded to 53 binary digits, half to even. Infinities, NaN and the loss of digits
  below \<open>2 ^ -1022\<close> are left out.
\<close>

section \<open>Broken-down time\<close>

definition secs_per_day :: int where
  "secs_per_day = 86400"

definition epoch_jdn :: int where
  "epoch_jdn = 2440588"

definition gmtime_r :: "int \<Rightarrow> tm" where
  "gmtime_r t =
     (let days = t div secs_per_day; s = t mod secs_per_day;
          (y, m, d) = civil (days + epoch_jdn)
      in \<lparr>tm_sec = s mod 60, tm_min = s div 60 mod 60, tm_hour = s div 3600,
          tm_mday = d, tm_mon = m - 1, tm_year = y - 1900, tm_wday = (days + 4) mod 7,
          tm_yday = days + epoch_jdn - jdn (y, 1, 1), tm_isdst = 0, tm_gmtoff = 0, tm_zone = ''GMT''\<rparr>)"

lemma gmtime_r_time:
  "0 \<le> tm_sec (gmtime_r t)" "tm_sec (gmtime_r t) < 60"
  "0 \<le> tm_min (gmtime_r t)" "tm_min (gmtime_r t) < 60"
  "0 \<le> tm_hour (gmtime_r t)" "tm_hour (gmtime_r t) < 24"
proof -
  have "0 \<le> t mod secs_per_day" "t mod secs_per_day < secs_per_day"
    by (simp_all add: secs_per_day_def)
  then have "0 \<le> t mod secs_per_day div 3600" "t mod secs_per_day div 3600 < 24"
    using div_bounds [of 3600 "t mod secs_per_day"]
    by (simp_all add: secs_per_day_def pos_imp_zdiv_nonneg_iff)
  then show "0 \<le> tm_sec (gmtime_r t)" "tm_sec (gmtime_r t) < 60"
    "0 \<le> tm_min (gmtime_r t)" "tm_min (gmtime_r t) < 60"
    "0 \<le> tm_hour (gmtime_r t)" "tm_hour (gmtime_r t) < 24"
    by (simp_all add: gmtime_r_def Let_def case_prod_beta)
qed

text \<open>The seconds of the day come back from hours, minutes and seconds.\<close>

lemma hms_split: "(s div 3600) * 3600 + (s div 60 mod 60) * 60 + s mod 60 = (s :: int)"
proof -
  obtain a r where a: "s = 3600 * a + r" "0 \<le> r" "r < 3600" by (rule int_split [of 3600]) simp
  obtain b c where b: "r = 60 * b + c" "0 \<le> c" "c < 60" by (rule int_split [of 60]) simp
  have bb: "0 \<le> b" "b < 60" using a b by linarith+
  have "s div 3600 = a" by (rule div_unique_int [where r = r]) (use a in simp_all)
  moreover have "s div 60 = 60 * a + b" by (rule div_unique_int [where r = c]) (use a b in simp_all)
  moreover have "(60 * a + b) mod 60 = b" by (rule mod_unique_int [where q = a]) (use bb in simp_all)
  moreover have "s mod 60 = c" by (rule mod_unique_int [where q = "60 * a + b"]) (use a b in simp_all)
  ultimately show ?thesis using a b by simp
qed

text \<open>Every day from the first of the range on is a date of the calendar.\<close>

definition first_day :: int where
  "first_day = - 31738"

lemma civil_valid:
  assumes "first_day \<le> n"
  shows "valid_date (civil n)" "jdn (civil n) = n" "- 4799 \<le> fst (civil n)"
proof -
  let ?D = "(- 4799, 1, 1)"
  have v: "valid_date ?D" by (simp add: valid_date_def month_length_def)
  have j: "jdn ?D = first_day" by (simp add: jdn_def first_day_def)
  define E where "E = (next_day ^^ nat (n - first_day)) ?D"
  have E: "valid_date E" "jdn E = n"
    using jdn_days [OF v, of "nat (n - first_day)"] assms by (simp_all add: E_def j)
  then have c: "civil n = E" using civil_jdn by (metis prod_cases3)
  show "valid_date (civil n)" "jdn (civil n) = n" using E by (simp_all add: c)
  have "\<not> jdn E < jdn ?D" using E j assms by simp
  then have "\<not> date_less E ?D" using jdn_less_iff [OF E(1) v] by simp
  then show "- 4799 \<le> fst (civil n)" unfolding c by (cases E) (auto simp: date_less_def)
qed

text \<open>The last day of the range of years.\<close>

definition last_day :: int where
  "last_day = 536801000"

lemma civil_range:
  assumes "first_day \<le> n" "n \<le> last_day"
  shows "date_range (fst (civil n))"
proof -
  let ?D = "(1465000, 1, 1)"
  have v: "valid_date ?D" by (simp add: valid_date_def month_length_def)
  have "jdn (civil n) < jdn ?D"
    using civil_valid(2) [OF assms(1)] assms(2) by (simp add: last_day_def jdn_def)
  then have "date_less (civil n) ?D"
    using jdn_less_iff [OF civil_valid(1) [OF assms(1)] v] by simp
  then show ?thesis
    using civil_valid(3) [OF assms(1)] by (cases "civil n") (auto simp: date_less_def date_range_def)
qed

section \<open>Doubles\<close>

fun bit_len :: "nat \<Rightarrow> nat" where
  "bit_len n = (if n = 0 then 0 else Suc (bit_len (n div 2)))"

declare bit_len.simps [simp del]

definition pow2 :: "int \<Rightarrow> rat" where
  "pow2 e = (if 0 \<le> e then 2 ^ nat e else 1 / 2 ^ nat (- e))"

text \<open>The exponent of the last of the 53 binary digits of \<open>x > 0\<close>.\<close>

definition ulp_exp :: "rat \<Rightarrow> int" where
  "ulp_exp x =
     (if 1 \<le> x then int (bit_len (nat \<lfloor>x\<rfloor>)) - 53
      else - int (bit_len (nat (\<lceil>1 / x\<rceil> - 1))) - 52)"

definition round_half_even :: "rat \<Rightarrow> int" where
  "round_half_even x =
     (let f = \<lfloor>x\<rfloor>; d = x - of_int f
      in if d < 1 / 2 then f else if 1 / 2 < d then f + 1 else if even f then f else f + 1)"

definition fround :: "rat \<Rightarrow> rat" where
  "fround x =
     (if x = 0 then 0
      else let e = ulp_exp \<bar>x\<bar>; r = of_int (round_half_even (\<bar>x\<bar> / pow2 e)) * pow2 e
           in if x < 0 then - r else r)"

definition double_mul :: "rat \<Rightarrow> rat \<Rightarrow> rat" where
  "double_mul x y = fround (x * y)"

definition double_div :: "rat \<Rightarrow> rat \<Rightarrow> rat" where
  "double_div x y = fround (x / y)"

text \<open>\<^verbatim>\<open>static_cast<int64_t>\<close> of a double truncates; out of range it is undefined.\<close>

definition trunc_rat :: "rat \<Rightarrow> int" where
  "trunc_rat x = (if 0 \<le> x then \<lfloor>x\<rfloor> else \<lceil>x\<rceil>)"

definition int64_of_double :: "rat \<Rightarrow> int res" where
  "int64_of_double x = cint 64 (trunc_rat x)"

lemma pow2_pos [simp]: "0 < pow2 e"
  by (simp add: pow2_def)

lemma round_half_even_of_int [simp]: "round_half_even (of_int n) = n"
  by (simp add: round_half_even_def)

lemma round_half_even_nonneg: "0 \<le> x \<Longrightarrow> 0 \<le> round_half_even x"
  by (simp add: round_half_even_def Let_def)

lemma fround_nonneg: "0 \<le> x \<Longrightarrow> 0 \<le> fround x"
  by (simp add: fround_def Let_def round_half_even_nonneg less_imp_le [OF pow2_pos])

lemma bit_len_less: "n < 2 ^ k \<Longrightarrow> bit_len n \<le> k"
proof (induction k arbitrary: n)
  case 0
  then show ?case by (simp add: bit_len.simps [of 0] bit_len.simps [of n])
next
  case (Suc k)
  then have "bit_len (n div 2) \<le> k" by simp
  then show ?case by (simp add: bit_len.simps [of 0] bit_len.simps [of n])
qed

lemma fround_nat:
  assumes "n < 2 ^ 53"
  shows "fround (of_nat n) = of_nat n"
proof (cases "n = 0")
  case False
  define e where "e = ulp_exp (of_nat n)"
  have "e = int (bit_len n) - 53"
    using False by (simp add: ulp_exp_def e_def)
  then have e: "e \<le> 0" using bit_len_less [OF assms] by simp
  have "of_nat n / pow2 e = of_int (int n * 2 ^ nat (- e))"
    using e by (cases "e = 0") (simp_all add: pow2_def)
  then have "of_int (round_half_even (of_nat n / pow2 e)) * pow2 e = (of_nat n :: rat)"
    by (simp only: round_half_even_of_int) (use e in \<open>cases "e = 0"; simp add: pow2_def\<close>)
  then show ?thesis using False by (simp add: fround_def Let_def e_def)
qed (simp add: fround_def)

lemma fround_minus: "fround (- x) = - fround x"
  by (simp add: fround_def Let_def)

lemma fround_int:
  assumes "\<bar>n\<bar> < 2 ^ 53"
  shows "fround (of_int n) = of_int n"
proof -
  have "fround (of_nat (nat \<bar>n\<bar>)) = of_nat (nat \<bar>n\<bar>)"
    using assms by (intro fround_nat) (simp add: nat_less_iff)
  then show ?thesis
    using fround_minus [of "of_int n"] by (cases "0 \<le> n") simp_all
qed

lemma trunc_rat_of_int [simp]: "trunc_rat (of_int n) = n"
  by (simp add: trunc_rat_def)

lemma trunc_rat_nonneg: "0 \<le> x \<Longrightarrow> 0 \<le> trunc_rat x"
  by (simp add: trunc_rat_def)

end
