(* ===== verification/Timezone.thy ===== *)
theory Timezone
  imports Ctime
begin

text \<open>
  The time zones of timezone.h and timezone.cc: the reader of zone files, the search for the local
  time in force, and the conversions between seconds and broken-down time. \<^verbatim>\<open>mktime\<close>, which
  depends on the zone of the process, is a parameter; the contents of the zone file are too.
\<close>

section \<open>Data\<close>

record Transition =
  tr_gmtime :: int
  tr_localtime :: int
  tr_localtimeIdx :: int

record Comp =
  compareGmt :: bool

definition Comp_less :: "Comp \<Rightarrow> Transition \<Rightarrow> Transition \<Rightarrow> bool" where
  "Comp_less c lhs rhs \<longleftrightarrow>
     (if compareGmt c then tr_gmtime lhs < tr_gmtime rhs else tr_localtime lhs < tr_localtime rhs)"

definition Comp_equal :: "Comp \<Rightarrow> Transition \<Rightarrow> Transition \<Rightarrow> bool" where
  "Comp_equal c lhs rhs \<longleftrightarrow>
     (if compareGmt c then tr_gmtime lhs = tr_gmtime rhs else tr_localtime lhs = tr_localtime rhs)"

record Localtime =
  lt_gmtOffset :: int
  lt_isDst :: bool
  lt_arrbIdx :: int

definition kSecondsPerDay :: int where
  "kSecondsPerDay = 24 * 60 * 60"

record TimeZone_Data =
  td_transitions :: "Transition list"
  td_localtimes :: "Localtime list"
  td_names :: "string list"
  td_abbreviation :: string

definition empty_data :: TimeZone_Data where
  "empty_data = \<lparr>td_transitions = [], td_localtimes = [], td_names = [], td_abbreviation = ''''\<rparr>"

section \<open>Reading a zone file\<close>

text \<open>
  A file is the list of the bytes not yet read. \<^verbatim>\<open>throw std::logic_error(s)\<close> is the fault
  \<open>LogicError s\<close>. A count that is negative converts to a huge \<^verbatim>\<open>size_t\<close>, and an array of that
  length on the stack is out of bounds.
\<close>

definition File_readBytes :: "int \<Rightarrow> byte list \<Rightarrow> (byte list \<times> byte list) res" where
  "File_readBytes n f =
     (if n < 0 then Inl OutOfBounds
      else if length f < nat n then Inl (LogicError ''no enough data'')
      else Inr (take (nat n) f, drop (nat n) f))"

definition File_readInt32 :: "endian \<Rightarrow> byte list \<Rightarrow> (int \<times> byte list) res" where
  "File_readInt32 h f =
     (if length f < 4 then Inl (LogicError ''bad int32_t data'')
      else Inr (sint (net_dec32 h (take 4 f)), drop 4 f))"

definition File_readUInt8 :: "byte list \<Rightarrow> (int \<times> byte list) res" where
  "File_readUInt8 f =
     (if length f < 1 then Inl (LogicError ''bad uint8_t data'')
      else Inr (uint (hd f), tl f))"

text \<open>\<^verbatim>\<open>for (int i = 0; i < n; ++i) v.push_back(read())\<close>.\<close>

fun read_times :: "(byte list \<Rightarrow> ('a \<times> byte list) res) \<Rightarrow> nat \<Rightarrow> byte list \<Rightarrow> ('a list \<times> byte list) res" where
  "read_times rd 0 f = Inr ([], f)"
| "read_times rd (Suc n) f =
     bindR (rd f) (\<lambda>(x, f'). bindR (read_times rd n f') (\<lambda>(xs, f''). Inr (x # xs, f'')))"

definition string_of_bytes :: "byte list \<Rightarrow> string" where
  "string_of_bytes bs = map (\<lambda>b. char_of (unat b)) bs"

record tz_header =
  h_timecnt :: int
  h_typecnt :: int
  h_charcnt :: int

definition parse_header :: "endian \<Rightarrow> byte list \<Rightarrow> (tz_header \<times> byte list) res" where
  "parse_header h f0 =
     bindR (File_readBytes 4 f0) (\<lambda>(head, f1).
     if string_of_bytes head \<noteq> ''TZif'' then Inl (LogicError ''bad head'') else
     bindR (File_readBytes 1 f1) (\<lambda>(version, f2).
     bindR (File_readBytes 15 f2) (\<lambda>(_, f3).
     bindR (File_readInt32 h f3) (\<lambda>(isgmtcnt, f4).
     bindR (File_readInt32 h f4) (\<lambda>(isstdcnt, f5).
     bindR (File_readInt32 h f5) (\<lambda>(leapcnt, f6).
     bindR (File_readInt32 h f6) (\<lambda>(timecnt, f7).
     bindR (File_readInt32 h f7) (\<lambda>(typecnt, f8).
     bindR (File_readInt32 h f8) (\<lambda>(charcnt, f9).
       Inr (\<lparr>h_timecnt = timecnt, h_typecnt = typecnt, h_charcnt = charcnt\<rparr>, f9))))))))))"

text \<open>
  The rest of the \<^verbatim>\<open>try\<close> block changes \<^verbatim>\<open>*data\<close> as it goes, and an exception leaves the
  changes made so far: each step returns the data beside its result.
\<close>

definition read_localtime :: "endian \<Rightarrow> byte list \<Rightarrow> (Localtime \<times> byte list) res" where
  "read_localtime h f =
     bindR (File_readInt32 h f) (\<lambda>(gmoff, f1).
     bindR (File_readUInt8 f1) (\<lambda>(isdst, f2).
     bindR (File_readUInt8 f2) (\<lambda>(abbridx, f3).
       Inr (\<lparr>lt_gmtOffset = gmoff, lt_isDst = (isdst \<noteq> 0), lt_arrbIdx = abbridx\<rparr>, f3))))"

fun parse_localtimes :: "endian \<Rightarrow> nat \<Rightarrow> byte list \<Rightarrow> TimeZone_Data \<Rightarrow> TimeZone_Data \<times> byte list res" where
  "parse_localtimes h 0 f d = (d, Inr f)"
| "parse_localtimes h (Suc n) f d =
     (case read_localtime h f of
        Inl e \<Rightarrow> (d, Inl e)
      | Inr (l, f') \<Rightarrow> parse_localtimes h n f' (d\<lparr>td_localtimes := td_localtimes d @ [l]\<rparr>))"

text \<open>
  \<open>data->localtimes[localidx]\<close> is not checked; \<open>trans[i] + gmtOffset\<close> is a sum of two 32 bit values
  in \<^verbatim>\<open>time_t\<close>.
\<close>

fun parse_transitions :: "(int \<times> int) list \<Rightarrow> TimeZone_Data \<Rightarrow> TimeZone_Data \<times> unit res" where
  "parse_transitions [] d = (d, Inr ())"
| "parse_transitions ((t, localidx) # ts) d =
     (if nat localidx < length (td_localtimes d)
      then parse_transitions ts
        (d\<lparr>td_transitions := td_transitions d @
          [\<lparr>tr_gmtime = t, tr_localtime = t + lt_gmtOffset (td_localtimes d ! nat localidx),
            tr_localtimeIdx = localidx\<rparr>]\<rparr>)
      else (d, Inl OutOfBounds))"

text \<open>
  \<^verbatim>\<open>trans.reserve(timecnt)\<close> of a negative count asks for more than a vector can hold and throws
  \<^verbatim>\<open>std::length_error\<close>, which is a \<^verbatim>\<open>std::logic_error\<close>; its text is the library's.
\<close>

definition parse_body :: "endian \<Rightarrow> byte list \<Rightarrow> TimeZone_Data \<Rightarrow> TimeZone_Data \<times> unit res" where
  "parse_body h f data =
     (case parse_header h f of
        Inl e \<Rightarrow> (data, Inl e)
      | Inr (hdr, f0) \<Rightarrow>
     (case (if h_timecnt hdr < 0 then Inl LengthError
            else bindR (read_times (File_readInt32 h) (nat (h_timecnt hdr)) f0) (\<lambda>(trans, f1).
                 bindR (read_times File_readUInt8 (nat (h_timecnt hdr)) f1) (\<lambda>(localtimes, f2).
                   Inr (zip trans localtimes, f2)))) of
        Inl e \<Rightarrow> (data, Inl e)
      | Inr (trs, f2) \<Rightarrow>
     (case parse_localtimes h (nat (h_typecnt hdr)) f2 data of
        (data1, Inl e) \<Rightarrow> (data1, Inl e)
      | (data1, Inr f3) \<Rightarrow>
     (case parse_transitions trs data1 of
        (data2, Inl e) \<Rightarrow> (data2, Inl e)
      | (data2, Inr _) \<Rightarrow>
     (case File_readBytes (h_charcnt hdr) f3 of
        Inl e \<Rightarrow> (data2, Inl e)
      | Inr (abbr, _) \<Rightarrow> (data2\<lparr>td_abbreviation := string_of_bytes abbr\<rparr>, Inr ()))))))"

text \<open>
  \<open>file\<close> is what \<^verbatim>\<open>fopen\<close> gave. The result is the returned boolean and what \<^verbatim>\<open>*data\<close> holds.
  The destructor of \<^verbatim>\<open>f\<close> calls \<^verbatim>\<open>fclose\<close> in every case, with a null pointer when the file could not
  be opened.
\<close>

definition parseTimeZoneFile :: "endian \<Rightarrow> byte list option \<Rightarrow> TimeZone_Data \<Rightarrow> (bool \<times> TimeZone_Data) res" where
  "parseTimeZoneFile h file data =
     (case file of
        None \<Rightarrow> Inl BadPointer
      | Some bytes \<Rightarrow>
          (case parse_body h bytes data of
             (data', Inr _) \<Rightarrow> Inr (True, data')
           | (data', Inl (LogicError s)) \<Rightarrow> Inr (True, data')
           | (data', Inl LengthError) \<Rightarrow> Inr (True, data')
           | (data', Inl e) \<Rightarrow> Inl e))"

section \<open>The local time in force\<close>

text \<open>\<^verbatim>\<open>std::lower_bound\<close>: the binary search of the standard library.\<close>

function lower_bound :: "('a \<Rightarrow> bool) \<Rightarrow> 'a list \<Rightarrow> nat \<Rightarrow> nat \<Rightarrow> nat" where
  "lower_bound before xs first len =
     (if len = 0 then first
      else let half = len div 2; middle = first + half in
        if before (xs ! middle) then lower_bound before xs (middle + 1) (len - half - 1)
        else lower_bound before xs first half)"
  by pat_completeness auto
termination by (relation "measure (\<lambda>(before, xs, first, len). len)") auto

declare lower_bound.simps [simp del]

definition at_localtime :: "TimeZone_Data \<Rightarrow> int \<Rightarrow> Localtime res" where
  "at_localtime data i =
     (if 0 \<le> i \<and> nat i < length (td_localtimes data) then Inr (td_localtimes data ! nat i) else Inl OutOfBounds)"

definition findLocaltime :: "bool \<Rightarrow> TimeZone_Data \<Rightarrow> Transition \<Rightarrow> Comp \<Rightarrow> Localtime res" where
  "findLocaltime dbg data sentry cmp =
     (let trs = td_transitions data in
      if trs = [] \<or> Comp_less cmp sentry (hd trs) then at_localtime data 0
      else let iter = lower_bound (\<lambda>t. Comp_less cmp t sentry) trs 0 (length trs) in
        if iter \<noteq> length trs
        then if \<not> Comp_equal cmp sentry (trs ! iter)
             then cassert dbg (iter \<noteq> 0) (at_localtime data (tr_localtimeIdx (trs ! (iter - 1))))
             else at_localtime data (tr_localtimeIdx (trs ! iter))
        else at_localtime data (tr_localtimeIdx (last trs)))"

section \<open>The class\<close>

record TimeZone =
  tz_data :: "TimeZone_Data option"

definition TimeZone_default :: TimeZone where
  "TimeZone_default = \<lparr>tz_data = None\<rparr>"

definition TimeZone_ofFile :: "endian \<Rightarrow> byte list option \<Rightarrow> TimeZone res" where
  "TimeZone_ofFile h zonefile =
     bindR (parseTimeZoneFile h zonefile empty_data) (\<lambda>(ok, d).
       Inr \<lparr>tz_data = (if ok then Some d else None)\<rparr>)"

definition TimeZone_fixed :: "int \<Rightarrow> string \<Rightarrow> TimeZone" where
  "TimeZone_fixed eastOfUTC name =
     \<lparr>tz_data = Some (empty_data\<lparr>td_localtimes := [\<lparr>lt_gmtOffset = eastOfUTC, lt_isDst = False, lt_arrbIdx = 0\<rparr>],
        td_abbreviation := name\<rparr>)\<rparr>"

definition TimeZone_valid :: "TimeZone \<Rightarrow> bool" where
  "TimeZone_valid tz \<longleftrightarrow> tz_data tz \<noteq> None"

text \<open>
  The zone name is a pointer into \<open>abbreviation\<close>: the characters from the index to the terminator.
\<close>

definition c_string_at :: "string \<Rightarrow> int \<Rightarrow> string res" where
  "c_string_at s i =
     (if 0 \<le> i \<and> nat i \<le> length s then Inr (takeWhile (\<lambda>c. c \<noteq> CHR 0x00) (drop (nat i) s)) else Inl OutOfBounds)"

definition TimeZone_toLocalTime :: "bool \<Rightarrow> TimeZone \<Rightarrow> int \<Rightarrow> tm res" where
  "TimeZone_toLocalTime dbg tz seconds =
     (case tz_data tz of
        None \<Rightarrow> cassert dbg False (Inl BadPointer)
      | Some data \<Rightarrow>
          bindR (findLocaltime dbg data \<lparr>tr_gmtime = seconds, tr_localtime = 0, tr_localtimeIdx = 0\<rparr>
              \<lparr>compareGmt = True\<rparr>) (\<lambda>local.
          bindR (add64 (Inr seconds) (Inr (lt_gmtOffset local))) (\<lambda>localSeconds.
          bindR (c_string_at (td_abbreviation data) (lt_arrbIdx local)) (\<lambda>zone.
            Inr ((gmtime_r localSeconds)\<lparr>tm_isdst := (if lt_isDst local then 1 else 0),
                 tm_gmtoff := lt_gmtOffset local, tm_zone := zone\<rparr>)))))"

definition TimeZone_fromLocalTime :: "(tm \<Rightarrow> int) \<Rightarrow> bool \<Rightarrow> TimeZone \<Rightarrow> tm \<Rightarrow> int res" where
  "TimeZone_fromLocalTime mktime dbg tz localTm =
     (case tz_data tz of
        None \<Rightarrow> cassert dbg False (Inl BadPointer)
      | Some data \<Rightarrow>
          let seconds = mktime localTm in
          bindR (findLocaltime dbg data \<lparr>tr_gmtime = 0, tr_localtime = seconds, tr_localtimeIdx = 0\<rparr>
              \<lparr>compareGmt = False\<rparr>) (\<lambda>local.
          bindR (if tm_isdst localTm \<noteq> 0
                 then bindR (sub64 (Inr seconds) (Inr (lt_gmtOffset local))) (\<lambda>t.
                      bindR (TimeZone_toLocalTime dbg tz t) (\<lambda>tryTm.
                        if tm_isdst tryTm = 0 \<and> tm_hour tryTm = tm_hour localTm \<and>
                           tm_min tryTm = tm_min localTm
                        then sub64 (Inr seconds) (Inr 3600) else Inr seconds))
                 else Inr seconds) (\<lambda>seconds'.
            sub64 (Inr seconds') (Inr (lt_gmtOffset local)))))"

section \<open>UTC\<close>

text \<open>The arguments are \<^verbatim>\<open>unsigned\<close>; the fields it stores are small.\<close>

definition fillHMS :: "int \<Rightarrow> tm \<Rightarrow> tm" where
  "fillHMS seconds utc =
     (let seconds = seconds mod 2 ^ 32; minutes = seconds div 60 in
      utc\<lparr>tm_sec := seconds mod 60, tm_min := minutes mod 60, tm_hour := minutes div 60\<rparr>)"

definition zero_tm :: tm where
  "zero_tm = \<lparr>tm_sec = 0, tm_min = 0, tm_hour = 0, tm_mday = 0, tm_mon = 0, tm_year = 0, tm_wday = 0,
     tm_yday = 0, tm_isdst = 0, tm_gmtoff = 0, tm_zone = ''''\<rparr>"

text \<open>\<^verbatim>\<open>static_cast<int>\<close> of a \<^verbatim>\<open>time_t\<close> keeps the low 32 bits.\<close>

definition to_int :: "int \<Rightarrow> int" where
  "to_int x = (x + 2 ^ 31) mod 2 ^ 32 - 2 ^ 31"

definition TimeZone_toUtcTime :: "int \<Rightarrow> bool \<Rightarrow> tm res" where
  "TimeZone_toUtcTime secondsSinceEpoch yday =
     (let utc = zero_tm\<lparr>tm_zone := ''GMT''\<rparr>;
          seconds = to_int (secondsSinceEpoch smod kSecondsPerDay);
          days = to_int (secondsSinceEpoch sdiv kSecondsPerDay) in
      bindR (if seconds < 0
             then bindR (sub32 (Inr days) (Inr 1)) (\<lambda>days'. Inr (seconds + kSecondsPerDay, days'))
             else Inr (seconds, days)) (\<lambda>(seconds', days').
      let utc1 = fillHMS seconds' utc in
      bindR (add32 (Inr days') kJulianDayOf1970_01_01) (\<lambda>n.
      let date = Date_ofJulian n in
      bindR (Date_yearMonthDay date) (\<lambda>ymd.
      bindR (sub32 (Inr (ymd_year ymd)) (Inr 1900)) (\<lambda>year.
      bindR (sub32 (Inr (ymd_month ymd)) (Inr 1)) (\<lambda>mon.
      bindR (Date_weekDay date) (\<lambda>wday.
      let utc2 = utc1\<lparr>tm_year := year, tm_mon := mon, tm_mday := ymd_day ymd, tm_wday := wday\<rparr> in
      if yday
      then bindR (Date_new (ymd_year ymd) 1 1) (\<lambda>startOfYear.
           bindR (sub32 (Inr n) (Inr (d_julianDateNumber startOfYear))) (\<lambda>yd. Inr (utc2\<lparr>tm_yday := yd\<rparr>)))
      else Inr utc2)))))))"

definition TimeZone_fromUtcFields :: "int \<Rightarrow> int \<Rightarrow> int \<Rightarrow> int \<Rightarrow> int \<Rightarrow> int \<Rightarrow> int res" where
  "TimeZone_fromUtcFields year month day hour minute seconds =
     bindR (Date_new year month day) (\<lambda>date.
     bindR (add32 (add32 (mul32 (Inr hour) (Inr 3600)) (mul32 (Inr minute) (Inr 60))) (Inr seconds))
       (\<lambda>secondsInDay.
     bindR (sub32 (Inr (d_julianDateNumber date)) kJulianDayOf1970_01_01) (\<lambda>days.
       add64 (mul64 (Inr days) (Inr kSecondsPerDay)) (Inr secondsInDay))))"

definition TimeZone_fromUtcTime :: "tm \<Rightarrow> int res" where
  "TimeZone_fromUtcTime utc =
     bindR (add32 (Inr (tm_year utc)) (Inr 1900)) (\<lambda>y.
     bindR (add32 (Inr (tm_mon utc)) (Inr 1)) (\<lambda>m.
       TimeZone_fromUtcFields y m (tm_mday utc) (tm_hour utc) (tm_min utc) (tm_sec utc)))"

section \<open>The search finds the local time in force\<close>

lemma lower_bound_spec:
  assumes "first + len \<le> length xs"
    and "\<And>i j. first \<le> i \<Longrightarrow> i \<le> j \<Longrightarrow> j < first + len \<Longrightarrow> before (xs ! j) \<Longrightarrow> before (xs ! i)"
  shows "first \<le> lower_bound before xs first len \<and> lower_bound before xs first len \<le> first + len \<and>
     (\<forall>i. first \<le> i \<and> i < lower_bound before xs first len \<longrightarrow> before (xs ! i)) \<and>
     (\<forall>i. lower_bound before xs first len \<le> i \<and> i < first + len \<longrightarrow> \<not> before (xs ! i))"
  using assms
proof (induction before xs first len rule: lower_bound.induct)
  case (1 before xs first len)
  show ?case
  proof (cases "len = 0")
    case True
    then show ?thesis by (auto simp: lower_bound.simps [of before xs first])
  next
    case False
    define half where "half = len div 2"
    define middle where "middle = first + half"
    have half: "half < len" "first \<le> middle" "middle < first + len"
      using False by (auto simp: half_def middle_def)
    show ?thesis
    proof (cases "before (xs ! middle)")
      case True
      let ?r = "lower_bound before xs (middle + 1) (len - half - 1)"
      have step: "lower_bound before xs first len = ?r"
        using False True by (simp add: lower_bound.simps [of before xs first] Let_def half_def middle_def)
      have e: "middle + 1 + (len - half - 1) = first + len"
        using half by (simp add: middle_def)
      have IH: "middle + 1 \<le> ?r \<and> ?r \<le> middle + 1 + (len - half - 1) \<and>
          (\<forall>i. middle + 1 \<le> i \<and> i < ?r \<longrightarrow> before (xs ! i)) \<and>
          (\<forall>i. ?r \<le> i \<and> i < middle + 1 + (len - half - 1) \<longrightarrow> \<not> before (xs ! i))"
      proof (rule "1.IH"(1) [OF False half_def middle_def True])
        show "middle + 1 + (len - half - 1) \<le> length xs"
          using "1.prems"(1) e by simp
        show "before (xs ! i)" if "middle + 1 \<le> i" "i \<le> j" "j < middle + 1 + (len - half - 1)" "before (xs ! j)" for i j
          using "1.prems"(2) [of i j] that half e by simp
      qed
      have "before (xs ! i)" if "first \<le> i" "i \<le> middle" for i
        using "1.prems"(2) [OF that half(3) True] .
      then show ?thesis
        unfolding step using IH half by (auto simp: middle_def) (metis Suc_leI not_less middle_def)+
    next
      case no: False
      let ?r = "lower_bound before xs first half"
      have step: "lower_bound before xs first len = ?r"
        using False no by (simp add: lower_bound.simps [of before xs first] Let_def half_def middle_def)
      have IH: "first \<le> ?r \<and> ?r \<le> first + half \<and> (\<forall>i. first \<le> i \<and> i < ?r \<longrightarrow> before (xs ! i)) \<and>
          (\<forall>i. ?r \<le> i \<and> i < first + half \<longrightarrow> \<not> before (xs ! i))"
        using "1.IH"(2) [OF False half_def middle_def no] "1.prems" half by simp
      have "\<not> before (xs ! i)" if "middle \<le> i" "i < first + len" for i
        using "1.prems"(2) [OF half(2) that] no by blast
      then show ?thesis
        unfolding step using IH half by (auto simp: middle_def) (metis not_less)
    qed
  qed
qed

lemma filter_prefix:
  assumes "k \<le> length xs" "\<And>i. i < k \<Longrightarrow> P (xs ! i)" "\<And>i. k \<le> i \<Longrightarrow> i < length xs \<Longrightarrow> \<not> P (xs ! i)"
  shows "filter P xs = take k xs"
proof -
  have "filter P (take k xs) = take k xs"
    using assms(1, 2) by (intro filter_True) (auto simp: in_set_conv_nth)
  moreover have "filter P (drop k xs) = []"
    using assms(1, 3) by (intro filter_False) (auto simp: in_set_conv_nth)
  moreover have "filter P xs = filter P (take k xs) @ filter P (drop k xs)"
    by (metis append_take_drop_id filter_append)
  ultimately show ?thesis by simp
qed

text \<open>The time a comparison looks at, and the transition in force: the last one not after it.\<close>

definition cmp_key :: "Comp \<Rightarrow> Transition \<Rightarrow> int" where
  "cmp_key c t = (if compareGmt c then tr_gmtime t else tr_localtime t)"

definition in_force :: "Comp \<Rightarrow> Transition list \<Rightarrow> int \<Rightarrow> int" where
  "in_force c trs t =
     (let past = filter (\<lambda>tr. cmp_key c tr \<le> t) trs in if past = [] then 0 else tr_localtimeIdx (last past))"

lemma Comp_key:
  "Comp_less c a b \<longleftrightarrow> cmp_key c a < cmp_key c b" "Comp_equal c a b \<longleftrightarrow> cmp_key c a = cmp_key c b"
  by (simp_all add: Comp_less_def Comp_equal_def cmp_key_def)

lemma findLocaltime_in_force:
  assumes "sorted_wrt (\<lambda>a b. cmp_key c a < cmp_key c b) (td_transitions data)"
  shows "findLocaltime dbg data sentry c =
     at_localtime data (in_force c (td_transitions data) (cmp_key c sentry))"
proof -
  let ?trs = "td_transitions data" and ?t = "cmp_key c sentry" and ?k = "cmp_key c"
  have mono: "i < j \<Longrightarrow> j < length ?trs \<Longrightarrow> ?k (?trs ! i) < ?k (?trs ! j)" for i j
    using assms sorted_wrt_nth_less by blast
  consider (none) "?trs = [] \<or> ?t < ?k (hd ?trs)" | (some) "?trs \<noteq> []" "?k (hd ?trs) \<le> ?t" by fastforce
  then show ?thesis
  proof cases
    case none
    have "filter (\<lambda>tr. ?k tr \<le> ?t) ?trs = take 0 ?trs"
    proof (rule filter_prefix)
      fix i assume i: "i < length ?trs"
      then have "?k (hd ?trs) \<le> ?k (?trs ! i)"
        using mono [of 0 i] by (cases "i = 0"; cases ?trs) (auto intro: less_imp_le)
      then show "\<not> ?k (?trs ! i) \<le> ?t" using none i by auto
    qed simp_all
    then show ?thesis
      using none by (simp add: findLocaltime_def Comp_key in_force_def)
  next
    case some
    define r where "r = lower_bound (\<lambda>t. Comp_less c t sentry) ?trs 0 (length ?trs)"
    have lb: "r \<le> length ?trs" "\<And>i. i < r \<Longrightarrow> ?k (?trs ! i) < ?t"
      "\<And>i. r \<le> i \<Longrightarrow> i < length ?trs \<Longrightarrow> \<not> ?k (?trs ! i) < ?t"
    proof -
      have "Comp_less c (?trs ! i) sentry" if "i \<le> j" "j < 0 + length ?trs" "Comp_less c (?trs ! j) sentry" for i j
        using that mono [of i j] by (cases "i = j") (auto simp: Comp_key)
      from lower_bound_spec [of 0 "length ?trs" ?trs "\<lambda>t. Comp_less c t sentry", OF _ this]
      show "r \<le> length ?trs" "\<And>i. i < r \<Longrightarrow> ?k (?trs ! i) < ?t"
        "\<And>i. r \<le> i \<Longrightarrow> i < length ?trs \<Longrightarrow> \<not> ?k (?trs ! i) < ?t"
        by (auto simp: r_def Comp_key)
    qed
    have code: "findLocaltime dbg data sentry c =
        (if r \<noteq> length ?trs
         then if ?t \<noteq> ?k (?trs ! r)
              then cassert dbg (r \<noteq> 0) (at_localtime data (tr_localtimeIdx (?trs ! (r - 1))))
              else at_localtime data (tr_localtimeIdx (?trs ! r))
         else at_localtime data (tr_localtimeIdx (last ?trs)))"
      using some by (simp add: findLocaltime_def Comp_key r_def Let_def)
    show ?thesis
    proof (cases "r < length ?trs \<and> ?t = ?k (?trs ! r)")
      case True
      have "filter (\<lambda>tr. ?k tr \<le> ?t) ?trs = take (Suc r) ?trs"
      proof (rule filter_prefix)
        fix i assume "Suc r \<le> i" "i < length ?trs"
        then show "\<not> ?k (?trs ! i) \<le> ?t" using mono [of r i] True by auto
      qed (use True lb(2) in \<open>auto simp: less_Suc_eq less_imp_le\<close>)
      moreover have "last (take (Suc r) ?trs) = ?trs ! r"
        using True by (simp add: take_Suc_conv_app_nth)
      ultimately show ?thesis
        using True some by (simp add: code in_force_def)
    next
      case False
      have f: "filter (\<lambda>tr. ?k tr \<le> ?t) ?trs = take r ?trs"
      proof (rule filter_prefix)
        fix i assume i: "r \<le> i" "i < length ?trs"
        have "?t < ?k (?trs ! r)" using lb(3) [of r] i False by auto
        then show "\<not> ?k (?trs ! i) \<le> ?t" using mono [of r i] i by (cases "i = r") auto
      qed (use lb in \<open>auto simp: less_imp_le\<close>)
      have "r \<noteq> 0"
        using f some by (cases ?trs; cases r) auto
      then have "last (take r ?trs) = ?trs ! (r - 1)" "take r ?trs \<noteq> []"
        using lb(1) some(1) by (simp_all add: last_conv_nth min_def)
      then show ?thesis
        using False f \<open>r \<noteq> 0\<close> lb(1) some(1)
        by (auto simp: code in_force_def last_conv_nth)
    qed
  qed
qed

section \<open>UTC agrees with gmtime\<close>

lemma kSecondsPerDay_simp [simp]: "kSecondsPerDay = 86400"
  by (simp add: kSecondsPerDay_def)

lemma kJulianDayOf1970_simp: "kJulianDayOf1970_01_01 = Inr 2440588"
  unfolding kJulianDayOf1970_01_01_def
  by (simp add: getJulianDayNumber_eq valid_date_def month_length_def date_range_def jdn_def)

lemma to_int_exact: "in_int 32 x \<Longrightarrow> to_int x = x"
  by (simp add: to_int_def)

text \<open>\<^verbatim>\<open>%\<close> and \<^verbatim>\<open>/\<close> with the correction for negative remainders are \<open>mod\<close> and \<open>div\<close>.\<close>

lemma floor_of_trunc:
  assumes "0 < (b :: int)"
  shows "(if a smod b < 0 then (a smod b + b, a sdiv b - 1) else (a smod b, a sdiv b)) = (a mod b, a div b)"
proof (cases "0 \<le> a")
  case True
  then have "a sdiv b = a div b" "a smod b = a mod b" "0 \<le> a mod b"
    using assms by (simp_all add: sdiv_nonneg smod_nonneg)
  then show ?thesis by simp
next
  case False
  have q: "a sdiv b = - (- a div b)" and r: "a smod b = - (- a mod b)"
    using False assms by (simp_all add: signed_divide_int_def signed_modulo_int_def)
  have e: "- a = b * (- a div b) + - a mod b" "0 \<le> - a mod b" "- a mod b < b"
    using assms by simp_all
  show ?thesis
  proof (cases "- a mod b = 0")
    case True
    have "a div b = - (- a div b)" "a mod b = 0"
      by (rule div_unique_int [where r = 0], use e True assms in linarith, simp_all add: assms)
        (use True in \<open>simp add: mod_eq_0_iff_dvd\<close>)
    then show ?thesis using True by (simp add: q r)
  next
    case False
    define Q R where "Q = - a div b" and "R = - a mod b"
    have a: "a = b * (- Q - 1) + (b - R)" "0 < R" "R < b"
      using e False unfolding Q_def [symmetric] R_def [symmetric] by (auto simp: algebra_simps)
    have "a div b = - Q - 1"
      by (rule div_unique_int [OF a(1)]) (use a in simp_all)
    moreover have "a mod b = b - R"
      by (rule mod_unique_int [OF a(1)]) (use a in simp_all)
    ultimately show ?thesis using a unfolding q r Q_def [symmetric] R_def [symmetric] by simp
  qed
qed

definition utc_range :: "int \<Rightarrow> bool" where
  "utc_range t \<longleftrightarrow> 0 \<le> t div 86400 + epoch_jdn \<and> t div 86400 + epoch_jdn \<le> last_day"

lemma fillHMS_eq:
  assumes "0 \<le> s" "s < 86400"
  shows "fillHMS s u = u\<lparr>tm_sec := s mod 60, tm_min := s div 60 mod 60, tm_hour := s div 3600\<rparr>"
  using assms zdiv_zmult2_eq [of 60 s 60] by (simp add: fillHMS_def Let_def)

lemma toUtcTime_eq:
  assumes "utc_range t"
  shows "TimeZone_toUtcTime t True = Inr (gmtime_r t)"
    "TimeZone_toUtcTime t False = Inr ((gmtime_r t)\<lparr>tm_yday := 0\<rparr>)"
proof -
  let ?s = "t mod 86400" and ?d = "t div 86400"
  let ?n = "?d + epoch_jdn"
  obtain y m d where c: "civil ?n = (y, m, d)" by (cases "civil ?n")
  have n: "0 \<le> ?n" "?n \<le> last_day" using assms by (simp_all add: utc_range_def)
  then have first: "first_day \<le> ?n" by (simp add: first_day_def)
  have v: "valid_date (y, m, d)" and j: "jdn (y, m, d) = ?n" and y: "date_range y"
    using civil_valid [OF first] civil_range [OF first n(2)] by (simp_all add: c)
  have md: "1 \<le> m" "m \<le> 12" "1 \<le> d" "d \<le> 31" "- 4799 \<le> y" "y \<le> 1465000"
    using v y month_length_bounds [of y m] by (auto simp: valid_date_def date_range_def)
  have s: "0 \<le> ?s" "?s < 86400" by simp_all
  have dr: "- 2440588 \<le> ?d" "?d \<le> 534360412" using n by (simp_all add: epoch_jdn_def last_day_def)
  have start: "Date_new y 1 1 = Inr \<lparr>d_julianDateNumber = jdn (y, 1, 1)\<rparr>"
    using y by (simp add: Date_new_eq valid_date_def month_length_def)
  have jb: "- 32044 \<le> jdn (y, 1, 1)" "jdn (y, 1, 1) \<le> 536838867"
    using jdn_range [of y 1 1] y by (simp_all add: valid_date_def month_length_def)
  define q r where "q = t sdiv 86400" and "r = t smod 86400"
  have qr: "(if r < 0 then (r + 86400, q - 1) else (r, q)) = (?s, ?d)"
    unfolding q_def r_def by (rule floor_of_trunc) simp
  then have small: "- 86400 \<le> r" "r < 86400" "?d \<le> q" "q \<le> ?d + 1"
    using s by (auto split: if_splits)
  have tr: "to_int r = r" "to_int q = q"
    using small dr by (auto intro!: to_int_exact)
  have adjust: "(if r < 0 then bindR (sub32 (Inr q) (Inr 1)) (\<lambda>days'. Inr (r + 86400, days')) else Inr (r, q))
      = Inr (?s, ?d)"
    using qr small dr by (auto split: if_splits)
  have add: "add32 (Inr ?d) (Inr 2440588) = Inr ?n"
    using dr by (simp add: epoch_jdn_def)
  have ymd: "Date_yearMonthDay (Date_ofJulian ?n) = Inr (ymd_of (y, m, d))"
    using getYearMonthDay_jdn [OF v] y j by (simp add: Date_yearMonthDay_def Date_ofJulian_def)
  have "(?n + 1) mod 7 = (?d + 4 + 7 * 348655) mod 7" by (simp add: epoch_jdn_def)
  also have "\<dots> = (?d + 4) mod 7" by (rule mod_mult_self2)
  finally have week: "Date_weekDay (Date_ofJulian ?n) = Inr ((?d + 4) mod 7)"
    using n by (simp add: Date_weekDay_def Date_ofJulian_def kDaysPerWeek_def c_mod_nonneg last_day_def)
  have g: "gmtime_r t = \<lparr>tm_sec = ?s mod 60, tm_min = ?s div 60 mod 60, tm_hour = ?s div 3600,
      tm_mday = d, tm_mon = m - 1, tm_year = y - 1900, tm_wday = (?d + 4) mod 7,
      tm_yday = ?n - jdn (y, 1, 1), tm_isdst = 0, tm_gmtoff = 0, tm_zone = ''GMT''\<rparr>"
    by (simp add: gmtime_r_def Let_def secs_per_day_def c)
  show "TimeZone_toUtcTime t True = Inr (gmtime_r t)"
    "TimeZone_toUtcTime t False = Inr ((gmtime_r t)\<lparr>tm_yday := 0\<rparr>)"
    unfolding TimeZone_toUtcTime_def Let_def kSecondsPerDay_simp q_def [symmetric] r_def [symmetric] tr
      adjust bindR_simps prod.case kJulianDayOf1970_simp add ymd week g
    using md jb n start fillHMS_eq [OF s]
    by (simp_all add: ymd_of_def zero_tm_def Date_ofJulian_def last_day_def)
qed

text \<open>Seconds from the fields of a valid date and time of day.\<close>

lemma fromUtcFields_eq:
  assumes "valid_date (y, m, d)" "date_range y" "0 \<le> h" "h < 24" "0 \<le> mi" "mi < 60" "0 \<le> s" "s < 60"
  shows "TimeZone_fromUtcFields y m d h mi s =
     Inr ((jdn (y, m, d) - epoch_jdn) * 86400 + (h * 3600 + mi * 60 + s))"
proof -
  have "- 32044 \<le> jdn (y, m, d)" "jdn (y, m, d) \<le> 536838867"
    using jdn_range [OF assms(1, 2)] by simp_all
  then show ?thesis
    using assms by (simp add: TimeZone_fromUtcFields_def Date_new_eq kJulianDayOf1970_simp epoch_jdn_def)
qed

lemma fromUtcTime_gmtime:
  assumes "utc_range t"
  shows "TimeZone_fromUtcTime ((gmtime_r t)\<lparr>tm_yday := k\<rparr>) = Inr t"
proof -
  let ?s = "t mod 86400" and ?n = "t div 86400 + epoch_jdn"
  obtain y m d where c: "civil ?n = (y, m, d)" by (cases "civil ?n")
  have n: "first_day \<le> ?n" "?n \<le> last_day"
    using assms by (simp_all add: utc_range_def first_day_def)
  have v: "valid_date (y, m, d)" and j: "jdn (y, m, d) = ?n" and y: "date_range y"
    using civil_valid [OF n(1)] civil_range [OF n] by (simp_all add: c)
  have md: "1 \<le> m" "m \<le> 12" "- 4799 \<le> y" "y \<le> 1465000"
    using v y by (auto simp: valid_date_def date_range_def)
  have fields: "tm_year (gmtime_r t) = y - 1900" "tm_mon (gmtime_r t) = m - 1" "tm_mday (gmtime_r t) = d"
    "tm_hour (gmtime_r t) = ?s div 3600" "tm_min (gmtime_r t) = ?s div 60 mod 60" "tm_sec (gmtime_r t) = ?s mod 60"
    by (simp_all add: gmtime_r_def Let_def secs_per_day_def c)
  note time = gmtime_r_time [of t, unfolded fields]
  have "(?n - epoch_jdn) * 86400 + (?s div 3600 * 3600 + ?s div 60 mod 60 * 60 + ?s mod 60) = t"
    unfolding hms_split by simp
  then have "TimeZone_fromUtcFields y m d (?s div 3600) (?s div 60 mod 60) (?s mod 60) = Inr t"
    unfolding fromUtcFields_eq [OF v y time(5, 6, 3, 4, 1, 2)] j by (simp only:)
  moreover have "TimeZone_fromUtcTime ((gmtime_r t)\<lparr>tm_yday := k\<rparr>) =
      TimeZone_fromUtcFields y m d (?s div 3600) (?s div 60 mod 60) (?s mod 60)"
    unfolding TimeZone_fromUtcTime_def using md by (simp add: fields)
  ultimately show ?thesis by (simp only:)
qed

section \<open>Zone files\<close>

text \<open>
  A zone file as tzfile(5) describes it: the magic, a version byte, fifteen reserved bytes, six
  counts, the transition times, the index of the local time type of each, the types, and the
  characters of the abbreviations.
\<close>

definition tz_int32 :: "endian \<Rightarrow> int \<Rightarrow> byte list" where
  "tz_int32 h i = net_enc32 h (word_of_int i)"

definition tz_localtime :: "endian \<Rightarrow> Localtime \<Rightarrow> byte list" where
  "tz_localtime h l =
     tz_int32 h (lt_gmtOffset l) @ [if lt_isDst l then 1 else 0, word_of_int (lt_arrbIdx l)]"

definition tz_file ::
  "endian \<Rightarrow> byte \<Rightarrow> byte list \<Rightarrow> int \<times> int \<times> int \<Rightarrow> (int \<times> int) list \<Rightarrow> Localtime list \<Rightarrow> byte list \<Rightarrow> byte list" where
  "tz_file h version reserved counts trs ls abbr =
     [0x54, 0x5A, 0x69, 0x66] @ [version] @ reserved @
     tz_int32 h (fst counts) @ tz_int32 h (fst (snd counts)) @ tz_int32 h (snd (snd counts)) @
     tz_int32 h (int (length trs)) @ tz_int32 h (int (length ls)) @ tz_int32 h (int (length abbr)) @
     concat (map (\<lambda>(t, i). tz_int32 h t) trs) @ map (\<lambda>(t, i). word_of_int i) trs @
     concat (map (tz_localtime h) ls) @ abbr"

definition tz_fits :: "(int \<times> int) list \<Rightarrow> Localtime list \<Rightarrow> byte list \<Rightarrow> bool" where
  "tz_fits trs ls abbr \<longleftrightarrow>
     (\<forall>(t, i) \<in> set trs. in_int 32 t \<and> 0 \<le> i \<and> i < 256) \<and>
     (\<forall>l \<in> set ls. in_int 32 (lt_gmtOffset l) \<and> 0 \<le> lt_arrbIdx l \<and> lt_arrbIdx l < 256) \<and>
     length trs < 2 ^ 31 \<and> length ls < 2 ^ 31 \<and> length abbr < 2 ^ 31"

lemma sint_word_of_int32: "in_int 32 i \<Longrightarrow> sint (word_of_int i :: 32 word) = i"
  by (simp add: signed_of_int signed_take_bit_int_eq_self)

lemma uint_word_of_int8: "0 \<le> i \<Longrightarrow> i < 256 \<Longrightarrow> uint (word_of_int i :: byte) = i"
  by (simp add: uint_word_of_int)

lemma readInt32_enc: "in_int 32 i \<Longrightarrow> File_readInt32 h (tz_int32 h i @ rest) = Inr (i, rest)"
  using net32.length_enc net32.dec_enc
  by (simp add: File_readInt32_def tz_int32_def sint_word_of_int32)

lemma readUInt8_Cons [simp]: "File_readUInt8 (b # rest) = Inr (uint b, rest)"
  by (simp add: File_readUInt8_def)

lemma readBytes_append: "int (length xs) = n \<Longrightarrow> File_readBytes n (xs @ rest) = Inr (xs, rest)"
  by (auto simp: File_readBytes_def)

lemma read_times_int32:
  "(\<forall>(t, i) \<in> set trs. in_int 32 t) \<Longrightarrow>
   read_times (File_readInt32 h) (length trs) (concat (map (\<lambda>(t, i). tz_int32 h t) trs) @ rest) =
     Inr (map fst trs, rest)"
  by (induction trs) (auto simp: readInt32_enc simp del: in_int_32)

lemma read_times_uint8:
  "(\<forall>(t, i) \<in> set trs. 0 \<le> i \<and> i < 256) \<Longrightarrow>
   read_times File_readUInt8 (length trs) (map (\<lambda>(t, i). word_of_int i) trs @ rest) = Inr (map snd trs, rest)"
  by (induction trs) (auto simp: uint_word_of_int8)

lemma read_localtime_enc:
  "in_int 32 (lt_gmtOffset l) \<Longrightarrow> 0 \<le> lt_arrbIdx l \<Longrightarrow> lt_arrbIdx l < 256 \<Longrightarrow>
   read_localtime h (tz_localtime h l @ rest) = Inr (l, rest)"
  by (simp add: read_localtime_def tz_localtime_def readInt32_enc uint_word_of_int8 del: in_int_32)

lemma parse_localtimes_enc:
  "(\<forall>l \<in> set ls. in_int 32 (lt_gmtOffset l) \<and> 0 \<le> lt_arrbIdx l \<and> lt_arrbIdx l < 256) \<Longrightarrow>
   parse_localtimes h (length ls) (concat (map (tz_localtime h) ls) @ rest) d =
     (d\<lparr>td_localtimes := td_localtimes d @ ls\<rparr>, Inr rest)"
  by (induction ls arbitrary: d) (simp_all add: read_localtime_enc del: in_int_32)

definition transitions_of :: "Localtime list \<Rightarrow> (int \<times> int) list \<Rightarrow> Transition list" where
  "transitions_of ls trs =
     map (\<lambda>(t, i). \<lparr>tr_gmtime = t, tr_localtime = t + lt_gmtOffset (ls ! nat i), tr_localtimeIdx = i\<rparr>) trs"

lemma parse_transitions_ok:
  "(\<forall>(t, i) \<in> set trs. nat i < length (td_localtimes d)) \<Longrightarrow>
   parse_transitions trs d =
     (d\<lparr>td_transitions := td_transitions d @ transitions_of (td_localtimes d) trs\<rparr>, Inr ())"
  by (induction trs d rule: parse_transitions.induct) (auto simp: transitions_of_def)

lemma parse_transitions_bad:
  "(t, i) \<in> set trs \<Longrightarrow> length (td_localtimes d) \<le> nat i \<Longrightarrow>
   snd (parse_transitions trs d) = Inl OutOfBounds"
  by (induction trs d rule: parse_transitions.induct) auto

lemma parse_header_enc:
  assumes "length reserved = 15" "in_int 32 a" "in_int 32 b" "in_int 32 c"
    "length trs < 2 ^ 31" "length ls < 2 ^ 31" "length abbr < 2 ^ 31"
  shows "parse_header h (tz_file h version reserved (a, b, c) trs ls abbr) =
     Inr (\<lparr>h_timecnt = int (length trs), h_typecnt = int (length ls), h_charcnt = int (length abbr)\<rparr>,
       concat (map (\<lambda>(t, i). tz_int32 h t) trs) @ map (\<lambda>(t, i). word_of_int i) trs @
       concat (map (tz_localtime h) ls) @ abbr)"
proof -
  have magic: "string_of_bytes [0x54, 0x5A, 0x69, 0x66] = ''TZif''"
    by code_simp
  have i: "in_int 32 (int (length trs))" "in_int 32 (int (length ls))" "in_int 32 (int (length abbr))"
    using assms by simp_all
  show ?thesis
    unfolding parse_header_def tz_file_def fst_conv snd_conv
    by (subst readBytes_append, simp, simp only: bindR_simps prod.case magic simp_thms if_False,
        subst readBytes_append, simp, simp only: bindR_simps prod.case,
        subst readBytes_append, simp add: assms(1))
      (simp add: readInt32_enc assms i del: in_int_32)
qed

lemma parse_body_enc:
  assumes "length reserved = 15" "in_int 32 a" "in_int 32 b" "in_int 32 c" "tz_fits trs ls abbr"
  shows "parse_body h (tz_file h version reserved (a, b, c) trs ls abbr) empty_data =
     (if \<forall>(t, i) \<in> set trs. nat i < length ls
      then (\<lparr>td_transitions = transitions_of ls trs, td_localtimes = ls, td_names = [],
             td_abbreviation = string_of_bytes abbr\<rparr>, Inr ())
      else (fst (parse_transitions trs (empty_data\<lparr>td_localtimes := ls\<rparr>)), Inl OutOfBounds))"
proof -
  have f: "\<forall>(t, i) \<in> set trs. in_int 32 t" "\<forall>(t, i) \<in> set trs. 0 \<le> i \<and> i < 256"
    "\<forall>l \<in> set ls. in_int 32 (lt_gmtOffset l) \<and> 0 \<le> lt_arrbIdx l \<and> lt_arrbIdx l < 256"
    "length trs < 2 ^ 31" "length ls < 2 ^ 31" "length abbr < 2 ^ 31"
    using assms(5) by (auto simp: tz_fits_def simp del: in_int_32)
  have z: "zip (map fst trs) (map snd trs) = trs" by (rule zip_map_fst_snd)
  have l: "parse_localtimes h (length ls) (concat (map (tz_localtime h) ls) @ abbr) empty_data =
      (empty_data\<lparr>td_localtimes := ls\<rparr>, Inr abbr)"
    using parse_localtimes_enc [OF f(3), of h abbr empty_data] by (simp add: empty_data_def)
  have rest: "File_readBytes (int (length abbr)) abbr = Inr (abbr, [])"
    using readBytes_append [of abbr "int (length abbr)" "[]"] by simp
  show ?thesis
  proof (cases "\<forall>(t, i) \<in> set trs. nat i < length ls")
    case True
    then have "parse_transitions trs (empty_data\<lparr>td_localtimes := ls\<rparr>) =
        (\<lparr>td_transitions = transitions_of ls trs, td_localtimes = ls, td_names = [], td_abbreviation = ''''\<rparr>, Inr ())"
      by (subst parse_transitions_ok) (auto simp: empty_data_def)
    then show ?thesis
      using True assms f
      by (simp add: parse_body_def parse_header_enc read_times_int32 read_times_uint8 z l rest del: in_int_32)
  next
    case False
    then obtain t i where ti: "(t, i) \<in> set trs" "length ls \<le> nat i" by auto
    then have "snd (parse_transitions trs (empty_data\<lparr>td_localtimes := ls\<rparr>)) = Inl OutOfBounds"
      by (intro parse_transitions_bad) simp_all
    then obtain d' where "parse_transitions trs (empty_data\<lparr>td_localtimes := ls\<rparr>) = (d', Inl OutOfBounds)"
      by (cases "parse_transitions trs (empty_data\<lparr>td_localtimes := ls\<rparr>)") auto
    then show ?thesis
      using False assms f
      by (simp add: parse_body_def parse_header_enc read_times_int32 read_times_uint8 z l del: in_int_32)
  qed
qed

section \<open>Properties\<close>

text \<open>
  C27. \<^verbatim>\<open>toUtcTime\<close> is \<^verbatim>\<open>gmtime\<close> of the C library (the library's own calendar, every field), from
  4714 BC to the last year of the 32 bit day numbers, before and after the epoch, and
  \<^verbatim>\<open>fromUtcTime\<close> takes every result back to the seconds it came from.
\<close>

theorem TimeZone_utc_roundtrip:
  assumes "utc_range t"
  shows "TimeZone_toUtcTime t True = Inr (gmtime_r t) \<and>
     bindR (TimeZone_toUtcTime t yday) TimeZone_fromUtcTime = Inr t"
proof -
  have "TimeZone_fromUtcTime (gmtime_r t) = Inr t"
    using fromUtcTime_gmtime [OF assms, of "tm_yday (gmtime_r t)"] by simp
  then show ?thesis
    using toUtcTime_eq [OF assms] fromUtcTime_gmtime [OF assms, of 0] by (cases yday) simp_all
qed

theorem TimeZone_utc_roundtrip_witness:
  "bindR (TimeZone_toUtcTime (- 1) True) TimeZone_fromUtcTime = Inr (- 1)"
  by (rule TimeZone_utc_roundtrip [THEN conjunct2]) (simp add: utc_range_def epoch_jdn_def last_day_def)

text \<open>
  The fields of a valid date and time of day convert to seconds without overflow and come back:
  \<^verbatim>\<open>toUtcTime(fromUtcTime(...))\<close> has the year, month, day, hour, minute and second given.
\<close>

theorem TimeZone_fields_roundtrip:
  assumes "valid_date (y, m, d)" "- 4712 \<le> y" "y \<le> 1464900"
    and "0 \<le> h" "h < 24" "0 \<le> mi" "mi < 60" "0 \<le> s" "s < 60"
  shows "returns (bindR (TimeZone_fromUtcFields y m d h mi s) (\<lambda>t. TimeZone_toUtcTime t yday))
     (\<lambda>u. tm_year u = y - 1900 \<and> tm_mon u = m - 1 \<and> tm_mday u = d \<and>
          tm_hour u = h \<and> tm_min u = mi \<and> tm_sec u = s)"
proof -
  have range: "date_range y" using assms by (simp add: date_range_def)
  let ?sod = "h * 3600 + mi * 60 + s"
  let ?t = "(jdn (y, m, d) - epoch_jdn) * 86400 + ?sod"
  have sod: "0 \<le> ?sod" "?sod < 86400" using assms by linarith+
  have "?t = 86400 * (jdn (y, m, d) - epoch_jdn) + ?sod" by simp
  note t = div_unique_int [OF this sod] mod_unique_int [OF this sod]
  have "0 \<le> jdn (y, m, d)"
  proof -
    have "\<not> date_less (y, m, d) (- 4712, 1, 1)" using assms by (auto simp: date_less_def valid_date_def)
    then have "\<not> jdn (y, m, d) < jdn (- 4712, 1, 1)"
      using jdn_less_iff [OF assms(1), of "(- 4712, 1, 1)"] by (simp add: valid_date_def month_length_def)
    then show ?thesis by (simp add: jdn_def)
  qed
  moreover have "jdn (y, m, d) \<le> last_day"
  proof -
    have "date_less (y, m, d) (1464901, 1, 1)" using assms by (auto simp: date_less_def)
    then have "jdn (y, m, d) < jdn (1464901, 1, 1)"
      using jdn_less_iff [OF assms(1), of "(1464901, 1, 1)"] by (simp add: valid_date_def month_length_def)
    then show ?thesis by (simp add: jdn_def last_day_def)
  qed
  ultimately have u: "utc_range ?t" unfolding utc_range_def t by simp
  have hms: "?sod div 3600 = h" "?sod div 60 mod 60 = mi" "?sod mod 60 = s"
  proof -
    show "?sod div 3600 = h"
      by (rule div_unique_int [where r = "mi * 60 + s"]) (use assms in simp_all)
    have "?sod div 60 = h * 60 + mi"
      by (rule div_unique_int [where r = s]) (use assms in simp_all)
    then show "?sod div 60 mod 60 = mi"
      by (simp only:) (rule mod_unique_int [where q = h], use assms in simp_all)
    show "?sod mod 60 = s"
      by (rule mod_unique_int [where q = "h * 60 + mi"]) (use assms in simp_all)
  qed
  have fields: "tm_year (gmtime_r ?t) = y - 1900" "tm_mon (gmtime_r ?t) = m - 1"
      "tm_mday (gmtime_r ?t) = d" "tm_hour (gmtime_r ?t) = h" "tm_min (gmtime_r ?t) = mi" "tm_sec (gmtime_r ?t) = s"
    unfolding gmtime_r_def Let_def secs_per_day_def t hms using civil_jdn [OF assms(1)] by simp_all
  have "TimeZone_fromUtcFields y m d h mi s = Inr ?t"
    using assms range by (intro fromUtcFields_eq)
  then show ?thesis
    using toUtcTime_eq [OF u] fields by (cases yday) simp_all
qed

theorem TimeZone_fields_roundtrip_witness:
  "returns (bindR (TimeZone_fromUtcFields 1969 7 20 20 17 40) (\<lambda>t. TimeZone_toUtcTime t False))
     (\<lambda>u. tm_year u = 69 \<and> tm_mon u = 6 \<and> tm_mday u = 20 \<and>
          tm_hour u = 20 \<and> tm_min u = 17 \<and> tm_sec u = 40)"
  using TimeZone_fields_roundtrip [of 1969 7 20 20 17 40 False]
  by (simp add: valid_date_def month_length_def)

text \<open>
  C31. The binary search of \<^verbatim>\<open>findLocaltime\<close> finds the local time in force: with transitions in
  strictly increasing order (of GMT or of local time, as the comparison asks) it gives the local
  time type of the last transition not after the time looked for, and the first type before the
  first transition; the assert in it holds.
\<close>

theorem TimeZone_finds_local_time:
  assumes "sorted_wrt (\<lambda>a b. cmp_key c a < cmp_key c b) (td_transitions data)"
  shows "findLocaltime dbg data sentry c =
     (let past = filter (\<lambda>tr. cmp_key c tr \<le> cmp_key c sentry) (td_transitions data)
      in at_localtime data (if past = [] then 0 else tr_localtimeIdx (last past)))"
  using findLocaltime_in_force [OF assms] by (simp add: in_force_def Let_def)

theorem TimeZone_finds_local_time_witness:
  "findLocaltime True
     \<lparr>td_transitions = transitions_of [\<lparr>lt_gmtOffset = 0, lt_isDst = False, lt_arrbIdx = 0\<rparr>,
        \<lparr>lt_gmtOffset = 3600, lt_isDst = True, lt_arrbIdx = 4\<rparr>] [(100, 1), (200, 0)],
      td_localtimes = [\<lparr>lt_gmtOffset = 0, lt_isDst = False, lt_arrbIdx = 0\<rparr>,
        \<lparr>lt_gmtOffset = 3600, lt_isDst = True, lt_arrbIdx = 4\<rparr>], td_names = [], td_abbreviation = ''GMT''\<rparr>
     \<lparr>tr_gmtime = 150, tr_localtime = 0, tr_localtimeIdx = 0\<rparr> \<lparr>compareGmt = True\<rparr> =
     Inr \<lparr>lt_gmtOffset = 3600, lt_isDst = True, lt_arrbIdx = 4\<rparr>"
  by (subst TimeZone_finds_local_time) (simp_all add: cmp_key_def transitions_of_def at_localtime_def)

text \<open>
  C28. Reading back a zone file: a file in the format of tzfile(5) whose type indices are all in
  range gives a zone with exactly its transitions (each local time is the GMT time plus the offset of
  its type), types and abbreviations, on hosts of either byte order.
\<close>

theorem TimeZone_file_roundtrip:
  assumes "length reserved = 15" "in_int 32 a" "in_int 32 b" "in_int 32 c" "tz_fits trs ls abbr"
    and "\<forall>(t, i) \<in> set trs. nat i < length ls"
  shows "TimeZone_ofFile h (Some (tz_file h version reserved (a, b, c) trs ls abbr)) =
     Inr \<lparr>tz_data = Some \<lparr>td_transitions = transitions_of ls trs, td_localtimes = ls, td_names = [],
       td_abbreviation = string_of_bytes abbr\<rparr>\<rparr>"
  using parse_body_enc [OF assms(1-5)] assms(6)
  by (simp add: TimeZone_ofFile_def parseTimeZoneFile_def)

theorem TimeZone_file_roundtrip_witness:
  "TimeZone_ofFile Little (Some (tz_file Little 0 (replicate 15 0) (0, 0, 0) [(100, 0)]
      [\<lparr>lt_gmtOffset = 28800, lt_isDst = False, lt_arrbIdx = 0\<rparr>] [0x43, 0x53, 0x54, 0])) =
     Inr \<lparr>tz_data = Some \<lparr>td_transitions = [\<lparr>tr_gmtime = 100, tr_localtime = 28900, tr_localtimeIdx = 0\<rparr>],
       td_localtimes = [\<lparr>lt_gmtOffset = 28800, lt_isDst = False, lt_arrbIdx = 0\<rparr>], td_names = [],
       td_abbreviation = string_of_bytes [0x43, 0x53, 0x54, 0]\<rparr>\<rparr>"
  by (subst TimeZone_file_roundtrip) (simp_all add: tz_fits_def transitions_of_def)

text \<open>
  A file that is not a zone file still gives a zone that reports itself valid, and every
  conversion to local time with it reads outside the empty vector of types, in either build.
\<close>

theorem TimeZone_bad_file_is_valid:
  assumes "length bytes < 4 \<or> string_of_bytes (take 4 bytes) \<noteq> ''TZif''"
  shows "returns (TimeZone_ofFile h (Some bytes)) (\<lambda>tz.
     TimeZone_valid tz \<and> TimeZone_toLocalTime dbg tz t = Inl OutOfBounds)"
proof -
  have "\<exists>s. parse_header h bytes = Inl (LogicError s)"
  proof (cases "length bytes < 4")
    case True
    then have "File_readBytes 4 bytes = Inl (LogicError ''no enough data'')"
      by (simp add: File_readBytes_def)
    then show ?thesis by (simp add: parse_header_def)
  next
    case False
    then have "File_readBytes 4 bytes = Inr (take 4 bytes, drop 4 bytes)"
      by (simp add: File_readBytes_def)
    moreover have "string_of_bytes (take 4 bytes) \<noteq> ''TZif''"
      using assms False by blast
    ultimately have "parse_header h bytes = Inl (LogicError ''bad head'')"
      unfolding parse_header_def by (simp only: bindR_simps prod.case if_True simp_thms)
    then show ?thesis by blast
  qed
  then obtain s where "parse_header h bytes = Inl (LogicError s)" ..
  then have "parse_body h bytes empty_data = (empty_data, Inl (LogicError s))"
    unfolding parse_body_def by (simp only: sum.case)
  then have "TimeZone_ofFile h (Some bytes) = Inr \<lparr>tz_data = Some empty_data\<rparr>"
    by (simp add: TimeZone_ofFile_def parseTimeZoneFile_def)
  then show ?thesis
    by (simp add: TimeZone_valid_def TimeZone_toLocalTime_def findLocaltime_def at_localtime_def empty_data_def)
qed

theorem TimeZone_bad_file_is_valid_witness:
  "returns (TimeZone_ofFile Little (Some [0x23, 0x21])) (\<lambda>tz.
     TimeZone_valid tz \<and> TimeZone_toLocalTime False tz 0 = Inl OutOfBounds)"
  by (rule TimeZone_bad_file_is_valid) simp

text \<open>
  A zone file whose transition names a local time type that the file does not have is not
  rejected: reading it accesses the vector of types out of bounds.
\<close>

theorem TimeZone_file_index_unchecked:
  assumes "length reserved = 15" "in_int 32 a" "in_int 32 b" "in_int 32 c" "tz_fits trs ls abbr"
    and "(t, i) \<in> set trs" "int (length ls) \<le> i"
  shows "TimeZone_ofFile h (Some (tz_file h version reserved (a, b, c) trs ls abbr)) = Inl OutOfBounds"
proof -
  have "\<not> (\<forall>(t, i) \<in> set trs. nat i < length ls)" using assms(6, 7) by force
  then show ?thesis
    using parse_body_enc [OF assms(1-5), of h version]
    by (simp add: TimeZone_ofFile_def parseTimeZoneFile_def)
qed

theorem TimeZone_file_index_unchecked_witness:
  "TimeZone_ofFile Big (Some (tz_file Big 0 (replicate 15 0) (0, 0, 0) [(100, 3)]
      [\<lparr>lt_gmtOffset = 28800, lt_isDst = False, lt_arrbIdx = 0\<rparr>] [0])) = Inl OutOfBounds"
  by (rule TimeZone_file_index_unchecked [where t = 100 and i = 3]) (simp_all add: tz_fits_def)

definition same_clock :: "tm \<Rightarrow> tm \<Rightarrow> bool" where
  "same_clock u v \<longleftrightarrow>
     tm_isdst u = tm_isdst v \<and> tm_year u = tm_year v \<and> tm_mon u = tm_mon v \<and> tm_mday u = tm_mday v \<and>
     tm_hour u = tm_hour v \<and> tm_min u = tm_min v \<and> tm_sec u = tm_sec v"

text \<open>
  In a zone of fixed offset \<^verbatim>\<open>toLocalTime\<close> shifts by the offset, but \<^verbatim>\<open>fromLocalTime\<close> uses
  \<^verbatim>\<open>mktime\<close>, which subtracts the offset \<open>z\<close> of the zone of the process: the seconds come back less
  \<open>z\<close>, hence unchanged only in a process that runs in UTC.
\<close>

theorem TimeZone_fixed_shifted_by_process_zone:
  assumes "in_int 64 (t + off)" "in_int 64 (t + off - z)" "in_int 64 (t - z)"
    and "\<And>u. same_clock u (gmtime_r (t + off)) \<Longrightarrow> mktime u = t + off - z"
  shows "bindR (TimeZone_toLocalTime dbg (TimeZone_fixed off name) t)
     (TimeZone_fromLocalTime mktime dbg (TimeZone_fixed off name)) = Inr (t - z)"
proof -
  let ?zone = "takeWhile (\<lambda>c. c \<noteq> CHR 0x00) name"
  let ?u = "(gmtime_r (t + off))\<lparr>tm_isdst := 0, tm_gmtoff := off, tm_zone := ?zone\<rparr>"
  have to: "TimeZone_toLocalTime dbg (TimeZone_fixed off name) t = Inr ?u"
    using assms(1)
    by (simp add: TimeZone_toLocalTime_def TimeZone_fixed_def findLocaltime_def empty_data_def
        at_localtime_def c_string_at_def)
  have "mktime ?u = t + off - z"
    by (rule assms(4)) (simp add: same_clock_def gmtime_r_def Let_def case_prod_beta)
  then show ?thesis
    unfolding to using assms(2, 3)
    by (simp add: TimeZone_fromLocalTime_def TimeZone_fixed_def findLocaltime_def empty_data_def at_localtime_def)
qed

theorem TimeZone_fixed_shifted_by_process_zone_witness:
  "bindR (TimeZone_toLocalTime True (TimeZone_fixed 28800 ''CST'') 1000000)
     (TimeZone_fromLocalTime
        (\<lambda>u. (jdn (tm_year u + 1900, tm_mon u + 1, tm_mday u) - epoch_jdn) * 86400 +
             tm_hour u * 3600 + tm_min u * 60 + tm_sec u - 3600) True (TimeZone_fixed 28800 ''CST'')) =
     Inr (1000000 - 3600)"
proof (rule TimeZone_fixed_shifted_by_process_zone)
  fix u
  have g: "tm_year (gmtime_r (1000000 + 28800)) = 70" "tm_mon (gmtime_r (1000000 + 28800)) = 0"
    "tm_mday (gmtime_r (1000000 + 28800)) = 12" "tm_hour (gmtime_r (1000000 + 28800)) = 21"
    "tm_min (gmtime_r (1000000 + 28800)) = 46" "tm_sec (gmtime_r (1000000 + 28800)) = 40"
    by code_simp+
  have "jdn (1970, 1, 12) = 2440599" by code_simp
  then show "same_clock u (gmtime_r (1000000 + 28800)) \<Longrightarrow>
      (jdn (tm_year u + 1900, tm_mon u + 1, tm_mday u) - epoch_jdn) * 86400 +
        tm_hour u * 3600 + tm_min u * 60 + tm_sec u - 3600 = 1000000 + 28800 - 3600"
    unfolding same_clock_def g by (simp add: epoch_jdn_def)
qed simp_all

end
