(* ===== verification/LogStream.thy ===== *)
theory LogStream
  imports Printf
begin

text \<open>
  The formatting stream of logstream.h and logstream.cc: a fixed array written through a cursor, the
  conversions of integers and pointers to text, and the insertion operators. The text that
  \<^verbatim>\<open>snprintf\<close> makes of a \<^verbatim>\<open>double\<close> or of a caller's format is a parameter.
\<close>

section \<open>FixedBuffer\<close>

text \<open>The array (its length is the template argument \<open>SIZE\<close>) and the cursor as an offset into it.\<close>

record FixedBuffer =
  fb_buffer :: string
  fb_cur :: nat

definition FixedBuffer_size :: "FixedBuffer \<Rightarrow> nat" where
  "FixedBuffer_size b = length (fb_buffer b)"

definition FixedBuffer_new :: "(nat \<Rightarrow> char) \<Rightarrow> nat \<Rightarrow> FixedBuffer" where
  "FixedBuffer_new junk SIZE = \<lparr>fb_buffer = map junk [0..<SIZE], fb_cur = 0\<rparr>"

definition FixedBuffer_end :: "FixedBuffer \<Rightarrow> nat" where
  "FixedBuffer_end b = fb_cur b + FixedBuffer_size b"

definition FixedBuffer_length :: "FixedBuffer \<Rightarrow> nat" where
  "FixedBuffer_length b = fb_cur b"

definition FixedBuffer_avail :: "FixedBuffer \<Rightarrow> nat" where
  "FixedBuffer_avail b = FixedBuffer_end b - fb_cur b"

definition FixedBuffer_advance :: "FixedBuffer \<Rightarrow> nat \<Rightarrow> FixedBuffer" where
  "FixedBuffer_advance b n = b\<lparr>fb_cur := fb_cur b + n\<rparr>"

definition FixedBuffer_append :: "FixedBuffer \<Rightarrow> string \<Rightarrow> FixedBuffer res" where
  "FixedBuffer_append b data =
     (if length data < FixedBuffer_avail b
      then bindR (copy_to (fb_buffer b) (fb_cur b) data) (\<lambda>v.
             Inr (FixedBuffer_advance (b\<lparr>fb_buffer := v\<rparr>) (length data)))
      else Inr b)"

definition FixedBuffer_rewind :: "FixedBuffer \<Rightarrow> FixedBuffer" where
  "FixedBuffer_rewind b = b\<lparr>fb_cur := 0\<rparr>"

definition FixedBuffer_bzero :: "FixedBuffer \<Rightarrow> FixedBuffer" where
  "FixedBuffer_bzero b = b\<lparr>fb_buffer := replicate (FixedBuffer_size b) CHR 0x00\<rparr>"

definition FixedBuffer_toString :: "FixedBuffer \<Rightarrow> string" where
  "FixedBuffer_toString b = take (FixedBuffer_size b) (fb_buffer b)"

definition FixedBuffer_toStringView :: "FixedBuffer \<Rightarrow> string" where
  "FixedBuffer_toStringView b = take (FixedBuffer_size b) (fb_buffer b)"

section \<open>Numbers\<close>

definition digits :: string where
  "digits = ''9876543210123456789''"

definition zero_digit :: "int \<Rightarrow> char" where
  "zero_digit lsd = digits ! nat (9 + lsd)"

definition digitsHex :: string where
  "digitsHex = ''0123456789ABCDEF''"

text \<open>The loops write the digits last one first.\<close>

function convert_digits :: "int \<Rightarrow> string" where
  "convert_digits i =
     (let lsd = i smod 10; i' = i sdiv 10; c = zero_digit lsd
      in if i' \<noteq> 0 then c # convert_digits i' else [c])"
  by pat_completeness auto

lemma sdiv_10_less:
  assumes "i sdiv 10 \<noteq> 0"
  shows "nat \<bar>i sdiv 10\<bar> < nat \<bar>i :: int\<bar>"
proof -
  have "i \<noteq> 0" using assms by auto
  have "\<bar>i sdiv 10\<bar> = \<bar>i\<bar> div 10"
    using \<open>i \<noteq> 0\<close> by (simp add: signed_divide_int_def abs_mult pos_imp_zdiv_nonneg_iff)
  moreover have "\<bar>i\<bar> div 10 < \<bar>i\<bar>"
    using \<open>i \<noteq> 0\<close> by (intro int_div_less_self) simp_all
  ultimately show ?thesis by simp
qed

termination convert_digits
  by (relation "measure (\<lambda>i. nat \<bar>i\<bar>)") (auto dest: sdiv_10_less)

declare convert_digits.simps [simp del]

definition convert :: "int \<Rightarrow> string" where
  "convert value = rev (convert_digits value @ (if value < 0 then ''-'' else ''''))"

fun convertHex_digits :: "nat \<Rightarrow> string" where
  "convertHex_digits i =
     (let lsd = i mod 16; i' = i div 16; c = digitsHex ! lsd
      in if i' \<noteq> 0 then c # convertHex_digits i' else [c])"

declare convertHex_digits.simps [simp del]

definition convertHex :: "nat \<Rightarrow> string" where
  "convertHex value = rev (convertHex_digits value)"

section \<open>LogStream\<close>

definition kSmallBufferSize :: nat where
  "kSmallBufferSize = 4000"

definition kMaxNumericSize :: nat where
  "kMaxNumericSize = 32"

record LogStream =
  ls_buffer :: FixedBuffer

definition LogStream_new :: "(nat \<Rightarrow> char) \<Rightarrow> LogStream" where
  "LogStream_new junk = \<lparr>ls_buffer = FixedBuffer_new junk kSmallBufferSize\<rparr>"

definition LogStream_append :: "LogStream \<Rightarrow> string \<Rightarrow> LogStream res" where
  "LogStream_append s data = bindR (FixedBuffer_append (ls_buffer s) data) (\<lambda>b. Inr (s\<lparr>ls_buffer := b\<rparr>))"

text \<open>Writing text with its terminator at the cursor, past \<^verbatim>\<open>append\<close>.\<close>

definition write_at_cur :: "FixedBuffer \<Rightarrow> string \<Rightarrow> FixedBuffer res" where
  "write_at_cur b text = bindR (copy_to (fb_buffer b) (fb_cur b) text) (\<lambda>v. Inr (b\<lparr>fb_buffer := v\<rparr>))"

definition LogStream_appendInteger :: "LogStream \<Rightarrow> int \<Rightarrow> LogStream res" where
  "LogStream_appendInteger s val =
     (if kMaxNumericSize \<le> FixedBuffer_avail (ls_buffer s)
      then let text = convert val in
           bindR (write_at_cur (ls_buffer s) (text @ [CHR 0x00])) (\<lambda>b.
             Inr (s\<lparr>ls_buffer := FixedBuffer_advance b (length text)\<rparr>))
      else Inr s)"

definition LogStream_pointer :: "LogStream \<Rightarrow> nat \<Rightarrow> LogStream res" where
  "LogStream_pointer s v =
     (if kMaxNumericSize \<le> FixedBuffer_avail (ls_buffer s)
      then let text = convertHex v in
           bindR (write_at_cur (ls_buffer s) (''0x'' @ text @ [CHR 0x00])) (\<lambda>b.
             Inr (s\<lparr>ls_buffer := FixedBuffer_advance b (length text)\<rparr>))
      else Inr s)"

text \<open>\<open>text\<close> is what \<^verbatim>\<open>%.12g\<close> makes of the number; \<^verbatim>\<open>snprintf\<close> cuts it to the size it is given.\<close>

definition LogStream_double :: "LogStream \<Rightarrow> string \<Rightarrow> LogStream res" where
  "LogStream_double s text =
     (if kMaxNumericSize \<le> FixedBuffer_avail (ls_buffer s)
      then bindR (write_at_cur (ls_buffer s) (snprintf kMaxNumericSize text @ [CHR 0x00])) (\<lambda>b.
             Inr (s\<lparr>ls_buffer := FixedBuffer_advance b (length text)\<rparr>))
      else Inr s)"

definition LogStream_bool :: "LogStream \<Rightarrow> bool \<Rightarrow> LogStream res" where
  "LogStream_bool s x = LogStream_append s (if x then ''true'' else ''false'')"

definition LogStream_char :: "LogStream \<Rightarrow> char \<Rightarrow> LogStream res" where
  "LogStream_char s c = LogStream_append s [c]"

text \<open>A C string is \<open>None\<close> for the null pointer.\<close>

definition LogStream_cstr :: "LogStream \<Rightarrow> string option \<Rightarrow> LogStream res" where
  "LogStream_cstr s str = (case str of Some t \<Rightarrow> LogStream_append s t | None \<Rightarrow> LogStream_append s ''(null)'')"

definition LogStream_buffer :: "LogStream \<Rightarrow> FixedBuffer \<Rightarrow> LogStream res" where
  "LogStream_buffer s v = LogStream_append s (FixedBuffer_toStringView v)"

text \<open>\<open>Fmt\<close> keeps the text that fits its 32 bytes and the length \<^verbatim>\<open>snprintf\<close> reported.\<close>

record Fmt =
  fmt_buf :: string
  fmt_length :: nat

definition Fmt_new :: "bool \<Rightarrow> string \<Rightarrow> Fmt res" where
  "Fmt_new dbg text = cassert dbg (length text < 32) (Inr \<lparr>fmt_buf = snprintf 32 text, fmt_length = length text\<rparr>)"

definition LogStream_fmt :: "LogStream \<Rightarrow> Fmt \<Rightarrow> LogStream res" where
  "LogStream_fmt s fmt =
     (if fmt_length fmt \<le> length (fmt_buf fmt) then LogStream_append s (take (fmt_length fmt) (fmt_buf fmt))
      else Inl OutOfBounds)"

definition LogStream_resetBuffer :: "LogStream \<Rightarrow> LogStream" where
  "LogStream_resetBuffer s = s\<lparr>ls_buffer := FixedBuffer_rewind (ls_buffer s)\<rparr>"

text \<open>One insertion of each kind; integers of every width are inserted as their value.\<close>

datatype insertion =
    InsBool bool
  | InsInt int
  | InsPtr nat
  | InsDouble string
  | InsChar char
  | InsCStr "string option"
  | InsString string
  | InsFmt string

definition LogStream_insert :: "bool \<Rightarrow> LogStream \<Rightarrow> insertion \<Rightarrow> LogStream res" where
  "LogStream_insert dbg s x =
     (case x of
        InsBool b \<Rightarrow> LogStream_bool s b
      | InsInt i \<Rightarrow> LogStream_appendInteger s i
      | InsPtr p \<Rightarrow> LogStream_pointer s p
      | InsDouble t \<Rightarrow> LogStream_double s t
      | InsChar c \<Rightarrow> LogStream_char s c
      | InsCStr t \<Rightarrow> LogStream_cstr s t
      | InsString t \<Rightarrow> LogStream_append s t
      | InsFmt t \<Rightarrow> bindR (Fmt_new dbg t) (LogStream_fmt s))"

fun LogStream_inserts :: "bool \<Rightarrow> LogStream \<Rightarrow> insertion list \<Rightarrow> LogStream res" where
  "LogStream_inserts dbg s [] = Inr s"
| "LogStream_inserts dbg s (x # xs) = bindR (LogStream_insert dbg s x) (\<lambda>s'. LogStream_inserts dbg s' xs)"

section \<open>Numbers are printed in full\<close>

lemma zero_digit_nonneg: "0 \<le> i \<Longrightarrow> i < 10 \<Longrightarrow> zero_digit i = digit_char (nat i)"
  and zero_digit_neg: "- 10 < i \<Longrightarrow> i \<le> 0 \<Longrightarrow> zero_digit i = digit_char (nat (- i))"
proof -
  assume "0 \<le> i" "i < 10"
  then have "i = 0 \<or> i = 1 \<or> i = 2 \<or> i = 3 \<or> i = 4 \<or> i = 5 \<or> i = 6 \<or> i = 7 \<or> i = 8 \<or> i = 9"
    by presburger
  then show "zero_digit i = digit_char (nat i)"
    by (elim disjE; hypsubst; code_simp)
next
  assume "- 10 < i" "i \<le> 0"
  then have "i = 0 \<or> i = - 1 \<or> i = - 2 \<or> i = - 3 \<or> i = - 4 \<or> i = - 5 \<or> i = - 6 \<or> i = - 7 \<or> i = - 8 \<or> i = - 9"
    by presburger
  then show "zero_digit i = digit_char (nat (- i))"
    by (elim disjE; hypsubst; code_simp)
qed

lemma sdiv_int_10: "int n sdiv 10 = int (n div 10)" "int n smod 10 = int (n mod 10)"
  by (simp_all add: sdiv_nonneg smod_nonneg zdiv_int zmod_int)

lemma convert_digits_nat: "convert_digits (int n) = rev (dec_nat n)"
proof (induction n rule: dec_nat.induct)
  case (1 n)
  have z: "zero_digit (int (n mod 10)) = digit_char (n mod 10)"
    using zero_digit_nonneg [of "int (n mod 10)"] by simp
  show ?case
  proof (cases "n < 10")
    case True
    then have "int n sdiv 10 = 0" "zero_digit (int n smod 10) = digit_char n"
      using z by (simp_all add: sdiv_int_10)
    then show ?thesis
      using True by (simp add: convert_digits.simps [of "int n"] dec_nat.simps [of n] Let_def)
  next
    case False
    then have "int n sdiv 10 \<noteq> 0" by (simp add: sdiv_int_10 div_eq_0_iff)
    then show ?thesis
      using 1 False z
      by (simp add: convert_digits.simps [of "int n"] dec_nat.simps [of n] sdiv_int_10 Let_def)
  qed
qed

lemma convert_digits_neg: "convert_digits (- int n) = rev (dec_nat n)"
proof (induction n rule: dec_nat.induct)
  case (1 n)
  have sd: "(- int n) sdiv 10 = - int (n div 10)" "(- int n) smod 10 = - int (n mod 10)"
    using sdiv_int_10 [of n] by simp_all
  have z: "zero_digit (- int (n mod 10)) = digit_char (n mod 10)"
    using zero_digit_neg [of "- int (n mod 10)"] by simp
  have step: "convert_digits (- int n) =
      (if n div 10 \<noteq> 0 then digit_char (n mod 10) # convert_digits (- int (n div 10)) else [digit_char (n mod 10)])"
    using convert_digits.simps [of "- int n"] unfolding sd Let_def z by simp
  show ?case
  proof (cases "n < 10")
    case True
    then show ?thesis unfolding step by (simp add: dec_nat.simps [of n])
  next
    case False
    then show ?thesis unfolding step using 1 by (simp add: dec_nat.simps [of n] div_eq_0_iff)
  qed
qed

lemma convert_eq: "convert v = fmt_d 0 v"
proof (cases "v < 0")
  case True
  then have "v = - int (nat (- v))" by simp
  then have "convert_digits v = rev (dec_nat (nat (- v)))" using convert_digits_neg by metis
  then show ?thesis using True by (simp add: convert_def fmt_d_def pad_left_def)
next
  case False
  then have "v = int (nat v)" by simp
  then have "convert_digits v = rev (dec_nat (nat v))" using convert_digits_nat by metis
  then show ?thesis using False by (simp add: convert_def fmt_d_def pad_left_def)
qed

definition hex_digit_value :: "char \<Rightarrow> nat" where
  "hex_digit_value c =
     (let n = of_char c in if n < 58 then n - 48 else n - 55)"

definition hex_value :: "string \<Rightarrow> nat" where
  "hex_value s = foldl (\<lambda>v c. 16 * v + hex_digit_value c) 0 s"

lemma hex_digit_value_digit:
  assumes "n < 16"
  shows "hex_digit_value (digitsHex ! n) = n"
proof -
  have "n = 0 \<or> n = 1 \<or> n = 2 \<or> n = 3 \<or> n = 4 \<or> n = 5 \<or> n = 6 \<or> n = 7 \<or> n = 8 \<or> n = 9 \<or>
      n = 10 \<or> n = 11 \<or> n = 12 \<or> n = 13 \<or> n = 14 \<or> n = 15"
    using assms by presburger
  then show ?thesis
    by (elim disjE; hypsubst; code_simp)
qed

lemma hex_value_convertHex [simp]: "hex_value (convertHex n) = n"
proof (induction n rule: convertHex_digits.induct)
  case (1 n)
  show ?case
  proof (cases "n < 16")
    case True
    then show ?thesis
      by (simp add: convertHex_def convertHex_digits.simps [of n] Let_def hex_value_def hex_digit_value_digit)
  next
    case False
    then have "convertHex n = convertHex (n div 16) @ [digitsHex ! (n mod 16)]"
      by (simp add: convertHex_def convertHex_digits.simps [of n] Let_def div_eq_0_iff)
    then show ?thesis
      using 1 False by (simp add: hex_value_def hex_digit_value_digit div_eq_0_iff)
  qed
qed

lemma length_convertHex: "n < 16 ^ k \<Longrightarrow> 0 < k \<Longrightarrow> length (convertHex n) \<le> k"
proof (induction k arbitrary: n)
  case (Suc k)
  show ?case
  proof (cases "n < 16")
    case True
    then show ?thesis by (simp add: convertHex_def convertHex_digits.simps [of n] Let_def)
  next
    case False
    then have "k \<noteq> 0" using Suc.prems by (cases k) auto
    moreover have "n div 16 < 16 ^ k" using Suc.prems by auto
    ultimately have "length (convertHex (n div 16)) \<le> k" using Suc.IH by simp
    then show ?thesis
      using False by (simp add: convertHex_def convertHex_digits.simps [of n] Let_def div_eq_0_iff)
  qed
qed simp

text \<open>Texts of integers of at most 64 bits, signed or unsigned, stay below \<open>kMaxNumericSize\<close>.\<close>

definition in_64_bits :: "int \<Rightarrow> bool" where
  "in_64_bits i \<longleftrightarrow> - (2 ^ 63) \<le> i \<and> i < 2 ^ 64"

lemma length_convert: "in_64_bits i \<Longrightarrow> length (convert i) \<le> 20"
proof (cases "i < 0")
  case True
  assume "in_64_bits i"
  then have "length (dec_nat (nat (- i))) \<le> 19"
    using True by (intro length_dec_nat) (simp_all add: in_64_bits_def nat_less_iff)
  then show ?thesis using True by (simp add: convert_eq fmt_d_def)
next
  case False
  assume "in_64_bits i"
  then have "length (dec_nat (nat i)) \<le> 20"
    using False by (intro length_dec_nat) (simp_all add: in_64_bits_def nat_less_iff)
  then show ?thesis using False by (simp add: convert_eq fmt_d_def)
qed

section \<open>What a stream holds\<close>

definition FixedBuffer_inv :: "FixedBuffer \<Rightarrow> bool" where
  "FixedBuffer_inv b \<longleftrightarrow> fb_cur b \<le> length (fb_buffer b)"

definition FixedBuffer_text :: "FixedBuffer \<Rightarrow> string" where
  "FixedBuffer_text b = take (fb_cur b) (fb_buffer b)"

text \<open>\<open>end()\<close> is measured from the cursor, so the room never shrinks.\<close>

lemma FixedBuffer_avail_eq [simp]: "FixedBuffer_avail b = length (fb_buffer b)"
  by (simp add: FixedBuffer_avail_def FixedBuffer_end_def FixedBuffer_size_def)

lemma FixedBuffer_append_ok:
  assumes "fb_cur b + length d \<le> length (fb_buffer b)" "length d < length (fb_buffer b)"
  shows "returns (FixedBuffer_append b d) (\<lambda>b'. FixedBuffer_text b' = FixedBuffer_text b @ d \<and>
     fb_cur b' = fb_cur b + length d \<and> length (fb_buffer b') = length (fb_buffer b))"
  using assms
  by (simp add: FixedBuffer_append_def copy_to_def FixedBuffer_advance_def FixedBuffer_text_def)

lemma FixedBuffer_append_overflow:
  assumes "length (fb_buffer b) < fb_cur b + length d" "length d < length (fb_buffer b)"
  shows "FixedBuffer_append b d = Inl OutOfBounds"
  using assms by (simp add: FixedBuffer_append_def copy_to_def)

lemma write_at_cur_ok:
  assumes "fb_cur b + length t \<le> length (fb_buffer b)" "n \<le> length t"
  shows "returns (write_at_cur b t) (\<lambda>b'.
     FixedBuffer_text (FixedBuffer_advance b' n) = FixedBuffer_text b @ take n t \<and>
     fb_cur b' = fb_cur b \<and> length (fb_buffer b') = length (fb_buffer b))"
  using assms
  by (simp add: write_at_cur_def copy_to_def FixedBuffer_advance_def FixedBuffer_text_def)

text \<open>The text one insertion leaves in the stream, and when it is short enough for the array.\<close>

definition ins_text :: "insertion \<Rightarrow> string" where
  "ins_text x =
     (case x of
        InsBool b \<Rightarrow> if b then ''true'' else ''false''
      | InsInt i \<Rightarrow> fmt_d 0 i
      | InsPtr p \<Rightarrow> take (length (convertHex p)) (''0x'' @ convertHex p)
      | InsDouble t \<Rightarrow> t
      | InsChar c \<Rightarrow> [c]
      | InsCStr t \<Rightarrow> (case t of Some u \<Rightarrow> u | None \<Rightarrow> ''(null)'')
      | InsString t \<Rightarrow> t
      | InsFmt t \<Rightarrow> t)"

definition ins_ok :: "insertion \<Rightarrow> bool" where
  "ins_ok x =
     (case x of
        InsInt i \<Rightarrow> in_64_bits i
      | InsPtr p \<Rightarrow> p < 2 ^ 64
      | InsDouble t \<Rightarrow> length t < 32
      | InsFmt t \<Rightarrow> length t < 32
      | _ \<Rightarrow> True)"

abbreviation stream_after :: "LogStream \<Rightarrow> string \<Rightarrow> LogStream \<Rightarrow> bool" where
  "stream_after s t s' \<equiv> FixedBuffer_text (ls_buffer s') = FixedBuffer_text (ls_buffer s) @ t \<and>
     fb_cur (ls_buffer s') = fb_cur (ls_buffer s) + length t \<and>
     length (fb_buffer (ls_buffer s')) = length (fb_buffer (ls_buffer s))"

lemma LogStream_append_ok:
  assumes "fb_cur (ls_buffer s) + length d + 32 \<le> length (fb_buffer (ls_buffer s))"
  shows "returns (LogStream_append s d) (stream_after s d)"
  unfolding LogStream_append_def
  by (rule returns_bind [OF FixedBuffer_append_ok]) (use assms in auto)

lemma LogStream_write_ok:
  assumes "fb_cur (ls_buffer s) + length t \<le> length (fb_buffer (ls_buffer s))" "n \<le> length t"
  shows "returns (bindR (write_at_cur (ls_buffer s) t) (\<lambda>b. Inr (s\<lparr>ls_buffer := FixedBuffer_advance b n\<rparr>)))
     (stream_after s (take n t))"
  by (rule returns_bind [OF write_at_cur_ok [OF assms]]) (use assms in \<open>auto simp: FixedBuffer_advance_def min_def\<close>)

lemma LogStream_insert_ok:
  assumes ok: "ins_ok x"
    and room: "fb_cur (ls_buffer s) + length (ins_text x) + 32 \<le> length (fb_buffer (ls_buffer s))"
  shows "returns (LogStream_insert dbg s x) (stream_after s (ins_text x))"
proof (cases x)
  case (InsInt i)
  then have len: "length (convert i) \<le> 20" using ok length_convert by (simp add: ins_ok_def)
  have "returns (LogStream_appendInteger s i) (stream_after s (take (length (convert i)) (convert i @ [CHR 0x00])))"
    unfolding LogStream_appendInteger_def Let_def
    using LogStream_write_ok [of s "convert i @ [CHR 0x00]" "length (convert i)"] room len
    by (simp add: kMaxNumericSize_def InsInt ins_text_def convert_eq)
  then show ?thesis by (simp add: InsInt LogStream_insert_def ins_text_def convert_eq)
next
  case (InsPtr p)
  let ?h = "convertHex p"
  have "length ?h \<le> 16" using ok InsPtr by (intro length_convertHex) (simp_all add: ins_ok_def)
  then have "returns (LogStream_pointer s p) (stream_after s (take (length ?h) (''0x'' @ ?h @ [CHR 0x00])))"
    unfolding LogStream_pointer_def Let_def
    using LogStream_write_ok [of s "''0x'' @ ?h @ [CHR 0x00]" "length ?h"] room
    by (simp add: kMaxNumericSize_def InsPtr ins_text_def)
  moreover have "take (length ?h) (''0x'' @ ?h @ [CHR 0x00]) = take (length ?h) (''0x'' @ ?h)"
    by (simp add: take_Cons' split: nat.split)
  ultimately show ?thesis by (simp add: InsPtr LogStream_insert_def ins_text_def)
next
  case (InsDouble t)
  then have "returns (LogStream_double s t) (stream_after s (take (length t) (t @ [CHR 0x00])))"
    unfolding LogStream_double_def
    using LogStream_write_ok [of s "t @ [CHR 0x00]" "length t"] room ok
    by (simp add: kMaxNumericSize_def ins_text_def ins_ok_def snprintf_fits)
  then show ?thesis by (simp add: InsDouble LogStream_insert_def ins_text_def)
next
  case (InsFmt t)
  then have "Fmt_new dbg t = Inr \<lparr>fmt_buf = t, fmt_length = length t\<rparr>"
    using ok by (simp add: Fmt_new_def ins_ok_def snprintf_fits)
  then show ?thesis
    using LogStream_append_ok [of s t] room
    by (simp add: InsFmt LogStream_insert_def LogStream_fmt_def ins_text_def)
next
  case (InsCStr t)
  then have "LogStream_insert dbg s x = LogStream_append s (ins_text x)"
    by (cases t) (simp_all add: LogStream_insert_def LogStream_cstr_def ins_text_def)
  then show ?thesis using LogStream_append_ok [OF room] by simp
next
  case (InsBool v)
  then have "LogStream_insert dbg s x = LogStream_append s (ins_text x)"
    by (simp add: LogStream_insert_def LogStream_bool_def ins_text_def)
  then show ?thesis using LogStream_append_ok [OF room] by (simp only:)
next
  case (InsChar c)
  then have "LogStream_insert dbg s x = LogStream_append s (ins_text x)"
    by (simp add: LogStream_insert_def LogStream_char_def ins_text_def)
  then show ?thesis using LogStream_append_ok [OF room] by (simp only:)
next
  case (InsString t)
  then have "LogStream_insert dbg s x = LogStream_append s (ins_text x)"
    by (simp add: LogStream_insert_def ins_text_def)
  then show ?thesis using LogStream_append_ok [OF room] by (simp only:)
qed

lemma LogStream_inserts_ok:
  assumes "\<forall>x \<in> set xs. ins_ok x"
    and "fb_cur (ls_buffer s) + length (concat (map ins_text xs)) + 32 \<le> length (fb_buffer (ls_buffer s))"
  shows "returns (LogStream_inserts dbg s xs) (stream_after s (concat (map ins_text xs)))"
  using assms
proof (induction xs arbitrary: s)
  case (Cons x xs)
  show ?case
    unfolding LogStream_inserts.simps
  proof (rule returns_bind [OF LogStream_insert_ok])
    fix s' assume "stream_after s (ins_text x) s'"
    then show "returns (LogStream_inserts dbg s' xs) (stream_after s (concat (map ins_text (x # xs))))"
      using Cons.prems by (intro returns_mono [OF Cons.IH [of s']]) auto
  qed (use Cons.prems in auto)
qed simp

text \<open>No insertion changes the size of the array.\<close>

lemma LogStream_insert_size:
  "LogStream_insert dbg s x = Inr s' \<Longrightarrow> length (fb_buffer (ls_buffer s')) = length (fb_buffer (ls_buffer s))"
  by (cases x)
    (auto simp: LogStream_insert_def LogStream_bool_def LogStream_char_def LogStream_cstr_def LogStream_append_def
      LogStream_appendInteger_def LogStream_pointer_def LogStream_double_def LogStream_fmt_def
      FixedBuffer_append_def write_at_cur_def FixedBuffer_advance_def Let_def
      dest: copy_to_length split: if_splits option.splits)

lemma LogStream_inserts_size:
  "LogStream_inserts dbg s xs = Inr s' \<Longrightarrow> length (fb_buffer (ls_buffer s')) = length (fb_buffer (ls_buffer s))"
  by (induction xs arbitrary: s) (auto dest: LogStream_insert_size)

section \<open>Properties\<close>

text \<open>
  C30. The integer conversion prints every integer, of whatever width and sign and including the
  smallest, as \<^verbatim>\<open>%d\<close> would, and the hexadecimal conversion prints digits that read back as the
  number; with at most 64 bits they take at most 20 and 16 characters, fewer than the 32 that
  \<^verbatim>\<open>appendInteger\<close> asks for.
\<close>

theorem LogStream_convert_correct:
  "convert v = fmt_d 0 v \<and> hex_value (convertHex n) = n \<and>
   (in_64_bits v \<longrightarrow> length (convert v) \<le> 20) \<and> (n < 2 ^ 64 \<longrightarrow> length (convertHex n) \<le> 16)"
  using convert_eq length_convert length_convertHex [of n 16] by simp

theorem LogStream_convert_correct_witness:
  "length (convert (- (2 ^ 63))) \<le> 20 \<and> length (convertHex (2 ^ 64 - 1)) \<le> 16"
proof -
  have "in_64_bits (- (2 ^ 63))" "(2 ^ 64 - 1 :: nat) < 2 ^ 64" by (simp_all add: in_64_bits_def)
  then show ?thesis using LogStream_convert_correct [of "- (2 ^ 63)" "2 ^ 64 - 1"] by blast
qed

text \<open>
  C29. As long as 32 bytes stay free, a sequence of insertions of any kinds returns, and the stream then
  holds the texts of the values in order; the text of a pointer lacks its last two digits.
\<close>

theorem LogStream_holds_texts:
  assumes "\<forall>x \<in> set xs. ins_ok x" "length (concat (map ins_text xs)) + 32 \<le> kSmallBufferSize"
  shows "returns (LogStream_inserts dbg (LogStream_new junk) xs)
     (\<lambda>s. FixedBuffer_text (ls_buffer s) = concat (map ins_text xs))"
proof -
  have "returns (LogStream_inserts dbg (LogStream_new junk) xs)
      (stream_after (LogStream_new junk) (concat (map ins_text xs)))"
    using assms by (intro LogStream_inserts_ok) (simp_all add: LogStream_new_def FixedBuffer_new_def)
  moreover have "FixedBuffer_text (ls_buffer (LogStream_new junk)) = []"
    by (simp add: LogStream_new_def FixedBuffer_new_def FixedBuffer_text_def)
  ultimately show ?thesis
    by (auto elim: returns_mono)
qed

theorem LogStream_holds_texts_witness:
  "returns (LogStream_inserts True (LogStream_new (\<lambda>_. CHR ''?'')) [InsString ''n='', InsInt (- 12), InsBool True])
     (\<lambda>s. FixedBuffer_text (ls_buffer s) = ''n=-12true'')"
proof -
  have t: "concat (map ins_text [InsString ''n='', InsInt (- 12), InsBool True]) = ''n=-12true''"
    by code_simp
  show ?thesis
    using LogStream_holds_texts [of "[InsString ''n='', InsInt (- 12), InsBool True]" True "\<lambda>_. CHR ''?''"]
    unfolding t by (simp add: ins_ok_def in_64_bits_def kSmallBufferSize_def)
qed

text \<open>
  A stream that is full is not protected: because \<^verbatim>\<open>avail()\<close> is always the size of the array, two
  strings that each fit but together do not are written past its end, in either build.
\<close>

theorem LogStream_overflows:
  assumes "length t < kSmallBufferSize" "length u < kSmallBufferSize" "kSmallBufferSize < length t + length u"
  shows "LogStream_inserts dbg (LogStream_new junk) [InsString t, InsString u] = Inl OutOfBounds"
proof -
  let ?b = "FixedBuffer_new junk kSmallBufferSize"
  have b: "length (fb_buffer ?b) = kSmallBufferSize" "fb_cur ?b = 0"
    by (simp_all add: FixedBuffer_new_def)
  then obtain c where c: "FixedBuffer_append ?b t = Inr c" "fb_cur c = length t"
    "length (fb_buffer c) = kSmallBufferSize"
    using FixedBuffer_append_ok [of ?b t] assms by (auto simp: returns_iff)
  have "FixedBuffer_append c u = Inl OutOfBounds"
    using c assms by (intro FixedBuffer_append_overflow) simp_all
  then show ?thesis
    using c(1) by (simp add: LogStream_insert_def LogStream_append_def LogStream_new_def)
qed

theorem LogStream_overflows_witness:
  "LogStream_inserts False (LogStream_new (\<lambda>_. CHR 0x00))
     [InsString (replicate 3000 CHR ''a''), InsString (replicate 1001 CHR ''b'')] = Inl OutOfBounds"
  by (rule LogStream_overflows) (simp_all add: kSmallBufferSize_def)

text \<open>
  \<^verbatim>\<open>toString\<close> of the buffer of a stream is the whole array of 4000 bytes, whatever was written,
  and inserting one such buffer into another stream inserts nothing.
\<close>

theorem LogStream_toString_whole_array:
  assumes "LogStream_inserts dbg (LogStream_new junk) xs = Inr s"
  shows "length (FixedBuffer_toString (ls_buffer s)) = kSmallBufferSize \<and> LogStream_buffer s (ls_buffer s) = Inr s"
proof -
  have "length (fb_buffer (ls_buffer s)) = kSmallBufferSize"
    using LogStream_inserts_size [OF assms] by (simp add: LogStream_new_def FixedBuffer_new_def)
  then show ?thesis
    by (simp add: FixedBuffer_toString_def FixedBuffer_toStringView_def FixedBuffer_size_def LogStream_buffer_def
        LogStream_append_def FixedBuffer_append_def)
qed

theorem LogStream_toString_whole_array_witness:
  "length (FixedBuffer_toString (ls_buffer (LogStream_new (\<lambda>_. CHR 0x00)))) = kSmallBufferSize"
  using LogStream_toString_whole_array [of True "\<lambda>_. CHR 0x00" "[]" "LogStream_new (\<lambda>_. CHR 0x00)"] by simp

end
