(* ===== verification/Timestamp.thy ===== *)
theory Timestamp
  imports Ctime
begin

text \<open>
  The points in time of timestamp.h and timestamp.cc: microseconds since the epoch in an
  \<^verbatim>\<open>int64_t\<close>, their conversions and the two printed forms.
\<close>

section \<open>The code\<close>

record Timestamp =
  ts_microSecondsFromEpoch :: int

definition kMicroSecondsPerSecond :: int where
  "kMicroSecondsPerSecond = 1000 * 1000"

definition Timestamp_default :: Timestamp where
  "Timestamp_default = \<lparr>ts_microSecondsFromEpoch = 0\<rparr>"

definition Timestamp_new :: "int \<Rightarrow> Timestamp" where
  "Timestamp_new microSeconds = \<lparr>ts_microSecondsFromEpoch = microSeconds\<rparr>"

definition Timestamp_swap :: "Timestamp \<Rightarrow> Timestamp \<Rightarrow> Timestamp \<times> Timestamp" where
  "Timestamp_swap a b =
     (a\<lparr>ts_microSecondsFromEpoch := ts_microSecondsFromEpoch b\<rparr>,
      b\<lparr>ts_microSecondsFromEpoch := ts_microSecondsFromEpoch a\<rparr>)"

definition Timestamp_toString :: "Timestamp \<Rightarrow> string" where
  "Timestamp_toString t =
     (let seconds = ts_microSecondsFromEpoch t sdiv kMicroSecondsPerSecond;
          microseconds = ts_microSecondsFromEpoch t smod kMicroSecondsPerSecond
      in snprintf 31 (fmt_d 0 seconds @ ''.'' @ fmt_0d 6 microseconds))"

definition Timestamp_toFormattedString :: "Timestamp \<Rightarrow> bool \<Rightarrow> string" where
  "Timestamp_toFormattedString t showMicroSeconds =
     (let seconds = ts_microSecondsFromEpoch t sdiv kMicroSecondsPerSecond;
          tmt = gmtime_r seconds;
          s = fmt_d 4 (tm_year tmt + 1900) @ fmt_0d 2 (tm_mon tmt + 1) @ fmt_0d 2 (tm_mday tmt) @ '' '' @
              fmt_0d 2 (tm_hour tmt) @ '':'' @ fmt_0d 2 (tm_min tmt) @ '':'' @ fmt_0d 2 (tm_sec tmt)
      in if showMicroSeconds
         then let microseconds = ts_microSecondsFromEpoch t smod kMicroSecondsPerSecond
              in snprintf 32 (s @ ''.'' @ fmt_0d 6 microseconds)
         else snprintf 32 s)"

definition Timestamp_valid :: "Timestamp \<Rightarrow> bool" where
  "Timestamp_valid t \<longleftrightarrow> 0 < ts_microSecondsFromEpoch t"

definition Timestamp_secondsFromEpoch :: "Timestamp \<Rightarrow> int" where
  "Timestamp_secondsFromEpoch t = ts_microSecondsFromEpoch t sdiv kMicroSecondsPerSecond"

text \<open>\<open>tv_sec\<close> and \<open>tv_usec\<close> are what \<^verbatim>\<open>gettimeofday\<close> stores.\<close>

definition Timestamp_now :: "int \<Rightarrow> int \<Rightarrow> Timestamp res" where
  "Timestamp_now tv_sec tv_usec =
     bindR (add64 (mul64 (Inr tv_sec) (Inr kMicroSecondsPerSecond)) (Inr tv_usec)) (\<lambda>ms.
       Inr (Timestamp_new ms))"

definition Timestamp_invalid :: Timestamp where
  "Timestamp_invalid = Timestamp_default"

definition Timestamp_fromUnixTime :: "int \<Rightarrow> int \<Rightarrow> Timestamp res" where
  "Timestamp_fromUnixTime t microSeconds =
     bindR (add64 (mul64 (Inr t) (Inr kMicroSecondsPerSecond)) (Inr microSeconds)) (\<lambda>us.
       Inr (Timestamp_new us))"

definition Timestamp_fromUnixSeconds :: "int \<Rightarrow> Timestamp res" where
  "Timestamp_fromUnixSeconds t = Timestamp_fromUnixTime t 0"

definition Timestamp_less :: "Timestamp \<Rightarrow> Timestamp \<Rightarrow> bool" where
  "Timestamp_less lhs rhs \<longleftrightarrow> ts_microSecondsFromEpoch lhs < ts_microSecondsFromEpoch rhs"

definition Timestamp_eq :: "Timestamp \<Rightarrow> Timestamp \<Rightarrow> bool" where
  "Timestamp_eq lhs rhs \<longleftrightarrow> ts_microSecondsFromEpoch lhs = ts_microSecondsFromEpoch rhs"

definition timeDifference :: "Timestamp \<Rightarrow> Timestamp \<Rightarrow> rat res" where
  "timeDifference high low =
     bindR (sub64 (Inr (ts_microSecondsFromEpoch high)) (Inr (ts_microSecondsFromEpoch low))) (\<lambda>diff.
       Inr (double_div (fround (of_int diff)) (of_int kMicroSecondsPerSecond)))"

definition addTime :: "Timestamp \<Rightarrow> rat \<Rightarrow> Timestamp res" where
  "addTime timestamp seconds =
     bindR (int64_of_double (double_mul seconds (of_int kMicroSecondsPerSecond))) (\<lambda>delta.
     bindR (add64 (Inr (ts_microSecondsFromEpoch timestamp)) (Inr delta)) (\<lambda>us.
       Inr (Timestamp_new us)))"

section \<open>Lemmas\<close>

text \<open>Timestamps are ordered by their microseconds.\<close>

lemma Timestamp_eq_iff [simp]: "Timestamp_eq a b \<longleftrightarrow> a = b"
  by (auto simp: Timestamp_eq_def intro: Timestamp.equality)

lemma Timestamp_less_trans: "Timestamp_less a b \<Longrightarrow> Timestamp_less b c \<Longrightarrow> Timestamp_less a c"
  by (simp add: Timestamp_less_def)

lemma Timestamp_less_total: "\<not> Timestamp_less a b \<Longrightarrow> \<not> Timestamp_less b a \<Longrightarrow> a = b"
  by (auto simp: Timestamp_less_def intro: Timestamp.equality)

lemma kMicroSecondsPerSecond_simp [simp]: "kMicroSecondsPerSecond = 1000000"
  by (simp add: kMicroSecondsPerSecond_def)

lemma addTime_nonneg:
  assumes "addTime t s = Inr t'" "0 \<le> s"
  shows "ts_microSecondsFromEpoch t \<le> ts_microSecondsFromEpoch t'"
proof -
  have "0 \<le> trunc_rat (double_mul s 1000000)"
    using assms(2) by (simp add: double_mul_def trunc_rat_nonneg fround_nonneg)
  then show ?thesis
    using assms(1) by (auto simp: addTime_def int64_of_double_def cint_def Timestamp_new_def split: if_splits)
qed

lemma length_fmt_d_0: "i < 10 ^ k \<Longrightarrow> 0 \<le> i \<Longrightarrow> 0 < k \<Longrightarrow> length (fmt_d 0 i) \<le> k"
  using length_dec_nat [of "nat i" k] by (simp add: fmt_d_def nat_less_iff)

section \<open>Properties\<close>

text \<open>
  A non-negative time prints as seconds, a dot and six digits of microseconds, untruncated, and
  the two numbers read from the printed form give the time back; the seconds are those of
  \<^verbatim>\<open>secondsFromEpoch\<close>, and \<^verbatim>\<open>fromUnixTime\<close> of the two numbers is the time.
\<close>

theorem Timestamp_print_roundtrip:
  assumes "0 \<le> ts_microSecondsFromEpoch t" "in_int 64 (ts_microSecondsFromEpoch t)"
  shows "let s = Timestamp_toString t; i = length s - 7;
             seconds = int (dec_value (take i s)); us = int (dec_value (drop (Suc i) s)) in
     7 \<le> length s \<and> s ! i = CHR ''.'' \<and> seconds = Timestamp_secondsFromEpoch t \<and> us < 1000000 \<and>
     Timestamp_fromUnixTime seconds us = Inr t"
proof -
  let ?n = "ts_microSecondsFromEpoch t"
  let ?q = "?n div 1000000" and ?r = "?n mod 1000000"
  have r: "0 \<le> ?r" "?r < 1000000" by simp_all
  have q: "0 \<le> ?q" "?q < 10 ^ 13"
    using assms div_bounds [of 1000000 ?n] by (simp_all add: pos_imp_zdiv_nonneg_iff)
  have lr: "length (fmt_0d 6 ?r) = 6" using r by (simp add: length_fmt_0d)
  have lq: "length (fmt_d 0 ?q) \<le> 13" using q by (simp add: length_fmt_d_0)
  have s: "Timestamp_toString t = fmt_d 0 ?q @ ''.'' @ fmt_0d 6 ?r"
    using assms lr lq by (simp add: Timestamp_toString_def sdiv_nonneg smod_nonneg Let_def snprintf_fits)
  have vq: "int (dec_value (fmt_d 0 ?q)) = ?q"
    using q by (simp add: fmt_d_def pad_left_def)
  have vr: "int (dec_value (fmt_0d 6 ?r)) = ?r"
    using r by (simp add: dec_value_fmt_0d)
  have t: "Timestamp_fromUnixTime ?q ?r = Inr t"
  proof -
    have "?q * 1000000 + ?r = ?n" "0 \<le> ?q * 1000000" "?q * 1000000 \<le> ?n"
      using q r div_mult_mod_eq [of ?n 1000000] by linarith+
    then show ?thesis
      using assms by (simp add: Timestamp_fromUnixTime_def Timestamp_new_def)
  qed
  show ?thesis
    unfolding s using assms lr vq vr r t
    by (simp add: Let_def Timestamp_secondsFromEpoch_def sdiv_nonneg)
qed

theorem Timestamp_print_roundtrip_witness:
  "let s = Timestamp_toString \<lparr>ts_microSecondsFromEpoch = 1500000000000042\<rparr>; i = length s - 7 in
     Timestamp_fromUnixTime (int (dec_value (take i s))) (int (dec_value (drop (Suc i) s))) =
       Inr \<lparr>ts_microSecondsFromEpoch = 1500000000000042\<rparr>"
proof -
  let ?t = "\<lparr>ts_microSecondsFromEpoch = 1500000000000042\<rparr>"
  have "0 \<le> ts_microSecondsFromEpoch ?t" "in_int 64 (ts_microSecondsFromEpoch ?t)" by simp_all
  from Timestamp_print_roundtrip [OF this] show ?thesis
    unfolding Let_def by (elim conjE)
qed

text \<open>
  \<^verbatim>\<open>addTime\<close> with a whole number of seconds moves a timestamp by exactly that many million
  microseconds, and \<^verbatim>\<open>timeDifference\<close> of the two gives the seconds back without rounding, as long
  as the number of microseconds stays below \<open>2 ^ 53\<close>.
\<close>

theorem Timestamp_addTime_whole_seconds:
  assumes "\<bar>n * 1000000\<bar> < 2 ^ 53" "in_int 64 (ts_microSecondsFromEpoch t + n * 1000000)"
  shows "addTime t (of_int n) = Inr (Timestamp_new (ts_microSecondsFromEpoch t + n * 1000000)) \<and>
     timeDifference (Timestamp_new (ts_microSecondsFromEpoch t + n * 1000000)) t = Inr (of_int n)"
proof -
  let ?m = "n * 1000000"
  have m: "fround (of_int ?m) = of_int ?m" using assms(1) by (rule fround_int)
  have "\<bar>n\<bar> < 2 ^ 53" using assms(1) by simp
  then have n: "fround (of_int n) = of_int n" by (rule fround_int)
  have "of_int n * 1000000 = (of_int ?m :: rat)" "of_int ?m / 1000000 = (of_int n :: rat)"
    by simp_all
  then have mul: "double_mul (of_int n) 1000000 = of_int ?m" and div: "double_div (of_int ?m) 1000000 = of_int n"
    unfolding double_mul_def double_div_def using m n by (simp_all only:)
  have i: "in_int 64 ?m" using assms(1) by (auto simp: abs_less_iff)
  have to_int: "int64_of_double (double_mul (of_int n) 1000000) = Inr ?m"
    unfolding mul int64_of_double_def trunc_rat_of_int by (rule cint_exact [OF i])
  have quot: "double_div (fround (of_int ?m)) 1000000 = of_int n"
    unfolding m by (rule div)
  have "addTime t (of_int n) = Inr (Timestamp_new (ts_microSecondsFromEpoch t + ?m))"
    using assms(2) to_int by (simp add: addTime_def)
  moreover have "timeDifference (Timestamp_new (ts_microSecondsFromEpoch t + ?m)) t =
      bindR (cint 64 ?m) (\<lambda>d. Inr (double_div (fround (of_int d)) 1000000))"
    by (simp add: timeDifference_def Timestamp_new_def)
  ultimately show ?thesis
    by (simp only: cint_exact [OF i] bindR_simps quot)
qed

theorem Timestamp_addTime_whole_seconds_witness:
  "addTime \<lparr>ts_microSecondsFromEpoch = 7\<rparr> 3 = Inr \<lparr>ts_microSecondsFromEpoch = 3000007\<rparr>"
  using Timestamp_addTime_whole_seconds [of 3 "\<lparr>ts_microSecondsFromEpoch = 7\<rparr>"]
  by (simp add: Timestamp_new_def)

text \<open>
  A time before the epoch that is not a whole second prints its sign in the wrong place: half a
  second before the epoch is \<^verbatim>\<open>0.-500000\<close>, and any earlier fraction has a second sign after the dot.
\<close>

theorem Timestamp_negative_prints_two_signs:
  assumes "ts_microSecondsFromEpoch t < 0" "- (10 ^ 15) < ts_microSecondsFromEpoch t"
    and "\<not> 1000000 dvd ts_microSecondsFromEpoch t"
  shows "\<exists>q u. Timestamp_toString t = fmt_d 0 q @ ''.-'' @ u \<and> q \<le> 0"
proof -
  let ?n = "ts_microSecondsFromEpoch t"
  let ?q = "?n sdiv 1000000" and ?r = "?n smod 1000000"
  have q: "?q = - (- ?n div 1000000)" using assms(1) by (simp add: signed_divide_int_def)
  have r: "?r = - (- ?n mod 1000000)" using assms(1) by (simp add: signed_modulo_int_def)
  have "- ?n mod 1000000 \<noteq> 0" using assms(3) by (simp add: mod_eq_0_iff_dvd)
  then have r': "?r < 0" "- 1000000 < ?r"
    using pos_mod_sign [of 1000000 "- ?n"] pos_mod_bound [of 1000000 "- ?n"] unfolding r by linarith+
  have q': "?q \<le> 0" "- (10 ^ 9) < ?q"
    using assms div_bounds [of 1000000 "- ?n"] unfolding q by (simp_all add: pos_imp_zdiv_nonneg_iff)
  have "length (fmt_d 0 ?q) \<le> 10"
    using q' length_dec_nat [of "nat (- ?q)" 9] length_dec_nat [of 0 1] by (auto simp: fmt_d_def nat_less_iff)
  moreover have "length (dec_nat (nat (- ?r))) \<le> 6"
    using r' by (intro length_dec_nat) (simp_all add: nat_less_iff)
  then have "length (fmt_0d 6 ?r) \<le> 7" using r' by (simp add: fmt_0d_def)
  ultimately have "Timestamp_toString t = fmt_d 0 ?q @ ''.'' @ fmt_0d 6 ?r"
    by (simp add: Timestamp_toString_def Let_def snprintf_fits)
  then show ?thesis
    using r' q' by (intro exI [of _ ?q] exI [of _ "pad_left CHR ''0'' 5 (dec_nat (nat (- ?r)))"])
      (simp add: fmt_0d_def)
qed

theorem Timestamp_negative_prints_two_signs_witness:
  "\<exists>q u. Timestamp_toString \<lparr>ts_microSecondsFromEpoch = - 500000\<rparr> = fmt_d 0 q @ ''.-'' @ u \<and> q \<le> 0"
  by (rule Timestamp_negative_prints_two_signs) simp_all

end
