(* ===== verification/Channel.thy ===== *)
theory Channel
  imports CInt Timestamp
begin

text \<open>
  The channels of channel.h and channel.cc: which events of a file descriptor are wanted, which were
  reported, and the dispatch of a report to the callbacks. Channels are shared objects; they live in
  a store from addresses to objects, in which poller and loop find them.
\<close>

unbundle bit_operations_syntax

section \<open>Events\<close>

text \<open>The bits of poll(2) on Linux.\<close>

definition POLLIN :: int where "POLLIN = 1"
definition POLLPRI :: int where "POLLPRI = 2"
definition POLLOUT :: int where "POLLOUT = 4"
definition POLLERR :: int where "POLLERR = 8"
definition POLLHUP :: int where "POLLHUP = 16"
definition POLLNVAL :: int where "POLLNVAL = 32"

lemmas poll_bits = POLLIN_def POLLPRI_def POLLOUT_def POLLERR_def POLLHUP_def POLLNVAL_def

definition kNoneEvent :: int where "kNoneEvent = 0"
definition kReadEvent :: int where "kReadEvent = POLLIN OR POLLPRI"
definition kWriteEvent :: int where "kWriteEvent = POLLOUT"

lemma event_masks [simp]: "kNoneEvent = 0" "kReadEvent = 3" "kWriteEvent = 4"
  by (simp_all add: kNoneEvent_def kReadEvent_def kWriteEvent_def poll_bits)

section \<open>Channels\<close>

text \<open>
  A callback is \<open>None\<close> until it is set; \<open>'cb\<close> are the names of the functions that can be set. The
  pointer to the loop is null or not.
\<close>

record 'cb Channel =
  ch_loop :: bool
  ch_fd :: int
  ch_interestedEvents :: int
  ch_receivedEvents :: int
  ch_index :: int
  ch_eventHanding :: bool
  ch_readCallback :: "'cb option"
  ch_writeCallback :: "'cb option"
  ch_closeCallback :: "'cb option"
  ch_errorCallback :: "'cb option"

definition Channel_new :: "bool \<Rightarrow> int \<Rightarrow> 'cb Channel" where
  "Channel_new loop fd =
     \<lparr>ch_loop = loop, ch_fd = fd, ch_interestedEvents = kNoneEvent, ch_receivedEvents = kNoneEvent,
      ch_index = - 1, ch_eventHanding = False, ch_readCallback = None, ch_writeCallback = None,
      ch_closeCallback = None, ch_errorCallback = None\<rparr>"

definition Channel_destroy :: "bool \<Rightarrow> 'cb Channel \<Rightarrow> unit res" where
  "Channel_destroy dbg ch = cassert dbg (\<not> ch_eventHanding ch) (Inr ())"

definition Channel_setReadCallback :: "'cb \<Rightarrow> 'cb Channel \<Rightarrow> 'cb Channel" where
  "Channel_setReadCallback cb ch = ch\<lparr>ch_readCallback := Some cb\<rparr>"

definition Channel_setWriteCallback :: "'cb \<Rightarrow> 'cb Channel \<Rightarrow> 'cb Channel" where
  "Channel_setWriteCallback cb ch = ch\<lparr>ch_writeCallback := Some cb\<rparr>"

definition Channel_setCloseCallback :: "'cb \<Rightarrow> 'cb Channel \<Rightarrow> 'cb Channel" where
  "Channel_setCloseCallback cb ch = ch\<lparr>ch_closeCallback := Some cb\<rparr>"

definition Channel_setErrorCallback :: "'cb \<Rightarrow> 'cb Channel \<Rightarrow> 'cb Channel" where
  "Channel_setErrorCallback cb ch = ch\<lparr>ch_errorCallback := Some cb\<rparr>"

definition Channel_setReceivedEvents :: "int \<Rightarrow> 'cb Channel \<Rightarrow> 'cb Channel" where
  "Channel_setReceivedEvents revents ch = ch\<lparr>ch_receivedEvents := revents\<rparr>"

definition Channel_isNoneEvent :: "'cb Channel \<Rightarrow> bool" where
  "Channel_isNoneEvent ch \<longleftrightarrow> ch_interestedEvents ch = kNoneEvent"

definition Channel_isWriting :: "'cb Channel \<Rightarrow> bool" where
  "Channel_isWriting ch \<longleftrightarrow> ch_interestedEvents ch AND kWriteEvent \<noteq> 0"

section \<open>Changing interest\<close>

text \<open>
  A store of channels by address beside the rest of the state \<open>'w\<close>. \<open>upd\<close> and \<open>rem\<close> are
  \<^verbatim>\<open>loop_->updateChannel\<close> and \<^verbatim>\<open>loop_->removeChannel\<close>; a null loop is a bad pointer when
  asserts are compiled out.
\<close>

type_synonym 'cb store = "nat \<Rightarrow> 'cb Channel option"

definition Channel_update ::
  "bool \<Rightarrow> (nat \<Rightarrow> 'cb store \<times> 'w \<Rightarrow> ('cb store \<times> 'w) res) \<Rightarrow> nat \<Rightarrow> 'cb store \<times> 'w \<Rightarrow> ('cb store \<times> 'w) res" where
  "Channel_update dbg upd c w =
     (case fst w c of
        None \<Rightarrow> Inl BadPointer
      | Some ch \<Rightarrow> cassert dbg (ch_loop ch) (if ch_loop ch then upd c w else Inl BadPointer))"

definition Channel_setInterest ::
  "bool \<Rightarrow> (nat \<Rightarrow> 'cb store \<times> 'w \<Rightarrow> ('cb store \<times> 'w) res) \<Rightarrow> (int \<Rightarrow> int) \<Rightarrow> nat \<Rightarrow> 'cb store \<times> 'w \<Rightarrow>
     ('cb store \<times> 'w) res" where
  "Channel_setInterest dbg upd f c w =
     (case fst w c of
        None \<Rightarrow> Inl BadPointer
      | Some ch \<Rightarrow> Channel_update dbg upd c
          ((fst w)(c \<mapsto> ch\<lparr>ch_interestedEvents := f (ch_interestedEvents ch)\<rparr>), snd w))"

definition Channel_enableReading ::
  "bool \<Rightarrow> (nat \<Rightarrow> 'cb store \<times> 'w \<Rightarrow> ('cb store \<times> 'w) res) \<Rightarrow> nat \<Rightarrow> 'cb store \<times> 'w \<Rightarrow> ('cb store \<times> 'w) res" where
  "Channel_enableReading dbg upd = Channel_setInterest dbg upd (\<lambda>e. e OR kReadEvent)"

definition Channel_enableWriting ::
  "bool \<Rightarrow> (nat \<Rightarrow> 'cb store \<times> 'w \<Rightarrow> ('cb store \<times> 'w) res) \<Rightarrow> nat \<Rightarrow> 'cb store \<times> 'w \<Rightarrow> ('cb store \<times> 'w) res" where
  "Channel_enableWriting dbg upd = Channel_setInterest dbg upd (\<lambda>e. e OR kWriteEvent)"

definition Channel_disableWriting ::
  "bool \<Rightarrow> (nat \<Rightarrow> 'cb store \<times> 'w \<Rightarrow> ('cb store \<times> 'w) res) \<Rightarrow> nat \<Rightarrow> 'cb store \<times> 'w \<Rightarrow> ('cb store \<times> 'w) res" where
  "Channel_disableWriting dbg upd = Channel_setInterest dbg upd (\<lambda>e. e AND (NOT kWriteEvent))"

definition Channel_disableAll ::
  "bool \<Rightarrow> (nat \<Rightarrow> 'cb store \<times> 'w \<Rightarrow> ('cb store \<times> 'w) res) \<Rightarrow> nat \<Rightarrow> 'cb store \<times> 'w \<Rightarrow> ('cb store \<times> 'w) res" where
  "Channel_disableAll dbg upd = Channel_setInterest dbg upd (\<lambda>e. kNoneEvent)"

definition Channel_remove ::
  "bool \<Rightarrow> (nat \<Rightarrow> 'cb store \<times> 'w \<Rightarrow> ('cb store \<times> 'w) res) \<Rightarrow> nat \<Rightarrow> 'cb store \<times> 'w \<Rightarrow> ('cb store \<times> 'w) res" where
  "Channel_remove dbg rem c w =
     (case fst w c of
        None \<Rightarrow> Inl BadPointer
      | Some ch \<Rightarrow> cassert dbg (Channel_isNoneEvent ch) (if ch_loop ch then rem c w else Inl BadPointer))"

section \<open>Dispatch\<close>

text \<open>The calls a report leads to; a read callback gets the time of the report.\<close>

datatype 'cb channel_call = CallRead 'cb Timestamp | CallWrite 'cb | CallClose 'cb | CallError 'cb

text \<open>
  \<open>get\<close> and \<open>put\<close> reach the channel in the state \<open>'w\<close> the callbacks work on, and \<open>run\<close> runs a
  callback there; the channel is looked at again after each call.
\<close>

definition call_if :: "bool \<Rightarrow> ('cb \<Rightarrow> 'w \<Rightarrow> 'w res) \<Rightarrow> 'cb option \<Rightarrow> 'w \<Rightarrow> 'w res" where
  "call_if c run cb w = (if c then (case cb of None \<Rightarrow> Inr w | Some f \<Rightarrow> run f w) else Inr w)"

definition Channel_handleEvent ::
  "('w \<Rightarrow> 'cb Channel) \<Rightarrow> ('cb Channel \<Rightarrow> 'w \<Rightarrow> 'w) \<Rightarrow> ('cb channel_call \<Rightarrow> 'w \<Rightarrow> 'w res) \<Rightarrow> Timestamp \<Rightarrow> 'w \<Rightarrow> 'w res" where
  "Channel_handleEvent get put run receiveTime w =
     (let w0 = put ((get w)\<lparr>ch_eventHanding := True\<rparr>) w; r = (\<lambda>w. ch_receivedEvents (get w)) in
      bindR (call_if (r w0 AND POLLHUP \<noteq> 0 \<and> r w0 AND POLLIN = 0) (\<lambda>f. run (CallClose f))
               (ch_closeCallback (get w0)) w0) (\<lambda>w1.
      bindR (call_if (r w1 AND (POLLERR OR POLLNVAL) \<noteq> 0) (\<lambda>f. run (CallError f))
               (ch_errorCallback (get w1)) w1) (\<lambda>w2.
      bindR (call_if (r w2 AND (POLLIN OR POLLPRI) \<noteq> 0) (\<lambda>f. run (CallRead f receiveTime))
               (ch_readCallback (get w2)) w2) (\<lambda>w3.
      bindR (call_if (r w3 AND POLLOUT \<noteq> 0) (\<lambda>f. run (CallWrite f))
               (ch_writeCallback (get w3)) w3) (\<lambda>w4.
        Inr (put ((get w4)\<lparr>ch_eventHanding := False\<rparr>) w4))))))"

section \<open>Lemmas\<close>

lemma call_if_simps [simp]:
  "call_if False run cb w = Inr w"
  "call_if c run None w = Inr w"
  "call_if True run (Some f) w = run f w"
  by (simp_all add: call_if_def)

lemma Channel_update_simp:
  "fst w c = Some ch \<Longrightarrow> ch_loop ch \<Longrightarrow> Channel_update dbg upd c w = upd c w"
  by (simp add: Channel_update_def)

lemma Channel_setInterest_simp:
  "fst w c = Some ch \<Longrightarrow> ch_loop ch \<Longrightarrow>
     Channel_setInterest dbg upd f c w =
       upd c ((fst w)(c \<mapsto> ch\<lparr>ch_interestedEvents := f (ch_interestedEvents ch)\<rparr>), snd w)"
  by (simp add: Channel_setInterest_def Channel_update_def)

text \<open>Which calls a report makes, in order.\<close>

definition channel_calls :: "'cb Channel \<Rightarrow> Timestamp \<Rightarrow> 'cb channel_call list" where
  "channel_calls ch t =
     (let r = ch_receivedEvents ch;
          calls = (\<lambda>c mk cb. if c then (case cb of None \<Rightarrow> [] | Some f \<Rightarrow> [mk f]) else []) in
      calls (r AND POLLHUP \<noteq> 0 \<and> r AND POLLIN = 0) CallClose (ch_closeCallback ch) @
      calls (r AND (POLLERR OR POLLNVAL) \<noteq> 0) CallError (ch_errorCallback ch) @
      calls (r AND (POLLIN OR POLLPRI) \<noteq> 0) (\<lambda>f. CallRead f t) (ch_readCallback ch) @
      calls (r AND POLLOUT \<noteq> 0) CallWrite (ch_writeCallback ch))"

fun run_calls :: "('c \<Rightarrow> 'w \<Rightarrow> 'w res) \<Rightarrow> 'c list \<Rightarrow> 'w \<Rightarrow> 'w res" where
  "run_calls run [] w = Inr w"
| "run_calls run (x # xs) w = bindR (run x w) (run_calls run xs)"

lemma run_calls_append: "run_calls run (xs @ ys) w = bindR (run_calls run xs w) (run_calls run ys)"
  by (induction xs arbitrary: w) (auto simp: bindR_def split: sum.split)

text \<open>
  If the callbacks leave the report and the registered callbacks alone, as all of the library do,
  the dispatch runs exactly \<open>channel_calls\<close> between setting and clearing \<open>eventHanding_\<close>.
\<close>

lemma Channel_handleEvent_calls:
  assumes get_put: "\<And>ch w. get (put ch w) = ch"
    and frame: "\<And>x w w'. run x w = Inr w' \<Longrightarrow>
      ch_receivedEvents (get w') = ch_receivedEvents (get w) \<and>
      ch_readCallback (get w') = ch_readCallback (get w) \<and> ch_writeCallback (get w') = ch_writeCallback (get w) \<and>
      ch_closeCallback (get w') = ch_closeCallback (get w) \<and> ch_errorCallback (get w') = ch_errorCallback (get w)"
  shows "Channel_handleEvent get put run t w =
     bindR (run_calls run (channel_calls (get w) t) (put ((get w)\<lparr>ch_eventHanding := True\<rparr>) w))
       (\<lambda>w'. Inr (put ((get w')\<lparr>ch_eventHanding := False\<rparr>) w'))"
proof -
  define w0 where "w0 = put ((get w)\<lparr>ch_eventHanding := True\<rparr>) w"
  define same where "same v \<longleftrightarrow> ch_receivedEvents (get v) = ch_receivedEvents (get w) \<and>
      ch_readCallback (get v) = ch_readCallback (get w) \<and> ch_writeCallback (get v) = ch_writeCallback (get w) \<and>
      ch_closeCallback (get v) = ch_closeCallback (get w) \<and> ch_errorCallback (get v) = ch_errorCallback (get w)" for v
  have s0: "same w0" by (simp add: w0_def same_def get_put)
  have keep: "same v'" if s: "same v" and r: "call_if c (\<lambda>f. run (mk f)) cb v = Inr v'" for v v' c mk cb
  proof (cases "\<exists>f. c \<and> cb = Some f")
    case True
    then obtain f where "run (mk f) v = Inr v'" using r by auto
    from frame [OF this] show ?thesis using s unfolding same_def by (elim conjE) (intro conjI; simp only:)
  next
    case False
    then have "v' = v" using r by (cases c; cases cb) simp_all
    then show ?thesis using s by simp
  qed
  have bind_same: "bindR (call_if c (\<lambda>f. run (mk f)) cb v) k = bindR (call_if c (\<lambda>f. run (mk f)) cb v) k'"
    if "same v" "\<And>v'. same v' \<Longrightarrow> k v' = k' v'" for v c mk cb k k'
    using keep [OF that(1), of c mk cb] that(2) by (auto intro: bindR_cong)
  have e: "ch_receivedEvents (get v) = ch_receivedEvents (get w)" "ch_readCallback (get v) = ch_readCallback (get w)"
    "ch_writeCallback (get v) = ch_writeCallback (get w)" "ch_closeCallback (get v) = ch_closeCallback (get w)"
    "ch_errorCallback (get v) = ch_errorCallback (get w)" if "same v" for v
    using that by (simp_all add: same_def)
  have step: "call_if c (\<lambda>f. run (mk f)) cb v =
      run_calls run (if c then (case cb of None \<Rightarrow> [] | Some f \<Rightarrow> [mk f]) else []) v" for c mk cb v
    by (cases cb; cases c) (simp_all add: call_if_def bindR_def split: sum.split)
  let ?r = "ch_receivedEvents (get w)"
  let ?c1 = "?r AND POLLHUP \<noteq> 0 \<and> ?r AND POLLIN = 0" and ?c2 = "?r AND (POLLERR OR POLLNVAL) \<noteq> 0"
  let ?c3 = "?r AND (POLLIN OR POLLPRI) \<noteq> 0" and ?c4 = "?r AND POLLOUT \<noteq> 0"
  have "Channel_handleEvent get put run t w =
      bindR (call_if ?c1 (\<lambda>f. run (CallClose f)) (ch_closeCallback (get w)) w0) (\<lambda>w1.
      bindR (call_if ?c2 (\<lambda>f. run (CallError f)) (ch_errorCallback (get w)) w1) (\<lambda>w2.
      bindR (call_if ?c3 (\<lambda>f. run (CallRead f t)) (ch_readCallback (get w)) w2) (\<lambda>w3.
      bindR (call_if ?c4 (\<lambda>f. run (CallWrite f)) (ch_writeCallback (get w)) w3) (\<lambda>w4.
        Inr (put ((get w4)\<lparr>ch_eventHanding := False\<rparr>) w4)))))"
    unfolding Channel_handleEvent_def Let_def w0_def [symmetric] e [OF s0]
    by (rule bind_same [OF s0], simp only: e, rule bind_same, assumption, simp only: e,
        rule bind_same, assumption, simp only: e)
  then show ?thesis
    unfolding step channel_calls_def Let_def w0_def [symmetric] run_calls_append bindR_assoc by simp
qed

section \<open>Properties\<close>

text \<open>
  The dispatch of a report runs the close callback for a hang-up without readable data, then the
  error callback for an error or invalid descriptor, then the read callback (with the time of the
  report) for readable or urgent data, then the write callback, each if it is set and in this order,
  stopping at the first fault, and clears \<^verbatim>\<open>eventHanding_\<close> at the end, provided the callbacks leave
  the report and the set callbacks of the channel alone.
\<close>

theorem Channel_dispatches:
  assumes "\<And>ch w. get (put ch w) = ch"
    and "\<And>x w w'. run x w = Inr w' \<Longrightarrow>
      ch_receivedEvents (get w') = ch_receivedEvents (get w) \<and>
      ch_readCallback (get w') = ch_readCallback (get w) \<and> ch_writeCallback (get w') = ch_writeCallback (get w) \<and>
      ch_closeCallback (get w') = ch_closeCallback (get w) \<and> ch_errorCallback (get w') = ch_errorCallback (get w)"
  shows "Channel_handleEvent get put run t w =
     bindR (run_calls run (channel_calls (get w) t) (put ((get w)\<lparr>ch_eventHanding := True\<rparr>) w))
       (\<lambda>w'. Inr (put ((get w')\<lparr>ch_eventHanding := False\<rparr>) w'))"
  using assms by (rule Channel_handleEvent_calls)

theorem Channel_dispatches_witness:
  "Channel_handleEvent fst (\<lambda>ch w. (ch, snd w)) (\<lambda>x w. Inr (fst w, snd w @ [x])) Timestamp_default
     (((Channel_new True 3)\<lparr>ch_receivedEvents := 5, ch_readCallback := Some (1 :: nat), ch_writeCallback := Some 2\<rparr>), []) =
   Inr (((Channel_new True 3)\<lparr>ch_receivedEvents := 5, ch_readCallback := Some 1, ch_writeCallback := Some 2\<rparr>),
     [CallRead 1 Timestamp_default, CallWrite 2])"
proof -
  have bits: "(5 :: int) AND 16 = 0" "(5 :: int) AND (8 OR 32) = 0" "(5 :: int) AND (1 OR 2) \<noteq> 0" "(5 :: int) AND 4 \<noteq> 0"
    by code_simp+
  show ?thesis
    by (subst Channel_dispatches)
      (simp_all add: channel_calls_def Channel_new_def poll_bits bits)
qed

end
