(* ===== verification/Poller.thy ===== *)
theory Poller
  imports Channel
begin

text \<open>
  The event demultiplexer of poller.h and poller.cc: the array handed to poll(2), the map from
  descriptors to channels, and the index each channel keeps of its entry. It provides the interface
  of a registry of watched descriptors. The state of its operations is the store of channels beside
  the poller; what poll(2) returns is a parameter.
\<close>

section \<open>The interface of a registry\<close>

text \<open>
  What channels rely on: \<open>watched s\<close> is the set of descriptors the kernel is asked about, with the
  events and the channel each report goes to. The laws say what \<open>update\<close> and \<open>remove\<close> of a channel
  at address \<open>c\<close> do to it. \<open>known s c ch\<close> says that the channel object \<open>ch\<close> is at \<open>c\<close> and
  registered, \<open>fresh s c ch\<close> that it is not registered and its descriptor is free.
\<close>

locale registry =
  fixes inv :: "'s \<Rightarrow> bool"
    and watched :: "'s \<Rightarrow> int \<Rightarrow> (int \<times> nat) option"
    and known :: "'s \<Rightarrow> nat \<Rightarrow> int \<Rightarrow> bool"
    and fresh :: "'s \<Rightarrow> nat \<Rightarrow> int \<Rightarrow> bool"
    and set_interest :: "nat \<Rightarrow> int \<Rightarrow> 's \<Rightarrow> 's"
    and update :: "nat \<Rightarrow> 's \<Rightarrow> 's res"
    and remove :: "nat \<Rightarrow> 's \<Rightarrow> 's res"
  assumes add: "inv s \<Longrightarrow> fresh s c fd \<Longrightarrow> 0 < e \<Longrightarrow> e < 8 \<Longrightarrow>
      returns (update c (set_interest c e s)) (\<lambda>s'. inv s' \<and> known s' c fd \<and>
        watched s' = (watched s)(fd \<mapsto> (e, c)) \<and> (\<forall>c' fd'. known s c' fd' \<longrightarrow> known s' c' fd'))"
    and change: "inv s \<Longrightarrow> known s c fd \<Longrightarrow> 0 \<le> e \<Longrightarrow> e < 8 \<Longrightarrow>
      returns (update c (set_interest c e s)) (\<lambda>s'. inv s' \<and>
        watched s' = (watched s)(fd := if e = 0 then None else Some (e, c)) \<and>
        (\<forall>c' fd'. known s c' fd' \<longrightarrow> known s' c' fd'))"
    and drop: "inv s \<Longrightarrow> known s c fd \<Longrightarrow> watched s fd = None \<Longrightarrow>
      returns (remove c s) (\<lambda>s'. inv s' \<and> \<not> known s' c fd \<and> watched s' = watched s \<and>
        (\<forall>c' fd'. c' \<noteq> c \<longrightarrow> known s c' fd' \<longrightarrow> known s' c' fd'))"
begin

text \<open>A channel's whole life: registered, changed any number of times, disabled and removed.\<close>

fun changes :: "nat \<Rightarrow> int list \<Rightarrow> 's \<Rightarrow> 's res" where
  "changes c [] s = Inr s"
| "changes c (e # es) s = bindR (update c (set_interest c e s)) (changes c es)"

lemma changes_ok:
  assumes "inv s" "known s c fd" "watched s fd = Some (e, c)" "\<forall>x \<in> set es. 0 < x \<and> x < 8"
  shows "returns (changes c es s) (\<lambda>s'. inv s' \<and> known s' c fd \<and>
     watched s' = (watched s)(fd \<mapsto> (last (e # es), c)))"
  using assms
proof (induction es arbitrary: s e)
  case Nil
  then show ?case by (simp add: fun_upd_idem)
next
  case (Cons x es)
  show ?case
    unfolding changes.simps
  proof (rule returns_bind [OF change])
    fix s'
    assume s': "inv s' \<and> watched s' = (watched s)(fd := if x = 0 then None else Some (x, c)) \<and>
      (\<forall>c' fd'. known s c' fd' \<longrightarrow> known s' c' fd')"
    then have "returns (changes c es s') (\<lambda>s''. inv s'' \<and> known s'' c fd \<and>
        watched s'' = (watched s')(fd \<mapsto> (last (x # es), c)))"
      using Cons.prems by (intro Cons.IH) auto
    then show "returns (changes c es s') (\<lambda>s'. inv s' \<and> known s' c fd \<and>
        watched s' = (watched s)(fd \<mapsto> (last (e # x # es), c)))"
      using s' Cons.prems by (auto elim!: returns_mono)
  qed (use Cons.prems in auto)
qed

lemma changes_masks:
  assumes "inv s" "known s c fd" "watched s fd = (if e = 0 then None else Some (e, c))"
    and "\<forall>x \<in> set es. 0 \<le> x \<and> x < 8"
  shows "returns (changes c es s) (\<lambda>s'. inv s' \<and> known s' c fd \<and>
     watched s' = (watched s)(fd := let x = last (e # es) in if x = 0 then None else Some (x, c)))"
  using assms
proof (induction es arbitrary: s e)
  case Nil
  then show ?case by (simp add: fun_upd_idem)
next
  case (Cons x es)
  show ?case
    unfolding changes.simps
  proof (rule returns_bind [OF change])
    fix s'
    assume s': "inv s' \<and> watched s' = (watched s)(fd := if x = 0 then None else Some (x, c)) \<and>
      (\<forall>c' fd'. known s c' fd' \<longrightarrow> known s' c' fd')"
    then have "returns (changes c es s') (\<lambda>s''. inv s'' \<and> known s'' c fd \<and>
        watched s'' = (watched s')(fd := let x = last (x # es) in if x = 0 then None else Some (x, c)))"
      using Cons.prems by (intro Cons.IH) auto
    then show "returns (changes c es s') (\<lambda>s'. inv s' \<and> known s' c fd \<and>
        watched s' = (watched s)(fd := let x = last (e # x # es) in if x = 0 then None else Some (x, c)))"
      using s' Cons.prems by (auto elim!: returns_mono)
  qed (use Cons.prems in \<open>auto split: if_splits\<close>)
qed

lemma life:
  assumes "inv s" "fresh s c fd" "watched s fd = None" "0 < e" "e < 8" "\<forall>x \<in> set es. 0 < x \<and> x < 8"
  shows "returns (bindR (update c (set_interest c e s)) (\<lambda>s1.
       bindR (changes c es s1) (\<lambda>s2. bindR (update c (set_interest c 0 s2)) (remove c))))
     (\<lambda>s'. inv s' \<and> \<not> known s' c fd \<and> watched s' = watched s)"
proof (rule returns_bind [OF add])
  fix s1
  assume s1: "inv s1 \<and> known s1 c fd \<and> watched s1 = (watched s)(fd \<mapsto> (e, c)) \<and>
    (\<forall>c' fd'. known s c' fd' \<longrightarrow> known s1 c' fd')"
  show "returns (bindR (changes c es s1) (\<lambda>s2. bindR (update c (set_interest c 0 s2)) (remove c)))
      (\<lambda>s'. inv s' \<and> \<not> known s' c fd \<and> watched s' = watched s)"
  proof (rule returns_bind [OF changes_ok [of s1 c fd e]])
    fix s2
    assume s2: "inv s2 \<and> known s2 c fd \<and> watched s2 = (watched s1)(fd \<mapsto> (last (e # es), c))"
    show "returns (bindR (update c (set_interest c 0 s2)) (remove c))
        (\<lambda>s'. inv s' \<and> \<not> known s' c fd \<and> watched s' = watched s)"
    proof (rule returns_bind [OF change [where e = 0]])
      fix s3
      assume s3: "inv s3 \<and> watched s3 = (watched s2)(fd := if (0::int) = 0 then None else Some (0, c)) \<and>
        (\<forall>c' fd'. known s2 c' fd' \<longrightarrow> known s3 c' fd')"
      have "watched s3 = watched s"
        using s1 s2 s3 assms(3) by (auto simp: fun_eq_iff)
      then show "returns (remove c s3) (\<lambda>s'. inv s' \<and> \<not> known s' c fd \<and> watched s' = watched s)"
        using s2 s3 assms(3) by (intro returns_mono [OF drop]) auto
    qed (use s2 in auto)
  qed (use s1 assms in auto)
qed (use assms in auto)

end

section \<open>The code\<close>

record pollfd =
  pfd_fd :: int
  pfd_events :: int
  pfd_revents :: int

record Poller =
  po_pollfds :: "pollfd list"
  po_channels :: "int \<Rightarrow> nat option"

type_synonym 'cb reactor = "'cb store \<times> Poller"

definition Poller_new :: Poller where
  "Poller_new = \<lparr>po_pollfds = [], po_channels = (\<lambda>_. None)\<rparr>"

text \<open>\<^verbatim>\<open>static_cast<short>\<close>, \<^verbatim>\<open>static_cast<int>\<close>.\<close>

definition to_short :: "int \<Rightarrow> int" where
  "to_short x = (x + 2 ^ 15) mod 2 ^ 16 - 2 ^ 15"

text \<open>\<open>inLoop\<close> says whether the caller is in the thread of the loop; if not, the process is aborted.\<close>

definition Poller_updateChannel :: "bool \<Rightarrow> bool \<Rightarrow> nat \<Rightarrow> 'cb reactor \<Rightarrow> 'cb reactor res" where
  "Poller_updateChannel dbg inLoop c s =
     (if \<not> inLoop then Inl FatalAbort else
      case fst s c of
        None \<Rightarrow> Inl BadPointer
      | Some ch \<Rightarrow>
          let p = snd s; fd = ch_fd ch in
          if ch_index ch < 0
          then cassert dbg (po_channels p fd = None)
            (let pfd = \<lparr>pfd_fd = fd, pfd_events = to_short (ch_interestedEvents ch), pfd_revents = 0\<rparr>;
                 idx = int_of_size (length (po_pollfds p))
             in Inr ((fst s)(c \<mapsto> ch\<lparr>ch_index := idx\<rparr>),
                  p\<lparr>po_pollfds := po_pollfds p @ [pfd], po_channels := (po_channels p)(fd \<mapsto> c)\<rparr>))
          else cassert dbg (po_channels p fd \<noteq> None)
            (let idx = nat (ch_index ch) in
             if length (po_pollfds p) \<le> idx then Inl OutOfBounds
             else cassert dbg (pfd_fd (po_pollfds p ! idx) = - fd - 1)
               (let pfd = \<lparr>pfd_fd = (if Channel_isNoneEvent ch then - fd - 1 else fd),
                           pfd_events = to_short (ch_interestedEvents ch), pfd_revents = 0\<rparr>
                in Inr (fst s, p\<lparr>po_pollfds := (po_pollfds p)[idx := pfd]\<rparr>))))"

definition Poller_removeChannel :: "bool \<Rightarrow> bool \<Rightarrow> nat \<Rightarrow> 'cb reactor \<Rightarrow> 'cb reactor res" where
  "Poller_removeChannel dbg inLoop c s =
     (if \<not> inLoop then Inl FatalAbort else
      case fst s c of
        None \<Rightarrow> Inl BadPointer
      | Some ch \<Rightarrow>
          let p = snd s; fd = ch_fd ch; fds = po_pollfds p; idx = ch_index ch in
          cassert dbg (po_channels p fd \<noteq> None) (cassert dbg (po_channels p fd = Some c)
          (cassert dbg (Channel_isNoneEvent ch)
          (cassert dbg (0 \<le> idx \<and> idx < int_of_size (length fds))
          (if idx < 0 \<or> length fds \<le> nat idx then Inl OutOfBounds else
           cassert dbg (pfd_fd (fds ! nat idx) = - fd - 1 \<and> pfd_events (fds ! nat idx) = ch_interestedEvents ch)
           (let found = po_channels p fd \<noteq> None; channels = (po_channels p)(fd := None) in
            cassert dbg found
            (if nat idx = length fds - 1
             then Inr (fst s, p\<lparr>po_pollfds := butlast fds, po_channels := channels\<rparr>)
             else
               let lastFd = pfd_fd (last fds);
                   lastFd' = (if lastFd < 0 then - lastFd - 1 else lastFd);
                   swapped = fds[nat idx := last fds, length fds - 1 := fds ! nat idx] in
               case channels lastFd' of
                 None \<Rightarrow> Inl BadPointer
               | Some c' \<Rightarrow>
                   case fst s c' of
                     None \<Rightarrow> Inl BadPointer
                   | Some ch' \<Rightarrow>
                       Inr ((fst s)(c' \<mapsto> ch'\<lparr>ch_index := idx\<rparr>),
                         p\<lparr>po_pollfds := butlast swapped, po_channels := channels\<rparr>))))))))"

text \<open>The loop over the array stops when all \<open>numEvents\<close> reports have been seen.\<close>

fun Poller_fill :: "(int \<Rightarrow> nat option) \<Rightarrow> pollfd list \<Rightarrow> nat \<Rightarrow> 'cb store \<Rightarrow> nat list \<Rightarrow> ('cb store \<times> nat list) res" where
  "Poller_fill channels [] n st active = Inr (st, active)"
| "Poller_fill channels (pfd # fds) 0 st active = Inr (st, active)"
| "Poller_fill channels (pfd # fds) (Suc n) st active =
     (if 0 < pfd_revents pfd
      then case channels (pfd_fd pfd) of
             None \<Rightarrow> Poller_fill channels fds n st active
           | Some c \<Rightarrow>
               (case st c of
                  None \<Rightarrow> Inl BadPointer
                | Some ch \<Rightarrow> Poller_fill channels fds n
                    (st(c \<mapsto> Channel_setReceivedEvents (pfd_revents pfd) ch)) (active @ [c]))
      else Poller_fill channels fds (Suc n) st active)"

definition Poller_fillActiveChannels :: "nat \<Rightarrow> 'cb reactor \<Rightarrow> ('cb reactor \<times> nat list) res" where
  "Poller_fillActiveChannels numEvents s =
     bindR (Poller_fill (po_channels (snd s)) (po_pollfds (snd s)) numEvents (fst s) [])
       (\<lambda>(st, active). Inr ((st, snd s), active))"

text \<open>
  \<^verbatim>\<open>poll(2)\<close> reports an error, or the \<open>revents\<close> of every entry, of which it counts the nonzero ones.
  \<open>now\<close> is the time after it.
\<close>

datatype poll_result = PollErr int | PollOk "int list"

definition Poller_poll :: "poll_result \<Rightarrow> Timestamp \<Rightarrow> 'cb reactor \<Rightarrow> ('cb reactor \<times> Timestamp \<times> nat list option) res" where
  "Poller_poll r now s =
     (case r of
        PollErr e \<Rightarrow> Inr (s, now, None)
      | PollOk revs \<Rightarrow>
          let nready = length (filter (\<lambda>x. x \<noteq> 0) revs);
              s' = (fst s, (snd s)\<lparr>po_pollfds := map2 (\<lambda>p x. p\<lparr>pfd_revents := x\<rparr>) (po_pollfds (snd s)) revs\<rparr>)
          in if 0 < nready
             then bindR (Poller_fillActiveChannels nready s') (\<lambda>(s'', active). Inr (s'', now, Some active))
             else Inr (s', now, None))"

section \<open>Invariant\<close>

definition pfd_owner :: "pollfd \<Rightarrow> int" where
  "pfd_owner pfd = (if pfd_fd pfd < 0 then - pfd_fd pfd - 1 else pfd_fd pfd)"

text \<open>
  Entry \<open>i\<close> belongs to the channel whose index is \<open>i\<close>; it carries the events of that channel, and its
  descriptor is negative exactly when there are none.
\<close>

definition chan_fits :: "'cb Channel \<Rightarrow> nat \<Rightarrow> pollfd \<Rightarrow> bool" where
  "chan_fits ch i pfd \<longleftrightarrow>
     ch_fd ch = pfd_owner pfd \<and> ch_index ch = int i \<and> ch_loop ch \<and>
     pfd_events pfd = ch_interestedEvents ch \<and> 0 \<le> ch_interestedEvents ch \<and> ch_interestedEvents ch < 8 \<and>
     (pfd_fd pfd < 0 \<longleftrightarrow> ch_interestedEvents ch = 0)"

definition entry_ok :: "'cb reactor \<Rightarrow> nat \<Rightarrow> pollfd \<Rightarrow> bool" where
  "entry_ok s i pfd \<longleftrightarrow>
     (\<exists>c ch. po_channels (snd s) (pfd_owner pfd) = Some c \<and> fst s c = Some ch \<and> chan_fits ch i pfd)"

definition Poller_inv :: "'cb reactor \<Rightarrow> bool" where
  "Poller_inv s \<longleftrightarrow>
     length (po_pollfds (snd s)) < 2 ^ 31 - 1 \<and>
     (\<forall>i < length (po_pollfds (snd s)). entry_ok s i (po_pollfds (snd s) ! i)) \<and>
     (\<forall>fd c. po_channels (snd s) fd = Some c \<longrightarrow>
        (\<exists>i < length (po_pollfds (snd s)). pfd_owner (po_pollfds (snd s) ! i) = fd))"

text \<open>What poll(2) is asked about.\<close>

definition Poller_watched :: "'cb reactor \<Rightarrow> int \<Rightarrow> (int \<times> nat) option" where
  "Poller_watched s fd =
     (case po_channels (snd s) fd of
        None \<Rightarrow> None
      | Some c \<Rightarrow>
          (case fst s c of None \<Rightarrow> None
           | Some ch \<Rightarrow> let pfd = po_pollfds (snd s) ! nat (ch_index ch)
                        in if pfd_fd pfd = fd then Some (pfd_events pfd, c) else None))"

definition Poller_known :: "'cb reactor \<Rightarrow> nat \<Rightarrow> int \<Rightarrow> bool" where
  "Poller_known s c fd \<longleftrightarrow> 0 \<le> fd \<and> po_channels (snd s) fd = Some c"

definition Poller_fresh :: "'cb reactor \<Rightarrow> nat \<Rightarrow> int \<Rightarrow> bool" where
  "Poller_fresh s c fd \<longleftrightarrow> 0 \<le> fd \<and> po_channels (snd s) fd = None \<and> (\<forall>fd'. po_channels (snd s) fd' \<noteq> Some c) \<and>
     (\<exists>ch. fst s c = Some ch \<and> ch_fd ch = fd \<and> ch_index ch < 0 \<and> ch_loop ch) \<and>
     Suc (length (po_pollfds (snd s))) < 2 ^ 31 - 1"

definition set_interest :: "nat \<Rightarrow> int \<Rightarrow> 'cb store \<times> 'w \<Rightarrow> 'cb store \<times> 'w" where
  "set_interest c e s =
     (case fst s c of None \<Rightarrow> s | Some ch \<Rightarrow> ((fst s)(c \<mapsto> ch\<lparr>ch_interestedEvents := e\<rparr>), snd s))"

lemma to_short_exact: "0 \<le> x \<Longrightarrow> x < 8 \<Longrightarrow> to_short x = x"
  by (simp add: to_short_def)

lemma Poller_entry:
  assumes "Poller_inv s" "po_channels (snd s) fd = Some c"
  obtains i ch where "i < length (po_pollfds (snd s))" "pfd_owner (po_pollfds (snd s) ! i) = fd"
    "fst s c = Some ch" "ch_fd ch = fd" "ch_index ch = int i" "ch_loop ch"
    "pfd_events (po_pollfds (snd s) ! i) = ch_interestedEvents ch" "0 \<le> ch_interestedEvents ch"
    "ch_interestedEvents ch < 8" "pfd_fd (po_pollfds (snd s) ! i) < 0 \<longleftrightarrow> ch_interestedEvents ch = 0"
proof -
  obtain i where i: "i < length (po_pollfds (snd s))" "pfd_owner (po_pollfds (snd s) ! i) = fd"
    using assms unfolding Poller_inv_def by blast
  then have "entry_ok s i (po_pollfds (snd s) ! i)" using assms(1) unfolding Poller_inv_def by blast
  then show ?thesis
    using that [OF i] i assms(2) unfolding entry_ok_def chan_fits_def by auto
qed

lemma entry_ok_cong:
  assumes "entry_ok s i pfd"
    and "\<And>c. po_channels (snd s) (pfd_owner pfd) = Some c \<Longrightarrow>
      po_channels (snd s') (pfd_owner pfd) = Some c \<and> fst s' c = fst s c"
  shows "entry_ok s' i pfd"
  using assms unfolding entry_ok_def by metis

text \<open>An entry belongs to one registered channel only.\<close>

lemma Poller_owner_inj:
  assumes "Poller_inv s" "i < length (po_pollfds (snd s))" "j < length (po_pollfds (snd s))"
    "pfd_owner (po_pollfds (snd s) ! i) = pfd_owner (po_pollfds (snd s) ! j)"
  shows "i = j"
proof -
  have "entry_ok s i (po_pollfds (snd s) ! i)" "entry_ok s j (po_pollfds (snd s) ! j)"
    using assms unfolding Poller_inv_def by blast+
  then show ?thesis using assms(4) unfolding entry_ok_def chan_fits_def by auto
qed

lemma Poller_channel_fd:
  "Poller_inv s \<Longrightarrow> po_channels (snd s) fd = Some c \<Longrightarrow> \<exists>ch. fst s c = Some ch \<and> ch_fd ch = fd \<and> ch_loop ch"
  by (elim Poller_entry) auto

lemma Poller_address_inj:
  "Poller_inv s \<Longrightarrow> po_channels (snd s) fd = Some c \<Longrightarrow> po_channels (snd s) fd' = Some c \<Longrightarrow> fd = fd'"
  using Poller_channel_fd [of s fd c] Poller_channel_fd [of s fd' c] by auto

lemma pfd_owner_fd: "pfd_owner pfd = fd \<Longrightarrow> 0 \<le> fd \<Longrightarrow> pfd_fd pfd = (if pfd_fd pfd < 0 then - fd - 1 else fd)"
  by (auto simp: pfd_owner_def split: if_splits)

lemma pfd_owner_nonneg [simp]: "0 \<le> pfd_owner pfd"
  by (simp add: pfd_owner_def)

lemma Poller_watched_eq:
  assumes "Poller_inv s" "po_channels (snd s) fd = Some c" "fst s c = Some ch"
  shows "Poller_watched s fd = (if ch_interestedEvents ch = 0 then None else Some (ch_interestedEvents ch, c))"
proof -
  obtain i where i: "i < length (po_pollfds (snd s))" "pfd_owner (po_pollfds (snd s) ! i) = fd"
    "ch_fd ch = fd" "ch_index ch = int i" "pfd_events (po_pollfds (snd s) ! i) = ch_interestedEvents ch"
    "pfd_fd (po_pollfds (snd s) ! i) < 0 \<longleftrightarrow> ch_interestedEvents ch = 0"
    using Poller_entry [OF assms(1, 2)] assms(3) by (metis option.inject)
  then show ?thesis
    using assms pfd_owner_fd [OF i(2)] by (auto simp: Poller_watched_def pfd_owner_def split: if_splits)
qed

lemma Poller_watched_None: "po_channels (snd s) fd = None \<Longrightarrow> Poller_watched s fd = None"
  by (simp add: Poller_watched_def)

text \<open>
  The watched set of a state is determined by the map of channels and their masks, so the laws reduce
  to what an operation does to those.
\<close>

lemma Poller_watched_upd:
  assumes inv: "Poller_inv s" "Poller_inv s'" and chans: "po_channels (snd s') = (po_channels (snd s))(fd \<mapsto> c)"
    and ch: "fst s' c = Some ch"
    and others: "\<And>fd' c' ch'. fd' \<noteq> fd \<Longrightarrow> po_channels (snd s) fd' = Some c' \<Longrightarrow> fst s c' = Some ch' \<Longrightarrow>
      \<exists>ch''. fst s' c' = Some ch'' \<and> ch_interestedEvents ch'' = ch_interestedEvents ch'"
  shows "Poller_watched s' = (Poller_watched s)(fd :=
    if ch_interestedEvents ch = 0 then None else Some (ch_interestedEvents ch, c))"
proof (rule ext)
  fix x
  show "Poller_watched s' x = ((Poller_watched s)(fd :=
    if ch_interestedEvents ch = 0 then None else Some (ch_interestedEvents ch, c))) x"
  proof (cases "x = fd")
    case True
    then show ?thesis using Poller_watched_eq [OF inv(2), of fd c ch] chans ch by simp
  next
    case False
    show ?thesis
    proof (cases "po_channels (snd s) x")
      case None
      then show ?thesis using False chans by (simp add: Poller_watched_None)
    next
      case (Some c')
      then obtain ch' where ch': "fst s c' = Some ch'" using Poller_channel_fd [OF inv(1)] by blast
      then obtain ch'' where ch'': "fst s' c' = Some ch''" "ch_interestedEvents ch'' = ch_interestedEvents ch'"
        using others [OF False Some] by blast
      show ?thesis
        using False Some chans ch' ch'' Poller_watched_eq [OF inv(1) Some ch']
          Poller_watched_eq [OF inv(2), of x c' ch''] by simp
    qed
  qed
qed

lemma Poller_add:
  assumes inv: "Poller_inv s" and fresh: "Poller_fresh s c fd" and e: "0 < e" "e < 8"
  shows "returns (Poller_updateChannel dbg True c (set_interest c e s)) (\<lambda>s'. Poller_inv s' \<and> Poller_known s' c fd \<and>
     Poller_watched s' = (Poller_watched s)(fd \<mapsto> (e, c)) \<and> (\<forall>c' fd'. Poller_known s c' fd' \<longrightarrow> Poller_known s' c' fd'))"
proof -
  obtain ch where ch: "fst s c = Some ch" "ch_fd ch = fd" "ch_index ch < 0" "ch_loop ch"
    and f: "0 \<le> fd" "po_channels (snd s) fd = None" "\<And>fd'. po_channels (snd s) fd' \<noteq> Some c"
      "Suc (length (po_pollfds (snd s))) < 2 ^ 31 - 1"
    using fresh by (auto simp: Poller_fresh_def)
  let ?p = "snd s" and ?n = "length (po_pollfds (snd s))"
  let ?pfd = "\<lparr>pfd_fd = fd, pfd_events = e, pfd_revents = 0\<rparr>"
  let ?ch = "ch\<lparr>ch_interestedEvents := e, ch_index := int ?n\<rparr>"
  let ?s' = "((fst s)(c \<mapsto> ?ch), ?p\<lparr>po_pollfds := po_pollfds ?p @ [?pfd], po_channels := (po_channels ?p)(fd \<mapsto> c)\<rparr>)"
  have run: "Poller_updateChannel dbg True c (set_interest c e s) = Inr ?s'"
    using ch f e
    by (simp add: Poller_updateChannel_def set_interest_def Let_def to_short_exact int_of_size_exact cassert_holds)
  have old: "entry_ok ?s' i (po_pollfds ?p ! i)" if "i < ?n" for i
  proof (rule entry_ok_cong)
    show "entry_ok s i (po_pollfds ?p ! i)" using inv that by (simp add: Poller_inv_def)
  qed (use f in auto)
  have new: "entry_ok ?s' ?n ?pfd"
    using ch f e by (simp add: entry_ok_def chan_fits_def pfd_owner_def)
  then have inv': "Poller_inv ?s'"
    unfolding Poller_inv_def
  proof (intro conjI allI impI)
    show "length (po_pollfds (snd ?s')) < 2 ^ 31 - 1" using f(4) by simp
    show "entry_ok ?s' i (po_pollfds (snd ?s') ! i)" if "i < length (po_pollfds (snd ?s'))" for i
      using old [of i] new that by (cases "i = ?n") (auto simp: nth_append)
    show "\<exists>i < length (po_pollfds (snd ?s')). pfd_owner (po_pollfds (snd ?s') ! i) = fd'"
      if some: "po_channels (snd ?s') fd' = Some c'" for fd' c'
    proof (cases "fd' = fd")
      case True
      then show ?thesis using f(1) by (intro exI [of _ ?n]) (simp add: pfd_owner_def)
    next
      case False
      then obtain i where "i < ?n" "pfd_owner (po_pollfds ?p ! i) = fd'"
        using inv some unfolding Poller_inv_def by auto
      then show ?thesis by (intro exI [of _ i]) (simp add: nth_append)
    qed
  qed
  have w: "Poller_watched ?s' = (Poller_watched s)(fd := if ch_interestedEvents ?ch = 0 then None
      else Some (ch_interestedEvents ?ch, c))"
    by (rule Poller_watched_upd [OF inv inv']) (use f in auto)
  show ?thesis
    unfolding run returns_simps using inv' w f e by (auto simp: Poller_known_def)
qed

lemma Poller_inv_update_entry:
  assumes inv: "Poller_inv s" and i: "i < length (po_pollfds (snd s))"
    and st: "\<And>c'. c' \<noteq> c \<Longrightarrow> st c' = fst s c'" and c: "po_channels (snd s) fd = Some c"
    and own: "pfd_owner (po_pollfds (snd s) ! i) = fd" "pfd_owner pfd = fd"
    and fits: "st c = Some ch" "chan_fits ch i pfd"
  shows "Poller_inv (st, (snd s)\<lparr>po_pollfds := (po_pollfds (snd s))[i := pfd]\<rparr>)" (is "Poller_inv ?s'")
  unfolding Poller_inv_def
proof (intro conjI allI impI)
  show "length (po_pollfds (snd ?s')) < 2 ^ 31 - 1" using inv by (simp add: Poller_inv_def)
next
  fix j assume j: "j < length (po_pollfds (snd ?s'))"
  show "entry_ok ?s' j (po_pollfds (snd ?s') ! j)"
  proof (cases "j = i")
    case True
    then show ?thesis using i c own fits by (auto simp: entry_ok_def)
  next
    case False
    have "entry_ok s j (po_pollfds (snd s) ! j)" using inv j by (simp add: Poller_inv_def)
    moreover have "c' \<noteq> c" if "po_channels (snd s) (pfd_owner (po_pollfds (snd s) ! j)) = Some c'" for c'
    proof
      assume "c' = c"
      then have "pfd_owner (po_pollfds (snd s) ! j) = pfd_owner (po_pollfds (snd s) ! i)"
        using that c own(1) Poller_address_inj [OF inv] by metis
      then show False using Poller_owner_inj [OF inv] i j False by auto
    qed
    ultimately have "entry_ok ?s' j (po_pollfds (snd s) ! j)"
      using st by (elim entry_ok_cong) auto
    then show ?thesis using False by simp
  qed
next
  fix fd' c' assume "po_channels (snd ?s') fd' = Some c'"
  then obtain j where j: "j < length (po_pollfds (snd s))" "pfd_owner (po_pollfds (snd s) ! j) = fd'"
    using inv unfolding Poller_inv_def by auto
  then show "\<exists>j < length (po_pollfds (snd ?s')). pfd_owner (po_pollfds (snd ?s') ! j) = fd'"
    using own i by (intro exI [of _ j]) (cases "j = i"; simp)
qed

lemma Poller_change:
  assumes inv: "Poller_inv s" and known: "Poller_known s c fd" and e: "0 \<le> e" "e < 8"
    and dbg: "\<not> dbg \<or> Poller_watched s fd = None"
  shows "returns (Poller_updateChannel dbg True c (set_interest c e s)) (\<lambda>s'. Poller_inv s' \<and>
     Poller_watched s' = (Poller_watched s)(fd := if e = 0 then None else Some (e, c)) \<and>
     (\<forall>c' fd'. Poller_known s c' fd' \<longrightarrow> Poller_known s' c' fd'))"
proof -
  have fd: "0 \<le> fd" and chan: "po_channels (snd s) fd = Some c" using known by (simp_all add: Poller_known_def)
  obtain i ch where i: "i < length (po_pollfds (snd s))" "pfd_owner (po_pollfds (snd s) ! i) = fd"
    and ch: "fst s c = Some ch" "ch_fd ch = fd" "ch_index ch = int i" "ch_loop ch"
      "pfd_fd (po_pollfds (snd s) ! i) < 0 \<longleftrightarrow> ch_interestedEvents ch = 0"
    using Poller_entry [OF inv chan] by metis
  let ?p = "snd s" and ?ch = "ch\<lparr>ch_interestedEvents := e\<rparr>"
  let ?pfd = "\<lparr>pfd_fd = (if e = 0 then - fd - 1 else fd), pfd_events = e, pfd_revents = 0\<rparr>"
  let ?s' = "((fst s)(c \<mapsto> ?ch), ?p\<lparr>po_pollfds := (po_pollfds ?p)[i := ?pfd]\<rparr>)"
  have "dbg \<longrightarrow> pfd_fd (po_pollfds ?p ! i) = - fd - 1"
    using dbg ch pfd_owner_fd [OF i(2) fd] Poller_watched_eq [OF inv chan ch(1)] by (auto split: if_splits)
  then have run: "Poller_updateChannel dbg True c (set_interest c e s) = Inr ?s'"
    using ch chan e i
    by (simp add: Poller_updateChannel_def set_interest_def Let_def to_short_exact Channel_isNoneEvent_def cassert_def)
  have own: "pfd_owner ?pfd = fd" using fd by (simp add: pfd_owner_def)
  have "chan_fits ?ch i ?pfd" using ch e fd own by (simp add: chan_fits_def)
  then have inv': "Poller_inv ?s'"
    by (intro Poller_inv_update_entry [where st = "(fst s)(c \<mapsto> ?ch)", OF inv i(1) _ chan i(2) own]) simp_all
  have w: "Poller_watched ?s' = (Poller_watched s)(fd := if ch_interestedEvents ?ch = 0 then None
      else Some (ch_interestedEvents ?ch, c))"
  proof (rule Poller_watched_upd [OF inv inv'])
    show "po_channels (snd ?s') = (po_channels ?p)(fd \<mapsto> c)"
      using fun_upd_idem [of "po_channels ?p" fd, OF chan] by simp
    fix fd' c' ch' assume other: "fd' \<noteq> fd" "po_channels ?p fd' = Some c'" "fst s c' = Some ch'"
    then have "c' \<noteq> c" using Poller_address_inj [OF inv chan] by metis
    then show "\<exists>ch''. fst ?s' c' = Some ch'' \<and> ch_interestedEvents ch'' = ch_interestedEvents ch'"
      using other(3) by simp
  qed simp
  show ?thesis
    unfolding run returns_simps using inv' w by (auto simp: Poller_known_def)
qed

text \<open>Removing the entry at \<open>i\<close> by moving the last one there.\<close>

definition swap_pop :: "nat \<Rightarrow> 'a list \<Rightarrow> 'a list" where
  "swap_pop i xs = butlast (xs[i := last xs, length xs - 1 := xs ! i])"

lemma length_swap_pop [simp]: "length (swap_pop i xs) = length xs - 1"
  by (simp add: swap_pop_def)

lemma nth_swap_pop:
  "i < length xs - 1 \<Longrightarrow> j < length xs - 1 \<Longrightarrow> swap_pop i xs ! j = (if j = i then last xs else xs ! j)"
  by (auto simp: swap_pop_def nth_butlast)

lemma butlast_swap_pop: "xs \<noteq> [] \<Longrightarrow> i = length xs - 1 \<Longrightarrow> swap_pop i xs = butlast xs"
  by (auto simp: swap_pop_def intro!: nth_equalityI simp: nth_butlast nth_list_update)

lemma Poller_remove:
  assumes inv: "Poller_inv s" and known: "Poller_known s c fd" and off: "Poller_watched s fd = None"
  shows "returns (Poller_removeChannel dbg True c s) (\<lambda>s'. Poller_inv s' \<and> \<not> Poller_known s' c fd \<and>
     Poller_watched s' = Poller_watched s \<and>
     (\<forall>c' fd'. c' \<noteq> c \<longrightarrow> Poller_known s c' fd' \<longrightarrow> Poller_known s' c' fd'))"
proof -
  have fd: "0 \<le> fd" and chan: "po_channels (snd s) fd = Some c" using known by (simp_all add: Poller_known_def)
  obtain i ch where i: "i < length (po_pollfds (snd s))" "pfd_owner (po_pollfds (snd s) ! i) = fd"
    and ch: "fst s c = Some ch" "ch_fd ch = fd" "ch_index ch = int i"
      "pfd_events (po_pollfds (snd s) ! i) = ch_interestedEvents ch"
      "pfd_fd (po_pollfds (snd s) ! i) < 0 \<longleftrightarrow> ch_interestedEvents ch = 0"
    using Poller_entry [OF inv chan] by metis
  let ?p = "snd s" and ?n = "length (po_pollfds (snd s))"
  have none: "ch_interestedEvents ch = 0"
    using off Poller_watched_eq [OF inv chan ch(1)] by (simp split: if_splits)
  then have neg: "pfd_fd (po_pollfds ?p ! i) = - fd - 1"
    using ch pfd_owner_fd [OF i(2) fd] by auto
  have n: "?n < 2 ^ 31" using inv by (simp add: Poller_inv_def)
  let ?chans = "(po_channels ?p)(fd := None)"
  have last: "last (po_pollfds ?p) = po_pollfds ?p ! (?n - 1)" "?n - 1 < ?n"
    using i(1) by (cases "po_pollfds ?p = []"; simp add: last_conv_nth)+
  obtain c' ch' where c': "po_channels ?p (pfd_owner (last (po_pollfds ?p))) = Some c'" "fst s c' = Some ch'"
    "chan_fits ch' (?n - 1) (last (po_pollfds ?p))"
    using inv last unfolding Poller_inv_def entry_ok_def by metis
  define st where "st = (if i = ?n - 1 then fst s else (fst s)(c' \<mapsto> ch'\<lparr>ch_index := int i\<rparr>))"
  let ?s' = "(st, ?p\<lparr>po_pollfds := swap_pop i (po_pollfds ?p), po_channels := ?chans\<rparr>)"
  have other: "c' \<noteq> c" "pfd_owner (last (po_pollfds ?p)) \<noteq> fd" if "i \<noteq> ?n - 1"
  proof -
    show "pfd_owner (last (po_pollfds ?p)) \<noteq> fd"
      using that i last Poller_owner_inj [OF inv i(1) last(2)] by auto
    then show "c' \<noteq> c" using c'(1) chan Poller_address_inj [OF inv] by metis
  qed
  have run: "Poller_removeChannel dbg True c s = Inr ?s'"
  proof (cases "i = ?n - 1")
    case True
    then show ?thesis
      using ch chan none neg i n last
      by (auto simp: Poller_removeChannel_def Let_def Channel_isNoneEvent_def cassert_def int_of_size_exact st_def
          butlast_swap_pop)
  next
    case False
    then show ?thesis
      using ch chan none neg i n last c' other
      by (simp add: Poller_removeChannel_def Let_def Channel_isNoneEvent_def cassert_def int_of_size_exact st_def
          swap_pop_def flip: pfd_owner_def)
  qed
  have mask: "\<exists>ch''. st x = Some ch'' \<and> ch_interestedEvents ch'' = ch_interestedEvents y" if "fst s x = Some y" for x y
    using that c'(2) by (auto simp: st_def)
  have inv': "Poller_inv ?s'"
    unfolding Poller_inv_def
  proof (intro conjI allI impI)
    show "length (po_pollfds (snd ?s')) < 2 ^ 31 - 1" using inv by (auto simp: Poller_inv_def)
  next
    fix j assume j: "j < length (po_pollfds (snd ?s'))"
    show "entry_ok ?s' j (po_pollfds (snd ?s') ! j)"
    proof (cases "j = i")
      case True
      then have "i \<noteq> ?n - 1" using j by auto
      moreover from this have "chan_fits (ch'\<lparr>ch_index := int i\<rparr>) i (last (po_pollfds ?p))"
        using c'(3) by (simp add: chan_fits_def)
      ultimately show ?thesis
        using True j c' other by (auto simp: entry_ok_def st_def nth_swap_pop)
    next
      case False
      have ok: "entry_ok s j (po_pollfds ?p ! j)" using inv j by (simp add: Poller_inv_def)
      have own: "pfd_owner (po_pollfds ?p ! j) \<noteq> fd"
      proof
        assume "pfd_owner (po_pollfds ?p ! j) = fd"
        moreover have "j < ?n" using j by auto
        ultimately show False using i False Poller_owner_inj [OF inv, of j i] by simp
      qed
      have moved: "x \<noteq> c'" if "i \<noteq> ?n - 1" "po_channels ?p (pfd_owner (po_pollfds ?p ! j)) = Some x" for x
      proof
        assume "x = c'"
        then have "pfd_owner (po_pollfds ?p ! j) = pfd_owner (po_pollfds ?p ! (?n - 1))"
          using that(2) c'(1) last(1) Poller_address_inj [OF inv] by metis
        then show False using Poller_owner_inj [OF inv, of j "?n - 1"] j last(2) by auto
      qed
      have "entry_ok ?s' j (po_pollfds ?p ! j)"
        using ok own moved by (elim entry_ok_cong) (auto simp: st_def)
      moreover have "swap_pop i (po_pollfds ?p) ! j = po_pollfds ?p ! j"
      proof (cases "i = ?n - 1")
        case True
        then show ?thesis using i(1) j by (subst butlast_swap_pop) (auto simp: nth_butlast)
      next
        case ne: False
        then show ?thesis using i(1) j False by (subst nth_swap_pop) auto
      qed
      ultimately show ?thesis by simp
    qed
  next
    fix fd' x assume "po_channels (snd ?s') fd' = Some x"
    then have ne: "fd' \<noteq> fd" and x: "po_channels ?p fd' = Some x" by (auto split: if_splits)
    then obtain j where j: "j < ?n" "pfd_owner (po_pollfds ?p ! j) = fd'"
      using inv unfolding Poller_inv_def by blast
    then have ji: "j \<noteq> i" using ne i(2) by auto
    show "\<exists>k < length (po_pollfds (snd ?s')). pfd_owner (po_pollfds (snd ?s') ! k) = fd'"
    proof (cases "j = ?n - 1")
      case True
      then show ?thesis
        using j ji i(1) last(1) by (intro exI [of _ i]) (auto simp: nth_swap_pop)
    next
      case False
      show ?thesis
      proof (cases "i = ?n - 1")
        case True
        then have "swap_pop i (po_pollfds ?p) = butlast (po_pollfds ?p)"
          using j(1) by (intro butlast_swap_pop) auto
        then show ?thesis
          using True j ji by (intro exI [of _ j]) (auto simp: nth_butlast)
      next
        case ne: False
        then show ?thesis
          using j ji i(1) False by (intro exI [of _ j]) (auto simp: nth_swap_pop)
      qed
    qed
  qed
  have w: "Poller_watched ?s' x = Poller_watched s x" for x
  proof (cases "x = fd")
    case True
    then show ?thesis using off by (simp add: Poller_watched_None)
  next
    case False
    show ?thesis
    proof (cases "po_channels ?p x")
      case None
      then show ?thesis using False by (simp add: Poller_watched_None)
    next
      case (Some y)
      then obtain chy where chy: "fst s y = Some chy" using Poller_channel_fd [OF inv] by blast
      then obtain chz where chz: "st y = Some chz" "ch_interestedEvents chz = ch_interestedEvents chy"
        using mask by blast
      show ?thesis
        using False Some chz Poller_watched_eq [OF inv Some chy] Poller_watched_eq [OF inv', of x y chz] by simp
    qed
  qed
  show ?thesis
    unfolding run returns_simps using inv' w chan by (auto simp: Poller_known_def)
qed

interpretation poller: registry Poller_inv Poller_watched Poller_known Poller_fresh set_interest
    "Poller_updateChannel False True" "Poller_removeChannel False True"
proof (unfold_locales, goal_cases)
  case (1 s c fd e)
  then show ?case by (rule Poller_add)
next
  case (2 s c fd e)
  then show ?case using Poller_change [of s c fd e False] by simp
next
  case (3 s c fd)
  then show ?case by (rule Poller_remove)
qed

section \<open>Reports\<close>

definition reports :: "(int \<Rightarrow> nat option) \<Rightarrow> pollfd list \<Rightarrow> (nat \<times> int) list" where
  "reports channels fds =
     map (\<lambda>pfd. (the (channels (pfd_fd pfd)), pfd_revents pfd)) (filter (\<lambda>pfd. 0 < pfd_revents pfd) fds)"

lemma reports_Cons:
  "reports channels (pfd # fds) =
     (if 0 < pfd_revents pfd then [(the (channels (pfd_fd pfd)), pfd_revents pfd)] else []) @ reports channels fds"
  by (simp add: reports_def)

lemma Poller_fill_ok:
  assumes "\<forall>pfd \<in> set fds. 0 < pfd_revents pfd \<longrightarrow> (\<exists>c. channels (pfd_fd pfd) = Some c \<and> st c \<noteq> None)"
    and "distinct (map fst (reports channels fds))"
  shows "returns (Poller_fill channels fds (length (reports channels fds)) st active) (\<lambda>(st', active').
     active' = active @ map fst (reports channels fds) \<and>
     (\<forall>c r. (c, r) \<in> set (reports channels fds) \<longrightarrow> st' c = map_option (Channel_setReceivedEvents r) (st c)) \<and>
     (\<forall>c. c \<notin> fst ` set (reports channels fds) \<longrightarrow> st' c = st c))"
  using assms
proof (induction fds arbitrary: st active)
  case Nil
  then show ?case by (simp add: reports_def)
next
  case (Cons pfd fds)
  show ?case
  proof (cases "0 < pfd_revents pfd")
    case False
    then have r: "reports channels (pfd # fds) = reports channels fds" by (simp add: reports_Cons)
    have "Poller_fill channels (pfd # fds) (length (reports channels fds)) st active =
        Poller_fill channels fds (length (reports channels fds)) st active"
      using False by (cases "length (reports channels fds)"; cases fds) (auto simp: reports_def)
    then show ?thesis unfolding r using Cons r by (simp add: reports_Cons)
  next
    case True
    then obtain c ch where c: "channels (pfd_fd pfd) = Some c" "st c = Some ch" using Cons.prems(1) by auto
    have r: "reports channels (pfd # fds) = (c, pfd_revents pfd) # reports channels fds"
      using True c by (simp add: reports_Cons)
    let ?st = "st(c \<mapsto> Channel_setReceivedEvents (pfd_revents pfd) ch)"
    have notin: "c \<notin> fst ` set (reports channels fds)" and dist: "distinct (map fst (reports channels fds))"
      using Cons.prems(2) r by auto
    have found: "\<forall>pfd \<in> set fds. 0 < pfd_revents pfd \<longrightarrow> (\<exists>c. channels (pfd_fd pfd) = Some c \<and> ?st c \<noteq> None)"
    proof (intro ballI impI)
      fix p' assume "p' \<in> set fds" "0 < pfd_revents p'"
      then obtain x where "channels (pfd_fd p') = Some x" "st x \<noteq> None" using Cons.prems(1) by auto
      then show "\<exists>c. channels (pfd_fd p') = Some c \<and> ?st c \<noteq> None" by (intro exI [of _ x]) simp
    qed
    have run: "Poller_fill channels (pfd # fds) (length (reports channels (pfd # fds))) st active =
        Poller_fill channels fds (length (reports channels fds)) ?st (active @ [c])"
      using True c by (simp add: r)
    from Cons.IH [OF found dist, of "active @ [c]"]
    have "returns (Poller_fill channels (pfd # fds) (length (reports channels (pfd # fds))) st active) (\<lambda>(st', active').
        active' = (active @ [c]) @ map fst (reports channels fds) \<and>
        (\<forall>x r. (x, r) \<in> set (reports channels fds) \<longrightarrow> st' x = map_option (Channel_setReceivedEvents r) (?st x)) \<and>
        (\<forall>x. x \<notin> fst ` set (reports channels fds) \<longrightarrow> st' x = ?st x))"
      unfolding run .
    then show ?thesis
      by (rule returns_mono) (use notin c in \<open>force simp: r\<close>)
  qed
qed

text \<open>
  The contract of poll(2): one \<open>revents\<close> per entry, zero for the negative descriptors, which are
  ignored.
\<close>

definition poll_contract :: "pollfd list \<Rightarrow> int list \<Rightarrow> bool" where
  "poll_contract fds revs \<longleftrightarrow> length revs = length fds \<and>
     (\<forall>i < length fds. 0 \<le> revs ! i \<and> (pfd_fd (fds ! i) < 0 \<longrightarrow> revs ! i = 0))"

lemma chan_fits_revents [simp]: "chan_fits ch i (pfd\<lparr>pfd_revents := r\<rparr>) = chan_fits ch i pfd"
  "pfd_owner (pfd\<lparr>pfd_revents := r\<rparr>) = pfd_owner pfd"
  by (simp_all add: chan_fits_def pfd_owner_def)

lemma entry_ok_received:
  assumes "entry_ok s i pfd" "snd s' = (snd s)\<lparr>po_pollfds := x\<rparr>"
    and "\<And>c ch. fst s c = Some ch \<Longrightarrow> \<exists>r. fst s' c = Some (ch\<lparr>ch_receivedEvents := r\<rparr>)"
  shows "entry_ok s' i pfd"
proof -
  obtain c ch where c: "po_channels (snd s) (pfd_owner pfd) = Some c" "fst s c = Some ch" "chan_fits ch i pfd"
    using assms(1) by (auto simp: entry_ok_def)
  moreover obtain r where "fst s' c = Some (ch\<lparr>ch_receivedEvents := r\<rparr>)" using assms(3) [OF c(2)] by blast
  moreover have "chan_fits (ch\<lparr>ch_receivedEvents := r\<rparr>) i pfd" using c(3) by (simp add: chan_fits_def)
  ultimately show ?thesis using assms(2) by (auto simp: entry_ok_def)
qed

lemma Poller_poll_ok:
  assumes inv: "Poller_inv s" and kernel: "poll_contract (po_pollfds (snd s)) revs"
  defines "fds \<equiv> map2 (\<lambda>p x. p\<lparr>pfd_revents := x\<rparr>) (po_pollfds (snd s)) revs"
  defines "rs \<equiv> reports (po_channels (snd s)) fds"
  shows "returns (Poller_poll (PollOk revs) now s) (\<lambda>(s', now', active).
     Poller_inv s' \<and> now' = now \<and> (case active of None \<Rightarrow> [] | Some cs \<Rightarrow> cs) = map fst rs \<and> distinct (map fst rs) \<and>
     (\<forall>c r. (c, r) \<in> set rs \<longrightarrow> fst s' c = map_option (Channel_setReceivedEvents r) (fst s c)) \<and>
     (\<forall>c. c \<notin> fst ` set rs \<longrightarrow> fst s' c = fst s c))"
proof -
  let ?p = "snd s" and ?n = "length (po_pollfds (snd s))"
  have len: "length revs = ?n" "length fds = ?n" using kernel by (simp_all add: poll_contract_def fds_def)
  have nth: "fds ! i = (po_pollfds ?p ! i)\<lparr>pfd_revents := revs ! i\<rparr>" if "i < ?n" for i
    using that len by (simp add: fds_def)
  have ok: "entry_ok s i (fds ! i)" if "i < ?n" for i
    using inv that unfolding Poller_inv_def entry_ok_def by (auto simp: nth)
  have pos: "0 \<le> revs ! i" "0 < revs ! i \<Longrightarrow> 0 \<le> pfd_fd (fds ! i)" if "i < ?n" for i
    using kernel that nth [OF that] by (auto simp: poll_contract_def not_less [symmetric])
  have at: "\<exists>c ch. po_channels ?p (pfd_fd (fds ! i)) = Some c \<and> fst s c = Some ch \<and> ch_index ch = int i"
    if "i < ?n" "0 < pfd_revents (fds ! i)" for i
    using ok [OF that(1)] pos [OF that(1)] that(2) nth [OF that(1)]
    by (auto simp: entry_ok_def chan_fits_def pfd_owner_def)
  have found: "\<forall>pfd \<in> set fds. 0 < pfd_revents pfd \<longrightarrow> (\<exists>c. po_channels ?p (pfd_fd pfd) = Some c \<and> fst s c \<noteq> None)"
    using at len by (fastforce simp: in_set_conv_nth)
  have dist: "distinct (map fst rs)"
  proof -
    let ?is = "filter (\<lambda>i. 0 < pfd_revents (fds ! i)) [0..<?n]"
    have "filter (\<lambda>pfd. 0 < pfd_revents pfd) fds = map ((!) fds) ?is"
      by (subst map_nth [of fds, symmetric]) (simp only: filter_map o_def len)
    then have m: "map fst rs = map (\<lambda>i. the (po_channels ?p (pfd_fd (fds ! i)))) ?is"
      by (simp add: rs_def reports_def)
    have "inj_on (\<lambda>i. the (po_channels ?p (pfd_fd (fds ! i)))) (set ?is)"
    proof (rule inj_onI)
      fix i j assume "i \<in> set ?is" "j \<in> set ?is"
        "the (po_channels ?p (pfd_fd (fds ! i))) = the (po_channels ?p (pfd_fd (fds ! j)))"
      then show "i = j" using at [of i] at [of j] by fastforce
    qed
    then show ?thesis unfolding m by (simp add: distinct_map)
  qed
  have count: "length (filter (\<lambda>x. x \<noteq> 0) revs) = length rs"
  proof -
    have "map pfd_revents fds = revs" by (rule nth_equalityI) (simp_all add: len nth)
    then have "length (filter (\<lambda>x. x \<noteq> 0) revs) = length (filter (\<lambda>pfd. pfd_revents pfd \<noteq> 0) fds)"
      by (metis (no_types, lifting) filter_map length_map comp_apply filter_cong)
    also have "filter (\<lambda>pfd. pfd_revents pfd \<noteq> 0) fds = filter (\<lambda>pfd. 0 < pfd_revents pfd) fds"
      using pos(1) len nth by (intro filter_cong) (auto simp: in_set_conv_nth order.strict_iff_order)
    finally show ?thesis by (simp add: rs_def reports_def)
  qed
  have inv': "Poller_inv (st, ?p\<lparr>po_pollfds := fds\<rparr>)"
    if st: "\<And>c ch. fst s c = Some ch \<Longrightarrow> \<exists>r. st c = Some (ch\<lparr>ch_receivedEvents := r\<rparr>)" for st
    unfolding Poller_inv_def
  proof (intro conjI allI impI)
    show "length (po_pollfds (snd (st, ?p\<lparr>po_pollfds := fds\<rparr>))) < 2 ^ 31 - 1"
      using inv len by (simp add: Poller_inv_def)
    show "entry_ok (st, ?p\<lparr>po_pollfds := fds\<rparr>) i (po_pollfds (snd (st, ?p\<lparr>po_pollfds := fds\<rparr>)) ! i)"
      if "i < length (po_pollfds (snd (st, ?p\<lparr>po_pollfds := fds\<rparr>)))" for i
      using entry_ok_received [OF ok, of i "(st, ?p\<lparr>po_pollfds := fds\<rparr>)" fds] that len st by simp
    show "\<exists>i < length (po_pollfds (snd (st, ?p\<lparr>po_pollfds := fds\<rparr>))).
        pfd_owner (po_pollfds (snd (st, ?p\<lparr>po_pollfds := fds\<rparr>)) ! i) = fd"
      if some: "po_channels (snd (st, ?p\<lparr>po_pollfds := fds\<rparr>)) fd = Some c" for fd c
    proof -
      obtain i where "i < ?n" "pfd_owner (po_pollfds ?p ! i) = fd"
        using inv some unfolding Poller_inv_def by auto
      then show ?thesis using len nth by (intro exI [of _ i]) simp
    qed
  qed
  show ?thesis
  proof (cases "rs = []")
    case True
    then show ?thesis
      using count inv' [of "fst s"] dist
      by (force simp: Poller_poll_def Let_def fds_def [symmetric] intro: Channel.equality)
  next
    case False
    have "returns (Poller_fill (po_channels ?p) fds (length rs) (fst s) []) (\<lambda>(st', active').
        active' = [] @ map fst rs \<and>
        (\<forall>c r. (c, r) \<in> set rs \<longrightarrow> st' c = map_option (Channel_setReceivedEvents r) (fst s c)) \<and>
        (\<forall>c. c \<notin> fst ` set rs \<longrightarrow> st' c = fst s c))"
      using Poller_fill_ok [OF found, of "[]"] dist unfolding rs_def by blast
    then obtain st where fill: "Poller_fill (po_channels ?p) fds (length rs) (fst s) [] = Inr (st, map fst rs)"
      and upd: "\<forall>c r. (c, r) \<in> set rs \<longrightarrow> st c = map_option (Channel_setReceivedEvents r) (fst s c)"
        "\<forall>c. c \<notin> fst ` set rs \<longrightarrow> st c = fst s c"
      by (auto simp: returns_iff)
    have "\<exists>r. st c = Some (ch\<lparr>ch_receivedEvents := r\<rparr>)" if "fst s c = Some ch" for c ch
    proof (cases "c \<in> fst ` set rs")
      case True
      then obtain r where "(c, r) \<in> set rs" by force
      then show ?thesis using upd(1) that by (auto simp: Channel_setReceivedEvents_def)
    next
      case False
      then have "st c = Some (ch\<lparr>ch_receivedEvents := ch_receivedEvents ch\<rparr>)" using upd(2) that by simp
      then show ?thesis by blast
    qed
    then have "Poller_inv (st, ?p\<lparr>po_pollfds := fds\<rparr>)" by (rule inv')
    then show ?thesis
      using False count fill upd dist
      by (simp add: Poller_poll_def Let_def fds_def [symmetric] Poller_fillActiveChannels_def)
  qed
qed

section \<open>Channels through the poller\<close>

text \<open>\<^verbatim>\<open>EventLoop::updateChannel\<close> and \<^verbatim>\<open>removeChannel\<close> forward to the poller.\<close>

datatype chan_op = EnableReading | EnableWriting | DisableWriting | DisableAll

definition chan_op_run :: "bool \<Rightarrow> chan_op \<Rightarrow> nat \<Rightarrow> 'cb reactor \<Rightarrow> 'cb reactor res" where
  "chan_op_run dbg x =
     (case x of
        EnableReading \<Rightarrow> Channel_enableReading dbg (Poller_updateChannel dbg True)
      | EnableWriting \<Rightarrow> Channel_enableWriting dbg (Poller_updateChannel dbg True)
      | DisableWriting \<Rightarrow> Channel_disableWriting dbg (Poller_updateChannel dbg True)
      | DisableAll \<Rightarrow> Channel_disableAll dbg (Poller_updateChannel dbg True))"

fun chan_ops_run :: "bool \<Rightarrow> chan_op list \<Rightarrow> nat \<Rightarrow> 'cb reactor \<Rightarrow> 'cb reactor res" where
  "chan_ops_run dbg [] c s = Inr s"
| "chan_ops_run dbg (x # xs) c s = bindR (chan_op_run dbg x c s) (chan_ops_run dbg xs c)"

text \<open>The mask as a set of two wishes: reading and writing.\<close>

definition mask_of :: "bool \<times> bool \<Rightarrow> int" where
  "mask_of = (\<lambda>(r, w). (if r then 3 else 0) + (if w then 4 else 0))"

fun wish_after :: "bool \<times> bool \<Rightarrow> chan_op \<Rightarrow> bool \<times> bool" where
  "wish_after (r, w) EnableReading = (True, w)"
| "wish_after (r, w) EnableWriting = (r, True)"
| "wish_after (r, w) DisableWriting = (r, False)"
| "wish_after (r, w) DisableAll = (False, False)"

lemma mask_of_simps [simp]:
  "mask_of (True, w) = (if w then 7 else 3)" "mask_of (False, w) = (if w then 4 else 0)"
  by (simp_all add: mask_of_def)

lemma mask_of_bounds: "0 \<le> mask_of v" "mask_of v < 8"
  by (cases v; simp add: mask_of_def)+

text \<open>One operation is an update with the mask of the new wish.\<close>

lemma chan_op_run_eq:
  assumes "fst s c = Some ch" "ch_loop ch" "ch_interestedEvents ch = mask_of v"
  shows "chan_op_run dbg x c s = Poller_updateChannel dbg True c (set_interest c (mask_of (wish_after v x)) s)"
proof -
  obtain r w where v: "v = (r, w)" by (cases v)
  have bits: "(3 :: int) OR 3 = 3" "(3 :: int) OR 4 = 7" "(7 :: int) OR 3 = 7" "(7 :: int) OR 4 = 7"
    "(4 :: int) OR 3 = 7" "(4 :: int) OR 4 = 4"
    "(0 :: int) AND NOT 4 = 0" "(3 :: int) AND NOT 4 = 3" "(4 :: int) AND NOT 4 = 0" "(7 :: int) AND NOT 4 = 3"
    by code_simp+
  have "chan_op_run dbg x c s = Channel_setInterest dbg (Poller_updateChannel dbg True)
      (\<lambda>_. mask_of (wish_after v x)) c s"
    using assms v bits
    by (cases x; cases r; cases w)
      (simp_all add: chan_op_run_def Channel_enableReading_def Channel_enableWriting_def
        Channel_disableWriting_def Channel_disableAll_def Channel_setInterest_def)
  then show ?thesis
    using assms by (simp add: Channel_setInterest_simp set_interest_def)
qed

lemma Poller_update_mask:
  assumes "Poller_updateChannel dbg True c (set_interest c e s) = Inr s'" "fst s c = Some ch"
  shows "\<exists>ch'. fst s' c = Some ch' \<and> ch_interestedEvents ch' = e \<and> ch_loop ch' = ch_loop ch"
  using assms
  by (auto simp: Poller_updateChannel_def set_interest_def Let_def cassert_def split: if_splits)

lemma Poller_fresh_watched: "Poller_fresh s c fd \<Longrightarrow> Poller_watched s fd = None"
  by (simp add: Poller_fresh_def Poller_watched_None)

lemma chan_ops_ok:
  assumes "Poller_inv s" "Poller_known s c fd" "fst s c = Some ch" "ch_interestedEvents ch = mask_of v"
  shows "returns (chan_ops_run False xs c s) (\<lambda>s'. Poller_inv s' \<and> Poller_known s' c fd \<and>
     (let m = mask_of (foldl wish_after v xs) in
      (\<exists>ch'. fst s' c = Some ch' \<and> ch_interestedEvents ch' = m) \<and>
      Poller_watched s' = (Poller_watched s)(fd := if m = 0 then None else Some (m, c))))"
  using assms
proof (induction xs arbitrary: s ch v)
  case Nil
  then show ?case
    using Poller_watched_eq [of s fd c ch] by (auto simp: Poller_known_def Let_def fun_eq_iff)
next
  case (Cons x xs)
  let ?e = "mask_of (wish_after v x)"
  have loop: "ch_loop ch"
    using Poller_channel_fd [OF Cons.prems(1), of fd c] Cons.prems(2, 3) by (auto simp: Poller_known_def)
  have run: "chan_op_run False x c s = Poller_updateChannel False True c (set_interest c ?e s)"
    using chan_op_run_eq [OF Cons.prems(3) loop Cons.prems(4)] .
  have "returns (chan_op_run False x c s) (\<lambda>s1. Poller_inv s1 \<and>
      Poller_watched s1 = (Poller_watched s)(fd := if ?e = 0 then None else Some (?e, c)) \<and>
      (\<forall>c' fd'. Poller_known s c' fd' \<longrightarrow> Poller_known s1 c' fd'))"
    unfolding run using Poller_change [OF Cons.prems(1, 2), of ?e False] mask_of_bounds by simp
  then obtain s1 where s1: "chan_op_run False x c s = Inr s1" "Poller_inv s1"
    "Poller_watched s1 = (Poller_watched s)(fd := if ?e = 0 then None else Some (?e, c))" "Poller_known s1 c fd"
    using Cons.prems(2) by (auto simp: returns_iff)
  obtain ch1 where ch1: "fst s1 c = Some ch1" "ch_interestedEvents ch1 = ?e"
    using Poller_update_mask [OF s1(1) [unfolded run] Cons.prems(3)] by blast
  show ?case
    using Cons.IH [OF s1(2, 4) ch1] s1(1, 3) by (auto simp: Let_def elim!: returns_mono)
qed

section \<open>Properties\<close>

text \<open>
  C13. In a build without asserts the poller asks the kernel about exactly what its channels want:
  from a consistent state, any sequence of enabling and disabling on a registered channel returns
  without touching memory outside the array, keeps the state consistent, and leaves the descriptor
  watched for the resulting mask, not at all when it is empty, and every other descriptor as it was.
\<close>

theorem Poller_tracks_interest:
  assumes "Poller_inv s" "Poller_known s c fd" "fst s c = Some ch" "ch_interestedEvents ch = mask_of v"
  shows "returns (chan_ops_run False xs c s) (\<lambda>s'. Poller_inv s' \<and>
     (let m = mask_of (foldl wish_after v xs) in
      (\<exists>ch'. fst s' c = Some ch' \<and> ch_interestedEvents ch' = m) \<and>
      Poller_watched s' = (Poller_watched s)(fd := if m = 0 then None else Some (m, c))))"
  by (rule returns_mono [OF chan_ops_ok [OF assms]]) (auto simp: Let_def)

text \<open>A consistent state with one registered channel that reads.\<close>

definition one_channel :: "unit Channel" where
  "one_channel = (Channel_new True 5)\<lparr>ch_interestedEvents := 3, ch_index := 0\<rparr>"

definition one_reactor :: "unit reactor" where
  "one_reactor = ([1 \<mapsto> one_channel],
     \<lparr>po_pollfds = [\<lparr>pfd_fd = 5, pfd_events = 3, pfd_revents = 0\<rparr>], po_channels = [5 \<mapsto> 1]\<rparr>)"

lemma one_reactor_ok:
  "Poller_inv one_reactor" "Poller_known one_reactor 1 5" "fst one_reactor 1 = Some one_channel"
  "ch_interestedEvents one_channel = mask_of (True, False)"
  by (simp_all add: Poller_inv_def one_reactor_def one_channel_def Channel_new_def entry_ok_def chan_fits_def
      pfd_owner_def Poller_known_def)

theorem Poller_tracks_interest_witness:
  "returns (chan_ops_run False [EnableWriting, DisableWriting] 1 one_reactor)
     (\<lambda>s'. Poller_watched s' 5 = Some (3, 1))"
  using Poller_tracks_interest [OF one_reactor_ok, of "[EnableWriting, DisableWriting]"]
  by (auto simp: Let_def elim!: returns_mono)

text \<open>
  The life of a channel leaves no trace: a new channel that enables reading or writing, changes its
  mind any number of times, disables everything and is removed returns the poller to watching exactly
  what it watched before, in a build without asserts.
\<close>

theorem Poller_channel_life:
  assumes "Poller_inv s" "Poller_fresh s c fd" "fst s c = Some ch" "ch_interestedEvents ch = 0"
    and "x = EnableReading \<or> x = EnableWriting"
  shows "returns (bindR (chan_ops_run False (x # xs @ [DisableAll]) c s)
       (Channel_remove False (Poller_removeChannel False True) c))
     (\<lambda>s'. Poller_inv s' \<and> po_channels (snd s') fd = None \<and> Poller_watched s' = Poller_watched s)"
proof -
  let ?v = "wish_after (False, False) x" and ?e = "mask_of (wish_after (False, False) x)"
  have loop: "ch_loop ch" "ch_fd ch = fd" using assms(2, 3) by (auto simp: Poller_fresh_def)
  have e: "0 < ?e" "?e < 8" using assms(5) by auto
  have run: "chan_op_run False x c s = Poller_updateChannel False True c (set_interest c ?e s)"
    by (rule chan_op_run_eq) (use assms(3, 4) loop in simp_all)
  obtain s1 where s1: "chan_op_run False x c s = Inr s1" "Poller_inv s1" "Poller_known s1 c fd"
    "Poller_watched s1 = (Poller_watched s)(fd \<mapsto> (?e, c))"
    using poller.add [OF assms(1, 2) e] unfolding run by (auto simp: returns_iff)
  obtain ch1 where ch1: "fst s1 c = Some ch1" "ch_interestedEvents ch1 = ?e"
    using Poller_update_mask [OF s1(1) [unfolded run] assms(3)] by blast
  have final: "foldl wish_after ?v (xs @ [DisableAll]) = (False, False)"
    by (cases "foldl wish_after ?v xs") simp
  obtain s2 ch2 where s2: "chan_ops_run False (xs @ [DisableAll]) c s1 = Inr s2" "Poller_inv s2"
    "Poller_known s2 c fd" "fst s2 c = Some ch2" "ch_interestedEvents ch2 = 0"
    "Poller_watched s2 = (Poller_watched s1)(fd := None)"
    using chan_ops_ok [OF s1(2, 3) ch1, of "xs @ [DisableAll]"] unfolding final
    by (auto simp: returns_iff Let_def)
  have off: "Poller_watched s2 fd = None" using s2(6) by simp
  have "ch_loop ch2" using Poller_channel_fd [OF s2(2), of fd c] s2(3, 4) by (auto simp: Poller_known_def)
  then have remove: "Channel_remove False (Poller_removeChannel False True) c s2 = Poller_removeChannel False True c s2"
    using s2(4) by (simp add: Channel_remove_def)
  have same: "Poller_watched s2 = Poller_watched s"
    using s2(6) s1(4) Poller_fresh_watched [OF assms(2)] by (auto simp: fun_eq_iff)
  have gone: "po_channels (snd s') fd = None" if "Poller_removeChannel False True c s2 = Inr s'" for s'
  proof -
    have "ch_fd ch2 = fd" using Poller_channel_fd [OF s2(2), of fd c] s2(3, 4) by (auto simp: Poller_known_def)
    then show ?thesis
      using that s2(4) by (auto simp: Poller_removeChannel_def Let_def split: if_splits option.splits)
  qed
  show ?thesis
    using poller.drop [OF s2(2, 3) off] s1(1) s2(1) remove same gone by (auto simp: returns_iff)
qed

theorem Poller_channel_life_witness:
  "returns (bindR (chan_ops_run False [EnableReading, EnableWriting, DisableAll] 2
         ((fst one_reactor)(2 \<mapsto> Channel_new True 7), snd one_reactor))
       (Channel_remove False (Poller_removeChannel False True) 2))
     (\<lambda>s'. Poller_watched s' 5 = Some (3, 1) \<and> Poller_watched s' 7 = None)"
proof -
  let ?s = "((fst one_reactor)(2 \<mapsto> Channel_new True 7), snd one_reactor)"
  have inv: "Poller_inv ?s" and w: "Poller_watched ?s 5 = Some (3, 1)" "Poller_watched ?s 7 = None"
    by (simp_all add: Poller_inv_def one_reactor_def one_channel_def Channel_new_def entry_ok_def chan_fits_def
        pfd_owner_def Poller_watched_def)
  have fresh: "Poller_fresh ?s 2 7"
    by (simp add: Poller_fresh_def one_reactor_def Channel_new_def)
  show ?thesis
    using Poller_channel_life [OF inv fresh, of "Channel_new True 7" EnableReading "[EnableWriting]"] w
    by (auto simp: Channel_new_def elim!: returns_mono)
qed

text \<open>
  In a build with asserts the poller aborts whenever the interest of a channel that is watched
  changes: the assert in the branch for known channels expects a descriptor that is already negated.
  Enabling writing on a channel that reads is such a change.
\<close>

theorem Poller_update_aborts:
  assumes "Poller_inv s" "Poller_known s c fd" "Poller_watched s fd \<noteq> None"
  shows "chan_op_run True x c s = Inl AssertFail"
proof -
  have chan: "po_channels (snd s) fd = Some c" "0 \<le> fd" using assms(2) by (simp_all add: Poller_known_def)
  obtain i ch where i: "i < length (po_pollfds (snd s))" "pfd_owner (po_pollfds (snd s) ! i) = fd"
    and ch: "fst s c = Some ch" "ch_fd ch = fd" "ch_index ch = int i" "ch_loop ch"
      "pfd_fd (po_pollfds (snd s) ! i) < 0 \<longleftrightarrow> ch_interestedEvents ch = 0"
    using Poller_entry [OF assms(1) chan(1)] by metis
  have "pfd_fd (po_pollfds (snd s) ! i) \<noteq> - fd - 1"
    using assms(3) ch chan(2) Poller_watched_eq [OF assms(1) chan(1) ch(1)] by (auto split: if_splits)
  then have upd: "Poller_updateChannel True True c ((fst s)(c \<mapsto> ch\<lparr>ch_interestedEvents := e\<rparr>), snd s) = Inl AssertFail" for e
    using ch chan i(1) by (simp add: Poller_updateChannel_def Let_def)
  show ?thesis
    by (cases x)
      (simp_all add: chan_op_run_def Channel_enableReading_def Channel_enableWriting_def Channel_disableWriting_def
        Channel_disableAll_def Channel_setInterest_simp ch upd)
qed

theorem Poller_update_aborts_witness:
  "chan_op_run True EnableWriting 1 one_reactor = Inl AssertFail"
proof (rule Poller_update_aborts [OF one_reactor_ok(1, 2)])
  show "Poller_watched one_reactor 5 \<noteq> None"
    by (simp add: Poller_watched_def one_reactor_def one_channel_def Channel_new_def)
qed

text \<open>
  A poll hands the loop exactly the channels the kernel reported: under the contract of poll(2)
  the active list has the channel of each entry with events, in the order of the array and without
  repetition, each such channel holds the events reported for it, and no other channel changes.
\<close>

theorem Poller_poll_reports:
  assumes "Poller_inv s" "poll_contract (po_pollfds (snd s)) revs"
  shows "let rs = reports (po_channels (snd s)) (map2 (\<lambda>p x. p\<lparr>pfd_revents := x\<rparr>) (po_pollfds (snd s)) revs) in
     returns (Poller_poll (PollOk revs) now s) (\<lambda>(s', now', active).
       Poller_inv s' \<and> now' = now \<and> (case active of None \<Rightarrow> [] | Some cs \<Rightarrow> cs) = map fst rs \<and> distinct (map fst rs) \<and>
       (\<forall>c r. (c, r) \<in> set rs \<longrightarrow> fst s' c = map_option (Channel_setReceivedEvents r) (fst s c)) \<and>
       (\<forall>c. c \<notin> fst ` set rs \<longrightarrow> fst s' c = fst s c))"
  unfolding Let_def by (rule Poller_poll_ok [OF assms])

theorem Poller_poll_reports_witness:
  "returns (Poller_poll (PollOk [1]) Timestamp_default one_reactor) (\<lambda>(s', now', active).
     (case active of None \<Rightarrow> [] | Some cs \<Rightarrow> cs) = [1] \<and>
     fst s' 1 = Some (one_channel\<lparr>ch_receivedEvents := 1\<rparr>))"
proof -
  have "poll_contract (po_pollfds (snd one_reactor)) [1]"
    by (simp add: poll_contract_def one_reactor_def)
  from Poller_poll_reports [OF one_reactor_ok(1) this, of Timestamp_default] show ?thesis
    by (auto simp: Let_def reports_def one_reactor_def Channel_setReceivedEvents_def elim!: returns_mono)
qed

end
