(* ===== verification/Atomic.thy ===== *)
theory Atomic
  imports CInt
begin

text \<open>
  The atomic integers of atomic.h over the compiler's \<^verbatim>\<open>__sync\<close> operations. One operation is one
  step; \<open>w\<close> is the width of \<open>T\<close>. The builtins wrap, the sum \<^verbatim>\<open>getAndAdd(x) + x\<close> is
  ordinary signed arithmetic.
\<close>

type_synonym AtomicInteger = int

definition wrap :: "nat \<Rightarrow> int \<Rightarrow> int" where
  "wrap w x = (x + 2 ^ (w - 1)) mod 2 ^ w - 2 ^ (w - 1)"

definition sync_fetch_and_add :: "nat \<Rightarrow> int \<Rightarrow> int \<Rightarrow> int \<times> int" where
  "sync_fetch_and_add w v x = (v, wrap w (v + x))"

definition sync_val_compare_and_swap :: "int \<Rightarrow> int \<Rightarrow> int \<Rightarrow> int \<times> int" where
  "sync_val_compare_and_swap v old new = (v, if v = old then new else v)"

definition AtomicInteger_new :: AtomicInteger where
  "AtomicInteger_new = 0"

definition AtomicInteger_getAndAdd :: "nat \<Rightarrow> AtomicInteger \<Rightarrow> int \<Rightarrow> int \<times> AtomicInteger" where
  "AtomicInteger_getAndAdd w v x = sync_fetch_and_add w v x"

definition AtomicInteger_addAndGet :: "nat \<Rightarrow> AtomicInteger \<Rightarrow> int \<Rightarrow> (int \<times> AtomicInteger) res" where
  "AtomicInteger_addAndGet w v x =
     (let (old, v') = AtomicInteger_getAndAdd w v x in bindR (cint w (old + x)) (\<lambda>r. Inr (r, v')))"

definition AtomicInteger_incrementAndGet :: "nat \<Rightarrow> AtomicInteger \<Rightarrow> (int \<times> AtomicInteger) res" where
  "AtomicInteger_incrementAndGet w v = AtomicInteger_addAndGet w v 1"

definition AtomicInteger_decrementAndGet :: "nat \<Rightarrow> AtomicInteger \<Rightarrow> (int \<times> AtomicInteger) res" where
  "AtomicInteger_decrementAndGet w v = AtomicInteger_addAndGet w v (- 1)"

definition AtomicInteger_add :: "nat \<Rightarrow> AtomicInteger \<Rightarrow> int \<Rightarrow> AtomicInteger" where
  "AtomicInteger_add w v x = snd (AtomicInteger_getAndAdd w v x)"

definition AtomicInteger_increment :: "nat \<Rightarrow> AtomicInteger \<Rightarrow> AtomicInteger res" where
  "AtomicInteger_increment w v = bindR (AtomicInteger_incrementAndGet w v) (\<lambda>(_, v'). Inr v')"

definition AtomicInteger_decrement :: "nat \<Rightarrow> AtomicInteger \<Rightarrow> AtomicInteger res" where
  "AtomicInteger_decrement w v = bindR (AtomicInteger_decrementAndGet w v) (\<lambda>(_, v'). Inr v')"

definition AtomicInteger_get :: "AtomicInteger \<Rightarrow> int \<times> AtomicInteger" where
  "AtomicInteger_get v = sync_val_compare_and_swap v 0 0"

definition AtomicInteger_getAndSet :: "AtomicInteger \<Rightarrow> int \<Rightarrow> int \<times> AtomicInteger" where
  "AtomicInteger_getAndSet v new = (v, new)"

lemma wrap_exact: "0 < w \<Longrightarrow> in_int w x \<Longrightarrow> wrap w x = x"
proof -
  assume w: "0 < w" and x: "in_int w x"
  have "(2 :: int) ^ w = 2 ^ (w - 1) + 2 ^ (w - 1)"
    using w by (cases w) simp_all
  then have "(x + 2 ^ (w - 1)) mod 2 ^ w = x + 2 ^ (w - 1)"
    using x by (intro mod_pos_pos_trivial) (auto simp: in_int_def)
  then show ?thesis by (simp add: wrap_def)
qed

text \<open>Reading through the compare-and-swap neither returns another value nor changes it.\<close>

lemma AtomicInteger_get_eq [simp]: "AtomicInteger_get v = (v, v)"
  by (simp add: AtomicInteger_get_def sync_val_compare_and_swap_def)

lemma AtomicInteger_addAndGet_ok:
  "0 < w \<Longrightarrow> in_int w (v + x) \<Longrightarrow> AtomicInteger_addAndGet w v x = Inr (v + x, v + x)"
  by (simp add: AtomicInteger_addAndGet_def AtomicInteger_getAndAdd_def sync_fetch_and_add_def wrap_exact)

text \<open>Increments from any number of threads, in any order, hand out consecutive numbers.\<close>

fun increments :: "nat \<Rightarrow> nat \<Rightarrow> AtomicInteger \<Rightarrow> (int list \<times> AtomicInteger) res" where
  "increments w 0 v = Inr ([], v)"
| "increments w (Suc n) v =
     bindR (AtomicInteger_incrementAndGet w v) (\<lambda>(r, v'). bindR (increments w n v') (\<lambda>(rs, v''). Inr (r # rs, v'')))"

lemma increments_ok:
  "0 < w \<Longrightarrow> in_int w v \<Longrightarrow> in_int w (v + int n) \<Longrightarrow>
   increments w n v = Inr (map (\<lambda>i. v + 1 + int i) [0..<n], v + int n)"
proof (induction n arbitrary: v)
  case (Suc n)
  have "in_int w (v + 1)" using Suc.prems by (auto simp: in_int_def)
  moreover have "increments w n (v + 1) = Inr (map (\<lambda>i. v + 1 + 1 + int i) [0..<n], v + 1 + int n)"
    using Suc calculation by (simp add: algebra_simps)
  moreover have "[0..<Suc n] = 0 # map Suc [0..<n]"
    by (simp add: map_Suc_upt upt_conv_Cons)
  ultimately show ?case
    using Suc.prems(1)
    by (simp add: AtomicInteger_incrementAndGet_def AtomicInteger_addAndGet_ok o_def algebra_simps del: upt_Suc)
qed simp

end
