(* ===== verification/TimerQueue.thy ===== *)
theory TimerQueue
  imports Timestamp Atomic
begin

text \<open>
  The timers of timer.h, timerid.h, timerqueue.h and timerqueue.cc: timer objects on the heap, the set
  ordered by expiration, the set of active timers for cancelling, and the handler of the alarm, which
  runs the callbacks of the expired timers while these add and cancel timers. Times read from the
  clock, the addresses \<^verbatim>\<open>new\<close> returns and what the callbacks do are parameters.
\<close>

section \<open>State\<close>

record 'cb Timer =
  ti_callback :: 'cb
  ti_expiration :: Timestamp
  ti_interval :: rat
  ti_repeat :: bool
  ti_sequence :: int

text \<open>A handle: the address of the timer and its sequence number.\<close>

type_synonym TimerId = "nat \<times> int"

type_synonym Entry = "Timestamp \<times> nat"

text \<open>
  \<open>tq_calling\<close> is \<open>None\<close> until it is first assigned. \<open>tq_armed\<close> is the relative time last given to
  \<^verbatim>\<open>timerfd_settime\<close>.
\<close>

record 'cb TimerQueue =
  tq_heap :: "nat \<Rightarrow> 'cb Timer option"
  tq_numCreated :: AtomicInteger
  tq_timers :: "Entry list"
  tq_activeTimers :: "TimerId set"
  tq_calling :: "bool option"
  tq_cancelingTimers :: "TimerId set"
  tq_armed :: "(int \<times> int) option"

definition TimerQueue_new :: "'cb TimerQueue" where
  "TimerQueue_new =
     \<lparr>tq_heap = (\<lambda>_. None), tq_numCreated = AtomicInteger_new, tq_timers = [], tq_activeTimers = {},
      tq_calling = None, tq_cancelingTimers = {}, tq_armed = None\<rparr>"

definition Timer_new ::
  "'cb \<Rightarrow> Timestamp \<Rightarrow> rat \<Rightarrow> AtomicInteger \<Rightarrow> ('cb Timer \<times> AtomicInteger) res" where
  "Timer_new cb expires interval numCreated =
     bindR (AtomicInteger_incrementAndGet 64 numCreated) (\<lambda>(seq, n).
       Inr (\<lparr>ti_callback = cb, ti_expiration = expires, ti_interval = interval,
             ti_repeat = (0 < interval), ti_sequence = seq\<rparr>, n))"

definition Timer_restart :: "Timestamp \<Rightarrow> 'cb Timer \<Rightarrow> 'cb Timer res" where
  "Timer_restart now t =
     (if ti_repeat t then bindR (addTime now (ti_interval t)) (\<lambda>e. Inr (t\<lparr>ti_expiration := e\<rparr>))
      else Inr (t\<lparr>ti_expiration := Timestamp_invalid\<rparr>))"

section \<open>The ordered set\<close>

text \<open>\<^verbatim>\<open>std::pair\<close>'s order on (expiration, address) and \<^verbatim>\<open>std::set\<close> as a sorted list.\<close>

definition Entry_less :: "Entry \<Rightarrow> Entry \<Rightarrow> bool" where
  "Entry_less a b \<longleftrightarrow>
     Timestamp_less (fst a) (fst b) \<or> \<not> Timestamp_less (fst b) (fst a) \<and> snd a < snd b"

fun set_insert :: "Entry \<Rightarrow> Entry list \<Rightarrow> Entry list" where
  "set_insert e [] = [e]"
| "set_insert e (x # xs) =
     (if Entry_less e x then e # x # xs else if Entry_less x e then x # set_insert e xs else x # xs)"

definition set_erase :: "Entry \<Rightarrow> Entry list \<Rightarrow> Entry list" where
  "set_erase e xs = filter (\<lambda>x. Entry_less x e \<or> Entry_less e x) xs"

section \<open>The alarm\<close>

definition howMuchTimeFromNow :: "Timestamp \<Rightarrow> Timestamp \<Rightarrow> (int \<times> int) res" where
  "howMuchTimeFromNow clock expires =
     bindR (sub64 (Inr (ts_microSecondsFromEpoch expires)) (Inr (ts_microSecondsFromEpoch clock))) (\<lambda>us.
       let us' = (if us < 100 then 100 else us) in
       Inr (us' sdiv kMicroSecondsPerSecond, us' smod kMicroSecondsPerSecond * 1000))"

definition resetTimerfd :: "Timestamp \<Rightarrow> Timestamp \<Rightarrow> 'cb TimerQueue \<Rightarrow> 'cb TimerQueue res" where
  "resetTimerfd clock expiration q =
     bindR (howMuchTimeFromNow clock expiration) (\<lambda>ts. Inr (q\<lparr>tq_armed := Some ts\<rparr>))"

section \<open>Operations\<close>

definition TimerQueue_insert :: "nat \<Rightarrow> 'cb TimerQueue \<Rightarrow> (bool \<times> 'cb TimerQueue) res" where
  "TimerQueue_insert a q =
     (case tq_heap q a of
        None \<Rightarrow> Inl BadPointer
      | Some t \<Rightarrow>
          let expires = ti_expiration t;
              earliestChanged = (tq_timers q = [] \<or> Timestamp_less expires (fst (hd (tq_timers q))))
          in Inr (earliestChanged,
               q\<lparr>tq_timers := set_insert (expires, a) (tq_timers q),
                 tq_activeTimers := insert (a, ti_sequence t) (tq_activeTimers q)\<rparr>))"

definition TimerQueue_addTimerInLoop :: "Timestamp \<Rightarrow> nat \<Rightarrow> 'cb TimerQueue \<Rightarrow> 'cb TimerQueue res" where
  "TimerQueue_addTimerInLoop clock a q =
     bindR (TimerQueue_insert a q) (\<lambda>(earliestChanged, q').
       if earliestChanged
       then (case tq_heap q' a of
               None \<Rightarrow> Inl BadPointer
             | Some t \<Rightarrow> resetTimerfd clock (ti_expiration t) q')
       else Inr q')"

text \<open>\<open>a\<close> is the address \<^verbatim>\<open>new Timer\<close> returned; called in the thread of the loop.\<close>

definition TimerQueue_addTimer ::
  "Timestamp \<Rightarrow> nat \<Rightarrow> 'cb \<Rightarrow> Timestamp \<Rightarrow> rat \<Rightarrow> 'cb TimerQueue \<Rightarrow> (TimerId \<times> 'cb TimerQueue) res" where
  "TimerQueue_addTimer clock a cb expires interval q =
     bindR (Timer_new cb expires interval (tq_numCreated q)) (\<lambda>(t, n).
     bindR (TimerQueue_addTimerInLoop clock a (q\<lparr>tq_heap := (tq_heap q)(a \<mapsto> t), tq_numCreated := n\<rparr>)) (\<lambda>q'.
       Inr ((a, ti_sequence t), q')))"

definition TimerQueue_cancelTimer :: "bool \<Rightarrow> TimerId \<Rightarrow> 'cb TimerQueue \<Rightarrow> 'cb TimerQueue res" where
  "TimerQueue_cancelTimer dbg timerid q =
     (if timerid \<in> tq_activeTimers q
      then case tq_heap q (fst timerid) of
             None \<Rightarrow> Inl BadPointer
           | Some t \<Rightarrow>
               let timers' = set_erase (ti_expiration t, fst timerid) (tq_timers q) in
               cassert dbg (length (tq_timers q) - length timers' = 1)
                 (Inr (q\<lparr>tq_timers := timers', tq_heap := (tq_heap q)(fst timerid := None),
                         tq_activeTimers := tq_activeTimers q - {timerid}\<rparr>))
      else case tq_calling q of
             None \<Rightarrow> Inl Uninitialised
           | Some calling \<Rightarrow>
               if calling then Inr (q\<lparr>tq_cancelingTimers := insert timerid (tq_cancelingTimers q)\<rparr>)
               else Inr q)"

text \<open>
  The sentry has the largest address, which no timer has: the expired entries are those not after
  \<open>now\<close>.
\<close>

definition expired_end :: "Timestamp \<Rightarrow> Entry \<Rightarrow> bool" where
  "expired_end now e \<longleftrightarrow> Entry_less e (now, 2 ^ 64 - 1)"

fun erase_active :: "bool \<Rightarrow> Entry list \<Rightarrow> 'cb TimerQueue \<Rightarrow> 'cb TimerQueue res" where
  "erase_active dbg [] q = Inr q"
| "erase_active dbg ((_, a) # es) q =
     (case tq_heap q a of
        None \<Rightarrow> Inl BadPointer
      | Some t \<Rightarrow>
          cassert dbg ((a, ti_sequence t) \<in> tq_activeTimers q)
            (erase_active dbg es (q\<lparr>tq_activeTimers := tq_activeTimers q - {(a, ti_sequence t)}\<rparr>)))"

definition TimerQueue_getExpired :: "bool \<Rightarrow> Timestamp \<Rightarrow> 'cb TimerQueue \<Rightarrow> (Entry list \<times> 'cb TimerQueue) res" where
  "TimerQueue_getExpired dbg now q =
     (let expired = takeWhile (expired_end now) (tq_timers q);
          rest = dropWhile (expired_end now) (tq_timers q)
      in cassert dbg (rest = [] \<or> Timestamp_less now (fst (hd rest)))
        (bindR (erase_active dbg expired (q\<lparr>tq_timers := rest\<rparr>)) (\<lambda>q'. Inr (expired, q'))))"

fun reinsert :: "Timestamp \<Rightarrow> Entry list \<Rightarrow> 'cb TimerQueue \<Rightarrow> 'cb TimerQueue res" where
  "reinsert now [] q = Inr q"
| "reinsert now ((_, a) # es) q =
     (case tq_heap q a of
        None \<Rightarrow> Inl BadPointer
      | Some t \<Rightarrow>
          if ti_repeat t \<and> (a, ti_sequence t) \<notin> tq_cancelingTimers q
          then bindR (Timer_restart now t) (\<lambda>t'.
               bindR (TimerQueue_insert a (q\<lparr>tq_heap := (tq_heap q)(a \<mapsto> t')\<rparr>)) (\<lambda>(_, q').
                 reinsert now es q'))
          else reinsert now es (q\<lparr>tq_heap := (tq_heap q)(a := None)\<rparr>))"

definition TimerQueue_reset :: "Timestamp \<Rightarrow> Timestamp \<Rightarrow> Entry list \<Rightarrow> 'cb TimerQueue \<Rightarrow> 'cb TimerQueue res" where
  "TimerQueue_reset clock now expired q =
     bindR (reinsert now expired q) (\<lambda>q'.
       case tq_timers q' of
         [] \<Rightarrow> Inr q'
       | (_, a) # _ \<Rightarrow>
           (case tq_heap q' a of
              None \<Rightarrow> Inl BadPointer
            | Some t \<Rightarrow> if Timestamp_valid (ti_expiration t) then resetTimerfd clock (ti_expiration t) q' else Inr q'))"

text \<open>\<open>run\<close> is what a callback does, in the thread of the loop, to the timers.\<close>

fun run_expired ::
  "('cb \<Rightarrow> 'cb TimerQueue \<Rightarrow> 'cb TimerQueue res) \<Rightarrow> Entry list \<Rightarrow> 'cb TimerQueue \<Rightarrow> 'cb TimerQueue res" where
  "run_expired run [] q = Inr q"
| "run_expired run ((_, a) # es) q =
     (case tq_heap q a of
        None \<Rightarrow> Inl BadPointer
      | Some t \<Rightarrow> bindR (run (ti_callback t) q) (run_expired run es))"

definition TimerQueue_handleRead ::
  "bool \<Rightarrow> ('cb \<Rightarrow> 'cb TimerQueue \<Rightarrow> 'cb TimerQueue res) \<Rightarrow> Timestamp \<Rightarrow> Timestamp \<Rightarrow> 'cb TimerQueue \<Rightarrow>
     'cb TimerQueue res" where
  "TimerQueue_handleRead dbg run now clock q =
     bindR (TimerQueue_getExpired dbg now q) (\<lambda>(expired, q1).
     bindR (run_expired run expired (q1\<lparr>tq_calling := Some True, tq_cancelingTimers := {}\<rparr>)) (\<lambda>q2.
       TimerQueue_reset clock now expired (q2\<lparr>tq_calling := Some False\<rparr>)))"

definition TimerQueue_destroy :: "'cb TimerQueue \<Rightarrow> 'cb TimerQueue" where
  "TimerQueue_destroy q = q\<lparr>tq_heap := (\<lambda>a. if a \<in> snd ` set (tq_timers q) then None else tq_heap q a)\<rparr>"

section \<open>The order\<close>

text \<open>Entries ordered by time and address are a linear order.\<close>

lemma Entry_less_iff:
  "Entry_less a b \<longleftrightarrow>
     ts_microSecondsFromEpoch (fst a) < ts_microSecondsFromEpoch (fst b) \<or>
     fst a = fst b \<and> snd a < snd b"
  using Timestamp_less_total [of "fst a" "fst b"]
  by (auto simp: Entry_less_def Timestamp_less_def)

lemma Entry_less_irrefl [simp]: "\<not> Entry_less a a"
  by (simp add: Entry_less_iff)

lemma Entry_less_trans: "Entry_less a b \<Longrightarrow> Entry_less b c \<Longrightarrow> Entry_less a c"
  by (auto simp: Entry_less_iff)

lemma Entry_less_asym: "Entry_less a b \<Longrightarrow> \<not> Entry_less b a"
  by (auto simp: Entry_less_iff)

lemma Entry_less_total: "Entry_less a b \<or> a = b \<or> Entry_less b a"
  using Timestamp_less_total [of "fst a" "fst b"]
  by (cases a; cases b) (auto simp: Entry_less_iff Timestamp_less_def)

lemma set_set_insert: "set (set_insert e xs) = insert e (set xs)"
proof (induction xs)
  case (Cons x xs)
  then show ?case using Entry_less_total [of e x] by auto
qed simp

lemma sorted_set_insert: "sorted_wrt Entry_less xs \<Longrightarrow> sorted_wrt Entry_less (set_insert e xs)"
proof (induction xs)
  case (Cons x xs)
  then show ?case by (auto simp: set_set_insert intro: Entry_less_trans)
qed simp

lemma set_erase_eq: "set_erase e xs = filter (\<lambda>x. x \<noteq> e) xs"
  unfolding set_erase_def using Entry_less_total [of _ e] by (intro filter_cong) auto

lemma sorted_distinct: "sorted_wrt Entry_less xs \<Longrightarrow> distinct xs"
  by (induction xs) auto

lemma length_set_erase: "distinct xs \<Longrightarrow> e \<in> set xs \<Longrightarrow> length xs - length (set_erase e xs) = 1"
proof (induction xs)
  case (Cons x xs)
  show ?case
  proof (cases "x = e")
    case True
    then have "filter (\<lambda>y. y \<noteq> e) xs = xs" using Cons.prems by (intro filter_True) auto
    then show ?thesis using True by (simp add: set_erase_eq)
  next
    case False
    then show ?thesis using Cons by (simp add: set_erase_eq Suc_diff_le)
  qed
qed simp

section \<open>Invariant\<close>

text \<open>
  \<open>E\<close> are the entries taken out of the set by a running alarm and not yet put back or deleted. Every
  timer object is in the set or in \<open>E\<close>, once; nothing else is allocated.
\<close>

definition TimerQueue_inv :: "Entry list \<Rightarrow> 'cb TimerQueue \<Rightarrow> bool" where
  "TimerQueue_inv E q \<longleftrightarrow>
     sorted_wrt Entry_less (tq_timers q) \<and>
     (\<forall>(w, a) \<in> set (tq_timers q). \<exists>t. tq_heap q a = Some t \<and> ti_expiration t = w) \<and>
     inj_on snd (set (tq_timers q)) \<and> distinct (map snd E) \<and>
     snd ` set E \<inter> snd ` set (tq_timers q) = {} \<and>
     dom (tq_heap q) = snd ` set E \<union> snd ` set (tq_timers q) \<and>
     (\<forall>a \<in> dom (tq_heap q). a < 2 ^ 64 - 1) \<and>
     tq_activeTimers q = {(a, s). a \<in> snd ` set (tq_timers q) \<and> (\<exists>t. tq_heap q a = Some t \<and> ti_sequence t = s)} \<and>
     (\<forall>a t. tq_heap q a = Some t \<longrightarrow> ti_sequence t \<le> tq_numCreated q)"

text \<open>What the allocator promises: the address it returns, if it returns one, is not in use.\<close>

definition alloc_contract :: "((nat \<Rightarrow> 'cb Timer option) \<Rightarrow> nat option) \<Rightarrow> bool" where
  "alloc_contract alloc \<longleftrightarrow> (\<forall>h a. alloc h = Some a \<longrightarrow> h a = None \<and> a < 2 ^ 64 - 1)"

lemma TimerQueue_inv_new: "TimerQueue_inv [] TimerQueue_new"
  by (simp add: TimerQueue_inv_def TimerQueue_new_def)

lemma TimerQueue_invD:
  assumes "TimerQueue_inv E q"
  shows "sorted_wrt Entry_less (tq_timers q)"
    "\<And>w a. (w, a) \<in> set (tq_timers q) \<Longrightarrow> \<exists>t. tq_heap q a = Some t \<and> ti_expiration t = w"
    "inj_on snd (set (tq_timers q))" "distinct (map snd E)"
    "snd ` set E \<inter> snd ` set (tq_timers q) = {}"
    "dom (tq_heap q) = snd ` set E \<union> snd ` set (tq_timers q)"
    "\<And>a. a \<in> dom (tq_heap q) \<Longrightarrow> a < 2 ^ 64 - 1"
    "tq_activeTimers q = {(a, s). a \<in> snd ` set (tq_timers q) \<and> (\<exists>t. tq_heap q a = Some t \<and> ti_sequence t = s)}"
    "\<And>a t. tq_heap q a = Some t \<Longrightarrow> ti_sequence t \<le> tq_numCreated q"
proof -
  note parts = assms [unfolded TimerQueue_inv_def]
  have 2: "\<forall>(w, a) \<in> set (tq_timers q). \<exists>t. tq_heap q a = Some t \<and> ti_expiration t = w"
    using parts by (elim conjE)
  have 7: "\<forall>a \<in> dom (tq_heap q). a < 2 ^ 64 - 1"
    using parts by (elim conjE)
  have 9: "\<forall>a t. tq_heap q a = Some t \<longrightarrow> ti_sequence t \<le> tq_numCreated q"
    using parts by (elim conjE)
  show "\<And>w a. (w, a) \<in> set (tq_timers q) \<Longrightarrow> \<exists>t. tq_heap q a = Some t \<and> ti_expiration t = w"
    using 2 by fastforce
  show "\<And>a. a \<in> dom (tq_heap q) \<Longrightarrow> a < 2 ^ 64 - 1" using 7 by (rule bspec)
  show "\<And>a t. tq_heap q a = Some t \<Longrightarrow> ti_sequence t \<le> tq_numCreated q" using 9 by simp
qed (insert assms [unfolded TimerQueue_inv_def], (elim conjE, assumption)+)

lemma TimerQueue_inv_fresh:
  assumes "TimerQueue_inv E q" "tq_heap q a = None"
  shows "a \<notin> snd ` set E" "a \<notin> snd ` set (tq_timers q)"
  using TimerQueue_invD(6) [OF assms(1)] assms(2) by blast+

lemma TimerQueue_insert_ok:
  assumes inv: "TimerQueue_inv ((w, a) # E) q" and t: "tq_heap q a = Some t"
  shows "returns (TimerQueue_insert a q) (\<lambda>(b, q'). TimerQueue_inv E q' \<and>
     q' = q\<lparr>tq_timers := set_insert (ti_expiration t, a) (tq_timers q),
           tq_activeTimers := insert (a, ti_sequence t) (tq_activeTimers q)\<rparr>)"
proof -
  let ?e = "(ti_expiration t, a)"
  let ?q = "q\<lparr>tq_timers := set_insert ?e (tq_timers q),
      tq_activeTimers := insert (a, ti_sequence t) (tq_activeTimers q)\<rparr>"
  have a: "a \<notin> snd ` set (tq_timers q)" "a \<notin> snd ` set E"
    using inv by (auto simp: TimerQueue_inv_def)
  have parts: "sorted_wrt Entry_less (tq_timers q)"
    "\<forall>(w, a) \<in> set (tq_timers q). \<exists>t. tq_heap q a = Some t \<and> ti_expiration t = w"
    "inj_on snd (set (tq_timers q))" "distinct (map snd E)" "snd ` set E \<inter> snd ` set (tq_timers q) = {}"
    "dom (tq_heap q) = insert a (snd ` set E \<union> snd ` set (tq_timers q))" "\<forall>a \<in> dom (tq_heap q). a < 2 ^ 64 - 1"
    "tq_activeTimers q = {(a, s). a \<in> snd ` set (tq_timers q) \<and> (\<exists>t. tq_heap q a = Some t \<and> ti_sequence t = s)}"
    "\<forall>a t. tq_heap q a = Some t \<longrightarrow> ti_sequence t \<le> tq_numCreated q"
    using inv by (auto simp: TimerQueue_inv_def)
  have "TimerQueue_inv E ?q"
    unfolding TimerQueue_inv_def
  proof (intro conjI)
    show "sorted_wrt Entry_less (tq_timers ?q)" using parts(1) by (simp add: sorted_set_insert)
    show "\<forall>(w, a) \<in> set (tq_timers ?q). \<exists>t. tq_heap ?q a = Some t \<and> ti_expiration t = w"
      using parts(2) t by (auto simp: set_set_insert)
    show "inj_on snd (set (tq_timers ?q))" using parts(3) a by (auto simp: set_set_insert inj_on_insert)
    show "snd ` set E \<inter> snd ` set (tq_timers ?q) = {}" using parts(5) a by (auto simp: set_set_insert)
    show "dom (tq_heap ?q) = snd ` set E \<union> snd ` set (tq_timers ?q)" using parts(6) by (auto simp: set_set_insert)
    show "\<forall>x \<in> dom (tq_heap ?q). x < 2 ^ 64 - 1" using parts(7) by simp
    show "tq_activeTimers ?q = {(a, s). a \<in> snd ` set (tq_timers ?q) \<and> (\<exists>t. tq_heap ?q a = Some t \<and> ti_sequence t = s)}"
      using parts(8) t by (auto simp: set_set_insert)
    show "\<forall>a t. tq_heap ?q a = Some t \<longrightarrow> ti_sequence t \<le> tq_numCreated ?q" using parts(9) by simp
  qed (fact parts)
  then show ?thesis using t by (simp add: TimerQueue_insert_def Let_def)
qed

text \<open>Arming the alarm changes nothing else; its arithmetic can overflow.\<close>

lemma TimerQueue_inv_armed [simp]: "TimerQueue_inv E (q\<lparr>tq_armed := x\<rparr>) = TimerQueue_inv E q"
  "TimerQueue_inv E (q\<lparr>tq_calling := c\<rparr>) = TimerQueue_inv E q"
  "TimerQueue_inv E (q\<lparr>tq_cancelingTimers := s\<rparr>) = TimerQueue_inv E q"
  by (simp_all add: TimerQueue_inv_def)

lemma resetTimerfd_ok:
  "outcome {Overflow} (resetTimerfd clock e q) (\<lambda>q'. \<exists>ts. q' = q\<lparr>tq_armed := Some ts\<rparr>)"
  by (auto simp: resetTimerfd_def howMuchTimeFromNow_def cint_def Let_def)

section \<open>Operations keep the invariant\<close>

text \<open>What adding and cancelling leave alone while an alarm is being handled.\<close>

definition keeps :: "Entry list \<Rightarrow> 'cb TimerQueue \<Rightarrow> 'cb TimerQueue \<Rightarrow> bool" where
  "keeps E q q' \<longleftrightarrow>
     (\<forall>a \<in> snd ` set E. tq_heap q' a = tq_heap q a) \<and> tq_calling q' = tq_calling q \<and>
     tq_cancelingTimers q \<subseteq> tq_cancelingTimers q' \<and> tq_numCreated q \<le> tq_numCreated q'"

lemma keeps_refl [simp]: "keeps E q q"
  by (simp add: keeps_def)

lemma keeps_heap: "keeps E q q' \<Longrightarrow> a \<in> snd ` set E \<Longrightarrow> tq_heap q' a = tq_heap q a"
  unfolding keeps_def by blast

lemma keeps_trans: "keeps E q q' \<Longrightarrow> keeps E q' q'' \<Longrightarrow> keeps E q q''"
  by (auto simp: keeps_def)

lemma Timer_new_ok:
  "outcome {Overflow} (Timer_new cb e i n) (\<lambda>(t, n'). ti_sequence t = n + 1 \<and> n' = n + 1 \<and>
     ti_callback t = cb \<and> ti_expiration t = e \<and> ti_interval t = i \<and> ti_repeat t = (0 < i))"
proof (cases "in_int 64 (n + 1)")
  case True
  then show ?thesis
    using AtomicInteger_addAndGet_ok [of 64 n 1]
    by (simp add: Timer_new_def AtomicInteger_incrementAndGet_def del: in_int_64)
next
  case False
  then show ?thesis
    by (simp add: Timer_new_def AtomicInteger_incrementAndGet_def AtomicInteger_addAndGet_def
        AtomicInteger_getAndAdd_def sync_fetch_and_add_def cint_def del: in_int_64)
qed

lemma TimerQueue_inv_alloc:
  fixes t :: "'cb Timer"
  assumes inv: "TimerQueue_inv E q" and a: "tq_heap q a = None" "a < 2 ^ 64 - 1"
    and t: "ti_sequence t = tq_numCreated q + 1"
  shows "TimerQueue_inv ((w, a) # E) (q\<lparr>tq_heap := (tq_heap q)(a \<mapsto> t), tq_numCreated := tq_numCreated q + 1\<rparr>)"
proof -
  let ?q = "q\<lparr>tq_heap := (tq_heap q)(a \<mapsto> t), tq_numCreated := tq_numCreated q + 1\<rparr>"
  note D = TimerQueue_invD [OF inv] and fresh = TimerQueue_inv_fresh [OF inv a(1)]
  have ne: "(w', b) \<in> set (tq_timers q) \<Longrightarrow> b \<noteq> a" for w' b using fresh(2) by force
  show ?thesis
    unfolding TimerQueue_inv_def
  proof (intro conjI)
    show "\<forall>(w, a) \<in> set (tq_timers ?q). \<exists>t. tq_heap ?q a = Some t \<and> ti_expiration t = w"
      using D(2) ne by fastforce
    show "distinct (map snd ((w, a) # E))" using D(4) fresh(1) by simp
    show "snd ` set ((w, a) # E) \<inter> snd ` set (tq_timers ?q) = {}" using D(5) fresh(2) by simp
    show "dom (tq_heap ?q) = snd ` set ((w, a) # E) \<union> snd ` set (tq_timers ?q)" using D(6) by simp
    show "\<forall>x \<in> dom (tq_heap ?q). x < 2 ^ 64 - 1" using D(7) a(2) by simp
    show "tq_activeTimers ?q =
        {(a, s). a \<in> snd ` set (tq_timers ?q) \<and> (\<exists>t. tq_heap ?q a = Some t \<and> ti_sequence t = s)}"
      by (auto simp: D(8) dest: ne)
    show "\<forall>b u. tq_heap ?q b = Some u \<longrightarrow> ti_sequence u \<le> tq_numCreated ?q"
      using D(9) t by (auto intro: order.trans [of _ "tq_numCreated q"])
  qed (use D(1, 3) in simp_all)
qed

lemma TimerQueue_addTimer_ok:
  assumes inv: "TimerQueue_inv E q" and a: "tq_heap q a = None" "a < 2 ^ 64 - 1"
  shows "outcome {Overflow} (TimerQueue_addTimer clock a cb expires interval q) (\<lambda>(tid, q').
     TimerQueue_inv E q' \<and> keeps E q q' \<and> tid = (a, tq_numCreated q + 1) \<and> tid \<in> tq_activeTimers q' \<and>
     tq_activeTimers q \<subseteq> tq_activeTimers q')"
  unfolding TimerQueue_addTimer_def
proof (rule outcome_bind [OF Timer_new_ok], clarify)
  fix t :: "'a Timer" and n
  assume t: "ti_sequence t = tq_numCreated q + 1"
  let ?n = "tq_numCreated q + 1"
  let ?q1 = "q\<lparr>tq_heap := (tq_heap q)(a \<mapsto> t), tq_numCreated := ?n\<rparr>"
  note fresh = TimerQueue_inv_fresh(1) [OF inv a(1)]
  have inv1: "TimerQueue_inv ((ti_expiration t, a) # E) ?q1"
    using TimerQueue_inv_alloc [OF inv a t] .
  let ?q2 = "?q1\<lparr>tq_timers := set_insert (ti_expiration t, a) (tq_timers ?q1),
      tq_activeTimers := insert (a, ti_sequence t) (tq_activeTimers ?q1)\<rparr>"
  obtain b where ins: "TimerQueue_insert a ?q1 = Inr (b, ?q2)"
    and inv2: "TimerQueue_inv E ?q2"
    using TimerQueue_insert_ok [OF inv1, of t] by (auto simp: returns_iff)
  have keep: "keeps E q (?q2\<lparr>tq_armed := x\<rparr>)" "keeps E q ?q2" for x
    using fresh by (auto simp: keeps_def)
  have "outcome {Overflow} (TimerQueue_addTimerInLoop clock a ?q1) (\<lambda>q'. TimerQueue_inv E q' \<and> keeps E q q' \<and>
      (a, ?n) \<in> tq_activeTimers q' \<and> tq_activeTimers q \<subseteq> tq_activeTimers q')"
  proof (cases b)
    case True
    then have "TimerQueue_addTimerInLoop clock a ?q1 = resetTimerfd clock (ti_expiration t) ?q2"
      unfolding TimerQueue_addTimerInLoop_def ins by simp
    then show ?thesis
      using inv2 keep t by (auto intro!: outcome_mono [OF resetTimerfd_ok])
  next
    case False
    then have "TimerQueue_addTimerInLoop clock a ?q1 = Inr ?q2"
      unfolding TimerQueue_addTimerInLoop_def ins by simp
    then show ?thesis using inv2 keep t by auto
  qed
  then show "outcome {Overflow}
      (bindR (TimerQueue_addTimerInLoop clock a ?q1) (\<lambda>q'. Inr ((a, ti_sequence t), q')))
      (\<lambda>(tid, q'). TimerQueue_inv E q' \<and> keeps E q q' \<and> tid = (a, tq_numCreated q + 1) \<and> tid \<in> tq_activeTimers q' \<and>
        tq_activeTimers q \<subseteq> tq_activeTimers q')"
    by (rule outcome_bind) (simp add: t)
qed

lemma TimerQueue_cancelTimer_ok:
  assumes inv: "TimerQueue_inv E q"
  shows "outcome (if tq_calling q = None then {Uninitialised} else {}) (TimerQueue_cancelTimer dbg tid q) (\<lambda>q'.
     TimerQueue_inv E q' \<and> keeps E q q' \<and> tid \<notin> tq_activeTimers q' \<and>
     (tid \<in> tq_activeTimers q \<or> tq_calling q = Some False \<or> tid \<in> tq_cancelingTimers q'))"
proof (cases "tid \<in> tq_activeTimers q")
  case False
  then show ?thesis
    using inv by (auto simp: TimerQueue_cancelTimer_def keeps_def split: option.splits)
next
  case True
  obtain a s where tid: "tid = (a, s)" by (cases tid)
  note parts = TimerQueue_invD [OF inv]
  obtain t where t: "tq_heap q a = Some t" "ti_sequence t = s" and at: "a \<in> snd ` set (tq_timers q)"
    using True parts(8) tid by auto
  then obtain w where w: "(w, a) \<in> set (tq_timers q)" "ti_expiration t = w" using parts(2) by force
  have only: "(w', a) \<in> set (tq_timers q) \<Longrightarrow> w' = w" for w' using parts(2) t w by force
  have erase: "set (set_erase (w, a) (tq_timers q)) = set (tq_timers q) - {(w, a)}"
    by (auto simp: set_erase_eq)
  have gone: "snd ` (set (tq_timers q) - {(w, a)}) = snd ` set (tq_timers q) - {a}"
    using only by force
  let ?q = "q\<lparr>tq_timers := set_erase (w, a) (tq_timers q), tq_heap := (tq_heap q)(a := None),
      tq_activeTimers := tq_activeTimers q - {tid}\<rparr>"
  have run: "TimerQueue_cancelTimer dbg tid q = Inr ?q"
    using True t w length_set_erase [OF sorted_distinct [OF parts(1)] w(1)]
    by (simp add: TimerQueue_cancelTimer_def tid Let_def cassert_def)
  have "TimerQueue_inv E ?q"
    unfolding TimerQueue_inv_def
  proof (intro conjI)
    show "sorted_wrt Entry_less (tq_timers ?q)" using parts(1) by (simp add: set_erase_eq sorted_wrt_filter)
    show "\<forall>(w, a) \<in> set (tq_timers ?q). \<exists>t. tq_heap ?q a = Some t \<and> ti_expiration t = w"
      using parts(2) only by (auto simp: erase)
    show "inj_on snd (set (tq_timers ?q))" using parts(3) by (simp add: erase inj_on_diff)
    show "snd ` set E \<inter> snd ` set (tq_timers ?q) = {}" using parts(5) by (auto simp: erase)
    show "dom (tq_heap ?q) = snd ` set E \<union> snd ` set (tq_timers ?q)"
      using parts(5, 6) at by (auto simp: erase gone)
    show "\<forall>x \<in> dom (tq_heap ?q). x < 2 ^ 64 - 1" using parts(7) by auto
    show "tq_activeTimers ?q = {(a, s). a \<in> snd ` set (tq_timers ?q) \<and> (\<exists>t. tq_heap ?q a = Some t \<and> ti_sequence t = s)}"
      using parts(8) t by (auto simp: erase gone tid)
    show "\<forall>a t. tq_heap ?q a = Some t \<longrightarrow> ti_sequence t \<le> tq_numCreated ?q" using parts(9) by auto
  qed (fact parts)
  moreover have "keeps E q ?q" using parts(5) at by (auto simp: keeps_def)
  ultimately show ?thesis using True by (simp add: run)
qed

section \<open>The alarm keeps the invariant\<close>

text \<open>An entry is before the sentry exactly when it is due.\<close>

definition due :: "Timestamp \<Rightarrow> Entry \<Rightarrow> bool" where
  "due now e \<longleftrightarrow> \<not> Timestamp_less now (fst e)"

lemma expired_end_iff: "snd e < 2 ^ 64 - 1 \<Longrightarrow> expired_end now e \<longleftrightarrow> due now e"
proof -
  have "ts_microSecondsFromEpoch (fst e) < ts_microSecondsFromEpoch now \<or> fst e = now \<or>
      ts_microSecondsFromEpoch now < ts_microSecondsFromEpoch (fst e)"
    using Timestamp_less_total [of "fst e" now] unfolding Timestamp_less_def by blast
  then show "snd e < 2 ^ 64 - 1 \<Longrightarrow> expired_end now e \<longleftrightarrow> due now e"
    unfolding expired_end_def due_def Entry_less_iff Timestamp_less_def fst_conv snd_conv by auto
qed

lemma due_mono: "Entry_less a b \<Longrightarrow> due now b \<Longrightarrow> due now a"
  by (auto simp: due_def Entry_less_iff Timestamp_less_def)

lemma sorted_split_due:
  "sorted_wrt Entry_less xs \<Longrightarrow> \<forall>e \<in> set xs. snd e < 2 ^ 64 - 1 \<Longrightarrow>
   takeWhile (expired_end now) xs = filter (due now) xs \<and>
   dropWhile (expired_end now) xs = filter (\<lambda>e. \<not> due now e) xs"
proof (induction xs)
  case (Cons x xs)
  have all: "\<not> due now x \<Longrightarrow> \<forall>y \<in> set xs. \<not> due now y" 
    using Cons.prems(1) due_mono [of x _ now] unfolding sorted_wrt.simps by blast
  have x: "expired_end now x = due now x" using Cons.prems(2) by (intro expired_end_iff) simp
  show ?case
  proof (cases "due now x")
    case True
    then show ?thesis using Cons x by simp
  next
    case False
    then show ?thesis using all x by simp
  qed
qed simp

lemma erase_active_ok:
  "distinct (map snd es) \<Longrightarrow>
   \<forall>a \<in> snd ` set es. \<exists>t. tq_heap q a = Some t \<and> (a, ti_sequence t) \<in> tq_activeTimers q \<Longrightarrow>
   erase_active dbg es q = Inr (q\<lparr>tq_activeTimers :=
     {(a, s) \<in> tq_activeTimers q. \<not> (a \<in> snd ` set es \<and> (\<exists>t. tq_heap q a = Some t \<and> ti_sequence t = s))}\<rparr>)"
proof (induction es arbitrary: q)
  case Nil
  then show ?case by simp
next
  case (Cons e es)
  obtain w a where e: "e = (w, a)" by (cases e)
  obtain t where t: "tq_heap q a = Some t" "(a, ti_sequence t) \<in> tq_activeTimers q" using Cons.prems e by auto
  let ?q = "q\<lparr>tq_activeTimers := tq_activeTimers q - {(a, ti_sequence t)}\<rparr>"
  have "a \<notin> snd ` set es" using Cons.prems(1) e by simp
  then have "\<forall>b \<in> snd ` set es. \<exists>t. tq_heap ?q b = Some t \<and> (b, ti_sequence t) \<in> tq_activeTimers ?q"
    using Cons.prems(2) by (intro ballI) (use e in \<open>auto simp del: image_iff\<close>)
  then have "erase_active dbg es ?q = Inr (?q\<lparr>tq_activeTimers :=
     {(a, s) \<in> tq_activeTimers ?q. \<not> (a \<in> snd ` set es \<and> (\<exists>t. tq_heap ?q a = Some t \<and> ti_sequence t = s))}\<rparr>)"
    using Cons.IH [of ?q] Cons.prems(1) by simp
  moreover have "{(b, s) \<in> tq_activeTimers ?q. \<not> (b \<in> snd ` set es \<and> (\<exists>t. tq_heap ?q b = Some t \<and> ti_sequence t = s))} =
      {(b, s) \<in> tq_activeTimers q. \<not> (b \<in> snd ` set (e # es) \<and> (\<exists>t. tq_heap q b = Some t \<and> ti_sequence t = s))}"
    using t e by auto
  ultimately show ?case using t by (simp add: e cassert_def)
qed

text \<open>The due entries leave the set and the active timers; their timers stay allocated.\<close>

lemma TimerQueue_getExpired_ok:
  assumes inv: "TimerQueue_inv [] q"
  shows "returns (TimerQueue_getExpired dbg now q) (\<lambda>(es, q').
     es = filter (due now) (tq_timers q) \<and> TimerQueue_inv es q' \<and> tq_heap q' = tq_heap q \<and>
     tq_timers q' = filter (\<lambda>e. \<not> due now e) (tq_timers q))"
proof -
  note D = TimerQueue_invD [OF inv]
  let ?es = "filter (due now) (tq_timers q)" and ?rest = "filter (\<lambda>e. \<not> due now e) (tq_timers q)"
  have addr: "\<forall>e \<in> set (tq_timers q). snd e < 2 ^ 64 - 1" using D(6, 7) by auto
  note split = sorted_split_due [OF D(1) addr, of now, THEN conjunct1]
    sorted_split_due [OF D(1) addr, of now, THEN conjunct2]
  have heap: "\<exists>t. tq_heap q a = Some t" if a_in: "a \<in> snd ` set (tq_timers q)" for a using D(2) a_in by fastforce
  have "\<forall>a \<in> snd ` set ?es. \<exists>t. tq_heap (q\<lparr>tq_timers := ?rest\<rparr>) a = Some t \<and>
      (a, ti_sequence t) \<in> tq_activeTimers (q\<lparr>tq_timers := ?rest\<rparr>)"
    using heap by (force simp: D(8))
  moreover have dist: "distinct (map snd (tq_timers q))"
    using D(1, 3) by (simp add: distinct_map sorted_distinct)
  ultimately obtain A where A: "erase_active dbg ?es (q\<lparr>tq_timers := ?rest\<rparr>) =
      Inr (q\<lparr>tq_timers := ?rest, tq_activeTimers := A\<rparr>)"
    and Adef: "A = {(a, s) \<in> tq_activeTimers q. \<not> (a \<in> snd ` set ?es \<and> (\<exists>t. tq_heap q a = Some t \<and> ti_sequence t = s))}"
    using erase_active_ok [of ?es "q\<lparr>tq_timers := ?rest\<rparr>" dbg] by (auto simp: distinct_map_filter)
  let ?q = "q\<lparr>tq_timers := ?rest, tq_activeTimers := A\<rparr>"
  have apart: "snd ` set ?es \<inter> snd ` set ?rest = {}"
    using D(3) by (auto dest: inj_onD)
  have un: "snd ` set ?es \<union> snd ` set ?rest = snd ` set (tq_timers q)" by auto
  have "TimerQueue_inv ?es ?q"
    unfolding TimerQueue_inv_def
  proof (intro conjI)
    show "sorted_wrt Entry_less (tq_timers ?q)" using D(1) by (simp add: sorted_wrt_filter)
    show "\<forall>(w, a) \<in> set (tq_timers ?q). \<exists>t. tq_heap ?q a = Some t \<and> ti_expiration t = w"
      using D(2) by auto
    show "inj_on snd (set (tq_timers ?q))" using D(3) by (auto intro: inj_on_subset)
    show "distinct (map snd ?es)" using dist by (rule distinct_map_filter)
    show "snd ` set ?es \<inter> snd ` set (tq_timers ?q) = {}" using apart by simp
    show "dom (tq_heap ?q) = snd ` set ?es \<union> snd ` set (tq_timers ?q)" using D(6) un by simp
    show "\<forall>a \<in> dom (tq_heap ?q). a < 2 ^ 64 - 1" using D(7) by simp
    have "A = {(a, s). a \<in> snd ` set ?rest \<and> (\<exists>t. tq_heap q a = Some t \<and> ti_sequence t = s)}"
    proof (intro set_eqI)
      fix x :: TimerId
      obtain a s where x: "x = (a, s)" by (cases x)
      have "a \<in> snd ` set (tq_timers q) \<and> a \<notin> snd ` set ?es \<longleftrightarrow> a \<in> snd ` set ?rest"
        using apart un by blast
      then show "x \<in> A \<longleftrightarrow> x \<in> {(a, s). a \<in> snd ` set ?rest \<and> (\<exists>t. tq_heap q a = Some t \<and> ti_sequence t = s)}"
        unfolding Adef x D(8) by simp blast
    qed
    then show "tq_activeTimers ?q =
        {(a, s). a \<in> snd ` set (tq_timers ?q) \<and> (\<exists>t. tq_heap ?q a = Some t \<and> ti_sequence t = s)}"
      by simp
    show "\<forall>a t. tq_heap ?q a = Some t \<longrightarrow> ti_sequence t \<le> tq_numCreated ?q" using D(9) by simp
  qed
  moreover have "?rest = [] \<or> Timestamp_less now (fst (hd ?rest))"
    using hd_in_set [of ?rest] by (auto simp: due_def)
  ultimately show ?thesis
    by (simp add: TimerQueue_getExpired_def split A cassert_holds)
qed

text \<open>Outside an alarm the heap determines the set and the active timers.\<close>

lemma TimerQueue_inv_heap:
  assumes inv: "TimerQueue_inv [] q"
  shows "(w, a) \<in> set (tq_timers q) \<longleftrightarrow> (\<exists>t. tq_heap q a = Some t \<and> ti_expiration t = w)"
    and "(a, s) \<in> tq_activeTimers q \<longleftrightarrow> (\<exists>t. tq_heap q a = Some t \<and> ti_sequence t = s)"
proof -
  note D = TimerQueue_invD [OF inv]
  have in_set: "a \<in> snd ` set (tq_timers q) \<longleftrightarrow> (\<exists>t. tq_heap q a = Some t)" for a using D(6) by auto
  show "(a, s) \<in> tq_activeTimers q \<longleftrightarrow> (\<exists>t. tq_heap q a = Some t \<and> ti_sequence t = s)"
    unfolding D(8) using in_set [of a] by auto
  show "(w, a) \<in> set (tq_timers q) \<longleftrightarrow> (\<exists>t. tq_heap q a = Some t \<and> ti_expiration t = w)"
  proof
    assume "\<exists>t. tq_heap q a = Some t \<and> ti_expiration t = w"
    then obtain t where t: "tq_heap q a = Some t" "ti_expiration t = w" by blast
    then obtain w' where w': "(w', a) \<in> set (tq_timers q)" using in_set [of a] by force
    then have "w' = w" using D(2) [OF w'] t by simp
    then show "(w, a) \<in> set (tq_timers q)" using w' by simp
  qed (use D(2) in blast)
qed

lemma TimerQueue_inv_restart:
  fixes t t' :: "'cb Timer"
  assumes inv: "TimerQueue_inv ((w, a) # E) q" and t: "tq_heap q a = Some t" "ti_sequence t' = ti_sequence t"
  shows "TimerQueue_inv ((w, a) # E) (q\<lparr>tq_heap := (tq_heap q)(a \<mapsto> t')\<rparr>)"
proof -
  note D = TimerQueue_invD [OF inv]
  let ?q = "q\<lparr>tq_heap := (tq_heap q)(a \<mapsto> t')\<rparr>"
  have a: "a \<notin> snd ` set (tq_timers q)" using D(5) by simp
  then have ne: "(w', b) \<in> set (tq_timers q) \<Longrightarrow> b \<noteq> a" for w' b by force
  show ?thesis
    unfolding TimerQueue_inv_def
  proof (intro conjI)
    show "\<forall>(w, a) \<in> set (tq_timers ?q). \<exists>t. tq_heap ?q a = Some t \<and> ti_expiration t = w"
      using D(2) ne by fastforce
    show "dom (tq_heap ?q) = snd ` set ((w, a) # E) \<union> snd ` set (tq_timers ?q)" using D(6) by simp
    show "\<forall>x \<in> dom (tq_heap ?q). x < 2 ^ 64 - 1" using D(7) t(1) by auto
    show "tq_activeTimers ?q =
        {(a, s). a \<in> snd ` set (tq_timers ?q) \<and> (\<exists>t. tq_heap ?q a = Some t \<and> ti_sequence t = s)}"
      by (auto simp: D(8) dest: ne)
    show "\<forall>b u. tq_heap ?q b = Some u \<longrightarrow> ti_sequence u \<le> tq_numCreated ?q"
      using D(9) t by auto
  qed (use D(1, 3, 4, 5) in simp_all)
qed

lemma TimerQueue_inv_delete:
  assumes inv: "TimerQueue_inv ((w, a) # E) q"
  shows "TimerQueue_inv E (q\<lparr>tq_heap := (tq_heap q)(a := None)\<rparr>)"
proof -
  note D = TimerQueue_invD [OF inv]
  let ?q = "q\<lparr>tq_heap := (tq_heap q)(a := None)\<rparr>"
  have a: "a \<notin> snd ` set (tq_timers q)" "a \<notin> snd ` set E" using D(4, 5) by simp_all
  then have ne: "(w', b) \<in> set (tq_timers q) \<Longrightarrow> b \<noteq> a" for w' b by force
  show ?thesis
    unfolding TimerQueue_inv_def
  proof (intro conjI)
    show "\<forall>(w, a) \<in> set (tq_timers ?q). \<exists>t. tq_heap ?q a = Some t \<and> ti_expiration t = w"
      using D(2) ne by fastforce
    show "dom (tq_heap ?q) = snd ` set E \<union> snd ` set (tq_timers ?q)" using D(6) a by auto
    show "\<forall>x \<in> dom (tq_heap ?q). x < 2 ^ 64 - 1" using D(7) by auto
    show "tq_activeTimers ?q =
        {(a, s). a \<in> snd ` set (tq_timers ?q) \<and> (\<exists>t. tq_heap ?q a = Some t \<and> ti_sequence t = s)}"
      by (auto simp: D(8) dest: ne)
    show "\<forall>b u. tq_heap ?q b = Some u \<longrightarrow> ti_sequence u \<le> tq_numCreated ?q"
      using D(9) by auto
  qed (use D(1, 3, 4, 5) in simp_all)
qed

lemma Timer_restart_ok: "outcome {Overflow} (Timer_restart now t) (\<lambda>t'. ti_sequence t' = ti_sequence t)"
  by (auto simp: Timer_restart_def addTime_def int64_of_double_def cint_def)

text \<open>What becomes of the timers an alarm took out: restarted, or deleted.\<close>

definition Timer_after :: "Timestamp \<Rightarrow> TimerId set \<Rightarrow> nat \<Rightarrow> 'cb Timer \<Rightarrow> 'cb Timer option \<Rightarrow> bool" where
  "Timer_after now cancelled a t r \<longleftrightarrow>
     (if ti_repeat t \<and> (a, ti_sequence t) \<notin> cancelled
      then \<exists>e. addTime now (ti_interval t) = Inr e \<and> r = Some (t\<lparr>ti_expiration := e\<rparr>) else r = None)"

lemma reinsert_ok:
  "TimerQueue_inv es q \<Longrightarrow>
   outcome {Overflow} (reinsert now es q) (\<lambda>q'. TimerQueue_inv [] q' \<and> tq_calling q' = tq_calling q \<and>
     tq_cancelingTimers q' = tq_cancelingTimers q \<and> (\<forall>a. a \<notin> snd ` set es \<longrightarrow> tq_heap q' a = tq_heap q a) \<and>
     (\<forall>a \<in> snd ` set es. \<forall>t. tq_heap q a = Some t \<longrightarrow> Timer_after now (tq_cancelingTimers q) a t (tq_heap q' a)))"
proof (induction es arbitrary: q)
  case Nil
  then show ?case by simp
next
  case (Cons x es)
  obtain w a where x: "x = (w, a)" by (cases x)
  note D = TimerQueue_invD [OF Cons.prems]
  have a: "a \<notin> snd ` set es" "a \<notin> snd ` set (tq_timers q)" using D(4, 5) x by simp_all
  obtain t where t: "tq_heap q a = Some t" using D(6) x by fastforce
  let ?post = "\<lambda>q'. TimerQueue_inv [] q' \<and> tq_calling q' = tq_calling q \<and>
     tq_cancelingTimers q' = tq_cancelingTimers q \<and> (\<forall>b. b \<notin> snd ` set (x # es) \<longrightarrow> tq_heap q' b = tq_heap q b) \<and>
     (\<forall>b \<in> snd ` set (x # es). \<forall>t. tq_heap q b = Some t \<longrightarrow> Timer_after now (tq_cancelingTimers q) b t (tq_heap q' b))"
  have step: "outcome {Overflow} (reinsert now es q1) ?post"
    if q1: "TimerQueue_inv es q1" "tq_calling q1 = tq_calling q" "tq_cancelingTimers q1 = tq_cancelingTimers q"
      "\<And>b. b \<noteq> a \<Longrightarrow> tq_heap q1 b = tq_heap q b"
      "Timer_after now (tq_cancelingTimers q) a t (tq_heap q1 a)" for q1
  proof (rule outcome_mono [OF Cons.IH [OF q1(1)] subset_refl])
    fix q'
    assume post: "TimerQueue_inv [] q' \<and> tq_calling q' = tq_calling q1 \<and> tq_cancelingTimers q' = tq_cancelingTimers q1 \<and>
      (\<forall>a. a \<notin> snd ` set es \<longrightarrow> tq_heap q' a = tq_heap q1 a) \<and>
      (\<forall>a \<in> snd ` set es. \<forall>t. tq_heap q1 a = Some t \<longrightarrow> Timer_after now (tq_cancelingTimers q1) a t (tq_heap q' a))"
    have "Timer_after now (tq_cancelingTimers q) b u (tq_heap q' b)"
      if b: "b \<in> snd ` set (x # es)" "tq_heap q b = Some u" for b u
    proof (cases "b = a")
      case True
      then show ?thesis using post a(1) q1(5) t b by simp
    next
      case False
      then have "b \<in> snd ` set es" "tq_heap q1 b = Some u" using b x q1(4) by auto
      then show ?thesis using post q1(3) by metis
    qed
    then show "?post q'" using post q1 x by simp
  qed
  show ?case
  proof (cases "ti_repeat t \<and> (a, ti_sequence t) \<notin> tq_cancelingTimers q")
    case True
    have "outcome {Overflow} (bindR (Timer_restart now t) (\<lambda>t'.
        bindR (TimerQueue_insert a (q\<lparr>tq_heap := (tq_heap q)(a \<mapsto> t')\<rparr>)) (\<lambda>(_, q'). reinsert now es q'))) ?post"
    proof (cases "addTime now (ti_interval t)")
      case (Inl f)
      then show ?thesis using True Timer_restart_ok [of now t] by (simp add: Timer_restart_def)
    next
      case (Inr e)
      let ?t = "t\<lparr>ti_expiration := e\<rparr>"
      let ?q = "q\<lparr>tq_heap := (tq_heap q)(a \<mapsto> ?t)\<rparr>"
      have "TimerQueue_inv ((w, a) # es) ?q"
        using Cons.prems t x by (intro TimerQueue_inv_restart [of w a es q t]) simp_all
      then obtain b q1 where "TimerQueue_insert a ?q = Inr (b, q1)" and inv1: "TimerQueue_inv es q1"
        and q1: "q1 = ?q\<lparr>tq_timers := set_insert (ti_expiration ?t, a) (tq_timers ?q),
           tq_activeTimers := insert (a, ti_sequence ?t) (tq_activeTimers ?q)\<rparr>"
        using TimerQueue_insert_ok [of w a es ?q ?t] by (auto simp: returns_iff)
      moreover have "outcome {Overflow} (reinsert now es q1) ?post"
        using inv1 True Inr by (intro step) (auto simp: q1 Timer_after_def)
      ultimately show ?thesis using True Inr by (simp add: Timer_restart_def)
    qed
    then show ?thesis using True t by (simp add: x)
  next
    case False
    have "outcome {Overflow} (reinsert now es (q\<lparr>tq_heap := (tq_heap q)(a := None)\<rparr>)) ?post"
      using TimerQueue_inv_delete [of w a es q] Cons.prems False
      by (intro step) (auto simp: x Timer_after_def)
    then show ?thesis using False t by (auto simp: x)
  qed
qed

text \<open>Rearming the alarm for the first timer reads a live timer.\<close>

lemma TimerQueue_reset_ok:
  assumes inv: "TimerQueue_inv es q"
  shows "outcome {Overflow} (TimerQueue_reset clock now es q) (\<lambda>q'. TimerQueue_inv [] q' \<and> tq_calling q' = tq_calling q \<and>
     tq_cancelingTimers q' = tq_cancelingTimers q \<and> (\<forall>a. a \<notin> snd ` set es \<longrightarrow> tq_heap q' a = tq_heap q a) \<and>
     (\<forall>a \<in> snd ` set es. \<forall>t. tq_heap q a = Some t \<longrightarrow> Timer_after now (tq_cancelingTimers q) a t (tq_heap q' a)))"
    (is "outcome _ _ ?post")
  unfolding TimerQueue_reset_def
proof (rule outcome_bind [OF reinsert_ok [OF inv]])
  fix q'
  assume q': "?post q'"
  then have inv': "TimerQueue_inv [] q'" by blast
  have armed: "?post (q'\<lparr>tq_armed := u\<rparr>)" for u using q' by simp
  show "outcome {Overflow} (case tq_timers q' of [] \<Rightarrow> Inr q' | (_, a) # _ \<Rightarrow>
           (case tq_heap q' a of None \<Rightarrow> Inl BadPointer
            | Some t \<Rightarrow> if Timestamp_valid (ti_expiration t) then resetTimerfd clock (ti_expiration t) q' else Inr q')) ?post"
  proof (cases "tq_timers q'")
    case Nil
    then show ?thesis using q' by simp
  next
    case (Cons e es')
    obtain w a where e: "e = (w, a)" by (cases e)
    obtain t where "tq_heap q' a = Some t" using TimerQueue_invD(2) [OF inv', of w a] Cons e by auto
    moreover have "outcome {Overflow} (resetTimerfd clock (ti_expiration t) q') ?post"
      by (rule outcome_mono [OF resetTimerfd_ok]) (use armed in blast)+
    ultimately show ?thesis using q' Cons e by simp
  qed
qed

section \<open>Callbacks and histories\<close>

text \<open>
  What user code does to the timers, in the thread of the loop: add a timer (callback, expiration,
  interval, the clock when the alarm is set) or cancel one. \<open>body\<close> says what a callback does, which may
  depend on anything the queue holds; \<open>alloc\<close> picks the address of a new timer.
\<close>

datatype 'cb timer_op =
    AddOp 'cb Timestamp rat Timestamp
  | CancelOp TimerId

fun run_op :: "bool \<Rightarrow> ((nat \<Rightarrow> 'cb Timer option) \<Rightarrow> nat option) \<Rightarrow> 'cb timer_op \<Rightarrow> 'cb TimerQueue \<Rightarrow> 'cb TimerQueue res" where
  "run_op dbg alloc (AddOp cb expires interval clock) q =
     (case alloc (tq_heap q) of
        None \<Rightarrow> Inl BadAlloc
      | Some a \<Rightarrow> bindR (TimerQueue_addTimer clock a cb expires interval q) (\<lambda>(_, q'). Inr q'))"
| "run_op dbg alloc (CancelOp tid) q = TimerQueue_cancelTimer dbg tid q"

fun run_ops ::
  "bool \<Rightarrow> ((nat \<Rightarrow> 'cb Timer option) \<Rightarrow> nat option) \<Rightarrow> 'cb timer_op list \<Rightarrow> 'cb TimerQueue \<Rightarrow> 'cb TimerQueue res" where
  "run_ops dbg alloc [] q = Inr q"
| "run_ops dbg alloc (x # xs) q = bindR (run_op dbg alloc x q) (run_ops dbg alloc xs)"

datatype 'cb timer_event =
    UserEvent "'cb timer_op"
  | AlarmEvent Timestamp Timestamp

fun timer_events ::
  "bool \<Rightarrow> ((nat \<Rightarrow> 'cb Timer option) \<Rightarrow> nat option) \<Rightarrow> ('cb \<Rightarrow> 'cb TimerQueue \<Rightarrow> 'cb timer_op list) \<Rightarrow>
     'cb timer_event list \<Rightarrow> 'cb TimerQueue \<Rightarrow> 'cb TimerQueue res" where
  "timer_events dbg alloc body [] q = Inr q"
| "timer_events dbg alloc body (UserEvent x # es) q =
     bindR (run_op dbg alloc x q) (timer_events dbg alloc body es)"
| "timer_events dbg alloc body (AlarmEvent now clock # es) q =
     bindR (TimerQueue_handleRead dbg (\<lambda>cb q. run_ops dbg alloc (body cb q) q) now clock q)
       (timer_events dbg alloc body es)"

definition op_faults :: "'cb TimerQueue \<Rightarrow> fault set" where
  "op_faults q = (if tq_calling q = None then {Overflow, BadAlloc, Uninitialised} else {Overflow, BadAlloc})"

lemma run_op_ok:
  assumes alloc: "alloc_contract alloc" and inv: "TimerQueue_inv E q"
  shows "outcome (op_faults q) (run_op dbg alloc x q) (\<lambda>q'. TimerQueue_inv E q' \<and> keeps E q q' \<and>
     (\<forall>tid. x = CancelOp tid \<longrightarrow> tid \<notin> tq_activeTimers q' \<and>
        (tid \<in> tq_activeTimers q \<or> tq_calling q = Some False \<or> tid \<in> tq_cancelingTimers q')))"
proof (cases x)
  case (AddOp cb expires interval clock)
  have "outcome {Overflow, BadAlloc} (run_op dbg alloc x q) (\<lambda>q'. TimerQueue_inv E q' \<and> keeps E q q')"
  proof (cases "alloc (tq_heap q)")
    case (Some a)
    then have fresh: "tq_heap q a = None" "a < 2 ^ 64 - 1" using alloc by (simp_all add: alloc_contract_def)
    have "outcome {Overflow} (bindR (TimerQueue_addTimer clock a cb expires interval q) (\<lambda>(_, q'). Inr q'))
        (\<lambda>q'. TimerQueue_inv E q' \<and> keeps E q q')"
      by (rule outcome_bind [OF TimerQueue_addTimer_ok [OF inv fresh]]) auto
    then show ?thesis unfolding AddOp run_op.simps Some option.case by (rule outcome_mono) auto
  qed (simp add: AddOp)
  then show ?thesis by (rule outcome_mono) (auto simp: AddOp op_faults_def)
next
  case (CancelOp tid)
  show ?thesis
    unfolding CancelOp run_op.simps
    by (rule outcome_mono [OF TimerQueue_cancelTimer_ok [OF inv]]) (auto simp: op_faults_def)
qed

lemma keeps_faults: "keeps E q q' \<Longrightarrow> op_faults q' = op_faults q"
  by (simp add: keeps_def op_faults_def)

lemma run_ops_ok:
  assumes alloc: "alloc_contract alloc"
  shows "TimerQueue_inv E q \<Longrightarrow>
    outcome (op_faults q) (run_ops dbg alloc xs q) (\<lambda>q'. TimerQueue_inv E q' \<and> keeps E q q')"
proof (induction xs arbitrary: q)
  case Nil
  then show ?case by simp
next
  case (Cons x xs)
  show ?case
    unfolding run_ops.simps
  proof (rule outcome_bind [OF run_op_ok [OF alloc Cons.prems]], elim conjE)
    fix q'
    assume q': "TimerQueue_inv E q'" "keeps E q q'"
    show "outcome (op_faults q) (run_ops dbg alloc xs q') (\<lambda>q'. TimerQueue_inv E q' \<and> keeps E q q')"
      using Cons.IH [OF q'(1)] keeps_trans [OF q'(2)] unfolding keeps_faults [OF q'(2)]
      by (auto elim!: outcome_mono)
  qed
qed

text \<open>
  The callbacks that run are those of the expired entries, in their order, whatever the callbacks do
  to the queue meanwhile.
\<close>

fun run_all :: "('cb \<Rightarrow> 'cb TimerQueue \<Rightarrow> 'cb TimerQueue res) \<Rightarrow> 'cb list \<Rightarrow> 'cb TimerQueue \<Rightarrow> 'cb TimerQueue res" where
  "run_all run [] q = Inr q"
| "run_all run (cb # cbs) q = bindR (run cb q) (run_all run cbs)"

definition callback_at :: "'cb TimerQueue \<Rightarrow> Entry \<Rightarrow> 'cb" where
  "callback_at q e = ti_callback (the (tq_heap q (snd e)))"

lemma run_expired_ok:
  assumes alloc: "alloc_contract alloc"
  shows "TimerQueue_inv E q \<Longrightarrow> set es \<subseteq> set E \<Longrightarrow> tq_calling q = Some True \<Longrightarrow>
    run_expired (\<lambda>cb q. run_ops dbg alloc (body cb q) q) es q =
      run_all (\<lambda>cb q. run_ops dbg alloc (body cb q) q) (map (callback_at q) es) q \<and>
    outcome {Overflow, BadAlloc} (run_expired (\<lambda>cb q. run_ops dbg alloc (body cb q) q) es q)
      (\<lambda>q'. TimerQueue_inv E q' \<and> keeps E q q')"
proof (induction es arbitrary: q)
  case Nil
  then show ?case by simp
next
  case (Cons e es)
  let ?run = "\<lambda>cb q. run_ops dbg alloc (body cb q) q"
  obtain w a where e: "e = (w, a)" by (cases e)
  have "a \<in> dom (tq_heap q)" using TimerQueue_invD(6) [OF Cons.prems(1)] Cons.prems(2) e by force
  then obtain t where t: "tq_heap q a = Some t" by blast
  have F: "op_faults q = {Overflow, BadAlloc}" using Cons.prems(3) by (simp add: op_faults_def)
  note run = run_ops_ok [OF alloc Cons.prems(1), of dbg "body (ti_callback t) q", unfolded F]
  have rest: "run_expired ?run es q' = run_all ?run (map (callback_at q) es) q' \<and>
      outcome {Overflow, BadAlloc} (run_expired ?run es q') (\<lambda>q'. TimerQueue_inv E q' \<and> keeps E q q')"
    if q': "TimerQueue_inv E q'" "keeps E q q'" for q'
  proof -
    have call: "tq_calling q' = Some True" using q'(2) Cons.prems(3) by (simp add: keeps_def)
    have same: "map (callback_at q') es = map (callback_at q) es"
      using q'(2) Cons.prems(2) unfolding keeps_def callback_at_def by (intro map_cong refl) (auto dest!: subsetD)
    have sub: "set es \<subseteq> set E" using Cons.prems(2) by simp
    note IH = Cons.IH [OF q'(1) sub call, unfolded same]
    show ?thesis
      using IH keeps_trans [OF q'(2)] by (elim conjE) (intro conjI, assumption, auto elim!: outcome_mono)
  qed
  show ?case
  proof (cases "?run (ti_callback t) q")
    case (Inl f)
    then show ?thesis using run t by (simp add: e callback_at_def)
  next
    case (Inr q')
    then have q': "TimerQueue_inv E q'" "keeps E q q'" using run by simp_all
    have "callback_at q (w, a) = ti_callback t" using t by (simp add: callback_at_def)
    then have eqs: "run_expired ?run (e # es) q = run_expired ?run es q'"
      "run_all ?run (map (callback_at q) (e # es)) q = run_all ?run (map (callback_at q) es) q'"
      using t Inr by (simp_all add: e)
    show ?thesis unfolding eqs using rest [OF q'] .
  qed
qed

text \<open>The whole handler of the alarm.\<close>

lemma TimerQueue_handleRead_ok:
  assumes alloc: "alloc_contract alloc" and inv: "TimerQueue_inv [] q"
  shows "outcome {Overflow, BadAlloc} (TimerQueue_handleRead dbg (\<lambda>cb q. run_ops dbg alloc (body cb q) q) now clock q)
    (\<lambda>q'. TimerQueue_inv [] q' \<and> tq_calling q' = Some False \<and>
      (\<forall>(w, a) \<in> set (tq_timers q). due now (w, a) \<longrightarrow>
         Timer_after now (tq_cancelingTimers q') a (the (tq_heap q a)) (tq_heap q' a)) \<and>
      (\<exists>q1 q2. TimerQueue_getExpired dbg now q = Inr (filter (due now) (tq_timers q), q1) \<and>
         tq_timers q1 = filter (\<lambda>e. \<not> due now e) (tq_timers q) \<and> tq_heap q1 = tq_heap q \<and>
         run_all (\<lambda>cb q. run_ops dbg alloc (body cb q) q) (map (callback_at q) (filter (due now) (tq_timers q)))
           (q1\<lparr>tq_calling := Some True, tq_cancelingTimers := {}\<rparr>) = Inr q2 \<and>
         TimerQueue_reset clock now (filter (due now) (tq_timers q)) (q2\<lparr>tq_calling := Some False\<rparr>) = Inr q'))"
    (is "outcome _ _ ?post")
proof -
  let ?es = "filter (due now) (tq_timers q)" and ?run = "\<lambda>cb q. run_ops dbg alloc (body cb q) q"
  obtain q1 where q1: "TimerQueue_getExpired dbg now q = Inr (?es, q1)" "TimerQueue_inv ?es q1"
      "tq_heap q1 = tq_heap q" "tq_timers q1 = filter (\<lambda>e. \<not> due now e) (tq_timers q)"
    using TimerQueue_getExpired_ok [OF inv, of dbg now] by (auto simp: returns_iff)
  let ?q1 = "q1\<lparr>tq_calling := Some True, tq_cancelingTimers := {}\<rparr>"
  have inv1: "TimerQueue_inv ?es ?q1" using q1(2) by simp
  have same: "map (callback_at ?q1) ?es = map (callback_at q) ?es" by (simp add: callback_at_def q1(3))
  note run = run_expired_ok [OF alloc inv1 subset_refl, of dbg body, unfolded same]
  have head: "TimerQueue_handleRead dbg ?run now clock q = bindR (run_expired ?run ?es ?q1)
      (\<lambda>q2. TimerQueue_reset clock now ?es (q2\<lparr>tq_calling := Some False\<rparr>))"
    by (simp add: TimerQueue_handleRead_def q1(1))
  show ?thesis
    unfolding head
  proof (cases "run_expired ?run ?es ?q1")
    case (Inl f)
    then show "outcome {Overflow, BadAlloc} (bindR (run_expired ?run ?es ?q1)
        (\<lambda>q2. TimerQueue_reset clock now ?es (q2\<lparr>tq_calling := Some False\<rparr>))) ?post"
      using run [THEN conjunct2] unfolding Inl by simp
  next
    case (Inr q2)
    have q2: "TimerQueue_inv ?es q2" "keeps ?es ?q1 q2"
      using run [THEN conjunct2] unfolding Inr by simp_all
    have all: "run_all ?run (map (callback_at q) ?es) ?q1 = Inr q2"
      using run [THEN conjunct1] Inr by simp
    let ?q2 = "q2\<lparr>tq_calling := Some False\<rparr>"
    have heap: "(w, a) \<in> set (tq_timers q) \<Longrightarrow> due now (w, a) \<Longrightarrow> \<exists>t. tq_heap q a = Some t \<and> tq_heap ?q2 a = Some t" for w a
      using q2(2) q1(3) TimerQueue_invD(2) [OF inv, of w a] by (force simp: keeps_def)
    have "outcome {Overflow} (TimerQueue_reset clock now ?es ?q2) (\<lambda>q'. TimerQueue_inv [] q' \<and> tq_calling q' = Some False \<and>
        tq_cancelingTimers q' = tq_cancelingTimers q2 \<and>
        (\<forall>a \<in> snd ` set ?es. \<forall>t. tq_heap q2 a = Some t \<longrightarrow> Timer_after now (tq_cancelingTimers q2) a t (tq_heap q' a)))"
      using q2(1) by (intro outcome_mono [OF TimerQueue_reset_ok [of ?es ?q2]]) auto
    then have "outcome {Overflow} (TimerQueue_reset clock now ?es ?q2) (\<lambda>q'. (TimerQueue_inv [] q' \<and> tq_calling q' = Some False \<and>
        tq_cancelingTimers q' = tq_cancelingTimers q2 \<and>
        (\<forall>a \<in> snd ` set ?es. \<forall>t. tq_heap q2 a = Some t \<longrightarrow> Timer_after now (tq_cancelingTimers q2) a t (tq_heap q' a))) \<and>
        TimerQueue_reset clock now ?es ?q2 = Inr q')"
      by (rule outcome_self)
    then show "outcome {Overflow, BadAlloc} (bindR (run_expired ?run ?es ?q1)
        (\<lambda>q2. TimerQueue_reset clock now ?es (q2\<lparr>tq_calling := Some False\<rparr>))) ?post"
      unfolding Inr bindR_simps
    proof (rule outcome_mono, (simp; fail), elim conjE, intro conjI)
      fix q'
      assume reset: "TimerQueue_reset clock now ?es ?q2 = Inr q'"
      assume q': "\<forall>a \<in> snd ` set ?es. \<forall>t. tq_heap q2 a = Some t \<longrightarrow> Timer_after now (tq_cancelingTimers q2) a t (tq_heap q' a)"
        "tq_cancelingTimers q' = tq_cancelingTimers q2"
      show "\<forall>(w, a) \<in> set (tq_timers q). due now (w, a) \<longrightarrow>
         Timer_after now (tq_cancelingTimers q') a (the (tq_heap q a)) (tq_heap q' a)"
      proof (clarify)
        fix w a assume wa: "(w, a) \<in> set (tq_timers q)" "due now (w, a)"
        then obtain t where "tq_heap q a = Some t" "tq_heap q2 a = Some t" using heap by auto
        moreover have a_in: "a \<in> snd ` set ?es" using wa by force
        ultimately show "Timer_after now (tq_cancelingTimers q') a (the (tq_heap q a)) (tq_heap q' a)"
          using bspec [OF q'(1) a_in, rule_format, of t] q'(2) by simp
      qed
      show "\<exists>q1 q2. TimerQueue_getExpired dbg now q = Inr (?es, q1) \<and>
          tq_timers q1 = filter (\<lambda>e. \<not> due now e) (tq_timers q) \<and> tq_heap q1 = tq_heap q \<and>
          run_all ?run (map (callback_at q) ?es) (q1\<lparr>tq_calling := Some True, tq_cancelingTimers := {}\<rparr>) = Inr q2 \<and>
          TimerQueue_reset clock now ?es (q2\<lparr>tq_calling := Some False\<rparr>) = Inr q'"
        using all reset q1(1, 3, 4) by (intro exI [of _ q1] exI [of _ q2]) simp
    qed
  qed
qed

lemma timer_events_ok:
  assumes alloc: "alloc_contract alloc"
  shows "TimerQueue_inv [] q \<Longrightarrow>
    outcome {Overflow, BadAlloc, Uninitialised} (timer_events dbg alloc body evs q) (TimerQueue_inv [])"
proof (induction evs arbitrary: q)
  case Nil
  then show ?case by simp
next
  case (Cons ev evs)
  show ?case
  proof (cases ev)
    case (UserEvent x)
    show ?thesis
      unfolding UserEvent timer_events.simps
    proof (rule outcome_bind)
      show "outcome {Overflow, BadAlloc, Uninitialised} (run_op dbg alloc x q) (TimerQueue_inv [])"
        by (rule outcome_mono [OF run_op_ok [OF alloc Cons.prems]]) (auto simp: op_faults_def)
    qed (rule Cons.IH)
  next
    case (AlarmEvent now clock)
    show ?thesis
      unfolding AlarmEvent timer_events.simps
    proof (rule outcome_bind)
      show "outcome {Overflow, BadAlloc, Uninitialised}
          (TimerQueue_handleRead dbg (\<lambda>cb q. run_ops dbg alloc (body cb q) q) now clock q) (TimerQueue_inv [])"
        by (rule outcome_mono [OF TimerQueue_handleRead_ok [OF alloc Cons.prems]]) auto
    qed (rule Cons.IH)
  qed
qed

text \<open>An allocator for the examples.\<close>

definition small_alloc :: "(nat \<Rightarrow> 'cb Timer option) \<Rightarrow> nat option" where
  "small_alloc h = find (\<lambda>a. h a = None) [1, 2, 3, 4, 5]"

lemma small_alloc_ok: "alloc_contract small_alloc"
  by (auto simp: alloc_contract_def small_alloc_def split: if_splits)

definition at_us :: "int \<Rightarrow> Timestamp" where
  "at_us n = \<lparr>ts_microSecondsFromEpoch = n\<rparr>"

text \<open>A queue that holds one repeating timer, for the examples.\<close>

definition sample_timer :: "bool Timer" where
  "sample_timer = \<lparr>ti_callback = True, ti_expiration = at_us 5, ti_interval = 2, ti_repeat = True, ti_sequence = 1\<rparr>"

definition sample_queue :: "bool TimerQueue" where
  "sample_queue = \<lparr>tq_heap = [1 \<mapsto> sample_timer], tq_numCreated = 1, tq_timers = [(at_us 5, 1)],
     tq_activeTimers = {(1, 1)}, tq_calling = None, tq_cancelingTimers = {}, tq_armed = Some (0, 100000)\<rparr>"

lemma addTime_sample: "addTime (at_us 9) 2 = Inr (at_us 2000009)"
proof -
  have "fround (2000000 :: rat) = 2000000" using fround_int [of 2000000] by simp
  then show ?thesis
    using trunc_rat_of_int [of 2000000]
    by (simp add: addTime_def double_mul_def int64_of_double_def at_us_def Timestamp_new_def)
qed

lemma sample_queue_inv: "TimerQueue_inv [] sample_queue"
  by (auto simp: TimerQueue_inv_def sample_queue_def sample_timer_def)

lemma sample_queue_add:
  "TimerQueue_addTimer (at_us 1) 1 True (at_us 5) 2 TimerQueue_new = Inr ((1, 1), sample_queue)"
  by (simp add: TimerQueue_addTimer_def Timer_new_def AtomicInteger_incrementAndGet_def AtomicInteger_addAndGet_ok
      TimerQueue_new_def AtomicInteger_new_def TimerQueue_addTimerInLoop_def TimerQueue_insert_def resetTimerfd_def
      howMuchTimeFromNow_def at_us_def Let_def sample_timer_def sample_queue_def)

lemma sample_alarm:
  "\<exists>q'. TimerQueue_handleRead True (\<lambda>cb q. run_ops True small_alloc ((\<lambda>_ _. []) cb q) q) (at_us 9) (at_us 9)
      sample_queue = Inr q' \<and> tq_cancelingTimers q' = {}"
  using addTime_sample
  by (simp add: sample_queue_def TimerQueue_handleRead_def TimerQueue_getExpired_def expired_end_iff due_def
      Timestamp_less_def at_us_def cassert_def sample_timer_def TimerQueue_reset_def Timer_restart_def
      TimerQueue_insert_def resetTimerfd_def howMuchTimeFromNow_def Let_def Timestamp_valid_def)

section \<open>Properties\<close>

text \<open>
  C7. Whatever sequence of timers added, timers cancelled and alarms a queue goes through, with callbacks
  that themselves add and cancel any timers, no operation uses a deleted timer or fails an assert; the
  timers allocated are those in the ordered set, each once, in the order of their expiration, and the
  destructor deletes them all. The only faults are an overflow of the time arithmetic or of the counter, a
  failed allocation, and the read of the uninitialised flag of a cancel before the first alarm, described below.
\<close>

theorem TimerQueue_safe:
  assumes "alloc_contract alloc"
  shows "outcome {Overflow, BadAlloc, Uninitialised} (timer_events dbg alloc body evs TimerQueue_new)
    (\<lambda>q. sorted_wrt Entry_less (tq_timers q) \<and> distinct (map snd (tq_timers q)) \<and>
      (\<forall>w a. (w, a) \<in> set (tq_timers q) \<longleftrightarrow> (\<exists>t. tq_heap q a = Some t \<and> ti_expiration t = w)) \<and>
      (\<forall>a s. (a, s) \<in> tq_activeTimers q \<longleftrightarrow> (\<exists>t. tq_heap q a = Some t \<and> ti_sequence t = s)) \<and>
      tq_heap (TimerQueue_destroy q) = (\<lambda>_. None))"
proof (rule outcome_mono [OF timer_events_ok [OF assms TimerQueue_inv_new] subset_refl])
  fix q :: "'a TimerQueue"
  assume inv: "TimerQueue_inv [] q"
  note D = TimerQueue_invD [OF inv]
  have "tq_heap (TimerQueue_destroy q) a = None" for a
    using D(6) by (auto simp: TimerQueue_destroy_def domIff)
  then show "sorted_wrt Entry_less (tq_timers q) \<and> distinct (map snd (tq_timers q)) \<and>
      (\<forall>w a. (w, a) \<in> set (tq_timers q) \<longleftrightarrow> (\<exists>t. tq_heap q a = Some t \<and> ti_expiration t = w)) \<and>
      (\<forall>a s. (a, s) \<in> tq_activeTimers q \<longleftrightarrow> (\<exists>t. tq_heap q a = Some t \<and> ti_sequence t = s)) \<and>
      tq_heap (TimerQueue_destroy q) = (\<lambda>_. None)"
    using D(1, 3) TimerQueue_inv_heap [OF inv]
    by (auto simp: distinct_map sorted_distinct)
qed

theorem TimerQueue_safe_witness:
  "outcome {Overflow, BadAlloc, Uninitialised}
     (timer_events True small_alloc (\<lambda>_ _. []) [UserEvent (AddOp () (at_us 5) 0 (at_us 1)), AlarmEvent (at_us 9) (at_us 9)]
       TimerQueue_new)
     (\<lambda>q. tq_heap (TimerQueue_destroy q) = (\<lambda>_. None))"
  by (rule outcome_mono [OF TimerQueue_safe [OF small_alloc_ok]]) auto

text \<open>
  C12. An alarm at \<open>now\<close> that returns with the queue \<open>q'\<close> takes exactly the timers whose expiration is not
  after \<open>now\<close> out of the set, runs their callbacks, once each and in the order of their expiration, whatever the
  callbacks add or cancel, and resets these timers: \<open>q'\<close> is what taking the due timers out, these calls and the
  reset leave, nothing else. By it a repeating timer that no callback cancelled is set again, one interval after
  \<open>now\<close>, and every other timer that ran is deleted and no longer cancellable.
\<close>

theorem TimerQueue_alarm:
  assumes "alloc_contract alloc" and "TimerQueue_inv [] q"
    and "TimerQueue_handleRead dbg (\<lambda>cb q. run_ops dbg alloc (body cb q) q) now clock q = Inr q'"
  shows "(\<exists>q1 q2. TimerQueue_getExpired dbg now q = Inr (filter (due now) (tq_timers q), q1) \<and>
        tq_timers q1 = filter (\<lambda>e. \<not> due now e) (tq_timers q) \<and> tq_heap q1 = tq_heap q \<and>
        run_all (\<lambda>cb q. run_ops dbg alloc (body cb q) q) (map (callback_at q) (filter (due now) (tq_timers q)))
          (q1\<lparr>tq_calling := Some True, tq_cancelingTimers := {}\<rparr>) = Inr q2 \<and>
        TimerQueue_reset clock now (filter (due now) (tq_timers q)) (q2\<lparr>tq_calling := Some False\<rparr>) = Inr q') \<and>
    (\<forall>w a t. (w, a) \<in> set (tq_timers q) \<and> \<not> Timestamp_less now w \<and> tq_heap q a = Some t \<longrightarrow>
       (if ti_repeat t \<and> (a, ti_sequence t) \<notin> tq_cancelingTimers q'
        then \<exists>e. addTime now (ti_interval t) = Inr e \<and> (e, a) \<in> set (tq_timers q') \<and>
               (a, ti_sequence t) \<in> tq_activeTimers q'
        else tq_heap q' a = None \<and> (\<forall>e. (e, a) \<notin> set (tq_timers q')) \<and> (\<forall>s. (a, s) \<notin> tq_activeTimers q')))"
proof -
  note H = TimerQueue_handleRead_ok [OF assms(1, 2), of dbg body now clock, unfolded assms(3) outcome_simps]
  note inv' = TimerQueue_inv_heap [OF H [THEN conjunct1]]
  have after: "\<forall>(w, a) \<in> set (tq_timers q). due now (w, a) \<longrightarrow>
      Timer_after now (tq_cancelingTimers q') a (the (tq_heap q a)) (tq_heap q' a)"
    using H by (elim conjE)
  show ?thesis
  proof (intro conjI allI impI, goal_cases)
    case 1
    show ?case using H by blast
  next
    case (2 w a t)
    then have "Timer_after now (tq_cancelingTimers q') a t (tq_heap q' a)"
      using after by (force simp: due_def)
    then show ?case by (auto simp: Timer_after_def inv')
  qed
qed

theorem TimerQueue_alarm_witness:
  "\<exists>q q'. TimerQueue_addTimer (at_us 1) 1 True (at_us 5) 2 TimerQueue_new = Inr ((1, 1), q) \<and>
     TimerQueue_handleRead True (\<lambda>cb q. run_ops True small_alloc ((\<lambda>_ _. []) cb q) q) (at_us 9) (at_us 9) q = Inr q' \<and>
     (at_us 2000009, 1) \<in> set (tq_timers q')"
proof -
  obtain q' where q': "TimerQueue_handleRead True (\<lambda>cb q. run_ops True small_alloc ((\<lambda>_ _. []) cb q) q)
      (at_us 9) (at_us 9) sample_queue = Inr q'" "tq_cancelingTimers q' = {}"
    using sample_alarm by blast
  have "(at_us 5, 1) \<in> set (tq_timers sample_queue) \<and> \<not> Timestamp_less (at_us 9) (at_us 5) \<and>
      tq_heap sample_queue 1 = Some sample_timer"
    by (simp add: sample_queue_def at_us_def Timestamp_less_def)
  then have "\<exists>e. addTime (at_us 9) (ti_interval sample_timer) = Inr e \<and> (e, 1) \<in> set (tq_timers q')"
    using TimerQueue_alarm [OF small_alloc_ok sample_queue_inv q'(1), THEN conjunct2, rule_format, of "at_us 5" 1 sample_timer]
      q'(2) by (auto simp: sample_timer_def)
  then have "(at_us 2000009, 1) \<in> set (tq_timers q')"
    using addTime_sample by (simp add: sample_timer_def)
  then show ?thesis using q'(1) sample_queue_add by blast
qed

text \<open>
  A timer cancelled while its own alarm is being handled, by its own callback or by another, is not set
  again however often it repeats: whatever the callbacks do afterwards, the reset at the end of the
  alarm deletes it, exactly once, and its handle is no longer active.
\<close>

theorem TimerQueue_cancel_in_callback:
  assumes "alloc_contract alloc" and "TimerQueue_inv E q" and "tq_calling q = Some True"
    and "a \<in> snd ` set E" and "tq_heap q a = Some t"
    and "TimerQueue_cancelTimer dbg (a, ti_sequence t) q = Inr q1"
    and "run_ops dbg alloc xs q1 = Inr q2"
    and "TimerQueue_reset clock now E (q2\<lparr>tq_calling := Some False\<rparr>) = Inr q3"
  shows "tq_heap q1 a = Some t \<and> tq_heap q2 a = Some t \<and> tq_heap q3 a = None \<and> (\<forall>s. (a, s) \<notin> tq_activeTimers q3)"
proof -
  have "a \<notin> snd ` set (tq_timers q)" using TimerQueue_invD(5) [OF assms(2)] assms(4) by blast
  then have inactive: "(a, ti_sequence t) \<notin> tq_activeTimers q" using TimerQueue_invD(8) [OF assms(2)] by simp
  have q1: "TimerQueue_inv E q1" "keeps E q q1" "(a, ti_sequence t) \<in> tq_cancelingTimers q1"
    using TimerQueue_cancelTimer_ok [OF assms(2), of dbg "(a, ti_sequence t)"] assms(3, 6) inactive by auto
  have q2: "TimerQueue_inv E q2" "keeps E q1 q2"
    using run_ops_ok [OF assms(1) q1(1), of dbg xs] assms(7) by simp_all
  have heap: "tq_heap q1 a = Some t" "tq_heap q2 a = Some t"
    using keeps_heap [OF q1(2) assms(4)] keeps_heap [OF q2(2) assms(4)] assms(5) by simp_all
  let ?q2 = "q2\<lparr>tq_calling := Some False\<rparr>"
  have inv2: "TimerQueue_inv E ?q2" using q2(1) by simp
  note R = TimerQueue_reset_ok [OF inv2, of clock now, unfolded assms(8) outcome_simps]
  have "Timer_after now (tq_cancelingTimers ?q2) a t (tq_heap q3 a)"
    using R assms(4) heap(2) by (auto simp del: image_iff)
  moreover have "(a, ti_sequence t) \<in> tq_cancelingTimers ?q2"
    using q1(3) q2(2) by (auto simp: keeps_def)
  ultimately have gone: "tq_heap q3 a = None" by (simp add: Timer_after_def)
  then show ?thesis using heap TimerQueue_inv_heap(2) [OF R [THEN conjunct1]] by simp
qed

theorem TimerQueue_cancel_in_callback_witness:
  "\<exists>q1 q3. TimerQueue_cancelTimer True (1, 1) (sample_queue\<lparr>tq_timers := [], tq_activeTimers := {}, tq_calling := Some True\<rparr>)
       = Inr q1 \<and>
     TimerQueue_reset (at_us 9) (at_us 9) [(at_us 5, 1)] (q1\<lparr>tq_calling := Some False\<rparr>) = Inr q3 \<and> tq_heap q3 1 = None"
proof -
  let ?q = "sample_queue\<lparr>tq_timers := [], tq_activeTimers := {}, tq_calling := Some True\<rparr>"
  have inv: "TimerQueue_inv [(at_us 5, 1)] ?q"
    by (auto simp: TimerQueue_inv_def sample_queue_def sample_timer_def)
  obtain q1 where q1: "TimerQueue_cancelTimer True (1, ti_sequence sample_timer) ?q = Inr q1"
    and q1_def: "q1 = ?q\<lparr>tq_cancelingTimers := {(1, 1)}\<rparr>"
    by (simp add: TimerQueue_cancelTimer_def sample_queue_def sample_timer_def)
  obtain q3 where q3: "TimerQueue_reset (at_us 9) (at_us 9) [(at_us 5, 1)] (q1\<lparr>tq_calling := Some False\<rparr>) = Inr q3"
    by (simp add: TimerQueue_reset_def q1_def sample_queue_def sample_timer_def)
  have "tq_heap q3 1 = None"
    using TimerQueue_cancel_in_callback [OF small_alloc_ok inv _ _ _ q1 _ q3, of "[]"]
    by (simp add: sample_queue_def)
  then show ?thesis using q1 q3 by (auto simp: sample_timer_def)
qed

text \<open>
  Before the first alarm, cancelling a timer that is not active (cancelled before, or a
  default \<^verbatim>\<open>TimerId\<close>) reads \<^verbatim>\<open>callingExpiredTimers_\<close>, which the constructor
  leaves uninitialised: undefined behaviour, after any sequence of timers added and cancelled.
\<close>

theorem TimerQueue_cancel_uninitialised:
  assumes "alloc_contract alloc" and "run_ops dbg alloc xs TimerQueue_new = Inr q" and "tid \<notin> tq_activeTimers q"
  shows "TimerQueue_cancelTimer dbg tid q = Inl Uninitialised"
proof -
  have "keeps [] TimerQueue_new q"
    using run_ops_ok [OF assms(1) TimerQueue_inv_new, of dbg xs] assms(2) by simp
  then show ?thesis
    using assms(3) by (simp add: TimerQueue_cancelTimer_def keeps_def TimerQueue_new_def)
qed

theorem TimerQueue_cancel_uninitialised_witness:
  "TimerQueue_cancelTimer True (0, 0) (TimerQueue_new :: bool TimerQueue) = Inl Uninitialised"
  by (rule TimerQueue_cancel_uninitialised [OF small_alloc_ok, of True "[]"]) (simp_all add: TimerQueue_new_def)

end
