(* ===== verification/EventLoop.thy ===== *)
theory EventLoop
  imports Poller TimerQueue
begin

text \<open>
  The event loop of eventloop.h and eventloop.cc: polling, dispatch, the queue of pending functors and
  the eventfd that wakes the poll, as functions of one thread, and as a step relation in which other
  threads queue functors and quit. What the poll returns, what handlers and functors do, and the
  thread of a caller are parameters. Log output is left out.
\<close>

section \<open>State\<close>

text \<open>\<open>el_wakeups\<close> is the counter of the eventfd \<^verbatim>\<open>wakeupFd_\<close>.\<close>

record ('h, 'f) EventLoop =
  el_looping :: bool
  el_quit :: bool
  el_callingPendingFunctors :: bool
  el_pollReturnedTime :: Timestamp
  el_reactor :: "'h reactor"
  el_activeChannels :: "nat list"
  el_wakeups :: nat
  el_wakeupChannel :: nat
  el_pendingFunctors :: "'f list"

text \<open>
  \<open>another\<close> says whether the thread has a loop already. The channels of the timer queue and of the eventfd
  are at \<open>ct\<close> and \<open>cw\<close>; \<open>rt\<close> and \<open>rw\<close> name their read callbacks.
\<close>

definition register :: "bool \<Rightarrow> nat \<Rightarrow> int \<Rightarrow> 'h \<Rightarrow> 'h reactor \<Rightarrow> 'h reactor res" where
  "register dbg c fd h l =
     Channel_enableReading dbg (Poller_updateChannel dbg True) c
       ((fst l)(c \<mapsto> Channel_setReadCallback h (Channel_new True fd)), snd l)"

definition EventLoop_new ::
  "bool \<Rightarrow> bool \<Rightarrow> int \<Rightarrow> int \<Rightarrow> nat \<Rightarrow> nat \<Rightarrow> 'h \<Rightarrow> 'h \<Rightarrow> ('h, 'f) EventLoop res" where
  "EventLoop_new dbg another timerfd wakeupFd ct cw rt rw =
     bindR (register dbg ct timerfd rt (\<lambda>_. None, Poller_new)) (\<lambda>l.
     if wakeupFd < 0 then Inl FatalAbort
     else if another then Inl FatalAbort
     else bindR (register dbg cw wakeupFd rw l) (\<lambda>l'.
       Inr \<lparr>el_looping = False, el_quit = False, el_callingPendingFunctors = False,
            el_pollReturnedTime = Timestamp_default, el_reactor = l', el_activeChannels = [], el_wakeups = 0,
            el_wakeupChannel = cw, el_pendingFunctors = []\<rparr>))"

definition EventLoop_destroy :: "bool \<Rightarrow> ('h, 'f) EventLoop \<Rightarrow> ('h, 'f) EventLoop res" where
  "EventLoop_destroy dbg s =
     cassert dbg (\<not> el_looping s)
       (bindR (Channel_disableAll dbg (Poller_updateChannel dbg True) (el_wakeupChannel s) (el_reactor s)) (\<lambda>l.
         Inr (s\<lparr>el_reactor := l\<rparr>)))"

section \<open>Waking, queueing, quitting\<close>

text \<open>A write of one to the eventfd fails only when the counter is at its maximum.\<close>

definition EventLoop_wakeup :: "('h, 'f) EventLoop \<Rightarrow> ('h, 'f) EventLoop" where
  "EventLoop_wakeup s = (if el_wakeups s < 2 ^ 64 - 2 then s\<lparr>el_wakeups := el_wakeups s + 1\<rparr> else s)"

definition EventLoop_handleRead :: "('h, 'f) EventLoop \<Rightarrow> ('h, 'f) EventLoop" where
  "EventLoop_handleRead s = s\<lparr>el_wakeups := 0\<rparr>"

definition push_functor :: "'f \<Rightarrow> ('h, 'f) EventLoop \<Rightarrow> ('h, 'f) EventLoop" where
  "push_functor f s = s\<lparr>el_pendingFunctors := el_pendingFunctors s @ [f]\<rparr>"

definition EventLoop_queueInLoop :: "bool \<Rightarrow> 'f \<Rightarrow> ('h, 'f) EventLoop \<Rightarrow> ('h, 'f) EventLoop" where
  "EventLoop_queueInLoop inLoop f s =
     (let s' = push_functor f s in
      if \<not> inLoop \<or> el_callingPendingFunctors s' then EventLoop_wakeup s' else s')"

definition EventLoop_runInLoop ::
  "bool \<Rightarrow> ('f \<Rightarrow> ('h, 'f) EventLoop \<Rightarrow> ('h, 'f) EventLoop res) \<Rightarrow> 'f \<Rightarrow> ('h, 'f) EventLoop \<Rightarrow> ('h, 'f) EventLoop res" where
  "EventLoop_runInLoop inLoop run f s = (if inLoop then run f s else Inr (EventLoop_queueInLoop inLoop f s))"

definition EventLoop_quit :: "bool \<Rightarrow> ('h, 'f) EventLoop \<Rightarrow> ('h, 'f) EventLoop" where
  "EventLoop_quit inLoop s =
     (let s' = s\<lparr>el_quit := True\<rparr> in if \<not> inLoop then EventLoop_wakeup s' else s')"

text \<open>The two halves of \<^verbatim>\<open>doPendingFunctors\<close>: the swap under the mutex, and the calls.\<close>

definition take_pending :: "('h, 'f) EventLoop \<Rightarrow> 'f list \<times> ('h, 'f) EventLoop" where
  "take_pending s = (el_pendingFunctors s, s\<lparr>el_callingPendingFunctors := True, el_pendingFunctors := []\<rparr>)"

fun run_functors ::
  "('f \<Rightarrow> ('h, 'f) EventLoop \<Rightarrow> ('h, 'f) EventLoop res) \<Rightarrow> 'f list \<Rightarrow> ('h, 'f) EventLoop \<Rightarrow> ('h, 'f) EventLoop res" where
  "run_functors run [] s = Inr s"
| "run_functors run (f # fs) s = bindR (run f s) (run_functors run fs)"

definition EventLoop_doPendingFunctors ::
  "('f \<Rightarrow> ('h, 'f) EventLoop \<Rightarrow> ('h, 'f) EventLoop res) \<Rightarrow> ('h, 'f) EventLoop \<Rightarrow> ('h, 'f) EventLoop res" where
  "EventLoop_doPendingFunctors run s =
     (let (functors, s') = take_pending s in
      bindR (run_functors run functors s') (\<lambda>s''. Inr (s''\<lparr>el_callingPendingFunctors := False\<rparr>)))"

section \<open>Channels and timers\<close>

definition EventLoop_updateChannel :: "bool \<Rightarrow> bool \<Rightarrow> nat \<Rightarrow> ('h, 'f) EventLoop \<Rightarrow> ('h, 'f) EventLoop res" where
  "EventLoop_updateChannel dbg inLoop c s =
     (if \<not> inLoop then Inl FatalAbort
      else bindR (Poller_updateChannel dbg inLoop c (el_reactor s)) (\<lambda>l. Inr (s\<lparr>el_reactor := l\<rparr>)))"

definition EventLoop_removeChannel :: "bool \<Rightarrow> bool \<Rightarrow> nat \<Rightarrow> ('h, 'f) EventLoop \<Rightarrow> ('h, 'f) EventLoop res" where
  "EventLoop_removeChannel dbg inLoop c s =
     (if \<not> inLoop then Inl FatalAbort
      else bindR (Poller_removeChannel dbg inLoop c (el_reactor s)) (\<lambda>l. Inr (s\<lparr>el_reactor := l\<rparr>)))"

text \<open>\<open>clock\<close> is the time when the alarm is set, \<open>now\<close> that of the call, \<open>a\<close> the address of the timer.\<close>

definition EventLoop_runAt ::
  "Timestamp \<Rightarrow> nat \<Rightarrow> Timestamp \<Rightarrow> 'cb \<Rightarrow> 'cb TimerQueue \<Rightarrow> (TimerId \<times> 'cb TimerQueue) res" where
  "EventLoop_runAt clock a time cb q = TimerQueue_addTimer clock a cb time 0 q"

definition EventLoop_runAfter ::
  "Timestamp \<Rightarrow> Timestamp \<Rightarrow> nat \<Rightarrow> rat \<Rightarrow> 'cb \<Rightarrow> 'cb TimerQueue \<Rightarrow> (TimerId \<times> 'cb TimerQueue) res" where
  "EventLoop_runAfter now clock a delay cb q =
     bindR (addTime now delay) (\<lambda>time. EventLoop_runAt clock a time cb q)"

definition EventLoop_runEvery ::
  "Timestamp \<Rightarrow> Timestamp \<Rightarrow> nat \<Rightarrow> rat \<Rightarrow> 'cb \<Rightarrow> 'cb TimerQueue \<Rightarrow> (TimerId \<times> 'cb TimerQueue) res" where
  "EventLoop_runEvery now clock a interval cb q =
     bindR (addTime now interval) (\<lambda>time. TimerQueue_addTimer clock a cb time interval q)"

section \<open>The loop\<close>

text \<open>\<open>call\<close> is what the callbacks of the channels do. A channel that is gone is a dangling pointer.\<close>

definition handle_channel ::
  "('h channel_call \<Rightarrow> ('h, 'f) EventLoop \<Rightarrow> ('h, 'f) EventLoop res) \<Rightarrow> nat \<Rightarrow> ('h, 'f) EventLoop \<Rightarrow> ('h, 'f) EventLoop res" where
  "handle_channel call c s =
     (case fst (el_reactor s) c of
        None \<Rightarrow> Inl BadPointer
      | Some _ \<Rightarrow> Channel_handleEvent (\<lambda>s. the (fst (el_reactor s) c))
          (\<lambda>ch s. s\<lparr>el_reactor := ((fst (el_reactor s))(c \<mapsto> ch), snd (el_reactor s))\<rparr>)
          call (el_pollReturnedTime s) s)"

fun handle_channels ::
  "('h channel_call \<Rightarrow> ('h, 'f) EventLoop \<Rightarrow> ('h, 'f) EventLoop res) \<Rightarrow> nat list \<Rightarrow> ('h, 'f) EventLoop \<Rightarrow> ('h, 'f) EventLoop res" where
  "handle_channels call [] s = Inr s"
| "handle_channels call (c # cs) s = bindR (handle_channel call c s) (handle_channels call cs)"

definition EventLoop_iteration ::
  "('h channel_call \<Rightarrow> ('h, 'f) EventLoop \<Rightarrow> ('h, 'f) EventLoop res) \<Rightarrow>
   ('f \<Rightarrow> ('h, 'f) EventLoop \<Rightarrow> ('h, 'f) EventLoop res) \<Rightarrow> poll_result \<Rightarrow> Timestamp \<Rightarrow>
     ('h, 'f) EventLoop \<Rightarrow> ('h, 'f) EventLoop res" where
  "EventLoop_iteration call run r now s =
     bindR (Poller_poll r now (el_reactor s)) (\<lambda>(l, t, active).
       let s1 = s\<lparr>el_reactor := l, el_pollReturnedTime := t,
                  el_activeChannels := (case active of None \<Rightarrow> [] | Some cs \<Rightarrow> cs)\<rparr>
       in bindR (handle_channels call (el_activeChannels s1) s1) (EventLoop_doPendingFunctors run))"

text \<open>
  The polls that return are given one by one; when they are used up the loop waits in the next. The
  first component of the result says whether the loop has ended.
\<close>

fun loop_polls ::
  "('h channel_call \<Rightarrow> ('h, 'f) EventLoop \<Rightarrow> ('h, 'f) EventLoop res) \<Rightarrow>
   ('f \<Rightarrow> ('h, 'f) EventLoop \<Rightarrow> ('h, 'f) EventLoop res) \<Rightarrow> (poll_result \<times> Timestamp) list \<Rightarrow>
     ('h, 'f) EventLoop \<Rightarrow> (bool \<times> ('h, 'f) EventLoop) res" where
  "loop_polls call run [] s = Inr (el_quit s, s)"
| "loop_polls call run ((r, now) # polls) s =
     (if el_quit s then Inr (True, s)
      else bindR (EventLoop_iteration call run r now s) (loop_polls call run polls))"

definition EventLoop_loop ::
  "bool \<Rightarrow> bool \<Rightarrow> ('h channel_call \<Rightarrow> ('h, 'f) EventLoop \<Rightarrow> ('h, 'f) EventLoop res) \<Rightarrow>
   ('f \<Rightarrow> ('h, 'f) EventLoop \<Rightarrow> ('h, 'f) EventLoop res) \<Rightarrow> (poll_result \<times> Timestamp) list \<Rightarrow>
     ('h, 'f) EventLoop \<Rightarrow> (bool \<times> ('h, 'f) EventLoop) res" where
  "EventLoop_loop dbg inLoop call run polls s =
     cassert dbg (\<not> el_looping s)
       (if \<not> inLoop then Inl FatalAbort
        else bindR (loop_polls call run polls (s\<lparr>el_looping := True, el_quit := False\<rparr>)) (\<lambda>(ended, s').
          Inr (ended, if ended then s'\<lparr>el_looping := False\<rparr> else s')))"

section \<open>The loop among other threads\<close>

text \<open>
  Where the loop thread is: outside \<^verbatim>\<open>loop()\<close>, in the poll, in the handlers (the flag: the eventfd was
  reported and not read yet), or in the calls of the functors it took. Another thread's
  \<^verbatim>\<open>queueInLoop\<close> and \<^verbatim>\<open>quit\<close> are two steps each, the second the wakeup;
  \<open>sd_poking\<close> counts the threads between the two. \<open>sd_pushed\<close> and \<open>sd_executed\<close> record the functors queued and
  called; \<open>sd_early\<close> says that the loop's own thread queued one outside \<^verbatim>\<open>loop()\<close>.
\<close>

datatype 'f phase = Outside | Polling | Handling bool | Draining "'f list"

record ('h, 'f) Sched =
  sd_loop :: "('h, 'f) EventLoop"
  sd_phase :: "'f phase"
  sd_poking :: nat
  sd_pushed :: "'f list"
  sd_executed :: "'f list"
  sd_early :: bool

fun busy :: "'f phase \<Rightarrow> bool" where
  "busy (Handling _) = True"
| "busy (Draining _) = True"
| "busy _ = False"

inductive sched_step :: "('h, 'f) Sched \<Rightarrow> ('h, 'f) Sched \<Rightarrow> bool" where
  enter: "sd_phase s = Outside \<Longrightarrow>
    sched_step s (s\<lparr>sd_loop := (sd_loop s)\<lparr>el_looping := True, el_quit := False\<rparr>, sd_phase := Polling\<rparr>)"
| poll_returns: "sd_phase s = Polling \<Longrightarrow>
    sched_step s (s\<lparr>sd_phase := Handling (0 < el_wakeups (sd_loop s))\<rparr>)"
| read_eventfd: "sd_phase s = Handling True \<Longrightarrow>
    sched_step s (s\<lparr>sd_loop := EventLoop_handleRead (sd_loop s), sd_phase := Handling False\<rparr>)"
| own_queue: "busy (sd_phase s) \<Longrightarrow>
    sched_step s (s\<lparr>sd_loop := EventLoop_queueInLoop True f (sd_loop s), sd_pushed := sd_pushed s @ [f]\<rparr>)"
| own_quit: "busy (sd_phase s) \<or> sd_phase s = Outside \<Longrightarrow>
    sched_step s (s\<lparr>sd_loop := EventLoop_quit True (sd_loop s)\<rparr>)"
| early_queue: "sd_phase s = Outside \<Longrightarrow>
    sched_step s (s\<lparr>sd_loop := EventLoop_queueInLoop True f (sd_loop s), sd_pushed := sd_pushed s @ [f], sd_early := True\<rparr>)"
| swap: "sd_phase s = Handling False \<Longrightarrow> take_pending (sd_loop s) = (fs, l) \<Longrightarrow>
    sched_step s (s\<lparr>sd_loop := l, sd_phase := Draining fs, sd_early := False\<rparr>)"
| call_functor: "sd_phase s = Draining (f # fs) \<Longrightarrow>
    sched_step s (s\<lparr>sd_phase := Draining fs, sd_executed := sd_executed s @ [f]\<rparr>)"
| again: "sd_phase s = Draining [] \<Longrightarrow> \<not> el_quit (sd_loop s) \<Longrightarrow>
    sched_step s (s\<lparr>sd_loop := (sd_loop s)\<lparr>el_callingPendingFunctors := False\<rparr>, sd_phase := Polling\<rparr>)"
| leave: "sd_phase s = Draining [] \<Longrightarrow> el_quit (sd_loop s) \<Longrightarrow>
    sched_step s (s\<lparr>sd_loop := (sd_loop s)\<lparr>el_callingPendingFunctors := False, el_looping := False\<rparr>, sd_phase := Outside\<rparr>)"
| other_push: "sched_step s (s\<lparr>sd_loop := push_functor f (sd_loop s), sd_pushed := sd_pushed s @ [f], sd_poking := sd_poking s + 1\<rparr>)"
| other_quit: "sched_step s (s\<lparr>sd_loop := (sd_loop s)\<lparr>el_quit := True\<rparr>, sd_poking := sd_poking s + 1\<rparr>)"
| other_wakeup: "0 < sd_poking s \<Longrightarrow>
    sched_step s (s\<lparr>sd_loop := EventLoop_wakeup (sd_loop s), sd_poking := sd_poking s - 1\<rparr>)"

definition sched_new :: "('h, 'f) EventLoop \<Rightarrow> ('h, 'f) Sched" where
  "sched_new l = \<lparr>sd_loop = l, sd_phase = Outside, sd_poking = 0, sd_pushed = [], sd_executed = [], sd_early = False\<rparr>"

inductive sched_reach :: "('h, 'f) EventLoop \<Rightarrow> ('h, 'f) Sched \<Rightarrow> bool" for l where
  start: "sched_reach l (sched_new l)"
| step: "sched_reach l s \<Longrightarrow> sched_step s s' \<Longrightarrow> sched_reach l s'"

text \<open>One turn of the loop with nobody else moving.\<close>

definition loop_turn :: "('h, 'f) Sched \<Rightarrow> ('h, 'f) Sched" where
  "loop_turn s =
     (let l1 = (if 0 < el_wakeups (sd_loop s) then EventLoop_handleRead (sd_loop s) else sd_loop s);
          (fs, l2) = take_pending l1; l3 = l2\<lparr>el_callingPendingFunctors := False\<rparr>
      in if el_quit l3
         then s\<lparr>sd_early := False, sd_executed := sd_executed s @ fs, sd_loop := l3\<lparr>el_looping := False\<rparr>, sd_phase := Outside\<rparr>
         else s\<lparr>sd_early := False, sd_executed := sd_executed s @ fs, sd_loop := l3, sd_phase := Polling\<rparr>)"

section \<open>The queue of functors\<close>

lemma EventLoop_wakeup_fields [simp]:
  "el_looping (EventLoop_wakeup s) = el_looping s" "el_quit (EventLoop_wakeup s) = el_quit s"
  "el_callingPendingFunctors (EventLoop_wakeup s) = el_callingPendingFunctors s"
  "el_pendingFunctors (EventLoop_wakeup s) = el_pendingFunctors s"
  "0 < el_wakeups (EventLoop_wakeup s)"
  by (simp_all add: EventLoop_wakeup_def)

lemma EventLoop_queueInLoop_fields [simp]:
  "el_looping (EventLoop_queueInLoop b f s) = el_looping s" "el_quit (EventLoop_queueInLoop b f s) = el_quit s"
  "el_callingPendingFunctors (EventLoop_queueInLoop b f s) = el_callingPendingFunctors s"
  "el_pendingFunctors (EventLoop_queueInLoop b f s) = el_pendingFunctors s @ [f]"
  by (simp_all add: EventLoop_queueInLoop_def push_functor_def Let_def)

lemma EventLoop_queueInLoop_wakes:
  "\<not> b \<or> el_callingPendingFunctors s \<Longrightarrow> 0 < el_wakeups (EventLoop_queueInLoop b f s)"
  by (auto simp: EventLoop_queueInLoop_def push_functor_def Let_def)

lemma EventLoop_quit_fields [simp]:
  "el_looping (EventLoop_quit b s) = el_looping s" "el_quit (EventLoop_quit b s)"
  "el_callingPendingFunctors (EventLoop_quit b s) = el_callingPendingFunctors s"
  "el_pendingFunctors (EventLoop_quit b s) = el_pendingFunctors s"
  by (simp_all add: EventLoop_quit_def Let_def)

text \<open>
  What every call of a functor keeps: the flag stays, the functors it queues come after those that were
  there, and then the loop has been woken.
\<close>

definition functor_ok :: "('h, 'f) EventLoop \<Rightarrow> ('h, 'f) EventLoop \<Rightarrow> 'f list \<Rightarrow> bool" where
  "functor_ok s s' queued \<longleftrightarrow>
     el_callingPendingFunctors s' = el_callingPendingFunctors s \<and>
     el_pendingFunctors s' = el_pendingFunctors s @ queued \<and>
     (0 < el_wakeups s \<or> queued \<noteq> [] \<longrightarrow> 0 < el_wakeups s')"

lemma functor_ok_refl: "functor_ok s s []"
  by (simp add: functor_ok_def)

lemma functor_ok_trans: "functor_ok s s' q \<Longrightarrow> functor_ok s' s'' q' \<Longrightarrow> functor_ok s s'' (q @ q')"
  by (auto simp: functor_ok_def)

lemma functor_ok_queue: "el_callingPendingFunctors s \<Longrightarrow> functor_ok s (EventLoop_queueInLoop b f s) [f]"
  using EventLoop_queueInLoop_wakes [of b s f] by (auto simp: functor_ok_def)

lemma functor_ok_calling: "functor_ok s s' q \<Longrightarrow> el_callingPendingFunctors s' = el_callingPendingFunctors s"
  by (simp add: functor_ok_def)

lemma run_functors_ok:
  assumes "\<And>f s. f \<in> set fs \<Longrightarrow> el_callingPendingFunctors s \<Longrightarrow> returns (run f s) (\<lambda>s'. functor_ok s s' (queues f))"
    and "el_callingPendingFunctors s"
  shows "returns (run_functors run fs s) (\<lambda>s'. functor_ok s s' (concat (map queues fs)))"
  using assms
proof (induction fs arbitrary: s)
  case Nil
  then show ?case by (simp add: functor_ok_refl)
next
  case (Cons f fs)
  have "returns (run f s) (\<lambda>s'. functor_ok s s' (queues f))" using Cons.prems by simp
  then show ?case
    unfolding run_functors.simps
  proof (rule returns_bind)
    fix s1 assume s1: "functor_ok s s1 (queues f)"
    have "returns (run_functors run fs s1) (\<lambda>s'. functor_ok s1 s' (concat (map queues fs)))"
      using Cons.prems functor_ok_calling [OF s1] by (intro Cons.IH) simp_all
    then show "returns (run_functors run fs s1) (\<lambda>s'. functor_ok s s' (concat (map queues (f # fs))))"
      by (rule returns_mono) (use functor_ok_trans [OF s1] in auto)
  qed
qed

text \<open>
  \<^verbatim>\<open>doPendingFunctors\<close> calls each functor that was queued when it started once, and none that is
  queued meanwhile: when functor \<open>f\<close> queues the list \<open>queues f\<close>, in whatever way the calls wake the loop,
  it returns with exactly those lists pending, in order, and a wakeup pending if there is one; functors
  that queue themselves do not keep it from returning to the poll.
\<close>

theorem EventLoop_drains_once:
  assumes "\<And>f s. f \<in> set (el_pendingFunctors l) \<Longrightarrow> el_callingPendingFunctors s \<Longrightarrow>
      returns (run f s) (\<lambda>s'. functor_ok s s' (queues f))"
  shows "returns (EventLoop_doPendingFunctors run l) (\<lambda>l'.
      \<not> el_callingPendingFunctors l' \<and>
      el_pendingFunctors l' = concat (map queues (el_pendingFunctors l)) \<and>
      (el_pendingFunctors l' \<noteq> [] \<longrightarrow> 0 < el_wakeups l'))"
proof -
  have "returns (run_functors run (el_pendingFunctors l) (snd (take_pending l)))
      (\<lambda>s'. functor_ok (snd (take_pending l)) s' (concat (map queues (el_pendingFunctors l))))"
    using assms by (intro run_functors_ok) (auto simp: take_pending_def)
  then show ?thesis
    unfolding EventLoop_doPendingFunctors_def take_pending_def Let_def case_prod_conv snd_conv
    by (elim returns_bind) (auto simp: functor_ok_def)
qed

definition requeue :: "nat \<Rightarrow> (unit, nat) EventLoop \<Rightarrow> (unit, nat) EventLoop res" where
  "requeue f s = Inr (if f = 0 then s else EventLoop_queueInLoop True f s)"

definition idle_loop :: "'f list \<Rightarrow> (unit, 'f) EventLoop" where
  "idle_loop fs = \<lparr>el_looping = False, el_quit = False, el_callingPendingFunctors = False,
     el_pollReturnedTime = Timestamp_default, el_reactor = (\<lambda>_. None, Poller_new), el_activeChannels = [],
     el_wakeups = 0, el_wakeupChannel = 0, el_pendingFunctors = fs\<rparr>"

theorem EventLoop_drains_once_witness:
  "returns (EventLoop_doPendingFunctors requeue (idle_loop [1, 0, 2])) (\<lambda>l'.
     \<not> el_callingPendingFunctors l' \<and> el_pendingFunctors l' = [1, 2] \<and> 0 < el_wakeups l')"
proof -
  have "returns (requeue f s) (\<lambda>s'. functor_ok s s' (if f = 0 then [] else [f]))"
    if "f \<in> set (el_pendingFunctors (idle_loop [1, 0, 2]))" "el_callingPendingFunctors s" for f s
    using that by (simp add: requeue_def functor_ok_refl functor_ok_queue)
  then show ?thesis
    by (rule returns_mono [OF EventLoop_drains_once]) (simp_all add: idle_loop_def)
qed

section \<open>No wakeup is lost\<close>

fun taken :: "'f phase \<Rightarrow> 'f list" where
  "taken (Draining fs) = fs"
| "taken _ = []"

text \<open>
  Between poll and swap the loop need not be woken: it will swap. Everywhere else a pending functor comes
  with a wakeup in the eventfd or on its way.
\<close>

definition sched_ok :: "('h, 'f) Sched \<Rightarrow> bool" where
  "sched_ok s \<longleftrightarrow>
     el_looping (sd_loop s) = (sd_phase s \<noteq> Outside) \<and>
     el_callingPendingFunctors (sd_loop s) = (\<exists>fs. sd_phase s = Draining fs) \<and>
     sd_executed s @ taken (sd_phase s) @ el_pendingFunctors (sd_loop s) = sd_pushed s \<and>
     (el_pendingFunctors (sd_loop s) \<noteq> [] \<and> (\<forall>b. sd_phase s \<noteq> Handling b) \<longrightarrow>
        0 < el_wakeups (sd_loop s) \<or> 0 < sd_poking s \<or> sd_early s) \<and>
     (sd_phase s = Polling \<and> el_quit (sd_loop s) \<longrightarrow> 0 < el_wakeups (sd_loop s) \<or> 0 < sd_poking s)"

definition loop_fresh :: "('h, 'f) EventLoop \<Rightarrow> bool" where
  "loop_fresh l \<longleftrightarrow> \<not> el_looping l \<and> \<not> el_callingPendingFunctors l \<and> el_pendingFunctors l = []"

lemma sched_new_ok: "loop_fresh l \<Longrightarrow> sched_ok (sched_new l)"
  by (simp add: sched_ok_def sched_new_def loop_fresh_def)

lemma sched_step_ok: "sched_step s s' \<Longrightarrow> sched_ok s \<Longrightarrow> sched_ok s'"
proof (induction rule: sched_step.induct)
  case (own_queue s f)
  then show ?case
    using EventLoop_queueInLoop_wakes [of True "sd_loop s" f]
    by (cases "sd_phase s") (auto simp: sched_ok_def)
next
  case (own_quit s)
  then show ?case
    by (cases "sd_phase s") (auto simp: sched_ok_def EventLoop_quit_def)
next
  case (swap s fs l)
  then show ?case by (auto simp: sched_ok_def take_pending_def)
next
  case (call_functor s f fs)
  then show ?case by (auto simp: sched_ok_def)
next
  case (other_push s f)
  then show ?case by (auto simp: sched_ok_def push_functor_def)
next
  case (other_wakeup s)
  then show ?case by (auto simp: sched_ok_def)
next
  case (early_queue s f)
  then show ?case by (auto simp: sched_ok_def)
qed (auto simp: sched_ok_def EventLoop_handleRead_def)

lemma sched_reach_ok: "sched_reach l s \<Longrightarrow> loop_fresh l \<Longrightarrow> sched_ok s"
  by (induction rule: sched_reach.induct) (auto intro: sched_new_ok sched_step_ok)

text \<open>\<open>loop_turn\<close> is a run of the loop thread alone.\<close>

lemma loop_turn_calls:
  "sd_phase s = Draining fs \<Longrightarrow>
   sched_step\<^sup>*\<^sup>* s (s\<lparr>sd_phase := Draining [], sd_executed := sd_executed s @ fs\<rparr>)"
proof (induction fs arbitrary: s)
  case Nil
  then have "s\<lparr>sd_phase := Draining [], sd_executed := sd_executed s @ []\<rparr> = s" by (cases s) simp
  then show ?case by simp
next
  case (Cons f fs)
  define s1 where "s1 = s\<lparr>sd_phase := Draining fs, sd_executed := sd_executed s @ [f]\<rparr>"
  have "sched_step s s1" unfolding s1_def by (rule sched_step.call_functor) (rule Cons.prems)
  moreover have "sched_step\<^sup>*\<^sup>* s1 (s1\<lparr>sd_phase := Draining [], sd_executed := sd_executed s1 @ fs\<rparr>)"
    by (rule Cons.IH) (simp add: s1_def)
  ultimately show ?case by (simp add: s1_def converse_rtranclp_into_rtranclp)
qed

lemma loop_turn_steps:
  assumes "sd_phase s = Polling"
  shows "sched_step\<^sup>*\<^sup>* s (loop_turn s)"
proof -
  define l1 where "l1 = (if 0 < el_wakeups (sd_loop s) then EventLoop_handleRead (sd_loop s) else sd_loop s)"
  define fs where "fs = el_pendingFunctors l1"
  define l2 where "l2 = snd (take_pending l1)"
  define s1 where "s1 = s\<lparr>sd_loop := l1, sd_phase := Handling False\<rparr>"
  define s2 where "s2 = s1\<lparr>sd_loop := l2, sd_phase := Draining fs, sd_early := False\<rparr>"
  define s3 where "s3 = s2\<lparr>sd_phase := Draining [], sd_executed := sd_executed s2 @ fs\<rparr>"
  have "sched_step s (s\<lparr>sd_phase := Handling (0 < el_wakeups (sd_loop s))\<rparr>)"
    using assms by (rule sched_step.poll_returns)
  then have "sched_step\<^sup>*\<^sup>* s s1"
    using sched_step.read_eventfd [of "s\<lparr>sd_phase := Handling True\<rparr>"]
    by (cases "0 < el_wakeups (sd_loop s)") (auto simp: s1_def l1_def intro: converse_rtranclp_into_rtranclp)
  also have "sched_step s1 s2"
    unfolding s2_def by (rule sched_step.swap) (simp_all add: s1_def l2_def fs_def take_pending_def)
  also have "sched_step\<^sup>*\<^sup>* s2 s3" unfolding s3_def by (rule loop_turn_calls) (simp add: s2_def)
  also have "sched_step s3 (loop_turn s)"
    using sched_step.again [of s3] sched_step.leave [of s3]
    by (cases "el_quit l2")
      (simp_all add: loop_turn_def s3_def s2_def s1_def l2_def fs_def take_pending_def l1_def [symmetric])
  finally show ?thesis .
qed

text \<open>The loop's own thread queues a functor and enters \<^verbatim>\<open>loop()\<close>.\<close>

lemma early_functor_waits:
  assumes "loop_fresh l" "el_wakeups l = 0"
  shows "\<exists>s. sched_reach l s \<and> sd_phase s = Polling \<and> sd_poking s = 0 \<and>
    el_pendingFunctors (sd_loop s) = [f] \<and> el_wakeups (sd_loop s) = 0"
proof -
  define s1 where "s1 = (sched_new l)\<lparr>sd_loop := EventLoop_queueInLoop True f l, sd_pushed := [f], sd_early := True\<rparr>"
  define s2 where "s2 = s1\<lparr>sd_loop := (sd_loop s1)\<lparr>el_looping := True, el_quit := False\<rparr>, sd_phase := Polling\<rparr>"
  have "sched_step (sched_new l) s1"
    using sched_step.early_queue [of "sched_new l" f] by (simp add: s1_def sched_new_def)
  moreover have "sched_step s1 s2"
    unfolding s2_def by (rule sched_step.enter) (simp add: s1_def sched_new_def)
  ultimately have "sched_reach l s2" by (meson sched_reach.start sched_reach.step)
  then show ?thesis
    using assms by (intro exI [of _ s2]) (simp add: s2_def s1_def sched_new_def EventLoop_queueInLoop_def push_functor_def loop_fresh_def)
qed

text \<open>
  C6. The queue of functors among any number of threads, from a loop that has not started: every functor
  queued is called at most once and in the order of the queue, the functors not yet called being those
  that were taken and those pending. When the loop waits in \<^verbatim>\<open>poll\<close>, no other thread is between its
  push and its wakeup, and the loop's own thread has queued nothing outside \<^verbatim>\<open>loop()\<close> since the last
  functors were taken, then a pending functor, or a request to quit, has made the eventfd readable, so the
  poll returns at once and one turn of the loop, in which no other thread has to move, calls every functor
  queued so far and ends \<^verbatim>\<open>loop()\<close> if it was to quit. The last condition is needed: a functor that the
  loop's own thread queues before \<^verbatim>\<open>loop()\<close> wakes nobody, so a loop whose eventfd was not readable before
  comes to wait in \<^verbatim>\<open>poll\<close> with the functor pending, the third part.
\<close>

theorem EventLoop_no_lost_wakeup:
  assumes "loop_fresh l" "sched_reach l s"
  shows "(\<exists>batch. sd_executed s @ batch @ el_pendingFunctors (sd_loop s) = sd_pushed s) \<and>
    (sd_phase s = Polling \<and> sd_poking s = 0 \<and> \<not> sd_early s \<longrightarrow>
      (el_pendingFunctors (sd_loop s) \<noteq> [] \<or> el_quit (sd_loop s) \<longrightarrow> 0 < el_wakeups (sd_loop s)) \<and>
      sched_step\<^sup>*\<^sup>* s (loop_turn s) \<and> sd_executed (loop_turn s) = sd_pushed s \<and>
      sd_phase (loop_turn s) = (if el_quit (sd_loop s) then Outside else Polling)) \<and>
    (el_wakeups l = 0 \<longrightarrow> (\<exists>s'. sched_reach l s' \<and> sd_phase s' = Polling \<and> sd_poking s' = 0 \<and>
       el_pendingFunctors (sd_loop s') = [f] \<and> el_wakeups (sd_loop s') = 0))"
proof (intro conjI impI)
  have ok: "sched_ok s" using assms sched_reach_ok by blast
  then show "\<exists>batch. sd_executed s @ batch @ el_pendingFunctors (sd_loop s) = sd_pushed s"
    unfolding sched_ok_def by blast
  assume a: "sd_phase s = Polling \<and> sd_poking s = 0 \<and> \<not> sd_early s"
  have "(el_pendingFunctors (sd_loop s) \<noteq> [] \<or> el_quit (sd_loop s) \<longrightarrow> 0 < el_wakeups (sd_loop s)) \<and>
      sched_step\<^sup>*\<^sup>* s (loop_turn s) \<and> sd_executed (loop_turn s) = sd_pushed s \<and>
      sd_phase (loop_turn s) = (if el_quit (sd_loop s) then Outside else Polling)"
    using a ok loop_turn_steps [of s]
    by (auto simp: sched_ok_def loop_turn_def take_pending_def EventLoop_handleRead_def Let_def)
  then show "el_pendingFunctors (sd_loop s) \<noteq> [] \<or> el_quit (sd_loop s) \<Longrightarrow> 0 < el_wakeups (sd_loop s)"
    "sched_step\<^sup>*\<^sup>* s (loop_turn s)" "sd_executed (loop_turn s) = sd_pushed s"
    "sd_phase (loop_turn s) = (if el_quit (sd_loop s) then Outside else Polling)"
    by blast+
next
  assume "el_wakeups l = 0"
  then show "\<exists>s'. sched_reach l s' \<and> sd_phase s' = Polling \<and> sd_poking s' = 0 \<and>
      el_pendingFunctors (sd_loop s') = [f] \<and> el_wakeups (sd_loop s') = 0"
    by (rule early_functor_waits [OF assms(1)])
qed

theorem EventLoop_no_lost_wakeup_witness:
  "\<exists>s. sched_reach (idle_loop []) s \<and> sd_phase s = Polling \<and> el_pendingFunctors (sd_loop s) = [7::nat] \<and>
     0 < el_wakeups (sd_loop s) \<and> sd_executed (loop_turn s) = [7]"
proof -
  define s0 where "s0 = sched_new (idle_loop ([]::nat list))"
  define s1 where "s1 = s0\<lparr>sd_loop := (sd_loop s0)\<lparr>el_looping := True, el_quit := False\<rparr>, sd_phase := Polling\<rparr>"
  define s2 where "s2 = s1\<lparr>sd_loop := push_functor 7 (sd_loop s1), sd_pushed := sd_pushed s1 @ [7], sd_poking := sd_poking s1 + 1\<rparr>"
  define s3 where "s3 = s2\<lparr>sd_loop := EventLoop_wakeup (sd_loop s2), sd_poking := sd_poking s2 - 1\<rparr>"
  note defs = s3_def s2_def s1_def s0_def sched_new_def idle_loop_def push_functor_def
  have "sched_step s0 s1" unfolding s1_def by (rule sched_step.enter) (simp add: s0_def sched_new_def)
  moreover have "sched_step s1 s2" unfolding s2_def by (rule sched_step.other_push)
  moreover have "sched_step s2 s3" unfolding s3_def by (rule sched_step.other_wakeup) (simp add: s2_def)
  ultimately have reach: "sched_reach (idle_loop []) s3"
    unfolding s0_def by (meson sched_reach.start sched_reach.step)
  have fresh: "loop_fresh (idle_loop ([]::nat list))" by (simp add: loop_fresh_def idle_loop_def)
  have s3: "sd_phase s3 = Polling" "sd_poking s3 = 0" "\<not> sd_early s3" "el_pendingFunctors (sd_loop s3) = [7]"
    "sd_pushed s3 = [7]"
    by (simp_all add: defs)
  show ?thesis
    using reach s3 EventLoop_no_lost_wakeup [OF fresh reach] by auto
qed

text \<open>Whatever the calls of the loop keep is kept by its turns.\<close>

lemma Channel_handleEvent_keeps:
  assumes "Channel_handleEvent get put run t w = Inr w'" "P w"
    and put: "\<And>ch w. P w \<Longrightarrow> P (put ch w)" and run: "\<And>x w w'. P w \<Longrightarrow> run x w = Inr w' \<Longrightarrow> P w'"
  shows "P w'"
proof -
  have called: "P v'" if "call_if b (\<lambda>f. run (k f)) cb v = Inr v'" "P v" for b k cb v v'
    using that run by (auto simp: call_if_def split: if_splits option.splits)
  define w0 where "w0 = put ((get w)\<lparr>ch_eventHanding := True\<rparr>) w"
  obtain b1 c1 w1 b2 c2 w2 b3 c3 w3 b4 c4 w4
    where w: "call_if b1 (\<lambda>f. run (CallClose f)) c1 w0 = Inr w1" "call_if b2 (\<lambda>f. run (CallError f)) c2 w1 = Inr w2"
      "call_if b3 (\<lambda>f. run (CallRead f t)) c3 w2 = Inr w3" "call_if b4 (\<lambda>f. run (CallWrite f)) c4 w3 = Inr w4"
      "w' = put ((get w4)\<lparr>ch_eventHanding := False\<rparr>) w4"
    using assms(1) unfolding Channel_handleEvent_def Let_def bindR_eq_Inr w0_def [symmetric] by blast
  have "P w0" unfolding w0_def by (rule put) (rule assms(2))
  then have "P w4" by (rule called [OF w(4) called [OF w(3) called [OF w(2) called [OF w(1)]]]])
  then show ?thesis unfolding w(5) by (rule put)
qed

lemma handle_channels_keeps:
  assumes "handle_channels call cs s = Inr s'" "P s"
    and "\<And>x s s'. P s \<Longrightarrow> call x s = Inr s' \<Longrightarrow> P s'" and "\<And>l s. P s \<Longrightarrow> P (s\<lparr>el_reactor := l\<rparr>)"
  shows "P s'"
  using assms(1, 2)
proof (induction cs arbitrary: s)
  case (Cons c cs)
  obtain s1 where s1: "handle_channel call c s = Inr s1" "handle_channels call cs s1 = Inr s'"
    using Cons.prems(1) by auto
  have "P s1"
    using s1(1) Cons.prems(2) assms(3, 4) unfolding handle_channel_def
    by (auto split: option.splits elim!: Channel_handleEvent_keeps [where P = P])
  then show ?case using s1(2) Cons.IH by blast
qed simp

lemma run_functors_keeps:
  assumes "run_functors run fs s = Inr s'" "P s" and "\<And>f s s'. P s \<Longrightarrow> run f s = Inr s' \<Longrightarrow> P s'"
  shows "P s'"
  using assms(1, 2)
proof (induction fs arbitrary: s)
  case (Cons f fs)
  then obtain s1 where s1: "run f s = Inr s1" "run_functors run fs s1 = Inr s'" by auto
  then show ?case using Cons assms(3) by blast
qed simp

lemma EventLoop_iteration_keeps:
  assumes r: "EventLoop_iteration call run r now s = Inr s'" "P (el_looping s) (el_quit s)"
    and c: "\<And>x s s'. P (el_looping s) (el_quit s) \<Longrightarrow> call x s = Inr s' \<Longrightarrow> P (el_looping s') (el_quit s')"
    and f: "\<And>f s s'. P (el_looping s) (el_quit s) \<Longrightarrow> run f s = Inr s' \<Longrightarrow> P (el_looping s') (el_quit s')"
  shows "P (el_looping s') (el_quit s')"
proof -
  obtain l t cs s2 where s2: "handle_channels call cs
        (s\<lparr>el_reactor := l, el_pollReturnedTime := t, el_activeChannels := cs\<rparr>) = Inr s2"
      "EventLoop_doPendingFunctors run s2 = Inr s'"
    using r(1) unfolding EventLoop_iteration_def by (auto simp: Let_def)
  from s2(1) have p2: "P (el_looping s2) (el_quit s2)"
    by (rule handle_channels_keeps [where P = "\<lambda>s. P (el_looping s) (el_quit s)"]) (use r(2) c in simp_all)
  obtain s3 where s3: "run_functors run (el_pendingFunctors s2) (snd (take_pending s2)) = Inr s3"
      "s' = s3\<lparr>el_callingPendingFunctors := False\<rparr>"
    using s2(2) by (auto simp: EventLoop_doPendingFunctors_def take_pending_def)
  from s3(1) have "P (el_looping s3) (el_quit s3)"
    by (rule run_functors_keeps [where P = "\<lambda>s. P (el_looping s) (el_quit s)"])
      (use p2 f in \<open>simp_all add: take_pending_def\<close>)
  then show ?thesis by (simp add: s3(2))
qed

lemma loop_polls_keeps:
  assumes "loop_polls call run polls s = Inr (ended, s')" "P (el_looping s) (el_quit s)"
    and "\<And>x s s'. P (el_looping s) (el_quit s) \<Longrightarrow> call x s = Inr s' \<Longrightarrow> P (el_looping s') (el_quit s')"
    and "\<And>f s s'. P (el_looping s) (el_quit s) \<Longrightarrow> run f s = Inr s' \<Longrightarrow> P (el_looping s') (el_quit s')"
  shows "P (el_looping s') (el_quit s') \<and> ended = el_quit s'"
  using assms(1, 2)
proof (induction polls arbitrary: s)
  case (Cons p polls)
  show ?case
  proof (cases "el_quit s")
    case False
    obtain r now where p: "p = (r, now)" by (cases p)
    obtain s1 where s1: "EventLoop_iteration call run r now s = Inr s1" "loop_polls call run polls s1 = Inr (ended, s')"
      using Cons.prems(1) False p by auto
    show ?thesis
      by (rule Cons.IH [OF s1(2)]) (rule EventLoop_iteration_keeps [where P = P, OF s1(1) Cons.prems(2) assms(3, 4)])
  qed (use Cons.prems in \<open>cases p; auto\<close>)
qed simp

text \<open>
  A quit before \<^verbatim>\<open>loop()\<close> is lost, whichever thread asks for it: \<^verbatim>\<open>loop()\<close> clears the flag and goes
  on to poll, whatever is reported and however often, as long as no handler and no functor quits again.
\<close>

theorem EventLoop_early_quit_is_lost:
  assumes "\<And>c s s'. el_looping s \<and> \<not> el_quit s \<Longrightarrow> call c s = Inr s' \<Longrightarrow> el_looping s' \<and> \<not> el_quit s'"
    and "\<And>f s s'. el_looping s \<and> \<not> el_quit s \<Longrightarrow> run f s = Inr s' \<Longrightarrow> el_looping s' \<and> \<not> el_quit s'"
    and "EventLoop_loop dbg True call run polls (EventLoop_quit b l) = Inr (ended, l')"
  shows "\<not> ended \<and> el_looping l' \<and> \<not> el_quit l'"
proof -
  obtain s' where s': "loop_polls call run polls ((EventLoop_quit b l)\<lparr>el_looping := True, el_quit := False\<rparr>) = Inr (ended, s')"
      "l' = (if ended then s'\<lparr>el_looping := False\<rparr> else s')"
    using assms(3) unfolding EventLoop_loop_def cassert_eq_Inr by auto
  have "(el_looping s' \<and> \<not> el_quit s') \<and> ended = el_quit s'"
    by (rule loop_polls_keeps [where P = "\<lambda>l q. l \<and> \<not> q", OF s'(1)]) (simp, (erule (1) assms)+)
  then show ?thesis using s'(2) by simp
qed

lemma requeue_keeps: "requeue f s = Inr s' \<Longrightarrow> el_looping s' = el_looping s \<and> el_quit s' = el_quit s"
  by (cases "f = 0") (auto simp: requeue_def)

theorem EventLoop_early_quit_is_lost_witness:
  "\<exists>l'. EventLoop_loop True True (\<lambda>c. Inr) requeue [(PollErr 4, Timestamp_default)] (EventLoop_quit False (idle_loop [0::nat])) = Inr (False, l') \<and>
     el_looping l' \<and> \<not> el_quit l'"
proof -
  define l where "l = (EventLoop_quit False (idle_loop [0::nat]))\<lparr>el_looping := True, el_quit := False, el_pollReturnedTime := Timestamp_default,
     el_activeChannels := [], el_callingPendingFunctors := False, el_pendingFunctors := []\<rparr>"
  have l: "EventLoop_loop True True (\<lambda>c. Inr) requeue [(PollErr 4, Timestamp_default)] (EventLoop_quit False (idle_loop [0::nat])) = Inr (False, l)"
    unfolding l_def
    by (simp add: EventLoop_loop_def EventLoop_iteration_def Poller_poll_def EventLoop_doPendingFunctors_def
        take_pending_def requeue_def idle_loop_def EventLoop_quit_def Let_def EventLoop_wakeup_def)
  have "\<not> False \<and> el_looping l \<and> \<not> el_quit l"
  proof (rule EventLoop_early_quit_is_lost [OF _ _ l])
    show "el_looping s' \<and> \<not> el_quit s'" if "el_looping s \<and> \<not> el_quit s" "Inr s = Inr s'" for s s' :: "(unit, nat) EventLoop"
      using that by (cases "s = s'") simp_all
    show "el_looping s' \<and> \<not> el_quit s'" if "el_looping s \<and> \<not> el_quit s" "requeue f s = Inr s'" for f s s'
      using requeue_keeps [OF that(2)] that(1) by simp
  qed
  then show ?thesis using l by auto
qed

section \<open>Birth and death\<close>

definition new_reactor :: "int \<Rightarrow> int \<Rightarrow> nat \<Rightarrow> nat \<Rightarrow> 'h \<Rightarrow> 'h \<Rightarrow> 'h reactor" where
  "new_reactor t w ct cw rt rw =
     ([ct \<mapsto> (Channel_setReadCallback rt (Channel_new True t))\<lparr>ch_interestedEvents := 3, ch_index := 0\<rparr>,
       cw \<mapsto> (Channel_setReadCallback rw (Channel_new True w))\<lparr>ch_interestedEvents := 3, ch_index := 1\<rparr>],
      \<lparr>po_pollfds = [\<lparr>pfd_fd = t, pfd_events = 3, pfd_revents = 0\<rparr>, \<lparr>pfd_fd = w, pfd_events = 3, pfd_revents = 0\<rparr>],
       po_channels = [t \<mapsto> ct, w \<mapsto> cw]\<rparr>)"

lemma register_first:
  "register dbg c fd h (\<lambda>_. None, Poller_new) =
     Inr ([c \<mapsto> (Channel_setReadCallback h (Channel_new True fd))\<lparr>ch_interestedEvents := 3, ch_index := 0\<rparr>],
      \<lparr>po_pollfds = [\<lparr>pfd_fd = fd, pfd_events = 3, pfd_revents = 0\<rparr>], po_channels = [fd \<mapsto> c]\<rparr>)"
  by (simp add: register_def Channel_enableReading_def Channel_setInterest_def Channel_update_def Channel_new_def
      Channel_setReadCallback_def Poller_updateChannel_def Poller_new_def to_short_def int_of_size_def Let_def)

lemma register_second:
  "fd \<noteq> fd' \<Longrightarrow> register dbg c fd h
      (st, \<lparr>po_pollfds = [pfd], po_channels = [fd' \<mapsto> c']\<rparr>) =
     Inr (st(c \<mapsto> (Channel_setReadCallback h (Channel_new True fd))\<lparr>ch_interestedEvents := 3, ch_index := 1\<rparr>),
      \<lparr>po_pollfds = [pfd, \<lparr>pfd_fd = fd, pfd_events = 3, pfd_revents = 0\<rparr>], po_channels = [fd' \<mapsto> c', fd \<mapsto> c]\<rparr>)"
  by (simp add: register_def Channel_enableReading_def Channel_setInterest_def Channel_update_def Channel_new_def
      Channel_setReadCallback_def Poller_updateChannel_def to_short_def int_of_size_def Let_def)

lemma new_reactor_ok:
  assumes "0 \<le> t" "0 \<le> w" "t \<noteq> w" "ct \<noteq> cw"
  shows "Poller_inv (new_reactor t w ct cw rt rw)"
    "Poller_watched (new_reactor t w ct cw rt rw) = [t \<mapsto> (3, ct), w \<mapsto> (3, cw)]"
  using assms
  by (auto simp: new_reactor_def Poller_inv_def entry_ok_def chan_fits_def pfd_owner_def less_Suc_eq
      Channel_new_def Channel_setReadCallback_def Poller_watched_def fun_eq_iff)

lemma EventLoop_new_eq:
  assumes "t \<noteq> w" "0 \<le> w"
  shows "EventLoop_new dbg False t w ct cw rt rw = Inr \<lparr>el_looping = False, el_quit = False, el_callingPendingFunctors = False,
            el_pollReturnedTime = Timestamp_default, el_reactor = new_reactor t w ct cw rt rw, el_activeChannels = [], el_wakeups = 0,
            el_wakeupChannel = cw, el_pendingFunctors = []\<rparr>"
  using assms unfolding EventLoop_new_def new_reactor_def by (simp add: register_first register_second)

text \<open>
  The constructor of the loop registers the timerfd and the eventfd for reading and nothing else, in a
  consistent poller, and the loop is ready to start, with no functor pending. The destructor of a loop that
  does not run, which disables the wakeup channel, returns without asserts and leaves the channels of the
  timer queue registered; with asserts it always aborts.
\<close>

theorem EventLoop_lifecycle:
  assumes "0 \<le> t" "0 \<le> w" "t \<noteq> w" "ct \<noteq> cw"
  shows "returns (EventLoop_new dbg False t w ct cw rt rw) (\<lambda>l.
     loop_fresh l \<and> Poller_inv (el_reactor l) \<and> Poller_watched (el_reactor l) = [t \<mapsto> (3, ct), w \<mapsto> (3, cw)] \<and>
     EventLoop_destroy True l = Inl AssertFail \<and>
     returns (EventLoop_destroy False l) (\<lambda>l'. Poller_watched (el_reactor l') = [t \<mapsto> (3, ct)]))"
proof -
  let ?r = "new_reactor t w ct cw rt rw"
  have d: "Channel_disableAll True (Poller_updateChannel True True) cw ?r = Inl AssertFail"
    using assms by (simp add: new_reactor_def Channel_disableAll_def Channel_setInterest_def Channel_update_def
        Channel_new_def Channel_setReadCallback_def Poller_updateChannel_def Let_def)
  have "Channel_disableAll False (Poller_updateChannel False True) cw ?r =
      Inr ((fst ?r)(cw \<mapsto> (Channel_setReadCallback rw (Channel_new True w))\<lparr>ch_interestedEvents := 0, ch_index := 1\<rparr>),
        (snd ?r)\<lparr>po_pollfds := [\<lparr>pfd_fd = t, pfd_events = 3, pfd_revents = 0\<rparr>, \<lparr>pfd_fd = - w - 1, pfd_events = 0, pfd_revents = 0\<rparr>]\<rparr>)"
    using assms by (simp add: new_reactor_def Channel_disableAll_def Channel_setInterest_def Channel_update_def
        Channel_new_def Channel_setReadCallback_def Poller_updateChannel_def Channel_isNoneEvent_def to_short_def Let_def)
  then have "returns (EventLoop_destroy False l) (\<lambda>l'. Poller_watched (el_reactor l') = [t \<mapsto> (3, ct)])"
    if "el_reactor l = ?r" "el_wakeupChannel l = cw" "\<not> el_looping l" for l :: "('a, 'b) EventLoop"
    using assms that by (auto simp: EventLoop_destroy_def new_reactor_def Poller_watched_def fun_eq_iff
        Channel_new_def Channel_setReadCallback_def)
  moreover have "EventLoop_destroy True l = Inl AssertFail"
    if "el_reactor l = ?r" "el_wakeupChannel l = cw" "\<not> el_looping l" for l :: "('a, 'b) EventLoop"
    using that d by (simp add: EventLoop_destroy_def)
  ultimately show ?thesis
    using assms by (simp add: EventLoop_new_eq loop_fresh_def new_reactor_ok)
qed

theorem EventLoop_lifecycle_witness:
  "returns (EventLoop_new True False 3 4 100 200 () () :: (unit, nat) EventLoop res) (\<lambda>l. EventLoop_destroy True l = Inl AssertFail)"
  by (rule returns_mono [OF EventLoop_lifecycle]) simp_all

end
