(* ===== verification/Monitor.thy ===== *)
theory Monitor
  imports CInt
begin

text \<open>
  The classes that threads share through a mutex and condition variables: the queues of blockingqueue.h and
  boundedblockingqueue.h and the latch of countdownlatch.h. Between taking the mutex and releasing it, or
  waiting, a thread is alone, so an operation is a sequence of attempts, each one step: it returns with a new
  state and wakes waiters, or finds that it must wait. Mutex and condition variables are those of pthread.
\<close>

section \<open>Threads and attempts\<close>

text \<open>
  An attempt of the call \<open>c\<close> in the state \<open>s\<close>: \<open>None\<close> if it must wait, else the new state, the result, and
  the calls whose waiters are woken. A thread runs outside, waits in a call, or has been woken and will try
  its call again when it gets the mutex.
\<close>

type_synonym ('c, 's, 'r) attempt = "'c \<Rightarrow> 's \<Rightarrow> ('s \<times> 'r \<times> ('c \<Rightarrow> bool)) option res"

datatype 'c status = Running | Waiting 'c | Woken 'c

fun wake :: "('c \<Rightarrow> bool) \<Rightarrow> 'c status \<Rightarrow> 'c status" where
  "wake w (Waiting c) = (if w c then Woken c else Waiting c)"
| "wake w s = s"

lemma wake_eq_Waiting [simp]: "wake w s = Waiting c \<longleftrightarrow> s = Waiting c \<and> \<not> w c"
  by (cases s) auto

record ('t, 'c, 's, 'r) Shared =
  sh_state :: 's
  sh_status :: "'t \<Rightarrow> 'c status"
  sh_log :: "('c \<times> 'r) list"

definition shared_new :: "'s \<Rightarrow> ('t, 'c, 's, 'r) Shared" where
  "shared_new s = \<lparr>sh_state = s, sh_status = (\<lambda>_. Running), sh_log = []\<rparr>"

definition returned :: "'t \<Rightarrow> 'c \<Rightarrow> 's \<Rightarrow> 'r \<Rightarrow> ('c \<Rightarrow> bool) \<Rightarrow> ('t, 'c, 's, 'r) Shared \<Rightarrow> ('t, 'c, 's, 'r) Shared" where
  "returned t c s' r w m =
     m\<lparr>sh_state := s', sh_status := (\<lambda>u. wake w (sh_status m u))(t := Running), sh_log := sh_log m @ [(c, r)]\<rparr>"

text \<open>\<^verbatim>\<open>pthread_cond_wait\<close> may return without being woken: the step \<open>spurious\<close>.\<close>

inductive shared_step :: "('c, 's, 'r) attempt \<Rightarrow> ('t, 'c, 's, 'r) Shared \<Rightarrow> ('t, 'c, 's, 'r) Shared \<Rightarrow> bool" for attempt where
  waits: "sh_status m t = Running \<or> sh_status m t = Woken c \<Longrightarrow> attempt c (sh_state m) = Inr None \<Longrightarrow>
    shared_step attempt m (m\<lparr>sh_status := (sh_status m)(t := Waiting c)\<rparr>)"
| returns: "sh_status m t = Running \<or> sh_status m t = Woken c \<Longrightarrow> attempt c (sh_state m) = Inr (Some (s', r, w)) \<Longrightarrow>
    shared_step attempt m (returned t c s' r w m)"
| spurious: "sh_status m t = Waiting c \<Longrightarrow> shared_step attempt m (m\<lparr>sh_status := (sh_status m)(t := Woken c)\<rparr>)"

inductive shared_reach :: "('c, 's, 'r) attempt \<Rightarrow> ('t, 'c, 's, 'r) Shared \<Rightarrow> ('t, 'c, 's, 'r) Shared \<Rightarrow> bool" for attempt m0 where
  start: "shared_reach attempt m0 m0"
| step: "shared_reach attempt m0 m \<Longrightarrow> shared_step attempt m m' \<Longrightarrow> shared_reach attempt m0 m'"

section \<open>The contract of a monitor\<close>

text \<open>
  \<open>must_wait\<close> is the condition of the loop around the wait, \<open>related\<close> what holds between the state and the
  calls that have returned. The law of waking: an attempt that lets a call go on that had to wait before
  wakes the waiters of that call.
\<close>

locale monitor =
  fixes attempt :: "('c, 's, 'r) attempt"
    and must_wait :: "'c \<Rightarrow> 's \<Rightarrow> bool"
    and related :: "'s \<Rightarrow> ('c \<times> 'r) list \<Rightarrow> bool"
  assumes attempt_waits: "attempt c s = Inr None \<longleftrightarrow> must_wait c s"
    and attempt_wakes: "attempt c s = Inr (Some (s', r, w)) \<Longrightarrow> must_wait c' s \<Longrightarrow> \<not> must_wait c' s' \<Longrightarrow> w c'"
    and attempt_related: "attempt c s = Inr (Some (s', r, w)) \<Longrightarrow> related s log \<Longrightarrow> related s' (log @ [(c, r)])"
begin

definition ok :: "('t, 'c, 's, 'r) Shared \<Rightarrow> bool" where
  "ok m \<longleftrightarrow> related (sh_state m) (sh_log m) \<and> (\<forall>t c. sh_status m t = Waiting c \<longrightarrow> must_wait c (sh_state m))"

lemma step_ok: "shared_step attempt m m' \<Longrightarrow> ok m \<Longrightarrow> ok m'"
proof (induction rule: shared_step.induct)
  case (waits m t c)
  then show ?case by (auto simp: ok_def attempt_waits)
next
  case (returns m t c s' r w)
  then show ?case
    using attempt_wakes [OF returns(2)] attempt_related [OF returns(2)]
    by (auto simp: ok_def returned_def)
next
  case (spurious m t c)
  then show ?case by (auto simp: ok_def)
qed

lemma reach_ok: "shared_reach attempt (shared_new s) m \<Longrightarrow> related s [] \<Longrightarrow> ok m"
proof (induction rule: shared_reach.induct)
  case start
  then show ?case by (simp add: ok_def shared_new_def)
next
  case (step m m')
  then show ?case using step_ok by blast
qed

text \<open>Waiters wait for something: a call that is waited in has to wait.\<close>

lemma waits_rightly:
  "shared_reach attempt (shared_new s) m \<Longrightarrow> related s [] \<Longrightarrow> sh_status m t = Waiting c \<Longrightarrow> must_wait c (sh_state m)"
  using reach_ok by (auto simp: ok_def)

lemma reach_related: "shared_reach attempt (shared_new s) m \<Longrightarrow> related s [] \<Longrightarrow> related (sh_state m) (sh_log m)"
  using reach_ok by (auto simp: ok_def)

end

section \<open>Blocking queues\<close>

text \<open>
  The calls of both queues. \<^verbatim>\<open>get()\<close> keeps a reference to the front element, pops it, and copies it from
  the reference; what reading the destroyed element yields is the parameter \<open>dead\<close>.
\<close>

datatype 'a queue_call = Put 'a | Get

definition is_Get :: "'a queue_call \<Rightarrow> bool" where
  "is_Get c \<longleftrightarrow> c = Get"

record 'a BlockingQueue =
  bq_queue :: "'a list"

definition BlockingQueue_put :: "'a \<Rightarrow> 'a BlockingQueue \<Rightarrow> ('a BlockingQueue \<times> 'a option \<times> ('a queue_call \<Rightarrow> bool)) option res" where
  "BlockingQueue_put x q = Inr (Some (q\<lparr>bq_queue := bq_queue q @ [x]\<rparr>, None, is_Get))"

definition BlockingQueue_get ::
  "bool \<Rightarrow> ('a \<Rightarrow> 'a res) \<Rightarrow> 'a BlockingQueue \<Rightarrow> ('a BlockingQueue \<times> 'a option \<times> ('a queue_call \<Rightarrow> bool)) option res" where
  "BlockingQueue_get dbg dead q =
     (if bq_queue q = [] then Inr None
      else cassert dbg (bq_queue q \<noteq> [])
        (let x = hd (bq_queue q); q' = q\<lparr>bq_queue := tl (bq_queue q)\<rparr>
         in bindR (dead x) (\<lambda>y. Inr (Some (q', Some y, \<lambda>_. False)))))"

definition BlockingQueue_size :: "'a BlockingQueue \<Rightarrow> nat" where
  "BlockingQueue_size q = length (bq_queue q)"

fun BlockingQueue_attempt :: "bool \<Rightarrow> ('a \<Rightarrow> 'a res) \<Rightarrow> ('a queue_call, 'a BlockingQueue, 'a option) attempt" where
  "BlockingQueue_attempt dbg dead (Put x) q = BlockingQueue_put x q"
| "BlockingQueue_attempt dbg dead Get q = BlockingQueue_get dbg dead q"

record 'a BoundedBlockingQueue =
  bb_maxCapacity :: nat
  bb_queue :: "'a list"

definition BoundedBlockingQueue_new :: "nat \<Rightarrow> 'a BoundedBlockingQueue" where
  "BoundedBlockingQueue_new max_cap = \<lparr>bb_maxCapacity = max_cap, bb_queue = []\<rparr>"

definition is_Put :: "'a queue_call \<Rightarrow> bool" where
  "is_Put c \<longleftrightarrow> c \<noteq> Get"

definition BoundedBlockingQueue_put ::
  "bool \<Rightarrow> 'a \<Rightarrow> 'a BoundedBlockingQueue \<Rightarrow> ('a BoundedBlockingQueue \<times> 'a option \<times> ('a queue_call \<Rightarrow> bool)) option res" where
  "BoundedBlockingQueue_put dbg x q =
     (if bb_maxCapacity q \<le> length (bb_queue q) then Inr None
      else cassert dbg (length (bb_queue q) < bb_maxCapacity q)
        (Inr (Some (q\<lparr>bb_queue := bb_queue q @ [x]\<rparr>, None, is_Get))))"

definition BoundedBlockingQueue_get ::
  "bool \<Rightarrow> ('a \<Rightarrow> 'a res) \<Rightarrow> 'a BoundedBlockingQueue \<Rightarrow>
     ('a BoundedBlockingQueue \<times> 'a option \<times> ('a queue_call \<Rightarrow> bool)) option res" where
  "BoundedBlockingQueue_get dbg dead q =
     (if bb_queue q = [] then Inr None
      else cassert dbg (0 < length (bb_queue q))
        (let x = hd (bb_queue q); q' = q\<lparr>bb_queue := tl (bb_queue q)\<rparr>
         in bindR (dead x) (\<lambda>y. Inr (Some (q', Some y, is_Put)))))"

definition BoundedBlockingQueue_size :: "'a BoundedBlockingQueue \<Rightarrow> nat" where
  "BoundedBlockingQueue_size q = length (bb_queue q)"

fun BoundedBlockingQueue_attempt :: "bool \<Rightarrow> ('a \<Rightarrow> 'a res) \<Rightarrow> ('a queue_call, 'a BoundedBlockingQueue, 'a option) attempt" where
  "BoundedBlockingQueue_attempt dbg dead (Put x) q = BoundedBlockingQueue_put dbg x q"
| "BoundedBlockingQueue_attempt dbg dead Get q = BoundedBlockingQueue_get dbg dead q"

text \<open>What was put and what was returned, in the order of the calls' steps.\<close>

fun puts :: "('a queue_call \<times> 'a option) list \<Rightarrow> 'a list" where
  "puts [] = []"
| "puts ((Put x, r) # log) = x # puts log"
| "puts ((Get, r) # log) = puts log"

fun gets :: "('a queue_call \<times> 'a option) list \<Rightarrow> 'a list" where
  "gets [] = []"
| "gets ((Get, Some x) # log) = x # gets log"
| "gets (_ # log) = gets log"

lemma puts_append: "puts (xs @ ys) = puts xs @ puts ys"
  by (induction xs rule: puts.induct) simp_all

lemma gets_append: "gets (xs @ ys) = gets xs @ gets ys"
  by (induction xs rule: gets.induct) simp_all

fun must_wait_queue :: "'a queue_call \<Rightarrow> 'a BlockingQueue \<Rightarrow> bool" where
  "must_wait_queue (Put x) q = False"
| "must_wait_queue Get q = (bq_queue q = [])"

fun must_wait_bounded :: "'a queue_call \<Rightarrow> 'a BoundedBlockingQueue \<Rightarrow> bool" where
  "must_wait_bounded (Put x) q = (bb_maxCapacity q \<le> length (bb_queue q))"
| "must_wait_bounded Get q = (bb_queue q = [])"

lemma must_wait_bounded_cases:
  "\<not> must_wait_bounded c s \<Longrightarrow> is_Get c \<or> is_Put c"
  by (simp add: is_Get_def is_Put_def)

definition bounded_related :: "nat \<Rightarrow> 'a BoundedBlockingQueue \<Rightarrow> ('a queue_call \<times> 'a option) list \<Rightarrow> bool" where
  "bounded_related n q log \<longleftrightarrow> bb_maxCapacity q = n \<and> length (bb_queue q) \<le> n \<and> gets log @ bb_queue q = puts log"

interpretation bounded: monitor "BoundedBlockingQueue_attempt dbg Inr" must_wait_bounded "bounded_related n" for dbg n
proof (unfold_locales, goal_cases)
  case (1 c s)
  then show ?case
    by (cases c) (auto simp: BoundedBlockingQueue_put_def BoundedBlockingQueue_get_def cassert_holds Let_def)
next
  case (2 c s s' r w c')
  then show ?case
    by (cases c; cases c') (auto simp: BoundedBlockingQueue_put_def BoundedBlockingQueue_get_def cassert_def Let_def
        is_Get_def is_Put_def split: if_splits)
next
  case (3 c s s' r w log)
  then show ?case
    by (cases c) (auto simp: BoundedBlockingQueue_put_def BoundedBlockingQueue_get_def cassert_def Let_def
        bounded_related_def puts_append gets_append split: if_splits)
qed

definition queue_related :: "'a BlockingQueue \<Rightarrow> ('a queue_call \<times> 'a option) list \<Rightarrow> bool" where
  "queue_related q log \<longleftrightarrow> gets log @ bq_queue q = puts log"

interpretation unbounded: monitor "BlockingQueue_attempt dbg Inr" must_wait_queue queue_related for dbg
proof (unfold_locales, goal_cases)
  case (1 c s)
  then show ?case by (cases c) (auto simp: BlockingQueue_put_def BlockingQueue_get_def cassert_holds Let_def)
next
  case (2 c s s' r w c')
  then show ?case
    by (cases c; cases c') (auto simp: BlockingQueue_put_def BlockingQueue_get_def cassert_def Let_def is_Get_def split: if_splits)
next
  case (3 c s s' r w log)
  then show ?case
    by (cases c) (auto simp: BlockingQueue_put_def BlockingQueue_get_def cassert_def Let_def queue_related_def
        puts_append gets_append split: if_splits)
qed

section \<open>The latch\<close>

datatype latch_call = Wait | CountDown

record CountdownLatch =
  cl_count :: int

definition CountdownLatch_new :: "int \<Rightarrow> CountdownLatch" where
  "CountdownLatch_new count = \<lparr>cl_count = count\<rparr>"

definition CountdownLatch_wait :: "bool \<Rightarrow> CountdownLatch \<Rightarrow> (CountdownLatch \<times> unit \<times> (latch_call \<Rightarrow> bool)) option res" where
  "CountdownLatch_wait dbg l =
     (if 0 < cl_count l then Inr None else cassert dbg (cl_count l = 0) (Inr (Some (l, (), \<lambda>_. False))))"

definition CountdownLatch_countDown :: "CountdownLatch \<Rightarrow> (CountdownLatch \<times> unit \<times> (latch_call \<Rightarrow> bool)) option res" where
  "CountdownLatch_countDown l =
     bindR (sub32 (Inr (cl_count l)) (Inr 1)) (\<lambda>n. Inr (Some (l\<lparr>cl_count := n\<rparr>, (), \<lambda>c. n = 0)))"

definition CountdownLatch_getCount :: "CountdownLatch \<Rightarrow> int" where
  "CountdownLatch_getCount l = cl_count l"

fun latch_attempt :: "bool \<Rightarrow> (latch_call, CountdownLatch, unit) attempt" where
  "latch_attempt dbg Wait l = CountdownLatch_wait dbg l"
| "latch_attempt dbg CountDown l = CountdownLatch_countDown l"

fun must_wait_latch :: "latch_call \<Rightarrow> CountdownLatch \<Rightarrow> bool" where
  "must_wait_latch Wait l = (0 < cl_count l)"
| "must_wait_latch CountDown l = False"

definition downs :: "(latch_call \<times> unit) list \<Rightarrow> int" where
  "downs log = int (length (filter (\<lambda>(c, _). c = CountDown) log))"

definition latch_related :: "int \<Rightarrow> CountdownLatch \<Rightarrow> (latch_call \<times> unit) list \<Rightarrow> bool" where
  "latch_related n l log \<longleftrightarrow> cl_count l = n - downs log \<and> ((Wait, ()) \<in> set log \<longrightarrow> n \<le> downs log)"

interpretation latch: monitor "latch_attempt dbg" must_wait_latch "latch_related n" for dbg n
proof (unfold_locales, goal_cases)
  case (1 c l)
  then show ?case by (cases c) (auto simp: CountdownLatch_wait_def CountdownLatch_countDown_def cassert_def bindR_def split: sum.split)
next
  case (2 c l l' r w c')
  then show ?case
    by (cases c; cases c') (auto simp: CountdownLatch_wait_def CountdownLatch_countDown_def cassert_def cint_def split: if_splits)
next
  case (3 c l l' r w log)
  then show ?case
    by (cases c) (auto simp: CountdownLatch_wait_def CountdownLatch_countDown_def cassert_def cint_def latch_related_def downs_def
        split: if_splits)
qed

section \<open>Properties\<close>

text \<open>
  C22. The bounded queue among any number of threads that put and get in any order, with spurious wakeups:
  what was returned by \<^verbatim>\<open>get()\<close>, followed by what is in the queue, is what was put, in the order of the
  puts, and the queue never exceeds its capacity. No wakeup is lost: a thread that waits in \<^verbatim>\<open>get()\<close> finds
  the queue empty, one that waits in \<^verbatim>\<open>put()\<close> finds it full, so with room for one element the two kinds
  never wait at the same time. No call faults, provided reading an element after \<^verbatim>\<open>pop_front()\<close> still
  yields its value.
\<close>

theorem BoundedBlockingQueue_correct:
  assumes "shared_reach (BoundedBlockingQueue_attempt dbg Inr) (shared_new (BoundedBlockingQueue_new n)) m"
  shows "gets (sh_log m) @ bb_queue (sh_state m) = puts (sh_log m) \<and> length (bb_queue (sh_state m)) \<le> n \<and>
    (sh_status m t = Waiting Get \<longrightarrow> bb_queue (sh_state m) = []) \<and>
    (sh_status m t' = Waiting (Put x) \<longrightarrow> length (bb_queue (sh_state m)) = n) \<and>
    (0 < n \<longrightarrow> \<not> (sh_status m t = Waiting Get \<and> sh_status m t' = Waiting (Put x))) \<and>
    returns (BoundedBlockingQueue_attempt dbg Inr c (sh_state m)) (\<lambda>_. True)"
proof -
  have new: "bounded_related n (BoundedBlockingQueue_new n) []"
    by (simp add: bounded_related_def BoundedBlockingQueue_new_def)
  have rel: "bounded_related n (sh_state m) (sh_log m)" by (rule bounded.reach_related [OF assms new])
  then have "gets (sh_log m) @ bb_queue (sh_state m) = puts (sh_log m) \<and> length (bb_queue (sh_state m)) \<le> n"
    by (simp add: bounded_related_def)
  moreover have get: "bb_queue (sh_state m) = []" if "sh_status m t = Waiting Get" for t
    using bounded.waits_rightly [OF assms new that] by simp
  moreover have put: "length (bb_queue (sh_state m)) = n" if "sh_status m t = Waiting (Put x)" for t x
    using bounded.waits_rightly [OF assms new that] rel by (simp add: bounded_related_def)
  moreover have "returns (BoundedBlockingQueue_attempt dbg Inr c (sh_state m)) (\<lambda>_. True)"
    by (cases c) (auto simp: BoundedBlockingQueue_put_def BoundedBlockingQueue_get_def cassert_holds Let_def)
  ultimately show ?thesis using get [of t] put [of t' x] by auto
qed

theorem BoundedBlockingQueue_correct_witness:
  "\<exists>m :: (nat, nat queue_call, nat BoundedBlockingQueue, nat option) Shared.
     sh_status m 0 = Waiting Get \<and> sh_status m 1 \<noteq> Waiting (Put 5) \<and> bb_queue (sh_state m) = []"
proof -
  let ?a = "BoundedBlockingQueue_attempt True Inr :: (nat queue_call, nat BoundedBlockingQueue, nat option) attempt"
  define m :: "(nat, nat queue_call, nat BoundedBlockingQueue, nat option) Shared"
    where "m = (shared_new (BoundedBlockingQueue_new 2))\<lparr>sh_status := (\<lambda>_. Running)(0 := Waiting Get)\<rparr>"
  have "shared_step ?a (shared_new (BoundedBlockingQueue_new 2)) m"
    using shared_step.waits [of "shared_new (BoundedBlockingQueue_new 2)" 0 Get ?a]
    by (simp add: m_def shared_new_def BoundedBlockingQueue_get_def BoundedBlockingQueue_new_def)
  then have reach: "shared_reach ?a (shared_new (BoundedBlockingQueue_new 2)) m" by (blast intro: shared_reach.intros)
  have "sh_status m 0 = Waiting Get" by (simp add: m_def)
  with BoundedBlockingQueue_correct [OF reach, of 0 1 5 Get] show ?thesis
    by auto
qed

text \<open>
  The unbounded queue under the same conditions: first in, first out; a thread that waits in
  \<^verbatim>\<open>get()\<close> finds the queue empty; \<^verbatim>\<open>put()\<close> never waits and no call faults.
\<close>

theorem BlockingQueue_correct:
  assumes "shared_reach (BlockingQueue_attempt dbg Inr) (shared_new \<lparr>bq_queue = []\<rparr>) m"
  shows "gets (sh_log m) @ bq_queue (sh_state m) = puts (sh_log m) \<and>
    (sh_status m t = Waiting c \<longrightarrow> c = Get \<and> bq_queue (sh_state m) = []) \<and>
    returns (BlockingQueue_attempt dbg Inr c (sh_state m)) (\<lambda>_. True)"
proof (intro conjI)
  have new: "queue_related \<lparr>bq_queue = []\<rparr> []" by (simp add: queue_related_def)
  show "gets (sh_log m) @ bq_queue (sh_state m) = puts (sh_log m)"
    using unbounded.reach_related [OF assms new] by (simp add: queue_related_def)
  show "sh_status m t = Waiting c \<longrightarrow> c = Get \<and> bq_queue (sh_state m) = []"
  proof
    assume "sh_status m t = Waiting c"
    from unbounded.waits_rightly [OF assms new this] show "c = Get \<and> bq_queue (sh_state m) = []" by (cases c) simp_all
  qed
  show "returns (BlockingQueue_attempt dbg Inr c (sh_state m)) (\<lambda>_. True)"
    by (cases c) (auto simp: BlockingQueue_put_def BlockingQueue_get_def cassert_holds Let_def)
qed

theorem BlockingQueue_correct_witness:
  "gets [(Put (1::nat), None), (Get, Some 1)] @ [] = puts [(Put 1, None), (Get, Some 1)]"
proof -
  let ?a = "BlockingQueue_attempt True Inr :: (nat queue_call, nat BlockingQueue, nat option) attempt"
  let ?m0 = "shared_new \<lparr>bq_queue = []\<rparr> :: (nat, nat queue_call, nat BlockingQueue, nat option) Shared"
  let ?m1 = "returned 0 (Put 1) \<lparr>bq_queue = [1]\<rparr> None is_Get ?m0"
  let ?m2 = "returned 1 Get \<lparr>bq_queue = []\<rparr> (Some 1) (\<lambda>_. False) ?m1"
  have "shared_step ?a ?m0 ?m1"
    by (rule shared_step.returns) (simp_all add: shared_new_def BlockingQueue_put_def)
  moreover have "shared_step ?a ?m1 ?m2"
    by (rule shared_step.returns) (simp_all add: shared_new_def returned_def BlockingQueue_get_def cassert_def)
  ultimately have reach: "shared_reach ?a ?m0 ?m2" by (blast intro: shared_reach.intros)
  from BlockingQueue_correct [OF reach] show ?thesis by (simp add: returned_def shared_new_def)
qed

text \<open>
  When an element cannot be read after \<^verbatim>\<open>pop_front()\<close> has destroyed it, \<^verbatim>\<open>get()\<close> of either queue
  never returns an element: it waits, or reads through the dangling reference.
\<close>

theorem queues_get_dangles:
  assumes "shared_reach (BlockingQueue_attempt dbg (\<lambda>_. Inl BadPointer)) (shared_new q0) m"
    and "shared_reach (BoundedBlockingQueue_attempt dbg (\<lambda>_. Inl BadPointer)) (shared_new b0) m'"
  shows "gets (sh_log m) = [] \<and> gets (sh_log m') = [] \<and>
      (bq_queue (sh_state m) \<noteq> [] \<longrightarrow> BlockingQueue_attempt dbg (\<lambda>_. Inl BadPointer) Get (sh_state m) = Inl BadPointer) \<and>
      (bb_queue (sh_state m') \<noteq> [] \<longrightarrow> BoundedBlockingQueue_attempt dbg (\<lambda>_. Inl BadPointer) Get (sh_state m') = Inl BadPointer)"
proof -
  have one: "gets [(c, r)] = []" if "BlockingQueue_attempt dbg (\<lambda>_. Inl BadPointer) c q = Inr (Some (q', r, w))" for c q q' r w
    using that by (cases c) (auto simp: BlockingQueue_get_def cassert_def Let_def split: if_splits)
  have two: "gets [(c, r)] = []" if "BoundedBlockingQueue_attempt dbg (\<lambda>_. Inl BadPointer) c q = Inr (Some (q', r, w))" for c q q' r w
    using that by (cases c) (auto simp: BoundedBlockingQueue_get_def cassert_def Let_def split: if_splits)
  have "gets (sh_log m) = []"
    using assms(1)
    by (induction rule: shared_reach.induct)
      (auto simp: shared_new_def gets_append returned_def one elim!: shared_step.cases)
  moreover have "gets (sh_log m') = []"
    using assms(2)
    by (induction rule: shared_reach.induct)
      (auto simp: shared_new_def gets_append returned_def two elim!: shared_step.cases)
  ultimately show ?thesis
    by (auto simp: BlockingQueue_get_def BoundedBlockingQueue_get_def cassert_holds Let_def)
qed

theorem queues_get_dangles_witness:
  "\<exists>m :: (nat, nat queue_call, nat BlockingQueue, nat option) Shared.
     shared_reach (BlockingQueue_attempt True (\<lambda>_. Inl BadPointer)) (shared_new \<lparr>bq_queue = [1]\<rparr>) m \<and>
     BlockingQueue_attempt True (\<lambda>_. Inl BadPointer) Get (sh_state m) = Inl BadPointer"
proof -
  let ?m = "shared_new \<lparr>bq_queue = [1::nat]\<rparr> :: (nat, nat queue_call, nat BlockingQueue, nat option) Shared"
  have reach: "shared_reach (BlockingQueue_attempt True (\<lambda>_. Inl BadPointer)) (shared_new \<lparr>bq_queue = [1]\<rparr>) ?m"
    by (rule shared_reach.start)
  have "shared_reach (BoundedBlockingQueue_attempt True (\<lambda>_. Inl BadPointer)) (shared_new (BoundedBlockingQueue_new 1))
      (shared_new (BoundedBlockingQueue_new 1) :: (nat, nat queue_call, nat BoundedBlockingQueue, nat option) Shared)"
    by (rule shared_reach.start)
  note dangles = queues_get_dangles [OF reach this]
  have "bq_queue (sh_state ?m) \<noteq> []" by (simp add: shared_new_def)
  then show ?thesis using reach dangles by blast
qed

text \<open>
  The latch among any number of threads: the count is the initial one less the calls of
  \<^verbatim>\<open>countDown()\<close>; \<^verbatim>\<open>wait()\<close> has returned only after as many of them, and a thread waits in it only before
  that. With one more \<^verbatim>\<open>countDown()\<close> than the count, every \<^verbatim>\<open>wait()\<close> of a build with asserts aborts, of
  threads that have been woken and not run yet too.
\<close>

theorem CountdownLatch_correct:
  assumes "shared_reach (latch_attempt dbg) (shared_new (CountdownLatch_new n)) m"
  shows "cl_count (sh_state m) = n - downs (sh_log m) \<and>
    ((Wait, ()) \<in> set (sh_log m) \<longrightarrow> n \<le> downs (sh_log m)) \<and> (sh_status m t = Waiting c \<longrightarrow> downs (sh_log m) < n) \<and>
    (latch_attempt True Wait (sh_state m) = Inl AssertFail \<longleftrightarrow> n < downs (sh_log m))"
proof -
  have new: "latch_related n (CountdownLatch_new n) []"
    by (simp add: latch_related_def CountdownLatch_new_def downs_def)
  have rel: "latch_related n (sh_state m) (sh_log m)" by (rule latch.reach_related [OF assms new])
  then have count: "cl_count (sh_state m) = n - downs (sh_log m)" by (simp add: latch_related_def)
  have "downs (sh_log m) < n" if "sh_status m t = Waiting c"
    using latch.waits_rightly [OF assms new that] count by (cases c) simp_all
  moreover have "latch_attempt True Wait (sh_state m) = Inl AssertFail \<longleftrightarrow> n < downs (sh_log m)"
    by (auto simp: CountdownLatch_wait_def count cassert_def)
  ultimately show ?thesis using rel count by (simp add: latch_related_def)
qed

theorem CountdownLatch_correct_witness:
  "latch_attempt True Wait \<lparr>cl_count = - 1\<rparr> = Inl AssertFail"
proof -
  let ?m0 = "shared_new (CountdownLatch_new 0) :: (nat, latch_call, CountdownLatch, unit) Shared"
  let ?m1 = "returned 0 CountDown \<lparr>cl_count = - 1\<rparr> () (\<lambda>c. (- 1 :: int) = 0) ?m0"
  have "shared_step (latch_attempt True) ?m0 ?m1"
    by (rule shared_step.returns) (simp_all add: shared_new_def CountdownLatch_countDown_def CountdownLatch_new_def)
  then have reach: "shared_reach (latch_attempt True) ?m0 ?m1" by (blast intro: shared_reach.intros)
  from CountdownLatch_correct [OF reach] show ?thesis
    by (simp add: returned_def shared_new_def downs_def)
qed

end
