(* ===== verification/ThreadPool.thy ===== *)
theory ThreadPool
  imports Monitor
begin

text \<open>
  The thread pool of threadpool.h and threadpool.cc: a bounded queue of tasks, worker threads that take and
  run them, and threads that submit them, as a step relation over the operations. Creating and joining
  threads is left to the operating system; what a task does is not looked at.
\<close>

section \<open>The pool\<close>

text \<open>A task is a \<^verbatim>\<open>std::function\<close>, possibly empty.\<close>

record 'a ThreadPool =
  tp_threadInitCallback :: bool
  tp_threads :: nat
  tp_queue :: "'a option list"
  tp_maxQueueSize :: nat
  tp_running :: bool

definition ThreadPool_new :: "'a ThreadPool" where
  "ThreadPool_new = \<lparr>tp_threadInitCallback = False, tp_threads = 0, tp_queue = [], tp_maxQueueSize = 0, tp_running = False\<rparr>"

text \<open>The \<^verbatim>\<open>int\<close> is converted to \<^verbatim>\<open>size_t\<close>.\<close>

definition ThreadPool_setMaxQueueSize :: "int \<Rightarrow> 'a ThreadPool \<Rightarrow> 'a ThreadPool" where
  "ThreadPool_setMaxQueueSize maxSize p = p\<lparr>tp_maxQueueSize := size_of_int maxSize\<rparr>"

text \<open>The result says whether the init callback is called by the caller.\<close>

definition ThreadPool_start :: "bool \<Rightarrow> int \<Rightarrow> 'a ThreadPool \<Rightarrow> (bool \<times> 'a ThreadPool) res" where
  "ThreadPool_start dbg numThreads p =
     cassert dbg (tp_threads p \<noteq> 0)
       (Inr (numThreads = 0 \<and> tp_threadInitCallback p,
             p\<lparr>tp_running := True, tp_threads := tp_threads p + nat numThreads\<rparr>))"

definition ThreadPool_isFull :: "'a ThreadPool \<Rightarrow> bool" where
  "ThreadPool_isFull p \<longleftrightarrow> 0 < tp_maxQueueSize p \<and> tp_maxQueueSize p \<le> length (tp_queue p)"

datatype 'a run_result = RunsHere "'a" | MustWait | Queued "'a ThreadPool"

definition ThreadPool_run :: "bool \<Rightarrow> 'a option \<Rightarrow> 'a ThreadPool \<Rightarrow> 'a run_result res" where
  "ThreadPool_run dbg task p =
     (if tp_threads p = 0 then (case task of None \<Rightarrow> Inl BadCall | Some a \<Rightarrow> Inr (RunsHere a))
      else if ThreadPool_isFull p then Inr MustWait
      else cassert dbg (\<not> ThreadPool_isFull p) (Inr (Queued (p\<lparr>tp_queue := tp_queue p @ [task]\<rparr>))))"

text \<open>\<open>None\<close> if the thread must wait, else the task, the pool, and whether waiters of \<^verbatim>\<open>notFull_\<close> are woken.\<close>

definition ThreadPool_take :: "'a ThreadPool \<Rightarrow> ('a option \<times> 'a ThreadPool \<times> bool) option" where
  "ThreadPool_take p =
     (if tp_queue p = [] \<and> tp_running p then None
      else Some (case tp_queue p of
                   [] \<Rightarrow> (None, p, False)
                 | task # queue \<Rightarrow> (task, p\<lparr>tp_queue := queue\<rparr>, 0 < tp_maxQueueSize p)))"

definition ThreadPool_stop :: "'a ThreadPool \<Rightarrow> 'a ThreadPool" where
  "ThreadPool_stop p = p\<lparr>tp_running := False\<rparr>"

definition ThreadPool_queueSize :: "'a ThreadPool \<Rightarrow> nat" where
  "ThreadPool_queueSize p = length (tp_queue p)"

section \<open>Threads\<close>

text \<open>
  A worker is at the condition of the loop of \<^verbatim>\<open>runInThread\<close>, in \<^verbatim>\<open>take()\<close> (about to take the mutex, or
  waiting for \<^verbatim>\<open>notEmpty_\<close>), runs a task, or has returned. Submitting threads are those of Monitor; they wait
  for \<^verbatim>\<open>notFull_\<close>. \<open>pw_submitted\<close> and \<open>pw_taken\<close> record the tasks queued and taken.
\<close>

datatype 'a worker = AtLoop | Taking | Asleep | Executing 'a | Finished

record ('t, 'a) PoolWorld =
  pw_pool :: "'a ThreadPool"
  pw_worker :: "nat \<Rightarrow> 'a worker"
  pw_client :: "'t \<Rightarrow> 'a option status"
  pw_submitted :: "'a option list"
  pw_taken :: "'a option list"

definition wake_workers :: "(nat \<Rightarrow> 'a worker) \<Rightarrow> nat \<Rightarrow> 'a worker" where
  "wake_workers ws = (\<lambda>i. if ws i = Asleep then Taking else ws i)"

text \<open>One step of worker \<open>i\<close>, the body of \<^verbatim>\<open>runInThread\<close>; \<open>None\<close> when it has no step of its own.\<close>

definition worker_step :: "nat \<Rightarrow> ('t, 'a) PoolWorld \<Rightarrow> ('t, 'a) PoolWorld option" where
  "worker_step i w =
     (case pw_worker w i of
        AtLoop \<Rightarrow> Some (w\<lparr>pw_worker := (pw_worker w)(i := if tp_running (pw_pool w) then Taking else Finished)\<rparr>)
      | Taking \<Rightarrow>
          (case ThreadPool_take (pw_pool w) of
             None \<Rightarrow> Some (w\<lparr>pw_worker := (pw_worker w)(i := Asleep)\<rparr>)
           | Some (task, p, woken) \<Rightarrow>
               Some (w\<lparr>pw_pool := p,
                       pw_worker := (pw_worker w)(i := case task of None \<Rightarrow> AtLoop | Some a \<Rightarrow> Executing a),
                       pw_client := (\<lambda>t. wake (\<lambda>_. woken) (pw_client w t)),
                       pw_taken := pw_taken w @ (if tp_queue (pw_pool w) = [] then [] else [task])\<rparr>))
      | Asleep \<Rightarrow> None
      | Executing a \<Rightarrow> Some (w\<lparr>pw_worker := (pw_worker w)(i := AtLoop)\<rparr>)
      | Finished \<Rightarrow> None)"

inductive pool_step :: "bool \<Rightarrow> ('t, 'a) PoolWorld \<Rightarrow> ('t, 'a) PoolWorld \<Rightarrow> bool" for dbg where
  worker: "i < tp_threads (pw_pool w) \<Longrightarrow> worker_step i w = Some w' \<Longrightarrow> pool_step dbg w w'"
| queued: "pw_client w t = Running \<or> pw_client w t = Woken task \<Longrightarrow> ThreadPool_run dbg task (pw_pool w) = Inr (Queued p) \<Longrightarrow>
    pool_step dbg w (w\<lparr>pw_pool := p, pw_worker := wake_workers (pw_worker w), pw_client := (pw_client w)(t := Running),
                       pw_submitted := pw_submitted w @ [task]\<rparr>)"
| waits: "pw_client w t = Running \<or> pw_client w t = Woken task \<Longrightarrow> ThreadPool_run dbg task (pw_pool w) = Inr MustWait \<Longrightarrow>
    pool_step dbg w (w\<lparr>pw_client := (pw_client w)(t := Waiting task)\<rparr>)"
| stop: "pool_step dbg w (w\<lparr>pw_pool := ThreadPool_stop (pw_pool w), pw_worker := wake_workers (pw_worker w)\<rparr>)"
| spurious_worker: "pw_worker w i = Asleep \<Longrightarrow> pool_step dbg w (w\<lparr>pw_worker := (pw_worker w)(i := Taking)\<rparr>)"
| spurious_client: "pw_client w t = Waiting task \<Longrightarrow> pool_step dbg w (w\<lparr>pw_client := (pw_client w)(t := Woken task)\<rparr>)"

text \<open>A pool of \<open>n\<close> threads that has just been started, with room for \<open>m\<close> tasks (no bound if zero).\<close>

definition pool_started :: "nat \<Rightarrow> nat \<Rightarrow> ('t, 'a) PoolWorld" where
  "pool_started n m =
     \<lparr>pw_pool = ThreadPool_new\<lparr>tp_threads := n, tp_maxQueueSize := m, tp_running := True\<rparr>,
      pw_worker = (\<lambda>_. AtLoop), pw_client = (\<lambda>_. Running), pw_submitted = [], pw_taken = []\<rparr>"

inductive pool_reach :: "bool \<Rightarrow> nat \<Rightarrow> nat \<Rightarrow> ('t, 'a) PoolWorld \<Rightarrow> bool" for dbg n m where
  start: "pool_reach dbg n m (pool_started n m)"
| step: "pool_reach dbg n m w \<Longrightarrow> pool_step dbg w w' \<Longrightarrow> pool_reach dbg n m w'"

section \<open>Invariant\<close>

definition Pool_ok :: "nat \<Rightarrow> nat \<Rightarrow> ('t, 'a) PoolWorld \<Rightarrow> bool" where
  "Pool_ok n m w \<longleftrightarrow>
     tp_threads (pw_pool w) = n \<and> tp_maxQueueSize (pw_pool w) = m \<and>
     pw_taken w @ tp_queue (pw_pool w) = pw_submitted w \<and>
     (0 < m \<longrightarrow> length (tp_queue (pw_pool w)) \<le> m) \<and>
     (\<forall>i. pw_worker w i = Asleep \<longrightarrow> tp_queue (pw_pool w) = [] \<and> tp_running (pw_pool w)) \<and>
     (\<forall>t task. pw_client w t = Waiting task \<longrightarrow> ThreadPool_isFull (pw_pool w))"

lemma pool_started_ok: "Pool_ok n m (pool_started n m)"
  by (simp add: Pool_ok_def pool_started_def ThreadPool_new_def)

lemma take_cases:
  assumes "ThreadPool_take p = Some (task, p', woken)"
  obtains "tp_queue p = []" "task = None" "p' = p" "\<not> woken" "\<not> tp_running p"
  | queue where "tp_queue p = task # queue" "p' = p\<lparr>tp_queue := queue\<rparr>" "woken = (0 < tp_maxQueueSize p)"
  using assms by (cases "tp_queue p") (auto simp: ThreadPool_take_def split: if_splits)

lemma worker_step_ok:
  assumes "worker_step i w = Some w'" "Pool_ok n m w"
  shows "Pool_ok n m w'"
proof (cases "pw_worker w i")
  case Taking
  show ?thesis
  proof (cases "ThreadPool_take (pw_pool w)")
    case None
    then show ?thesis
      using assms Taking by (auto simp: worker_step_def Pool_ok_def ThreadPool_take_def split: if_splits)
  next
    case (Some r)
    obtain task p woken where r: "r = (task, p, woken)" by (cases r)
    have w': "w' = w\<lparr>pw_pool := p,
                       pw_worker := (pw_worker w)(i := case task of None \<Rightarrow> AtLoop | Some a \<Rightarrow> Executing a),
                       pw_client := (\<lambda>t. wake (\<lambda>_. woken) (pw_client w t)),
                       pw_taken := pw_taken w @ (if tp_queue (pw_pool w) = [] then [] else [task])\<rparr>"
      using assms(1) Taking Some r by (simp add: worker_step_def)
    from Some r have "ThreadPool_take (pw_pool w) = Some (task, p, woken)" by simp
    then show ?thesis
      by (cases rule: take_cases)
        (use assms(2) in \<open>auto simp: w' Pool_ok_def ThreadPool_isFull_def split: option.splits\<close>)
  qed
qed (use assms in \<open>auto simp: worker_step_def Pool_ok_def split: if_splits\<close>)

lemma pool_step_ok: "pool_step dbg w w' \<Longrightarrow> Pool_ok n m w \<Longrightarrow> Pool_ok n m w'"
proof (induction rule: pool_step.induct)
  case (worker i w w')
  then show ?case using worker_step_ok by blast
next
  case (queued w t task p)
  then have "p = (pw_pool w)\<lparr>tp_queue := tp_queue (pw_pool w) @ [task]\<rparr>" "\<not> ThreadPool_isFull (pw_pool w)"
    by (auto simp: ThreadPool_run_def cassert_def split: if_splits option.splits)
  then show ?case using queued(3) by (auto simp: Pool_ok_def wake_workers_def ThreadPool_isFull_def split: if_splits)
next
  case (waits w t task)
  then show ?case by (auto simp: Pool_ok_def ThreadPool_run_def cassert_def split: if_splits option.splits)
qed (auto simp: Pool_ok_def ThreadPool_stop_def wake_workers_def ThreadPool_isFull_def split: if_splits)

lemma pool_reach_ok: "pool_reach dbg n m w \<Longrightarrow> Pool_ok n m w"
  by (induction rule: pool_reach.induct) (auto intro: pool_started_ok pool_step_ok)

section \<open>Properties\<close>

text \<open>
  C11. A started pool among any number of submitting threads, with spurious wakeups: the tasks taken by
  workers, followed by those in the queue, are the tasks submitted, in order, so every task is taken at most
  once; the queue keeps its bound. No wakeup is lost: a worker sleeps only while the pool runs and the
  queue is empty, a submitter waits only while the queue is full.
\<close>

theorem ThreadPool_correct:
  assumes "pool_reach dbg n m w"
  shows "pw_taken w @ tp_queue (pw_pool w) = pw_submitted w \<and>
    (0 < m \<longrightarrow> length (tp_queue (pw_pool w)) \<le> m) \<and>
    (pw_worker w i = Asleep \<longrightarrow> tp_queue (pw_pool w) = [] \<and> tp_running (pw_pool w)) \<and>
    (pw_client w t = Waiting task \<longrightarrow> 0 < m \<and> length (tp_queue (pw_pool w)) = m)"
  using pool_reach_ok [OF assms] by (auto simp: Pool_ok_def ThreadPool_isFull_def)

fun worker_run :: "nat \<Rightarrow> nat \<Rightarrow> ('t, 'a) PoolWorld \<Rightarrow> ('t, 'a) PoolWorld" where
  "worker_run 0 i w = w"
| "worker_run (Suc k) i w = (case worker_step i w of None \<Rightarrow> w | Some w' \<Rightarrow> worker_run k i w')"

lemma worker_finishes:
  "\<not> tp_running (pw_pool w) \<Longrightarrow> pw_worker w i = AtLoop \<Longrightarrow> pw_worker (worker_run (Suc k) i w) i = Finished"
  by (cases k) (simp_all add: worker_step_def)

text \<open>
  C19. \<^verbatim>\<open>stop()\<close> comes to an end: in every reachable state of a stopped pool each worker, left to run,
  returns from \<^verbatim>\<open>runInThread\<close> after at most three steps (taking one more task, running it, leaving the
  loop), so \<^verbatim>\<open>join\<close> returns if tasks do.
\<close>

theorem ThreadPool_stop_joins:
  assumes "pool_reach dbg n m w" "\<not> tp_running (pw_pool w)"
  shows "pw_worker (worker_run 3 i w) i = Finished"
proof (cases "pw_worker w i")
  case AtLoop
  then show ?thesis using worker_finishes [OF assms(2), of i 2] by (simp add: numeral_eq_Suc)
next
  case Asleep
  then show ?thesis using pool_reach_ok [OF assms(1)] assms(2) by (auto simp: Pool_ok_def)
next
  case (Executing a)
  then show ?thesis using assms(2) by (simp add: numeral_eq_Suc worker_step_def)
next
  case Taking
  obtain r where "ThreadPool_take (pw_pool w) = Some r" using assms(2) by (cases "tp_queue (pw_pool w)") (auto simp: ThreadPool_take_def)
  then obtain task p woken where r: "ThreadPool_take (pw_pool w) = Some (task, p, woken)" by (cases r) auto
  from this have "\<not> tp_running p" using assms(2) by (cases rule: take_cases) auto
  then show ?thesis using Taking r by (auto simp: numeral_eq_Suc worker_step_def split: option.split)
next
  case Finished
  then show ?thesis by (simp add: numeral_eq_Suc worker_step_def)
qed

text \<open>
  But a thread that waits in \<^verbatim>\<open>run()\<close> for room in the queue is not woken by \<^verbatim>\<open>stop()\<close>: once the
  workers have returned it never returns from \<^verbatim>\<open>run()\<close>, whatever happens, and the tasks left in the queue
  are never taken.
\<close>

theorem ThreadPool_stop_strands:
  assumes "pool_reach dbg n m w" "\<not> tp_running (pw_pool w)" "\<forall>i < n. pw_worker w i = Finished"
    and "pw_client w t = Waiting task" "0 < n" and "(pool_step dbg)\<^sup>*\<^sup>* w w'"
  shows "(pw_client w' t = Waiting task \<or> pw_client w' t = Woken task) \<and>
    tp_queue (pw_pool w') = tp_queue (pw_pool w) \<and> pw_taken w' = pw_taken w"
proof -
  define stuck where "stuck v \<longleftrightarrow> (pw_client v t = Waiting task \<or> pw_client v t = Woken task) \<and>
    tp_queue (pw_pool v) = tp_queue (pw_pool w) \<and> pw_taken v = pw_taken w \<and> ThreadPool_isFull (pw_pool v) \<and>
    tp_threads (pw_pool v) = n \<and> (\<forall>i < n. pw_worker v i = Finished)" for v :: "('a, 'b) PoolWorld"
  have "stuck w"
    using pool_reach_ok [OF assms(1)] assms(3, 4) by (auto simp: stuck_def Pool_ok_def)
  have keep: "stuck v'" if "pool_step dbg v v'" "stuck v" for v v'
    using that
  proof (induction rule: pool_step.induct)
    case (worker i v v')
    then show ?case by (auto simp: stuck_def worker_step_def)
  next
    case (queued v u x p)
    then show ?case using assms(5) by (auto simp: stuck_def ThreadPool_run_def split: if_splits)
  next
    case (waits v u x)
    then show ?case by (auto simp: stuck_def)
  qed (auto simp: stuck_def ThreadPool_stop_def wake_workers_def ThreadPool_isFull_def)
  from assms(6) \<open>stuck w\<close> have "stuck w'" by (induction rule: rtranclp_induct) (auto intro: keep)
  then show ?thesis by (simp add: stuck_def)
qed

text \<open>A pool of one thread with room for one task, which is stopped while a submitter waits.\<close>

definition stranded :: "(nat, nat) PoolWorld" where
  "stranded = \<lparr>pw_pool = \<lparr>tp_threadInitCallback = False, tp_threads = 1, tp_queue = [Some 7], tp_maxQueueSize = 1, tp_running = False\<rparr>,
     pw_worker = (\<lambda>_. AtLoop)(0 := Finished), pw_client = (\<lambda>_. Running)(0 := Running, 1 := Waiting (Some 8)),
     pw_submitted = [Some 7], pw_taken = []\<rparr>"

lemma stranded_reach: "pool_reach True 1 1 stranded"
proof -
  let ?s = "pool_started 1 1 :: (nat, nat) PoolWorld"
  let ?p = "(pw_pool ?s)\<lparr>tp_queue := [Some 7]\<rparr>"
  let ?w1 = "?s\<lparr>pw_pool := ?p, pw_worker := wake_workers (pw_worker ?s), pw_client := (pw_client ?s)(0 := Running),
               pw_submitted := pw_submitted ?s @ [Some 7]\<rparr>"
  let ?w2 = "?w1\<lparr>pw_client := (pw_client ?w1)(1 := Waiting (Some 8))\<rparr>"
  let ?w3 = "?w2\<lparr>pw_pool := ThreadPool_stop (pw_pool ?w2), pw_worker := wake_workers (pw_worker ?w2)\<rparr>"
  let ?w4 = "?w3\<lparr>pw_worker := (pw_worker ?w3)(0 := Finished)\<rparr>"
  have "pool_step True ?s ?w1"
    by (rule pool_step.queued) (simp_all add: pool_started_def ThreadPool_new_def ThreadPool_run_def ThreadPool_isFull_def cassert_def)
  moreover have "pool_step True ?w1 ?w2"
    by (rule pool_step.waits) (simp_all add: pool_started_def ThreadPool_new_def ThreadPool_run_def ThreadPool_isFull_def)
  moreover have "pool_step True ?w2 ?w3" by (rule pool_step.stop)
  moreover have "pool_step True ?w3 ?w4"
    by (rule pool_step.worker [of 0])
      (simp_all add: pool_started_def ThreadPool_new_def ThreadPool_stop_def worker_step_def wake_workers_def)
  moreover have "pool_reach True 1 1 ?s" by (rule pool_reach.start)
  ultimately have "pool_reach True 1 1 ?w4" by (meson pool_reach.step)
  moreover have "?w4 = stranded"
    by (simp add: stranded_def pool_started_def ThreadPool_new_def ThreadPool_stop_def wake_workers_def)
  ultimately show ?thesis by simp
qed

theorem ThreadPool_correct_witness: "tp_queue (pw_pool stranded) = pw_submitted stranded \<and> pw_taken stranded = []"
  using ThreadPool_correct [OF stranded_reach, of 0 1 "Some 8"] by (simp add: stranded_def)

theorem ThreadPool_stop_joins_witness: "pw_worker (worker_run 3 0 stranded) 0 = Finished"
proof -
  have "\<not> tp_running (pw_pool stranded)" by (simp add: stranded_def)
  then show ?thesis by (rule ThreadPool_stop_joins [OF stranded_reach])
qed

theorem ThreadPool_stop_strands_witness:
  "let w' = stranded\<lparr>pw_pool := ThreadPool_stop (pw_pool stranded), pw_worker := wake_workers (pw_worker stranded)\<rparr> in
     (pool_step True)\<^sup>*\<^sup>* stranded w' \<and> (pw_client w' 1 = Waiting (Some 8) \<or> pw_client w' 1 = Woken (Some 8)) \<and>
     tp_queue (pw_pool w') = [Some 7]"
proof -
  let ?w' = "stranded\<lparr>pw_pool := ThreadPool_stop (pw_pool stranded), pw_worker := wake_workers (pw_worker stranded)\<rparr>"
  have "pool_step True stranded ?w'" by (rule pool_step.stop)
  then have steps: "(pool_step True)\<^sup>*\<^sup>* stranded ?w'" by (rule r_into_rtranclp)
  have "\<not> tp_running (pw_pool stranded)" "\<forall>i < 1. pw_worker stranded i = Finished" "pw_client stranded 1 = Waiting (Some 8)"
    by (simp_all add: stranded_def)
  from ThreadPool_stop_strands [OF stranded_reach this _ steps] steps show ?thesis
    unfolding Let_def by (simp add: stranded_def)
qed

end
