(* ===== verification/Registry.thy ===== *)
theory Registry
  imports Poller
begin

text \<open>
  What the owners of channels rely on beyond the interface of Poller: the registry works on the channel
  objects themselves, channels are created, registered, removed and deleted.
\<close>

section \<open>A registry of channel objects\<close>

text \<open>A registry whose state holds the channel objects: what its operations leave in them.\<close>

locale channel_registry =
  registry inv watched known fresh set_interest update remove
  for inv :: "'h store \<times> 'w \<Rightarrow> bool" and watched :: "'h store \<times> 'w \<Rightarrow> int \<Rightarrow> (int \<times> nat) option"
    and known :: "'h store \<times> 'w \<Rightarrow> nat \<Rightarrow> int \<Rightarrow> bool" and fresh :: "'h store \<times> 'w \<Rightarrow> nat \<Rightarrow> int \<Rightarrow> bool"
    and update :: "nat \<Rightarrow> 'h store \<times> 'w \<Rightarrow> ('h store \<times> 'w) res"
    and remove :: "nat \<Rightarrow> 'h store \<times> 'w \<Rightarrow> ('h store \<times> 'w) res" +
  assumes watched_channel: "inv s \<Longrightarrow> known s c fd \<Longrightarrow> fst s c = Some ch \<Longrightarrow>
      watched s fd = (if ch_interestedEvents ch = 0 then None else Some (ch_interestedEvents ch, c))"
    and update_channel: "update c (set_interest c e s) = Inr s' \<Longrightarrow> fst s c = Some ch \<Longrightarrow>
      \<exists>ch'. fst s' c = Some ch' \<and> ch_interestedEvents ch' = e \<and> ch_loop ch' = ch_loop ch"
    and remove_channel: "remove c s = Inr s' \<Longrightarrow> fst s c = Some ch \<Longrightarrow>
      \<exists>ch'. fst s' c = Some ch' \<and> ch_interestedEvents ch' = ch_interestedEvents ch \<and> ch_loop ch' = ch_loop ch"
begin

text \<open>The interest of a channel, through its member functions.\<close>

lemma setInterest_ok:
  assumes "inv s" "fst s c = Some ch" "ch_loop ch" "f (ch_interestedEvents ch) = e" "0 \<le> e" "e < 8"
    and "known s c fd \<or> fresh s c fd \<and> e \<noteq> 0"
  shows "returns (Channel_setInterest dbg update f c s) (\<lambda>s'. inv s' \<and> known s' c fd \<and>
     (\<exists>ch'. fst s' c = Some ch' \<and> ch_loop ch' \<and> ch_interestedEvents ch' = e) \<and>
     watched s' = (watched s)(fd := if e = 0 then None else Some (e, c)))"
proof -
  have run: "Channel_setInterest dbg update f c s = update c (set_interest c e s)"
    using assms(2, 3, 4) by (simp add: Channel_setInterest_simp set_interest_def)
  have "returns (update c (set_interest c e s)) (\<lambda>s'. inv s' \<and> known s' c fd \<and>
      watched s' = (watched s)(fd := if e = 0 then None else Some (e, c)))"
    using assms(7)
  proof
    assume "known s c fd"
    then show ?thesis using assms by (intro returns_mono [OF change]) auto
  next
    assume "fresh s c fd \<and> e \<noteq> 0"
    then show ?thesis using assms by (intro returns_mono [OF add]) auto
  qed
  then show ?thesis
    using update_channel [OF _ assms(2), of e] assms(3) unfolding run by (fastforce simp: returns_iff)
qed

end

lemma interest_bits [simp]:
  "(3 :: int) OR 4 = 7" "(0 :: int) OR 3 = 3" "(0 :: int) OR 4 = 4" "(7 :: int) AND NOT 4 = 3"
  "(3 :: int) AND 4 = 0" "(7 :: int) AND 4 = 4" "(0 :: int) AND 4 = 0"
  by code_simp+

lemma Channel_isWriting_bits:
  "ch_interestedEvents ch = 3 \<Longrightarrow> \<not> Channel_isWriting ch"
  "ch_interestedEvents ch = 7 \<Longrightarrow> Channel_isWriting ch"
  "ch_interestedEvents ch = 0 \<Longrightarrow> \<not> Channel_isWriting ch"
  by (simp_all add: Channel_isWriting_def)

interpretation poller_channels: channel_registry Poller_inv Poller_watched Poller_known Poller_fresh
    "Poller_updateChannel False True" "Poller_removeChannel False True"
proof (unfold_locales, goal_cases)
  case (1 s c fd ch)
  then show ?case using Poller_watched_eq [of s fd c ch] by (simp add: Poller_known_def)
next
  case (2 c e s s' ch)
  then show ?case using Poller_update_mask by blast
next
  case (3 c s s' ch)
  then show ?case
    by (auto simp: Poller_removeChannel_def cassert_def Let_def split: if_splits option.splits)
qed

section \<open>The work of others\<close>

lemma same_index: "\<exists>i. ch = ch\<lparr>ch_index := i\<rparr>"
  by (rule exI [of _ "ch_index ch"]) simp

text \<open>The same object but for the index, which a demultiplexer moves when it fills a gap in its array.\<close>

definition same_channel :: "'h Channel option \<Rightarrow> 'h Channel option \<Rightarrow> bool" where
  "same_channel x y \<longleftrightarrow> (\<exists>i. y = map_option (\<lambda>ch. ch\<lparr>ch_index := i\<rparr>) x)"

lemma same_channel_refl [simp]: "same_channel x x"
  by (cases x) (auto simp: same_channel_def same_index)

lemma same_channel_trans: "same_channel x y \<Longrightarrow> same_channel y z \<Longrightarrow> same_channel x z"
  by (cases x) (auto simp: same_channel_def)

lemma same_channel_SomeD: "same_channel (Some ch) y \<Longrightarrow> \<exists>i. y = Some (ch\<lparr>ch_index := i\<rparr>)"
  by (simp add: same_channel_def)

lemma same_channel_Some [simp]: "same_channel (Some ch) (Some (ch\<lparr>ch_index := i\<rparr>))"
  by (auto simp: same_channel_def)

lemma same_channel_None [simp]: "same_channel None y \<longleftrightarrow> y = None"
  by (simp add: same_channel_def)

text \<open>
  What an owner sees of the work of others on the loop: its channel is the same object but for the index, and it is
  registered as before.
\<close>

definition keeps_channel ::
  "('h store \<times> 'w \<Rightarrow> nat \<Rightarrow> int \<Rightarrow> bool) \<Rightarrow> nat \<Rightarrow> 'h store \<times> 'w \<Rightarrow> 'h store \<times> 'w \<Rightarrow> bool" where
  "keeps_channel known c s s' \<longleftrightarrow> same_channel (fst s c) (fst s' c) \<and> known s' c = known s c"

lemma keeps_channel_refl [simp]: "keeps_channel known c s s"
  by (simp add: keeps_channel_def)

lemma keeps_channel_trans: "keeps_channel known c s s' \<Longrightarrow> keeps_channel known c s' s'' \<Longrightarrow> keeps_channel known c s s''"
  by (auto simp: keeps_channel_def intro: same_channel_trans)

section \<open>A registry whose channels come and go\<close>

text \<open>
  \<open>vacant s c fd\<close>: address and descriptor are in nobody's use. A channel made there can be registered; a
  channel that is not registered can be deleted.
\<close>

locale channel_owner =
  channel_registry inv watched known fresh update remove
  for inv :: "'h store \<times> 'w \<Rightarrow> bool" and watched :: "'h store \<times> 'w \<Rightarrow> int \<Rightarrow> (int \<times> nat) option"
    and known :: "'h store \<times> 'w \<Rightarrow> nat \<Rightarrow> int \<Rightarrow> bool" and fresh :: "'h store \<times> 'w \<Rightarrow> nat \<Rightarrow> int \<Rightarrow> bool"
    and update :: "nat \<Rightarrow> 'h store \<times> 'w \<Rightarrow> ('h store \<times> 'w) res"
    and remove :: "nat \<Rightarrow> 'h store \<times> 'w \<Rightarrow> ('h store \<times> 'w) res" +
  fixes vacant :: "'h store \<times> 'w \<Rightarrow> nat \<Rightarrow> int \<Rightarrow> bool"
  assumes create: "inv s \<Longrightarrow> vacant s c fd \<Longrightarrow> ch_fd ch = fd \<Longrightarrow> ch_index ch = - 1 \<Longrightarrow> ch_loop ch \<Longrightarrow>
      inv ((fst s)(c \<mapsto> ch), snd s) \<and> fresh ((fst s)(c \<mapsto> ch), snd s) c fd \<and>
      watched ((fst s)(c \<mapsto> ch), snd s) = watched s \<and> known ((fst s)(c \<mapsto> ch), snd s) = known s"
    and delete: "inv s \<Longrightarrow> (\<forall>fd. \<not> known s c fd) \<Longrightarrow>
      inv ((fst s)(c := None), snd s) \<and> watched ((fst s)(c := None), snd s) = watched s \<and>
      known ((fst s)(c := None), snd s) = known s"
    and known_fd: "inv s \<Longrightarrow> known s c fd \<Longrightarrow> \<exists>ch. fst s c = Some ch \<and> ch_fd ch = fd"
    and update_object: "update c s = Inr s' \<Longrightarrow> fst s c = Some ch \<Longrightarrow> \<exists>i. fst s' c = Some (ch\<lparr>ch_index := i\<rparr>)"
    and remove_object: "remove c s = Inr s' \<Longrightarrow> fst s c = Some ch \<Longrightarrow> \<exists>i. fst s' c = Some (ch\<lparr>ch_index := i\<rparr>)"
    and vacant_fd: "vacant s c fd \<Longrightarrow> 0 \<le> fd"
    and vacant_delete: "vacant s c fd \<Longrightarrow> vacant ((fst s)(c' := None), snd s) c fd"
    and remove_known: "remove c s = Inr s' \<Longrightarrow> known s' c' fd' \<Longrightarrow> known s c' fd'"
begin

lemma known_unique: "inv s \<Longrightarrow> known s c fd \<Longrightarrow> known s c fd' \<Longrightarrow> fd' = fd"
  using known_fd [of s c fd] known_fd [of s c fd'] by auto

lemma setInterest_object:
  assumes "Channel_setInterest dbg update f c s = Inr s'" "fst s c = Some ch"
  shows "\<exists>i. fst s' c = Some (ch\<lparr>ch_interestedEvents := f (ch_interestedEvents ch), ch_index := i\<rparr>)"
proof -
  have "update c ((fst s)(c \<mapsto> ch\<lparr>ch_interestedEvents := f (ch_interestedEvents ch)\<rparr>), snd s) = Inr s'"
    using assms by (auto simp: Channel_setInterest_def Channel_update_def cassert_eq_Inr split: if_splits)
  from update_object [OF this] show ?thesis by simp
qed

text \<open>A registered channel stops listening and leaves; it is known to nobody then.\<close>

lemma leave_ok:
  assumes "inv s" "known s c fd" "fst s c = Some ch" "ch_loop ch"
  shows "returns (bindR (Channel_disableAll dbg update c s) (Channel_remove dbg remove c)) (\<lambda>s'.
     inv s' \<and> (\<forall>fd'. \<not> known s' c fd') \<and> watched s' = (watched s)(fd := None) \<and>
     (\<exists>i. fst s' c = Some (ch\<lparr>ch_interestedEvents := 0, ch_index := i\<rparr>)))"
proof -
  obtain s1 where s1: "Channel_disableAll dbg update c s = Inr s1" "inv s1" "known s1 c fd"
      "watched s1 = (watched s)(fd := None)"
    using setInterest_ok [OF assms(1, 3, 4), of "\<lambda>e. kNoneEvent" 0 fd dbg] assms(2)
    unfolding returns_iff Channel_disableAll_def by auto
  obtain i where o1: "fst s1 c = Some (ch\<lparr>ch_interestedEvents := 0, ch_index := i\<rparr>)"
    using setInterest_object [OF s1(1) [unfolded Channel_disableAll_def] assms(3)] by auto
  have "watched s1 fd = None" using s1(4) by simp
  then obtain s2 where s2: "remove c s1 = Inr s2" "inv s2" "\<not> known s2 c fd" "watched s2 = watched s1"
    using drop [OF s1(2, 3)] unfolding returns_iff by blast
  have "\<not> known s2 c fd'" for fd'
    using remove_known [OF s2(1)] known_unique [OF s1(2, 3)] s2(3) by metis
  moreover have "Channel_remove dbg remove c s1 = Inr s2"
    using o1 assms(4) s2(1) by (simp add: Channel_remove_def Channel_isNoneEvent_def cassert_holds)
  moreover have "\<exists>i. fst s2 c = Some (ch\<lparr>ch_interestedEvents := 0, ch_index := i\<rparr>)"
    using remove_object [OF s2(1) o1] by auto
  ultimately show ?thesis using s1 s2 by simp
qed

end

text \<open>The poller of the library is such a registry.\<close>

definition Poller_vacant :: "'cb reactor \<Rightarrow> nat \<Rightarrow> int \<Rightarrow> bool" where
  "Poller_vacant s c fd \<longleftrightarrow> 0 \<le> fd \<and> po_channels (snd s) fd = None \<and> (\<forall>fd'. po_channels (snd s) fd' \<noteq> Some c) \<and>
     Suc (length (po_pollfds (snd s))) < 2 ^ 31 - 1"

lemma Poller_store_cong:
  assumes "Poller_inv s" "\<forall>fd. po_channels (snd s) fd \<noteq> Some c"
  shows "Poller_inv ((fst s)(c := x), snd s)" "Poller_watched ((fst s)(c := x), snd s) = Poller_watched s"
    "Poller_known ((fst s)(c := x), snd s) = Poller_known s"
proof -
  have "entry_ok ((fst s)(c := x), snd s) i pfd" if "entry_ok s i pfd" for i pfd
    using that assms(2) by (elim entry_ok_cong) auto
  then show "Poller_inv ((fst s)(c := x), snd s)" using assms(1) by (auto simp: Poller_inv_def)
  show "Poller_watched ((fst s)(c := x), snd s) = Poller_watched s"
    using assms(2) by (auto simp: Poller_watched_def fun_eq_iff split: option.splits)
  show "Poller_known ((fst s)(c := x), snd s) = Poller_known s" by (simp add: Poller_known_def fun_eq_iff)
qed

lemma Poller_key_nonneg: "Poller_inv s \<Longrightarrow> po_channels (snd s) fd = Some c \<Longrightarrow> 0 \<le> fd"
  by (elim Poller_entry) auto

interpretation poller_owner: channel_owner Poller_inv Poller_watched Poller_known Poller_fresh
    "Poller_updateChannel False True" "Poller_removeChannel False True" Poller_vacant
proof (unfold_locales, goal_cases)
  case (1 s c fd ch)
  then show ?case using Poller_store_cong [of s c] by (auto simp: Poller_vacant_def Poller_fresh_def)
next
  case (2 s c)
  then have "\<forall>fd. po_channels (snd s) fd \<noteq> Some c"
    using Poller_key_nonneg [of s] by (auto simp: Poller_known_def)
  then show ?case using 2 Poller_store_cong [of s c] by simp
next
  case (3 s c fd)
  then show ?case using Poller_channel_fd [of s fd c] by (auto simp: Poller_known_def)
next
  case (4 c s s' ch)
  then show ?case by (auto simp: Poller_updateChannel_def cassert_def Let_def same_index split: if_splits)
next
  case (5 c s s' ch)
  then show ?case
    by (auto simp: Poller_removeChannel_def cassert_def Let_def same_index split: if_splits option.splits)
next
  case (6 s c fd)
  then show ?case by (simp add: Poller_vacant_def)
next
  case (7 s c fd c')
  then show ?case by (simp add: Poller_vacant_def)
next
  case (8 c s s' c' fd')
  then show ?case
    by (auto simp: Poller_removeChannel_def Poller_known_def cassert_def Let_def split: if_splits option.splits)
qed

end
