(* ===== verification/EPollPoller.thy ===== *)
theory EPollPoller
  imports Registry
begin

text \<open>
  The second demultiplexer, of epollpoller.h and epollpoller.cc: the kernel keeps the set of watched
  descriptors, the object the map from descriptors to channels, and the index of a channel says whether it is
  new, in the kernel's set, or known and not in it. It is the second provider of the interfaces of Poller and
  Registry. What epoll_wait(2) returns is a parameter.
\<close>

section \<open>The code\<close>

definition kNew :: int where "kNew = - 1"
definition kAdded :: int where "kAdded = 1"
definition kDeleted :: int where "kDeleted = 2"

lemmas epoll_tags = kNew_def kAdded_def kDeleted_def

text \<open>
  \<open>ep_loop\<close> says whether the pointer to the loop has been set, \<open>ep_events\<close> is the size of the vector that
  receives reports, \<open>ep_interest\<close> the set the kernel keeps behind \<^verbatim>\<open>epollfd_\<close>: events and the pointer
  stored with them.
\<close>

record EPollPoller =
  ep_loop :: bool
  ep_channels :: "int \<Rightarrow> nat option"
  ep_events :: nat
  ep_interest :: "int \<Rightarrow> (int \<times> nat) option"

type_synonym 'cb epoll_reactor = "'cb store \<times> EPollPoller"

definition kInitEventListSize :: nat where "kInitEventListSize = 16"

text \<open>\<open>epollfd\<close> is what \<^verbatim>\<open>epoll_create1\<close> returned. The initialiser list leaves \<^verbatim>\<open>loop_\<close> out.\<close>

definition EPollPoller_new :: "int \<Rightarrow> EPollPoller res" where
  "EPollPoller_new epollfd =
     (if epollfd < 0 then Inl FatalAbort
      else Inr \<lparr>ep_loop = False, ep_channels = (\<lambda>_. None), ep_events = kInitEventListSize, ep_interest = (\<lambda>_. None)\<rparr>)"

text \<open>
  epoll_ctl(2): adding fails for a descriptor that is there, changing and deleting for one that is not;
  the set is then left alone, and the code does not look at the result.
\<close>

datatype epoll_op = EPOLL_CTL_ADD | EPOLL_CTL_MOD | EPOLL_CTL_DEL

fun epoll_ctl :: "epoll_op \<Rightarrow> int \<Rightarrow> int \<times> nat \<Rightarrow> (int \<Rightarrow> (int \<times> nat) option) \<Rightarrow> int \<Rightarrow> (int \<times> nat) option" where
  "epoll_ctl EPOLL_CTL_ADD fd e k = (if k fd = None then k(fd \<mapsto> e) else k)"
| "epoll_ctl EPOLL_CTL_MOD fd e k = (if k fd = None then k else k(fd \<mapsto> e))"
| "epoll_ctl EPOLL_CTL_DEL fd e k = k(fd := None)"

definition EPollPoller_update :: "epoll_op \<Rightarrow> nat \<Rightarrow> 'cb Channel \<Rightarrow> EPollPoller \<Rightarrow> EPollPoller" where
  "EPollPoller_update op c ch p =
     p\<lparr>ep_interest := epoll_ctl op (ch_fd ch) (ch_interestedEvents ch, c) (ep_interest p)\<rparr>"

definition EPollPoller_updateChannel :: "bool \<Rightarrow> bool \<Rightarrow> nat \<Rightarrow> 'cb epoll_reactor \<Rightarrow> 'cb epoll_reactor res" where
  "EPollPoller_updateChannel dbg inLoop c s =
     (if \<not> ep_loop (snd s) then Inl Uninitialised
      else if \<not> inLoop then Inl FatalAbort
      else case fst s c of
        None \<Rightarrow> Inl BadPointer
      | Some ch \<Rightarrow>
          let p = snd s; tag = ch_index ch; fd = ch_fd ch in
          if tag = kNew \<or> tag = kDeleted
          then bindR (if tag = kNew
                      then cassert dbg (ep_channels p fd = None) (Inr (p\<lparr>ep_channels := (ep_channels p)(fd \<mapsto> c)\<rparr>))
                      else cassert dbg (ep_channels p fd \<noteq> None) (cassert dbg (ep_channels p fd = Some c) (Inr p))) (\<lambda>p'.
                 let ch' = ch\<lparr>ch_index := kAdded\<rparr>
                 in Inr ((fst s)(c \<mapsto> ch'), EPollPoller_update EPOLL_CTL_ADD c ch' p'))
          else if Channel_isNoneEvent ch
          then Inr ((fst s)(c \<mapsto> ch\<lparr>ch_index := kDeleted\<rparr>), EPollPoller_update EPOLL_CTL_DEL c ch p)
          else Inr (fst s, EPollPoller_update EPOLL_CTL_MOD c ch p))"

definition EPollPoller_removeChannel :: "bool \<Rightarrow> bool \<Rightarrow> nat \<Rightarrow> 'cb epoll_reactor \<Rightarrow> 'cb epoll_reactor res" where
  "EPollPoller_removeChannel dbg inLoop c s =
     (if \<not> ep_loop (snd s) then Inl Uninitialised
      else if \<not> inLoop then Inl FatalAbort
      else case fst s c of
        None \<Rightarrow> Inl BadPointer
      | Some ch \<Rightarrow>
          let p = snd s; fd = ch_fd ch; p' = p\<lparr>ep_channels := (ep_channels p)(fd := None)\<rparr> in
          cassert dbg (ep_channels p fd \<noteq> None)
            (Inr ((fst s)(c \<mapsto> ch\<lparr>ch_index := kNew\<rparr>),
                  if ch_index ch = kAdded then EPollPoller_update EPOLL_CTL_DEL c ch p' else p')))"

text \<open>The reports: events and the pointer stored with the descriptor.\<close>

fun EPollPoller_fill :: "(int \<times> nat) list \<Rightarrow> 'cb store \<Rightarrow> nat list \<Rightarrow> ('cb store \<times> nat list) res" where
  "EPollPoller_fill [] st active = Inr (st, active)"
| "EPollPoller_fill ((events, c) # rs) st active =
     (case st c of
        None \<Rightarrow> Inl BadPointer
      | Some ch \<Rightarrow> EPollPoller_fill rs (st(c \<mapsto> Channel_setReceivedEvents events ch)) (active @ [c]))"

datatype epoll_result = EpollErr int | EpollOk "(int \<times> nat) list"

definition EPollPoller_poll ::
  "bool \<Rightarrow> epoll_result \<Rightarrow> Timestamp \<Rightarrow> 'cb epoll_reactor \<Rightarrow> ('cb epoll_reactor \<times> Timestamp \<times> nat list) res" where
  "EPollPoller_poll dbg r now s =
     (case r of
        EpollErr e \<Rightarrow> Inr (s, now, [])
      | EpollOk rs \<Rightarrow>
          if rs = [] then Inr (s, now, [])
          else cassert dbg (length rs \<le> ep_events (snd s))
            (if ep_events (snd s) < length rs then Inl OutOfBounds
             else bindR (EPollPoller_fill rs (fst s) []) (\<lambda>(st, active).
               Inr ((st, if length rs = ep_events (snd s) then (snd s)\<lparr>ep_events := szmul (ep_events (snd s)) 2\<rparr> else snd s),
                    now, active))))"

section \<open>Invariant\<close>

text \<open>
  A registered channel is in the kernel's set with its events. One that wants none is not in it, or is in it with
  no events, for a channel that is not in the set and is updated is added, whatever it wants. The set has nothing
  else.
\<close>

definition epoll_entry :: "nat \<Rightarrow> 'cb Channel \<Rightarrow> (int \<times> nat) option \<Rightarrow> bool" where
  "epoll_entry c ch k \<longleftrightarrow> ch_loop ch \<and> 0 \<le> ch_interestedEvents ch \<and> ch_interestedEvents ch < 8 \<and>
     (if ch_interestedEvents ch = 0 then ch_index ch = kDeleted \<and> k = None \<or> ch_index ch = kAdded \<and> k = Some (0, c)
      else ch_index ch = kAdded \<and> k = Some (ch_interestedEvents ch, c))"

definition EPoll_inv :: "'cb epoll_reactor \<Rightarrow> bool" where
  "EPoll_inv s \<longleftrightarrow> ep_loop (snd s) \<and>
     (\<forall>fd c. ep_channels (snd s) fd = Some c \<longrightarrow>
        0 \<le> fd \<and> (\<exists>ch. fst s c = Some ch \<and> ch_fd ch = fd \<and> epoll_entry c ch (ep_interest (snd s) fd))) \<and>
     (\<forall>fd. ep_channels (snd s) fd = None \<longrightarrow> ep_interest (snd s) fd = None)"

text \<open>What the kernel is asked about: the entries that name an event.\<close>

definition EPoll_watched :: "'cb epoll_reactor \<Rightarrow> int \<Rightarrow> (int \<times> nat) option" where
  "EPoll_watched s fd =
     (case ep_interest (snd s) fd of None \<Rightarrow> None | Some (e, c) \<Rightarrow> if e = 0 then None else Some (e, c))"

definition EPoll_known :: "'cb epoll_reactor \<Rightarrow> nat \<Rightarrow> int \<Rightarrow> bool" where
  "EPoll_known s c fd \<longleftrightarrow> ep_channels (snd s) fd = Some c"

definition EPoll_vacant :: "'cb epoll_reactor \<Rightarrow> nat \<Rightarrow> int \<Rightarrow> bool" where
  "EPoll_vacant s c fd \<longleftrightarrow> 0 \<le> fd \<and> ep_channels (snd s) fd = None \<and> (\<forall>fd'. ep_channels (snd s) fd' \<noteq> Some c)"

definition EPoll_fresh :: "'cb epoll_reactor \<Rightarrow> nat \<Rightarrow> int \<Rightarrow> bool" where
  "EPoll_fresh s c fd \<longleftrightarrow> EPoll_vacant s c fd \<and>
     (\<exists>ch. fst s c = Some ch \<and> ch_fd ch = fd \<and> ch_index ch = kNew \<and> ch_loop ch)"

lemma EPoll_channel:
  assumes "EPoll_inv s" "EPoll_known s c fd"
  obtains ch where "fst s c = Some ch" "ch_fd ch = fd" "epoll_entry c ch (ep_interest (snd s) fd)" "0 \<le> fd"
  using assms unfolding EPoll_inv_def EPoll_known_def by blast

lemma EPoll_known_unique: "EPoll_inv s \<Longrightarrow> EPoll_known s c fd \<Longrightarrow> EPoll_known s c fd' \<Longrightarrow> fd' = fd"
  using EPoll_channel [of s c fd] EPoll_channel [of s c fd'] by (metis option.inject)

text \<open>The invariant after a change of one channel and its descriptor only.\<close>

lemma EPoll_inv_upd:
  assumes inv: "EPoll_inv s" and other: "\<And>fd'. fd' \<noteq> fd \<Longrightarrow> ep_channels (snd s) fd' \<noteq> Some c"
    and p: "ep_loop p" "\<And>fd'. fd' \<noteq> fd \<Longrightarrow> ep_channels p fd' = ep_channels (snd s) fd' \<and> ep_interest p fd' = ep_interest (snd s) fd'"
    and new: "ep_channels p fd = Some c \<and> 0 \<le> fd \<and> ch_fd ch = fd \<and> epoll_entry c ch (ep_interest p fd) \<or>
      ep_channels p fd = None \<and> ep_interest p fd = None"
  shows "EPoll_inv ((fst s)(c \<mapsto> ch), p)"
  unfolding EPoll_inv_def
proof (intro conjI allI impI)
  fix fd' c' assume "ep_channels (snd ((fst s)(c \<mapsto> ch), p)) fd' = Some c'"
  then show "0 \<le> fd'" "\<exists>ch'. fst ((fst s)(c \<mapsto> ch), p) c' = Some ch' \<and> ch_fd ch' = fd' \<and>
      epoll_entry c' ch' (ep_interest (snd ((fst s)(c \<mapsto> ch), p)) fd')"
    using inv other [of fd'] p(2) [of fd'] new unfolding EPoll_inv_def
    by (cases "fd' = fd"; fastforce)+
next
  fix fd' assume "ep_channels (snd ((fst s)(c \<mapsto> ch), p)) fd' = None"
  then show "ep_interest (snd ((fst s)(c \<mapsto> ch), p)) fd' = None"
    using inv p(2) [of fd'] new unfolding EPoll_inv_def by (cases "fd' = fd") auto
qed (use p in simp)

text \<open>What an update of a registered channel makes of its descriptor in the set: wanting nothing takes it out, but only if it is there.\<close>

definition epoll_next :: "nat \<Rightarrow> (int \<times> nat) option \<Rightarrow> int \<Rightarrow> (int \<times> nat) option" where
  "epoll_next c k e = (if e = 0 \<and> k \<noteq> None then None else Some (e, c))"

lemma EPoll_watched_upd:
  fixes s s' :: "'cb epoll_reactor"
  shows "(\<And>fd'. fd' \<noteq> fd \<Longrightarrow> ep_interest (snd s') fd' = ep_interest (snd s) fd') \<Longrightarrow>
   EPoll_watched s' = (EPoll_watched s)(fd := EPoll_watched s' fd)"
  by (rule ext) (simp add: EPoll_watched_def)

lemma EPoll_step:
  assumes inv: "EPoll_inv s" and known: "EPoll_known s c fd" and e: "0 \<le> e" "e < 8"
  shows "returns (EPollPoller_updateChannel dbg True c (set_interest c e s)) (\<lambda>s'. EPoll_inv s' \<and>
     ep_interest (snd s') = (ep_interest (snd s))(fd := epoll_next c (ep_interest (snd s) fd) e) \<and>
     ep_channels (snd s') = ep_channels (snd s))"
proof -
  obtain ch where ch: "fst s c = Some ch" "ch_fd ch = fd" "epoll_entry c ch (ep_interest (snd s) fd)" "0 \<le> fd"
    by (rule EPoll_channel [OF inv known])
  have other: "ep_channels (snd s) fd' \<noteq> Some c" if "fd' \<noteq> fd" for fd'
    using EPoll_known_unique [OF inv known] that unfolding EPoll_known_def by blast
  have loop: "ep_loop (snd s)" "ep_channels (snd s) fd = Some c" using inv known by (simp_all add: EPoll_inv_def EPoll_known_def)
  define out where "out \<longleftrightarrow> e = 0 \<and> ep_interest (snd s) fd \<noteq> None"
  define ch' where "ch' = ch\<lparr>ch_interestedEvents := e, ch_index := (if out then kDeleted else kAdded)\<rparr>"
  define p where "p = (snd s)\<lparr>ep_interest := (ep_interest (snd s))(fd := if out then None else Some (e, c))\<rparr>"
  have "ch_index ch = (if ep_interest (snd s) fd = None then kDeleted else kAdded)"
    using ch(3) by (auto simp: epoll_entry_def split: if_splits)
  then have "EPollPoller_updateChannel dbg True c (set_interest c e s) = Inr ((fst s)(c \<mapsto> ch'), p)"
    using ch(1, 2) e loop
    by (cases s) (auto simp: EPollPoller_updateChannel_def set_interest_def EPollPoller_update_def Let_def cassert_def epoll_tags
        Channel_isNoneEvent_def ch'_def p_def out_def fun_eq_iff intro!: EPollPoller.equality)
  moreover have "EPoll_inv ((fst s)(c \<mapsto> ch'), p)"
    using ch e loop by (intro EPoll_inv_upd [OF inv other]) (auto simp: p_def ch'_def epoll_entry_def out_def)
  ultimately show ?thesis by (simp add: p_def epoll_next_def out_def)
qed

lemma EPoll_change:
  fixes s :: "'cb epoll_reactor"
  assumes "EPoll_inv s" "EPoll_known s c fd" "0 \<le> e" "e < 8"
  shows "returns (EPollPoller_updateChannel dbg True c (set_interest c e s)) (\<lambda>s'. EPoll_inv s' \<and>
     EPoll_watched s' = (EPoll_watched s)(fd := if e = 0 then None else Some (e, c)) \<and>
     (\<forall>c' fd'. EPoll_known s c' fd' \<longrightarrow> EPoll_known s' c' fd'))"
proof (rule returns_mono [OF EPoll_step [OF assms]], elim conjE, intro conjI)
  fix s' :: "'cb epoll_reactor"
  assume s': "ep_interest (snd s') = (ep_interest (snd s))(fd := epoll_next c (ep_interest (snd s) fd) e)"
    "ep_channels (snd s') = ep_channels (snd s)"
  have "EPoll_watched s' fd = (if e = 0 then None else Some (e, c))" using s'(1) by (simp add: EPoll_watched_def epoll_next_def)
  then show "EPoll_watched s' = (EPoll_watched s)(fd := if e = 0 then None else Some (e, c))"
    using EPoll_watched_upd [of fd s' s] s'(1) by simp
  show "\<forall>c' fd'. EPoll_known s c' fd' \<longrightarrow> EPoll_known s' c' fd'" using s'(2) by (simp add: EPoll_known_def)
qed

lemma EPoll_add:
  assumes inv: "EPoll_inv s" and fresh: "EPoll_fresh s c fd" and e: "0 < e" "e < 8"
  shows "returns (EPollPoller_updateChannel dbg True c (set_interest c e s)) (\<lambda>s'. EPoll_inv s' \<and> EPoll_known s' c fd \<and>
     EPoll_watched s' = (EPoll_watched s)(fd \<mapsto> (e, c)) \<and> (\<forall>c' fd'. EPoll_known s c' fd' \<longrightarrow> EPoll_known s' c' fd') \<and>
     ep_interest (snd s') = (ep_interest (snd s))(fd \<mapsto> (e, c)))"
proof -
  obtain ch where ch: "fst s c = Some ch" "ch_fd ch = fd" "ch_index ch = kNew" "ch_loop ch" "0 \<le> fd"
      "ep_channels (snd s) fd = None" "\<forall>fd'. ep_channels (snd s) fd' \<noteq> Some c"
    using fresh by (auto simp: EPoll_fresh_def EPoll_vacant_def)
  then have off: "ep_interest (snd s) fd = None" "ep_loop (snd s)" using inv by (simp_all add: EPoll_inv_def)
  define ch' where "ch' = ch\<lparr>ch_interestedEvents := e, ch_index := kAdded\<rparr>"
  define p where "p = (snd s)\<lparr>ep_channels := (ep_channels (snd s))(fd \<mapsto> c), ep_interest := (ep_interest (snd s))(fd \<mapsto> (e, c))\<rparr>"
  have "EPollPoller_updateChannel dbg True c (set_interest c e s) = Inr ((fst s)(c \<mapsto> ch'), p)"
    using ch off by (cases s) (simp add: EPollPoller_updateChannel_def set_interest_def EPollPoller_update_def Let_def cassert_def
        ch'_def p_def)
  moreover have "EPoll_inv ((fst s)(c \<mapsto> ch'), p)"
    using ch e off by (intro EPoll_inv_upd [OF inv, of fd]) (auto simp: p_def ch'_def epoll_entry_def)
  moreover have "EPoll_watched ((fst s)(c \<mapsto> ch'), p) = (EPoll_watched s)(fd \<mapsto> (e, c))"
    using EPoll_watched_upd [of fd "((fst s)(c \<mapsto> ch'), p)" s] e by (simp add: p_def) (simp add: EPoll_watched_def)
  ultimately show ?thesis using ch(6) by (auto simp: EPoll_known_def p_def)
qed

lemma EPoll_remove:
  assumes inv: "EPoll_inv s" and known: "EPoll_known s c fd" and off: "EPoll_watched s fd = None"
  shows "returns (EPollPoller_removeChannel dbg True c s) (\<lambda>s'. EPoll_inv s' \<and> \<not> EPoll_known s' c fd \<and>
     EPoll_watched s' = EPoll_watched s \<and> (\<forall>c' fd'. c' \<noteq> c \<longrightarrow> EPoll_known s c' fd' \<longrightarrow> EPoll_known s' c' fd'))"
proof -
  obtain ch where ch: "fst s c = Some ch" "ch_fd ch = fd" "epoll_entry c ch (ep_interest (snd s) fd)" "0 \<le> fd"
    by (rule EPoll_channel [OF inv known])
  have other: "ep_channels (snd s) fd' \<noteq> Some c" if "fd' \<noteq> fd" for fd'
    using EPoll_known_unique [OF inv known] that unfolding EPoll_known_def by blast
  have loop: "ep_loop (snd s)" "ep_channels (snd s) fd = Some c" using inv known by (simp_all add: EPoll_inv_def EPoll_known_def)
  have mask: "ch_interestedEvents ch = 0" using ch(3) off by (auto simp: epoll_entry_def EPoll_watched_def split: if_splits)
  define ch' where "ch' = ch\<lparr>ch_index := kNew\<rparr>"
  define p where "p = (snd s)\<lparr>ep_channels := (ep_channels (snd s))(fd := None), ep_interest := (ep_interest (snd s))(fd := None)\<rparr>"
  have "ch_index ch \<noteq> kAdded \<Longrightarrow> ep_interest (snd s) fd = None" using ch(3) mask by (auto simp: epoll_entry_def)
  then have "EPollPoller_removeChannel dbg True c s = Inr ((fst s)(c \<mapsto> ch'), p)"
    using ch loop by (auto simp: EPollPoller_removeChannel_def EPollPoller_update_def Let_def cassert_def ch'_def p_def fun_upd_idem)
  moreover have "EPoll_inv ((fst s)(c \<mapsto> ch'), p)"
    using loop by (intro EPoll_inv_upd [OF inv other]) (auto simp: p_def ch'_def)
  moreover have "EPoll_watched ((fst s)(c \<mapsto> ch'), p) = EPoll_watched s"
    using EPoll_watched_upd [of fd "((fst s)(c \<mapsto> ch'), p)" s] off by (simp add: p_def) (simp add: EPoll_watched_def fun_upd_idem_iff)
  ultimately show ?thesis using loop(2) by (auto simp: EPoll_known_def p_def)
qed

text \<open>The second provider of the interfaces, in builds with and without asserts.\<close>

interpretation epoll: registry EPoll_inv EPoll_watched EPoll_known EPoll_fresh set_interest
    "EPollPoller_updateChannel dbg True" "EPollPoller_removeChannel dbg True" for dbg
proof (unfold_locales, goal_cases)
  case (1 s c fd e)
  show ?case by (rule returns_mono [OF EPoll_add [OF 1]]) simp
next
  case (2 s c fd e)
  then show ?case by (rule EPoll_change)
next
  case (3 s c fd)
  then show ?case by (rule EPoll_remove)
qed

lemma EPollPoller_updateChannel_object:
  "EPollPoller_updateChannel dbg inLoop c s = Inr s' \<Longrightarrow> fst s c = Some ch \<Longrightarrow> \<exists>i. fst s' c = Some (ch\<lparr>ch_index := i\<rparr>)"
  by (auto simp: EPollPoller_updateChannel_def Let_def cassert_def same_index split: if_splits)

lemma EPollPoller_removeChannel_object:
  "EPollPoller_removeChannel dbg inLoop c s = Inr s' \<Longrightarrow> fst s c = Some ch \<Longrightarrow> \<exists>i. fst s' c = Some (ch\<lparr>ch_index := i\<rparr>)"
  by (auto simp: EPollPoller_removeChannel_def Let_def cassert_def split: if_splits)

interpretation epoll_channels: channel_registry EPoll_inv EPoll_watched EPoll_known EPoll_fresh
    "EPollPoller_updateChannel dbg True" "EPollPoller_removeChannel dbg True" for dbg
proof (unfold_locales, goal_cases)
  case (1 s c fd ch)
  then show ?case by (auto simp: EPoll_watched_def epoll_entry_def elim!: EPoll_channel split: if_splits)
next
  case (2 c e s s' ch)
  then have "fst (set_interest c e s) c = Some (ch\<lparr>ch_interestedEvents := e\<rparr>)" by (simp add: set_interest_def)
  then show ?case using EPollPoller_updateChannel_object [OF 2(1)] by fastforce
next
  case (3 c s s' ch)
  then show ?case using EPollPoller_removeChannel_object by fastforce
qed

lemma EPoll_store_cong:
  assumes "EPoll_inv s" "\<forall>fd. ep_channels (snd s) fd \<noteq> Some c"
  shows "EPoll_inv ((fst s)(c := x), snd s)"
  using assms unfolding EPoll_inv_def by (auto split: if_splits)

interpretation epoll_owner: channel_owner EPoll_inv EPoll_watched EPoll_known EPoll_fresh
    "EPollPoller_updateChannel dbg True" "EPollPoller_removeChannel dbg True" EPoll_vacant for dbg
proof (unfold_locales, goal_cases)
  case (1 s c fd ch)
  then show ?case
    using EPoll_store_cong [of s c]
    by (auto simp: EPoll_vacant_def EPoll_fresh_def EPoll_watched_def EPoll_known_def kNew_def intro!: ext)
next
  case (2 s c)
  then show ?case using EPoll_store_cong [of s c] by (auto simp: EPoll_watched_def EPoll_known_def fun_eq_iff)
next
  case (3 s c fd)
  then show ?case using EPoll_channel [of s c fd] by blast
next
  case (4 c s s' ch)
  then show ?case by (rule EPollPoller_updateChannel_object)
next
  case (5 c s s' ch)
  then show ?case by (rule EPollPoller_removeChannel_object)
next
  case (6 s c fd)
  then show ?case by (simp add: EPoll_vacant_def)
next
  case (7 s c fd c')
  then show ?case by (simp add: EPoll_vacant_def)
next
  case (8 c s s' c' fd')
  then show ?case
    by (auto simp: EPollPoller_removeChannel_def EPollPoller_update_def EPoll_known_def cassert_def Let_def split: if_splits option.splits)
qed

section \<open>Properties\<close>

lemma EPoll_changes:
  fixes s :: "'cb epoll_reactor"
  assumes "EPoll_inv s" "EPoll_known s c fd" "\<forall>x \<in> set es. 0 \<le> x \<and> x < 8"
  shows "returns (epoll.changes dbg c es s) (\<lambda>s'. EPoll_inv s' \<and> EPoll_known s' c fd \<and>
     ep_interest (snd s') = (ep_interest (snd s))(fd := foldl (epoll_next c) (ep_interest (snd s) fd) es))"
  using assms
proof (induction es arbitrary: s)
  case (Cons x es)
  have x: "0 \<le> x" "x < 8" using Cons.prems(3) by simp_all
  show ?case
    unfolding epoll.changes.simps
  proof (rule returns_bind [OF EPoll_step [OF Cons.prems(1, 2) x]], elim conjE)
    fix s1 :: "'cb epoll_reactor"
    assume s1: "EPoll_inv s1" "ep_channels (snd s1) = ep_channels (snd s)"
      and k: "ep_interest (snd s1) = (ep_interest (snd s))(fd := epoll_next c (ep_interest (snd s) fd) x)"
    have "EPoll_known s1 c fd" "\<forall>x \<in> set es. 0 \<le> x \<and> x < 8"
      using s1(2) Cons.prems(2, 3) by (simp_all add: EPoll_known_def)
    from Cons.IH [OF s1(1) this]
    show "returns (epoll.changes dbg c es s1) (\<lambda>s'. EPoll_inv s' \<and> EPoll_known s' c fd \<and>
        ep_interest (snd s') = (ep_interest (snd s))(fd := foldl (epoll_next c) (ep_interest (snd s) fd) (x # es)))"
      unfolding k fun_upd_upd fun_upd_same foldl_Cons .
  qed
qed simp

text \<open>How often in a row the last masks were empty.\<close>

definition trailing_zeros :: "int list \<Rightarrow> nat" where
  "trailing_zeros es = length (takeWhile (\<lambda>x. x = 0) (rev es))"

lemma epoll_next_foldl:
  assumes "e \<noteq> 0"
  shows "foldl (epoll_next c) (Some (e, c)) es =
     (if last (e # es) \<noteq> 0 then Some (last (e # es), c) else if even (trailing_zeros es) then Some (0, c) else None)"
proof (induction es rule: rev_induct)
  case (snoc x es)
  have "last (e # es) \<noteq> 0 \<Longrightarrow> trailing_zeros es = 0"
    by (cases es rule: rev_cases) (auto simp: trailing_zeros_def)
  then show ?case using snoc by (auto simp: epoll_next_def trailing_zeros_def)
qed (use assms in \<open>simp add: trailing_zeros_def\<close>)


definition two_channels :: "unit store" where
  "two_channels = [1 \<mapsto> Channel_new True 5]"

definition epoll_empty :: EPollPoller where
  "epoll_empty = \<lparr>ep_loop = True, ep_channels = (\<lambda>_. None), ep_events = 16, ep_interest = (\<lambda>_. None)\<rparr>"


text \<open>
  No object of the class works as its constructor leaves it: every update and every removal of a channel
  follows \<^verbatim>\<open>loop_\<close>, which no constructor and no member sets.
\<close>

theorem EPollPoller_never_initialised:
  assumes "EPollPoller_new epollfd = Inr p"
  shows "EPollPoller_updateChannel dbg inLoop c (st, p) = Inl Uninitialised \<and>
    EPollPoller_removeChannel dbg inLoop c (st, p) = Inl Uninitialised \<and>
    (\<forall>rs now s' t active. EPollPoller_poll dbg (EpollOk rs) now (st, p) = Inr (s', t, active) \<longrightarrow>
       EPollPoller_updateChannel dbg inLoop c s' = Inl Uninitialised)"
proof -
  have p: "\<not> ep_loop p" using assms by (auto simp: EPollPoller_new_def split: if_splits)
  moreover have "\<not> ep_loop (snd s')" if "EPollPoller_poll dbg (EpollOk rs) now (st, p) = Inr (s', t, active)" for rs now s' t active
    using that p by (auto simp: EPollPoller_poll_def cassert_def split: if_splits)
  ultimately show ?thesis by (auto simp: EPollPoller_updateChannel_def EPollPoller_removeChannel_def)
qed

theorem EPollPoller_never_initialised_witness:
  "\<exists>p. EPollPoller_new 3 = Inr p \<and> EPollPoller_updateChannel True True 1 (two_channels, p) = Inl Uninitialised"
proof -
  obtain p where p: "EPollPoller_new 3 = Inr p" by (simp add: EPollPoller_new_def)
  then show ?thesis using EPollPoller_never_initialised [OF p, of True True 1 two_channels] by blast
qed

text \<open>
  A poll hands the loop exactly the channels that epoll_wait(2) reported, when these are distinct channels
  the set has: the active list is that of the reports, in order, each channel holds the events reported, the
  others are as they were, the set is the same, and the vector has room for twice as many reports next time
  when it was full.
\<close>

theorem EPollPoller_poll_reports:
  assumes "EPoll_inv s" "distinct (map snd rs)" "length rs \<le> ep_events (snd s)" "ep_events (snd s) < 2 ^ 62"
    and "\<forall>(ev, c) \<in> set rs. \<exists>fd e. ep_interest (snd s) fd = Some (e, c)"
  shows "returns (EPollPoller_poll dbg (EpollOk rs) now s) (\<lambda>(s', now', active). now' = now \<and> active = map snd rs \<and>
     (\<forall>(ev, c) \<in> set rs. fst s' c = map_option (Channel_setReceivedEvents ev) (fst s c)) \<and>
     (\<forall>c. c \<notin> snd ` set rs \<longrightarrow> fst s' c = fst s c) \<and> ep_interest (snd s') = ep_interest (snd s) \<and>
     length rs \<le> ep_events (snd s') \<and> (rs \<noteq> [] \<and> length rs = ep_events (snd s) \<longrightarrow> ep_events (snd s') = 2 * length rs))"
proof -
  have there: "\<exists>ch. fst s c = Some ch" if r: "(ev, c) \<in> set rs" for ev c
  proof -
    obtain fd e where fd: "ep_interest (snd s) fd = Some (e, c)" using assms(5) r by auto
    then obtain c' where c': "ep_channels (snd s) fd = Some c'" using assms(1) by (cases "ep_channels (snd s) fd") (auto simp: EPoll_inv_def)
    then obtain ch where "fst s c' = Some ch" "epoll_entry c' ch (ep_interest (snd s) fd)" using assms(1) unfolding EPoll_inv_def by blast
    then show ?thesis using fd by (auto simp: epoll_entry_def split: if_splits)
  qed
  have fill: "returns (EPollPoller_fill rs st active) (\<lambda>(st', active'). active' = active @ map snd rs \<and>
      (\<forall>(ev, c) \<in> set rs. st' c = map_option (Channel_setReceivedEvents ev) (st c)) \<and> (\<forall>c. c \<notin> snd ` set rs \<longrightarrow> st' c = st c))"
    if "distinct (map snd rs)" "\<forall>(ev, c) \<in> set rs. \<exists>ch. st c = Some ch" for rs st active
    using that
  proof (induction rs arbitrary: st active)
    case (Cons r rs)
    obtain ev c ch where r: "r = (ev, c)" "st c = Some ch" using Cons.prems(2) by (cases r) auto
    define st1 where "st1 = st(c \<mapsto> Channel_setReceivedEvents ev ch)"
    have new: "c \<notin> snd ` set rs" using Cons.prems(1) r(1) by simp
    have "\<forall>(ev, c) \<in> set rs. \<exists>ch. st1 c = Some ch" using Cons.prems(2) by (auto simp: st1_def)
    moreover have "distinct (map snd rs)" using Cons.prems(1) by simp
    ultimately obtain st2 where st2: "EPollPoller_fill rs st1 (active @ [c]) = Inr (st2, (active @ [c]) @ map snd rs)"
        "\<forall>(ev, c) \<in> set rs. st2 c = map_option (Channel_setReceivedEvents ev) (st1 c)" "\<forall>c. c \<notin> snd ` set rs \<longrightarrow> st2 c = st1 c"
      using Cons.IH [of st1 "active @ [c]"] by (auto simp: returns_iff)
    have same: "st1 c' = st c'" if "c' \<in> snd ` set rs" for c' using that new by (auto simp: st1_def)
    have "EPollPoller_fill (r # rs) st active = Inr (st2, active @ map snd (r # rs))"
      using st2(1) r by (simp add: st1_def)
    moreover have "\<forall>(ev, c) \<in> set (r # rs). st2 c = map_option (Channel_setReceivedEvents ev) (st c)"
    proof clarify
      fix ev' c' assume "(ev', c') \<in> set (r # rs)"
      then consider "ev' = ev" "c' = c" | "(ev', c') \<in> set rs" using r(1) by auto
      then show "st2 c' = map_option (Channel_setReceivedEvents ev') (st c')"
      proof cases
        case 1
        then show ?thesis using st2(3) new r(2) by (simp add: st1_def)
      next
        case 2
        then have "st1 c' = st c'" using same [of c'] by force
        moreover have "st2 c' = map_option (Channel_setReceivedEvents ev') (st1 c')" using st2(2) 2 by blast
        ultimately show ?thesis by simp
      qed
    qed
    moreover have "st2 c' = st c'" if "c' \<notin> snd ` set (r # rs)" for c'
      using that st2(3) r(1) by (simp add: st1_def)
    ultimately show ?case by simp
  qed simp
  have "returns (EPollPoller_fill rs (fst s) []) (\<lambda>(st', active'). active' = map snd rs \<and>
      (\<forall>(ev, c) \<in> set rs. st' c = map_option (Channel_setReceivedEvents ev) (fst s c)) \<and> (\<forall>c. c \<notin> snd ` set rs \<longrightarrow> st' c = fst s c))"
    using fill [OF assms(2), of "fst s" "[]"] there by fastforce
  then obtain st where st: "EPollPoller_fill rs (fst s) [] = Inr (st, map snd rs)"
      "\<forall>(ev, c) \<in> set rs. st c = map_option (Channel_setReceivedEvents ev) (fst s c)" "\<forall>c. c \<notin> snd ` set rs \<longrightarrow> st c = fst s c"
    by (auto simp: returns_iff)
  then show ?thesis
    using assms(3, 4) by (auto simp: EPollPoller_poll_def cassert_holds szmul_exact)
qed

theorem EPollPoller_poll_reports_witness:
  "returns (EPollPoller_poll True (EpollOk [(1, 1)]) Timestamp_default
     (two_channels(1 \<mapsto> (Channel_new True 5)\<lparr>ch_interestedEvents := 3, ch_index := 1\<rparr>),
      epoll_empty\<lparr>ep_channels := [5 \<mapsto> 1], ep_interest := [5 \<mapsto> (3, 1)]\<rparr>)) (\<lambda>(s', now', active). active = [1])"
proof -
  let ?s = "(two_channels(1 \<mapsto> (Channel_new True 5)\<lparr>ch_interestedEvents := 3, ch_index := 1\<rparr>),
      epoll_empty\<lparr>ep_channels := [5 \<mapsto> 1], ep_interest := [5 \<mapsto> (3, 1)]\<rparr>)"
  have "EPoll_inv ?s" by (simp add: EPoll_inv_def epoll_entry_def epoll_empty_def Channel_new_def kAdded_def)
  moreover have "\<forall>(ev, c) \<in> set [(1::int, 1)]. \<exists>fd e. ep_interest (snd ?s) fd = Some (e, c)"
    by auto
  ultimately show ?thesis
    using EPollPoller_poll_reports [of ?s "[(1, 1)]" True Timestamp_default] by (auto simp: epoll_empty_def elim!: returns_mono)
qed

end
