(* ===== verification/Sharing.thy ===== *)
theory Sharing
  imports EPollPoller
begin

text \<open>
  A demultiplexer with several owners of channels: what each of them does leaves the channels of the others
  registered as they were, so that what is proved of one owner alone holds among others.
\<close>

section \<open>Sharing a registry\<close>

text \<open>What it may do itself: the events wanted and the index of its own channel change.\<close>

definition own_channel :: "nat \<Rightarrow> 'h store \<times> 'w \<Rightarrow> 'h store \<times> 'w \<Rightarrow> bool" where
  "own_channel c s s' \<longleftrightarrow> (\<forall>ch. fst s c = Some ch \<longrightarrow> (\<exists>e i. fst s' c = Some (ch\<lparr>ch_interestedEvents := e, ch_index := i\<rparr>)))"

lemma own_channel_refl [simp]: "own_channel c s s"
proof -
  have "\<exists>e i. ch = ch\<lparr>ch_interestedEvents := e, ch_index := i\<rparr>" for ch :: "'h Channel"
    by (rule exI [of _ "ch_interestedEvents ch"], rule exI [of _ "ch_index ch"]) simp
  then show ?thesis unfolding own_channel_def by auto
qed

lemma own_channel_trans: "own_channel c s s' \<Longrightarrow> own_channel c s' s'' \<Longrightarrow> own_channel c s s''"
  by (fastforce simp: own_channel_def)

lemma own_channel_interest:
  assumes "\<And>ch. fst (set_interest c e s) c = Some ch \<Longrightarrow> \<exists>i. fst s' c = Some (ch\<lparr>ch_index := i\<rparr>)"
  shows "own_channel c s s'"
  using assms by (fastforce simp: own_channel_def set_interest_def)

locale shared_registry =
  channel_owner inv watched known fresh update remove vacant
  for inv :: "'h store \<times> 'w \<Rightarrow> bool" and watched :: "'h store \<times> 'w \<Rightarrow> int \<Rightarrow> (int \<times> nat) option"
    and known :: "'h store \<times> 'w \<Rightarrow> nat \<Rightarrow> int \<Rightarrow> bool" and fresh :: "'h store \<times> 'w \<Rightarrow> nat \<Rightarrow> int \<Rightarrow> bool"
    and update :: "nat \<Rightarrow> 'h store \<times> 'w \<Rightarrow> ('h store \<times> 'w) res"
    and remove :: "nat \<Rightarrow> 'h store \<times> 'w \<Rightarrow> ('h store \<times> 'w) res"
    and vacant :: "'h store \<times> 'w \<Rightarrow> nat \<Rightarrow> int \<Rightarrow> bool" +
  assumes update_others: "inv s \<Longrightarrow> known s c fd \<or> fresh s c fd \<Longrightarrow> update c (set_interest c e s) = Inr s' \<Longrightarrow> c' \<noteq> c \<Longrightarrow>
      keeps_channel known c' s s'"
    and remove_others: "inv s \<Longrightarrow> known s c fd \<Longrightarrow> remove c s = Inr s' \<Longrightarrow> c' \<noteq> c \<Longrightarrow> keeps_channel known c' s s'"
begin

text \<open>
  The registry as the owner of one channel uses it, since it was in state \<open>s0\<close>: all that concerns the other
  channels is kept, and what is watched is what its own channel waits for. It is a registry again, so what is proved
  of one owner holds with this invariant too.
\<close>

definition inv_on :: "nat \<Rightarrow> 'h store \<times> 'w \<Rightarrow> 'h store \<times> 'w \<Rightarrow> bool" where
  "inv_on c s0 s \<longleftrightarrow> inv s \<and> own_channel c s0 s \<and> (\<forall>c'. c' \<noteq> c \<longrightarrow> keeps_channel known c' s0 s)"

definition known_on :: "nat \<Rightarrow> int \<Rightarrow> 'h store \<times> 'w \<Rightarrow> nat \<Rightarrow> int \<Rightarrow> bool" where
  "known_on c fd s c' fd' \<longleftrightarrow> c' = c \<and> fd' = fd \<and> known s c fd"

definition fresh_on :: "nat \<Rightarrow> int \<Rightarrow> 'h store \<times> 'w \<Rightarrow> nat \<Rightarrow> int \<Rightarrow> bool" where
  "fresh_on c fd s c' fd' \<longleftrightarrow> c' = c \<and> fd' = fd \<and> fresh s c fd"

definition watched_on :: "nat \<Rightarrow> int \<Rightarrow> 'h store \<times> 'w \<Rightarrow> int \<Rightarrow> (int \<times> nat) option" where
  "watched_on c fd s fd' = (if fd' = fd \<and> known s c fd then watched s fd else None)"

lemma inv_on_start: "inv s \<Longrightarrow> inv_on c s s"
  by (simp add: inv_on_def)

lemma inv_on_step:
  "inv_on c s0 s \<Longrightarrow> inv s' \<Longrightarrow> own_channel c s s' \<Longrightarrow> (\<And>c'. c' \<noteq> c \<Longrightarrow> keeps_channel known c' s s') \<Longrightarrow> inv_on c s0 s'"
  by (auto simp: inv_on_def intro: own_channel_trans keeps_channel_trans)

lemma inv_on_update:
  assumes "inv_on c s0 s" "known s c fd \<or> fresh s c fd" "update c (set_interest c e s) = Inr s'" "inv s'"
  shows "inv_on c s0 s'"
  using assms update_object update_others [OF _ assms(2, 3)]
  by (intro inv_on_step [OF assms(1, 4)] own_channel_interest [of c e s]) (auto simp: inv_on_def)

lemma inv_on_remove:
  assumes "inv_on c s0 s" "known s c fd" "remove c s = Inr s'" "inv s'"
  shows "inv_on c s0 s'"
proof (rule inv_on_step [OF assms(1, 4)])
  have "\<exists>e i. ch\<lparr>ch_index := j\<rparr> = ch\<lparr>ch_interestedEvents := e, ch_index := i\<rparr>" for ch :: "'h Channel" and j
    by (rule exI [of _ "ch_interestedEvents ch"], rule exI [of _ j]) simp
  then show "own_channel c s s'" using remove_object [OF assms(3)] by (fastforce simp: own_channel_def)
qed (use assms remove_others [OF _ assms(2, 3)] in \<open>auto simp: inv_on_def\<close>)

lemma own_use: "channel_registry (inv_on c s0) (watched_on c fd) (known_on c fd) (fresh_on c fd) update remove"
proof (unfold_locales, goal_cases)
  case (1 s c' fd' e)
  then have "inv s" "fresh s c fd" "c' = c" "fd' = fd" by (simp_all add: inv_on_def fresh_on_def)
  then show ?case
    using 1 add [of s c fd e] inv_on_update [OF 1(1), of fd e]
    by (auto simp: returns_iff known_on_def watched_on_def intro!: ext)
next
  case (2 s c' fd' e)
  then have "inv s" "known s c fd" "c' = c" "fd' = fd" by (simp_all add: inv_on_def known_on_def)
  then show ?case
    using 2 change [of s c fd e] inv_on_update [OF 2(1), of fd e]
    by (auto simp: returns_iff known_on_def watched_on_def intro!: ext)
next
  case (3 s c' fd')
  then have "inv s" "known s c fd" "c' = c" "fd' = fd" by (simp_all add: inv_on_def known_on_def)
  then show ?case
    using 3 drop [of s c fd] inv_on_remove [OF 3(1)] by (auto simp: returns_iff known_on_def watched_on_def intro!: ext)
next
  case (4 s c' fd' ch)
  then show ?case using watched_channel by (simp add: inv_on_def known_on_def watched_on_def)
next
  case (5 c e s s' ch)
  then show ?case by (rule update_channel)
next
  case (6 c s s' ch)
  then show ?case by (rule remove_channel)
qed

end

section \<open>Both demultiplexers can be shared\<close>

lemma Poller_update_others:
  assumes "Poller_inv s" "Poller_known s c fd \<or> Poller_fresh s c fd"
    and "Poller_updateChannel False True c (set_interest c e s) = Inr s'" "c' \<noteq> c"
  shows "keeps_channel Poller_known c' s s'"
proof -
  obtain ch where ch: "fst s c = Some ch" "ch_fd ch = fd"
      "po_channels (snd s) fd = Some c \<and> 0 \<le> ch_index ch \<or> po_channels (snd s) fd = None"
    using assms(2)
  proof
    assume k: "Poller_known s c fd"
    then have "po_channels (snd s) fd = Some c" by (simp add: Poller_known_def)
    then obtain i ch where "fst s c = Some ch" "ch_fd ch = fd" "ch_index ch = int i" by (rule Poller_entry [OF assms(1)])
    then show thesis using k by (intro that [of ch]) (simp_all add: Poller_known_def)
  next
    assume "Poller_fresh s c fd"
    then show thesis using that by (auto simp: Poller_fresh_def)
  qed
  have keep: "keeps_channel Poller_known c' s (st, p)"
    if "st c' = fst s c'" "po_channels p = po_channels (snd s) \<or> po_channels p = (po_channels (snd s))(fd \<mapsto> c) \<and>
      po_channels (snd s) fd = None" for st p
    using that assms(4) by (auto simp: keeps_channel_def Poller_known_def intro!: ext split: if_splits)
  show ?thesis
    using assms(3, 4) ch
    by (auto simp: Poller_updateChannel_def set_interest_def cassert_def Let_def split: if_splits intro!: keep)
qed

lemma Poller_remove_others:
  assumes "Poller_inv s" "Poller_known s c fd" "Poller_removeChannel False True c s = Inr s'" "c' \<noteq> c"
  shows "keeps_channel Poller_known c' s s'"
proof -
  obtain ch where ch: "fst s c = Some ch" "ch_fd ch = fd" "po_channels (snd s) fd = Some c"
    using assms(2) Poller_channel_fd [OF assms(1)] by (fastforce simp: Poller_known_def)
  have keep: "keeps_channel Poller_known c' s (st, p)"
    if "same_channel (fst s c') (st c')" "po_channels p = (po_channels (snd s))(fd := None)" for st p
    using that assms(4) ch(3) by (auto simp: keeps_channel_def Poller_known_def fun_eq_iff)
  show ?thesis
    using assms(3, 4) ch(1, 2)
    by (auto simp: Poller_removeChannel_def cassert_def Let_def split: if_splits option.splits intro!: keep)
qed

interpretation poller_shared: shared_registry Poller_inv Poller_watched Poller_known Poller_fresh
    "Poller_updateChannel False True" "Poller_removeChannel False True" Poller_vacant
  by unfold_locales (fact Poller_update_others, fact Poller_remove_others)

lemma EPoll_update_others:
  assumes "EPoll_inv s" "EPoll_known s c fd \<or> EPoll_fresh s c fd"
    and "EPollPoller_updateChannel dbg True c (set_interest c e s) = Inr s'" "c' \<noteq> c"
  shows "keeps_channel EPoll_known c' s s'"
proof -
  obtain ch where ch: "fst s c = Some ch" "ch_fd ch = fd"
      "ep_channels (snd s) fd = Some c \<and> ch_index ch \<noteq> kNew \<or> ep_channels (snd s) fd = None"
    using assms(2)
  proof
    assume k: "EPoll_known s c fd"
    show thesis
      by (rule EPoll_channel [OF assms(1) k], rule that)
        (use k in \<open>auto simp: EPoll_known_def epoll_entry_def epoll_tags split: if_splits\<close>)
  next
    assume "EPoll_fresh s c fd"
    then show thesis using that by (auto simp: EPoll_fresh_def EPoll_vacant_def)
  qed
  have keep: "keeps_channel EPoll_known c' s (st, p)"
    if "st c' = fst s c'" "ep_channels p = ep_channels (snd s) \<or> ep_channels p = (ep_channels (snd s))(fd \<mapsto> c) \<and>
      ep_channels (snd s) fd = None" for st p
    using that assms(4) by (auto simp: keeps_channel_def EPoll_known_def intro!: ext split: if_splits)
  show ?thesis
    using assms(3, 4) ch
    by (auto simp: EPollPoller_updateChannel_def EPollPoller_update_def set_interest_def cassert_def Let_def split: if_splits intro!: keep)
qed

lemma EPoll_remove_others:
  assumes "EPoll_inv s" "EPoll_known s c fd" "EPollPoller_removeChannel dbg True c s = Inr s'" "c' \<noteq> c"
  shows "keeps_channel EPoll_known c' s s'"
proof -
  obtain ch where ch: "fst s c = Some ch" "ch_fd ch = fd" "ep_channels (snd s) fd = Some c"
    using assms(2) EPoll_channel [OF assms(1, 2)] by (auto simp: EPoll_known_def)
  have keep: "keeps_channel EPoll_known c' s (st, p)"
    if "st c' = fst s c'" "ep_channels p = (ep_channels (snd s))(fd := None)" for st p
    using that assms(4) ch(3) by (auto simp: keeps_channel_def EPoll_known_def fun_eq_iff)
  show ?thesis
    using assms(3, 4) ch(1, 2)
    by (auto simp: EPollPoller_removeChannel_def EPollPoller_update_def cassert_def Let_def split: if_splits intro!: keep)
qed

interpretation epoll_shared: shared_registry EPoll_inv EPoll_watched EPoll_known EPoll_fresh
    "EPollPoller_updateChannel dbg True" "EPollPoller_removeChannel dbg True" EPoll_vacant for dbg
  by unfold_locales (fact EPoll_update_others, fact EPoll_remove_others)

end
