(* ===== verification/Builds.thy ===== *)
theory Builds
  imports Sharing
begin

text \<open>
  Builds with the poller's asserts. \<^verbatim>\<open>assert\<close> is compiled in or out file by file, and what the
  asserts of poller.cc add to a client is always the same: the client stops at one of them, or does exactly what it
  does over a poller without asserts. So the laws of a registry, which hold without them, say what happens with them.
\<close>

section \<open>Two builds of one operation\<close>

text \<open>\<open>p\<close> says whether the poller's asserts are compiled into the first of the two.\<close>

definition built :: "bool \<Rightarrow> 'a res \<Rightarrow> 'a res \<Rightarrow> bool" where
  "built p r r' \<longleftrightarrow> r = r' \<or> p \<and> r = Inl AssertFail"

definition asserts :: "bool \<Rightarrow> fault set" where
  "asserts p = (if p then {AssertFail} else {})"

lemma asserts_simps [simp]: "asserts True = {AssertFail}" "asserts False = {}"
  by (simp_all add: asserts_def)

named_theorems built_intros

lemma built_refl [simp, built_intros]: "built p r r"
  by (simp add: built_def)

lemma built_False [simp]: "built False r r' \<longleftrightarrow> r = r'"
  by (simp add: built_def)

lemma built_InrD: "built p r r' \<Longrightarrow> r = Inr x \<Longrightarrow> r' = Inr x"
  by (auto simp: built_def)

lemma built_trans: "built p r r' \<Longrightarrow> built p r' r'' \<Longrightarrow> built p r r''"
  by (auto simp: built_def)

lemma built_outcome: "built p r r' \<Longrightarrow> outcome F r' P \<Longrightarrow> outcome (F \<union> asserts p) r P"
  by (cases r') (auto simp: built_def)

lemma built_returns: "built p r r' \<Longrightarrow> returns r' P \<Longrightarrow> outcome (asserts p) r P"
  by (cases r') (auto simp: built_def)

lemma built_bind [built_intros]:
  assumes "built p r r'" "\<And>x. built p (f x) (f' x)"
  shows "built p (bindR r f) (bindR r' f')"
proof (cases "r = r'")
  case True
  then show ?thesis using assms(2) by (cases r') simp_all
next
  case False
  then show ?thesis using assms(1) by (simp add: built_def)
qed

lemma built_cassert [built_intros]: "built p k k' \<Longrightarrow> built p (cassert dbg c k) (cassert dbg c k')"
  by (simp add: cassert_def)

lemma built_cassert_out: "built p k k' \<Longrightarrow> built p (cassert p c k) (cassert False c k')"
  by (simp add: cassert_def built_def)

lemma built_if [built_intros]: "built p a a' \<Longrightarrow> built p b b' \<Longrightarrow> built p (if c then a else b) (if c then a' else b')"
  by simp

lemma built_option [built_intros]:
  "built p a a' \<Longrightarrow> (\<And>y. built p (f y) (f' y)) \<Longrightarrow> built p (case x of None \<Rightarrow> a | Some y \<Rightarrow> f y) (case x of None \<Rightarrow> a' | Some y \<Rightarrow> f' y)"
  by (cases x) simp_all

lemma built_prod [built_intros]: "(\<And>a b. built p (f a b) (f' a b)) \<Longrightarrow> built p (case x of (a, b) \<Rightarrow> f a b) (case x of (a, b) \<Rightarrow> f' a b)"
  by (cases x) simp

lemma built_list [built_intros]:
  "built p a a' \<Longrightarrow> (\<And>y ys. built p (f y ys) (f' y ys)) \<Longrightarrow>
   built p (case xs of [] \<Rightarrow> a | y # ys \<Rightarrow> f y ys) (case xs of [] \<Rightarrow> a' | y # ys \<Rightarrow> f' y ys)"
  by (cases xs) simp_all

section \<open>The poller\<close>

lemma Poller_updateChannel_built: "built p (Poller_updateChannel p inLoop c s) (Poller_updateChannel False inLoop c s)"
  unfolding Poller_updateChannel_def Let_def
  by (intro built_intros built_cassert_out)

lemma Poller_removeChannel_built: "built p (Poller_removeChannel p inLoop c s) (Poller_removeChannel False inLoop c s)"
  unfolding Poller_removeChannel_def Let_def
  by (intro built_intros built_cassert_out)

section \<open>Channels over it\<close>

text \<open>Two builds of a registry, and what channels do over them.\<close>

locale two_builds =
  fixes pdbg :: bool
    and update update' remove remove' :: "nat \<Rightarrow> 'h store \<times> 'w \<Rightarrow> ('h store \<times> 'w) res"
  assumes update_built: "built pdbg (update c s) (update' c s)"
    and remove_built: "built pdbg (remove c s) (remove' c s)"
begin

lemma setInterest_built: "built pdbg (Channel_setInterest dbg update f c s) (Channel_setInterest dbg update' f c s)"
  unfolding Channel_setInterest_def Channel_update_def by (intro built_intros update_built)

lemma channel_built:
  "built pdbg (Channel_enableReading dbg update c s) (Channel_enableReading dbg update' c s)"
  "built pdbg (Channel_enableWriting dbg update c s) (Channel_enableWriting dbg update' c s)"
  "built pdbg (Channel_disableWriting dbg update c s) (Channel_disableWriting dbg update' c s)"
  "built pdbg (Channel_disableAll dbg update c s) (Channel_disableAll dbg update' c s)"
  unfolding Channel_enableReading_def Channel_enableWriting_def Channel_disableWriting_def Channel_disableAll_def
  by (rule setInterest_built)+

lemma channel_remove_built: "built pdbg (Channel_remove dbg remove c s) (Channel_remove dbg remove' c s)"
  unfolding Channel_remove_def by (intro built_intros remove_built)

end

interpretation poller_builds: two_builds p "Poller_updateChannel p True" "Poller_updateChannel False True"
    "Poller_removeChannel p True" "Poller_removeChannel False True" for p
  by unfold_locales (rule Poller_updateChannel_built, rule Poller_removeChannel_built)

text \<open>With the asserts an update of a watched channel stops, whoever makes it.\<close>

lemma Poller_disable_aborts:
  assumes "Poller_inv s" "Poller_known s c fd" "Poller_watched s fd \<noteq> None"
  shows "Channel_disableAll dbg (Poller_updateChannel True True) c s = Inl AssertFail"
proof -
  have chan: "po_channels (snd s) fd = Some c" "0 \<le> fd" using assms(2) by (simp_all add: Poller_known_def)
  obtain i ch where i: "i < length (po_pollfds (snd s))" "pfd_owner (po_pollfds (snd s) ! i) = fd"
    and ch: "fst s c = Some ch" "ch_fd ch = fd" "ch_index ch = int i" "ch_loop ch"
      "pfd_fd (po_pollfds (snd s) ! i) < 0 \<longleftrightarrow> ch_interestedEvents ch = 0"
    using Poller_entry [OF assms(1) chan(1)] by metis
  have "pfd_fd (po_pollfds (snd s) ! i) \<noteq> - fd - 1"
    using assms(3) ch chan(2) Poller_watched_eq [OF assms(1) chan(1) ch(1)] by (auto split: if_splits)
  then show ?thesis
    using ch chan i(1) by (simp add: Channel_disableAll_def Channel_setInterest_simp Poller_updateChannel_def Let_def)
qed

end
