(* ===== verification/Connector.thy ===== *)
theory Connector
  imports Builds Posix
begin

text \<open>
  The connector of connector.h and connector.cc: the state machine of a client that tries to connect, its
  retries with growing delays, and the channel it keeps in the loop while a connection is under way. The
  loop's channel operations, what the system calls return, addresses of new channels, the clock of the
  timers and what the callback does are parameters. Log output is left out.
\<close>

section \<open>State\<close>

datatype ConnectorState = kDisconnected | kConnecting | kConnected

datatype connector_handler = ConnectorWrite | ConnectorError

datatype connector_functor = StartInLoop | StopInLoop | ResetChannel

text \<open>
  The members of the object (\<open>cn_\<close>) beside what it works on (\<open>cw_\<close>): whether the caller runs in the thread
  of the loop, the channels and the rest of the loop, the functors queued, the delays of the timers set,
  the sockets the connector has open, and those it has handed over.
\<close>

record ('cb, 'w) Connector =
  cn_connected :: bool
  cn_state :: ConnectorState
  cn_channel :: "nat option"
  cn_newConnectionCallback :: "'cb option"
  cn_retryDelayMs :: int
  cw_inLoop :: bool
  cw_loop :: "connector_handler store \<times> 'w"
  cw_functors :: "connector_functor list"
  cw_timers :: "int list"
  cw_open :: "int list"
  cw_delivered :: "int list"

type_synonym ('cb, 'w) connector_user = "'cb \<Rightarrow> int \<Rightarrow> ('cb, 'w) Connector \<Rightarrow> ('cb, 'w) Connector res"

type_synonym 'w connector_op = "nat \<Rightarrow> connector_handler store \<times> 'w \<Rightarrow> (connector_handler store \<times> 'w) res"

definition kMaxRetryDelayMs :: int where "kMaxRetryDelayMs = 30 * 1000"
definition kInitRetryDelayMs :: int where "kInitRetryDelayMs = 500"

definition Connector_new :: "bool \<Rightarrow> connector_handler store \<times> 'w \<Rightarrow> ('cb, 'w) Connector" where
  "Connector_new inLoop l =
     \<lparr>cn_connected = False, cn_state = kDisconnected, cn_channel = None, cn_newConnectionCallback = None,
      cn_retryDelayMs = kInitRetryDelayMs, cw_inLoop = inLoop, cw_loop = l, cw_functors = [], cw_timers = [],
      cw_open = [], cw_delivered = []\<rparr>"

definition Connector_setNewConnectionCallback :: "'cb \<Rightarrow> ('cb, 'w) Connector \<Rightarrow> ('cb, 'w) Connector" where
  "Connector_setNewConnectionCallback cb w = w\<lparr>cn_newConnectionCallback := Some cb\<rparr>"

definition in_loop_thread :: "('cb, 'w) Connector \<Rightarrow> 'a res \<Rightarrow> 'a res" where
  "in_loop_thread w k = (if cw_inLoop w then k else Inl FatalAbort)"

definition queue :: "connector_functor \<Rightarrow> ('cb, 'w) Connector \<Rightarrow> ('cb, 'w) Connector" where
  "queue f w = w\<lparr>cw_functors := cw_functors w @ [f]\<rparr>"

definition close_socket :: "int \<Rightarrow> ('cb, 'w) Connector \<Rightarrow> ('cb, 'w) Connector" where
  "close_socket sockfd w = w\<lparr>cw_open := remove1 sockfd (cw_open w)\<rparr>"

text \<open>Deleting the channel object, as \<^verbatim>\<open>unique_ptr\<close> does on \<^verbatim>\<open>reset\<close>; null is left alone.\<close>

definition delete_channel :: "bool \<Rightarrow> ('cb, 'w) Connector \<Rightarrow> ('cb, 'w) Connector res" where
  "delete_channel dbg w =
     (case cn_channel w of
        None \<Rightarrow> Inr w
      | Some c \<Rightarrow>
          (case fst (cw_loop w) c of
             None \<Rightarrow> Inl BadPointer
           | Some ch \<Rightarrow> bindR (Channel_destroy dbg ch) (\<lambda>_.
               Inr (w\<lparr>cn_channel := None, cw_loop := ((fst (cw_loop w))(c := None), snd (cw_loop w))\<rparr>))))"

definition Connector_destroy :: "bool \<Rightarrow> ('cb, 'w) Connector \<Rightarrow> (connector_handler store \<times> 'w) res" where
  "Connector_destroy dbg w =
     cassert dbg (cn_channel w = None) (bindR (delete_channel dbg w) (\<lambda>w'. Inr (cw_loop w')))"

section \<open>Connecting\<close>

definition Connector_retry :: "int \<Rightarrow> ('cb, 'w) Connector \<Rightarrow> ('cb, 'w) Connector" where
  "Connector_retry sockfd w =
     (let w' = (close_socket sockfd w)\<lparr>cn_state := kDisconnected\<rparr> in
      if cn_connected w'
      then w'\<lparr>cw_timers := cw_timers w' @ [cn_retryDelayMs w'],
              cn_retryDelayMs := min (cn_retryDelayMs w' * 2) kMaxRetryDelayMs\<rparr>
      else w')"

text \<open>\<open>c\<close> is the address of the new channel, \<open>upd\<close> and \<open>rem\<close> are the loop's operations on channels.\<close>

definition Connector_connecting ::
  "bool \<Rightarrow> 'w connector_op \<Rightarrow> nat \<Rightarrow> int \<Rightarrow> ('cb, 'w) Connector \<Rightarrow> ('cb, 'w) Connector res" where
  "Connector_connecting dbg upd c sockfd w =
     (let w1 = w\<lparr>cn_state := kConnecting\<rparr> in
      cassert dbg (cn_channel w1 = None) (bindR (delete_channel dbg w1) (\<lambda>w2.
        let ch = Channel_setErrorCallback ConnectorError
                   (Channel_setWriteCallback ConnectorWrite (Channel_new True sockfd)) in
        bindR (Channel_enableWriting dbg upd c ((fst (cw_loop w2))(c \<mapsto> ch), snd (cw_loop w2))) (\<lambda>l.
          Inr (w2\<lparr>cn_channel := Some c, cw_loop := l\<rparr>)))))"

text \<open>\<open>e\<close> is zero when \<^verbatim>\<open>connect\<close> succeeds at once, else its error number.\<close>

definition Connector_connect ::
  "bool \<Rightarrow> 'w connector_op \<Rightarrow> nat \<Rightarrow> int \<Rightarrow> int \<Rightarrow> ('cb, 'w) Connector \<Rightarrow> ('cb, 'w) Connector res" where
  "Connector_connect dbg upd c sockfd e w =
     (if sockfd < 0 then Inl FatalAbort
      else let w' = w\<lparr>cw_open := sockfd # cw_open w\<rparr> in
        if e \<in> {0, EINPROGRESS, EINTR, EISCONN} then Connector_connecting dbg upd c sockfd w'
        else if e \<in> {EAGAIN, EADDRINUSE, EADDRNOTAVAIL, ECONNREFUSED, ENETUNREACH, EHOSTUNREACH, ETIMEDOUT}
        then Inr (Connector_retry sockfd w')
        else Inr (close_socket sockfd w'))"

definition Connector_startInLoop ::
  "bool \<Rightarrow> 'w connector_op \<Rightarrow> nat \<Rightarrow> int \<Rightarrow> int \<Rightarrow> ('cb, 'w) Connector \<Rightarrow> ('cb, 'w) Connector res" where
  "Connector_startInLoop dbg upd c sockfd e w =
     in_loop_thread w (cassert dbg (cn_state w = kDisconnected)
       (if cn_connected w then Connector_connect dbg upd c sockfd e w else Inr w))"

definition Connector_start ::
  "bool \<Rightarrow> 'w connector_op \<Rightarrow> nat \<Rightarrow> int \<Rightarrow> int \<Rightarrow> ('cb, 'w) Connector \<Rightarrow> ('cb, 'w) Connector res" where
  "Connector_start dbg upd c sockfd e w =
     (let w' = w\<lparr>cn_connected := True\<rparr> in
      if cw_inLoop w' then Connector_startInLoop dbg upd c sockfd e w' else Inr (queue StartInLoop w'))"

definition Connector_restart ::
  "bool \<Rightarrow> 'w connector_op \<Rightarrow> nat \<Rightarrow> int \<Rightarrow> int \<Rightarrow> ('cb, 'w) Connector \<Rightarrow> ('cb, 'w) Connector res" where
  "Connector_restart dbg upd c sockfd e w =
     in_loop_thread w (Connector_startInLoop dbg upd c sockfd e
       (w\<lparr>cn_state := kDisconnected, cn_retryDelayMs := kInitRetryDelayMs, cn_connected := True\<rparr>))"

section \<open>Leaving the loop\<close>

text \<open>The channel is removed from the loop now and deleted later, by a functor.\<close>

definition Connector_removeAndResetChannel ::
  "bool \<Rightarrow> 'w connector_op \<Rightarrow> 'w connector_op \<Rightarrow> ('cb, 'w) Connector \<Rightarrow> (int \<times> ('cb, 'w) Connector) res" where
  "Connector_removeAndResetChannel dbg upd rem w =
     (case cn_channel w of
        None \<Rightarrow> Inl BadPointer
      | Some c \<Rightarrow>
          bindR (bindR (Channel_disableAll dbg upd c (cw_loop w)) (Channel_remove dbg rem c)) (\<lambda>l.
            case fst l c of
              None \<Rightarrow> Inl BadPointer
            | Some ch \<Rightarrow> Inr (ch_fd ch, queue ResetChannel (w\<lparr>cw_loop := l\<rparr>))))"

definition Connector_resetChannel :: "bool \<Rightarrow> ('cb, 'w) Connector \<Rightarrow> ('cb, 'w) Connector res" where
  "Connector_resetChannel dbg w = delete_channel dbg w"

definition Connector_stop :: "('cb, 'w) Connector \<Rightarrow> ('cb, 'w) Connector" where
  "Connector_stop w = queue StopInLoop (w\<lparr>cn_connected := False\<rparr>)"

definition Connector_stopInLoop ::
  "bool \<Rightarrow> 'w connector_op \<Rightarrow> 'w connector_op \<Rightarrow> ('cb, 'w) Connector \<Rightarrow> ('cb, 'w) Connector res" where
  "Connector_stopInLoop dbg upd rem w =
     in_loop_thread w (if cn_state w = kConnecting
       then bindR (Connector_removeAndResetChannel dbg upd rem (w\<lparr>cn_state := kDisconnected\<rparr>)) (\<lambda>(sockfd, w').
         Inr (Connector_retry sockfd w'))
       else Inr w)"

section \<open>Handlers\<close>

text \<open>\<open>err\<close> is the pending error of the socket, \<open>self\<close> says whether it is connected to itself.\<close>

definition Connector_handleWrite ::
  "bool \<Rightarrow> 'w connector_op \<Rightarrow> 'w connector_op \<Rightarrow> ('cb, 'w) connector_user \<Rightarrow> int \<Rightarrow> bool \<Rightarrow>
     ('cb, 'w) Connector \<Rightarrow> ('cb, 'w) Connector res" where
  "Connector_handleWrite dbg upd rem user err self w =
     (if cn_state w = kConnecting
      then bindR (Connector_removeAndResetChannel dbg upd rem w) (\<lambda>(sockfd, w1).
        if err \<noteq> 0 then Inr (Connector_retry sockfd w1)
        else if self then Inr (Connector_retry sockfd w1)
        else let w2 = w1\<lparr>cn_state := kConnected\<rparr> in
          if cn_connected w2
          then (case cn_newConnectionCallback w2 of
                  None \<Rightarrow> Inl BadCall
                | Some f \<Rightarrow> user f sockfd (w2\<lparr>cw_open := remove1 sockfd (cw_open w2),
                                              cw_delivered := cw_delivered w2 @ [sockfd]\<rparr>))
          else Inr (close_socket sockfd w2))
      else cassert dbg (cn_state w = kDisconnected) (Inr w))"

definition Connector_handleError ::
  "bool \<Rightarrow> 'w connector_op \<Rightarrow> 'w connector_op \<Rightarrow> ('cb, 'w) Connector \<Rightarrow> ('cb, 'w) Connector res" where
  "Connector_handleError dbg upd rem w =
     (if cn_state w = kConnecting
      then bindR (Connector_removeAndResetChannel dbg upd rem w) (\<lambda>(sockfd, w1).
        Inr (Connector_retry sockfd w1))
      else Inr w)"

section \<open>Events\<close>

text \<open>
  What happens to a connector: its owner starts, restarts and stops it, from the thread of the loop or
  another; the loop reports an error or room to write of its descriptor, in this order, runs its functors
  and fires its timers; others use the loop. The numbers are those of the attempt that is made, if one is.
  \<open>stops\<close> says whether the callback stops the connector.
\<close>

datatype 'w connector_event =
    Start nat int int
  | Restart nat int int
  | Stop
  | RemoteStart
  | RemoteStop
  | Report bool bool int bool
  | RunFunctor nat int int
  | Timer nat int int
  | Others "connector_handler store \<times> 'w"

definition stopping_user :: "('cb \<Rightarrow> int \<Rightarrow> bool) \<Rightarrow> ('cb, 'w) connector_user" where
  "stopping_user stops f sockfd w = Inr (if stops f sockfd then Connector_stop w else w)"

fun connector_functor_run ::
  "bool \<Rightarrow> 'w connector_op \<Rightarrow> 'w connector_op \<Rightarrow> nat \<Rightarrow> int \<Rightarrow> int \<Rightarrow> connector_functor \<Rightarrow>
     ('cb, 'w) Connector \<Rightarrow> ('cb, 'w) Connector res" where
  "connector_functor_run dbg upd rem c sockfd e StartInLoop w = Connector_startInLoop dbg upd c sockfd e w"
| "connector_functor_run dbg upd rem c sockfd e StopInLoop w = Connector_stopInLoop dbg upd rem w"
| "connector_functor_run dbg upd rem c sockfd e ResetChannel w = Connector_resetChannel dbg w"

fun connector_event_run ::
  "bool \<Rightarrow> 'w connector_op \<Rightarrow> 'w connector_op \<Rightarrow> ('cb \<Rightarrow> int \<Rightarrow> bool) \<Rightarrow> 'w connector_event \<Rightarrow>
     ('cb, 'w) Connector \<Rightarrow> ('cb, 'w) Connector res" where
  "connector_event_run dbg upd rem stops (Start c sockfd e) w = Connector_start dbg upd c sockfd e w"
| "connector_event_run dbg upd rem stops (Restart c sockfd e) w = Connector_restart dbg upd c sockfd e w"
| "connector_event_run dbg upd rem stops Stop w = Inr (Connector_stop w)"
| "connector_event_run dbg upd rem stops RemoteStart w =
     bindR (Connector_start dbg upd 0 0 0 (w\<lparr>cw_inLoop := False\<rparr>)) (\<lambda>w'. Inr (w'\<lparr>cw_inLoop := True\<rparr>))"
| "connector_event_run dbg upd rem stops RemoteStop w =
     Inr ((Connector_stop (w\<lparr>cw_inLoop := False\<rparr>))\<lparr>cw_inLoop := True\<rparr>)"
| "connector_event_run dbg upd rem stops (Report error write err self) w =
     bindR (if error then Connector_handleError dbg upd rem w else Inr w) (\<lambda>w'.
       if write then Connector_handleWrite dbg upd rem (stopping_user stops) err self w' else Inr w')"
| "connector_event_run dbg upd rem stops (RunFunctor c sockfd e) w =
     (case cw_functors w of
        [] \<Rightarrow> Inr w
      | f # fs \<Rightarrow> connector_functor_run dbg upd rem c sockfd e f (w\<lparr>cw_functors := fs\<rparr>))"
| "connector_event_run dbg upd rem stops (Timer c sockfd e) w =
     (case cw_timers w of
        [] \<Rightarrow> Inr w
      | t # ts \<Rightarrow> Connector_startInLoop dbg upd c sockfd e (w\<lparr>cw_timers := ts\<rparr>))"
| "connector_event_run dbg upd rem stops (Others l) w = Inr (w\<lparr>cw_loop := l\<rparr>)"

fun connector_events_run ::
  "bool \<Rightarrow> 'w connector_op \<Rightarrow> 'w connector_op \<Rightarrow> ('cb \<Rightarrow> int \<Rightarrow> bool) \<Rightarrow> 'w connector_event list \<Rightarrow>
     ('cb, 'w) Connector \<Rightarrow> ('cb, 'w) Connector res" where
  "connector_events_run dbg upd rem stops [] w = Inr w"
| "connector_events_run dbg upd rem stops (ev # evs) w =
     bindR (connector_event_run dbg upd rem stops ev w) (connector_events_run dbg upd rem stops evs)"

lemma connector_events_run_Nil [simp]: "connector_events_run dbg upd rem stops [] = Inr"
  by (simp add: fun_eq_iff)

section \<open>A careful owner\<close>

text \<open>
  The owner starts a connector that does nothing and has nothing queued, and restarts one that has handed
  its connection over and deleted its channel; it stops it whenever it likes. The loop reports the descriptor of
  a channel that is registered. A timer, which is at least half a second away, fires after the functors that were
  queued with it. Addresses of new objects and descriptors of new sockets are unused, and others keep off
  the connector's channel.
\<close>

definition starts :: "('cb, 'w) Connector \<Rightarrow> nat" where
  "starts w = count_list (cw_functors w) StartInLoop + length (cw_timers w)"

fun connector_possible ::
  "(connector_handler store \<times> 'w \<Rightarrow> bool) \<Rightarrow> (connector_handler store \<times> 'w \<Rightarrow> nat \<Rightarrow> int \<Rightarrow> bool) \<Rightarrow>
     (connector_handler store \<times> 'w \<Rightarrow> nat \<Rightarrow> int \<Rightarrow> bool) \<Rightarrow> 'w connector_event \<Rightarrow> ('cb, 'w) Connector \<Rightarrow> bool" where
  "connector_possible linv known vacant (Start c sockfd e) w \<longleftrightarrow>
     cn_state w = kDisconnected \<and> cn_channel w = None \<and> starts w = 0 \<and> vacant (cw_loop w) c sockfd"
| "connector_possible linv known vacant RemoteStart w \<longleftrightarrow>
     cn_state w = kDisconnected \<and> cn_channel w = None \<and> starts w = 0"
| "connector_possible linv known vacant (Restart c sockfd e) w \<longleftrightarrow>
     cn_state w = kConnected \<and> cn_channel w = None \<and> vacant (cw_loop w) c sockfd"
| "connector_possible linv known vacant (Report error write err self) w \<longleftrightarrow>
     (\<exists>c fd. cn_channel w = Some c \<and> known (cw_loop w) c fd)"
| "connector_possible linv known vacant (RunFunctor c sockfd e) w \<longleftrightarrow> vacant (cw_loop w) c sockfd"
| "connector_possible linv known vacant (Timer c sockfd e) w \<longleftrightarrow>
     cw_timers w \<noteq> [] \<and> ResetChannel \<notin> set (cw_functors w) \<and> vacant (cw_loop w) c sockfd"
| "connector_possible linv known vacant (Others l) w \<longleftrightarrow>
     linv l \<and> (\<forall>c. cn_channel w = Some c \<longrightarrow> keeps_channel known c (cw_loop w) l)"
| "connector_possible linv known vacant ev w \<longleftrightarrow> True"

inductive connector_reach for dbg upd rem stops linv known vacant w0 where
  start: "connector_reach dbg upd rem stops linv known vacant w0 w0"
| step: "connector_reach dbg upd rem stops linv known vacant w0 w \<Longrightarrow> connector_possible linv known vacant ev w \<Longrightarrow>
    connector_event_run dbg upd rem stops ev w = Inr w' \<Longrightarrow> connector_reach dbg upd rem stops linv known vacant w0 w'"

section \<open>Invariant\<close>

definition conn_base :: "(connector_handler store \<times> 'w \<Rightarrow> bool) \<Rightarrow> ('cb, 'w) Connector \<Rightarrow> bool" where
  "conn_base linv w \<longleftrightarrow> linv (cw_loop w) \<and> cw_inLoop w \<and> cn_newConnectionCallback w \<noteq> None \<and>
     (\<forall>t \<in> set (cn_retryDelayMs w # cw_timers w). kInitRetryDelayMs \<le> t \<and> t \<le> kMaxRetryDelayMs)"

text \<open>A connection is under way on the channel at \<open>c\<close> with descriptor \<open>fd\<close>.\<close>

definition conn_on ::
  "(connector_handler store \<times> 'w \<Rightarrow> nat \<Rightarrow> int \<Rightarrow> bool) \<Rightarrow> nat \<Rightarrow> int \<Rightarrow> ('cb, 'w) Connector \<Rightarrow> bool" where
  "conn_on known c fd w \<longleftrightarrow>
     cn_channel w = Some c \<and> known (cw_loop w) c fd \<and>
     (\<exists>ch. fst (cw_loop w) c = Some ch \<and> ch_loop ch \<and> ch_fd ch = fd \<and> ch_interestedEvents ch = 4 \<and> \<not> ch_eventHanding ch) \<and>
     cw_open w = [fd] \<and> ResetChannel \<notin> set (cw_functors w) \<and> starts w = 0"

text \<open>None is: a channel that is still there has left the loop and will be deleted by the one functor queued for it.\<close>

definition conn_off :: "(connector_handler store \<times> 'w \<Rightarrow> nat \<Rightarrow> int \<Rightarrow> bool) \<Rightarrow> ('cb, 'w) Connector \<Rightarrow> bool" where
  "conn_off known w \<longleftrightarrow>
     cw_open w = [] \<and> starts w \<le> 1 \<and> (starts w = 1 \<longrightarrow> cn_state w = kDisconnected) \<and>
     (case cn_channel w of
        None \<Rightarrow> ResetChannel \<notin> set (cw_functors w)
      | Some c \<Rightarrow> count_list (cw_functors w) ResetChannel = 1 \<and> StartInLoop \<notin> set (cw_functors w) \<and>
          (\<forall>fd. \<not> known (cw_loop w) c fd) \<and> (\<exists>ch. fst (cw_loop w) c = Some ch \<and> \<not> ch_eventHanding ch))"

definition Connector_ok ::
  "(connector_handler store \<times> 'w \<Rightarrow> bool) \<Rightarrow> (connector_handler store \<times> 'w \<Rightarrow> nat \<Rightarrow> int \<Rightarrow> bool) \<Rightarrow>
     ('cb, 'w) Connector \<Rightarrow> bool" where
  "Connector_ok linv known w \<longleftrightarrow> conn_base linv w \<and>
     (if cn_state w = kConnecting then \<exists>c fd. conn_on known c fd w else conn_off known w)"

lemma starts_simps [simp]:
  "starts (w\<lparr>cn_state := x\<rparr>) = starts w" "starts (w\<lparr>cw_loop := l\<rparr>) = starts w"
  "starts (w\<lparr>cw_open := ys\<rparr>) = starts w" "starts (w\<lparr>cn_connected := y\<rparr>) = starts w"
  "starts (w\<lparr>cn_channel := z\<rparr>) = starts w" "starts (w\<lparr>cn_retryDelayMs := r\<rparr>) = starts w"
  "starts (w\<lparr>cw_inLoop := y\<rparr>) = starts w" "starts (w\<lparr>cw_delivered := ys\<rparr>) = starts w"
  "starts (w\<lparr>cw_functors := fs @ [f]\<rparr>) = starts (w\<lparr>cw_functors := fs\<rparr>) + (if f = StartInLoop then 1 else 0)"
  "starts (w\<lparr>cw_functors := cw_functors w\<rparr>) = starts w"
  "starts (w\<lparr>cw_timers := ts @ [t]\<rparr>) = Suc (starts (w\<lparr>cw_timers := ts\<rparr>))"
  "starts (w\<lparr>cw_timers := cw_timers w\<rparr>) = starts w"
  by (simp_all add: starts_def)

declare count_list_0_iff [simp]

lemma Connector_retry_state [simp]: "cn_state (Connector_retry fd w) = kDisconnected"
  by (simp add: Connector_retry_def Let_def)

lemma delay_doubled:
  "kInitRetryDelayMs \<le> t \<Longrightarrow> kInitRetryDelayMs \<le> min (t * 2) kMaxRetryDelayMs"
  by (simp add: kInitRetryDelayMs_def kMaxRetryDelayMs_def)

locale connector_loop = channel_owner inv watched known fresh update remove vacant
  for inv :: "connector_handler store \<times> 'w \<Rightarrow> bool" and watched :: "connector_handler store \<times> 'w \<Rightarrow> int \<Rightarrow> (int \<times> nat) option"
    and known :: "connector_handler store \<times> 'w \<Rightarrow> nat \<Rightarrow> int \<Rightarrow> bool" and fresh :: "connector_handler store \<times> 'w \<Rightarrow> nat \<Rightarrow> int \<Rightarrow> bool"
    and update :: "'w connector_op" and remove :: "'w connector_op" and vacant :: "connector_handler store \<times> 'w \<Rightarrow> nat \<Rightarrow> int \<Rightarrow> bool"
begin

abbreviation "ok \<equiv> Connector_ok inv known"

text \<open>A channel that has left the loop, its socket still open.\<close>

definition left :: "int \<Rightarrow> ('cb, 'w) Connector \<Rightarrow> bool" where
  "left fd w \<longleftrightarrow> conn_base inv w \<and> cw_open w = [fd] \<and> starts w = 0 \<and> count_list (cw_functors w) ResetChannel = 1 \<and>
     (\<exists>c. cn_channel w = Some c \<and> (\<forall>fd. \<not> known (cw_loop w) c fd) \<and> (\<exists>ch. fst (cw_loop w) c = Some ch \<and> \<not> ch_eventHanding ch))"

lemma remove_live:
  assumes inv: "inv (cw_loop w)" and chan: "cn_channel w = Some c" "known (cw_loop w) c fd"
    and ch: "fst (cw_loop w) c = Some ch" "ch_loop ch" "ch_fd ch = fd" "ch_interestedEvents ch = 4" "\<not> ch_eventHanding ch"
  shows "returns (Connector_removeAndResetChannel dbg update remove w) (\<lambda>(sockfd, w'). sockfd = fd \<and>
     (\<exists>l. w' = queue ResetChannel (w\<lparr>cw_loop := l\<rparr>) \<and> inv l \<and> (\<forall>fd'. \<not> known l c fd') \<and>
        watched l = (watched (cw_loop w))(fd := None) \<and> (\<exists>ch. fst l c = Some ch \<and> \<not> ch_eventHanding ch)))"
proof -
  have "ch_interestedEvents ch \<noteq> 0" using ch(4) by simp
  with inv chan(2) ch(1, 2)
  have "returns (bindR (Channel_disableAll dbg update c (cw_loop w)) (Channel_remove dbg remove c)) (\<lambda>s'.
     inv s' \<and> (\<forall>fd'. \<not> known s' c fd') \<and> watched s' = (watched (cw_loop w))(fd := None) \<and>
     (\<exists>i. fst s' c = Some (ch\<lparr>ch_interestedEvents := 0, ch_index := i\<rparr>)))"
    by (intro leave_ok)
  then obtain l i
    where l: "bindR (Channel_disableAll dbg update c (cw_loop w)) (Channel_remove dbg remove c) = Inr l"
      "inv l" "\<forall>fd'. \<not> known l c fd'" "fst l c = Some (ch\<lparr>ch_interestedEvents := 0, ch_index := i\<rparr>)"
      "watched l = (watched (cw_loop w))(fd := None)"
    unfolding returns_iff by blast
  have "Connector_removeAndResetChannel dbg update remove w = Inr (fd, queue ResetChannel (w\<lparr>cw_loop := l\<rparr>))"
    unfolding Connector_removeAndResetChannel_def chan(1) option.case l(1) bindR_simps using l(4) ch(3) by simp
  then show ?thesis
    using l(2-5) ch(5) by (simp del: split_paired_Ex) (rule exI [of _ l], simp)
qed

lemma remove_ok:
  assumes "conn_base inv w" "conn_on known c fd w"
  shows "returns (Connector_removeAndResetChannel dbg update remove w) (\<lambda>(sockfd, w'). sockfd = fd \<and> left fd w' \<and>
     cn_state w' = cn_state w \<and> cn_connected w' = cn_connected w \<and> cw_delivered w' = cw_delivered w)"
proof -
  obtain ch where ch: "fst (cw_loop w) c = Some ch" "ch_loop ch" "ch_fd ch = fd" "ch_interestedEvents ch = 4" "\<not> ch_eventHanding ch"
    using assms(2) by (auto simp: conn_on_def)
  have "StartInLoop \<notin> set (cw_functors w)" "ResetChannel \<notin> set (cw_functors w)"
    using assms(2) by (auto simp: conn_on_def starts_def)
  moreover have "inv (cw_loop w)" "cn_channel w = Some c" "known (cw_loop w) c fd"
    using assms by (simp_all add: conn_base_def conn_on_def)
  note r = remove_live [OF this ch]
  ultimately show ?thesis
    using assms by (intro returns_mono [OF r]) (auto simp: conn_on_def conn_base_def left_def queue_def)
qed

lemma retry_ok:
  assumes "left fd w"
  shows "ok (Connector_retry fd w)"
  using assms delay_doubled [of "cn_retryDelayMs w"]
  unfolding Connector_retry_def close_socket_def left_def Let_def
  by (auto simp: Connector_ok_def conn_off_def conn_base_def starts_def)

lemma handleWrite_ok:
  fixes w :: "('cb, 'w) Connector"
  assumes "ok w" "cn_state w = kConnecting \<or> cn_state w = kDisconnected"
  shows "returns (Connector_handleWrite dbg update remove (stopping_user stops) err self w) ok"
proof (cases "cn_state w = kConnecting")
  case True
  then obtain c fd where on: "conn_base inv w" "conn_on known c fd w" using assms(1) by (auto simp: Connector_ok_def)
  show ?thesis
    unfolding Connector_handleWrite_def if_P [OF True]
  proof (rule returns_bind [OF remove_ok [OF on]], clarify)
    fix w1 :: "('cb, 'w) Connector" assume w1: "left fd w1"
    have "ok (close_socket fd (w1\<lparr>cn_state := kConnected\<rparr>))"
      using w1 by (auto simp: left_def close_socket_def Connector_ok_def conn_off_def conn_base_def starts_def)
    moreover have "ok (w1\<lparr>cn_state := kConnected, cw_open := remove1 fd (cw_open w1), cw_delivered := ds\<rparr>)" for ds
      using w1 by (auto simp: left_def Connector_ok_def conn_off_def conn_base_def starts_def)
    moreover have "ok (Connector_stop w)" if "ok w" "cn_state w = kConnected" for w :: "('cb, 'w) Connector"
      using that by (auto simp: Connector_ok_def conn_off_def conn_base_def starts_def Connector_stop_def queue_def split: option.splits)
    moreover have "cn_newConnectionCallback w1 \<noteq> None" using w1 by (simp add: left_def conn_base_def)
    ultimately show "returns (if err \<noteq> 0 then Inr (Connector_retry fd w1)
        else if self then Inr (Connector_retry fd w1)
        else let w2 = w1\<lparr>cn_state := kConnected\<rparr> in
          if cn_connected w2
          then (case cn_newConnectionCallback w2 of
                  None \<Rightarrow> Inl BadCall
                | Some f \<Rightarrow> stopping_user stops f fd (w2\<lparr>cw_open := remove1 fd (cw_open w2),
                                              cw_delivered := cw_delivered w2 @ [fd]\<rparr>))
          else Inr (close_socket fd w2)) ok"
      using retry_ok [OF w1] by (auto simp: stopping_user_def Let_def split: option.split)
  qed
next
  case False
  then show ?thesis using assms by (simp add: Connector_handleWrite_def cassert_holds)
qed

lemma handleError_ok:
  assumes "ok w" "cn_state w = kConnecting"
  shows "returns (Connector_handleError dbg update remove w) (\<lambda>w'. ok w' \<and> cn_state w' = kDisconnected)"
proof -
  obtain c fd where on: "conn_base inv w" "conn_on known c fd w" using assms by (auto simp: Connector_ok_def)
  show ?thesis
    unfolding Connector_handleError_def if_P [OF assms(2)]
    by (rule returns_bind [OF remove_ok [OF on]]) (auto intro: retry_ok)
qed

text \<open>Nothing is under way and no channel is left.\<close>

definition idle :: "('cb, 'w) Connector \<Rightarrow> bool" where
  "idle w \<longleftrightarrow> conn_base inv w \<and> cn_state w = kDisconnected \<and> cn_channel w = None \<and> starts w = 0 \<and>
     ResetChannel \<notin> set (cw_functors w)"

text \<open>The registration of the channel of a new socket.\<close>

lemma register_new:
  assumes "inv l" "vacant l c fd"
    and ch: "ch = Channel_setErrorCallback ConnectorError (Channel_setWriteCallback ConnectorWrite (Channel_new True fd))"
  obtains l' ch' where "Channel_enableWriting dbg update c ((fst l)(c \<mapsto> ch), snd l) = Inr l'" "inv l'" "known l' c fd"
    "watched l' = (watched l)(fd \<mapsto> (4, c))" "fst l' c = Some ch'" "ch_loop ch'" "ch_fd ch' = fd"
    "ch_interestedEvents ch' = 4" "\<not> ch_eventHanding ch'"
proof -
  have new: "ch_fd ch = fd" "ch_index ch = - 1" "ch_loop ch" "ch_interestedEvents ch = 0" "\<not> ch_eventHanding ch"
    by (simp_all add: ch Channel_new_def Channel_setErrorCallback_def Channel_setWriteCallback_def)
  let ?l = "((fst l)(c \<mapsto> ch), snd l)"
  have l: "inv ?l" "fresh ?l c fd" "watched ?l = watched l" using create [OF assms(1, 2) new(1-3)] by simp_all
  have "returns (Channel_enableWriting dbg update c ?l) (\<lambda>s'. inv s' \<and> known s' c fd \<and>
      (\<exists>ch'. fst s' c = Some ch' \<and> ch_loop ch' \<and> ch_interestedEvents ch' = 4) \<and>
      watched s' = (watched ?l)(fd := if (4 :: int) = 0 then None else Some (4, c)))"
    unfolding Channel_enableWriting_def by (rule setInterest_ok [OF l(1), of _ ch]) (use new l in simp_all)
  then obtain l' where l': "Channel_enableWriting dbg update c ?l = Inr l'" "inv l'" "known l' c fd"
      "watched l' = (watched l)(fd \<mapsto> (4, c))"
    unfolding returns_iff by (auto simp: l(3))
  obtain i where "fst l' c = Some (ch\<lparr>ch_interestedEvents := 4, ch_index := i\<rparr>)"
    using setInterest_object [OF l'(1) [unfolded Channel_enableWriting_def], of ch] new(4) by auto
  with l' new show thesis by (intro that [of l' "ch\<lparr>ch_interestedEvents := 4, ch_index := i\<rparr>"]) simp_all
qed

lemma connecting_ok:
  assumes "idle w" "cw_open w = [fd]" "vacant (cw_loop w) c fd"
  shows "returns (Connector_connecting dbg update c fd w) (\<lambda>w'. ok w' \<and> cn_state w' = kConnecting \<and>
     cn_connected w' = cn_connected w \<and> cw_delivered w' = cw_delivered w \<and> cw_open w' = [fd] \<and>
     watched (cw_loop w') = (watched (cw_loop w))(fd \<mapsto> (4, c)))"
proof -
  have "inv (cw_loop w)" using assms(1) by (simp add: idle_def conn_base_def)
  from register_new [OF this assms(3) refl, of dbg] obtain l' ch'
    where l': "Channel_enableWriting dbg update c ((fst (cw_loop w))(c \<mapsto> Channel_setErrorCallback ConnectorError
         (Channel_setWriteCallback ConnectorWrite (Channel_new True fd))), snd (cw_loop w)) = Inr l'"
      "inv l'" "known l' c fd" "watched l' = (watched (cw_loop w))(fd \<mapsto> (4, c))"
      and ch': "fst l' c = Some ch'" "ch_loop ch'" "ch_fd ch' = fd" "ch_interestedEvents ch' = 4" "\<not> ch_eventHanding ch'"
    by metis
  then have "conn_on known c fd (w\<lparr>cn_state := kConnecting, cn_channel := Some c, cw_loop := l'\<rparr>)"
    using assms(1, 2) by (simp add: conn_on_def idle_def starts_def)
  moreover have "conn_base inv (w\<lparr>cn_state := kConnecting, cn_channel := Some c, cw_loop := l'\<rparr>)"
    using assms(1) l'(2) by (simp add: conn_base_def idle_def)
  ultimately show ?thesis
    using assms(1, 2) l'(1, 4)
    by (auto simp: Connector_connecting_def Let_def delete_channel_def idle_def cassert_holds Connector_ok_def)
qed

lemma idle_close: "idle w \<Longrightarrow> cw_open w = [] \<Longrightarrow> ok (close_socket fd (w\<lparr>cw_open := [fd]\<rparr>))"
  by (simp add: idle_def close_socket_def Connector_ok_def conn_base_def conn_off_def)

lemma idle_retry: "idle w \<Longrightarrow> cw_open w = [] \<Longrightarrow> ok (Connector_retry fd (w\<lparr>cw_open := [fd]\<rparr>))"
  using delay_doubled [of "cn_retryDelayMs w"]
  by (simp add: idle_def Connector_retry_def close_socket_def Connector_ok_def conn_base_def conn_off_def starts_def Let_def)

lemma startInLoop_ok:
  assumes "idle w" "cw_open w = []" "vacant (cw_loop w) c fd"
  shows "returns (Connector_startInLoop dbg update c fd e w) ok"
proof -
  have w: "cw_inLoop w" "cn_state w = kDisconnected" using assms(1) by (simp_all add: idle_def conn_base_def)
  have "idle (w\<lparr>cw_open := [fd]\<rparr>)" using assms(1) by (simp add: idle_def conn_base_def)
  then have "returns (Connector_connecting dbg update c fd (w\<lparr>cw_open := [fd]\<rparr>)) ok"
    using connecting_ok [of "w\<lparr>cw_open := [fd]\<rparr>" fd c dbg] assms(3) by (auto elim!: returns_mono)
  moreover have "ok w" using assms(1, 2) by (simp add: Connector_ok_def idle_def conn_off_def)
  moreover have "0 \<le> fd" using assms(3) by (rule vacant_fd)
  ultimately show ?thesis
    using assms idle_close [OF assms(1, 2)] idle_retry [OF assms(1, 2)] w
    by (simp add: Connector_startInLoop_def in_loop_thread_def cassert_holds Connector_connect_def Let_def)
qed

lemma stopInLoop_ok:
  assumes "ok w"
  shows "returns (Connector_stopInLoop dbg update remove w) ok"
proof (cases "cn_state w = kConnecting")
  case True
  then obtain c fd where on: "conn_base inv w" "conn_on known c fd w" using assms by (auto simp: Connector_ok_def)
  have "conn_base inv (w\<lparr>cn_state := kDisconnected\<rparr>)" "conn_on known c fd (w\<lparr>cn_state := kDisconnected\<rparr>)"
    using on by (simp_all add: conn_base_def conn_on_def)
  note r = remove_ok [OF this]
  have "cw_inLoop w" using on(1) by (simp add: conn_base_def)
  then show ?thesis
    using True unfolding Connector_stopInLoop_def in_loop_thread_def
    by (simp, intro returns_bind [OF r]) (auto intro: retry_ok)
next
  case False
  then show ?thesis using assms by (simp add: Connector_stopInLoop_def in_loop_thread_def Connector_ok_def conn_base_def)
qed

lemma resetChannel_ok:
  assumes "ok w" "cw_functors w = ResetChannel # fs"
  shows "returns (Connector_resetChannel dbg (w\<lparr>cw_functors := fs\<rparr>)) ok"
proof -
  have "cn_state w \<noteq> kConnecting" using assms by (auto simp: Connector_ok_def conn_on_def)
  then have off: "conn_base inv w" "conn_off known w" using assms(1) by (simp_all add: Connector_ok_def)
  then obtain c ch where c: "cn_channel w = Some c" "\<forall>fd. \<not> known (cw_loop w) c fd" "fst (cw_loop w) c = Some ch"
      "\<not> ch_eventHanding ch" "ResetChannel \<notin> set fs" "StartInLoop \<notin> set fs"
    using assms(2) by (auto simp: conn_off_def split: option.splits)
  have "inv (cw_loop w)" using off(1) by (simp add: conn_base_def)
  note d = delete [OF this c(2)]
  then show ?thesis
    using off c d \<open>cn_state w \<noteq> kConnecting\<close> assms(2)
    by (auto simp: Connector_resetChannel_def delete_channel_def Channel_destroy_def cassert_holds Connector_ok_def
        conn_base_def conn_off_def starts_def)
qed

lemma idleI:
  assumes "ok w" "cn_state w = kDisconnected" "cn_channel w = None" "starts w = 0"
  shows "idle w" "cw_open w = []"
  using assms by (simp_all add: Connector_ok_def conn_off_def idle_def)

lemma idle_flags: "idle (w\<lparr>cn_connected := b\<rparr>) = idle w"
  by (simp add: idle_def conn_base_def)

lemma ok_stop: "ok w \<Longrightarrow> ok (Connector_stop w)"
  by (auto simp: Connector_ok_def conn_base_def conn_on_def conn_off_def Connector_stop_def queue_def starts_def
      split: option.splits)

lemma functor_ok:
  assumes ok: "ok w" and f: "cw_functors w = f # fs" and v: "vacant (cw_loop w) c fd"
  shows "returns (connector_functor_run dbg update remove c fd e f (w\<lparr>cw_functors := fs\<rparr>)) ok"
proof (cases f)
  case StartInLoop
  then have "conn_off known w" "cn_channel w = None" "cn_state w = kDisconnected" "conn_base inv w"
    using ok f by (auto simp: Connector_ok_def conn_on_def conn_off_def starts_def split: if_splits option.splits)
  then have "idle (w\<lparr>cw_functors := fs\<rparr>)" "cw_open w = []"
    using f StartInLoop by (auto simp: idle_def conn_off_def conn_base_def starts_def)
  then show ?thesis using v StartInLoop by (auto intro!: startInLoop_ok)
next
  case StopInLoop
  have "ok (w\<lparr>cw_functors := fs\<rparr>)"
    using ok f StopInLoop
    by (auto simp: Connector_ok_def conn_base_def conn_on_def conn_off_def starts_def split: option.splits)
  then show ?thesis using StopInLoop stopInLoop_ok by simp
next
  case ResetChannel
  then show ?thesis using resetChannel_ok ok f by simp
qed

lemma timer_ok:
  assumes ok: "ok w" and t: "cw_timers w = t # ts" "ResetChannel \<notin> set (cw_functors w)" and v: "vacant (cw_loop w) c fd"
  shows "returns (Connector_startInLoop dbg update c fd e (w\<lparr>cw_timers := ts\<rparr>)) ok"
proof -
  have "conn_off known w" "cn_channel w = None" "cn_state w = kDisconnected" "conn_base inv w"
    using ok t by (auto simp: Connector_ok_def conn_on_def conn_off_def starts_def split: if_splits option.splits)
  then have "idle (w\<lparr>cw_timers := ts\<rparr>)" "cw_open w = []"
    using t by (auto simp: idle_def conn_off_def conn_base_def starts_def)
  then show ?thesis using v by (auto intro!: startInLoop_ok)
qed

lemma report_ok:
  assumes "ok w" "cn_state w = kConnecting"
  shows "returns (bindR (if error then Connector_handleError dbg update remove w else Inr w) (\<lambda>w'.
       if write then Connector_handleWrite dbg update remove (stopping_user stops) err self w' else Inr w')) ok"
proof -
  have "returns (if error then Connector_handleError dbg update remove w else Inr w)
      (\<lambda>w'. ok w' \<and> (cn_state w' = kConnecting \<or> cn_state w' = kDisconnected))"
    using handleError_ok [OF assms, of dbg] assms by (auto elim!: returns_mono)
  then show ?thesis by (rule returns_bind) (auto intro: handleWrite_ok)
qed

lemma ok_registered: "ok w \<Longrightarrow> cn_channel w = Some c \<Longrightarrow> known (cw_loop w) c fd \<Longrightarrow> cn_state w = kConnecting"
  by (auto simp: Connector_ok_def conn_off_def split: if_splits)

lemma report_possible: "ok w \<Longrightarrow> cn_state w = kConnecting \<Longrightarrow> connector_possible inv known vacant (Report er wr err slf) w"
  by (auto simp: Connector_ok_def conn_on_def)

lemma event_ok:
  assumes ok: "ok w" and possible: "connector_possible inv known vacant ev w"
  shows "returns (connector_event_run dbg update remove stops ev w) ok"
proof (cases ev)
  case (Start c fd e)
  then have i: "idle w" "cw_open w = []" "vacant (cw_loop w) c fd" using idleI [OF ok] possible by simp_all
  then have "cw_inLoop w" by (simp add: idle_def conn_base_def)
  then show ?thesis using i Start by (auto simp: Connector_start_def Let_def idle_flags intro!: startInLoop_ok)
next
  case (Restart c fd e)
  then have "conn_base inv w" "conn_off known w" "cn_state w = kConnected" "cn_channel w = None" "vacant (cw_loop w) c fd"
    using ok possible by (auto simp: Connector_ok_def)
  moreover have "starts w = 0" using calculation by (auto simp: conn_off_def)
  ultimately have i: "idle (w\<lparr>cn_state := kDisconnected, cn_retryDelayMs := kInitRetryDelayMs, cn_connected := True\<rparr>)"
      "cw_open w = []" "cw_inLoop w" "vacant (cw_loop w) c fd"
    by (auto simp: idle_def conn_base_def conn_off_def kInitRetryDelayMs_def kMaxRetryDelayMs_def)
  then show ?thesis using Restart by (auto simp: Connector_restart_def in_loop_thread_def intro!: startInLoop_ok)
next
  case Stop
  then show ?thesis using ok_stop [OF ok] by simp
next
  case RemoteStart
  then have i: "idle w" "cw_open w = []" using idleI [OF ok] possible by simp_all
  then have "ok ((queue StartInLoop (w\<lparr>cw_inLoop := False, cn_connected := True\<rparr>))\<lparr>cw_inLoop := True\<rparr>)"
    by (auto simp: queue_def idle_def Connector_ok_def conn_base_def conn_off_def starts_def)
  then show ?thesis using RemoteStart by (simp add: Connector_start_def Let_def)
next
  case RemoteStop
  have "w\<lparr>cw_inLoop := True\<rparr> = w" using ok by (cases w) (simp add: Connector_ok_def conn_base_def)
  then have "(Connector_stop (w\<lparr>cw_inLoop := False\<rparr>))\<lparr>cw_inLoop := True\<rparr> = Connector_stop w"
    by (cases w) (simp add: Connector_stop_def queue_def)
  then show ?thesis using ok_stop [OF ok] RemoteStop by simp
next
  case (Report er wr err slf)
  then have "cn_state w = kConnecting" using ok_registered [OF ok] possible by auto
  then show ?thesis using report_ok [OF ok] Report by simp
next
  case (RunFunctor c fd e)
  then show ?thesis using functor_ok [OF ok] possible ok by (auto split: list.split)
next
  case (Timer c fd e)
  then show ?thesis using timer_ok [OF ok] possible by (auto split: list.split)
next
  case (Others l)
  then show ?thesis
    using ok possible
    by (auto simp: Connector_ok_def conn_base_def conn_on_def conn_off_def starts_def keeps_channel_def
        dest!: same_channel_SomeD split: option.splits)
qed

lemma reach_ok:
  assumes "connector_reach dbg update remove stops inv known vacant w0 w" "ok w0"
  shows "ok w"
  using assms
proof (induction rule: connector_reach.induct)
  case (step w ev w')
  then show ?case using event_ok [of w ev dbg stops] by (auto simp: returns_iff)
qed

text \<open>What the invariant says of the sockets and of the registry.\<close>

lemma ok_facts:
  assumes "ok w"
  shows "cn_state w = kConnecting \<Longrightarrow> \<exists>c fd. cn_channel w = Some c \<and> cw_open w = [fd] \<and> watched (cw_loop w) fd = Some (4, c)"
    and "cn_state w \<noteq> kConnecting \<Longrightarrow> cw_open w = []"
    and "t \<in> set (cn_retryDelayMs w # cw_timers w) \<Longrightarrow> kInitRetryDelayMs \<le> t \<and> t \<le> kMaxRetryDelayMs"
    and "starts w \<le> 1"
proof -
  show "\<exists>c fd. cn_channel w = Some c \<and> cw_open w = [fd] \<and> watched (cw_loop w) fd = Some (4, c)" if k: "cn_state w = kConnecting"
  proof -
    obtain c fd ch where "conn_base inv w" "cn_channel w = Some c" "known (cw_loop w) c fd"
        "fst (cw_loop w) c = Some ch" "ch_interestedEvents ch = 4" "cw_open w = [fd]"
      using assms k by (auto simp: Connector_ok_def conn_on_def)
    moreover have "inv (cw_loop w)" using \<open>conn_base inv w\<close> by (simp add: conn_base_def)
    ultimately show ?thesis using watched_channel by auto
  qed
  show "cn_state w \<noteq> kConnecting \<Longrightarrow> cw_open w = []"
    "t \<in> set (cn_retryDelayMs w # cw_timers w) \<Longrightarrow> kInitRetryDelayMs \<le> t \<and> t \<le> kMaxRetryDelayMs" "starts w \<le> 1"
    using assms by (auto simp: Connector_ok_def conn_off_def conn_base_def conn_on_def split: if_splits)
qed

text \<open>A writable socket without an error is handed over, and the registry is what it was before it.\<close>

lemma deliver_ok:
  assumes "ok w" "cn_state w = kConnecting" "cn_connected w" "cw_open w = [fd]"
  shows "returns (Connector_handleWrite dbg update remove (stopping_user stops) 0 False w) (\<lambda>w'. cn_state w' = kConnected \<and>
     cw_open w' = [] \<and> cw_delivered w' = cw_delivered w @ [fd] \<and> watched (cw_loop w') = (watched (cw_loop w))(fd := None))"
proof -
  obtain c ch where ch: "inv (cw_loop w)" "cn_channel w = Some c" "known (cw_loop w) c fd" "fst (cw_loop w) c = Some ch"
      "ch_loop ch" "ch_fd ch = fd" "ch_interestedEvents ch = 4" "\<not> ch_eventHanding ch" "cn_newConnectionCallback w \<noteq> None"
    using assms by (auto simp: Connector_ok_def conn_on_def conn_base_def)
  show ?thesis
    unfolding Connector_handleWrite_def if_P [OF assms(2)]
    by (rule returns_bind [OF remove_live [OF ch(1-8)]])
      (use ch(9) assms in \<open>auto simp: Let_def queue_def stopping_user_def Connector_stop_def\<close>)
qed

text \<open>A stop and a start that are queued while a connection is under way.\<close>

lemma stop_then_start:
  assumes "ok w" "cn_state w = kConnecting" "cw_functors w = []"
  shows "returns (connector_events_run dbg update remove stops [RemoteStop, RemoteStart, RunFunctor c0 fd0 e0] w) (\<lambda>w2.
     inv (cw_loop w2) \<and> cw_inLoop w2 \<and> cn_connected w2 \<and> cn_state w2 = kDisconnected \<and> cw_functors w2 = [StartInLoop, ResetChannel] \<and>
     (\<exists>c ch. cn_channel w2 = Some c \<and> (\<forall>fd. \<not> known (cw_loop w2) c fd) \<and> fst (cw_loop w2) c = Some ch \<and> \<not> ch_eventHanding ch))"
proof -
  obtain c fd ch where ch: "inv (cw_loop w)" "cn_channel w = Some c" "known (cw_loop w) c fd"
      "fst (cw_loop w) c = Some ch" "ch_loop ch" "ch_fd ch = fd" "ch_interestedEvents ch = 4" "\<not> ch_eventHanding ch" "cw_inLoop w"
    using assms by (auto simp: Connector_ok_def conn_on_def conn_base_def)
  define w1 where "w1 = w\<lparr>cn_connected := True, cw_inLoop := True, cw_functors := [StartInLoop], cn_state := kDisconnected\<rparr>"
  have w1: "inv (cw_loop w1)" "cn_channel w1 = Some c" "known (cw_loop w1) c fd" "fst (cw_loop w1) c = Some ch"
    using ch by (simp_all add: w1_def)
  have run: "connector_events_run dbg update remove stops [RemoteStop, RemoteStart, RunFunctor c0 fd0 e0] w =
      bindR (Connector_removeAndResetChannel dbg update remove w1) (\<lambda>(sockfd, w'). Inr (Connector_retry sockfd w'))"
    using assms(2, 3) by (simp add: Connector_stop_def Connector_start_def queue_def Let_def Connector_stopInLoop_def
        in_loop_thread_def w1_def split_def bindR_return)
  show ?thesis
    unfolding run
    by (rule returns_bind [OF remove_live [OF w1 ch(5-8)]])
      (auto simp: w1_def queue_def Connector_retry_def close_socket_def Let_def intro!: exI [of _ c] ch(2))
qed

lemma connecting_twice:
  assumes "inv (cw_loop w)" "cn_channel w = Some c0" "\<forall>fd. \<not> known (cw_loop w) c0 fd" "fst (cw_loop w) c0 = Some ch0"
    "\<not> ch_eventHanding ch0" "vacant (cw_loop w) c fd"
  shows "Connector_connecting True update c fd w = Inl AssertFail"
    and "returns (Connector_connecting False update c fd w) (\<lambda>w'. cn_channel w' = Some c \<and> cw_functors w' = cw_functors w \<and>
      inv (cw_loop w') \<and> known (cw_loop w') c fd \<and> (\<exists>ch. fst (cw_loop w') c = Some ch \<and> \<not> ch_eventHanding ch))"
proof -
  show "Connector_connecting True update c fd w = Inl AssertFail"
    using assms(2) by (simp add: Connector_connecting_def Let_def)
  let ?l = "((fst (cw_loop w))(c0 := None), snd (cw_loop w))"
  have "inv ?l" "vacant ?l c fd" using delete [OF assms(1, 3)] vacant_delete [OF assms(6)] by simp_all
  from register_new [OF this refl, of False] obtain l' ch'
    where "Channel_enableWriting False update c ((fst ?l)(c \<mapsto> Channel_setErrorCallback ConnectorError
         (Channel_setWriteCallback ConnectorWrite (Channel_new True fd))), snd ?l) = Inr l'"
      "inv l'" "known l' c fd" "fst l' c = Some ch'" "\<not> ch_eventHanding ch'"
    by metis
  then show "returns (Connector_connecting False update c fd w) (\<lambda>w'. cn_channel w' = Some c \<and> cw_functors w' = cw_functors w \<and>
      inv (cw_loop w') \<and> known (cw_loop w') c fd \<and> (\<exists>ch. fst (cw_loop w') c = Some ch \<and> \<not> ch_eventHanding ch))"
    using assms(2, 4, 5) by (simp add: Connector_connecting_def Let_def delete_channel_def Channel_destroy_def)
qed

end

interpretation poller_connector: connector_loop Poller_inv Poller_watched Poller_known Poller_fresh
    "Poller_updateChannel False True" "Poller_removeChannel False True" Poller_vacant
  by unfold_locales

section \<open>Builds with the asserts of the demultiplexer\<close>

locale connector_builds = two_builds pdbg update update' remove remove'
  for pdbg :: bool and update update' remove remove' :: "'w connector_op"
begin

lemma remove_built:
  "built pdbg (Connector_removeAndResetChannel dbg update remove w) (Connector_removeAndResetChannel dbg update' remove' w)"
  unfolding Connector_removeAndResetChannel_def by (intro built_intros channel_built channel_remove_built)

lemma startInLoop_built: "built pdbg (Connector_startInLoop dbg update c fd e w) (Connector_startInLoop dbg update' c fd e w)"
  unfolding Connector_startInLoop_def in_loop_thread_def Connector_connect_def Connector_connecting_def Let_def
  by (intro built_intros channel_built)

lemma start_built: "built pdbg (Connector_start dbg update c fd e w) (Connector_start dbg update' c fd e w)"
  unfolding Connector_start_def Let_def by (intro built_intros startInLoop_built)

lemma handleWrite_built:
  "built pdbg (Connector_handleWrite dbg update remove user err slf w) (Connector_handleWrite dbg update' remove' user err slf w)"
  unfolding Connector_handleWrite_def by (intro built_intros remove_built)

lemma handleError_built: "built pdbg (Connector_handleError dbg update remove w) (Connector_handleError dbg update' remove' w)"
  unfolding Connector_handleError_def by (intro built_intros remove_built)

lemma functor_built:
  "built pdbg (connector_functor_run dbg update remove c fd e f w) (connector_functor_run dbg update' remove' c fd e f w)"
  by (cases f) (auto simp: Connector_stopInLoop_def in_loop_thread_def intro!: startInLoop_built built_intros remove_built)

lemma event_built: "built pdbg (connector_event_run dbg update remove stops ev w) (connector_event_run dbg update' remove' stops ev w)"
proof (cases ev)
  case (Restart c fd e)
  then show ?thesis by (auto simp: Connector_restart_def in_loop_thread_def intro!: startInLoop_built)
next
  case (Report er wr err slf)
  then show ?thesis by (auto intro!: built_bind built_if handleError_built handleWrite_built)
qed (auto intro!: start_built built_bind built_list functor_built startInLoop_built)

lemma reach_built:
  "connector_reach dbg update remove stops linv known vacant w0 w \<Longrightarrow> connector_reach dbg update' remove' stops linv known vacant w0 w"
proof (induction rule: connector_reach.induct)
  case (step w ev w')
  then show ?case by (intro connector_reach.step [OF step.IH step.hyps(2)] built_InrD [OF event_built])
qed (rule connector_reach.start)

end

interpretation poller_connector_builds: connector_builds p "Poller_updateChannel p True" "Poller_updateChannel False True"
    "Poller_removeChannel p True" "Poller_removeChannel False True" for p
  by unfold_locales

text \<open>The events that take the channel of a connection under way out of the loop.\<close>

fun takes_down :: "'w connector_event \<Rightarrow> ('cb, 'w) Connector \<Rightarrow> bool" where
  "takes_down (Report error write err self) w \<longleftrightarrow> error \<or> write"
| "takes_down (RunFunctor c sockfd e) w \<longleftrightarrow> cn_state w = kConnecting \<and> (\<exists>fs. cw_functors w = StopInLoop # fs)"
| "takes_down ev w \<longleftrightarrow> False"

text \<open>The poller's asserts do not let it.\<close>

lemma Poller_removal_aborts:
  assumes ok: "Connector_ok Poller_inv Poller_known w" and st: "cn_state w = kConnecting"
  shows "Connector_removeAndResetChannel dbg (Poller_updateChannel True True) rem (w\<lparr>cw_functors := fs\<rparr>) = Inl AssertFail"
    and "Connector_removeAndResetChannel dbg (Poller_updateChannel True True) rem w = Inl AssertFail"
    and "Connector_removeAndResetChannel dbg (Poller_updateChannel True True) rem (w\<lparr>cw_functors := fs, cn_state := st'\<rparr>) = Inl AssertFail"
proof -
  obtain c fd where c: "cn_channel w = Some c" "Poller_known (cw_loop w) c fd"
    using ok st by (auto simp: Connector_ok_def conn_on_def)
  have inv: "Poller_inv (cw_loop w)" using ok by (simp add: Connector_ok_def conn_base_def)
  have "Poller_watched (cw_loop w) fd \<noteq> None"
    using ok st c poller_channels.watched_channel [OF inv c(2)] by (auto simp: Connector_ok_def conn_on_def)
  then have "Channel_disableAll dbg (Poller_updateChannel True True) c (cw_loop w) = Inl AssertFail"
    by (rule Poller_disable_aborts [OF inv c(2)])
  then show "Connector_removeAndResetChannel dbg (Poller_updateChannel True True) rem (w\<lparr>cw_functors := fs\<rparr>) = Inl AssertFail"
    "Connector_removeAndResetChannel dbg (Poller_updateChannel True True) rem w = Inl AssertFail"
    "Connector_removeAndResetChannel dbg (Poller_updateChannel True True) rem (w\<lparr>cw_functors := fs, cn_state := st'\<rparr>) = Inl AssertFail"
    using c(1) by (simp_all add: Connector_removeAndResetChannel_def)
qed

lemma Poller_takes_down_aborts:
  assumes ok: "Connector_ok Poller_inv Poller_known w" and ev: "takes_down ev w"
    and possible: "connector_possible Poller_inv Poller_known Poller_vacant ev w"
  shows "connector_event_run dbg (Poller_updateChannel True True) (Poller_removeChannel True True) stops ev w = Inl AssertFail"
proof (cases ev)
  case (Report er wr err slf)
  then have st: "cn_state w = kConnecting" using poller_connector.ok_registered [OF ok] possible by auto
  show ?thesis
    using ev st Report Poller_removal_aborts(2) [OF ok st]
    by (auto simp: Connector_handleError_def Connector_handleWrite_def)
next
  case (RunFunctor c fd e)
  then obtain fs where st: "cn_state w = kConnecting" "cw_functors w = StopInLoop # fs" using ev by auto
  moreover have "cw_inLoop w" using ok by (simp add: Connector_ok_def conn_base_def)
  ultimately show ?thesis
    using RunFunctor Poller_removal_aborts(3) [OF ok st(1)] by (simp add: Connector_stopInLoop_def in_loop_thread_def)
qed (use ev in simp_all)

section \<open>Properties\<close>

abbreviation connector_states ::
  "bool \<Rightarrow> ('cb \<Rightarrow> int \<Rightarrow> bool) \<Rightarrow> 'cb \<Rightarrow> connector_handler reactor \<Rightarrow> ('cb, Poller) Connector \<Rightarrow> bool" where
  "connector_states dbg stops cb l \<equiv>
     connector_reach dbg (Poller_updateChannel False True) (Poller_removeChannel False True) stops Poller_inv Poller_known
       Poller_vacant (Connector_setNewConnectionCallback cb (Connector_new True l))"

lemma Connector_start_ok:
  "linv l \<Longrightarrow> Connector_ok linv known (Connector_setNewConnectionCallback cb (Connector_new True l))"
  by (simp add: Connector_ok_def conn_base_def conn_off_def Connector_new_def Connector_setNewConnectionCallback_def
      starts_def kInitRetryDelayMs_def kMaxRetryDelayMs_def)

lemma Poller_new_inv: "Poller_inv (st, Poller_new)"
  by (simp add: Poller_inv_def Poller_new_def)

lemma Poller_new_vacant: "0 \<le> fd \<Longrightarrow> Poller_vacant (st, Poller_new) c fd"
  by (simp add: Poller_vacant_def Poller_new_def)

text \<open>
  C8. A connector over the poller, with a careful owner, in builds with and without the asserts of the connector and its
  channel (\<open>dbg\<close>) and of poller.cc (\<open>pdbg\<close>), whatever the owner, the loop, the timers and others do. Without the poller's asserts every
  event returns, whether the connector has its own or not: none of those fails, no null or deleted channel is used and no
  empty callback is called. With them every event returns or stops at one of them, and a report of the descriptor or a
  stop does stop there while a connection is under way, since both take its channel out of the loop. After an event
  that returns, the sockets the connector has open are exactly the one whose connection is under way, and the poller
  watches that one for writing; otherwise it has none. At most one attempt is queued or set, and every delay is between
  half a second and thirty.
\<close>

theorem Connector_safe:
  assumes "Poller_inv l"
    and "connector_reach dbg (Poller_updateChannel pdbg True) (Poller_removeChannel pdbg True) stops Poller_inv Poller_known Poller_vacant
       (Connector_setNewConnectionCallback cb (Connector_new True l)) w"
    and "connector_possible Poller_inv Poller_known Poller_vacant ev w"
  shows "outcome (asserts pdbg) (connector_event_run dbg (Poller_updateChannel pdbg True) (Poller_removeChannel pdbg True) stops ev w) (\<lambda>w'.
     (if cn_state w' = kConnecting
      then \<exists>c fd. cn_channel w' = Some c \<and> cw_open w' = [fd] \<and> Poller_watched (cw_loop w') fd = Some (4, c)
      else cw_open w' = []) \<and>
     count_list (cw_functors w') StartInLoop + length (cw_timers w') \<le> 1 \<and>
     (\<forall>t \<in> set (cn_retryDelayMs w' # cw_timers w'). 500 \<le> t \<and> t \<le> 30000)) \<and>
    (pdbg \<and> takes_down ev w \<longrightarrow>
      connector_event_run dbg (Poller_updateChannel pdbg True) (Poller_removeChannel pdbg True) stops ev w = Inl AssertFail)"
proof -
  have ok: "Connector_ok Poller_inv Poller_known w"
    by (rule poller_connector.reach_ok [OF poller_connector_builds.reach_built [OF assms(2)]
          Connector_start_ok [where linv = Poller_inv, OF assms(1)]])
  have "returns (connector_event_run dbg (Poller_updateChannel False True) (Poller_removeChannel False True) stops ev w) (\<lambda>w'.
     (if cn_state w' = kConnecting
      then \<exists>c fd. cn_channel w' = Some c \<and> cw_open w' = [fd] \<and> Poller_watched (cw_loop w') fd = Some (4, c)
      else cw_open w' = []) \<and>
     count_list (cw_functors w') StartInLoop + length (cw_timers w') \<le> 1 \<and>
     (\<forall>t \<in> set (cn_retryDelayMs w' # cw_timers w'). 500 \<le> t \<and> t \<le> 30000))"
  proof (rule returns_mono [OF poller_connector.event_ok [OF ok assms(3)]])
    fix w' assume "Connector_ok Poller_inv Poller_known w'"
    from poller_connector.ok_facts [OF this] show "(if cn_state w' = kConnecting
      then \<exists>c fd. cn_channel w' = Some c \<and> cw_open w' = [fd] \<and> Poller_watched (cw_loop w') fd = Some (4, c)
      else cw_open w' = []) \<and> count_list (cw_functors w') StartInLoop + length (cw_timers w') \<le> 1 \<and>
      (\<forall>t \<in> set (cn_retryDelayMs w' # cw_timers w'). 500 \<le> t \<and> t \<le> 30000)"
      unfolding starts_def kInitRetryDelayMs_def kMaxRetryDelayMs_def by simp
  qed
  from built_returns [OF poller_connector_builds.event_built this] show ?thesis
    using Poller_takes_down_aborts [OF ok _ assms(3), of dbg stops] by auto
qed

definition connector_start :: "(nat, Poller) Connector" where
  "connector_start = Connector_setNewConnectionCallback 1 (Connector_new True (\<lambda>_. None, Poller_new))"

lemma connector_start_simps:
  "cw_loop connector_start = (\<lambda>_. None, Poller_new)" "cn_state connector_start = kDisconnected" "cn_channel connector_start = None"
  "starts connector_start = 0" "cn_retryDelayMs connector_start = 500" "cw_timers connector_start = []" "cw_open connector_start = []"
  "cw_inLoop connector_start" "cw_functors connector_start = []" "cw_delivered connector_start = []"
  by (simp_all add: connector_start_def Connector_new_def Connector_setNewConnectionCallback_def starts_def kInitRetryDelayMs_def)

lemma no_fault: "outcome {} r P \<longleftrightarrow> returns r P"
  by (cases r) simp_all

theorem Connector_safe_witness:
  "outcome {AssertFail} (connector_event_run True (Poller_updateChannel True True) (Poller_removeChannel True True) (\<lambda>_ _. True)
     (Start 7 5 EINPROGRESS) connector_start) (\<lambda>w'. length (cw_timers w') \<le> 1 \<and> 500 \<le> cn_retryDelayMs w') \<and>
   returns (connector_event_run True (Poller_updateChannel False True) (Poller_removeChannel False True) (\<lambda>_ _. True)
     (Start 7 5 EINPROGRESS) connector_start) (\<lambda>w'. length (cw_timers w') \<le> 1 \<and> 500 \<le> cn_retryDelayMs w')"
proof -
  have reach: "connector_reach True (Poller_updateChannel p True) (Poller_removeChannel p True) (\<lambda>_ _. True) Poller_inv Poller_known
      Poller_vacant (Connector_setNewConnectionCallback 1 (Connector_new True (\<lambda>_. None, Poller_new))) connector_start" for p
    unfolding connector_start_def by (rule connector_reach.start)
  have possible: "connector_possible Poller_inv Poller_known Poller_vacant (Start 7 5 EINPROGRESS) connector_start"
    by (simp add: connector_start_simps Poller_new_vacant)
  note safe = Connector_safe [OF Poller_new_inv reach possible, THEN conjunct1]
  have "outcome {AssertFail} (connector_event_run True (Poller_updateChannel True True) (Poller_removeChannel True True) (\<lambda>_ _. True)
     (Start 7 5 EINPROGRESS) connector_start) (\<lambda>w'. length (cw_timers w') \<le> 1 \<and> 500 \<le> cn_retryDelayMs w')"
    by (rule outcome_mono [OF safe]) auto
  moreover have "outcome {} (connector_event_run True (Poller_updateChannel False True) (Poller_removeChannel False True) (\<lambda>_ _. True)
     (Start 7 5 EINPROGRESS) connector_start) (\<lambda>w'. length (cw_timers w') \<le> 1 \<and> 500 \<le> cn_retryDelayMs w')"
    by (rule outcome_mono [OF safe]) auto
  ultimately show ?thesis unfolding no_fault by blast
qed

text \<open>The timers set after each event of a list.\<close>

fun connector_trace ::
  "bool \<Rightarrow> 'w connector_op \<Rightarrow> 'w connector_op \<Rightarrow> ('cb \<Rightarrow> int \<Rightarrow> bool) \<Rightarrow> 'w connector_event list \<Rightarrow>
     ('cb, 'w) Connector \<Rightarrow> (int list list \<times> ('cb, 'w) Connector) res" where
  "connector_trace dbg upd rem stops [] w = Inr ([], w)"
| "connector_trace dbg upd rem stops (ev # evs) w =
     bindR (connector_event_run dbg upd rem stops ev w) (\<lambda>w1.
     bindR (connector_trace dbg upd rem stops evs w1) (\<lambda>(ts, w2). Inr (cw_timers w1 # ts, w2)))"

definition retry_errno :: "int \<Rightarrow> bool" where
  "retry_errno e \<longleftrightarrow> e \<in> {EAGAIN, EADDRINUSE, EADDRNOTAVAIL, ECONNREFUSED, ENETUNREACH, EHOSTUNREACH, ETIMEDOUT}"

lemma failed_attempt:
  assumes "retry_errno e" "0 \<le> fd" "cw_inLoop w" "cn_state w = kDisconnected" "cn_connected w"
  shows "Connector_startInLoop dbg upd c fd e w = Inr (w\<lparr>cw_timers := cw_timers w @ [cn_retryDelayMs w],
     cn_retryDelayMs := min (cn_retryDelayMs w * 2) 30000\<rparr>)"
proof -
  have "close_socket fd (w\<lparr>cw_open := fd # cw_open w\<rparr>)\<lparr>cn_state := kDisconnected\<rparr> = w"
    using assms(4) by (simp add: close_socket_def)
  then have "Connector_retry fd (w\<lparr>cw_open := fd # cw_open w\<rparr>) = w\<lparr>cw_timers := cw_timers w @ [cn_retryDelayMs w],
     cn_retryDelayMs := min (cn_retryDelayMs w * 2) 30000\<rparr>"
    using assms(5) by (simp only: Connector_retry_def Let_def if_True kMaxRetryDelayMs_def) simp
  then show ?thesis
    using assms by (auto simp: Connector_startInLoop_def in_loop_thread_def cassert_holds Connector_connect_def
        retry_errno_def Let_def)
qed

lemma delay_step: "min (min (500 * 2 ^ k) 30000 * 2) 30000 = min (500 * 2 ^ Suc k) (30000 :: int)"
  by simp

lemma failed_timers:
  assumes "\<forall>(c, fd, e) \<in> set as. 0 \<le> fd \<and> retry_errno e" "cw_inLoop w" "cn_state w = kDisconnected" "cn_connected w"
    "cw_timers w = [t]" "cn_retryDelayMs w = min (500 * 2 ^ k) 30000"
  shows "returns (connector_trace dbg upd rem stops (map (\<lambda>(c, fd, e). Timer c fd e) as) w) (\<lambda>(ts, w').
     ts = map (\<lambda>i. [min (500 * 2 ^ (k + i)) 30000]) [0..<length as] \<and> cw_open w' = cw_open w \<and> cw_loop w' = cw_loop w \<and>
     cn_channel w' = cn_channel w)"
  using assms
proof (induction as arbitrary: w t k)
  case (Cons a as)
  obtain c fd e where a: "a = (c, fd, e)" by (cases a)
  define w1 where "w1 = w\<lparr>cw_timers := [cn_retryDelayMs w], cn_retryDelayMs := min (cn_retryDelayMs w * 2) 30000\<rparr>"
  have "connector_event_run dbg upd rem stops (Timer c fd e) w = Inr w1"
    using failed_attempt [of e fd "w\<lparr>cw_timers := []\<rparr>"] Cons.prems a by (simp add: w1_def)
  moreover have "cn_retryDelayMs w1 = min (500 * 2 ^ Suc k) 30000"
    using Cons.prems(6) delay_step by (simp only: w1_def) simp
  then have "returns (connector_trace dbg upd rem stops (map (\<lambda>(c, fd, e). Timer c fd e) as) w1) (\<lambda>(ts, w').
     ts = map (\<lambda>i. [min (500 * 2 ^ (Suc k + i)) 30000]) [0..<length as] \<and> cw_open w' = cw_open w1 \<and> cw_loop w' = cw_loop w1 \<and>
     cn_channel w' = cn_channel w1)"
    using Cons.prems by (intro Cons.IH [where t = "cn_retryDelayMs w"]) (simp_all add: w1_def)
  moreover have "map (\<lambda>i. [min (500 * 2 ^ (k + i)) 30000]) [0..<Suc n] =
      [min (500 * 2 ^ k) 30000] # map (\<lambda>i. [min (500 * 2 ^ (Suc k + i)) (30000 :: int)]) [0..<n]" for n
    by (simp add: map_upt_Suc del: upt_Suc power_Suc)
  ultimately show ?case
    using Cons.prems(6) a unfolding returns_iff by (auto simp: w1_def simp del: upt_Suc power_Suc)
qed simp

text \<open>
  A connector that is started and whose attempts are all refused for a reason that may pass: the
  \<open>k\<close>-th attempt (counted from zero) sets one timer, of \<open>500 * 2^k\<close> milliseconds but thirty seconds at
  most; every socket is closed again and the loop is not touched.
\<close>

theorem Connector_backoff:
  assumes "\<forall>(c, fd, e) \<in> set ((c0, fd0, e0) # as). 0 \<le> fd \<and> retry_errno e"
    and "cw_inLoop w" "cn_state w = kDisconnected" "cw_timers w = []" "cn_retryDelayMs w = 500"
  shows "returns (connector_trace dbg upd rem stops (Start c0 fd0 e0 # map (\<lambda>(c, fd, e). Timer c fd e) as) w) (\<lambda>(ts, w').
     ts = map (\<lambda>k. [min (500 * 2 ^ k) 30000]) [0..<Suc (length as)] \<and> cw_open w' = cw_open w \<and> cw_loop w' = cw_loop w \<and>
     cn_channel w' = cn_channel w)"
proof -
  define w1 where "w1 = w\<lparr>cn_connected := True, cw_timers := [500], cn_retryDelayMs := 1000\<rparr>"
  have "connector_event_run dbg upd rem stops (Start c0 fd0 e0) w = Inr w1"
    using failed_attempt [of e0 fd0 "w\<lparr>cn_connected := True\<rparr>"] assms by (simp add: w1_def Connector_start_def Let_def)
  moreover have "returns (connector_trace dbg upd rem stops (map (\<lambda>(c, fd, e). Timer c fd e) as) w1) (\<lambda>(ts, w').
     ts = map (\<lambda>i. [min (500 * 2 ^ (1 + i)) 30000]) [0..<length as] \<and> cw_open w' = cw_open w1 \<and> cw_loop w' = cw_loop w1 \<and>
     cn_channel w' = cn_channel w1)"
    using assms by (intro failed_timers [where t = 500]) (simp_all add: w1_def)
  moreover have "map (\<lambda>i. [min (500 * 2 ^ i) 30000]) [0..<Suc n] =
      [500] # map (\<lambda>i. [min (500 * 2 ^ (1 + i)) (30000 :: int)]) [0..<n]" for n
    by (simp add: map_upt_Suc del: upt_Suc power_Suc)
  ultimately show ?thesis unfolding returns_iff by (auto simp: w1_def simp del: upt_Suc power_Suc)
qed

theorem Connector_backoff_witness:
  "returns (connector_trace True (Poller_updateChannel False True) (Poller_removeChannel False True) (\<lambda>_ _. True)
     (Start 1 5 ECONNREFUSED # map (\<lambda>(c, fd, e). Timer c fd e) [(1, 5, ETIMEDOUT), (1, 5, ENETUNREACH)]) connector_start)
     (\<lambda>(ts, w'). ts = [[500], [1000], [2000]])"
proof -
  have "\<forall>(c, fd, e) \<in> set ((1::nat, 5::int, ECONNREFUSED) # [(1, 5, ETIMEDOUT), (1, 5, ENETUNREACH)]). 0 \<le> fd \<and> retry_errno e"
    by (simp add: retry_errno_def)
  from Connector_backoff [OF this connector_start_simps(8, 2, 6, 5)] show ?thesis
    by (rule returns_mono) (auto simp: upt_rec numeral_eq_Suc)
qed

text \<open>
  A server that can be reached in the end is reached: in every state of a careful owner in which a
  retry is set and the connector was not stopped, when the timer fires, \<^verbatim>\<open>connect\<close> succeeds or is under
  way, and the socket becomes writable without an error and is not connected to itself, then that socket,
  and no other, is handed to the callback, none is kept open, and the poller watches what it watched before.
\<close>

theorem Connector_connects:
  fixes w :: "('cb, Poller) Connector"
  assumes "Poller_inv l" "connector_states dbg stops cb l w"
    and "connector_possible Poller_inv Poller_known Poller_vacant (Timer c fd e) w" "cn_connected w"
    and "e \<in> {0, EINPROGRESS, EINTR, EISCONN}"
  shows "returns (connector_events_run dbg (Poller_updateChannel False True) (Poller_removeChannel False True) stops
      [Timer c fd e, Report False True 0 False] w) (\<lambda>w'. cn_state w' = kConnected \<and> cw_open w' = [] \<and>
        cw_delivered w' = cw_delivered w @ [fd] \<and> Poller_watched (cw_loop w') = Poller_watched (cw_loop w))"
proof -
  let ?U = "Poller_updateChannel False True :: Poller connector_op" and ?R = "Poller_removeChannel False True :: Poller connector_op"
  have ok: "Connector_ok Poller_inv Poller_known w"
    by (rule poller_connector.reach_ok [OF assms(2) Connector_start_ok [where linv = Poller_inv, OF assms(1)]])
  obtain t ts where t: "cw_timers w = t # ts" "ResetChannel \<notin> set (cw_functors w)" "Poller_vacant (cw_loop w) c fd"
    using assms(3) by (cases "cw_timers w") auto
  define w1 where "w1 = w\<lparr>cw_timers := ts\<rparr>"
  have idle: "poller_connector.idle w1" "cw_open w = []" "cn_state w = kDisconnected" "cw_inLoop w"
    using ok t by (auto simp: poller_connector.idle_def w1_def Connector_ok_def conn_on_def conn_off_def conn_base_def starts_def
        split: if_splits option.splits)
  have off: "Poller_watched (cw_loop w) fd = None"
    using t(3) by (simp add: Poller_vacant_def Poller_watched_None)
  define w2 where "w2 = w1\<lparr>cw_open := [fd]\<rparr>"
  have "poller_connector.idle w2" "cw_open w2 = [fd]" "Poller_vacant (cw_loop w2) c fd"
    using idle(1) t(3) by (simp_all add: w2_def w1_def poller_connector.idle_def conn_base_def)
  note c = poller_connector.connecting_ok [OF this, of dbg]
  have "0 \<le> fd" using t(3) by (simp add: Poller_vacant_def)
  then have "connector_event_run dbg ?U ?R stops (Timer c fd e) w = Connector_connecting dbg ?U c fd w2"
    using assms(4, 5) idle t(1)
    by (auto simp: Connector_startInLoop_def in_loop_thread_def cassert_holds Connector_connect_def w2_def w1_def)
  moreover have "connector_events_run dbg ?U ?R stops [Report False True 0 False] =
      Connector_handleWrite dbg ?U ?R (stopping_user stops) 0 False"
    by (simp add: fun_eq_iff bindR_return)
  ultimately have "connector_events_run dbg ?U ?R stops [Timer c fd e, Report False True 0 False] w =
      bindR (Connector_connecting dbg ?U c fd w2) (Connector_handleWrite dbg ?U ?R (stopping_user stops) 0 False)"
    by (simp only: connector_events_run.simps(2) [of _ _ _ _ "Timer c fd e"])
  moreover have "returns (bindR (Connector_connecting dbg ?U c fd w2)
      (Connector_handleWrite dbg ?U ?R (stopping_user stops) 0 False)) (\<lambda>w'. cn_state w' = kConnected \<and> cw_open w' = [] \<and>
        cw_delivered w' = cw_delivered w @ [fd] \<and> Poller_watched (cw_loop w') = Poller_watched (cw_loop w))"
  proof (rule returns_bind [OF c], elim conjE)
    fix w3 :: "('cb, Poller) Connector"
    assume w3: "Connector_ok Poller_inv Poller_known w3" "cn_state w3 = kConnecting" "cn_connected w3 = cn_connected w2"
      "cw_open w3 = [fd]" "cw_delivered w3 = cw_delivered w2"
      "Poller_watched (cw_loop w3) = (Poller_watched (cw_loop w2))(fd \<mapsto> (4, c))"
    have "cn_connected w3" using w3(3) assms(4) by (simp add: w2_def w1_def)
    from poller_connector.deliver_ok [OF w3(1, 2) this w3(4), of dbg stops]
    show "returns (Connector_handleWrite dbg ?U ?R (stopping_user stops) 0 False w3) (\<lambda>w'. cn_state w' = kConnected \<and> cw_open w' = [] \<and>
        cw_delivered w' = cw_delivered w @ [fd] \<and> Poller_watched (cw_loop w') = Poller_watched (cw_loop w))"
      by (rule returns_mono) (use w3(5, 6) off in \<open>auto simp: w2_def w1_def fun_eq_iff\<close>)
  qed
  ultimately show ?thesis by simp
qed

lemma connector_refused:
  fixes stops :: "nat \<Rightarrow> int \<Rightarrow> bool"
  obtains w where "connector_states dbg stops 1 (\<lambda>_. None, Poller_new) w" "cn_connected w" "cn_state w = kDisconnected"
    "cw_timers w = [500]" "cw_functors w = []" "cw_loop w = (\<lambda>_. None, Poller_new)"
proof -
  define w where "w = connector_start\<lparr>cn_connected := True, cw_timers := [500], cn_retryDelayMs := 1000\<rparr>"
  have "connector_event_run dbg (Poller_updateChannel False True) (Poller_removeChannel False True) stops
      (Start 7 5 ECONNREFUSED) connector_start = Inr w"
    using failed_attempt [of ECONNREFUSED 5 "connector_start\<lparr>cn_connected := True\<rparr>"]
    by (simp add: w_def Connector_start_def Let_def retry_errno_def connector_start_simps)
  moreover have "connector_states dbg stops 1 (\<lambda>_. None, Poller_new) connector_start"
    unfolding connector_start_def by (rule connector_reach.start)
  moreover have "connector_possible Poller_inv Poller_known Poller_vacant (Start 7 5 ECONNREFUSED) connector_start"
    by (simp add: connector_start_simps Poller_new_vacant)
  ultimately have "connector_states dbg stops 1 (\<lambda>_. None, Poller_new) w" by (blast intro: connector_reach.step)
  then show thesis by (rule that) (simp_all add: w_def connector_start_simps)
qed

theorem Connector_connects_witness:
  "\<exists>w w'. connector_states True (\<lambda>_ _. False) (1::nat) (\<lambda>_. None, Poller_new) w \<and>
     connector_events_run True (Poller_updateChannel False True) (Poller_removeChannel False True) (\<lambda>_ _. False)
       [Timer 9 6 EINPROGRESS, Report False True 0 False] w = Inr w' \<and> cw_delivered w' = cw_delivered w @ [6]"
proof -
  obtain w where w: "connector_states True (\<lambda>_ _. False) (1::nat) (\<lambda>_. None, Poller_new) w" "cn_connected w" "cn_state w = kDisconnected"
    "cw_timers w = [500]" "cw_functors w = []" "cw_loop w = (\<lambda>_. None, Poller_new)"
    by (rule connector_refused)
  then have "connector_possible Poller_inv Poller_known Poller_vacant (Timer 9 6 EINPROGRESS) w"
    by (simp add: Poller_new_vacant)
  from Connector_connects [OF Poller_new_inv w(1) this w(2)] show ?thesis
    using w(1) by (auto simp: returns_iff simp del: connector_events_run.simps)
qed

text \<open>
  C38. The owner is not protected: when another thread stops and starts a connector whose connection is under
  way, the two functors run in one batch, before the old channel is deleted. In a build with asserts the
  second attempt aborts. In a build without, it replaces the channel, and the functor that was to delete
  the old channel deletes the new one, while the poller still has it registered.
\<close>

theorem Connector_stop_start_dangles:
  fixes w :: "('cb, Poller) Connector"
  assumes "Poller_inv l" "connector_states dbg stops cb l w" "cn_state w = kConnecting" "cw_functors w = []"
    and "e \<in> {0, EINPROGRESS, EINTR, EISCONN}"
  shows "returns (connector_events_run dbg (Poller_updateChannel False True) (Poller_removeChannel False True) stops
      [RemoteStop, RemoteStart, RunFunctor c0 fd0 e0] w) (\<lambda>w2. Poller_vacant (cw_loop w2) c fd \<longrightarrow>
        connector_event_run True (Poller_updateChannel False True) (Poller_removeChannel False True) stops (RunFunctor c fd e) w2 = Inl AssertFail \<and>
        returns (connector_events_run False (Poller_updateChannel False True) (Poller_removeChannel False True) stops
          [RunFunctor c fd e, RunFunctor c0 fd0 e0] w2) (\<lambda>w3. Poller_known (cw_loop w3) c fd \<and> fst (cw_loop w3) c = None))"
proof -
  let ?U = "Poller_updateChannel False True :: Poller connector_op" and ?R = "Poller_removeChannel False True :: Poller connector_op"
  have ok: "Connector_ok Poller_inv Poller_known w"
    by (rule poller_connector.reach_ok [OF assms(2) Connector_start_ok [where linv = Poller_inv, OF assms(1)]])
  show ?thesis
  proof (rule returns_mono [OF poller_connector.stop_then_start [OF ok assms(3, 4)]], intro impI)
    fix w2 :: "('cb, Poller) Connector"
    assume a: "Poller_inv (cw_loop w2) \<and> cw_inLoop w2 \<and> cn_connected w2 \<and> cn_state w2 = kDisconnected \<and>
        cw_functors w2 = [StartInLoop, ResetChannel] \<and>
        (\<exists>c ch. cn_channel w2 = Some c \<and> (\<forall>fd. \<not> Poller_known (cw_loop w2) c fd) \<and> fst (cw_loop w2) c = Some ch \<and>
           \<not> ch_eventHanding ch)"
      and v: "Poller_vacant (cw_loop w2) c fd"
    then obtain c1 ch where ch: "cn_channel w2 = Some c1" "\<forall>fd. \<not> Poller_known (cw_loop w2) c1 fd"
      "fst (cw_loop w2) c1 = Some ch" "\<not> ch_eventHanding ch" by blast
    define w3 where "w3 = w2\<lparr>cw_functors := [ResetChannel], cw_open := fd # cw_open w2\<rparr>"
    have w3: "Poller_inv (cw_loop w3)" "cn_channel w3 = Some c1" "\<forall>fd. \<not> Poller_known (cw_loop w3) c1 fd"
      "fst (cw_loop w3) c1 = Some ch" "Poller_vacant (cw_loop w3) c fd"
      using a v ch by (simp_all add: w3_def)
    have "0 \<le> fd" using v by (simp add: Poller_vacant_def)
    then have run: "connector_event_run dbg ?U ?R stops (RunFunctor c fd e) w2 = Connector_connecting dbg ?U c fd w3" for dbg
      using a assms(5) by (auto simp: Connector_startInLoop_def in_loop_thread_def cassert_holds Connector_connect_def w3_def)
    note twice = poller_connector.connecting_twice [OF w3(1-4) ch(4) w3(5)]
    have "returns (bindR (Connector_connecting False ?U c fd w3) (connector_events_run False ?U ?R stops [RunFunctor c0 fd0 e0]))
        (\<lambda>w3. Poller_known (cw_loop w3) c fd \<and> fst (cw_loop w3) c = None)"
      by (rule returns_bind [OF twice(2)])
        (auto simp: bindR_return Connector_resetChannel_def delete_channel_def Channel_destroy_def Poller_known_def w3_def)
    then show "connector_event_run True ?U ?R stops (RunFunctor c fd e) w2 = Inl AssertFail \<and>
        returns (connector_events_run False ?U ?R stops [RunFunctor c fd e, RunFunctor c0 fd0 e0] w2)
          (\<lambda>w3. Poller_known (cw_loop w3) c fd \<and> fst (cw_loop w3) c = None)"
      using twice(1) unfolding connector_events_run.simps(2) [of _ _ _ _ "RunFunctor c fd e"] run by simp
  qed
qed

lemma connector_under_way:
  fixes stops :: "nat \<Rightarrow> int \<Rightarrow> bool"
  obtains w where "connector_states dbg stops 1 (\<lambda>_. None, Poller_new) w" "cn_state w = kConnecting" "cw_functors w = []"
proof -
  let ?U = "Poller_updateChannel False True :: Poller connector_op"
  have idle: "poller_connector.idle (connector_start\<lparr>cn_connected := True, cw_open := [5]\<rparr>)"
    unfolding connector_start_def Connector_new_def Connector_setNewConnectionCallback_def
    by (simp add: poller_connector.idle_def conn_base_def Poller_new_inv starts_def kInitRetryDelayMs_def kMaxRetryDelayMs_def)
  have run: "connector_event_run dbg ?U (Poller_removeChannel False True) stops (Start 7 5 EINPROGRESS) connector_start =
      Connector_connecting dbg ?U 7 5 (connector_start\<lparr>cn_connected := True, cw_open := [5]\<rparr>)"
    by (simp add: Connector_start_def Let_def Connector_startInLoop_def in_loop_thread_def connector_start_simps
        cassert_holds Connector_connect_def)
  obtain w where w: "Connector_connecting dbg ?U 7 5 (connector_start\<lparr>cn_connected := True, cw_open := [5]\<rparr>) = Inr w"
    "cn_state w = kConnecting"
    using poller_connector.connecting_ok [OF idle, of 5 7 dbg] Poller_new_vacant [of 5 _ 7]
    by (auto simp: returns_iff connector_start_simps)
  have f: "cw_functors w = []"
    using w(1) by (auto simp: Connector_connecting_def Let_def delete_channel_def connector_start_simps cassert_holds)
  have reach: "connector_states dbg stops 1 (\<lambda>_. None, Poller_new) connector_start"
    unfolding connector_start_def by (rule connector_reach.start)
  have possible: "connector_possible Poller_inv Poller_known Poller_vacant (Start 7 5 EINPROGRESS) connector_start"
    by (simp add: connector_start_simps Poller_new_vacant)
  have "connector_states dbg stops 1 (\<lambda>_. None, Poller_new) w"
    by (rule connector_reach.step [OF reach possible]) (simp only: run w(1))
  then show thesis using w(2) f by (rule that)
qed

theorem Connector_stop_start_dangles_witness:
  "\<exists>w w2. connector_states False (\<lambda>_ _. False) (1::nat) (\<lambda>_. None, Poller_new) w \<and> cn_state w = kConnecting \<and>
     connector_events_run False (Poller_updateChannel False True) (Poller_removeChannel False True) (\<lambda>_ _. False)
       [RemoteStop, RemoteStart, RunFunctor 0 0 0] w = Inr w2"
proof -
  obtain w where w: "connector_states False (\<lambda>_ _. False) (1::nat) (\<lambda>_. None, Poller_new) w" "cn_state w = kConnecting" "cw_functors w = []"
    by (rule connector_under_way)
  have "0 \<in> {0, EINPROGRESS, EINTR, EISCONN}" by simp
  from Connector_stop_start_dangles [OF Poller_new_inv w this, of 0 0 0] obtain w2
    where "connector_events_run False (Poller_updateChannel False True) (Poller_removeChannel False True) (\<lambda>_ _. False)
       [RemoteStop, RemoteStart, RunFunctor 0 0 0] w = Inr w2"
    unfolding returns_iff by blast
  then show ?thesis using w(1, 2) by blast
qed

end
