(* ===== verification/TcpConnection.thy ===== *)
theory TcpConnection
  imports Builds Buffer
begin

text \<open>
  The connections of tcpconnection.h and tcpconnection.cc: the state machine, the two buffers, the
  channel in the loop, and what is sent to the kernel and queued in the loop. The loop's channel
  operations, what the system calls return, the caller's memory and what the user's callbacks do are
  parameters. Log output is left out; it does not change \<^verbatim>\<open>errno\<close>.
\<close>

section \<open>State\<close>

datatype TcpState = kConnecting | kConnected | kDisconnecting | kDisconnected

datatype tcp_handler = HandleRead | HandleWrite | HandleClose | HandleError

text \<open>The calls of user functions, and what the connection queues in the loop.\<close>

datatype 'cb tcp_call =
    ConnectionCall 'cb bool
  | MessageCall 'cb Timestamp
  | CloseCall 'cb
  | WriteCompleteCall 'cb
  | HighWaterMarkCall 'cb nat

datatype 'cb tcp_functor =
    SendFunctor nat nat
  | ShutdownFunctor
  | WriteCompleteFunctor 'cb
  | HighWaterMarkFunctor "'cb option" nat

text \<open>
  The members of the object (\<open>tc_\<close>) beside what it works on (\<open>tw_\<close>): whether the caller runs in the
  thread of the loop, the channels and the rest of the loop, the functors queued, the bytes the kernel
  took, whether the write side was shut down, the user functions called so far, and the bytes users
  have sent (for the properties; only \<open>tcp_op_run\<close> below writes it).
\<close>

record ('cb, 'w) Tcp =
  tc_state :: TcpState
  tc_channel :: nat
  tc_connectionCallback :: "'cb option"
  tc_messageCallback :: "'cb option"
  tc_closeCallback :: "'cb option"
  tc_writeCompleteCallback :: "'cb option"
  tc_highWaterMark :: nat
  tc_highWaterMarkCallback :: "'cb option"
  tc_inputBuffer :: Buffer
  tc_outputBuffer :: Buffer
  tw_inLoop :: bool
  tw_loop :: "tcp_handler store \<times> 'w"
  tw_functors :: "'cb tcp_functor list"
  tw_written :: "byte list"
  tw_shutdown :: bool
  tw_calls :: "'cb tcp_call list"
  tw_sent :: "byte list"

type_synonym ('cb, 'w) tcp_user = "'cb tcp_call \<Rightarrow> ('cb, 'w) Tcp \<Rightarrow> ('cb, 'w) Tcp res"

type_synonym 'w loop_op = "nat \<Rightarrow> tcp_handler store \<times> 'w \<Rightarrow> (tcp_handler store \<times> 'w) res"

definition assertInLoopThread :: "('cb, 'w) Tcp \<Rightarrow> 'a res \<Rightarrow> 'a res" where
  "assertInLoopThread w k = (if tw_inLoop w then k else Inl FatalAbort)"

text \<open>A member function of the channel, and a look at it.\<close>

definition on_channel :: "'w loop_op \<Rightarrow> ('cb, 'w) Tcp \<Rightarrow> ('cb, 'w) Tcp res" where
  "on_channel f w = bindR (f (tc_channel w) (tw_loop w)) (\<lambda>l. Inr (w\<lparr>tw_loop := l\<rparr>))"

definition the_channel :: "('cb, 'w) Tcp \<Rightarrow> tcp_handler Channel res" where
  "the_channel w = (case fst (tw_loop w) (tc_channel w) of None \<Rightarrow> Inl BadPointer | Some ch \<Rightarrow> Inr ch)"

definition queueInLoop :: "'cb tcp_functor \<Rightarrow> ('cb, 'w) Tcp \<Rightarrow> ('cb, 'w) Tcp" where
  "queueInLoop f w = w\<lparr>tw_functors := tw_functors w @ [f]\<rparr>"

text \<open>A \<^verbatim>\<open>std::function\<close> is called; an empty one throws.\<close>

definition call_user :: "('cb, 'w) tcp_user \<Rightarrow> 'cb option \<Rightarrow> ('cb \<Rightarrow> 'cb tcp_call) \<Rightarrow> ('cb, 'w) Tcp \<Rightarrow> ('cb, 'w) Tcp res" where
  "call_user user cb mk w =
     (case cb of None \<Rightarrow> Inl BadCall | Some f \<Rightarrow> user (mk f) (w\<lparr>tw_calls := tw_calls w @ [mk f]\<rparr>))"

text \<open>\<open>len\<close> bytes read through a pointer, from the blocks of memory the caller owns.\<close>

definition load_bytes :: "(nat \<Rightarrow> byte list option) \<Rightarrow> nat \<Rightarrow> nat \<Rightarrow> byte list res" where
  "load_bytes mem ptr len =
     (if len = 0 then Inr []
      else case mem ptr of
             None \<Rightarrow> Inl BadPointer
           | Some bytes \<Rightarrow> if length bytes < len then Inl OutOfBounds else Inr (take len bytes))"

section \<open>Construction\<close>

text \<open>\<open>bound\<close> is whether \<^verbatim>\<open>bind\<close> succeeded; \<open>c\<close> is the address of the new channel.\<close>

definition TcpConnection_new :: "bool \<Rightarrow> bool \<Rightarrow> nat \<Rightarrow> int \<Rightarrow> bool \<Rightarrow> tcp_handler store \<times> 'w \<Rightarrow> ('cb, 'w) Tcp res" where
  "TcpConnection_new dbg bound c sockfd inLoop l =
     bindR (Buffer_new dbg kInitialSize) (\<lambda>input. bindR (Buffer_new dbg kInitialSize) (\<lambda>output.
     if \<not> bound then Inl FatalAbort else
     let ch = Channel_setErrorCallback HandleError (Channel_setCloseCallback HandleClose
                (Channel_setWriteCallback HandleWrite (Channel_setReadCallback HandleRead (Channel_new True sockfd))))
     in Inr \<lparr>tc_state = kConnecting, tc_channel = c, tc_connectionCallback = None, tc_messageCallback = None,
             tc_closeCallback = None, tc_writeCompleteCallback = None, tc_highWaterMark = 64 * 1024 * 1024,
             tc_highWaterMarkCallback = None, tc_inputBuffer = input, tc_outputBuffer = output,
             tw_inLoop = inLoop, tw_loop = ((fst l)(c \<mapsto> ch), snd l), tw_functors = [], tw_written = [],
             tw_shutdown = False, tw_calls = [], tw_sent = []\<rparr>))"

text \<open>The destructor asserts, then the members go, the channel among them.\<close>

definition TcpConnection_destroy :: "bool \<Rightarrow> ('cb, 'w) Tcp \<Rightarrow> (tcp_handler store \<times> 'w) res" where
  "TcpConnection_destroy dbg w =
     cassert dbg (tc_state w = kDisconnected)
       (bindR (the_channel w) (\<lambda>ch. bindR (Channel_destroy dbg ch) (\<lambda>_.
         Inr ((fst (tw_loop w))(tc_channel w := None), snd (tw_loop w)))))"

definition TcpConnection_setConnectionCallback :: "'cb \<Rightarrow> ('cb, 'w) Tcp \<Rightarrow> ('cb, 'w) Tcp" where
  "TcpConnection_setConnectionCallback cb w = w\<lparr>tc_connectionCallback := Some cb\<rparr>"

definition TcpConnection_setMessageCallback :: "'cb \<Rightarrow> ('cb, 'w) Tcp \<Rightarrow> ('cb, 'w) Tcp" where
  "TcpConnection_setMessageCallback cb w = w\<lparr>tc_messageCallback := Some cb\<rparr>"

definition TcpConnection_setWriteCompleteCallback :: "'cb \<Rightarrow> ('cb, 'w) Tcp \<Rightarrow> ('cb, 'w) Tcp" where
  "TcpConnection_setWriteCompleteCallback cb w = w\<lparr>tc_writeCompleteCallback := Some cb\<rparr>"

definition TcpConnection_setHighWaterMarkCallback :: "'cb \<Rightarrow> nat \<Rightarrow> ('cb, 'w) Tcp \<Rightarrow> ('cb, 'w) Tcp" where
  "TcpConnection_setHighWaterMarkCallback cb highWaterMark w =
     w\<lparr>tc_highWaterMarkCallback := Some cb, tc_highWaterMark := highWaterMark\<rparr>"

definition TcpConnection_setCloseCallback :: "'cb \<Rightarrow> ('cb, 'w) Tcp \<Rightarrow> ('cb, 'w) Tcp" where
  "TcpConnection_setCloseCallback cb w = w\<lparr>tc_closeCallback := Some cb\<rparr>"

definition TcpConnection_connected :: "('cb, 'w) Tcp \<Rightarrow> bool" where
  "TcpConnection_connected w \<longleftrightarrow> tc_state w = kConnected"

definition TcpConnection_disconnected :: "('cb, 'w) Tcp \<Rightarrow> bool" where
  "TcpConnection_disconnected w \<longleftrightarrow> tc_state w = kDisconnected"

text \<open>The default callbacks: one only logs, the other drops what was received.\<close>

definition defaultMessageCallback :: "('cb, 'w) Tcp \<Rightarrow> ('cb, 'w) Tcp" where
  "defaultMessageCallback w = w\<lparr>tc_inputBuffer := Buffer_retrieveAll (tc_inputBuffer w)\<rparr>"

section \<open>Establishing and destroying\<close>

definition TcpConnection_connectEstablished ::
  "bool \<Rightarrow> 'w loop_op \<Rightarrow> ('cb, 'w) tcp_user \<Rightarrow> ('cb, 'w) Tcp \<Rightarrow> ('cb, 'w) Tcp res" where
  "TcpConnection_connectEstablished dbg upd user w =
     assertInLoopThread w (cassert dbg (tc_state w = kConnecting)
       (bindR (on_channel (Channel_enableReading dbg upd) (w\<lparr>tc_state := kConnected\<rparr>)) (\<lambda>w'.
         call_user user (tc_connectionCallback w') (\<lambda>f. ConnectionCall f (TcpConnection_connected w')) w')))"

definition TcpConnection_connectDestroyed ::
  "bool \<Rightarrow> 'w loop_op \<Rightarrow> 'w loop_op \<Rightarrow> ('cb, 'w) tcp_user \<Rightarrow> ('cb, 'w) Tcp \<Rightarrow> ('cb, 'w) Tcp res" where
  "TcpConnection_connectDestroyed dbg upd rem user w =
     assertInLoopThread w (cassert dbg (tc_state w = kConnected \<or> tc_state w = kDisconnecting)
       (bindR (on_channel (Channel_disableAll dbg upd) (w\<lparr>tc_state := kDisconnected\<rparr>)) (\<lambda>w'.
        bindR (call_user user (tc_connectionCallback w') (\<lambda>f. ConnectionCall f (TcpConnection_connected w')) w')
          (on_channel rem))))"

section \<open>Writing\<close>

definition TcpConnection_shutdownInLoop :: "('cb, 'w) Tcp \<Rightarrow> ('cb, 'w) Tcp res" where
  "TcpConnection_shutdownInLoop w =
     assertInLoopThread w (bindR (the_channel w) (\<lambda>ch.
       Inr (if \<not> Channel_isWriting ch then w\<lparr>tw_shutdown := True\<rparr> else w)))"

definition TcpConnection_shutdown :: "('cb, 'w) Tcp \<Rightarrow> ('cb, 'w) Tcp res" where
  "TcpConnection_shutdown w =
     (if tc_state w = kConnected
      then let w' = w\<lparr>tc_state := kDisconnecting\<rparr> in
           if tw_inLoop w' then TcpConnection_shutdownInLoop w' else Inr (queueInLoop ShutdownFunctor w')
      else Inr w)"

text \<open>
  The first attempt to write: how many bytes the kernel took, how many remain, whether to give up.
  \<open>wr\<close> is the outcome of \<^verbatim>\<open>write\<close>.
\<close>

definition write_directly :: "write_result \<Rightarrow> byte list \<Rightarrow> ('cb, 'w) Tcp \<Rightarrow> nat \<times> nat \<times> bool \<times> ('cb, 'w) Tcp" where
  "write_directly wr data w =
     (case wr of
        WriteOk n \<Rightarrow>
          let remaining = szsub (length data) n;
              w' = w\<lparr>tw_written := tw_written w @ take n data\<rparr>
          in (n, remaining, False,
              if remaining = 0
              then (case tc_writeCompleteCallback w' of None \<Rightarrow> w' | Some f \<Rightarrow> queueInLoop (WriteCompleteFunctor f) w')
              else w')
      | WriteErr e \<Rightarrow> (0, length data, e = EWOULDBLOCK \<and> (e = EPIPE \<or> e = ECONNRESET), w))"

text \<open>What the kernel did not take goes to the output buffer, after a look at the high water mark.\<close>

definition high_water :: "nat \<Rightarrow> ('cb, 'w) Tcp \<Rightarrow> ('cb, 'w) Tcp" where
  "high_water remaining w =
     (let oldLen = Buffer_readableBytes (tc_outputBuffer w) in
      if tc_highWaterMark w \<le> szadd oldLen remaining \<and> oldLen < tc_highWaterMark w \<and> tc_highWaterMark w \<noteq> 0
      then queueInLoop (HighWaterMarkFunctor (tc_highWaterMarkCallback w) (szadd oldLen remaining)) w
      else w)"

definition buffer_rest :: "bool \<Rightarrow> 'w loop_op \<Rightarrow> byte list \<Rightarrow> ('cb, 'w) Tcp \<Rightarrow> ('cb, 'w) Tcp res" where
  "buffer_rest dbg upd rest w =
     bindR (Buffer_append dbg (tc_outputBuffer w) rest) (\<lambda>b.
       let w' = w\<lparr>tc_outputBuffer := b\<rparr> in
       bindR (the_channel w') (\<lambda>ch.
         if \<not> Channel_isWriting ch then on_channel (Channel_enableWriting dbg upd) w' else Inr w'))"

definition TcpConnection_sendInLoop ::
  "bool \<Rightarrow> 'w loop_op \<Rightarrow> write_result \<Rightarrow> (nat \<Rightarrow> byte list option) \<Rightarrow> nat \<Rightarrow> nat \<Rightarrow> ('cb, 'w) Tcp \<Rightarrow> ('cb, 'w) Tcp res" where
  "TcpConnection_sendInLoop dbg upd wr mem ptr len w =
     assertInLoopThread w (bindR (load_bytes mem ptr len) (\<lambda>data. bindR (the_channel w) (\<lambda>ch.
       let (nwrote, remaining, faultError, w') =
         (if \<not> Channel_isWriting ch \<and> Buffer_readableBytes (tc_outputBuffer w) = 0
          then write_directly wr data w else (0, len, False, w))
       in cassert dbg (remaining \<le> len)
         (if \<not> faultError \<and> 0 < remaining
          then buffer_rest dbg upd (take remaining (drop nwrote data)) (high_water remaining w')
          else Inr w'))))"

text \<open>In another thread \<^verbatim>\<open>send\<close> queues the pointer and the length.\<close>

definition TcpConnection_send ::
  "bool \<Rightarrow> 'w loop_op \<Rightarrow> write_result \<Rightarrow> (nat \<Rightarrow> byte list option) \<Rightarrow> nat \<Rightarrow> nat \<Rightarrow> ('cb, 'w) Tcp \<Rightarrow> ('cb, 'w) Tcp res" where
  "TcpConnection_send dbg upd wr mem ptr len w =
     (if tc_state w = kConnected
      then if tw_inLoop w then TcpConnection_sendInLoop dbg upd wr mem ptr len w
           else Inr (queueInLoop (SendFunctor ptr len) w)
      else Inr w)"

section \<open>Handlers\<close>

definition TcpConnection_handleWrite ::
  "bool \<Rightarrow> 'w loop_op \<Rightarrow> write_result \<Rightarrow> ('cb, 'w) Tcp \<Rightarrow> ('cb, 'w) Tcp res" where
  "TcpConnection_handleWrite dbg upd wr w =
     assertInLoopThread w (bindR (the_channel w) (\<lambda>ch.
       if Channel_isWriting ch
       then case wr of
              WriteErr e \<Rightarrow> Inr w
            | WriteOk n \<Rightarrow>
                if 0 < n
                then bindR (Buffer_retrieve dbg (tc_outputBuffer w) n) (\<lambda>b.
                  let w1 = w\<lparr>tw_written := tw_written w @ take n (Buffer_content (tc_outputBuffer w)),
                             tc_outputBuffer := b\<rparr> in
                  if Buffer_readableBytes b = 0
                  then bindR (on_channel (Channel_disableWriting dbg upd) w1) (\<lambda>w2.
                    let w3 = (case tc_writeCompleteCallback w2 of
                                None \<Rightarrow> w2 | Some f \<Rightarrow> queueInLoop (WriteCompleteFunctor f) w2)
                    in if tc_state w3 = kDisconnecting then TcpConnection_shutdownInLoop w3 else Inr w3)
                  else Inr w1)
                else Inr w
       else Inr w))"

definition TcpConnection_handleClose ::
  "bool \<Rightarrow> 'w loop_op \<Rightarrow> ('cb, 'w) tcp_user \<Rightarrow> ('cb, 'w) Tcp \<Rightarrow> ('cb, 'w) Tcp res" where
  "TcpConnection_handleClose dbg upd user w =
     assertInLoopThread w (cassert dbg (tc_state w = kConnected \<or> tc_state w = kDisconnecting)
       (bindR (on_channel (Channel_disableAll dbg upd) (w\<lparr>tc_state := kDisconnected\<rparr>)) (\<lambda>w'.
         case tc_closeCallback w' of None \<Rightarrow> Inr w' | Some f \<Rightarrow> call_user user (Some f) CloseCall w')))"

text \<open>Only a system call that clears the socket's pending error, and a log entry.\<close>

definition TcpConnection_handleError :: "('cb, 'w) Tcp \<Rightarrow> ('cb, 'w) Tcp" where
  "TcpConnection_handleError w = w"

definition TcpConnection_handleRead ::
  "bool \<Rightarrow> 'w loop_op \<Rightarrow> ('cb, 'w) tcp_user \<Rightarrow> (nat \<Rightarrow> read_result) \<Rightarrow> Timestamp \<Rightarrow> ('cb, 'w) Tcp \<Rightarrow> ('cb, 'w) Tcp res" where
  "TcpConnection_handleRead dbg upd user readv receiveTime w =
     bindR (Buffer_readFd dbg readv (tc_inputBuffer w)) (\<lambda>(n, savedErrno, b).
       let w' = w\<lparr>tc_inputBuffer := b\<rparr> in
       if 0 < n then call_user user (tc_messageCallback w') (\<lambda>f. MessageCall f receiveTime) w'
       else if n = 0 then TcpConnection_handleClose dbg upd user w'
       else Inr (TcpConnection_handleError w'))"

text \<open>A functor taken from the queue runs in the thread of the loop.\<close>

fun run_functor ::
  "bool \<Rightarrow> 'w loop_op \<Rightarrow> ('cb, 'w) tcp_user \<Rightarrow> write_result \<Rightarrow> (nat \<Rightarrow> byte list option) \<Rightarrow> 'cb tcp_functor \<Rightarrow>
     ('cb, 'w) Tcp \<Rightarrow> ('cb, 'w) Tcp res" where
  "run_functor dbg upd user wr mem (SendFunctor ptr len) w = TcpConnection_sendInLoop dbg upd wr mem ptr len w"
| "run_functor dbg upd user wr mem ShutdownFunctor w = TcpConnection_shutdownInLoop w"
| "run_functor dbg upd user wr mem (WriteCompleteFunctor f) w = call_user user (Some f) WriteCompleteCall w"
| "run_functor dbg upd user wr mem (HighWaterMarkFunctor cb n) w =
     call_user user cb (\<lambda>f. HighWaterMarkCall f n) w"

section \<open>User code and events\<close>

text \<open>
  What user code does with a connection in the thread of the loop: send, shut down, take received
  bytes, set callbacks. \<open>body\<close> says what a callback does, which may depend on anything it can see.
\<close>

datatype 'cb tcp_op =
    Send write_result nat nat
  | Shutdown
  | Consume nat
  | SetConnection 'cb
  | SetMessage 'cb
  | SetClose 'cb
  | SetWriteComplete 'cb
  | SetHighWaterMark 'cb nat

fun tcp_op_run ::
  "bool \<Rightarrow> 'w loop_op \<Rightarrow> (nat \<Rightarrow> byte list option) \<Rightarrow> 'cb tcp_op \<Rightarrow> ('cb, 'w) Tcp \<Rightarrow> ('cb, 'w) Tcp res" where
  "tcp_op_run dbg upd mem (Send wr ptr len) w =
     bindR (TcpConnection_send dbg upd wr mem ptr len w) (\<lambda>w'.
       Inr (w'\<lparr>tw_sent := tw_sent w @
          (if tc_state w = kConnected \<and> 0 < len then take len (the (mem ptr)) else [])\<rparr>))"
| "tcp_op_run dbg upd mem Shutdown w = TcpConnection_shutdown w"
| "tcp_op_run dbg upd mem (Consume n) w =
     bindR (Buffer_retrieve dbg (tc_inputBuffer w) (min n (Buffer_readableBytes (tc_inputBuffer w)))) (\<lambda>b.
       Inr (w\<lparr>tc_inputBuffer := b\<rparr>))"
| "tcp_op_run dbg upd mem (SetConnection cb) w = Inr (TcpConnection_setConnectionCallback cb w)"
| "tcp_op_run dbg upd mem (SetMessage cb) w = Inr (TcpConnection_setMessageCallback cb w)"
| "tcp_op_run dbg upd mem (SetClose cb) w = Inr (TcpConnection_setCloseCallback cb w)"
| "tcp_op_run dbg upd mem (SetWriteComplete cb) w = Inr (TcpConnection_setWriteCompleteCallback cb w)"
| "tcp_op_run dbg upd mem (SetHighWaterMark cb n) w = Inr (TcpConnection_setHighWaterMarkCallback cb n w)"

fun tcp_ops_run ::
  "bool \<Rightarrow> 'w loop_op \<Rightarrow> (nat \<Rightarrow> byte list option) \<Rightarrow> 'cb tcp_op list \<Rightarrow> ('cb, 'w) Tcp \<Rightarrow> ('cb, 'w) Tcp res" where
  "tcp_ops_run dbg upd mem [] w = Inr w"
| "tcp_ops_run dbg upd mem (x # xs) w = bindR (tcp_op_run dbg upd mem x w) (tcp_ops_run dbg upd mem xs)"

definition user_script ::
  "bool \<Rightarrow> 'w loop_op \<Rightarrow> (nat \<Rightarrow> byte list option) \<Rightarrow> ('cb tcp_call \<Rightarrow> ('cb, 'w) Tcp \<Rightarrow> 'cb tcp_op list) \<Rightarrow>
     ('cb, 'w) tcp_user" where
  "user_script dbg upd mem body call w = tcp_ops_run dbg upd mem (body call w) w"

text \<open>
  What happens to a connection: it is established and destroyed by its owner, the loop reports
  events of its descriptor and runs its functors, users work on it, another thread shuts it down.
\<close>

datatype 'cb tcp_event =
    Establish
  | Destroy
  | ReadEvent "nat \<Rightarrow> read_result" Timestamp
  | WriteEvent write_result
  | CloseEvent
  | ErrorEvent
  | UserOp "'cb tcp_op"
  | RemoteShutdown
  | RunFunctor write_result

fun tcp_event_run ::
  "bool \<Rightarrow> 'w loop_op \<Rightarrow> 'w loop_op \<Rightarrow> (nat \<Rightarrow> byte list option) \<Rightarrow>
     ('cb tcp_call \<Rightarrow> ('cb, 'w) Tcp \<Rightarrow> 'cb tcp_op list) \<Rightarrow> 'cb tcp_event \<Rightarrow> ('cb, 'w) Tcp \<Rightarrow> ('cb, 'w) Tcp res" where
  "tcp_event_run dbg upd rem mem body Establish w =
     TcpConnection_connectEstablished dbg upd (user_script dbg upd mem body) w"
| "tcp_event_run dbg upd rem mem body Destroy w =
     TcpConnection_connectDestroyed dbg upd rem (user_script dbg upd mem body) w"
| "tcp_event_run dbg upd rem mem body (ReadEvent readv t) w =
     TcpConnection_handleRead dbg upd (user_script dbg upd mem body) readv t w"
| "tcp_event_run dbg upd rem mem body (WriteEvent wr) w = TcpConnection_handleWrite dbg upd wr w"
| "tcp_event_run dbg upd rem mem body CloseEvent w =
     TcpConnection_handleClose dbg upd (user_script dbg upd mem body) w"
| "tcp_event_run dbg upd rem mem body ErrorEvent w = Inr (TcpConnection_handleError w)"
| "tcp_event_run dbg upd rem mem body (UserOp x) w = tcp_op_run dbg upd mem x w"
| "tcp_event_run dbg upd rem mem body RemoteShutdown w =
     bindR (TcpConnection_shutdown (w\<lparr>tw_inLoop := False\<rparr>)) (\<lambda>w'. Inr (w'\<lparr>tw_inLoop := True\<rparr>))"
| "tcp_event_run dbg upd rem mem body (RunFunctor wr) w =
     (case tw_functors w of
        [] \<Rightarrow> Inr w
      | f # fs \<Rightarrow> run_functor dbg upd (user_script dbg upd mem body) wr mem f (w\<lparr>tw_functors := fs\<rparr>))"

text \<open>
  When an event can happen: the owner establishes a new connection once and destroys one that is up;
  the loop reports events only for a descriptor that is watched, that is of a connection that is up;
  system calls return what they are documented to.
\<close>

definition tcp_up :: "TcpState \<Rightarrow> bool" where
  "tcp_up s \<longleftrightarrow> s = kConnected \<or> s = kDisconnecting"

fun op_possible :: "(nat \<Rightarrow> byte list option) \<Rightarrow> 'cb tcp_op \<Rightarrow> bool" where
  "op_possible mem (Send wr ptr len) \<longleftrightarrow>
     write_contract len wr \<and> (len = 0 \<or> (\<exists>bs. mem ptr = Some bs \<and> len \<le> length bs \<and> length bs \<le> vec_max))"
| "op_possible mem x \<longleftrightarrow> True"

fun event_possible :: "(nat \<Rightarrow> byte list option) \<Rightarrow> 'cb tcp_event \<Rightarrow> ('cb, 'w) Tcp \<Rightarrow> bool" where
  "event_possible mem Establish w \<longleftrightarrow> tc_state w = kConnecting"
| "event_possible mem (ReadEvent readv t) w \<longleftrightarrow> tcp_up (tc_state w) \<and> (\<forall>room. read_contract room (readv room))"
| "event_possible mem (WriteEvent wr) w \<longleftrightarrow>
     tcp_up (tc_state w) \<and> write_contract (length (Buffer_content (tc_outputBuffer w))) wr"
| "event_possible mem (UserOp x) w \<longleftrightarrow> op_possible mem x"
| "event_possible mem RemoteShutdown w \<longleftrightarrow> True"
| "event_possible mem (RunFunctor wr) w \<longleftrightarrow> True"
| "event_possible mem ev w \<longleftrightarrow> tcp_up (tc_state w)"

definition body_possible :: "(nat \<Rightarrow> byte list option) \<Rightarrow> ('cb tcp_call \<Rightarrow> ('cb, 'w) Tcp \<Rightarrow> 'cb tcp_op list) \<Rightarrow> bool" where
  "body_possible mem body \<longleftrightarrow> (\<forall>call w. list_all (op_possible mem) (body call w))"

text \<open>The states a connection that starts in \<open>w0\<close> can reach.\<close>

inductive tcp_reach ::
  "bool \<Rightarrow> 'w loop_op \<Rightarrow> 'w loop_op \<Rightarrow> (nat \<Rightarrow> byte list option) \<Rightarrow>
     ('cb tcp_call \<Rightarrow> ('cb, 'w) Tcp \<Rightarrow> 'cb tcp_op list) \<Rightarrow> ('cb, 'w) Tcp \<Rightarrow> ('cb, 'w) Tcp \<Rightarrow> bool"
  for dbg upd rem mem body w0 where
  start: "tcp_reach dbg upd rem mem body w0 w0"
| step: "tcp_reach dbg upd rem mem body w0 w \<Longrightarrow> event_possible mem ev w \<Longrightarrow>
    tcp_event_run dbg upd rem mem body ev w = Inr w' \<Longrightarrow> tcp_reach dbg upd rem mem body w0 w'"

text \<open>
  The life of a connection as its owner and the loop see it, with nothing supposed of the state that the code asserts:
  it is made, users may work on it, it is established; from then on the loop reports events of its descriptor until
  the owner destroys it, which it does once; users and functors may come at any time.
\<close>

definition tcp_open ::
  "bool \<Rightarrow> 'w loop_op \<Rightarrow> bool \<Rightarrow> nat \<Rightarrow> int \<Rightarrow> 'cb tcp_op list \<Rightarrow> (nat \<Rightarrow> byte list option) \<Rightarrow>
     ('cb tcp_call \<Rightarrow> ('cb, 'w) Tcp \<Rightarrow> 'cb tcp_op list) \<Rightarrow> tcp_handler store \<times> 'w \<Rightarrow> ('cb, 'w) Tcp res" where
  "tcp_open dbg upd bound c fd prep mem body l =
     bindR (TcpConnection_new dbg bound c fd True l) (\<lambda>w.
     bindR (tcp_ops_run dbg upd mem prep w) (TcpConnection_connectEstablished dbg upd (user_script dbg upd mem body)))"

fun life_possible :: "(nat \<Rightarrow> byte list option) \<Rightarrow> bool \<Rightarrow> 'cb tcp_event \<Rightarrow> ('cb, 'w) Tcp \<Rightarrow> bool" where
  "life_possible mem destroyed Establish w \<longleftrightarrow> False"
| "life_possible mem destroyed Destroy w \<longleftrightarrow> \<not> destroyed"
| "life_possible mem destroyed (ReadEvent readv t) w \<longleftrightarrow> \<not> destroyed \<and> (\<forall>room. read_contract room (readv room))"
| "life_possible mem destroyed (WriteEvent wr) w \<longleftrightarrow>
     \<not> destroyed \<and> write_contract (length (Buffer_content (tc_outputBuffer w))) wr"
| "life_possible mem destroyed CloseEvent w \<longleftrightarrow> \<not> destroyed"
| "life_possible mem destroyed ErrorEvent w \<longleftrightarrow> \<not> destroyed"
| "life_possible mem destroyed (UserOp x) w \<longleftrightarrow> op_possible mem x"
| "life_possible mem destroyed RemoteShutdown w \<longleftrightarrow> True"
| "life_possible mem destroyed (RunFunctor wr) w \<longleftrightarrow> True"

inductive tcp_life ::
  "bool \<Rightarrow> 'w loop_op \<Rightarrow> 'w loop_op \<Rightarrow> (nat \<Rightarrow> byte list option) \<Rightarrow>
     ('cb tcp_call \<Rightarrow> ('cb, 'w) Tcp \<Rightarrow> 'cb tcp_op list) \<Rightarrow> ('cb, 'w) Tcp \<Rightarrow> ('cb, 'w) Tcp \<Rightarrow> bool \<Rightarrow> bool"
  for dbg upd rem mem body w0 where
  start: "tcp_life dbg upd rem mem body w0 w0 False"
| step: "tcp_life dbg upd rem mem body w0 w destroyed \<Longrightarrow> life_possible mem destroyed ev w \<Longrightarrow>
    tcp_event_run dbg upd rem mem body ev w = Inr w' \<Longrightarrow> tcp_life dbg upd rem mem body w0 w' (destroyed \<or> ev = Destroy)"

text \<open>The events that assert that the connection is up.\<close>

fun asserts_up :: "'cb tcp_event \<Rightarrow> bool" where
  "asserts_up Destroy = True"
| "asserts_up CloseEvent = True"
| "asserts_up (ReadEvent readv t) = True"
| "asserts_up ev = False"

text \<open>What calling a function faults with when it was never set.\<close>

definition unset :: "'cb option \<Rightarrow> fault set" where
  "unset cb = (if cb = None then {BadCall} else {})"

lemma unset_simps [simp]: "unset None = {BadCall}" "unset (Some f) = {}"
  by (simp_all add: unset_def)

lemma unset_sub: "unset cb \<subseteq> {BadCall}"
  by (simp add: unset_def)

text \<open>The assert that the connection is up, in a build with the asserts of tcpconnection.cc.\<close>

definition down :: "bool \<Rightarrow> ('cb, 'w) Tcp \<Rightarrow> fault set" where
  "down dbg w = (if tcp_up (tc_state w) then {} else asserts dbg)"

lemma down_up [simp]: "tcp_up (tc_state w) \<Longrightarrow> down dbg w = {}" "down False w = {}"
  by (simp_all add: down_def)

text \<open>Write events of which the \<open>i\<close>-th takes up to \<open>ns ! i\<close> bytes.\<close>

fun tcp_drain :: "bool \<Rightarrow> 'w loop_op \<Rightarrow> nat list \<Rightarrow> ('cb, 'w) Tcp \<Rightarrow> ('cb, 'w) Tcp res" where
  "tcp_drain dbg upd [] w = Inr w"
| "tcp_drain dbg upd (n # ns) w =
     bindR (TcpConnection_handleWrite dbg upd (WriteOk (min n (length (Buffer_content (tc_outputBuffer w))))) w)
       (tcp_drain dbg upd ns)"

section \<open>Invariant\<close>

text \<open>
  The interest of the channel follows the state and the output buffer: reading while the connection is
  up, writing exactly while there is something to write. \<open>sent\<close> are the bytes given to the connection so
  far: those the kernel took, then those in the buffer.
\<close>

definition tcp_interest :: "TcpState \<Rightarrow> byte list \<Rightarrow> int" where
  "tcp_interest s out = (if tcp_up s then (if out = [] then 3 else 7) else 0)"

definition Tcp_ok ::
  "(tcp_handler store \<times> 'w \<Rightarrow> bool) \<Rightarrow> (tcp_handler store \<times> 'w \<Rightarrow> nat \<Rightarrow> int \<Rightarrow> bool) \<Rightarrow>
     (tcp_handler store \<times> 'w \<Rightarrow> nat \<Rightarrow> int \<Rightarrow> bool) \<Rightarrow> int \<Rightarrow> byte list \<Rightarrow> ('cb, 'w) Tcp \<Rightarrow> bool" where
  "Tcp_ok linv known fresh fd sent w \<longleftrightarrow>
     linv (tw_loop w) \<and> tw_inLoop w \<and> Buffer_inv (tc_inputBuffer w) \<and> Buffer_inv (tc_outputBuffer w) \<and>
     (\<exists>ch. fst (tw_loop w) (tc_channel w) = Some ch \<and> ch_loop ch \<and>
        ch_interestedEvents ch = tcp_interest (tc_state w) (Buffer_content (tc_outputBuffer w))) \<and>
     (tcp_up (tc_state w) \<longrightarrow> known (tw_loop w) (tc_channel w) fd) \<and>
     (tc_state w = kConnecting \<longrightarrow> fresh (tw_loop w) (tc_channel w) fd \<and> Buffer_content (tc_outputBuffer w) = []) \<and>
     (tw_shutdown w \<longrightarrow> tc_state w = kDisconnecting \<and> Buffer_content (tc_outputBuffer w) = [] \<or> tc_state w = kDisconnected) \<and>
     (ShutdownFunctor \<in> set (tw_functors w) \<longrightarrow> tc_state w = kDisconnecting \<or> tc_state w = kDisconnected) \<and>
     (\<forall>ptr len. SendFunctor ptr len \<notin> set (tw_functors w)) \<and>
     tw_written w @ Buffer_content (tc_outputBuffer w) = sent"

text \<open>What user code may change.\<close>

definition tcp_next :: "('cb, 'w) Tcp \<Rightarrow> ('cb, 'w) Tcp \<Rightarrow> bool" where
  "tcp_next w w' \<longleftrightarrow>
     (tc_state w' = tc_state w \<or> tc_state w = kConnected \<and> tc_state w' = kDisconnecting) \<and>
     tc_channel w' = tc_channel w \<and> (\<not> tcp_up (tc_state w) \<longrightarrow> tw_loop w' = tw_loop w)"

lemma tcp_next_refl [simp]: "tcp_next w w"
  by (simp add: tcp_next_def)

lemma tcp_next_trans: "tcp_next w w' \<Longrightarrow> tcp_next w' w'' \<Longrightarrow> tcp_next w w''"
  by (auto simp: tcp_next_def tcp_up_def)

lemma tcp_up_simps [simp]:
  "tcp_up kConnected" "tcp_up kDisconnecting" "\<not> tcp_up kConnecting" "\<not> tcp_up kDisconnected"
  by (simp_all add: tcp_up_def)

lemma Buffer_readable_zero: "Buffer_inv b \<Longrightarrow> Buffer_readableBytes b = 0 \<longleftrightarrow> Buffer_content b = []"
  unfolding length_Buffer_content [symmetric] by simp

text \<open>The loop of a connection.\<close>

locale tcp_loop = channel_registry inv watched known fresh update remove
  for inv :: "tcp_handler store \<times> 'w \<Rightarrow> bool" and watched :: "tcp_handler store \<times> 'w \<Rightarrow> int \<Rightarrow> (int \<times> nat) option"
    and known :: "tcp_handler store \<times> 'w \<Rightarrow> nat \<Rightarrow> int \<Rightarrow> bool" and fresh :: "tcp_handler store \<times> 'w \<Rightarrow> nat \<Rightarrow> int \<Rightarrow> bool"
    and update :: "'w loop_op" and remove :: "'w loop_op"
begin

abbreviation "ok \<equiv> Tcp_ok inv known fresh"

lemma ok_channel:
  assumes "ok fd sent w"
  obtains ch where "the_channel w = Inr ch" "fst (tw_loop w) (tc_channel w) = Some ch" "ch_loop ch"
    "ch_interestedEvents ch = tcp_interest (tc_state w) (Buffer_content (tc_outputBuffer w))"
  using assms by (auto simp: Tcp_ok_def the_channel_def)

lemma buffer_rest_returns:
  assumes ok: "ok fd sent w" and st: "tc_state w = kConnected" and rest: "rest \<noteq> []"
    and b: "Buffer_append dbg (tc_outputBuffer w) rest = Inr b"
    and base: "Buffer_inv b" "Buffer_content b = Buffer_content (tc_outputBuffer w) @ rest"
  shows "returns (buffer_rest dbg update rest w) (\<lambda>w'. ok fd (sent @ rest) w' \<and> tcp_next w w')"
  unfolding buffer_rest_def b bindR_simps
proof -
  let ?w = "w\<lparr>tc_outputBuffer := b\<rparr>"
  obtain ch where ch: "the_channel ?w = Inr ch" "fst (tw_loop w) (tc_channel w) = Some ch" "ch_loop ch"
    "ch_interestedEvents ch = (if Buffer_content (tc_outputBuffer w) = [] then 3 else 7)"
    using ok_channel [OF ok] st by (auto simp: the_channel_def tcp_interest_def)
  show "returns (let w' = ?w in bindR (the_channel w') (\<lambda>ch.
      if \<not> Channel_isWriting ch then on_channel (Channel_enableWriting dbg update) w' else Inr w'))
      (\<lambda>w'. ok fd (sent @ rest) w' \<and> tcp_next w w')"
  proof (cases "Buffer_content (tc_outputBuffer w) = []")
    case False
    then have "Channel_isWriting ch" using ch(4) by (simp add: Channel_isWriting_bits)
    then show ?thesis
      using ok st base ch False by (auto simp: Let_def Tcp_ok_def tcp_interest_def tcp_next_def)
  next
    case True
    then have e: "ch_interestedEvents ch = 3" "\<not> Channel_isWriting ch" using ch(4) by (simp_all add: Channel_isWriting_bits)
    have "returns (Channel_enableWriting dbg update (tc_channel w) (tw_loop w)) (\<lambda>s'. inv s' \<and> known s' (tc_channel w) fd \<and>
        (\<exists>ch'. fst s' (tc_channel w) = Some ch' \<and> ch_loop ch' \<and> ch_interestedEvents ch' = 7) \<and>
        watched s' = (watched (tw_loop w))(fd := if (7 :: int) = 0 then None else Some (7, tc_channel w)))"
      unfolding Channel_enableWriting_def
      using ok st ch e by (intro setInterest_ok [of _ _ ch]) (auto simp: Tcp_ok_def)
    then obtain l where l: "Channel_enableWriting dbg update (tc_channel w) (tw_loop w) = Inr l" "inv l"
      "known l (tc_channel w) fd" "\<exists>ch'. fst l (tc_channel w) = Some ch' \<and> ch_loop ch' \<and> ch_interestedEvents ch' = 7"
      unfolding returns_iff by blast
    have "Buffer_content b = rest" "tw_written w = sent" using base(2) True ok by (simp_all add: Tcp_ok_def)
    then have "ok fd (sent @ rest) (?w\<lparr>tw_loop := l\<rparr>)"
      using ok st base(1) rest l(2-4) unfolding Tcp_ok_def tcp_interest_def by simp
    then show ?thesis
      using ch(1) e(2) l(1) st by (simp add: Let_def on_channel_def tcp_next_def)
  qed
qed

lemma buffer_rest_ok:
  assumes ok: "ok fd sent w" and st: "tc_state w = kConnected" and rest: "rest \<noteq> []" "length rest \<le> vec_max"
  shows "outcome {LengthError} (buffer_rest dbg update rest w) (\<lambda>w'. ok fd (sent @ rest) w' \<and> tcp_next w w')"
proof (cases "Buffer_append dbg (tc_outputBuffer w) rest")
  case (Inl f)
  then show ?thesis
    using Buffer_append_outcome [of "tc_outputBuffer w" rest dbg] ok rest(2) by (simp add: buffer_rest_def Tcp_ok_def)
next
  case (Inr b)
  then show ?thesis
    using Buffer_append_outcome [of "tc_outputBuffer w" rest dbg] ok rest
    by (intro returns_outcome buffer_rest_returns [OF ok st rest(1) Inr]) (simp_all add: Tcp_ok_def)
qed

lemma sendInLoop_ok:
  assumes ok: "ok fd sent w" and st: "tc_state w = kConnected" and possible: "op_possible mem (Send wr ptr len)"
  shows "outcome {LengthError} (TcpConnection_sendInLoop dbg update wr mem ptr len w)
    (\<lambda>w'. ok fd (sent @ (if 0 < len then take len (the (mem ptr)) else [])) w' \<and> tcp_next w w' \<and> tw_sent w' = tw_sent w)"
proof -
  define data where "data = (if 0 < len then take len (the (mem ptr)) else [])"
  have load: "load_bytes mem ptr len = Inr data" and len: "length data = len" "len \<le> vec_max"
    using possible by (auto simp: load_bytes_def data_def)
  obtain ch where ch: "the_channel w = Inr ch"
    "ch_interestedEvents ch = (if Buffer_content (tc_outputBuffer w) = [] then 3 else 7)"
    using ok_channel [OF ok] st by (auto simp: tcp_interest_def)
  have loop: "tw_inLoop w" and inv: "Buffer_inv (tc_outputBuffer w)" using ok by (simp_all add: Tcp_ok_def)
  have hw: "ok fd s (high_water r v)" "tcp_next w (high_water r v)" "tw_sent (high_water r v) = tw_sent v"
      "tc_state (high_water r v) = tc_state v"
    if "ok fd s v" "tcp_next w v" for s r v
    using that by (auto simp: high_water_def queueInLoop_def Let_def Tcp_ok_def tcp_next_def)
  have rest: "outcome {LengthError} (buffer_rest dbg update r (high_water n v))
      (\<lambda>w'. ok fd (s @ r) w' \<and> tcp_next w w' \<and> tw_sent w' = tw_sent w)"
    if v: "ok fd s v" "tcp_next w v" "tw_sent v = tw_sent w" "tc_state v = kConnected" "r \<noteq> []" "length r \<le> vec_max"
    for s r n v
  proof -
    have sent: "tw_sent w' = tw_sent w" if "buffer_rest dbg update r (high_water n v) = Inr w'" for w'
      using that v(3) hw(3) [OF v(1, 2)]
      by (auto simp: buffer_rest_def Let_def on_channel_def split: if_splits)
    show ?thesis
      using buffer_rest_ok [OF hw(1) [OF v(1, 2)] _ v(5, 6), of n dbg] hw(4) [OF v(1, 2)] v(4) sent
        tcp_next_trans [OF hw(2) [OF v(1, 2)]]
      by (cases "buffer_rest dbg update r (high_water n v)") auto
  qed
  show ?thesis
  proof (cases "Buffer_content (tc_outputBuffer w) = []")
    case False
    then have "Channel_isWriting ch" using ch(2) by (simp add: Channel_isWriting_bits)
    then show ?thesis
      using load ch loop len rest [OF ok _ _ st, of data] ok
      unfolding data_def [symmetric]
      by (auto simp: TcpConnection_sendInLoop_def assertInLoopThread_def Let_def cassert_holds)
  next
    case True
    then have "\<not> Channel_isWriting ch" "Buffer_readableBytes (tc_outputBuffer w) = 0"
      using ch(2) inv by (simp_all add: Channel_isWriting_bits Buffer_readable_zero)
    then have direct: "TcpConnection_sendInLoop dbg update wr mem ptr len w =
        (case write_directly wr data w of (nwrote, remaining, faultError, w') \<Rightarrow>
          cassert dbg (remaining \<le> len)
            (if \<not> faultError \<and> 0 < remaining
             then buffer_rest dbg update (take remaining (drop nwrote data)) (high_water remaining w') else Inr w'))"
      by (simp add: TcpConnection_sendInLoop_def assertInLoopThread_def loop load ch(1) Let_def)
    show ?thesis
    proof (cases wr)
      case (WriteErr e)
      then show ?thesis
        using len rest [OF ok _ _ st, of data] ok
        unfolding data_def [symmetric] direct
        by (auto simp: write_directly_def Let_def cassert_holds)
    next
      case (WriteOk n)
      let ?w = "w\<lparr>tw_written := tw_written w @ take n data\<rparr>"
      have n: "n \<le> len" using possible WriteOk by simp
      then have rem: "szsub (length data) n = len - n" using len by (simp add: szsub_exact vec_max_def)
      have okw: "ok fd (sent @ take n data) ?w" "tcp_next w ?w" "tw_sent ?w = tw_sent w" "tc_state ?w = kConnected"
        using ok st True by (auto simp: Tcp_ok_def tcp_next_def)
      have okq: "ok fd s (queueInLoop (WriteCompleteFunctor f) v)" "tcp_next w (queueInLoop (WriteCompleteFunctor f) v)"
          "tw_sent (queueInLoop (WriteCompleteFunctor f) v) = tw_sent v"
        if "ok fd s v" "tcp_next w v" for s f v
        using that by (auto simp: queueInLoop_def Tcp_ok_def tcp_next_def)
      show ?thesis
      proof (cases "n = len")
        case True
        then have "take n data = data" using len by simp
        then show ?thesis
          using rem True okw okq [OF okw(1, 2)] len WriteOk
          unfolding data_def [symmetric] direct
          by (auto simp: write_directly_def Let_def cassert_holds split: option.split)
      next
        case False
        then have "0 < len - n" "drop n data \<noteq> []" "take (len - n) (drop n data) = drop n data" "length (drop n data) \<le> vec_max"
          using n len by auto
        then show ?thesis
          using rem okw rest [OF okw, of "drop n data"] len WriteOk
          unfolding data_def [symmetric] direct
          by (auto simp: write_directly_def Let_def cassert_holds)
      qed
    qed
  qed
qed

text \<open>What the loop and users queue and log leaves the invariant alone.\<close>

lemma ok_log [simp]:
  "ok fd sent (w\<lparr>tw_calls := cs\<rparr>) = ok fd sent w" "ok fd sent (w\<lparr>tw_sent := bs\<rparr>) = ok fd sent w"
  "ok fd sent (w\<lparr>tc_connectionCallback := cb\<rparr>) = ok fd sent w"
  "ok fd sent (w\<lparr>tc_writeCompleteCallback := cb\<rparr>) = ok fd sent w"
  "ok fd sent (w\<lparr>tc_highWaterMarkCallback := cb, tc_highWaterMark := n\<rparr>) = ok fd sent w"
  by (simp_all add: Tcp_ok_def)

lemma ok_queue: "ok fd sent w \<Longrightarrow> f \<noteq> ShutdownFunctor \<Longrightarrow> \<forall>p n. f \<noteq> SendFunctor p n \<Longrightarrow> ok fd sent (queueInLoop f w)"
  by (auto simp: Tcp_ok_def queueInLoop_def)

lemma ok_dequeue: "ok fd sent w \<Longrightarrow> tw_functors w = f # fs \<Longrightarrow> ok fd sent (w\<lparr>tw_functors := fs\<rparr>)"
  by (auto simp: Tcp_ok_def)

lemma shutdownInLoop_ok:
  assumes ok: "ok fd sent w" and st: "tc_state w = kDisconnecting \<or> tc_state w = kDisconnected"
  shows "returns (TcpConnection_shutdownInLoop w) (\<lambda>w'. ok fd sent w' \<and> tcp_next w w' \<and> tw_sent w' = tw_sent w \<and>
     tc_state w' = tc_state w)"
proof -
  obtain ch where ch: "the_channel w = Inr ch"
    "ch_interestedEvents ch = tcp_interest (tc_state w) (Buffer_content (tc_outputBuffer w))"
    using ok_channel [OF ok] by blast
  have "tw_inLoop w" using ok by (simp add: Tcp_ok_def)
  moreover have "\<not> Channel_isWriting ch \<Longrightarrow> tc_state w = kDisconnecting \<Longrightarrow> Buffer_content (tc_outputBuffer w) = []"
    using ch(2) Channel_isWriting_bits(2) [of ch] by (auto simp: tcp_interest_def split: if_splits)
  moreover have "Buffer_content (tc_outputBuffer w) = [] \<and> tc_state w = kDisconnecting \<or> tc_state w = kDisconnected \<Longrightarrow>
      ok fd sent (w\<lparr>tw_shutdown := True\<rparr>)"
    using ok by (auto simp: Tcp_ok_def)
  ultimately show ?thesis
    using ok st ch(1) by (auto simp: TcpConnection_shutdownInLoop_def assertInLoopThread_def tcp_next_def)
qed

lemma shutdown_ok:
  assumes ok: "ok fd sent w"
  shows "returns (TcpConnection_shutdown w) (\<lambda>w'. ok fd sent w' \<and> tcp_next w w' \<and> tw_sent w' = tw_sent w)"
    and "returns (TcpConnection_shutdown (w\<lparr>tw_inLoop := False\<rparr>))
      (\<lambda>w'. ok fd sent (w'\<lparr>tw_inLoop := True\<rparr>) \<and> tw_sent w' = tw_sent w \<and> tw_loop w' = tw_loop w \<and>
        tcp_next w (w'\<lparr>tw_inLoop := True\<rparr>))"
proof -
  have loop: "tw_inLoop w" using ok by (simp add: Tcp_ok_def)
  have step: "tc_state w = kConnected \<Longrightarrow> ok fd sent (w\<lparr>tc_state := kDisconnecting\<rparr>)"
    using ok by (auto simp: Tcp_ok_def tcp_interest_def)
  show "returns (TcpConnection_shutdown w) (\<lambda>w'. ok fd sent w' \<and> tcp_next w w' \<and> tw_sent w' = tw_sent w)"
  proof (cases "tc_state w = kConnected")
    case True
    have "returns (TcpConnection_shutdownInLoop (w\<lparr>tc_state := kDisconnecting\<rparr>))
        (\<lambda>w'. ok fd sent w' \<and> tcp_next w w' \<and> tw_sent w' = tw_sent w)"
      by (rule returns_mono [OF shutdownInLoop_ok [OF step [OF True]]]) (auto simp: tcp_next_def True)
    then show ?thesis using True loop by (simp add: TcpConnection_shutdown_def Let_def)
  qed (use ok in \<open>simp add: TcpConnection_shutdown_def\<close>)
  show "returns (TcpConnection_shutdown (w\<lparr>tw_inLoop := False\<rparr>))
      (\<lambda>w'. ok fd sent (w'\<lparr>tw_inLoop := True\<rparr>) \<and> tw_sent w' = tw_sent w \<and> tw_loop w' = tw_loop w \<and>
        tcp_next w (w'\<lparr>tw_inLoop := True\<rparr>))"
    using ok by (cases "tc_state w = kConnected")
      (auto simp: TcpConnection_shutdown_def Let_def queueInLoop_def Tcp_ok_def tcp_interest_def tcp_next_def)
qed

lemma op_ok:
  assumes ok: "ok fd (tw_sent w) w" and possible: "op_possible mem x"
  shows "outcome {LengthError} (tcp_op_run dbg update mem x w) (\<lambda>w'. ok fd (tw_sent w') w' \<and> tcp_next w w')"
proof (cases x)
  case (Send wr ptr len)
  show ?thesis
  proof (cases "tc_state w = kConnected")
    case True
    then have "TcpConnection_send dbg update wr mem ptr len w = TcpConnection_sendInLoop dbg update wr mem ptr len w"
      using ok by (simp add: TcpConnection_send_def Tcp_ok_def)
    then show ?thesis
      using sendInLoop_ok [OF ok True, of mem wr ptr len dbg] possible Send True
      by (cases "TcpConnection_sendInLoop dbg update wr mem ptr len w")
        (auto simp del: op_possible.simps simp: tcp_next_def)
  next
    case False
    then show ?thesis using ok Send by (auto simp: TcpConnection_send_def tcp_next_def)
  qed
next
  case Shutdown
  then show ?thesis using shutdown_ok(1) [OF ok] by (auto simp: returns_iff)
next
  case (Consume n)
  have inv: "Buffer_inv (tc_inputBuffer w)" using ok by (simp add: Tcp_ok_def)
  have "min n (Buffer_readableBytes (tc_inputBuffer w)) \<le> length (Buffer_content (tc_inputBuffer w))"
    using length_Buffer_content [OF inv] by simp
  from Buffer_retrieve_ok [OF inv this, of dbg] show ?thesis
    using ok Consume by (auto simp: returns_iff Tcp_ok_def tcp_next_def)
next
  case (SetConnection cb)
  then show ?thesis using ok by (auto simp: TcpConnection_setConnectionCallback_def Tcp_ok_def tcp_next_def)
next
  case (SetMessage cb)
  then show ?thesis using ok by (auto simp: TcpConnection_setMessageCallback_def Tcp_ok_def tcp_next_def)
next
  case (SetClose cb)
  then show ?thesis using ok by (auto simp: TcpConnection_setCloseCallback_def Tcp_ok_def tcp_next_def)
next
  case (SetWriteComplete cb)
  then show ?thesis using ok by (auto simp: TcpConnection_setWriteCompleteCallback_def Tcp_ok_def tcp_next_def)
next
  case (SetHighWaterMark cb n)
  then show ?thesis using ok by (auto simp: TcpConnection_setHighWaterMarkCallback_def Tcp_ok_def tcp_next_def)
qed

lemma ops_ok:
  "ok fd (tw_sent w) w \<Longrightarrow> list_all (op_possible mem) xs \<Longrightarrow>
   outcome {LengthError} (tcp_ops_run dbg update mem xs w) (\<lambda>w'. ok fd (tw_sent w') w' \<and> tcp_next w w')"
proof (induction xs arbitrary: w)
  case Nil
  then show ?case by simp
next
  case (Cons x xs)
  show ?case
    unfolding tcp_ops_run.simps
  proof (rule outcome_bind [OF op_ok [OF Cons.prems(1)]])
    fix w' assume w': "ok fd (tw_sent w') w' \<and> tcp_next w w'"
    then show "outcome {LengthError} (tcp_ops_run dbg update mem xs w') (\<lambda>w'. ok fd (tw_sent w') w' \<and> tcp_next w w')"
      using Cons.IH [of w'] Cons.prems(2) tcp_next_trans [of w w'] by (auto elim!: outcome_mono)
  qed (use Cons.prems in simp)
qed

lemma call_ok:
  assumes "ok fd (tw_sent w) w" and "body_possible mem body"
  shows "outcome ({LengthError} \<union> unset cb) (call_user (user_script dbg update mem body) cb mk w)
    (\<lambda>w'. ok fd (tw_sent w') w' \<and> tcp_next w w')"
proof (cases cb)
  case (Some f)
  let ?w = "w\<lparr>tw_calls := tw_calls w @ [mk f]\<rparr>"
  have "outcome {LengthError} (tcp_ops_run dbg update mem (body (mk f) ?w) ?w) (\<lambda>w'. ok fd (tw_sent w') w' \<and> tcp_next ?w w')"
    using assms by (intro ops_ok) (simp_all add: body_possible_def)
  then show ?thesis
    by (auto simp: Some call_user_def user_script_def tcp_next_def elim!: outcome_mono)
qed (simp add: call_user_def)

text \<open>Establishing registers the channel; closing and destroying disable it.\<close>

lemma enable_ok:
  assumes ok: "ok fd sent w" and st: "tc_state w = kConnecting"
  obtains l where "Channel_enableReading dbg update (tc_channel w) (tw_loop w) = Inr l"
    "watched l = (watched (tw_loop w))(fd \<mapsto> (3, tc_channel w))"
    "ok fd sent (w\<lparr>tc_state := kConnected, tw_loop := l\<rparr>)"
proof -
  obtain ch where ch: "fst (tw_loop w) (tc_channel w) = Some ch" "ch_loop ch" "ch_interestedEvents ch = 0"
    using ok st by (auto simp: Tcp_ok_def tcp_interest_def)
  have "returns (Channel_enableReading dbg update (tc_channel w) (tw_loop w)) (\<lambda>s'. inv s' \<and> known s' (tc_channel w) fd \<and>
      (\<exists>ch'. fst s' (tc_channel w) = Some ch' \<and> ch_loop ch' \<and> ch_interestedEvents ch' = 3) \<and>
      watched s' = (watched (tw_loop w))(fd := if (3 :: int) = 0 then None else Some (3, tc_channel w)))"
    unfolding Channel_enableReading_def
    using ok st ch by (intro setInterest_ok [of _ _ ch]) (auto simp: Tcp_ok_def)
  then obtain l where l: "Channel_enableReading dbg update (tc_channel w) (tw_loop w) = Inr l" "inv l" "known l (tc_channel w) fd"
    "\<exists>ch'. fst l (tc_channel w) = Some ch' \<and> ch_loop ch' \<and> ch_interestedEvents ch' = 3"
    "watched l = (watched (tw_loop w))(fd \<mapsto> (3, tc_channel w))"
    by (auto simp: returns_iff)
  have "ok fd sent (w\<lparr>tc_state := kConnected, tw_loop := l\<rparr>)"
    using ok st l by (auto simp: Tcp_ok_def tcp_interest_def)
  with l show thesis by (intro that) simp_all
qed

lemma connectEstablished_eq:
  assumes ok: "ok fd sent w" and st: "tc_state w = kConnecting"
    and l: "Channel_enableReading dbg update (tc_channel w) (tw_loop w) = Inr l"
  shows "TcpConnection_connectEstablished dbg update user w =
     call_user user (tc_connectionCallback w) (\<lambda>f. ConnectionCall f True) (w\<lparr>tc_state := kConnected, tw_loop := l\<rparr>)"
  using assms by (simp add: TcpConnection_connectEstablished_def assertInLoopThread_def on_channel_def
      TcpConnection_connected_def Tcp_ok_def cassert_holds)

lemma connectEstablished_ok:
  assumes ok: "ok fd (tw_sent w) w" and st: "tc_state w = kConnecting" and body: "body_possible mem body"
  shows "outcome ({LengthError} \<union> unset (tc_connectionCallback w))
    (TcpConnection_connectEstablished dbg update (user_script dbg update mem body) w)
    (\<lambda>w'. ok fd (tw_sent w') w' \<and> tcp_up (tc_state w') \<and> tc_channel w' = tc_channel w)"
proof -
  obtain l where l: "Channel_enableReading dbg update (tc_channel w) (tw_loop w) = Inr l"
    "ok fd (tw_sent w) (w\<lparr>tc_state := kConnected, tw_loop := l\<rparr>)"
    using enable_ok [OF ok st, of dbg] .
  let ?w = "w\<lparr>tc_state := kConnected, tw_loop := l\<rparr>"
  have okw: "ok fd (tw_sent ?w) ?w" using l(2) by simp
  show ?thesis
    unfolding connectEstablished_eq [OF ok st l(1)]
    by (rule outcome_mono [OF call_ok [OF okw body]]) (auto simp: tcp_next_def)
qed

lemma ok_known: "ok fd sent w \<Longrightarrow> tcp_up (tc_state w) \<Longrightarrow> known (tw_loop w) (tc_channel w) fd"
  by (simp add: Tcp_ok_def)

lemma disable_ok:
  assumes ok: "ok fd sent w" and k: "known (tw_loop w) (tc_channel w) fd"
  obtains l where "Channel_disableAll dbg update (tc_channel w) (tw_loop w) = Inr l" "known l (tc_channel w) fd"
    "watched l fd = None" "ok fd sent (w\<lparr>tc_state := kDisconnected, tw_loop := l\<rparr>)"
proof -
  obtain ch where ch: "fst (tw_loop w) (tc_channel w) = Some ch" "ch_loop ch"
    using ok by (auto simp: Tcp_ok_def)
  have "returns (Channel_disableAll dbg update (tc_channel w) (tw_loop w)) (\<lambda>s'. inv s' \<and> known s' (tc_channel w) fd \<and>
      (\<exists>ch'. fst s' (tc_channel w) = Some ch' \<and> ch_loop ch' \<and> ch_interestedEvents ch' = 0) \<and>
      watched s' = (watched (tw_loop w))(fd := if (0 :: int) = 0 then None else Some (0, tc_channel w)))"
    unfolding Channel_disableAll_def
    using ok k ch by (intro setInterest_ok [of _ _ ch]) (auto simp: Tcp_ok_def)
  then obtain l where l: "Channel_disableAll dbg update (tc_channel w) (tw_loop w) = Inr l" "inv l" "known l (tc_channel w) fd"
    "\<exists>ch'. fst l (tc_channel w) = Some ch' \<and> ch_loop ch' \<and> ch_interestedEvents ch' = 0"
    "watched l = (watched (tw_loop w))(fd := None)"
    by (auto simp: returns_iff)
  have "ok fd sent (w\<lparr>tc_state := kDisconnected, tw_loop := l\<rparr>)"
    using ok l by (auto simp: Tcp_ok_def tcp_interest_def)
  with l show thesis by (intro that) simp_all
qed

lemma handleClose_ok:
  assumes ok: "ok fd (tw_sent w) w" and k: "known (tw_loop w) (tc_channel w) fd" and body: "body_possible mem body"
  shows "outcome ({LengthError} \<union> down dbg w) (TcpConnection_handleClose dbg update (user_script dbg update mem body) w)
    (\<lambda>w'. ok fd (tw_sent w') w' \<and> tc_state w' = kDisconnected \<and> watched (tw_loop w') fd = None \<and>
      known (tw_loop w') (tc_channel w') fd)"
proof -
  obtain l where l: "Channel_disableAll dbg update (tc_channel w) (tw_loop w) = Inr l" "known l (tc_channel w) fd"
    "watched l fd = None" "ok fd (tw_sent w) (w\<lparr>tc_state := kDisconnected, tw_loop := l\<rparr>)"
    using disable_ok [OF ok k, of dbg] .
  let ?w = "w\<lparr>tc_state := kDisconnected, tw_loop := l\<rparr>"
  have okw: "ok fd (tw_sent ?w) ?w" using l(4) by simp
  have "outcome {LengthError} (call_user (user_script dbg update mem body) (Some cb) CloseCall ?w)
      (\<lambda>w'. ok fd (tw_sent w') w' \<and> tc_state w' = kDisconnected \<and> watched (tw_loop w') fd = None \<and>
        known (tw_loop w') (tc_channel w') fd)" for cb
    by (rule outcome_mono [OF call_ok [OF okw body]]) (use l(2, 3) in \<open>auto simp: tcp_next_def\<close>)
  then show ?thesis
    using ok l by (auto simp: TcpConnection_handleClose_def assertInLoopThread_def on_channel_def tcp_up_def
        Tcp_ok_def cassert_def down_def split: option.split elim!: outcome_mono)
qed

lemma connectDestroyed_ok:
  fixes w :: "('cb, 'w) Tcp"
  assumes ok: "ok fd (tw_sent w) w" and k: "known (tw_loop w) (tc_channel w) fd" and body: "body_possible mem body"
  shows "outcome ({LengthError} \<union> unset (tc_connectionCallback w) \<union> down dbg w) (TcpConnection_connectDestroyed dbg update remove (user_script dbg update mem body) w)
    (\<lambda>w'. ok fd (tw_sent w') w' \<and> tc_state w' = kDisconnected \<and> \<not> known (tw_loop w') (tc_channel w') fd \<and>
      watched (tw_loop w') fd = None)"
proof -
  obtain l where l: "Channel_disableAll dbg update (tc_channel w) (tw_loop w) = Inr l" "known l (tc_channel w) fd"
    "watched l fd = None" "ok fd (tw_sent w) (w\<lparr>tc_state := kDisconnected, tw_loop := l\<rparr>)"
    using disable_ok [OF ok k, of dbg] .
  let ?w = "w\<lparr>tc_state := kDisconnected, tw_loop := l\<rparr>"
  have okw: "ok fd (tw_sent ?w) ?w" using l(4) by simp
  have "outcome ({LengthError} \<union> unset (tc_connectionCallback w))
      (bindR (call_user (user_script dbg update mem body) (tc_connectionCallback w) (\<lambda>f. ConnectionCall f False) ?w)
        (on_channel remove))
      (\<lambda>w'. ok fd (tw_sent w') w' \<and> tc_state w' = kDisconnected \<and> \<not> known (tw_loop w') (tc_channel w') fd \<and>
        watched (tw_loop w') fd = None)"
  proof (rule outcome_bind [OF call_ok [OF okw body]])
    fix w' assume w': "ok fd (tw_sent w') w' \<and> tcp_next ?w w'"
    then have loop: "tw_loop w' = l" "tc_channel w' = tc_channel w" "tc_state w' = kDisconnected"
      by (auto simp: tcp_next_def)
    obtain l' where l': "remove (tc_channel w) l = Inr l'" "inv l'" "\<not> known l' (tc_channel w) fd" "watched l' = watched l"
      using drop [of l "tc_channel w" fd] l w' loop(1) by (auto simp: returns_iff Tcp_ok_def)
    obtain ch where "fst l (tc_channel w) = Some ch" "ch_loop ch" "ch_interestedEvents ch = 0"
      using l(4) by (auto simp: Tcp_ok_def tcp_interest_def)
    then have "\<exists>ch'. fst l' (tc_channel w) = Some ch' \<and> ch_loop ch' \<and> ch_interestedEvents ch' = 0"
      using remove_channel [OF l'(1)] by auto
    then have "ok fd (tw_sent w') (w'\<lparr>tw_loop := l'\<rparr>)"
      using w' loop l'(2) by (auto simp: Tcp_ok_def tcp_interest_def)
    then show "outcome ({LengthError} \<union> unset (tc_connectionCallback w)) (on_channel remove w') (\<lambda>w'. ok fd (tw_sent w') w' \<and>
        tc_state w' = kDisconnected \<and> \<not> known (tw_loop w') (tc_channel w') fd \<and> watched (tw_loop w') fd = None)"
      using l' l(3) loop by (simp add: on_channel_def)
  qed
  moreover have "tw_inLoop w" using ok by (simp add: Tcp_ok_def)
  ultimately show ?thesis
    using l(1) by (auto simp: TcpConnection_connectDestroyed_def assertInLoopThread_def on_channel_def
        TcpConnection_connected_def cassert_def down_def tcp_up_def elim!: outcome_mono)
qed

text \<open>
  What holds of an established connection through its life: it is registered until it is destroyed, and once closed
  its descriptor is not watched.
\<close>

definition life_ok :: "int \<Rightarrow> bool \<Rightarrow> ('cb, 'w) Tcp \<Rightarrow> bool" where
  "life_ok fd destroyed w \<longleftrightarrow> ok fd (tw_sent w) w \<and> tc_state w \<noteq> kConnecting \<and>
     known (tw_loop w) (tc_channel w) fd = (\<not> destroyed) \<and> (destroyed \<longrightarrow> tc_state w = kDisconnected) \<and>
     (tc_state w = kDisconnected \<longrightarrow> watched (tw_loop w) fd = None)"

lemma life_next:
  assumes "life_ok fd d w" "ok fd (tw_sent w') w'" "tcp_next w w'"
  shows "life_ok fd d w'"
proof (cases "tcp_up (tc_state w)")
  case True
  then have up: "tcp_up (tc_state w')" using assms(3) by (auto simp: tcp_next_def)
  then have "tc_state w' \<noteq> kConnecting" "tc_state w' \<noteq> kDisconnected" by (auto simp: tcp_up_def)
  moreover have "\<not> d" using assms(1) True by (auto simp: life_ok_def)
  ultimately show ?thesis using ok_known [OF assms(2) up] assms(2) by (simp add: life_ok_def)
next
  case False
  then show ?thesis using assms by (auto simp: life_ok_def tcp_next_def tcp_up_def)
qed

lemma handleRead_ok:
  assumes ok: "ok fd (tw_sent w) w" and k: "known (tw_loop w) (tc_channel w) fd"
    and body: "body_possible mem body" and readv: "\<forall>room. read_contract room (readv room)"
  shows "outcome ({LengthError} \<union> unset (tc_messageCallback w) \<union> down dbg w)
    (TcpConnection_handleRead dbg update (user_script dbg update mem body) readv t w)
    (\<lambda>w'. ok fd (tw_sent w') w' \<and> (life_ok fd False w \<longrightarrow> life_ok fd False w'))"
  unfolding TcpConnection_handleRead_def
proof (rule outcome_bind [of _ _ "\<lambda>(n, err, b). Buffer_inv b"], goal_cases)
  case 1
  have "Buffer_inv (tc_inputBuffer w)" using ok by (simp add: Tcp_ok_def)
  then show ?case
    using readv by (intro outcome_mono [OF Buffer_readFd_outcome]) auto
next
  case (2 r)
  obtain n e b where r: "r = (n, e, b)" by (cases r)
  let ?w = "w\<lparr>tc_inputBuffer := b\<rparr>"
  have okw: "ok fd (tw_sent ?w) ?w" and kw: "known (tw_loop ?w) (tc_channel ?w) fd" and dw: "down dbg ?w = down dbg w"
    using ok 2 r k by (simp_all add: Tcp_ok_def down_def)
  have life: "life_ok fd False ?w" if "life_ok fd False w" using that okw by (simp add: life_ok_def)
  have "outcome ({LengthError} \<union> unset (tc_messageCallback w) \<union> down dbg w)
      (TcpConnection_handleClose dbg update (user_script dbg update mem body) ?w)
      (\<lambda>w'. ok fd (tw_sent w') w' \<and> (life_ok fd False w \<longrightarrow> life_ok fd False w'))"
    by (rule outcome_mono [OF handleClose_ok [OF okw kw body]]) (auto simp: life_ok_def dw)
  moreover have "outcome ({LengthError} \<union> unset (tc_messageCallback w) \<union> down dbg w)
      (call_user (user_script dbg update mem body) (tc_messageCallback w) mk ?w)
      (\<lambda>w'. ok fd (tw_sent w') w' \<and> (life_ok fd False w \<longrightarrow> life_ok fd False w'))" for mk
    by (rule outcome_mono [OF call_ok [OF okw body]]) (use life life_next in auto)
  ultimately show ?case
    using okw life by (simp add: r Let_def TcpConnection_handleError_def)
qed

text \<open>
  A write event takes bytes from the front of the output buffer; when it is empty writing is
  disabled, and a shutdown that waited for this happens.
\<close>

lemma handleWrite_ok:
  assumes ok: "ok fd sent w" and st: "tcp_up (tc_state w)"
    and wr: "write_contract (length (Buffer_content (tc_outputBuffer w))) wr"
  shows "returns (TcpConnection_handleWrite dbg update wr w) (\<lambda>w'. ok fd sent w' \<and> tw_sent w' = tw_sent w \<and>
    tc_state w' = tc_state w \<and>
    (\<forall>n. wr = WriteOk n \<longrightarrow> Buffer_content (tc_outputBuffer w') = drop n (Buffer_content (tc_outputBuffer w)) \<and>
      (Buffer_content (tc_outputBuffer w) \<noteq> [] \<and> Buffer_content (tc_outputBuffer w') = [] \<and> tc_state w = kDisconnecting \<longrightarrow>
         tw_shutdown w')))"
proof (cases "Buffer_content (tc_outputBuffer w) = []")
  case True
  obtain ch where "the_channel w = Inr ch" "ch_interestedEvents ch = 3"
    using ok_channel [OF ok] st True by (auto simp: tcp_interest_def)
  then have "TcpConnection_handleWrite dbg update wr w = Inr w"
    using ok Channel_isWriting_bits(1) [of ch]
    by (simp add: TcpConnection_handleWrite_def assertInLoopThread_def Tcp_ok_def)
  then show ?thesis using ok True by simp
next
  case False
  let ?out = "Buffer_content (tc_outputBuffer w)"
  obtain ch where ch: "the_channel w = Inr ch" "fst (tw_loop w) (tc_channel w) = Some ch" "ch_loop ch" "ch_interestedEvents ch = 7"
    using ok_channel [OF ok] st False by (auto simp: tcp_interest_def)
  have loop: "tw_inLoop w" and inv: "Buffer_inv (tc_outputBuffer w)" using ok by (simp_all add: Tcp_ok_def)
  have run: "TcpConnection_handleWrite dbg update wr w = (case wr of WriteErr e \<Rightarrow> Inr w
     | WriteOk n \<Rightarrow> if 0 < n then bindR (Buffer_retrieve dbg (tc_outputBuffer w) n) (\<lambda>b.
         let w1 = w\<lparr>tw_written := tw_written w @ take n ?out, tc_outputBuffer := b\<rparr> in
         if Buffer_readableBytes b = 0 then bindR (on_channel (Channel_disableWriting dbg update) w1) (\<lambda>w2.
           let w3 = (case tc_writeCompleteCallback w2 of
                      None \<Rightarrow> w2 | Some f \<Rightarrow> queueInLoop (WriteCompleteFunctor f) w2)
           in if tc_state w3 = kDisconnecting then TcpConnection_shutdownInLoop w3 else Inr w3) else Inr w1) else Inr w)"
    using loop ch Channel_isWriting_bits(2) [of ch]
    by (simp add: TcpConnection_handleWrite_def assertInLoopThread_def)
  show ?thesis
  proof (cases "\<exists>n. wr = WriteOk n \<and> 0 < n")
    case no: False
    then have "TcpConnection_handleWrite dbg update wr w = Inr w" unfolding run by (cases wr) simp_all
    then show ?thesis using ok False no by auto
  next
    case yes: True
    then obtain n where n: "wr = WriteOk n" "0 < n" "n \<le> length ?out" using wr by auto
    obtain b where b: "Buffer_retrieve dbg (tc_outputBuffer w) n = Inr b" "Buffer_inv b" "Buffer_content b = drop n ?out"
      using Buffer_retrieve_ok [OF inv n(3), of dbg] by (auto simp: returns_iff)
    let ?w1 = "w\<lparr>tw_written := tw_written w @ take n ?out, tc_outputBuffer := b\<rparr>"
    show ?thesis
    proof (cases "Buffer_content b = []")
      case more: False
      then have "ok fd sent ?w1" using ok b st False by (auto simp: Tcp_ok_def tcp_interest_def)
      then show ?thesis
        unfolding run using n b more by (simp add: Let_def Buffer_readable_zero)
    next
      case empty: True
      have "returns (Channel_disableWriting dbg update (tc_channel w) (tw_loop w)) (\<lambda>s'. inv s' \<and> known s' (tc_channel w) fd \<and>
          (\<exists>ch'. fst s' (tc_channel w) = Some ch' \<and> ch_loop ch' \<and> ch_interestedEvents ch' = 3) \<and>
          watched s' = (watched (tw_loop w))(fd := if (3 :: int) = 0 then None else Some (3, tc_channel w)))"
        unfolding Channel_disableWriting_def
        using ok st ch by (intro setInterest_ok [of _ _ ch]) (auto simp: Tcp_ok_def)
      then obtain l where l: "Channel_disableWriting dbg update (tc_channel w) (tw_loop w) = Inr l" "inv l"
        "known l (tc_channel w) fd" "\<exists>ch'. fst l (tc_channel w) = Some ch' \<and> ch_loop ch' \<and> ch_interestedEvents ch' = 3"
        by (auto simp: returns_iff)
      let ?w2 = "?w1\<lparr>tw_loop := l\<rparr>"
      define w3 where "w3 = (case tc_writeCompleteCallback ?w2 of
          None \<Rightarrow> ?w2 | Some f \<Rightarrow> queueInLoop (WriteCompleteFunctor f) ?w2)"
      have all: "take n ?out = ?out" using b(3) empty by simp
      then have "ok fd sent ?w2" using ok b st l empty by (auto simp: Tcp_ok_def tcp_interest_def)
      then have w3: "ok fd sent w3" "tc_state w3 = tc_state w" "tw_sent w3 = tw_sent w" "tc_outputBuffer w3 = b"
        "tw_loop w3 = l" "tc_channel w3 = tc_channel w" "tw_inLoop w3"
        using ok_queue [of fd sent ?w2] loop by (auto simp: w3_def queueInLoop_def split: option.split)
      have run3: "TcpConnection_handleWrite dbg update wr w =
          (if tc_state w3 = kDisconnecting then TcpConnection_shutdownInLoop w3 else Inr w3)"
        unfolding run w3_def all using n b empty l(1) by (simp add: Let_def Buffer_readable_zero on_channel_def all)
      obtain ch3 where ch3: "the_channel w3 = Inr ch3" "ch_interestedEvents ch3 = 3"
        using l(4) w3 by (auto simp: the_channel_def)
      have down: "tc_state w = kDisconnecting \<Longrightarrow> TcpConnection_shutdownInLoop w3 = Inr (w3\<lparr>tw_shutdown := True\<rparr>)"
        using w3(7) ch3 Channel_isWriting_bits(1) [of ch3]
        by (simp add: TcpConnection_shutdownInLoop_def assertInLoopThread_def)
      have "tc_state w = kDisconnecting \<Longrightarrow> ok fd sent (w3\<lparr>tw_shutdown := True\<rparr>)"
        using w3 empty by (auto simp: Tcp_ok_def)
      then show ?thesis
        unfolding run3 using w3 down b(3) empty n(1) by simp
    qed
  qed
qed

lemma functor_ok:
  assumes ok: "ok fd (tw_sent w) w" and q: "tw_functors w = f # fs" and body: "body_possible mem body"
  shows "outcome {LengthError, BadCall} (run_functor dbg update (user_script dbg update mem body) wr mem f (w\<lparr>tw_functors := fs\<rparr>))
    (\<lambda>w'. ok fd (tw_sent w') w' \<and> tcp_next w w')"
proof -
  let ?w = "w\<lparr>tw_functors := fs\<rparr>"
  have okw: "ok fd (tw_sent ?w) ?w" using ok_dequeue [OF ok q] by simp
  have call: "outcome {LengthError, BadCall} (call_user (user_script dbg update mem body) cb mk ?w)
      (\<lambda>w'. ok fd (tw_sent w') w' \<and> tcp_next w w')" for cb mk
    by (rule outcome_mono [OF call_ok [OF okw body]]) (use unset_sub [of cb] in \<open>auto simp: tcp_next_def\<close>)
  show ?thesis
  proof (cases f)
    case (SendFunctor ptr len)
    then show ?thesis using ok q by (auto simp: Tcp_ok_def)
  next
    case ShutdownFunctor
    then have "tc_state w = kDisconnecting \<or> tc_state w = kDisconnected" using ok q by (auto simp: Tcp_ok_def)
    then show ?thesis
      using shutdownInLoop_ok [OF okw] ShutdownFunctor by (auto simp: returns_iff tcp_next_def)
  qed (use call in simp_all)
qed

lemma event_ok:
  assumes ok: "ok fd (tw_sent w) w" and body: "body_possible mem body" and ev: "event_possible mem ev w"
  shows "outcome {LengthError, BadCall} (tcp_event_run dbg update remove mem body ev w) (\<lambda>w'. ok fd (tw_sent w') w')"
proof (cases ev)
  case Establish
  then show ?thesis
    using connectEstablished_ok [OF ok _ body, of dbg] ev unset_sub by (auto elim!: outcome_mono)
next
  case Destroy
  then show ?thesis
    using connectDestroyed_ok [OF ok _ body, of dbg] ok_known [OF ok] ev unset_sub by (auto elim!: outcome_mono)
next
  case (ReadEvent readv t)
  then show ?thesis
    using handleRead_ok [OF ok _ body, of readv dbg t] ok_known [OF ok] ev unset_sub by (auto elim!: outcome_mono)
next
  case (WriteEvent wr)
  then show ?thesis using handleWrite_ok [OF ok, of wr dbg] ev by (auto simp: returns_iff)
next
  case CloseEvent
  then show ?thesis using handleClose_ok [OF ok _ body, of dbg] ok_known [OF ok] ev by (auto elim!: outcome_mono)
next
  case ErrorEvent
  then show ?thesis using ok by (simp add: TcpConnection_handleError_def)
next
  case (UserOp x)
  then show ?thesis using op_ok [OF ok, of mem x dbg] ev by (auto elim!: outcome_mono)
next
  case RemoteShutdown
  then show ?thesis using shutdown_ok(2) [OF ok] by (auto simp: returns_iff)
next
  case (RunFunctor wr)
  then show ?thesis
    using ok functor_ok [OF ok _ body, of _ _ dbg wr] by (cases "tw_functors w") (auto elim!: outcome_mono)
qed

lemma life_event_ok:
  assumes life: "life_ok fd d w" and body: "body_possible mem body" and ev: "life_possible mem d ev w"
  shows "outcome ({LengthError, BadCall} \<union> (if asserts_up ev then down dbg w else {}))
    (tcp_event_run dbg update remove mem body ev w) (life_ok fd (d \<or> ev = Destroy))"
proof -
  have ok: "ok fd (tw_sent w) w" and k: "known (tw_loop w) (tc_channel w) fd = (\<not> d)" using life by (simp_all add: life_ok_def)
  note next' = life_next [OF life]
  show ?thesis
  proof (cases ev)
    case Destroy
    have "outcome ({LengthError} \<union> unset (tc_connectionCallback w) \<union> down dbg w)
        (TcpConnection_connectDestroyed dbg update remove (user_script dbg update mem body) w) (life_ok fd True)"
      using k ev Destroy by (intro outcome_mono [OF connectDestroyed_ok [OF ok _ body]]) (auto simp: life_ok_def)
    then show ?thesis using Destroy unset_sub by (auto elim!: outcome_mono)
  next
    case (ReadEvent readv t)
    have "outcome ({LengthError} \<union> unset (tc_messageCallback w) \<union> down dbg w)
        (TcpConnection_handleRead dbg update (user_script dbg update mem body) readv t w) (life_ok fd d)"
      using k ev life ReadEvent by (intro outcome_mono [OF handleRead_ok [OF ok _ body]]) auto
    then show ?thesis using ReadEvent unset_sub by (auto elim!: outcome_mono)
  next
    case (WriteEvent wr)
    show ?thesis
    proof (cases "tcp_up (tc_state w)")
      case True
      have "returns (TcpConnection_handleWrite dbg update wr w) (life_ok fd d)"
      proof (rule returns_mono [OF handleWrite_ok [OF ok True, of wr dbg]])
        fix w' assume w': "ok fd (tw_sent w) w' \<and> tw_sent w' = tw_sent w \<and> tc_state w' = tc_state w \<and>
          (\<forall>n. wr = WriteOk n \<longrightarrow> Buffer_content (tc_outputBuffer w') = drop n (Buffer_content (tc_outputBuffer w)) \<and>
            (Buffer_content (tc_outputBuffer w) \<noteq> [] \<and> Buffer_content (tc_outputBuffer w') = [] \<and> tc_state w = kDisconnecting \<longrightarrow>
              tw_shutdown w'))"
        then have "known (tw_loop w') (tc_channel w') fd" using True by (auto intro: ok_known)
        then show "life_ok fd d w'" using w' True life by (auto simp: life_ok_def)
      qed (use ev WriteEvent in simp)
      then show ?thesis using WriteEvent by (auto simp: returns_iff)
    next
      case False
      obtain ch where "the_channel w = Inr ch" "ch_interestedEvents ch = 0"
        using ok_channel [OF ok] False by (auto simp: tcp_interest_def)
      then have "TcpConnection_handleWrite dbg update wr w = Inr w"
        using ok Channel_isWriting_bits(3) [of ch]
        by (simp add: TcpConnection_handleWrite_def assertInLoopThread_def Tcp_ok_def)
      then show ?thesis using life WriteEvent by simp
    qed
  next
    case CloseEvent
    have "outcome ({LengthError} \<union> down dbg w)
        (TcpConnection_handleClose dbg update (user_script dbg update mem body) w) (life_ok fd d)"
      using k ev CloseEvent by (intro outcome_mono [OF handleClose_ok [OF ok _ body]]) (auto simp: life_ok_def)
    then show ?thesis using CloseEvent by (auto elim!: outcome_mono)
  next
    case (UserOp x)
    then show ?thesis using op_ok [OF ok, of mem x dbg] ev next' by (auto elim!: outcome_mono)
  next
    case RemoteShutdown
    then show ?thesis using shutdown_ok(2) [OF ok] next' by (auto simp: returns_iff)
  next
    case (RunFunctor wr)
    then show ?thesis
      using life functor_ok [OF ok _ body, of _ _ dbg wr] next' by (cases "tw_functors w") (auto elim!: outcome_mono)
  qed (use ev life in \<open>simp_all add: TcpConnection_handleError_def\<close>)
qed

lemma life_reach_ok:
  assumes "tcp_life dbg update remove mem body w0 w d" and "life_ok fd False w0" and "body_possible mem body"
  shows "life_ok fd d w"
  using assms(1)
proof (induction rule: tcp_life.induct)
  case start
  show ?case by (rule assms(2))
next
  case (step w d ev w')
  then show ?case using life_event_ok [OF step.IH assms(3) step.hyps(2), of dbg] by simp
qed

lemma reach_ok:
  assumes "tcp_reach dbg update remove mem body w0 w" and "ok fd (tw_sent w0) w0" and "body_possible mem body"
  shows "ok fd (tw_sent w) w"
  using assms(1)
proof (induction rule: tcp_reach.induct)
  case start
  show ?case by (rule assms(2))
next
  case (step w ev w')
  then show ?case using event_ok [OF step.IH assms(3) step.hyps(2), of dbg] by simp
qed

lemma tcp_drain_ok:
  "ok fd sent w \<Longrightarrow> tc_state w = kDisconnecting \<Longrightarrow> Buffer_content (tc_outputBuffer w) \<noteq> [] \<or> tw_shutdown w \<Longrightarrow>
   \<forall>n \<in> set ns. 0 < n \<Longrightarrow> length (Buffer_content (tc_outputBuffer w)) \<le> length ns \<Longrightarrow>
   returns (tcp_drain dbg update ns w) (\<lambda>w'. tw_written w' = sent \<and> Buffer_content (tc_outputBuffer w') = [] \<and> tw_shutdown w')"
proof (induction ns arbitrary: w)
  case Nil
  then show ?case by (simp add: Tcp_ok_def)
next
  case (Cons n ns)
  let ?out = "Buffer_content (tc_outputBuffer w)"
  have "returns (TcpConnection_handleWrite dbg update (WriteOk (min n (length ?out))) w) (\<lambda>w'. ok fd sent w' \<and>
      tc_state w' = kDisconnecting \<and> Buffer_content (tc_outputBuffer w') = drop n ?out \<and>
      (?out \<noteq> [] \<and> drop n ?out = [] \<longrightarrow> tw_shutdown w') \<and> (?out = [] \<longrightarrow> w' = w))"
  proof (cases "?out = []")
    case True
    obtain ch where "the_channel w = Inr ch" "ch_interestedEvents ch = 3"
      using ok_channel [OF Cons.prems(1)] Cons.prems(2) True by (auto simp: tcp_interest_def)
    then have "TcpConnection_handleWrite dbg update (WriteOk (min n (length ?out))) w = Inr w"
      using Cons.prems(1) Channel_isWriting_bits(1) [of ch]
      by (simp add: TcpConnection_handleWrite_def assertInLoopThread_def Tcp_ok_def)
    then show ?thesis using Cons.prems True by simp
  next
    case False
    have "drop (min n (length ?out)) ?out = drop n ?out" by (simp add: min_def)
    then show ?thesis
      using handleWrite_ok [OF Cons.prems(1), of "WriteOk (min n (length ?out))" dbg] Cons.prems(2) False
      by (auto elim!: returns_mono)
  qed
  then show ?case
    unfolding tcp_drain.simps
  proof (rule returns_bind)
    fix w' assume w': "ok fd sent w' \<and> tc_state w' = kDisconnecting \<and> Buffer_content (tc_outputBuffer w') = drop n ?out \<and>
      (?out \<noteq> [] \<and> drop n ?out = [] \<longrightarrow> tw_shutdown w') \<and> (?out = [] \<longrightarrow> w' = w)"
    have "0 < n" using Cons.prems(4) by simp
    then have "length (drop n ?out) \<le> length ns" using Cons.prems(5) by simp
    then show "returns (tcp_drain dbg update ns w') (\<lambda>w'. tw_written w' = sent \<and> Buffer_content (tc_outputBuffer w') = [] \<and> tw_shutdown w')"
      using Cons.prems w' by (intro Cons.IH) auto
  qed
qed

end

text \<open>A connection over a poller with asserts.\<close>

locale tcp_builds = two_builds pdbg update update' remove remove'
  for pdbg :: bool and update update' remove remove' :: "'w loop_op"
begin

lemma on_channel_built: "(\<And>c l. built pdbg (f c l) (f' c l)) \<Longrightarrow> built pdbg (on_channel f w) (on_channel f' w)"
  unfolding on_channel_def by (intro built_intros)

lemma call_user_built:
  "(\<And>x w. built pdbg (user x w) (user' x w)) \<Longrightarrow> built pdbg (call_user user cb mk w) (call_user user' cb mk w)"
  unfolding call_user_def by (intro built_intros)

lemma sendInLoop_built:
  "built pdbg (TcpConnection_sendInLoop dbg update wr mem ptr len w) (TcpConnection_sendInLoop dbg update' wr mem ptr len w)"
  unfolding TcpConnection_sendInLoop_def assertInLoopThread_def buffer_rest_def Let_def
  by (intro built_intros on_channel_built channel_built)

lemma send_built: "built pdbg (TcpConnection_send dbg update wr mem ptr len w) (TcpConnection_send dbg update' wr mem ptr len w)"
  unfolding TcpConnection_send_def by (intro built_intros sendInLoop_built)

lemma op_built: "built pdbg (tcp_op_run dbg update mem x w) (tcp_op_run dbg update' mem x w)"
  by (cases x) (auto intro!: built_bind send_built)

lemma ops_built: "built pdbg (tcp_ops_run dbg update mem xs w) (tcp_ops_run dbg update' mem xs w)"
  by (induction xs arbitrary: w) (simp_all add: built_bind op_built)

lemma script_built: "built pdbg (user_script dbg update mem body x w) (user_script dbg update' mem body x w)"
  unfolding user_script_def by (rule ops_built)

lemmas tcp_built = built_intros on_channel_built channel_built remove_built call_user_built script_built

lemma connectEstablished_built:
  "built pdbg (TcpConnection_connectEstablished dbg update (user_script dbg update mem body) w)
     (TcpConnection_connectEstablished dbg update' (user_script dbg update' mem body) w)"
  unfolding TcpConnection_connectEstablished_def assertInLoopThread_def by (intro tcp_built)

lemma connectDestroyed_built:
  "built pdbg (TcpConnection_connectDestroyed dbg update remove (user_script dbg update mem body) w)
     (TcpConnection_connectDestroyed dbg update' remove' (user_script dbg update' mem body) w)"
  unfolding TcpConnection_connectDestroyed_def assertInLoopThread_def by (intro tcp_built)

lemma handleClose_built:
  "built pdbg (TcpConnection_handleClose dbg update (user_script dbg update mem body) w)
     (TcpConnection_handleClose dbg update' (user_script dbg update' mem body) w)"
  unfolding TcpConnection_handleClose_def assertInLoopThread_def by (intro tcp_built)

lemma handleRead_built:
  "built pdbg (TcpConnection_handleRead dbg update (user_script dbg update mem body) readv t w)
     (TcpConnection_handleRead dbg update' (user_script dbg update' mem body) readv t w)"
  unfolding TcpConnection_handleRead_def Let_def by (intro tcp_built handleClose_built)

lemma built_write:
  "(\<And>n. built p (f n) (f' n)) \<Longrightarrow> (\<And>e. built p (g e) (g' e)) \<Longrightarrow>
   built p (case wr of WriteOk n \<Rightarrow> f n | WriteErr e \<Rightarrow> g e) (case wr of WriteOk n \<Rightarrow> f' n | WriteErr e \<Rightarrow> g' e)"
  by (cases wr) simp_all

lemma handleWrite_built: "built pdbg (TcpConnection_handleWrite dbg update wr w) (TcpConnection_handleWrite dbg update' wr w)"
  unfolding TcpConnection_handleWrite_def assertInLoopThread_def Let_def
  by (intro tcp_built built_write)

lemma functor_built:
  "built pdbg (run_functor dbg update (user_script dbg update mem body) wr mem f w)
     (run_functor dbg update' (user_script dbg update' mem body) wr mem f w)"
  by (cases f) (simp_all add: sendInLoop_built call_user_built script_built)

lemma event_built: "built pdbg (tcp_event_run dbg update remove mem body ev w) (tcp_event_run dbg update' remove' mem body ev w)"
  by (cases ev)
    (auto simp: connectEstablished_built connectDestroyed_built handleClose_built handleRead_built handleWrite_built op_built
      intro!: built_bind built_list functor_built)

lemma open_built: "built pdbg (tcp_open dbg update bound c fd prep mem body l) (tcp_open dbg update' bound c fd prep mem body l)"
  unfolding tcp_open_def by (intro built_intros ops_built connectEstablished_built)

text \<open>What is reached with the asserts is reached without.\<close>

lemma life_built:
  "tcp_life dbg update remove mem body w0 w d \<Longrightarrow> tcp_life dbg update' remove' mem body w0 w d"
proof (induction rule: tcp_life.induct)
  case (step w d ev w')
  then show ?case by (intro tcp_life.step [OF step.IH step.hyps(2)] built_InrD [OF event_built])
qed (rule tcp_life.start)

end

interpretation poller_tcp_builds: tcp_builds p "Poller_updateChannel p True" "Poller_updateChannel False True"
    "Poller_removeChannel p True" "Poller_removeChannel False True" for p
  by unfold_locales

interpretation poller_tcp: tcp_loop Poller_inv Poller_watched Poller_known Poller_fresh
    "Poller_updateChannel False True" "Poller_removeChannel False True"
  by unfold_locales

end
