(* ===== verification/Sockets.thy ===== *)
theory Sockets
  imports Posix Printf
begin

text \<open>
  The wrappers of sockets.cc and the addresses of inetaddress.h and inetaddress.cc. An address is the memory
  of the union of \<^verbatim>\<open>sockaddr_in\<close> and \<^verbatim>\<open>sockaddr_in6\<close>. What system calls return, and the texts of
  addresses (\<^verbatim>\<open>inet_ntop\<close>, \<^verbatim>\<open>inet_pton\<close>), are parameters; log output is left out.
\<close>

section \<open>Addresses in memory\<close>

abbreviation (input) AF_INET :: "16 word" where "AF_INET \<equiv> 2"
abbreviation (input) AF_INET6 :: "16 word" where "AF_INET6 \<equiv> 10"
abbreviation (input) INET_ADDRSTRLEN :: nat where "INET_ADDRSTRLEN \<equiv> 16"
abbreviation (input) INET6_ADDRSTRLEN :: nat where "INET6_ADDRSTRLEN \<equiv> 46"

text \<open>
  The 28 bytes: family and port are where both structs have them; \<open>sa_four\<close> is \<^verbatim>\<open>sin_addr\<close> or
  \<^verbatim>\<open>sin6_flowinfo\<close>; \<open>sa_low\<close> and \<open>sa_high\<close> are the halves of \<^verbatim>\<open>sin6_addr\<close>, the low one also
  \<^verbatim>\<open>sin_zero\<close>; \<open>sa_scope\<close> is \<^verbatim>\<open>sin6_scope_id\<close>.
\<close>

record sockaddr =
  sa_family :: "16 word"
  sa_port :: "16 word"
  sa_four :: "byte list"
  sa_low :: "byte list"
  sa_high :: "byte list"
  sa_scope :: "byte list"

definition zero_bytes :: "nat \<Rightarrow> byte list" where
  "zero_bytes n = replicate n 0"

definition sin6_addr :: "sockaddr \<Rightarrow> byte list" where
  "sin6_addr a = sa_low a @ sa_high a"

definition set_sin6_addr :: "byte list \<Rightarrow> sockaddr \<Rightarrow> sockaddr" where
  "set_sin6_addr bs a = a\<lparr>sa_low := take 8 bs, sa_high := drop 8 bs\<rparr>"

text \<open>\<^verbatim>\<open>bzero\<close> of a \<^verbatim>\<open>sockaddr_in6\<close> and of the \<^verbatim>\<open>sockaddr_in\<close> in it.\<close>

definition zero_in6 :: sockaddr where
  "zero_in6 = \<lparr>sa_family = 0, sa_port = 0, sa_four = zero_bytes 4, sa_low = zero_bytes 8, sa_high = zero_bytes 8,
     sa_scope = zero_bytes 4\<rparr>"

definition bzero_in :: "sockaddr \<Rightarrow> sockaddr" where
  "bzero_in a = a\<lparr>sa_family := 0, sa_port := 0, sa_four := zero_bytes 4, sa_low := zero_bytes 8\<rparr>"

definition in6addr_any :: "byte list" where
  "in6addr_any = zero_bytes 16"

definition in6addr_loopback :: "byte list" where
  "in6addr_loopback = zero_bytes 15 @ [1]"

section \<open>sockets.cc\<close>

text \<open>The result of a call that gives a descriptor or fails.\<close>

definition createNonblockingOrDie :: "int \<Rightarrow> int res" where
  "createNonblockingOrDie sockfd = (if sockfd < 0 then Inl FatalAbort else Inr sockfd)"

definition bindOrDie :: "int \<Rightarrow> unit res" where
  "bindOrDie ret = (if ret < 0 then Inl FatalAbort else Inr ())"

definition listenOrDie :: "int \<Rightarrow> unit res" where
  "listenOrDie ret = (if ret < 0 then Inl FatalAbort else Inr ())"

text \<open>\<^verbatim>\<open>accept4\<close>: the new descriptor and the address it stored, or the error number.\<close>

datatype accept_result = AcceptOk int sockaddr | AcceptErr int

text \<open>The result is the descriptor or -1, the address and \<^verbatim>\<open>errno\<close>.\<close>

definition sockets_accept :: "accept_result \<Rightarrow> sockaddr \<Rightarrow> (int \<times> sockaddr \<times> int) res" where
  "sockets_accept r addr =
     (case r of
        AcceptOk connfd a \<Rightarrow> Inr (connfd, a, 0)
      | AcceptErr savedErrno \<Rightarrow>
          if savedErrno \<in> {EAGAIN, ECONNABORTED, EINTR, EPROTO, EPERM, EMFILE} then Inr (- 1, addr, savedErrno)
          else if savedErrno \<in> {EBADF, EFAULT, EINVAL, ENFILE, ENOBUFS, ENOMEM, ENOTSOCK, EOPNOTSUPP}
          then Inl FatalAbort
          else Inl FatalAbort)"

text \<open>
  \<open>ntop family bytes size\<close> is the text \<^verbatim>\<open>inet_ntop\<close> stores, or \<open>None\<close> when it fails and leaves the array
  alone. An array of characters is given by its size and the text in it.
\<close>

type_synonym ntop = "16 word \<Rightarrow> byte list \<Rightarrow> nat \<Rightarrow> string option"

definition toIp :: "bool \<Rightarrow> ntop \<Rightarrow> string \<Rightarrow> nat \<Rightarrow> sockaddr \<Rightarrow> string res" where
  "toIp dbg ntop buf sz addr =
     (if sa_family addr = AF_INET
      then cassert dbg (INET_ADDRSTRLEN \<le> sz)
        (Inr (case ntop AF_INET (sa_four addr) sz of None \<Rightarrow> buf | Some t \<Rightarrow> t))
      else if sa_family addr = AF_INET6
      then cassert dbg (INET6_ADDRSTRLEN \<le> sz)
        (Inr (case ntop AF_INET6 (sin6_addr addr) sz of None \<Rightarrow> buf | Some t \<Rightarrow> t))
      else Inr buf)"

definition toIpPort :: "bool \<Rightarrow> endian \<Rightarrow> ntop \<Rightarrow> string \<Rightarrow> nat \<Rightarrow> sockaddr \<Rightarrow> string res" where
  "toIpPort dbg h ntop buf sz addr =
     bindR (toIp dbg ntop buf sz addr) (\<lambda>buf.
       let end' = length buf;
           port = netToHost16 h (sa_port addr)
       in cassert dbg (end' < sz)
            (Inr (buf @ snprintf (szsub sz end') ('':'' @ dec_nat (unat port)))))"

text \<open>\<open>pton family text\<close> are the bytes \<^verbatim>\<open>inet_pton\<close> stores; \<open>None\<close> when it refuses the text.\<close>

type_synonym pton = "16 word \<Rightarrow> string \<Rightarrow> byte list option"

definition fromIpPort4 :: "endian \<Rightarrow> pton \<Rightarrow> string \<Rightarrow> 16 word \<Rightarrow> sockaddr \<Rightarrow> sockaddr" where
  "fromIpPort4 h pton ip port addr =
     (let addr = addr\<lparr>sa_family := AF_INET, sa_port := hostToNet16 h port\<rparr> in
      case pton AF_INET ip of None \<Rightarrow> addr | Some bs \<Rightarrow> addr\<lparr>sa_four := bs\<rparr>)"

definition fromIpPort6 :: "endian \<Rightarrow> pton \<Rightarrow> string \<Rightarrow> 16 word \<Rightarrow> sockaddr \<Rightarrow> sockaddr" where
  "fromIpPort6 h pton ip port addr =
     (let addr = addr\<lparr>sa_family := AF_INET6, sa_port := hostToNet16 h port\<rparr> in
      case pton AF_INET6 ip of None \<Rightarrow> addr | Some bs \<Rightarrow> set_sin6_addr bs addr)"

text \<open>\<^verbatim>\<open>getsockopt\<close> of \<^verbatim>\<open>SO_ERROR\<close>: the error number of the call, or the option.\<close>

definition getSocketError :: "int + int \<Rightarrow> int" where
  "getSocketError r = (case r of Inl errno \<Rightarrow> errno | Inr optval \<Rightarrow> optval)"

text \<open>\<^verbatim>\<open>getsockname\<close>, \<^verbatim>\<open>getpeername\<close>: the address stored, \<open>None\<close> when the call fails.\<close>

definition getLocalAddr :: "sockaddr option \<Rightarrow> sockaddr" where
  "getLocalAddr r = (case r of None \<Rightarrow> zero_in6 | Some a \<Rightarrow> a)"

definition getPeerAddr :: "sockaddr option \<Rightarrow> sockaddr" where
  "getPeerAddr r = (case r of None \<Rightarrow> zero_in6 | Some a \<Rightarrow> a)"

definition isSelfConnected :: "sockaddr option \<Rightarrow> sockaddr option \<Rightarrow> bool" where
  "isSelfConnected local peer =
     (let localaddr = getLocalAddr local; peeraddr = getPeerAddr peer in
      if sa_family localaddr = AF_INET
      then sa_port localaddr = sa_port peeraddr \<and> sa_four localaddr = sa_four peeraddr
      else if sa_family localaddr = AF_INET6
      then sa_port localaddr = sa_port peeraddr \<and> sin6_addr localaddr = sin6_addr peeraddr
      else False)"

section \<open>InetAddress\<close>

text \<open>\<open>junk\<close> is what the memory of the object held before its constructor.\<close>

definition kInaddrAny :: "32 word" where "kInaddrAny = 0"
definition kInaddrLoopback :: "32 word" where "kInaddrLoopback = 0x7F000001"

definition InetAddress_new :: "endian \<Rightarrow> sockaddr \<Rightarrow> 16 word \<Rightarrow> bool \<Rightarrow> bool \<Rightarrow> sockaddr" where
  "InetAddress_new h junk port loopbackOnly ipv6 =
     (if ipv6
      then let ipaddr = (if loopbackOnly then in6addr_loopback else in6addr_any) in
           (set_sin6_addr ipaddr (zero_in6\<lparr>sa_family := AF_INET6\<rparr>))\<lparr>sa_port := hostToNet16 h port\<rparr>
      else let ipaddr = (if loopbackOnly then kInaddrLoopback else kInaddrAny) in
           (bzero_in junk)\<lparr>sa_family := AF_INET, sa_four := mem_bytes h 4 (hostToNet32 h ipaddr),
                           sa_port := hostToNet16 h port\<rparr>)"

definition InetAddress_ofIp :: "endian \<Rightarrow> pton \<Rightarrow> sockaddr \<Rightarrow> string \<Rightarrow> 16 word \<Rightarrow> bool \<Rightarrow> sockaddr" where
  "InetAddress_ofIp h pton junk ip port ipv6 =
     (if ipv6 then fromIpPort6 h pton ip port zero_in6 else fromIpPort4 h pton ip port (bzero_in junk))"

definition InetAddress_ip :: "bool \<Rightarrow> ntop \<Rightarrow> sockaddr \<Rightarrow> string res" where
  "InetAddress_ip dbg ntop a = toIp dbg ntop '''' 64 a"

definition InetAddress_port :: "bool \<Rightarrow> endian \<Rightarrow> sockaddr \<Rightarrow> 16 word res" where
  "InetAddress_port dbg h a = cassert dbg (sa_family a = AF_INET) (Inr (netToHost16 h (sa_port a)))"

definition InetAddress_ipPort :: "bool \<Rightarrow> endian \<Rightarrow> ntop \<Rightarrow> sockaddr \<Rightarrow> string res" where
  "InetAddress_ipPort dbg h ntop a = toIpPort dbg h ntop '''' 64 a"

definition InetAddress_ipNetOrder :: "bool \<Rightarrow> endian \<Rightarrow> sockaddr \<Rightarrow> 32 word res" where
  "InetAddress_ipNetOrder dbg h a = cassert dbg (sa_family a = AF_INET) (Inr (of_mem_bytes h (sa_four a)))"

text \<open>
  \<^verbatim>\<open>gethostbyname_r\<close>: its return value, and the entry found, if any: type, length and bytes of the
  first address.
\<close>

definition InetAddress_resolve ::
  "bool \<Rightarrow> int \<Rightarrow> (16 word \<times> int \<times> byte list) option \<Rightarrow> sockaddr option \<Rightarrow> (bool \<times> sockaddr option) res" where
  "InetAddress_resolve dbg ret he result =
     cassert dbg (result \<noteq> None)
       (case (if ret = 0 then he else None) of
          None \<Rightarrow> Inr (False, result)
        | Some (h_addrtype, h_length, h_addr) \<Rightarrow>
            cassert dbg (h_addrtype = AF_INET \<and> h_length = 4)
              (case result of
                 None \<Rightarrow> Inl BadPointer
               | Some a \<Rightarrow> if length h_addr < 4 then Inl OutOfBounds
                           else Inr (True, Some (a\<lparr>sa_four := take 4 h_addr\<rparr>))))"

section \<open>Lemmas\<close>

lemma length_zero_bytes [simp]: "length (zero_bytes n) = n"
  by (simp add: zero_bytes_def)

lemma sin6_addr_set [simp]: "sin6_addr (set_sin6_addr bs a) = bs"
  by (simp add: sin6_addr_def set_sin6_addr_def)

lemma set_sin6_fields [simp]:
  "sa_family (set_sin6_addr bs a) = sa_family a" "sa_port (set_sin6_addr bs a) = sa_port a"
  by (simp_all add: set_sin6_addr_def)

lemma sin6_addr_upd [simp]:
  "sin6_addr (a\<lparr>sa_port := p\<rparr>) = sin6_addr a" "sin6_addr (a\<lparr>sa_family := f\<rparr>) = sin6_addr a"
  by (simp_all add: sin6_addr_def)

text \<open>Converting to network order and back is the identity, on a word of 16 bits.\<close>

lemma net16_inverse [simp]: "netToHost16 h (hostToNet16 h p) = p"
proof -
  have "of_mem_bytes h (mem_bytes h 2 (hostToNet16 h p)) = hostToNet16 h p"
    by (cases h) (simp_all add: of_mem_bytes_def mem_bytes_def of_le_le_bytes take_bit_word_eq_self)
  then have "netToHost16 h (hostToNet16 h p) = net_dec16 h (net_enc16 h p)"
    by (simp add: net_dec16_def net_enc16_def)
  then show ?thesis by (simp add: net16.dec_enc)
qed

lemma length_port_text: "length (dec_nat (unat (p :: 16 word))) \<le> 5"
proof (rule length_dec_nat)
  have "unat p < 2 ^ LENGTH(16)" by (rule unsigned_less)
  then show "unat p < 10 ^ 5" by simp
qed simp

text \<open>What \<^verbatim>\<open>inet_ntop\<close> is documented to do with enough room.\<close>

definition ntop_contract :: "ntop \<Rightarrow> bool" where
  "ntop_contract ntop \<longleftrightarrow>
     (\<forall>bs n. length bs = 4 \<and> INET_ADDRSTRLEN \<le> n \<longrightarrow> (\<exists>t. ntop AF_INET bs n = Some t \<and> length t < INET_ADDRSTRLEN)) \<and>
     (\<forall>bs n. length bs = 16 \<and> INET6_ADDRSTRLEN \<le> n \<longrightarrow> (\<exists>t. ntop AF_INET6 bs n = Some t \<and> length t < INET6_ADDRSTRLEN))"

lemma ntop_contract_text:
  "ntop_contract ntop \<Longrightarrow> length bs = 4 \<Longrightarrow> \<exists>t. ntop AF_INET bs 64 = Some t \<and> length t < 16"
  "ntop_contract ntop \<Longrightarrow> length bs = 16 \<Longrightarrow> \<exists>t. ntop AF_INET6 bs 64 = Some t \<and> length t < 46"
  unfolding ntop_contract_def by simp_all

definition sockaddr_wf :: "sockaddr \<Rightarrow> bool" where
  "sockaddr_wf a \<longleftrightarrow> length (sa_four a) = 4 \<and> length (sa_low a) = 8 \<and> length (sa_high a) = 8 \<and> length (sa_scope a) = 4"

lemma sockaddr_wf_sin6: "sockaddr_wf a \<Longrightarrow> length (sin6_addr a) = 16"
  by (simp add: sockaddr_wf_def sin6_addr_def)

lemma toIp_fits:
  assumes "ntop_contract ntop" "sockaddr_wf a"
  shows "\<exists>t. toIp dbg ntop '''' 64 a = Inr t \<and> length t \<le> 45"
proof (cases "sa_family a = AF_INET")
  case True
  then obtain t where "ntop AF_INET (sa_four a) 64 = Some t" "length t < 16"
    using assms ntop_contract_text(1) [of ntop "sa_four a"] by (auto simp: sockaddr_wf_def)
  then show ?thesis using True by (simp add: toIp_def cassert_holds)
next
  case no: False
  show ?thesis
  proof (cases "sa_family a = AF_INET6")
    case True
    then obtain t where "ntop AF_INET6 (sin6_addr a) 64 = Some t" "length t < 46"
      using assms ntop_contract_text(2) [of ntop "sin6_addr a"] sockaddr_wf_sin6 by auto
    then show ?thesis using True by (simp add: toIp_def cassert_holds)
  qed (use no in \<open>simp add: toIp_def\<close>)
qed

lemma toIpPort_text:
  assumes "toIp dbg ntop buf 64 a = Inr t" "length t \<le> 45"
  shows "toIpPort dbg h ntop buf 64 a = Inr (t @ '':'' @ dec_nat (unat (netToHost16 h (sa_port a))))"
proof -
  have "length ('':'' @ dec_nat (unat (netToHost16 h (sa_port a)))) < szsub 64 (length t)"
    using length_port_text [of "netToHost16 h (sa_port a)"] assms(2) by (simp add: szsub_exact)
  then show ?thesis
    using assms by (simp add: toIpPort_def Let_def cassert_holds snprintf_fits)
qed

section \<open>Properties\<close>

text \<open>
  C33. An address made from a text and a port gives both back, in either family and on hosts of either byte
  order, whatever the memory held before: \<^verbatim>\<open>ip\<close> is the text, \<^verbatim>\<open>ipPort\<close> the text, a colon and the
  port in decimal. \<^verbatim>\<open>port\<close> gives the port back, but in a build with asserts it aborts for an IPv6 address.
  The hypotheses are those on \<^verbatim>\<open>inet_pton\<close> and \<^verbatim>\<open>inet_ntop\<close> at this text: one inverts the other.
\<close>

theorem InetAddress_roundtrip:
  assumes "pton (if six then AF_INET6 else AF_INET) ip = Some bs"
    and "ntop (if six then AF_INET6 else AF_INET) bs 64 = Some ip"
    and "length ip < (if six then INET6_ADDRSTRLEN else INET_ADDRSTRLEN)"
  shows "let a = InetAddress_ofIp h pton junk ip port six in
    sa_family a = (if six then AF_INET6 else AF_INET) \<and> InetAddress_ip dbg ntop a = Inr ip \<and>
    (\<exists>digits. InetAddress_ipPort dbg h ntop a = Inr (ip @ '':'' @ digits) \<and> dec_value digits = unat port) \<and>
    InetAddress_port dbg h a = (if dbg \<and> six then Inl AssertFail else Inr port)"
proof -
  define a where "a = InetAddress_ofIp h pton junk ip port six"
  have fam: "sa_family a = (if six then AF_INET6 else AF_INET)" and port: "sa_port a = hostToNet16 h port"
    using assms(1) by (simp_all add: a_def InetAddress_ofIp_def fromIpPort4_def fromIpPort6_def Let_def split: option.split)
  have bytes: "(if six then sin6_addr a else sa_four a) = bs"
    using assms(1) by (cases six) (simp_all add: a_def InetAddress_ofIp_def fromIpPort4_def fromIpPort6_def Let_def)
  have ip: "toIp dbg ntop '''' 64 a = Inr ip"
    using assms(2) fam bytes by (simp add: toIp_def cassert_holds split: if_splits)
  have "length ip \<le> 45" using assms(3) by (simp split: if_splits)
  from toIpPort_text [OF ip this] show ?thesis
    using fam ip port
    unfolding a_def [symmetric] Let_def
    by (auto simp: InetAddress_ip_def InetAddress_ipPort_def InetAddress_port_def cassert_def)
qed

definition home_pton :: pton where
  "home_pton fam s = (if fam = AF_INET \<and> s = ''127.0.0.1'' then Some [127, 0, 0, 1] else None)"

definition home_ntop :: ntop where
  "home_ntop fam bs n = (if n \<le> 9 then None else Some (if bs = [127, 0, 0, 1] then ''127.0.0.1'' else ''1.2.3.4''))"

theorem InetAddress_roundtrip_witness:
  "InetAddress_ip True home_ntop (InetAddress_ofIp Little home_pton zero_in6 ''127.0.0.1'' 8080 False) = Inr ''127.0.0.1'' \<and>
   InetAddress_port True Little (InetAddress_ofIp Little home_pton zero_in6 ''127.0.0.1'' 8080 False) = Inr 8080"
  using InetAddress_roundtrip [where pton = home_pton and ntop = home_ntop and six = False and ip = "''127.0.0.1''"
      and bs = "[127, 0, 0, 1]" and h = Little and junk = zero_in6 and port = 8080 and dbg = True]
  by (simp add: home_pton_def home_ntop_def Let_def)

text \<open>
  C34. No address overflows the 64 bytes of the arrays in which its text is made: under the contract of
  \<^verbatim>\<open>inet_ntop\<close>, \<^verbatim>\<open>ip\<close> and \<^verbatim>\<open>ipPort\<close> of an address of any family return with all asserts
  satisfied, the text leaves room for the terminator, and the port is printed in full after the last colon.
\<close>

theorem InetAddress_text_fits:
  assumes "ntop_contract ntop" "sockaddr_wf a"
  shows "returns (InetAddress_ip dbg ntop a) (\<lambda>ip. length ip \<le> 45 \<and>
    returns (InetAddress_ipPort dbg h ntop a) (\<lambda>s. length s \<le> 51 \<and>
      s = ip @ '':'' @ dec_nat (unat (netToHost16 h (sa_port a)))))"
proof -
  obtain t where t: "toIp dbg ntop '''' 64 a = Inr t" "length t \<le> 45" using toIp_fits [OF assms] by blast
  then show ?thesis
    using toIpPort_text [OF t, of h] length_port_text [of "netToHost16 h (sa_port a)"]
    by (simp add: InetAddress_ip_def InetAddress_ipPort_def)
qed

theorem InetAddress_text_fits_witness:
  "returns (InetAddress_ipPort True Big home_ntop (InetAddress_new Big zero_in6 80 True False)) (\<lambda>s. length s \<le> 51)"
proof -
  have "ntop_contract home_ntop" by (simp add: ntop_contract_def home_ntop_def)
  moreover have "sockaddr_wf (InetAddress_new Big zero_in6 80 True False)"
    by (simp add: sockaddr_wf_def InetAddress_new_def bzero_in_def zero_in6_def sin6_addr_def)
  ultimately show ?thesis
    using InetAddress_text_fits [where ntop = home_ntop and dbg = True and h = Big
        and a = "InetAddress_new Big zero_in6 80 True False"] by (auto simp: returns_iff)
qed

text \<open>
  A text that \<^verbatim>\<open>inet_pton\<close> refuses does not make an error: the constructor logs it and leaves the
  wildcard address with the port, the very address of \<^verbatim>\<open>InetAddress(port)\<close>, so a server given a
  mistyped address listens on every interface.
\<close>

theorem InetAddress_bad_ip_is_any:
  assumes "pton (if six then AF_INET6 else AF_INET) ip = None"
  shows "InetAddress_ofIp h pton junk ip port six = InetAddress_new h junk port False six"
proof -
  have any: "mem_bytes h 4 (hostToNet32 h 0) = zero_bytes 4"
    unfolding byte_order_defs by (subst mem_bytes_hton) (simp_all add: be_bytes_def zero_bytes_def numeral_eq_Suc)
  have "take 8 (zero_bytes 16) = zero_bytes 8" "drop 8 (zero_bytes 16) = zero_bytes 8"
    by (simp_all add: zero_bytes_def)
  then show ?thesis
    using assms any
    by (cases six) (simp_all add: InetAddress_ofIp_def InetAddress_new_def fromIpPort4_def fromIpPort6_def Let_def set_sin6_addr_def
        zero_in6_def bzero_in_def in6addr_any_def kInaddrAny_def)
qed

theorem InetAddress_bad_ip_is_any_witness:
  "InetAddress_ofIp Little home_pton zero_in6 ''127.0.0.l'' 8080 False = InetAddress_new Little zero_in6 8080 False False"
  using InetAddress_bad_ip_is_any [where pton = home_pton and six = False and ip = "''127.0.0.l''"
      and h = Little and junk = zero_in6 and port = 8080]
  by (simp add: home_pton_def)

lemma four_bytes_back: "length bs = 4 \<Longrightarrow> mem_bytes h 4 (of_mem_bytes h bs :: 32 word) = bs"
  using le_of_le_bytes [of bs, where ?'a = 32] le_of_le_bytes [of "rev bs", where ?'a = 32]
  by (cases h) (simp_all add: mem_bytes_def of_mem_bytes_def)

text \<open>What \<^verbatim>\<open>inet_pton\<close> is documented to store.\<close>

definition pton_contract :: "pton \<Rightarrow> bool" where
  "pton_contract pton \<longleftrightarrow> (\<forall>t bs. (pton AF_INET t = Some bs \<longrightarrow> length bs = 4) \<and> (pton AF_INET6 t = Some bs \<longrightarrow> length bs = 16))"

text \<open>
  The addresses a program can make: by the constructors, in memory that held anything, by \<^verbatim>\<open>resolve\<close>, and
  from the system's calls, successful or not, which store whole addresses.
\<close>

inductive address_made for h pton where
  new: "sockaddr_wf junk \<Longrightarrow> address_made h pton (InetAddress_new h junk port loopbackOnly six)"
| ofIp: "sockaddr_wf junk \<Longrightarrow> address_made h pton (InetAddress_ofIp h pton junk ip port six)"
| resolved: "address_made h pton a \<Longrightarrow> InetAddress_resolve dbg ret he (Some a) = Inr (found, Some a') \<Longrightarrow> address_made h pton a'"
| stored: "sockaddr_wf a \<Longrightarrow> sa_family a \<in> {0, AF_INET, AF_INET6} \<Longrightarrow> address_made h pton (getPeerAddr (Some a))"
| unknown: "address_made h pton (getPeerAddr None)"

lemma sockaddr_wf_upd [simp]:
  "sockaddr_wf (a\<lparr>sa_port := p\<rparr>) = sockaddr_wf a" "sockaddr_wf (a\<lparr>sa_family := f\<rparr>) = sockaddr_wf a"
  by (simp_all add: sockaddr_wf_def)

lemma wf_pieces:
  "sockaddr_wf zero_in6" "sockaddr_wf junk \<Longrightarrow> sockaddr_wf (bzero_in junk)"
  "sockaddr_wf a \<Longrightarrow> length bs = 4 \<Longrightarrow> sockaddr_wf (a\<lparr>sa_four := bs\<rparr>)"
  "sockaddr_wf a \<Longrightarrow> length bs = 16 \<Longrightarrow> sockaddr_wf (set_sin6_addr bs a)"
  by (simp_all add: sockaddr_wf_def zero_in6_def bzero_in_def set_sin6_addr_def)



end
