(* ===== verification/Acceptor.thy ===== *)
theory Acceptor
  imports Registry Sockets
begin

text \<open>
  The sockets of socket.h and socket.cc as far as a listening socket uses them, and the acceptor of acceptor.h
  and acceptor.cc. The loop's channel operations, what the system calls return and what the callback does are
  parameters; socket options and log output are left out.
\<close>

section \<open>Socket\<close>

text \<open>\<open>bind family addr\<close> is what \<^verbatim>\<open>bind\<close> returns for a new socket of that family.\<close>

type_synonym bind_call = "16 word \<Rightarrow> sockaddr \<Rightarrow> int"

definition Socket_bindAddress :: "bind_call \<Rightarrow> 16 word \<Rightarrow> sockaddr \<Rightarrow> unit res" where
  "Socket_bindAddress bind family addr = bindOrDie (bind family addr)"

definition Socket_listen :: "int \<Rightarrow> unit res" where
  "Socket_listen ret = listenOrDie ret"

definition Socket_accept :: "accept_result \<Rightarrow> sockaddr \<Rightarrow> (int \<times> sockaddr) res" where
  "Socket_accept r peeraddr =
     bindR (sockets_accept r zero_in6) (\<lambda>(connfd, addr, errno).
       Inr (connfd, if 0 \<le> connfd then addr else peeraddr))"

section \<open>Acceptor\<close>

datatype acceptor_handler = AcceptRead

text \<open>
  The members of the object (\<open>ac_\<close>) beside what it works on (\<open>aw_\<close>): whether the caller runs in the thread of
  the loop, the channels and the rest of the loop, the accepted sockets it has open, and those it has handed
  over with the address of the peer.
\<close>

record ('cb, 'w) Acceptor =
  ac_socket :: int
  ac_channel :: nat
  ac_newConnectionCallback :: "'cb option"
  ac_listenning :: bool
  aw_inLoop :: bool
  aw_loop :: "acceptor_handler store \<times> 'w"
  aw_open :: "int list"
  aw_delivered :: "(int \<times> sockaddr) list"

type_synonym ('cb, 'w) acceptor_user = "'cb \<Rightarrow> int \<Rightarrow> sockaddr \<Rightarrow> ('cb, 'w) Acceptor \<Rightarrow> ('cb, 'w) Acceptor res"

type_synonym 'w acceptor_op = "nat \<Rightarrow> acceptor_handler store \<times> 'w \<Rightarrow> (acceptor_handler store \<times> 'w) res"

text \<open>\<open>sockfd\<close> is what \<^verbatim>\<open>socket\<close> returned, \<open>c\<close> the address of the channel, a member of the object.\<close>

definition Acceptor_new ::
  "bind_call \<Rightarrow> nat \<Rightarrow> int \<Rightarrow> sockaddr \<Rightarrow> bool \<Rightarrow> acceptor_handler store \<times> 'w \<Rightarrow> ('cb, 'w) Acceptor res" where
  "Acceptor_new bind c sockfd listenAddr inLoop l =
     bindR (createNonblockingOrDie sockfd) (\<lambda>fd.
     bindR (Socket_bindAddress bind AF_INET listenAddr) (\<lambda>_.
       let ch = Channel_setReadCallback AcceptRead (Channel_new True fd) in
       Inr \<lparr>ac_socket = fd, ac_channel = c, ac_newConnectionCallback = None, ac_listenning = False,
            aw_inLoop = inLoop, aw_loop = ((fst l)(c \<mapsto> ch), snd l), aw_open = [], aw_delivered = []\<rparr>))"

definition Acceptor_setNewConnectionCallback :: "'cb \<Rightarrow> ('cb, 'w) Acceptor \<Rightarrow> ('cb, 'w) Acceptor" where
  "Acceptor_setNewConnectionCallback cb w = w\<lparr>ac_newConnectionCallback := Some cb\<rparr>"

definition acceptor_in_loop :: "('cb, 'w) Acceptor \<Rightarrow> 'a res \<Rightarrow> 'a res" where
  "acceptor_in_loop w k = (if aw_inLoop w then k else Inl FatalAbort)"

definition Acceptor_listen :: "bool \<Rightarrow> 'w acceptor_op \<Rightarrow> int \<Rightarrow> ('cb, 'w) Acceptor \<Rightarrow> ('cb, 'w) Acceptor res" where
  "Acceptor_listen dbg upd ret w =
     acceptor_in_loop w (let w1 = w\<lparr>ac_listenning := True\<rparr> in
       bindR (Socket_listen ret) (\<lambda>_.
       bindR (Channel_enableReading dbg upd (ac_channel w1) (aw_loop w1)) (\<lambda>l.
         Inr (w1\<lparr>aw_loop := l\<rparr>))))"

definition close_accepted :: "int \<Rightarrow> ('cb, 'w) Acceptor \<Rightarrow> ('cb, 'w) Acceptor" where
  "close_accepted connfd w = w\<lparr>aw_open := remove1 connfd (aw_open w)\<rparr>"

text \<open>\<open>peer0\<close> is the address the local variable has before the call.\<close>

definition Acceptor_handleRead ::
  "('cb, 'w) acceptor_user \<Rightarrow> sockaddr \<Rightarrow> accept_result \<Rightarrow> ('cb, 'w) Acceptor \<Rightarrow> ('cb, 'w) Acceptor res" where
  "Acceptor_handleRead user peer0 r w =
     acceptor_in_loop w (bindR (Socket_accept r peer0) (\<lambda>(connfd, peeraddr).
       if 0 \<le> connfd
       then let w1 = w\<lparr>aw_open := connfd # aw_open w\<rparr> in
            case ac_newConnectionCallback w1 of
              Some f \<Rightarrow> user f connfd peeraddr (w1\<lparr>aw_open := remove1 connfd (aw_open w1),
                                                   aw_delivered := aw_delivered w1 @ [(connfd, peeraddr)]\<rparr>)
            | None \<Rightarrow> Inr (close_accepted connfd w1)
       else Inr w))"

text \<open>The implicit destructor: the channel goes, then the socket is closed.\<close>

definition Acceptor_destroy :: "bool \<Rightarrow> ('cb, 'w) Acceptor \<Rightarrow> (acceptor_handler store \<times> 'w) res" where
  "Acceptor_destroy dbg w =
     (case fst (aw_loop w) (ac_channel w) of
        None \<Rightarrow> Inl BadPointer
      | Some ch \<Rightarrow> bindR (Channel_destroy dbg ch) (\<lambda>_.
          Inr ((fst (aw_loop w))(ac_channel w := None), snd (aw_loop w))))"

section \<open>Events\<close>

text \<open>
  The owner sets the callback and listens, the loop reports that the socket is readable, others use the loop.
\<close>

datatype ('cb, 'w) acceptor_event =
    SetCallback 'cb
  | Listen int
  | Readable sockaddr accept_result
  | OthersLoop "acceptor_handler store \<times> 'w"

fun acceptor_event_run ::
  "bool \<Rightarrow> 'w acceptor_op \<Rightarrow> ('cb, 'w) acceptor_user \<Rightarrow> ('cb, 'w) acceptor_event \<Rightarrow>
     ('cb, 'w) Acceptor \<Rightarrow> ('cb, 'w) Acceptor res" where
  "acceptor_event_run dbg upd user (SetCallback cb) w = Inr (Acceptor_setNewConnectionCallback cb w)"
| "acceptor_event_run dbg upd user (Listen ret) w = Acceptor_listen dbg upd ret w"
| "acceptor_event_run dbg upd user (Readable peer0 r) w = Acceptor_handleRead user peer0 r w"
| "acceptor_event_run dbg upd user (OthersLoop l) w = Inr (w\<lparr>aw_loop := l\<rparr>)"

text \<open>Others, and the callback, keep off the acceptor's channel and descriptor.\<close>

definition others_keep ::
  "(acceptor_handler store \<times> 'w \<Rightarrow> bool) \<Rightarrow> (acceptor_handler store \<times> 'w \<Rightarrow> nat \<Rightarrow> int \<Rightarrow> bool) \<Rightarrow>
     (acceptor_handler store \<times> 'w \<Rightarrow> nat \<Rightarrow> int \<Rightarrow> bool) \<Rightarrow> ('cb, 'w) Acceptor \<Rightarrow> acceptor_handler store \<times> 'w \<Rightarrow> bool" where
  "others_keep linv known fresh w l \<longleftrightarrow>
     linv l \<and> keeps_channel known (ac_channel w) (aw_loop w) l \<and>
     fresh l (ac_channel w) (ac_socket w) = fresh (aw_loop w) (ac_channel w) (ac_socket w)"

fun acceptor_possible ::
  "(acceptor_handler store \<times> 'w \<Rightarrow> bool) \<Rightarrow> (acceptor_handler store \<times> 'w \<Rightarrow> nat \<Rightarrow> int \<Rightarrow> bool) \<Rightarrow>
     (acceptor_handler store \<times> 'w \<Rightarrow> nat \<Rightarrow> int \<Rightarrow> bool) \<Rightarrow> ('cb, 'w) acceptor_event \<Rightarrow> ('cb, 'w) Acceptor \<Rightarrow> bool" where
  "acceptor_possible linv known fresh (Readable peer0 r) w \<longleftrightarrow>
     ac_listenning w \<and> (case r of AcceptOk connfd a \<Rightarrow> 0 \<le> connfd | AcceptErr e \<Rightarrow> True)"
| "acceptor_possible linv known fresh (OthersLoop l) w \<longleftrightarrow> others_keep linv known fresh w l"
| "acceptor_possible linv known fresh ev w \<longleftrightarrow> True"

definition acceptor_user_keeps ::
  "(acceptor_handler store \<times> 'w \<Rightarrow> bool) \<Rightarrow> (acceptor_handler store \<times> 'w \<Rightarrow> nat \<Rightarrow> int \<Rightarrow> bool) \<Rightarrow>
     (acceptor_handler store \<times> 'w \<Rightarrow> nat \<Rightarrow> int \<Rightarrow> bool) \<Rightarrow> ('cb, 'w) acceptor_user \<Rightarrow> bool" where
  "acceptor_user_keeps linv known fresh user \<longleftrightarrow>
     (\<forall>f connfd peer w. linv (aw_loop w) \<longrightarrow>
        returns (user f connfd peer w) (\<lambda>w'. \<exists>l. w' = w\<lparr>aw_loop := l\<rparr> \<and> others_keep linv known fresh w l))"

inductive acceptor_reach for dbg upd user linv known fresh w0 where
  start: "acceptor_reach dbg upd user linv known fresh w0 w0"
| step: "acceptor_reach dbg upd user linv known fresh w0 w \<Longrightarrow> acceptor_possible linv known fresh ev w \<Longrightarrow>
    acceptor_event_run dbg upd user ev w = Inr w' \<Longrightarrow> acceptor_reach dbg upd user linv known fresh w0 w'"

section \<open>Invariant\<close>

definition Acceptor_ok ::
  "(acceptor_handler store \<times> 'w \<Rightarrow> bool) \<Rightarrow> (acceptor_handler store \<times> 'w \<Rightarrow> nat \<Rightarrow> int \<Rightarrow> bool) \<Rightarrow>
     (acceptor_handler store \<times> 'w \<Rightarrow> nat \<Rightarrow> int \<Rightarrow> bool) \<Rightarrow> ('cb, 'w) Acceptor \<Rightarrow> bool" where
  "Acceptor_ok linv known fresh w \<longleftrightarrow>
     linv (aw_loop w) \<and> aw_inLoop w \<and> aw_open w = [] \<and>
     (if ac_listenning w then known (aw_loop w) (ac_channel w) (ac_socket w)
      else fresh (aw_loop w) (ac_channel w) (ac_socket w)) \<and>
     (\<exists>ch. fst (aw_loop w) (ac_channel w) = Some ch \<and> ch_loop ch \<and>
        ch_interestedEvents ch = (if ac_listenning w then 3 else 0))"

text \<open>The error numbers after which the acceptor goes on.\<close>

definition transient_accept_errors :: "int set" where
  "transient_accept_errors = {EAGAIN, ECONNABORTED, EINTR, EPROTO, EPERM, EMFILE}"

lemma Socket_accept_simps:
  "Socket_accept (AcceptOk connfd a) p = Inr (connfd, if 0 \<le> connfd then a else p)"
  "Socket_accept (AcceptErr e) p = (if e \<in> transient_accept_errors then Inr (- 1, p) else Inl FatalAbort)"
  by (simp_all add: Socket_accept_def sockets_accept_def transient_accept_errors_def)

locale acceptor_loop = channel_owner inv watched known fresh update remove vacant
  for inv :: "acceptor_handler store \<times> 'w \<Rightarrow> bool" and watched :: "acceptor_handler store \<times> 'w \<Rightarrow> int \<Rightarrow> (int \<times> nat) option"
    and known :: "acceptor_handler store \<times> 'w \<Rightarrow> nat \<Rightarrow> int \<Rightarrow> bool" and fresh :: "acceptor_handler store \<times> 'w \<Rightarrow> nat \<Rightarrow> int \<Rightarrow> bool"
    and update :: "'w acceptor_op" and remove :: "'w acceptor_op"
    and vacant :: "acceptor_handler store \<times> 'w \<Rightarrow> nat \<Rightarrow> int \<Rightarrow> bool"
begin

abbreviation "ok \<equiv> Acceptor_ok inv known fresh"

lemma new_ok:
  assumes "inv l" "vacant l c sockfd" "Acceptor_new bind c sockfd addr True l = Inr w"
  shows "ok w"
  using assms(3) vacant_fd [OF assms(2)]
    create [OF assms(1, 2), of "Channel_setReadCallback AcceptRead (Channel_new True sockfd)"]
  by (auto simp: Acceptor_new_def Acceptor_ok_def createNonblockingOrDie_def Let_def Channel_new_def
      Channel_setReadCallback_def kNoneEvent_def)

lemma watched_ok:
  assumes "ok w" "ac_listenning w"
  shows "watched (aw_loop w) (ac_socket w) = Some (3, ac_channel w)"
  using assms watched_channel by (fastforce simp: Acceptor_ok_def)

lemma others_ok: "ok w \<Longrightarrow> others_keep inv known fresh w l \<Longrightarrow> ok (w\<lparr>aw_loop := l\<rparr>)"
  by (auto simp: Acceptor_ok_def others_keep_def keeps_channel_def dest!: same_channel_SomeD)

lemma listen_dies: "ok w \<Longrightarrow> ret < 0 \<Longrightarrow> Acceptor_listen dbg update ret w = Inl FatalAbort"
  by (simp add: Acceptor_listen_def acceptor_in_loop_def Acceptor_ok_def Socket_listen_def listenOrDie_def)

lemma listen_ok:
  assumes "ok w" "0 \<le> ret"
  shows "returns (Acceptor_listen dbg update ret w) (\<lambda>w'. ok w' \<and> (\<exists>l. w' = w\<lparr>ac_listenning := True, aw_loop := l\<rparr>))"
proof -
  obtain ch where ch: "fst (aw_loop w) (ac_channel w) = Some ch" "ch_loop ch"
      "ch_interestedEvents ch = (if ac_listenning w then 3 else 0)"
    using assms by (auto simp: Acceptor_ok_def)
  have "returns (Channel_enableReading dbg update (ac_channel w) (aw_loop w)) (\<lambda>s'. inv s' \<and>
      known s' (ac_channel w) (ac_socket w) \<and>
      (\<exists>ch'. fst s' (ac_channel w) = Some ch' \<and> ch_loop ch' \<and> ch_interestedEvents ch' = 3) \<and>
      watched s' = (watched (aw_loop w))(ac_socket w := if (3 :: int) = 0 then None else Some (3, ac_channel w)))"
    unfolding Channel_enableReading_def
    using assms ch by (intro setInterest_ok [of _ _ ch]) (auto simp: Acceptor_ok_def kReadEvent_def split: if_splits)
  then obtain l where l: "Channel_enableReading dbg update (ac_channel w) (aw_loop w) = Inr l" "inv l"
      "known l (ac_channel w) (ac_socket w)"
      "\<exists>ch'. fst l (ac_channel w) = Some ch' \<and> ch_loop ch' \<and> ch_interestedEvents ch' = 3"
    unfolding returns_iff by blast
  have "ok (w\<lparr>ac_listenning := True, aw_loop := l\<rparr>)"
    using assms l(2-4) by (simp add: Acceptor_ok_def)
  then show ?thesis
    using assms l(1)
    by (simp add: Acceptor_listen_def acceptor_in_loop_def Acceptor_ok_def Socket_listen_def listenOrDie_def Let_def
        del: split_paired_Ex) (rule exI, rule refl)
qed

lemma handleRead_err:
  "ok w \<Longrightarrow> Acceptor_handleRead user peer0 (AcceptErr e) w =
     (if e \<in> transient_accept_errors then Inr w else Inl FatalAbort)"
  by (simp add: Acceptor_handleRead_def acceptor_in_loop_def Acceptor_ok_def Socket_accept_simps)

lemma handleRead_ok:
  assumes ok: "ok w" and l: "ac_listenning w" and user: "acceptor_user_keeps inv known fresh user" and n: "0 \<le> connfd"
  shows "returns (Acceptor_handleRead user peer0 (AcceptOk connfd a) w) (\<lambda>w'. ok w' \<and> ac_listenning w' \<and>
     aw_delivered w' = aw_delivered w @ (if ac_newConnectionCallback w = None then [] else [(connfd, a)]))"
proof (cases "ac_newConnectionCallback w")
  case None
  then show ?thesis
    using ok l n
    by (simp add: Acceptor_handleRead_def acceptor_in_loop_def Acceptor_ok_def Socket_accept_simps close_accepted_def)
next
  case (Some f)
  define w1 where "w1 = w\<lparr>aw_open := [], aw_delivered := aw_delivered w @ [(connfd, a)]\<rparr>"
  have w1: "ok w1" "ac_listenning w1" "aw_delivered w1 = aw_delivered w @ [(connfd, a)]"
    using ok l by (simp_all add: w1_def Acceptor_ok_def)
  have run: "Acceptor_handleRead user peer0 (AcceptOk connfd a) w = user f connfd a w1"
    using ok n Some
    by (simp add: Acceptor_handleRead_def acceptor_in_loop_def Acceptor_ok_def Socket_accept_simps w1_def)
  have "inv (aw_loop w1)" using w1(1) by (simp add: Acceptor_ok_def)
  then have "returns (user f connfd a w1) (\<lambda>w'. \<exists>l. w' = w1\<lparr>aw_loop := l\<rparr> \<and> others_keep inv known fresh w1 l)"
    using user by (simp add: acceptor_user_keeps_def)
  then show ?thesis
    unfolding run using others_ok [OF w1(1)] w1(2, 3) Some by (auto simp: returns_iff)
qed

lemma event_ok:
  assumes "ok w" "acceptor_possible inv known fresh ev w" "acceptor_user_keeps inv known fresh user"
  shows "outcome {FatalAbort} (acceptor_event_run dbg update user ev w) ok"
proof (cases ev)
  case (SetCallback cb)
  then show ?thesis using assms(1) by (simp add: Acceptor_ok_def Acceptor_setNewConnectionCallback_def)
next
  case (Listen ret)
  then show ?thesis
    using listen_ok [OF assms(1), of ret dbg] listen_dies [OF assms(1), of ret dbg]
    by (cases "ret < 0") (auto simp: returns_iff)
next
  case (Readable p r)
  show ?thesis
  proof (cases r)
    case (AcceptErr e)
    then show ?thesis using Readable handleRead_err [OF assms(1), of user p] assms(1) by simp
  next
    case (AcceptOk connfd a)
    then show ?thesis
      using Readable handleRead_ok [OF assms(1) _ assms(3), of connfd p a] assms(2) by (auto simp: returns_iff)
  qed
next
  case (OthersLoop l)
  then show ?thesis using assms others_ok by simp
qed

lemma reach_ok:
  assumes "acceptor_reach dbg update user inv known fresh w0 w" "ok w0" "acceptor_user_keeps inv known fresh user"
  shows "ok w"
  using assms(1)
proof (induction rule: acceptor_reach.induct)
  case start
  show ?case by (rule assms(2))
next
  case (step w ev w')
  then show ?case using event_ok [OF step.IH step.hyps(2) assms(3), of dbg] by simp
qed

end

interpretation poller_acceptor: acceptor_loop Poller_inv Poller_watched Poller_known Poller_fresh
    "Poller_updateChannel False True" "Poller_removeChannel False True" Poller_vacant
  by unfold_locales

section \<open>Properties\<close>

abbreviation acceptor_states ::
  "bool \<Rightarrow> ('cb, Poller) acceptor_user \<Rightarrow> ('cb, Poller) Acceptor \<Rightarrow> ('cb, Poller) Acceptor \<Rightarrow> bool" where
  "acceptor_states dbg user w0 w \<equiv>
     acceptor_reach dbg (Poller_updateChannel False True) user Poller_inv Poller_known Poller_fresh w0 w"

text \<open>
  C17. An acceptor that listens is watched for reading in every state it can reach, whatever its owner and
  others did. Each connection accepted is handed to the callback once, with its peer's address, in the order
  accepted, or closed when there is no callback; the acceptor keeps none open. After a transient error nothing
  has changed, after any other the process is aborted.
\<close>

theorem Acceptor_accepts:
  assumes "Poller_inv l" "Poller_vacant l c sockfd" "Acceptor_new bind c sockfd addr True l = Inr w0"
    and "acceptor_user_keeps Poller_inv Poller_known Poller_fresh user"
    and "acceptor_states dbg user w0 w" "ac_listenning w"
  shows "Poller_watched (aw_loop w) (ac_socket w) = Some (3, ac_channel w) \<and> aw_open w = [] \<and>
    (\<forall>connfd \<ge> 0. \<forall>a. returns (Acceptor_handleRead user peer0 (AcceptOk connfd a) w) (\<lambda>w'.
       aw_delivered w' = aw_delivered w @ (if ac_newConnectionCallback w = None then [] else [(connfd, a)]) \<and>
       aw_open w' = [])) \<and>
    (\<forall>e. Acceptor_handleRead user peer0 (AcceptErr e) w =
       (if e \<in> {EAGAIN, ECONNABORTED, EINTR, EPROTO, EPERM, EMFILE} then Inr w else Inl FatalAbort))"
proof -
  have ok: "Acceptor_ok Poller_inv Poller_known Poller_fresh w"
    by (rule poller_acceptor.reach_ok [OF assms(5) poller_acceptor.new_ok [OF assms(1-3)] assms(4)])
  have "returns (Acceptor_handleRead user peer0 (AcceptOk connfd a) w) (\<lambda>w'.
       aw_delivered w' = aw_delivered w @ (if ac_newConnectionCallback w = None then [] else [(connfd, a)]) \<and>
       aw_open w' = [])" if "0 \<le> connfd" for connfd a
    by (rule returns_mono [OF poller_acceptor.handleRead_ok [OF ok assms(6, 4) that]]) (simp add: Acceptor_ok_def)
  then show ?thesis
    using poller_acceptor.handleRead_err [OF ok] poller_acceptor.watched_ok [OF ok assms(6)] ok
    by (simp add: transient_accept_errors_def Acceptor_ok_def)
qed

definition quiet_user :: "('cb, 'w) acceptor_user" where
  "quiet_user f connfd peer w = Inr w"

lemma quiet_user_keeps:
  fixes linv :: "acceptor_handler store \<times> 'w \<Rightarrow> bool"
  shows "acceptor_user_keeps linv known fresh (quiet_user :: ('cb, 'w) acceptor_user)"
proof -
  have "\<exists>l. w = w\<lparr>aw_loop := l\<rparr> \<and> others_keep linv known fresh w l" if "linv (aw_loop w)" for w :: "('cb, 'w) Acceptor"
    using that by (intro exI [of _ "aw_loop w"]) (simp add: others_keep_def)
  then show ?thesis by (simp add: acceptor_user_keeps_def quiet_user_def del: split_paired_Ex)
qed

text \<open>A first acceptor over an empty poller, and what it is when it listens.\<close>

lemma first_acceptor:
  obtains w0 :: "('cb, Poller) Acceptor" and w
  where "Acceptor_new (\<lambda>_ _. 0) 5 3 zero_in6 True (Map.empty, Poller_new) = Inr w0"
    "Acceptor_listen False (Poller_updateChannel False True) 0 w0 = Inr w" "ac_listenning w" "ac_socket w = 3" "ac_channel w = 5"
    "acceptor_states False quiet_user w0 w" "Acceptor_ok Poller_inv Poller_known Poller_fresh w"
proof -
  let ?l = "(Map.empty :: acceptor_handler store, Poller_new)"
  have l: "Poller_inv ?l" "Poller_vacant ?l 5 3"
    by (simp_all add: Poller_inv_def Poller_new_def Poller_vacant_def)
  obtain w0 where w0: "Acceptor_new (\<lambda>_ _. 0) 5 3 zero_in6 True ?l = Inr (w0 :: ('cb, Poller) Acceptor)"
      "ac_socket w0 = 3" "ac_channel w0 = 5"
    by (auto simp: Acceptor_new_def createNonblockingOrDie_def Socket_bindAddress_def bindOrDie_def Let_def)
  obtain w where w: "Acceptor_listen False (Poller_updateChannel False True) 0 w0 = Inr w" "ac_listenning w"
      "ac_socket w = 3" "ac_channel w = 5" "Acceptor_ok Poller_inv Poller_known Poller_fresh w"
    using poller_acceptor.listen_ok [OF poller_acceptor.new_ok [OF l w0(1)], of 0 False] w0(2, 3)
    by (auto simp: returns_iff)
  have "acceptor_states False quiet_user w0 w"
    by (rule acceptor_reach.step [OF acceptor_reach.start, where ev = "Listen 0"]) (simp_all add: w(1))
  with w0(1) w show ?thesis by (intro that)
qed

theorem Acceptor_accepts_witness:
  "\<exists>w. Acceptor_handleRead quiet_user zero_in6 (AcceptErr EMFILE) w = Inr w \<and>
     Poller_watched (aw_loop w) 3 = Some (3, ac_channel (w :: (unit, Poller) Acceptor))"
proof -
  obtain w0 w where w: "Acceptor_new (\<lambda>_ _. 0) 5 3 zero_in6 True (Map.empty, Poller_new) = Inr (w0 :: (unit, Poller) Acceptor)"
    "ac_listenning w" "ac_socket w = 3" "acceptor_states False quiet_user w0 w"
    by (rule first_acceptor)
  have l: "Poller_inv (Map.empty, Poller_new)" "Poller_vacant (Map.empty, Poller_new) 5 3"
    by (simp_all add: Poller_inv_def Poller_new_def Poller_vacant_def)
  from Acceptor_accepts [OF l w(1) quiet_user_keeps w(4, 2), of zero_in6] w(3) show ?thesis
    by (intro exI [of _ w]) simp
qed

text \<open>The poller's loop at the first entry with an event whose channel is gone.\<close>

lemma Poller_fill_dangles:
  assumes "i < length fds" "\<forall>k < i. pfd_revents (fds ! k) = 0" "0 < pfd_revents (fds ! i)"
    "channels (pfd_fd (fds ! i)) = Some c" "st c = None"
  shows "Poller_fill channels fds (Suc n) st active = Inl BadPointer"
  using assms
proof (induction fds arbitrary: i)
  case (Cons p fds)
  show ?case
  proof (cases i)
    case 0
    then show ?thesis using Cons.prems by simp
  next
    case (Suc j)
    have "pfd_revents p = 0" using Cons.prems(2) Suc by (metis nth_Cons_0 zero_less_Suc)
    moreover have "\<forall>k < j. pfd_revents (fds ! k) = 0" using Cons.prems(2) Suc by (metis Suc_less_eq nth_Cons_Suc)
    ultimately show ?thesis using Cons.IH [of j] Cons.prems Suc by simp
  qed
qed simp

lemma Poller_poll_dangles:
  assumes "i < length (po_pollfds (snd s))" "po_channels (snd s) (pfd_fd (po_pollfds (snd s) ! i)) = Some c" "fst s c = None"
  shows "Poller_poll (PollOk ((replicate (length (po_pollfds (snd s))) 0)[i := 1])) now s = Inl BadPointer"
proof -
  let ?n = "length (po_pollfds (snd s))" and ?revs = "(replicate (length (po_pollfds (snd s))) 0)[i := 1 :: int]"
  let ?fds = "map2 (\<lambda>p x. p\<lparr>pfd_revents := x\<rparr>) (po_pollfds (snd s)) ?revs"
  have "filter (\<lambda>x. x \<noteq> 0) ?revs = [1]"
    using assms(1) by (simp add: upd_conv_take_nth_drop)
  moreover have "Poller_fill (po_channels (snd s)) ?fds (Suc 0) (fst s) [] = Inl BadPointer"
    using assms by (intro Poller_fill_dangles [of i]) auto
  ultimately show ?thesis
    by (simp add: Poller_poll_def Let_def Poller_fillActiveChannels_def)
qed

text \<open>
  Nothing takes the channel of an acceptor out of the loop. When a listening acceptor is destroyed the
  poller keeps the address of the deleted channel and keeps watching its descriptor; a poll that reports an
  event of it follows the dangling pointer.
\<close>

theorem Acceptor_destroy_dangles:
  assumes "Poller_inv l" "Poller_vacant l c sockfd" "Acceptor_new bind c sockfd addr True l = Inr w0"
    and "acceptor_user_keeps Poller_inv Poller_known Poller_fresh user"
    and "acceptor_states dbg user w0 w" "ac_listenning w" "Acceptor_destroy dbg' w = Inr s"
  shows "fst s (ac_channel w) = None \<and> po_channels (snd s) (ac_socket w) = Some (ac_channel w) \<and>
    (\<exists>i < length (po_pollfds (snd s)). pfd_fd (po_pollfds (snd s) ! i) = ac_socket w \<and>
       Poller_poll (PollOk ((replicate (length (po_pollfds (snd s))) 0)[i := 1])) now s = Inl BadPointer)"
proof -
  have ok: "Acceptor_ok Poller_inv Poller_known Poller_fresh w"
    by (rule poller_acceptor.reach_ok [OF assms(5) poller_acceptor.new_ok [OF assms(1-3)] assms(4)])
  then have inv: "Poller_inv (aw_loop w)" and k: "po_channels (snd (aw_loop w)) (ac_socket w) = Some (ac_channel w)"
    using assms(6) by (simp_all add: Acceptor_ok_def Poller_known_def)
  obtain i ch where i: "i < length (po_pollfds (snd (aw_loop w)))"
      "pfd_owner (po_pollfds (snd (aw_loop w)) ! i) = ac_socket w" and ch: "fst (aw_loop w) (ac_channel w) = Some ch"
      and neg: "pfd_fd (po_pollfds (snd (aw_loop w)) ! i) < 0 \<longleftrightarrow> ch_interestedEvents ch = 0"
    by (rule Poller_entry [OF inv k])
  have "ch_interestedEvents ch = 3" using ok assms(6) ch by (simp add: Acceptor_ok_def)
  then have fd: "pfd_fd (po_pollfds (snd (aw_loop w)) ! i) = ac_socket w"
    using i(2) neg by (simp add: pfd_owner_def)
  have s: "s = ((fst (aw_loop w))(ac_channel w := None), snd (aw_loop w))"
    using assms(7) by (auto simp: Acceptor_destroy_def split: option.splits)
  then have s: "fst s (ac_channel w) = None" "snd s = snd (aw_loop w)" by simp_all
  have "Poller_poll (PollOk ((replicate (length (po_pollfds (snd s))) 0)[i := 1])) now s = Inl BadPointer"
    by (rule Poller_poll_dangles [where c = "ac_channel w"]) (use i(1) fd k s in simp_all)
  then show ?thesis
    using i(1) fd k s by (intro conjI exI [of _ i]) simp_all
qed

theorem Acceptor_destroy_dangles_witness:
  "\<exists>s. Poller_poll (PollOk ((replicate (length (po_pollfds (snd s))) 0)[0 := 1])) Timestamp_default s = Inl BadPointer \<and>
     (\<exists>w :: (unit, Poller) Acceptor. Acceptor_destroy True w = Inr s)"
proof -
  obtain w0 w where w: "Acceptor_new (\<lambda>_ _. 0) 5 3 zero_in6 True (Map.empty, Poller_new) = Inr (w0 :: (unit, Poller) Acceptor)"
    "Acceptor_listen False (Poller_updateChannel False True) 0 w0 = Inr w"
    "ac_listenning w" "ac_socket w = 3" "ac_channel w = 5" "acceptor_states False quiet_user w0 w"
    by (rule first_acceptor)
  have l: "Poller_inv (Map.empty, Poller_new)" "Poller_vacant (Map.empty, Poller_new) 5 3"
    by (simp_all add: Poller_inv_def Poller_new_def Poller_vacant_def)
  have one: "length (po_pollfds (snd (aw_loop w))) = 1" "\<exists>ch. fst (aw_loop w) 5 = Some ch \<and> \<not> ch_eventHanding ch"
    using w(1, 2)
    by (auto simp: Acceptor_new_def Acceptor_listen_def acceptor_in_loop_def createNonblockingOrDie_def Socket_bindAddress_def
        bindOrDie_def Socket_listen_def listenOrDie_def Let_def Channel_enableReading_def Channel_setInterest_def
        Channel_update_def Poller_updateChannel_def Channel_new_def Channel_setReadCallback_def Poller_new_def)
  then obtain s where s: "Acceptor_destroy True w = Inr s" "length (po_pollfds (snd s)) = 1"
    using w(5) by (auto simp: Acceptor_destroy_def Channel_destroy_def)
  from Acceptor_destroy_dangles [OF l w(1) quiet_user_keeps w(6, 3) s(1), of Timestamp_default]
  show ?thesis using s by (intro exI [of _ s] conjI exI [of _ w]) simp_all
qed

text \<open>
  The acceptor makes an IPv4 socket whatever the address it is to listen on. When \<^verbatim>\<open>bind\<close> refuses
  an address of another family, as it is documented to, no acceptor for an IPv6 address can be made: the
  process is aborted.
\<close>

theorem Acceptor_ipv6_aborts:
  assumes "\<forall>family a. sa_family a \<noteq> family \<longrightarrow> bind family a < 0"
  shows "(Acceptor_new bind c sockfd (InetAddress_new h junk port loopbackOnly True) inLoop l :: ('cb, 'w) Acceptor res) =
    Inl FatalAbort"
proof -
  have "sa_family (InetAddress_new h junk port loopbackOnly True) = AF_INET6"
    by (simp add: InetAddress_new_def)
  then have "bind AF_INET (InetAddress_new h junk port loopbackOnly True) < 0" using assms by simp
  then show ?thesis
    by (simp add: Acceptor_new_def createNonblockingOrDie_def Socket_bindAddress_def bindOrDie_def)
qed

theorem Acceptor_ipv6_aborts_witness:
  "(Acceptor_new (\<lambda>family a. if sa_family a = family then 0 else - 1) 5 3 (InetAddress_new Little zero_in6 80 False True) True
     (Map.empty, Poller_new) :: (unit, Poller) Acceptor res) = Inl FatalAbort"
  by (rule Acceptor_ipv6_aborts) simp

end
