(* ===== verification/Epoll_Clients.thy ===== *)
theory Epoll_Clients
  imports EPollPoller Connector TcpConnection Acceptor
begin

text \<open>
  Connections, connectors and acceptors over the epoll demultiplexer: their contracts with the loop are met by
  it as by Poller, in builds with asserts too.
\<close>

interpretation epoll_tcp: tcp_loop EPoll_inv EPoll_watched EPoll_known EPoll_fresh
    "EPollPoller_updateChannel dbg True" "EPollPoller_removeChannel dbg True" for dbg
  by unfold_locales

interpretation epoll_connector: connector_loop EPoll_inv EPoll_watched EPoll_known EPoll_fresh
    "EPollPoller_updateChannel dbg True" "EPollPoller_removeChannel dbg True" EPoll_vacant for dbg
  by unfold_locales

interpretation epoll_acceptor: acceptor_loop EPoll_inv EPoll_watched EPoll_known EPoll_fresh
    "EPollPoller_updateChannel dbg True" "EPollPoller_removeChannel dbg True" EPoll_vacant for dbg
  by unfold_locales

abbreviation epoll_connector_states ::
  "bool \<Rightarrow> ('cb \<Rightarrow> int \<Rightarrow> bool) \<Rightarrow> 'cb \<Rightarrow> connector_handler epoll_reactor \<Rightarrow> ('cb, EPollPoller) Connector \<Rightarrow> bool" where
  "epoll_connector_states dbg stops cb l \<equiv>
     connector_reach dbg (EPollPoller_updateChannel dbg True) (EPollPoller_removeChannel dbg True) stops EPoll_inv EPoll_known
       EPoll_vacant (Connector_setNewConnectionCallback cb (Connector_new True l))"

text \<open>
  Over an epoll demultiplexer whose loop pointer is set, a connector with a careful owner runs without a
  fault in builds with asserts, those of the demultiplexer included (which Poller's are not): every event
  returns, the one socket it has open is the one under way, and epoll watches it for writing.
\<close>

theorem Connector_safe_over_epoll:
  assumes "EPoll_inv l" "epoll_connector_states dbg stops cb l w" "connector_possible EPoll_inv EPoll_known EPoll_vacant ev w"
  shows "returns (connector_event_run dbg (EPollPoller_updateChannel dbg True) (EPollPoller_removeChannel dbg True) stops ev w) (\<lambda>w'.
     if cn_state w' = ConnectorState.kConnecting
     then \<exists>c fd. cn_channel w' = Some c \<and> cw_open w' = [fd] \<and> EPoll_watched (cw_loop w') fd = Some (4, c)
     else cw_open w' = [])"
proof -
  have "Connector_ok EPoll_inv EPoll_known w"
    by (rule epoll_connector.reach_ok [OF assms(2) Connector_start_ok [where linv = EPoll_inv, OF assms(1)]])
  from epoll_connector.event_ok [OF this assms(3)] show ?thesis
    by (rule returns_mono) (use epoll_connector.ok_facts(1, 2) in auto)
qed

theorem Connector_safe_over_epoll_witness:
  "\<exists>w'. connector_event_run True (EPollPoller_updateChannel True True) (EPollPoller_removeChannel True True) (\<lambda>_ _. True) (Start 7 5 EINPROGRESS)
     (Connector_setNewConnectionCallback () (Connector_new True (\<lambda>_. None, epoll_empty))) = Inr w'"
proof -
  let ?w = "Connector_setNewConnectionCallback () (Connector_new True (\<lambda>_. None, epoll_empty))"
  have inv: "EPoll_inv (\<lambda>_. None, epoll_empty)" by (simp add: EPoll_inv_def epoll_empty_def)
  have reach: "epoll_connector_states True (\<lambda>_ _. True) () (\<lambda>_. None, epoll_empty) ?w" by (rule connector_reach.start)
  have "connector_possible EPoll_inv EPoll_known EPoll_vacant (Start 7 5 EINPROGRESS) ?w"
    by (simp add: Connector_new_def Connector_setNewConnectionCallback_def starts_def EPoll_vacant_def epoll_empty_def)
  from Connector_safe_over_epoll [OF inv reach this] show ?thesis by (auto simp: returns_iff)
qed

end
