(* ===== verification/Logger.thy ===== *)
theory Logger
  imports LogStream Timestamp Timezone
begin

text \<open>
  The logger of logger.h and logger.cc, with the thread's number of currentthread.h and thread.cc: the level
  filter, the cached text of the second, the layout of a message and what its end does. The clock, the kernel's
  thread numbers and the texts of \<^verbatim>\<open>strerror_r\<close> are parameters; the output callback is a record of what it was
  given.
\<close>

section \<open>Levels\<close>

datatype LogLevel = TRACE | DEBUG | INFO | WARN | ERROR | FATAL

fun level_number :: "LogLevel \<Rightarrow> nat" where
  "level_number TRACE = 0"
| "level_number DEBUG = 1"
| "level_number INFO = 2"
| "level_number WARN = 3"
| "level_number ERROR = 4"
| "level_number FATAL = 5"

lemma level_number_inject: "level_number x = level_number y \<longleftrightarrow> x = y"
  by (cases x; cases y) simp_all

instantiation LogLevel :: linorder
begin

definition less_eq_LogLevel :: "LogLevel \<Rightarrow> LogLevel \<Rightarrow> bool" where
  "less_eq_LogLevel x y \<longleftrightarrow> level_number x \<le> level_number y"

definition less_LogLevel :: "LogLevel \<Rightarrow> LogLevel \<Rightarrow> bool" where
  "less_LogLevel x y \<longleftrightarrow> level_number x < level_number y"

instance
  by standard (auto simp: less_eq_LogLevel_def less_LogLevel_def level_number_inject)

end

definition LogLevelNames :: "LogLevel \<Rightarrow> string" where
  "LogLevelNames level =
     (case level of TRACE \<Rightarrow> ''TRACE '' | DEBUG \<Rightarrow> ''DEBUG '' | INFO \<Rightarrow> ''INFO  '' | WARN \<Rightarrow> ''WARN  ''
      | ERROR \<Rightarrow> ''ERROR '' | FATAL \<Rightarrow> ''FATAL '')"

text \<open>The two environment variables.\<close>

definition initLogLevel :: "bool \<Rightarrow> bool \<Rightarrow> LogLevel" where
  "initLogLevel trace_set debug_set = (if trace_set then TRACE else if debug_set then DEBUG else INFO)"

section \<open>State\<close>

text \<open>
  The globals and the thread's variables: level, zone, the 32 bytes of \<^verbatim>\<open>t_time\<close>, the second they stand for,
  the text in \<^verbatim>\<open>t_errnobuf\<close>, the cached thread number and its text, what was put out and how often flushed.
\<close>

record Log =
  lg_level :: LogLevel
  lg_timezone :: TimeZone
  lg_time :: string
  lg_lastSecond :: int
  lg_errnobuf :: string
  lg_cachedTid :: int
  lg_tidString :: string
  lg_tidStringLength :: nat
  lg_out :: "string list"
  lg_flushes :: nat

definition c_str :: "string \<Rightarrow> string" where
  "c_str arr = takeWhile (\<lambda>c. c \<noteq> CHR 0x00) arr"

definition Logger_setTimeZone :: "TimeZone \<Rightarrow> Log \<Rightarrow> Log" where
  "Logger_setTimeZone tz lg = lg\<lparr>lg_timezone := tz\<rparr>"

definition Logger_setLogLevel :: "LogLevel \<Rightarrow> Log \<Rightarrow> Log" where
  "Logger_setLogLevel level lg = lg\<lparr>lg_level := level\<rparr>"

text \<open>\<open>gettid\<close> is the number the kernel gives. The array of 32 bytes is zero before.\<close>

definition currentThread_cacheTid :: "int \<Rightarrow> Log \<Rightarrow> Log" where
  "currentThread_cacheTid gettid lg =
     (if lg_cachedTid lg = 0
      then let text = fmt_d 5 gettid @ '' '' in
           lg\<lparr>lg_cachedTid := gettid, lg_tidString := snprintf 32 text @ [CHR 0x00], lg_tidStringLength := length text\<rparr>
      else lg)"

definition currentThread_tid :: "int \<Rightarrow> Log \<Rightarrow> Log" where
  "currentThread_tid gettid lg = (if lg_cachedTid lg = 0 then currentThread_cacheTid gettid lg else lg)"

text \<open>
  \<^verbatim>\<open>strerror_r\<close> may store a text or return one of its own and leave the array alone (\<open>None\<close>); its result is
  ignored.
\<close>

definition strerror_tl :: "(int \<Rightarrow> string option) \<Rightarrow> int \<Rightarrow> Log \<Rightarrow> string \<times> Log" where
  "strerror_tl strerror_r save_errno lg =
     (let lg' = (case strerror_r save_errno of None \<Rightarrow> lg | Some t \<Rightarrow> lg\<lparr>lg_errnobuf := snprintf 512 t\<rparr>)
      in (lg_errnobuf lg', lg'))"

section \<open>Messages\<close>

text \<open>The part of a path after the last slash, for literals and for C strings.\<close>

definition SourceFile :: "string \<Rightarrow> string" where
  "SourceFile path = rev (takeWhile (\<lambda>c. c \<noteq> CHR ''/'') (rev path))"

text \<open>
  A string of given length: \<open>arr\<close> is the array up to where it is initialised. The assert compares the length
  with that of the C string.
\<close>

definition StringHelper :: "bool \<Rightarrow> string \<Rightarrow> nat \<Rightarrow> insertion res" where
  "StringHelper dbg arr len =
     cassert dbg (length (c_str arr) = len)
       (if len \<le> length arr then Inr (InsString (take len arr)) else Inl OutOfBounds)"

definition time_text :: "tm \<Rightarrow> string" where
  "time_text tmt = fmt_d 4 (tm_year tmt + 1900) @ fmt_0d 2 (tm_mon tmt + 1) @ fmt_0d 2 (tm_mday tmt) @ '' '' @
     fmt_0d 2 (tm_hour tmt) @ '':'' @ fmt_0d 2 (tm_min tmt) @ '':'' @ fmt_0d 2 (tm_sec tmt)"

text \<open>\<^verbatim>\<open>snprintf\<close> into an array of 32 bytes.\<close>

definition store32 :: "string \<Rightarrow> string \<Rightarrow> string" where
  "store32 arr text = snprintf 32 text @ [CHR 0x00] @ drop (length (snprintf 32 text) + 1) arr"

definition Logger_localTime :: "bool \<Rightarrow> Log \<Rightarrow> int \<Rightarrow> tm res" where
  "Logger_localTime dbg lg seconds =
     (if TimeZone_valid (lg_timezone lg) then TimeZone_toLocalTime dbg (lg_timezone lg) seconds
      else Inr (gmtime_r seconds))"

definition Logger_formatTime :: "bool \<Rightarrow> Timestamp \<Rightarrow> LogStream \<Rightarrow> Log \<Rightarrow> (LogStream \<times> Log) res" where
  "Logger_formatTime dbg time s lg =
     (let microSecondsFromEpoch = ts_microSecondsFromEpoch time;
          seconds = to_int (microSecondsFromEpoch sdiv kMicroSecondsPerSecond);
          microseconds = to_int (microSecondsFromEpoch smod kMicroSecondsPerSecond)
      in bindR (if seconds \<noteq> lg_lastSecond lg
                then bindR (Logger_localTime dbg lg seconds) (\<lambda>tmt.
                       cassert dbg (length (time_text tmt) = 17)
                         (Inr (lg\<lparr>lg_lastSecond := seconds, lg_time := store32 (lg_time lg) (time_text tmt)\<rparr>)))
                else Inr lg) (\<lambda>lg'.
         let z = TimeZone_valid (lg_timezone lg');
             text = fmt_0d 6 microseconds @ (if z then '' '' else ''Z '');
             len = (if z then 8 else 9 :: nat)
         in bindR (Fmt_new dbg text) (\<lambda>us.
            cassert dbg (fmt_length us = len)
              (bindR (StringHelper dbg (lg_time lg') 17) (\<lambda>t.
               bindR (StringHelper dbg (fmt_buf us @ [CHR 0x00]) len) (\<lambda>u.
               bindR (LogStream_inserts dbg s [t, u]) (\<lambda>s'. Inr (s', lg'))))))))"

definition Logger_Impl ::
  "bool \<Rightarrow> (int \<Rightarrow> string option) \<Rightarrow> int \<Rightarrow> LogLevel \<Rightarrow> int \<Rightarrow> Timestamp \<Rightarrow> LogStream \<Rightarrow> Log \<Rightarrow> (LogStream \<times> Log) res" where
  "Logger_Impl dbg strerror_r gettid level savedErrno time s lg =
     bindR (Logger_formatTime dbg time s lg) (\<lambda>(s1, lg1).
       let lg2 = currentThread_tid gettid lg1 in
       bindR (StringHelper dbg (lg_tidString lg2) (lg_tidStringLength lg2)) (\<lambda>tid.
       bindR (StringHelper dbg (LogLevelNames level @ [CHR 0x00]) 6) (\<lambda>name.
       bindR (LogStream_inserts dbg s1 [tid, name]) (\<lambda>s2.
         if savedErrno \<noteq> 0
         then let (text, lg3) = strerror_tl strerror_r savedErrno lg2 in
              bindR (LogStream_inserts dbg s2 [InsCStr (Some text), InsCStr (Some '' (errno = ''), InsInt savedErrno,
                 InsCStr (Some '') '')]) (\<lambda>s3. Inr (s3, lg3))
         else Inr (s2, lg2)))))"

definition Logger_finish :: "bool \<Rightarrow> string \<Rightarrow> int \<Rightarrow> LogStream \<Rightarrow> LogStream res" where
  "Logger_finish dbg basename line s =
     LogStream_inserts dbg s [InsCStr (Some '' - ''), InsString basename, InsChar CHR '':'', InsInt line, InsChar CHR 0x0A]"

text \<open>The constructors: \<open>func\<close> for the two lowest levels, \<open>savedErrno\<close> for the errors of system calls.\<close>

definition Logger_new ::
  "bool \<Rightarrow> (int \<Rightarrow> string option) \<Rightarrow> int \<Rightarrow> LogLevel \<Rightarrow> int \<Rightarrow> string option \<Rightarrow> Timestamp \<Rightarrow> LogStream \<Rightarrow> Log \<Rightarrow>
     (LogStream \<times> Log) res" where
  "Logger_new dbg strerror_r gettid level savedErrno func time s lg =
     bindR (Logger_Impl dbg strerror_r gettid level savedErrno time s lg) (\<lambda>(s', lg').
       case func of
         None \<Rightarrow> Inr (s', lg')
       | Some f \<Rightarrow> bindR (LogStream_inserts dbg s' [InsCStr (Some f), InsChar CHR '' '']) (\<lambda>s''. Inr (s'', lg')))"

text \<open>The result says whether the destructor goes on to \<^verbatim>\<open>abort\<close>.\<close>

definition Logger_destroy :: "bool \<Rightarrow> LogLevel \<Rightarrow> string \<Rightarrow> int \<Rightarrow> LogStream \<Rightarrow> Log \<Rightarrow> (Log \<times> bool) res" where
  "Logger_destroy dbg level basename line s lg =
     bindR (Logger_finish dbg basename line s) (\<lambda>s'.
       let lg' = lg\<lparr>lg_out := lg_out lg @ [take (fb_cur (ls_buffer s')) (fb_buffer (ls_buffer s'))]\<rparr> in
       Inr (if level = FATAL then (lg'\<lparr>lg_flushes := lg_flushes lg' + 1\<rparr>, True) else (lg', False)))"

text \<open>
  A log statement: the temporary is made, the values are inserted, and it is destroyed. \<open>junk\<close> is what the
  memory of the stream held.
\<close>

record log_site =
  site_file :: string
  site_line :: int
  site_func :: string

datatype log_macro = LOG_TRACE | LOG_DEBUG | LOG_INFO | LOG_WARN | LOG_ERROR | LOG_FATAL | LOG_SYSERR | LOG_SYSFATAL

fun macro_level :: "log_macro \<Rightarrow> LogLevel" where
  "macro_level LOG_TRACE = TRACE"
| "macro_level LOG_DEBUG = DEBUG"
| "macro_level LOG_INFO = INFO"
| "macro_level LOG_WARN = WARN"
| "macro_level LOG_ERROR = ERROR"
| "macro_level LOG_FATAL = FATAL"
| "macro_level LOG_SYSERR = ERROR"
| "macro_level LOG_SYSFATAL = FATAL"

definition log_statement ::
  "bool \<Rightarrow> (int \<Rightarrow> string option) \<Rightarrow> int \<Rightarrow> (nat \<Rightarrow> char) \<Rightarrow> log_macro \<Rightarrow> log_site \<Rightarrow> int \<Rightarrow> Timestamp \<Rightarrow> insertion list \<Rightarrow> Log \<Rightarrow>
     (Log \<times> bool) res" where
  "log_statement dbg strerror_r gettid junk m site errno time body lg =
     (if m \<in> {LOG_TRACE, LOG_DEBUG, LOG_INFO} \<and> \<not> lg_level lg \<le> macro_level m then Inr (lg, False)
      else bindR (Logger_new dbg strerror_r gettid (macro_level m) (if m \<in> {LOG_SYSERR, LOG_SYSFATAL} then errno else 0)
                   (if m \<in> {LOG_TRACE, LOG_DEBUG} then Some (site_func site) else None) time (LogStream_new junk) lg) (\<lambda>(s, lg').
           bindR (LogStream_inserts dbg s body) (\<lambda>s'.
             Logger_destroy dbg (macro_level m) (SourceFile (site_file site)) (site_line site) s' lg')))"

section \<open>Lemmas\<close>

lemma LogStream_inserts_append:
  "LogStream_inserts dbg s (xs @ ys) = bindR (LogStream_inserts dbg s xs) (\<lambda>s'. LogStream_inserts dbg s' ys)"
  by (induction xs arbitrary: s) (simp_all add: bindR_assoc)

definition log_seconds :: "Timestamp \<Rightarrow> int" where
  "log_seconds time = to_int (ts_microSecondsFromEpoch time sdiv kMicroSecondsPerSecond)"

definition log_micros :: "Timestamp \<Rightarrow> int" where
  "log_micros time = to_int (ts_microSecondsFromEpoch time smod kMicroSecondsPerSecond)"

lemma log_micros_text:
  assumes "0 \<le> ts_microSecondsFromEpoch time"
  shows "length (fmt_0d 6 (log_micros time)) = 6"
proof -
  have "log_micros time = ts_microSecondsFromEpoch time mod 1000000"
    using assms by (simp add: log_micros_def to_int_def kMicroSecondsPerSecond_def smod_nonneg)
  then show ?thesis by (simp add: length_fmt_0d)
qed

text \<open>The part of \<^verbatim>\<open>formatTime\<close> after the cached text is up to date.\<close>

definition micros_text :: "Timestamp \<Rightarrow> Log \<Rightarrow> string" where
  "micros_text time lg = fmt_0d 6 (log_micros time) @ (if TimeZone_valid (lg_timezone lg) then '' '' else ''Z '')"

lemma length_micros_text:
  "0 \<le> ts_microSecondsFromEpoch time \<Longrightarrow>
   length (micros_text time lg) = (if TimeZone_valid (lg_timezone lg) then 7 else 8)"
  by (simp add: micros_text_def log_micros_text)

definition cached_time :: "bool \<Rightarrow> Timestamp \<Rightarrow> Log \<Rightarrow> Log res" where
  "cached_time dbg time lg =
     (if log_seconds time \<noteq> lg_lastSecond lg
      then bindR (Logger_localTime dbg lg (log_seconds time)) (\<lambda>tmt.
             cassert dbg (length (time_text tmt) = 17)
               (Inr (lg\<lparr>lg_lastSecond := log_seconds time, lg_time := store32 (lg_time lg) (time_text tmt)\<rparr>)))
      else Inr lg)"

lemma formatTime_eq:
  "Logger_formatTime dbg time s lg = bindR (cached_time dbg time lg) (\<lambda>lg'.
     let len = (if TimeZone_valid (lg_timezone lg') then 8 else 9) in
     bindR (Fmt_new dbg (micros_text time lg')) (\<lambda>us.
     cassert dbg (fmt_length us = len)
       (bindR (StringHelper dbg (lg_time lg') 17) (\<lambda>t.
        bindR (StringHelper dbg (fmt_buf us @ [CHR 0x00]) len) (\<lambda>u.
        bindR (LogStream_inserts dbg s [t, u]) (\<lambda>s'. Inr (s', lg')))))))"
  by (simp only: Logger_formatTime_def cached_time_def micros_text_def log_seconds_def log_micros_def Let_def)

lemma cached_time_zone: "cached_time dbg time lg = Inr lg' \<Longrightarrow> lg_timezone lg' = lg_timezone lg"
  by (auto simp: cached_time_def cassert_eq_Inr split: if_splits)

lemma formatTime_asserts:
  assumes "0 \<le> ts_microSecondsFromEpoch time" "Logger_localTime True lg (log_seconds time) = Inr tmt"
  shows "Logger_formatTime True time s lg = Inl AssertFail"
proof (cases "cached_time True time lg")
  case (Inl f)
  then have "f = AssertFail" using assms(2) by (auto simp: cached_time_def cassert_def split: if_splits)
  then show ?thesis by (simp add: formatTime_eq Inl)
next
  case (Inr lg')
  then show ?thesis
    using length_micros_text [OF assms(1), of lg']
    by (simp add: formatTime_eq Fmt_new_def Let_def)
qed

text \<open>A message, as the release build writes it.\<close>

definition tid_cached :: "int \<Rightarrow> Log \<Rightarrow> bool" where
  "tid_cached gettid lg \<longleftrightarrow> lg_cachedTid lg = 0 \<or>
     lg_tidString lg = fmt_d 5 gettid @ '' '' @ [CHR 0x00] \<and> lg_tidStringLength lg = length (fmt_d 5 gettid @ '' '')"

definition time_cached :: "Timestamp \<Rightarrow> tm \<Rightarrow> Log \<Rightarrow> bool" where
  "time_cached time tmt lg \<longleftrightarrow> length (lg_time lg) = 32 \<and>
     (lg_lastSecond lg = log_seconds time \<longrightarrow> take 17 (lg_time lg) = time_text tmt)"

definition error_text :: "(int \<Rightarrow> string option) \<Rightarrow> int \<Rightarrow> Log \<Rightarrow> string" where
  "error_text strerror_r errno lg = fst (strerror_tl strerror_r errno lg)"

definition emitted :: "log_macro \<Rightarrow> Log \<Rightarrow> bool" where
  "emitted m lg \<longleftrightarrow> m \<notin> {LOG_TRACE, LOG_DEBUG, LOG_INFO} \<or> lg_level lg \<le> macro_level m"

definition head_items :: "(int \<Rightarrow> string option) \<Rightarrow> int \<Rightarrow> LogLevel \<Rightarrow> int \<Rightarrow> Timestamp \<Rightarrow> tm \<Rightarrow> Log \<Rightarrow> insertion list" where
  "head_items strerror_r gettid level errno time tmt lg =
     [InsString (time_text tmt), InsString (micros_text time lg @ [CHR 0x00]), InsString (fmt_d 5 gettid @ '' ''),
      InsString (LogLevelNames level)] @
     (if errno \<noteq> 0 then [InsCStr (Some (error_text strerror_r errno lg)), InsCStr (Some '' (errno = ''), InsInt errno,
        InsCStr (Some '') '')] else [])"

definition tail_items :: "string \<Rightarrow> int \<Rightarrow> insertion list" where
  "tail_items basename line =
     [InsCStr (Some '' - ''), InsString basename, InsChar CHR '':'', InsInt line, InsChar CHR 0x0A]"

definition message_items ::
  "(int \<Rightarrow> string option) \<Rightarrow> int \<Rightarrow> log_macro \<Rightarrow> log_site \<Rightarrow> int \<Rightarrow> Timestamp \<Rightarrow> tm \<Rightarrow> insertion list \<Rightarrow> Log \<Rightarrow> insertion list" where
  "message_items strerror_r gettid m site errno time tmt body lg =
     head_items strerror_r gettid (macro_level m) (if m \<in> {LOG_SYSERR, LOG_SYSFATAL} then errno else 0) time tmt lg @
     (if m \<in> {LOG_TRACE, LOG_DEBUG} then [InsCStr (Some (site_func site)), InsChar CHR '' ''] else []) @
     body @ tail_items (SourceFile (site_file site)) (site_line site)"

lemma length_tid_text: "0 < g \<Longrightarrow> g < 2 ^ 31 \<Longrightarrow> length (fmt_d 5 g) \<le> 10"
proof -
  assume g: "0 < g" "g < 2 ^ 31"
  then have "length (dec_nat (nat g)) \<le> 10" by (intro length_dec_nat) (simp_all add: nat_less_iff)
  then show ?thesis using g by (simp add: fmt_d_def)
qed

lemma tid_cached_tid:
  assumes "tid_cached gettid lg" "0 < gettid" "gettid < 2 ^ 31"
  defines "lg' \<equiv> currentThread_tid gettid lg"
  shows "lg_tidString lg' = fmt_d 5 gettid @ '' '' @ [CHR 0x00]" "lg_tidStringLength lg' = length (fmt_d 5 gettid @ '' '')"
    "\<exists>c t n. lg' = lg\<lparr>lg_cachedTid := c, lg_tidString := t, lg_tidStringLength := n\<rparr>"
proof -
  have "length (fmt_d 5 gettid @ '' '') < 32" using length_tid_text [OF assms(2, 3)] by simp
  then show "lg_tidString lg' = fmt_d 5 gettid @ '' '' @ [CHR 0x00]" "lg_tidStringLength lg' = length (fmt_d 5 gettid @ '' '')"
    using assms(1, 2) by (auto simp: lg'_def currentThread_tid_def currentThread_cacheTid_def tid_cached_def Let_def snprintf_fits)
  show "\<exists>c t n. lg' = lg\<lparr>lg_cachedTid := c, lg_tidString := t, lg_tidStringLength := n\<rparr>"
  proof (cases "lg_cachedTid lg = 0")
    case False
    then have "lg' = lg\<lparr>lg_cachedTid := lg_cachedTid lg, lg_tidString := lg_tidString lg, lg_tidStringLength := lg_tidStringLength lg\<rparr>"
      by (simp add: lg'_def currentThread_tid_def)
    then show ?thesis by blast
  qed (auto simp: lg'_def currentThread_tid_def currentThread_cacheTid_def Let_def)
qed

lemma cached_time_ok:
  assumes "time_cached time tmt lg" "Logger_localTime False lg (log_seconds time) = Inr tmt" "length (time_text tmt) = 17"
  obtains t where "cached_time False time lg = Inr (lg\<lparr>lg_lastSecond := log_seconds time, lg_time := t\<rparr>)" "length t = 32"
    "take 17 t = time_text tmt"
proof (cases "log_seconds time = lg_lastSecond lg")
  case True
  then have "cached_time False time lg = Inr (lg\<lparr>lg_lastSecond := log_seconds time, lg_time := lg_time lg\<rparr>)"
    by (simp add: cached_time_def)
  then show ?thesis using assms(1) True by (intro that [of "lg_time lg"]) (simp_all add: time_cached_def)
next
  case False
  then show ?thesis
    using assms by (intro that [of "store32 (lg_time lg) (time_text tmt)"])
      (simp_all add: cached_time_def store32_def snprintf_fits time_cached_def)
qed

lemma formatTime_release:
  assumes "time_cached time tmt lg" "Logger_localTime False lg (log_seconds time) = Inr tmt" "length (time_text tmt) = 17"
    and "0 \<le> ts_microSecondsFromEpoch time"
  obtains lg' where "Logger_formatTime False time s lg =
      bindR (LogStream_inserts False s [InsString (time_text tmt), InsString (micros_text time lg @ [CHR 0x00])]) (\<lambda>s'. Inr (s', lg'))"
    "time_cached time tmt lg'" "lg_lastSecond lg' = log_seconds time" "\<exists>n t. lg' = lg\<lparr>lg_lastSecond := n, lg_time := t\<rparr>"
proof -
  obtain t where t: "cached_time False time lg = Inr (lg\<lparr>lg_lastSecond := log_seconds time, lg_time := t\<rparr>)" "length t = 32"
    "take 17 t = time_text tmt"
    by (rule cached_time_ok [OF assms(1-3)])
  define lg' where "lg' = lg\<lparr>lg_lastSecond := log_seconds time, lg_time := t\<rparr>"
  have zone: "micros_text time lg' = micros_text time lg" "TimeZone_valid (lg_timezone lg') = TimeZone_valid (lg_timezone lg)"
    by (simp_all add: lg'_def micros_text_def)
  have fmt: "Fmt_new False (micros_text time lg) = Inr \<lparr>fmt_buf = micros_text time lg, fmt_length = length (micros_text time lg)\<rparr>"
    using length_micros_text [OF assms(4), of lg] by (simp add: Fmt_new_def snprintf_fits)
  have "Logger_formatTime False time s lg =
      bindR (LogStream_inserts False s [InsString (time_text tmt), InsString (micros_text time lg @ [CHR 0x00])]) (\<lambda>s'. Inr (s', lg'))"
    using t length_micros_text [OF assms(4), of lg]
    unfolding formatTime_eq t(1) lg'_def [symmetric] bindR_simps zone fmt Let_def
    by (simp add: StringHelper_def lg'_def)
  then show ?thesis
    by (rule that) (use t in \<open>auto simp: lg'_def time_cached_def\<close>)
qed

lemma StringHelper_release: "len \<le> length arr \<Longrightarrow> StringHelper False arr len = Inr (InsString (take len arr))"
  by (simp add: StringHelper_def)

lemma LogLevelNames_length: "length (LogLevelNames level) = 6"
  by (cases level) (simp_all add: LogLevelNames_def)

lemma Impl_release:
  assumes "time_cached time tmt lg" "Logger_localTime False lg (log_seconds time) = Inr tmt" "length (time_text tmt) = 17"
    and "0 \<le> ts_microSecondsFromEpoch time" "tid_cached gettid lg" "0 < gettid" "gettid < 2 ^ 31"
  obtains lg' where "Logger_Impl False strerror_r gettid level errno time s lg =
      bindR (LogStream_inserts False s (head_items strerror_r gettid level errno time tmt lg)) (\<lambda>s'. Inr (s', lg'))"
    "time_cached time tmt lg'" "lg_lastSecond lg' = log_seconds time" "tid_cached gettid lg'"
    "lg_out lg' = lg_out lg" "lg_flushes lg' = lg_flushes lg" "lg_level lg' = lg_level lg" "lg_timezone lg' = lg_timezone lg"
proof -
  obtain lg1 where lg1: "Logger_formatTime False time s lg =
      bindR (LogStream_inserts False s [InsString (time_text tmt), InsString (micros_text time lg @ [CHR 0x00])]) (\<lambda>s'. Inr (s', lg1))"
    "time_cached time tmt lg1" "lg_lastSecond lg1 = log_seconds time" "\<exists>n t. lg1 = lg\<lparr>lg_lastSecond := n, lg_time := t\<rparr>"
    by (rule formatTime_release [OF assms(1-4)])
  then have tc: "tid_cached gettid lg1" using assms(5) by (auto simp: tid_cached_def)
  define lg2 where "lg2 = currentThread_tid gettid lg1"
  note tid = tid_cached_tid [OF tc assms(6, 7), folded lg2_def]
  define lg3 where "lg3 = (if errno \<noteq> 0 then snd (strerror_tl strerror_r errno lg2) else lg2)"
  have err: "error_text strerror_r errno lg2 = error_text strerror_r errno lg"
    using lg1(4) tid(3) by (auto simp: error_text_def strerror_tl_def Let_def split: option.split)
  have same: "lg_out lg2 = lg_out lg \<and> lg_flushes lg2 = lg_flushes lg \<and> lg_level lg2 = lg_level lg \<and>
      lg_timezone lg2 = lg_timezone lg \<and> time_cached time tmt lg2 \<and> lg_lastSecond lg2 = log_seconds time \<and> tid_cached gettid lg2"
    using lg1(2-4) tid by (auto simp: time_cached_def tid_cached_def)
  then have "lg_out lg3 = lg_out lg \<and> lg_flushes lg3 = lg_flushes lg \<and> lg_level lg3 = lg_level lg \<and>
      lg_timezone lg3 = lg_timezone lg \<and> time_cached time tmt lg3 \<and> lg_lastSecond lg3 = log_seconds time \<and> tid_cached gettid lg3"
    by (auto simp: lg3_def strerror_tl_def Let_def time_cached_def tid_cached_def split: option.split)
  moreover have "Logger_Impl False strerror_r gettid level errno time s lg =
      bindR (LogStream_inserts False s (head_items strerror_r gettid level errno time tmt lg)) (\<lambda>s'. Inr (s', lg3))"
  proof -
    have h: "StringHelper False (lg_tidString lg2) (lg_tidStringLength lg2) = Inr (InsString (fmt_d 5 gettid @ '' ''))"
      "StringHelper False (LogLevelNames level @ [CHR 0x00]) 6 = Inr (InsString (LogLevelNames level))"
      using LogLevelNames_length [of level] by (simp_all add: tid(1, 2) StringHelper_release)
    have sp: "strerror_tl strerror_r errno lg2 = (error_text strerror_r errno lg, snd (strerror_tl strerror_r errno lg2))"
      using err by (simp add: error_text_def prod_eq_iff)
    show ?thesis
    proof (cases "errno = 0")
      case True
      then show ?thesis
        unfolding Logger_Impl_def lg1(1) bindR_assoc Let_def bindR_simps prod.case lg2_def [symmetric] h head_items_def lg3_def
        by (simp add: bindR_assoc del: LogStream_inserts.simps(2)) (simp add: bindR_assoc)
    next
      case False
      then show ?thesis
        unfolding Logger_Impl_def lg1(1) bindR_assoc Let_def bindR_simps prod.case lg2_def [symmetric] h head_items_def lg3_def
        by (subst sp) (simp add: bindR_assoc)
    qed
  qed
  ultimately show ?thesis by (intro that [of lg3]) auto
qed

lemma statement_release:
  assumes "emitted m lg" "time_cached time tmt lg" "Logger_localTime False lg (log_seconds time) = Inr tmt"
    and "length (time_text tmt) = 17" "0 \<le> ts_microSecondsFromEpoch time" "tid_cached gettid lg" "0 < gettid" "gettid < 2 ^ 31"
  obtains lg' where "log_statement False strerror_r gettid junk m site errno time body lg =
      bindR (LogStream_inserts False (LogStream_new junk) (message_items strerror_r gettid m site errno time tmt body lg)) (\<lambda>s'.
        let lg'' = lg'\<lparr>lg_out := lg_out lg @ [take (fb_cur (ls_buffer s')) (fb_buffer (ls_buffer s'))]\<rparr> in
        Inr (if macro_level m = FATAL then (lg''\<lparr>lg_flushes := lg_flushes lg + 1\<rparr>, True) else (lg'', False)))"
    "time_cached time tmt lg'" "lg_lastSecond lg' = log_seconds time" "tid_cached gettid lg'"
    "lg_flushes lg' = lg_flushes lg" "lg_level lg' = lg_level lg" "lg_timezone lg' = lg_timezone lg"
proof -
  let ?e = "if m \<in> {LOG_SYSERR, LOG_SYSFATAL} then errno else 0"
  obtain lg' where lg': "Logger_Impl False strerror_r gettid (macro_level m) ?e time (LogStream_new junk) lg =
      bindR (LogStream_inserts False (LogStream_new junk) (head_items strerror_r gettid (macro_level m) ?e time tmt lg)) (\<lambda>s'. Inr (s', lg'))"
    "time_cached time tmt lg'" "lg_lastSecond lg' = log_seconds time" "tid_cached gettid lg'"
    "lg_out lg' = lg_out lg" "lg_flushes lg' = lg_flushes lg" "lg_level lg' = lg_level lg" "lg_timezone lg' = lg_timezone lg"
    by (rule Impl_release [OF assms(2-8)])
  have emit: "\<not> (m \<in> {LOG_TRACE, LOG_DEBUG, LOG_INFO} \<and> \<not> lg_level lg \<le> macro_level m)"
    using assms(1) by (auto simp: emitted_def)
  have "log_statement False strerror_r gettid junk m site errno time body lg =
      bindR (LogStream_inserts False (LogStream_new junk) (message_items strerror_r gettid m site errno time tmt body lg)) (\<lambda>s'.
        let lg'' = lg'\<lparr>lg_out := lg_out lg @ [take (fb_cur (ls_buffer s')) (fb_buffer (ls_buffer s'))]\<rparr> in
        Inr (if macro_level m = FATAL then (lg''\<lparr>lg_flushes := lg_flushes lg + 1\<rparr>, True) else (lg'', False)))"
    unfolding log_statement_def if_not_P [OF emit] Logger_new_def lg'(1) message_items_def LogStream_inserts_append
      Logger_destroy_def Logger_finish_def tail_items_def
    using lg'(5, 6)
    by (cases "m \<in> {LOG_TRACE, LOG_DEBUG}")
      (simp_all add: bindR_assoc Let_def del: LogStream_inserts.simps(2) cong: bindR_cong if_cong)
  then show ?thesis by (rule that) (use lg' in auto)
qed

section \<open>UTC\<close>

text \<open>Up to the last second of an \<^verbatim>\<open>int\<close> the year has four digits, and the text its 17 characters.\<close>

lemma gmtime_date:
  assumes "0 \<le> t" "t < 2 ^ 31"
  shows "1970 \<le> tm_year (gmtime_r t) + 1900 \<and> tm_year (gmtime_r t) + 1900 \<le> 2038 \<and>
    0 \<le> tm_mon (gmtime_r t) \<and> tm_mon (gmtime_r t) < 12 \<and> 1 \<le> tm_mday (gmtime_r t) \<and> tm_mday (gmtime_r t) \<le> 31"
proof -
  let ?n = "t div secs_per_day + epoch_jdn"
  have n: "epoch_jdn \<le> ?n" "?n \<le> epoch_jdn + 24855"
    using assms by (simp_all add: secs_per_day_def)
  then have first: "first_day \<le> ?n" by (simp add: first_day_def epoch_jdn_def)
  obtain y m d where c: "civil ?n = (y, m, d)" by (cases "civil ?n")
  have v: "valid_date (y, m, d)" "jdn (y, m, d) = ?n" using civil_valid(1, 2) [OF first] c by simp_all
  have e: "valid_date (1970, 1, 1)" "jdn (1970, 1, 1) = epoch_jdn" "valid_date (2039, 1, 1)" "epoch_jdn + 24855 < jdn (2039, 1, 1)"
    by (simp_all add: valid_date_def month_length_def jdn_def epoch_jdn_def)
  have "\<not> date_less (y, m, d) (1970, 1, 1)" using jdn_less_iff [OF v(1) e(1)] v(2) e(2) n(1) by simp
  then have "1970 \<le> y" using v(1) by (auto simp: date_less_def)
  moreover have "date_less (y, m, d) (2039, 1, 1)" using jdn_less_iff [OF v(1) e(3)] v(2) e(4) n(2) by simp
  then have "y \<le> 2038" using v(1) by (auto simp: date_less_def valid_date_def)
  moreover have "1 \<le> m" "m \<le> 12" "1 \<le> d" "d \<le> 31"
    using v(1) by (auto simp: valid_date_def month_length_def split: if_splits)
  ultimately show ?thesis by (simp add: gmtime_r_def c Let_def)
qed

lemma time_text_utc:
  assumes "0 \<le> t" "t < 2 ^ 31"
  shows "length (time_text (gmtime_r t)) = 17"
proof -
  note g = gmtime_date [OF assms] gmtime_r_time [of t]
  have "length (fmt_d 4 (tm_year (gmtime_r t) + 1900)) = 4"
  proof -
    have "length (dec_nat (nat (tm_year (gmtime_r t) + 1900))) \<le> 4"
      using g by (intro length_dec_nat) (simp_all add: nat_less_iff)
    then show ?thesis using g by (simp add: fmt_d_def)
  qed
  moreover have "length (fmt_0d 2 x) = 2" if "0 \<le> x" "x < 100" for x :: int
    using that by (intro length_fmt_0d) simp_all
  ultimately show ?thesis using g by (simp add: time_text_def)
qed

section \<open>Properties\<close>

text \<open>
  In a build with asserts no program that logs gets past its first message: the text of the microseconds
  is one character shorter than \<^verbatim>\<open>formatTime\<close> asserts, in a zone and in UTC, so every statement that the
  level lets through aborts, whatever the time, the zone and the values.
\<close>

theorem Logger_asserts_abort:
  assumes "emitted m lg" "0 \<le> ts_microSecondsFromEpoch time" "Logger_localTime True lg (log_seconds time) = Inr tmt"
  shows "log_statement True strerror_r gettid junk m site errno time body lg = Inl AssertFail"
proof -
  have "\<not> (m \<in> {LOG_TRACE, LOG_DEBUG, LOG_INFO} \<and> \<not> lg_level lg \<le> macro_level m)"
    using assms(1) by (auto simp: emitted_def)
  then show ?thesis
    unfolding log_statement_def by (simp add: Logger_new_def Logger_Impl_def formatTime_asserts [OF assms(2, 3)])
qed

text \<open>The state a program starts with, at the default level.\<close>

definition first_log :: Log where
  "first_log = \<lparr>lg_level = initLogLevel False False, lg_timezone = \<lparr>tz_data = None\<rparr>, lg_time = replicate 32 CHR 0x00,
     lg_lastSecond = 0, lg_errnobuf = '''', lg_cachedTid = 0, lg_tidString = '''', lg_tidStringLength = 6, lg_out = [],
     lg_flushes = 0\<rparr>"

theorem Logger_asserts_abort_witness:
  "log_statement True (\<lambda>_. None) 4711 (\<lambda>_. CHR ''x'') LOG_INFO \<lparr>site_file = ''a/b.cc'', site_line = 3, site_func = ''f''\<rparr> 0
     \<lparr>ts_microSecondsFromEpoch = 1500000000123456\<rparr> [InsInt 7] first_log = Inl AssertFail"
  by (rule Logger_asserts_abort)
    (simp_all add: emitted_def first_log_def initLogLevel_def less_eq_LogLevel_def Logger_localTime_def TimeZone_valid_def)

text \<open>
  The bytes a statement puts out: the fields that the comment in the constructor of \<^verbatim>\<open>Impl\<close> lists, but
  with the function where the code has it, before the values. The comment puts it last, behind the newline; nothing
  comes behind the newline.
\<close>

definition message_text ::
  "(int \<Rightarrow> string option) \<Rightarrow> int \<Rightarrow> log_macro \<Rightarrow> log_site \<Rightarrow> int \<Rightarrow> Timestamp \<Rightarrow> tm \<Rightarrow> string \<Rightarrow> Log \<Rightarrow> string" where
  "message_text strerror_r gettid m site errno time tmt values lg =
     time_text tmt @ fmt_0d 6 (log_micros time) @ (if TimeZone_valid (lg_timezone lg) then '' '' else ''Z '') @ [CHR 0x00] @
     fmt_d 5 gettid @ '' '' @ LogLevelNames (macro_level m) @
     (if m \<in> {LOG_SYSERR, LOG_SYSFATAL} \<and> errno \<noteq> 0
      then error_text strerror_r errno lg @ '' (errno = '' @ fmt_d 0 errno @ '') '' else '''') @
     (if m \<in> {LOG_TRACE, LOG_DEBUG} then site_func site @ '' '' else '''') @ values @
     '' - '' @ SourceFile (site_file site) @ '':'' @ fmt_d 0 (site_line site) @ [CHR 0x0A]"

lemma message_items_text:
  "concat (map ins_text (message_items strerror_r gettid m site errno time tmt body lg)) =
   message_text strerror_r gettid m site errno time tmt (concat (map ins_text body)) lg"
  by (simp add: message_items_def head_items_def tail_items_def message_text_def ins_text_def micros_text_def)

lemma message_items_ok:
  assumes "in_64_bits errno" "in_64_bits (site_line site)" "\<forall>x \<in> set body. ins_ok x"
  shows "\<forall>x \<in> set (message_items strerror_r gettid m site errno time tmt body lg). ins_ok x"
  using assms by (auto simp: message_items_def head_items_def tail_items_def ins_ok_def)

text \<open>
  C16. In a release build a statement the level lets through puts out one message, which is exactly: the time of
  the second, the microseconds, a null character, the thread, the level, the text and number of the error for a
  system call, the function for the two lowest levels, the texts of the values in order, file and line, and the
  newline; a fatal one then flushes and aborts, no other does. This is the layout of the code: the comment beside it
  has the function behind the newline. The hypotheses: the time is not negative, its date has a text of 17
  characters, the message fits the stream of 4000 bytes with 32 to spare, and the cached texts of the second and of
  the thread, if any, are right. The caches stay right, so this holds for the next message too.
\<close>

theorem Logger_message:
  assumes "emitted m lg" "time_cached time tmt lg" "Logger_localTime False lg (log_seconds time) = Inr tmt"
    and "length (time_text tmt) = 17" "0 \<le> ts_microSecondsFromEpoch time" "tid_cached gettid lg" "0 < gettid" "gettid < 2 ^ 31"
    and "in_64_bits errno" "in_64_bits (site_line site)" "\<forall>x \<in> set body. ins_ok x"
    and "length (message_text strerror_r gettid m site errno time tmt (concat (map ins_text body)) lg) + 32 \<le> 4000"
  shows "returns (log_statement False strerror_r gettid junk m site errno time body lg) (\<lambda>(lg', aborts).
     lg_out lg' = lg_out lg @ [message_text strerror_r gettid m site errno time tmt (concat (map ins_text body)) lg] \<and>
     aborts = (macro_level m = FATAL) \<and> lg_flushes lg' = lg_flushes lg + (if aborts then 1 else 0) \<and>
     time_cached time tmt lg' \<and> lg_lastSecond lg' = log_seconds time \<and> tid_cached gettid lg' \<and>
     lg_timezone lg' = lg_timezone lg \<and> lg_level lg' = lg_level lg)"
proof -
  obtain lg1 where lg1: "log_statement False strerror_r gettid junk m site errno time body lg =
      bindR (LogStream_inserts False (LogStream_new junk) (message_items strerror_r gettid m site errno time tmt body lg)) (\<lambda>s'.
        let lg'' = lg1\<lparr>lg_out := lg_out lg @ [take (fb_cur (ls_buffer s')) (fb_buffer (ls_buffer s'))]\<rparr> in
        Inr (if macro_level m = FATAL then (lg''\<lparr>lg_flushes := lg_flushes lg + 1\<rparr>, True) else (lg'', False)))"
    "time_cached time tmt lg1" "lg_lastSecond lg1 = log_seconds time" "tid_cached gettid lg1"
    "lg_flushes lg1 = lg_flushes lg" "lg_level lg1 = lg_level lg" "lg_timezone lg1 = lg_timezone lg"
    by (rule statement_release [OF assms(1-8)])
  have new: "fb_cur (ls_buffer (LogStream_new junk)) = 0" "length (fb_buffer (ls_buffer (LogStream_new junk))) = 4000"
      "FixedBuffer_text (ls_buffer (LogStream_new junk)) = ''''"
    by (simp_all add: LogStream_new_def FixedBuffer_new_def kSmallBufferSize_def FixedBuffer_text_def)
  show ?thesis
    unfolding lg1(1)
  proof (rule returns_bind [OF LogStream_inserts_ok [OF message_items_ok [OF assms(9-11)]]], goal_cases)
    case 1
    then show ?case using assms(12) new by (simp add: message_items_text)
  next
    case (2 s')
    then have "FixedBuffer_text (ls_buffer s') = message_text strerror_r gettid m site errno time tmt (concat (map ins_text body)) lg"
      using new(3) by (simp add: message_items_text)
    then show ?case
      using lg1(2-7) by (simp add: Let_def FixedBuffer_text_def time_cached_def tid_cached_def)
  qed
qed

theorem Logger_message_witness:
  "returns (log_statement False (\<lambda>_. None) 4711 (\<lambda>_. CHR ''x'') LOG_INFO \<lparr>site_file = ''a/b.cc'', site_line = 3, site_func = ''f''\<rparr> 0
     \<lparr>ts_microSecondsFromEpoch = 1500000000123456\<rparr> [InsInt 7] first_log) (\<lambda>(lg', aborts).
     \<not> aborts \<and> lg_out lg' = [time_text (gmtime_r 1500000000) @ ''123456Z '' @ [CHR 0x00] @ '' 4711 INFO  7 - b.cc:3'' @ [CHR 0x0A]])"
proof -
  let ?t = "\<lparr>ts_microSecondsFromEpoch = 1500000000123456\<rparr>" and ?site = "\<lparr>site_file = ''a/b.cc'', site_line = 3, site_func = ''f''\<rparr>"
  have sec: "log_seconds ?t = 1500000000" "log_micros ?t = 123456"
    by (simp_all add: log_seconds_def log_micros_def to_int_def kMicroSecondsPerSecond_def sdiv_nonneg smod_nonneg)
  have len: "length (time_text (gmtime_r 1500000000)) = 17" by (rule time_text_utc) simp_all
  have parts: "fmt_0d 6 123456 = ''123456''" "fmt_d 5 4711 = '' 4711''" "fmt_d 0 7 = ''7''" "fmt_d 0 3 = ''3''" "SourceFile ''a/b.cc'' = ''b.cc''"
    by (simp_all add: fmt_0d_def fmt_d_def pad_left_def dec_nat.simps digit_char_simps digit_char_simps(2) [unfolded One_nat_def]
        SourceFile_def)
  have msg: "message_text (\<lambda>_. None) 4711 LOG_INFO ?site 0 ?t (gmtime_r 1500000000) (concat (map ins_text [InsInt 7])) first_log =
      time_text (gmtime_r 1500000000) @ ''123456Z '' @ [CHR 0x00] @ '' 4711 INFO  7 - b.cc:3'' @ [CHR 0x0A]"
    by (simp add: message_text_def sec parts ins_text_def first_log_def TimeZone_valid_def LogLevelNames_def)
  have "returns (log_statement False (\<lambda>_. None) 4711 (\<lambda>_. CHR ''x'') LOG_INFO ?site 0 ?t [InsInt 7] first_log) (\<lambda>(lg', aborts).
     lg_out lg' = lg_out first_log @ [message_text (\<lambda>_. None) 4711 LOG_INFO ?site 0 ?t (gmtime_r 1500000000) (concat (map ins_text [InsInt 7])) first_log] \<and>
     aborts = (macro_level LOG_INFO = FATAL) \<and> lg_flushes lg' = lg_flushes first_log + (if aborts then 1 else 0) \<and>
     time_cached ?t (gmtime_r 1500000000) lg' \<and> lg_lastSecond lg' = log_seconds ?t \<and> tid_cached 4711 lg' \<and>
     lg_timezone lg' = lg_timezone first_log \<and> lg_level lg' = lg_level first_log)"
  proof (rule Logger_message)
    show "length (message_text (\<lambda>_. None) 4711 LOG_INFO ?site 0 ?t (gmtime_r 1500000000) (concat (map ins_text [InsInt 7])) first_log) + 32 \<le> 4000"
      unfolding msg using len by simp
  qed (simp_all add: sec len ins_ok_def in_64_bits_def emitted_def first_log_def initLogLevel_def less_eq_LogLevel_def Logger_localTime_def
      TimeZone_valid_def time_cached_def tid_cached_def)
  then show ?thesis unfolding msg by (rule returns_mono) (auto simp: first_log_def)
qed

end
