(* ===== verification/Tcp_Properties.thy ===== *)
theory Tcp_Properties
  imports TcpConnection
begin

text \<open>
  What the connections of tcpconnection.cc promise, over the poller: their whole life in builds with and without
  asserts, the order of the bytes sent, the events waited for, the shutdown, and what the code does not keep.
\<close>

section \<open>A new connection\<close>

text \<open>The loop a connection is made in: consistent, the descriptor and the address unused.\<close>

definition tcp_start :: "int \<Rightarrow> nat \<Rightarrow> tcp_handler reactor \<Rightarrow> bool" where
  "tcp_start fd c l \<longleftrightarrow> Poller_inv l \<and> fst l c = None \<and> 0 \<le> fd \<and> po_channels (snd l) fd = None \<and>
     Suc (length (po_pollfds (snd l))) < 2 ^ 31 - 1"

lemma Poller_inv_new_channel:
  assumes inv: "Poller_inv l" and c: "fst l c = None"
  shows "Poller_inv ((fst l)(c \<mapsto> ch), snd l)" and "po_channels (snd l) fd \<noteq> Some c"
proof -
  have used: "po_channels (snd l) fd' = Some c' \<Longrightarrow> c' \<noteq> c" for fd' c'
    using Poller_channel_fd [OF inv] c by fastforce
  show "po_channels (snd l) fd \<noteq> Some c" using used by blast
  have "entry_ok ((fst l)(c \<mapsto> ch), snd l) i (po_pollfds (snd l) ! i)" if "i < length (po_pollfds (snd l))" for i
  proof (rule entry_ok_cong [of l])
    show "entry_ok l i (po_pollfds (snd l) ! i)" using inv that unfolding Poller_inv_def by blast
  next
    fix c' assume "po_channels (snd l) (pfd_owner (po_pollfds (snd l) ! i)) = Some c'"
    with used [OF this] show "po_channels (snd ((fst l)(c \<mapsto> ch), snd l)) (pfd_owner (po_pollfds (snd l) ! i)) = Some c' \<and>
        fst ((fst l)(c \<mapsto> ch), snd l) c' = fst l c'"
      by simp
  qed
  then show "Poller_inv ((fst l)(c \<mapsto> ch), snd l)"
    using inv by (simp add: Poller_inv_def)
qed

lemma TcpConnection_new_ok:
  assumes "tcp_start fd c l"
  obtains w :: "('cb, Poller) Tcp" where "TcpConnection_new dbg True c fd True l = Inr w"
    "poller_tcp.ok fd [] w" "tw_sent w = []" "tc_state w = kConnecting" "tc_channel w = c"
    "Buffer_size (tc_outputBuffer w) = 8 + kInitialSize" "tc_highWaterMark w = 64 * 1024 * 1024"
    "tc_closeCallback w = None" "tc_highWaterMarkCallback w = None"
proof -
  have size: "8 + kInitialSize \<le> vec_max" by (simp add: kInitialSize_def vec_max_def)
  obtain b where b: "Buffer_new dbg kInitialSize = Inr b" "Buffer_inv b" "Buffer_content b = []"
    "Buffer_size b = 8 + kInitialSize"
    using Buffer_new_size [OF size, of dbg] by (auto simp: returns_iff)
  define ch where "ch = Channel_setErrorCallback HandleError (Channel_setCloseCallback HandleClose
      (Channel_setWriteCallback HandleWrite (Channel_setReadCallback HandleRead (Channel_new True fd))))"
  have ch: "ch_loop ch" "ch_interestedEvents ch = 0" "ch_fd ch = fd" "ch_index ch < 0"
    by (simp_all add: ch_def Channel_setErrorCallback_def Channel_setCloseCallback_def Channel_setWriteCallback_def
        Channel_setReadCallback_def Channel_new_def)
  have "Poller_fresh ((fst l)(c \<mapsto> ch), snd l) c fd"
    using assms ch Poller_inv_new_channel(2) [of l c] by (simp add: Poller_fresh_def tcp_start_def)
  moreover have "Poller_inv ((fst l)(c \<mapsto> ch), snd l)"
    using assms Poller_inv_new_channel(1) [of l c] by (simp add: tcp_start_def)
  moreover define w :: "('cb, Poller) Tcp" where
    "w = \<lparr>tc_state = kConnecting, tc_channel = c, tc_connectionCallback = None, tc_messageCallback = None,
       tc_closeCallback = None, tc_writeCompleteCallback = None, tc_highWaterMark = 64 * 1024 * 1024,
       tc_highWaterMarkCallback = None, tc_inputBuffer = b, tc_outputBuffer = b,
       tw_inLoop = True, tw_loop = ((fst l)(c \<mapsto> ch), snd l), tw_functors = [], tw_written = [],
       tw_shutdown = False, tw_calls = [], tw_sent = []\<rparr>"
  ultimately have "poller_tcp.ok fd [] w" using b ch by (simp add: Tcp_ok_def tcp_interest_def)
  moreover have "TcpConnection_new dbg True c fd True l = Inr w"
    using b(1) by (simp add: TcpConnection_new_def ch_def w_def)
  ultimately show thesis by (intro that [of w]) (simp_all add: w_def b(4))
qed

text \<open>Every state a connection over the poller reaches.\<close>

abbreviation tcp_reach_poller ::
  "bool \<Rightarrow> (nat \<Rightarrow> byte list option) \<Rightarrow> ('cb tcp_call \<Rightarrow> ('cb, Poller) Tcp \<Rightarrow> 'cb tcp_op list) \<Rightarrow>
     ('cb, Poller) Tcp \<Rightarrow> ('cb, Poller) Tcp \<Rightarrow> bool" where
  "tcp_reach_poller dbg \<equiv> tcp_reach dbg (Poller_updateChannel False True) (Poller_removeChannel False True)"

lemma reach_new_ok:
  fixes w :: "('cb, Poller) Tcp"
  assumes "tcp_start fd c l" "TcpConnection_new dbg True c fd True l = Inr w0" "body_possible mem body"
    "tcp_reach_poller dbg mem body w0 w"
  shows "poller_tcp.ok fd (tw_sent w) w"
proof -
  have "poller_tcp.ok fd (tw_sent w0) w0"
  proof -
    obtain w1 :: "('cb, Poller) Tcp" where "TcpConnection_new dbg True c fd True l = Inr w1"
      "poller_tcp.ok fd [] w1" "tw_sent w1 = []"
      using TcpConnection_new_ok [OF assms(1), of dbg] .
    then show ?thesis using assms(2) by simp
  qed
  then show ?thesis by (rule poller_tcp.reach_ok [OF assms(4) _ assms(3)])
qed

text \<open>What a connection that is up waits for.\<close>

lemma ok_watched:
  assumes ok: "poller_tcp.ok fd sent w" and up: "tcp_up (tc_state w)"
  shows "Poller_watched (tw_loop w) fd =
    Some (if Buffer_content (tc_outputBuffer w) = [] then 3 else 7, tc_channel w)"
proof -
  obtain ch where ch: "fst (tw_loop w) (tc_channel w) = Some ch"
    "ch_interestedEvents ch = (if Buffer_content (tc_outputBuffer w) = [] then 3 else 7)"
    using poller_tcp.ok_channel [OF ok] up by (auto simp: tcp_interest_def)
  moreover have "Poller_known (tw_loop w) (tc_channel w) fd" "Poller_inv (tw_loop w)"
    using ok up by (simp_all add: Tcp_ok_def)
  ultimately show ?thesis using poller_channels.watched_channel [of "tw_loop w" "tc_channel w" fd ch] by simp
qed

lemma buffer_rest_frame:
  assumes "buffer_rest dbg upd rest w = Inr w'"
  shows "tc_state w' = tc_state w \<and> tw_written w' = tw_written w \<and> tw_inLoop w' = tw_inLoop w \<and>
    tw_functors w' = tw_functors w"
proof -
  obtain b ch where b: "Buffer_append dbg (tc_outputBuffer w) rest = Inr b"
    and ch: "the_channel (w\<lparr>tc_outputBuffer := b\<rparr>) = Inr ch"
    using assms by (auto simp: buffer_rest_def Let_def)
  show ?thesis
  proof (cases "Channel_isWriting ch")
    case True
    then have "w' = w\<lparr>tc_outputBuffer := b\<rparr>" using assms b ch by (simp add: buffer_rest_def Let_def)
    then show ?thesis by simp
  next
    case False
    then obtain l where "w' = w\<lparr>tc_outputBuffer := b, tw_loop := l\<rparr>"
      using assms b ch by (auto simp: buffer_rest_def Let_def on_channel_def)
    then show ?thesis by simp
  qed
qed

lemma high_water_frame [simp]:
  "tc_state (high_water n w) = tc_state w" "tw_written (high_water n w) = tw_written w"
  by (simp_all add: high_water_def queueInLoop_def Let_def)

lemma sendInLoop_frame:
  assumes "TcpConnection_sendInLoop dbg upd (WriteErr e) mem ptr len w = Inr w'"
  shows "tc_state w' = tc_state w \<and> tw_written w' = tw_written w"
proof -
  have "(\<exists>r n. buffer_rest dbg upd r (high_water n w) = Inr w') \<or> w' = w"
    using assms by (auto simp: TcpConnection_sendInLoop_def assertInLoopThread_def Let_def write_directly_def cassert_def
        split: if_splits)
  then show ?thesis by (elim disjE exE) (drule buffer_rest_frame, simp_all)
qed

section \<open>A connection's life\<close>

lemma tcp_open_unbound: "tcp_open dbg upd False c fd prep mem body l = Inl FatalAbort"
proof -
  have size: "8 + kInitialSize \<le> vec_max" by (simp add: kInitialSize_def vec_max_def)
  obtain b where "Buffer_new dbg kInitialSize = Inr b"
    using Buffer_new_size [OF size, of dbg] by (auto simp: returns_iff)
  then show ?thesis by (simp add: tcp_open_def TcpConnection_new_def)
qed

lemma tcp_open_ok:
  fixes l :: "tcp_handler reactor" and prep :: "'cb tcp_op list"
  assumes "tcp_start fd c l" "body_possible mem body" "list_all (op_possible mem) prep"
  shows "outcome {LengthError, BadCall} (tcp_open dbg (Poller_updateChannel False True) True c fd prep mem body l)
    (\<lambda>w. poller_tcp.life_ok fd False w \<and> tcp_up (tc_state w) \<and> Poller_known (tw_loop w) (tc_channel w) fd)"
proof -
  obtain w :: "('cb, Poller) Tcp" where w: "TcpConnection_new dbg True c fd True l = Inr w" "poller_tcp.ok fd [] w"
    "tw_sent w = []" "tc_state w = kConnecting"
    using TcpConnection_new_ok [OF assms(1), of dbg] .
  have okw: "poller_tcp.ok fd (tw_sent w) w" using w(2, 3) by simp
  have "outcome {LengthError, BadCall} (bindR (tcp_ops_run dbg (Poller_updateChannel False True) mem prep w)
      (TcpConnection_connectEstablished dbg (Poller_updateChannel False True) (user_script dbg (Poller_updateChannel False True) mem body)))
      (\<lambda>w. poller_tcp.life_ok fd False w \<and> tcp_up (tc_state w) \<and> Poller_known (tw_loop w) (tc_channel w) fd)"
  proof (rule outcome_bind)
    show "outcome {LengthError, BadCall} (tcp_ops_run dbg (Poller_updateChannel False True) mem prep w)
        (\<lambda>w'. poller_tcp.ok fd (tw_sent w') w' \<and> tcp_next w w')"
      by (rule outcome_mono [OF poller_tcp.ops_ok [OF okw assms(3)]]) auto
    fix w' assume "poller_tcp.ok fd (tw_sent w') w' \<and> tcp_next w w'"
    then have ok: "poller_tcp.ok fd (tw_sent w') w'" and st: "tc_state w' = kConnecting" using w(4) by (auto simp: tcp_next_def)
    show "outcome {LengthError, BadCall} (TcpConnection_connectEstablished dbg (Poller_updateChannel False True)
        (user_script dbg (Poller_updateChannel False True) mem body) w')
        (\<lambda>w. poller_tcp.life_ok fd False w \<and> tcp_up (tc_state w) \<and> Poller_known (tw_loop w) (tc_channel w) fd)"
    proof (rule outcome_mono [OF poller_tcp.connectEstablished_ok [OF ok st assms(2)]])
      fix v assume v: "poller_tcp.ok fd (tw_sent v) v \<and> tcp_up (tc_state v) \<and> tc_channel v = tc_channel w'"
      then show "poller_tcp.life_ok fd False v \<and> tcp_up (tc_state v) \<and> Poller_known (tw_loop v) (tc_channel v) fd"
        using poller_tcp.ok_known [of fd "tw_sent v" v] by (auto simp: poller_tcp.life_ok_def tcp_up_def)
    qed (use unset_sub in auto)
  qed
  then show ?thesis by (simp add: tcp_open_def w(1))
qed

lemma tcp_life_ok:
  fixes w0 :: "('cb, Poller) Tcp"
  assumes "tcp_start fd c l" "body_possible mem body" "list_all (op_possible mem) prep"
    and "tcp_open dbg (Poller_updateChannel pdbg True) True c fd prep mem body l = Inr w0"
    and "tcp_life dbg (Poller_updateChannel pdbg True) (Poller_removeChannel pdbg True) mem body w0 w d"
  shows "poller_tcp.life_ok fd d w"
proof (rule poller_tcp.life_reach_ok [OF poller_tcp_builds.life_built [OF assms(5)] _ assms(2)])
  have "tcp_open dbg (Poller_updateChannel False True) True c fd prep mem body l = Inr w0"
    by (rule built_InrD [OF poller_tcp_builds.open_built assms(4)])
  then show "poller_tcp.life_ok fd False w0" using tcp_open_ok [OF assms(1-3), of dbg] by simp
qed

lemma life_down: "poller_tcp.life_ok fd d w \<Longrightarrow> down dbg w = (if tc_state w = kDisconnected then asserts dbg else {})"
  by (cases "tc_state w") (auto simp: poller_tcp.life_ok_def down_def)

lemma tcp_close_aborts:
  assumes "poller_tcp.life_ok fd d w" "tc_state w \<noteq> kDisconnected" "ev = CloseEvent \<or> ev = Destroy"
  shows "tcp_event_run dbg (Poller_updateChannel True True) rem mem body ev w = Inl AssertFail"
proof -
  have up: "tcp_up (tc_state w)" using assms(1, 2) by (cases "tc_state w") (auto simp: poller_tcp.life_ok_def)
  have ok: "poller_tcp.ok fd (tw_sent w) w" using assms(1) by (simp add: poller_tcp.life_ok_def)
  have "Poller_inv (tw_loop w)" "tw_inLoop w" using ok by (simp_all add: Tcp_ok_def)
  moreover have "Poller_watched (tw_loop w) fd \<noteq> None" using ok_watched [OF ok up] by simp
  ultimately have "Channel_disableAll dbg (Poller_updateChannel True True) (tc_channel w) (tw_loop w) = Inl AssertFail"
    using poller_tcp.ok_known [OF ok up] by (intro Poller_disable_aborts) auto
  then show ?thesis
    using assms(3) \<open>tw_inLoop w\<close>
    by (auto simp: TcpConnection_handleClose_def TcpConnection_connectDestroyed_def assertInLoopThread_def on_channel_def cassert_def)
qed

section \<open>An example\<close>

definition empty_loop :: "tcp_handler reactor" where
  "empty_loop = (\<lambda>_. None, Poller_new)"

lemma empty_loop_start: "tcp_start 7 1 empty_loop"
  by (simp add: tcp_start_def empty_loop_def Poller_new_def Poller_inv_def)

abbreviation quiet :: "bool tcp_call \<Rightarrow> (bool, Poller) Tcp \<Rightarrow> bool tcp_op list" where
  "quiet \<equiv> \<lambda>_ _. []"

lemma quiet_possible: "body_possible mem quiet"
  by (simp add: body_possible_def)

definition hello :: "nat \<Rightarrow> byte list option" where
  "hello = [100 \<mapsto> [104, 101, 108, 108, 111]]"

text \<open>Established, with no more done by the callback.\<close>

lemma example_up:
  obtains w0 w1 :: "(bool, Poller) Tcp" where "TcpConnection_new True True 1 7 True empty_loop = Inr w0"
    "tcp_reach_poller True mem quiet w0 w1" "tc_state w1 = kConnected" "tc_channel w1 = 1"
    "Buffer_content (tc_outputBuffer w1) = []" "tw_sent w1 = []"
    "Buffer_size (tc_outputBuffer w1) = 8 + kInitialSize" "tc_highWaterMark w1 = 64 * 1024 * 1024"
    "tc_closeCallback w1 = None" "tc_highWaterMarkCallback w1 = None"
proof -
  obtain w0 :: "(bool, Poller) Tcp" where w0: "TcpConnection_new True True 1 7 True empty_loop = Inr w0"
    "poller_tcp.ok 7 [] w0" "tw_sent w0 = []" "tc_state w0 = kConnecting" "tc_channel w0 = 1"
    "Buffer_size (tc_outputBuffer w0) = 8 + kInitialSize" "tc_highWaterMark w0 = 64 * 1024 * 1024"
    "tc_closeCallback w0 = None" "tc_highWaterMarkCallback w0 = None"
    using TcpConnection_new_ok [OF empty_loop_start, of True] .
  let ?w = "w0\<lparr>tc_connectionCallback := Some True\<rparr>"
  have ok: "poller_tcp.ok 7 [] ?w" and st: "tc_state ?w = kConnecting" using w0 by simp_all
  have r: "tcp_reach_poller True mem quiet w0 ?w"
    by (rule tcp_reach.step [OF tcp_reach.start, of _ "UserOp (SetConnection True)"])
      (simp_all add: TcpConnection_setConnectionCallback_def)
  obtain l where l: "Channel_enableReading True (Poller_updateChannel False True) (tc_channel ?w) (tw_loop ?w) = Inr l"
    using poller_tcp.enable_ok [OF ok st, of True] by blast
  define w1 where "w1 = ?w\<lparr>tc_state := kConnected, tw_loop := l, tw_calls := tw_calls w0 @ [ConnectionCall True True]\<rparr>"
  have "tcp_event_run True (Poller_updateChannel False True) (Poller_removeChannel False True) mem quiet Establish ?w = Inr w1"
    using poller_tcp.connectEstablished_eq [OF ok st l] by (simp add: call_user_def user_script_def w1_def)
  then have "tcp_reach_poller True mem quiet w0 w1"
    by (rule tcp_reach.step [OF r, rotated]) (simp add: w0(4))
  moreover have "Buffer_content (tc_outputBuffer w0) = []" using w0(2, 4) by (simp add: Tcp_ok_def)
  ultimately show thesis using w0 by (intro that [of w0 w1]) (simp_all add: w1_def)
qed

text \<open>Five bytes sent over it.\<close>

lemma example_send:
  fixes w :: "(bool, Poller) Tcp"
  assumes ok: "poller_tcp.ok 7 sent w" and st: "tc_state w = kConnected" and out: "Buffer_content (tc_outputBuffer w) = []"
    and size: "Buffer_size (tc_outputBuffer w) = 8 + kInitialSize" "tc_highWaterMark w = 64 * 1024 * 1024"
    and wr: "write_contract 5 wr"
  shows "returns (TcpConnection_sendInLoop True (Poller_updateChannel False True) wr hello 100 5 w) (\<lambda>w'.
    tc_state w' = kConnected \<and> tw_inLoop w' \<and> tw_functors w' = tw_functors w \<or> wr = WriteOk 5)"
proof -
  define data :: "byte list" where "data = [104, 101, 108, 108, 111]"
  have len: "length data = 5" "data \<noteq> []" by (simp_all add: data_def)
  have inv: "Buffer_inv (tc_outputBuffer w)" and loop: "tw_inLoop w" using ok by (simp_all add: Tcp_ok_def)
  obtain ch where ch: "the_channel w = Inr ch" "ch_interestedEvents ch = 3"
    using poller_tcp.ok_channel [OF ok] st out by (auto simp: tcp_interest_def)
  have zero: "Buffer_readableBytes (tc_outputBuffer w) = 0" using inv out by (simp add: Buffer_readable_zero)
  have load: "load_bytes hello 100 5 = Inr data" by (simp add: load_bytes_def hello_def data_def)
  have rest: "returns (buffer_rest True (Poller_updateChannel False True) r (high_water n v))
      (\<lambda>w'. tc_state w' = kConnected \<and> tw_inLoop w' \<and> tw_functors w' = tw_functors w)"
    if v: "v = w\<lparr>tw_written := bs\<rparr>" "r \<noteq> []" "length r = n" "n \<le> 5" for r n v bs
  proof -
    have hw: "high_water n v = v" using zero size(2) v by (simp add: high_water_def Let_def szadd_def)
    have okv: "poller_tcp.ok 7 (bs @ []) v" using ok out v(1) by (simp add: Tcp_ok_def)
    obtain b where b: "Buffer_append True (tc_outputBuffer v) r = Inr b" "Buffer_inv b"
      "Buffer_content b = Buffer_content (tc_outputBuffer v) @ r"
      using Buffer_append_ok [OF inv, of r True] out size(1) v
      by (auto simp: returns_iff vec_max_def kInitialSize_def)
    from poller_tcp.buffer_rest_returns [OF okv _ v(2) b] obtain w' where
      w': "buffer_rest True (Poller_updateChannel False True) r v = Inr w'"
      using st v(1) by (auto simp: returns_iff)
    then have "tc_state w' = kConnected \<and> tw_inLoop w' \<and> tw_functors w' = tw_functors w"
      using buffer_rest_frame [OF w'] st loop v(1) by simp
    then show ?thesis unfolding hw w' by simp
  qed
  have run: "TcpConnection_sendInLoop True (Poller_updateChannel False True) wr hello 100 5 w =
      (case write_directly wr data w of (nwrote, remaining, faultError, w') \<Rightarrow>
        cassert True (remaining \<le> 5)
          (if \<not> faultError \<and> 0 < remaining
           then buffer_rest True (Poller_updateChannel False True) (take remaining (drop nwrote data)) (high_water remaining w')
           else Inr w'))"
    using loop ch Channel_isWriting_bits(1) [of ch] zero load
    by (simp add: TcpConnection_sendInLoop_def assertInLoopThread_def Let_def)
  show ?thesis
  proof (cases wr)
    case (WriteErr e)
    show ?thesis
      unfolding run using rest [of w "tw_written w" data 5] WriteErr len
      by (auto simp: write_directly_def elim!: returns_mono)
  next
    case (WriteOk n)
    have n: "n \<le> 5" using wr WriteOk by simp
    have rem: "szsub 5 n = 5 - n" using n by (simp add: szsub_exact)
    show ?thesis
    proof (cases "n = 5")
      case True
      then show ?thesis unfolding run using WriteOk rem len by (simp add: write_directly_def Let_def)
    next
      case False
      then have "drop n data \<noteq> []" "take (5 - n) (drop n data) = drop n data" using n len by simp_all
      then show ?thesis
        unfolding run using rest [OF refl, of "drop n data" "5 - n" "tw_written w @ take n data"] WriteOk rem n False len
        by (auto simp: write_directly_def Let_def elim!: returns_mono)
    qed
  qed
qed

text \<open>Of the five bytes the kernel takes two; then the connection is shut down.\<close>

lemma example_closing:
  obtains w0 w3 :: "(bool, Poller) Tcp" where "TcpConnection_new True True 1 7 True empty_loop = Inr w0"
    "tcp_reach_poller True hello quiet w0 w3" "tc_state w3 = kDisconnecting"
    "Buffer_content (tc_outputBuffer w3) \<noteq> []" "length (Buffer_content (tc_outputBuffer w3)) \<le> 5"
    "tw_sent w3 = [104, 101, 108, 108, 111]"
proof -
  obtain w0 w1 :: "(bool, Poller) Tcp" where w0: "TcpConnection_new True True 1 7 True empty_loop = Inr w0"
    and w1: "tcp_reach_poller True hello quiet w0 w1" "tc_state w1 = kConnected" "tc_channel w1 = 1"
      "Buffer_content (tc_outputBuffer w1) = []" "tw_sent w1 = []"
      "Buffer_size (tc_outputBuffer w1) = 8 + kInitialSize" "tc_highWaterMark w1 = 64 * 1024 * 1024"
    using example_up .
  have ok1: "poller_tcp.ok 7 (tw_sent w1) w1" by (rule reach_new_ok [OF empty_loop_start w0 quiet_possible w1(1)])
  let ?upd = "Poller_updateChannel False True :: Poller loop_op"
  obtain w2 where w2: "TcpConnection_sendInLoop True ?upd (WriteErr EAGAIN) hello 100 5 w1 = Inr w2"
    "tc_state w2 = kConnected" "tw_inLoop w2"
    using example_send [OF ok1 w1(2, 4, 6, 7), of "WriteErr EAGAIN"] by (auto simp: returns_iff)
  define w2' where "w2' = w2\<lparr>tw_sent := [104, 101, 108, 108, 111]\<rparr>"
  have "tw_inLoop w1" using ok1 by (simp add: Tcp_ok_def)
  then have "tcp_event_run True ?upd (Poller_removeChannel False True) hello quiet (UserOp (Send (WriteErr EAGAIN) 100 5)) w1 = Inr w2'"
    using w2(1) w1(2, 5) by (simp add: TcpConnection_send_def w2'_def hello_def)
  from tcp_reach.step [OF w1(1) _ this] have r2: "tcp_reach_poller True hello quiet w0 w2'"
    by (simp add: hello_def vec_max_def)
  have ok2: "poller_tcp.ok 7 (tw_sent w2') w2'" by (rule reach_new_ok [OF empty_loop_start w0 quiet_possible r2])
  have "tw_written w2' = []" using sendInLoop_frame [OF w2(1)] ok1 w1(4, 5) by (simp add: w2'_def Tcp_ok_def)
  then have out2: "Buffer_content (tc_outputBuffer w2') = [104, 101, 108, 108, 111]"
    using ok2 by (simp add: Tcp_ok_def w2'_def)
  have st2: "tc_state w2' = kConnected" "tw_inLoop w2'" using w2 by (simp_all add: w2'_def)
  obtain ch2 where ch2: "the_channel w2' = Inr ch2" "ch_interestedEvents ch2 = 7"
    using poller_tcp.ok_channel [OF ok2] st2 out2 by (auto simp: tcp_interest_def)
  define w3 where "w3 = w2'\<lparr>tc_state := kDisconnecting\<rparr>"
  have "tcp_event_run True ?upd (Poller_removeChannel False True) hello quiet (UserOp Shutdown) w2' = Inr w3"
    using st2 ch2 Channel_isWriting_bits(2) [of ch2]
    by (simp add: TcpConnection_shutdown_def TcpConnection_shutdownInLoop_def assertInLoopThread_def Let_def w3_def the_channel_def)
  from tcp_reach.step [OF r2 _ this] have r3: "tcp_reach_poller True hello quiet w0 w3" by simp
  show thesis
    by (rule that [OF w0 r3]) (use out2 in \<open>simp_all add: w3_def w2'_def\<close>)
qed

text \<open>The release build: made, established, closed.\<close>

lemma example_open:
  obtains w0 :: "(bool, Poller) Tcp" where
    "tcp_open False (Poller_updateChannel False True) True 1 7 [SetConnection True] mem quiet empty_loop = Inr w0"
    "tc_state w0 = kConnected" "tc_closeCallback w0 = None" "tcp_up (tc_state w0)"
proof -
  obtain w :: "(bool, Poller) Tcp" where w: "TcpConnection_new False True 1 7 True empty_loop = Inr w"
    "poller_tcp.ok 7 [] w" "tc_state w = kConnecting" "tc_closeCallback w = None"
    using TcpConnection_new_ok [OF empty_loop_start, of False] .
  let ?w = "w\<lparr>tc_connectionCallback := Some True\<rparr>"
  have ok: "poller_tcp.ok 7 [] ?w" and st: "tc_state ?w = kConnecting" using w by simp_all
  obtain l where l: "Channel_enableReading False (Poller_updateChannel False True) (tc_channel ?w) (tw_loop ?w) = Inr l"
    using poller_tcp.enable_ok [OF ok st, of False] by blast
  have "tcp_open False (Poller_updateChannel False True) True 1 7 [SetConnection True] mem quiet empty_loop =
      Inr (?w\<lparr>tc_state := kConnected, tw_loop := l, tw_calls := tw_calls w @ [ConnectionCall True True]\<rparr>)"
    using poller_tcp.connectEstablished_eq [OF ok st l] w(1)
    by (simp add: tcp_open_def TcpConnection_setConnectionCallback_def call_user_def user_script_def)
  then show thesis
    using w(4) by (intro that [of "?w\<lparr>tc_state := kConnected, tw_loop := l, tw_calls := tw_calls w @ [ConnectionCall True True]\<rparr>"]) simp_all
qed

lemma example_close:
  fixes w0 :: "(bool, Poller) Tcp"
  assumes "tcp_open False (Poller_updateChannel False True) True 1 7 [SetConnection True] mem quiet empty_loop = Inr w0"
    "tc_state w0 = kConnected" "tc_closeCallback w0 = None" "tcp_up (tc_state w0)"
  obtains w1 where "tcp_event_run False (Poller_updateChannel False True) (Poller_removeChannel False True) mem quiet CloseEvent w0 = Inr w1"
proof -
  have ok: "poller_tcp.ok 7 (tw_sent w0) w0"
    using tcp_open_ok [OF empty_loop_start quiet_possible, where prep = "[SetConnection True]" and dbg = False and mem = mem] assms(1)
    by (simp add: poller_tcp.life_ok_def)
  then obtain l where "Channel_disableAll False (Poller_updateChannel False True) (tc_channel w0) (tw_loop w0) = Inr l"
    using poller_tcp.disable_ok [OF ok poller_tcp.ok_known [OF ok assms(4)], of False] by blast
  moreover have "tw_inLoop w0" using ok by (simp add: Tcp_ok_def)
  ultimately show thesis
    using assms(3) by (intro that) (simp add: TcpConnection_handleClose_def assertInLoopThread_def on_channel_def)
qed

section \<open>Properties\<close>

text \<open>
  C1. The whole life of a connection, in builds with and without the asserts of the connection, its buffers and its channel
  (\<open>dbg\<close>) and those of poller.cc (\<open>pdbg\<close>). When \<^verbatim>\<open>bind\<close> in the constructor fails, the process aborts there, as it does for every
  accepted or connected socket, which bind(2) refuses with \<^verbatim>\<open>EINVAL\<close>; otherwise the connection is made and
  established. From then on, whatever its users, its callbacks, another thread's shutdown and the kernel do and in
  whatever order, an owner's destruction after a close included (a \<^verbatim>\<open>send\<close> from another thread, which hands over
  a bare pointer, is left out, and what is sent is memory of the caller), each event returns, or stops with
  \<^verbatim>\<open>std::length_error\<close>, with the call of a callback that was never set, at an assert of the poller if it has them,
  or at the assert that the connection is up, if it has them, and then only for a close, a read or the
  destruction of a connection that is closed already: no channel or memory is misused. A connection that is disconnected
  is not watched, and one that is destroyed is registered no more. With the poller's asserts a connection that is up
  cannot be closed or destroyed: the process stops.
\<close>

theorem TcpConnection_safe:
  fixes l :: "tcp_handler reactor" and prep :: "'cb tcp_op list"
  assumes "tcp_start fd c l" and "body_possible mem body" and "list_all (op_possible mem) prep"
  shows "(if bound
      then outcome ({LengthError, BadCall} \<union> asserts pdbg) (tcp_open dbg (Poller_updateChannel pdbg True) True c fd prep mem body l)
        (\<lambda>w. tcp_up (tc_state w) \<and> Poller_known (tw_loop w) (tc_channel w) fd)
      else tcp_open dbg (Poller_updateChannel pdbg True) False c fd prep mem body l = Inl FatalAbort) \<and>
    (\<forall>w0 w d ev. tcp_open dbg (Poller_updateChannel pdbg True) True c fd prep mem body l = Inr w0 \<and>
        tcp_life dbg (Poller_updateChannel pdbg True) (Poller_removeChannel pdbg True) mem body w0 w d \<and>
        life_possible mem d ev w \<longrightarrow>
      outcome ({LengthError, BadCall} \<union> asserts pdbg \<union> (if asserts_up ev \<and> tc_state w = kDisconnected then asserts dbg else {}))
        (tcp_event_run dbg (Poller_updateChannel pdbg True) (Poller_removeChannel pdbg True) mem body ev w)
        (\<lambda>w'. (tc_state w' = kDisconnected \<longrightarrow> Poller_watched (tw_loop w') fd = None) \<and>
          Poller_known (tw_loop w') (tc_channel w') fd = (\<not> d \<and> ev \<noteq> Destroy)) \<and>
      (pdbg \<and> tc_state w \<noteq> kDisconnected \<and> (ev = CloseEvent \<or> ev = Destroy) \<longrightarrow>
        tcp_event_run dbg (Poller_updateChannel pdbg True) (Poller_removeChannel pdbg True) mem body ev w = Inl AssertFail))"
proof (intro conjI allI impI)
  show "if bound
      then outcome ({LengthError, BadCall} \<union> asserts pdbg) (tcp_open dbg (Poller_updateChannel pdbg True) True c fd prep mem body l)
        (\<lambda>w. tcp_up (tc_state w) \<and> Poller_known (tw_loop w) (tc_channel w) fd)
      else tcp_open dbg (Poller_updateChannel pdbg True) False c fd prep mem body l = Inl FatalAbort"
    using built_outcome [OF poller_tcp_builds.open_built tcp_open_ok [OF assms, of dbg], of pdbg]
    by (auto simp: tcp_open_unbound [of _ _ _ _ _ _ _ l] elim!: outcome_mono)
next
  fix w0 w :: "('cb, Poller) Tcp" and d ev
  assume a: "tcp_open dbg (Poller_updateChannel pdbg True) True c fd prep mem body l = Inr w0 \<and>
      tcp_life dbg (Poller_updateChannel pdbg True) (Poller_removeChannel pdbg True) mem body w0 w d \<and> life_possible mem d ev w"
  have life: "poller_tcp.life_ok fd d w" by (rule tcp_life_ok [OF assms]) (use a in blast)+
  note run = built_outcome [OF poller_tcp_builds.event_built poller_tcp.life_event_ok [OF life assms(2)], of ev dbg pdbg]
  show "outcome ({LengthError, BadCall} \<union> asserts pdbg \<union> (if asserts_up ev \<and> tc_state w = kDisconnected then asserts dbg else {}))
      (tcp_event_run dbg (Poller_updateChannel pdbg True) (Poller_removeChannel pdbg True) mem body ev w)
      (\<lambda>w'. (tc_state w' = kDisconnected \<longrightarrow> Poller_watched (tw_loop w') fd = None) \<and>
        Poller_known (tw_loop w') (tc_channel w') fd = (\<not> d \<and> ev \<noteq> Destroy))"
    using a life_down [OF life] by (intro outcome_mono [OF run]) (auto simp: poller_tcp.life_ok_def split: if_splits)
  assume "pdbg \<and> tc_state w \<noteq> kDisconnected \<and> (ev = CloseEvent \<or> ev = Destroy)"
  then show "tcp_event_run dbg (Poller_updateChannel pdbg True) (Poller_removeChannel pdbg True) mem body ev w = Inl AssertFail"
    using tcp_close_aborts [OF life, of ev dbg _ mem body] by auto
qed

text \<open>A connection established in the release build, closed and then destroyed.\<close>

theorem TcpConnection_safe_witness:
  "\<exists>w0 w1 :: (bool, Poller) Tcp. tcp_open False (Poller_updateChannel False True) True 1 7 [SetConnection True] hello quiet empty_loop = Inr w0 \<and>
    tcp_event_run False (Poller_updateChannel False True) (Poller_removeChannel False True) hello quiet CloseEvent w0 = Inr w1 \<and>
    outcome {LengthError, BadCall}
      (tcp_event_run False (Poller_updateChannel False True) (Poller_removeChannel False True) hello quiet Destroy w1)
      (\<lambda>w2. \<not> Poller_known (tw_loop w2) (tc_channel w2) 7)"
proof -
  have prep: "list_all (op_possible hello) [SetConnection True]" by simp
  note S = TcpConnection_safe [OF empty_loop_start quiet_possible prep, of True False False]
  obtain w0 :: "(bool, Poller) Tcp" where w0:
    "tcp_open False (Poller_updateChannel False True) True 1 7 [SetConnection True] hello quiet empty_loop = Inr w0"
    "tc_state w0 = kConnected" "tc_closeCallback w0 = None" "tcp_up (tc_state w0)"
    using example_open .
  obtain w1 where w1: "tcp_event_run False (Poller_updateChannel False True) (Poller_removeChannel False True) hello quiet CloseEvent w0 = Inr w1"
    using example_close [OF w0] .
  have "tcp_life False (Poller_updateChannel False True) (Poller_removeChannel False True) hello quiet w0 w1 (False \<or> CloseEvent = (Destroy :: bool tcp_event))"
    by (rule tcp_life.step [OF tcp_life.start _ w1]) simp
  then have "outcome {LengthError, BadCall}
      (tcp_event_run False (Poller_updateChannel False True) (Poller_removeChannel False True) hello quiet Destroy w1)
      (\<lambda>w2. \<not> Poller_known (tw_loop w2) (tc_channel w2) 7)"
    using S [THEN conjunct2, rule_format, of w0 w1 False Destroy] w0(1)
    by (auto elim!: outcome_mono split: if_splits)
  then show ?thesis using w0(1) w1 by blast
qed

text \<open>
  C2. The bytes the kernel took followed by those in the output buffer are at all times exactly the bytes given
  to \<^verbatim>\<open>send\<close> while the connection was up, in order, none lost or doubled, however the
  writes are cut; the poller waits for the descriptor while the connection is up, for room to write exactly
  while there are bytes to write; and the write side is shut down only when nothing is left to write.
\<close>

theorem TcpConnection_stream:
  assumes "tcp_start fd c l" and "TcpConnection_new dbg True c fd True l = Inr w0" and "body_possible mem body"
    and "tcp_reach_poller dbg mem body w0 w"
  shows "tw_written w @ Buffer_content (tc_outputBuffer w) = tw_sent w \<and>
    (tcp_up (tc_state w) \<longrightarrow> Poller_watched (tw_loop w) fd =
       Some (if Buffer_content (tc_outputBuffer w) = [] then 3 else 7, tc_channel w)) \<and>
    (tw_shutdown w \<longrightarrow> tc_state w = kDisconnecting \<and> tw_written w = tw_sent w \<or> tc_state w = kDisconnected)"
proof -
  have ok: "poller_tcp.ok fd (tw_sent w) w" by (rule reach_new_ok [OF assms])
  then have "tw_written w @ Buffer_content (tc_outputBuffer w) = tw_sent w"
    "tw_shutdown w \<longrightarrow> tc_state w = kDisconnecting \<and> Buffer_content (tc_outputBuffer w) = [] \<or> tc_state w = kDisconnected"
    by (simp_all add: Tcp_ok_def)
  then show ?thesis using ok_watched [OF ok] by auto
qed

theorem TcpConnection_stream_witness:
  "\<exists>w0 w1 :: (bool, Poller) Tcp. tcp_reach_poller True hello quiet w0 w1 \<and>
    Poller_watched (tw_loop w1) 7 = Some (3, 1)"
proof -
  obtain w0 w1 :: "(bool, Poller) Tcp" where w: "TcpConnection_new True True 1 7 True empty_loop = Inr w0"
    "tcp_reach_poller True hello quiet w0 w1" "tc_state w1 = kConnected" "tc_channel w1 = 1"
    "Buffer_content (tc_outputBuffer w1) = []"
    using example_up .
  from TcpConnection_stream [OF empty_loop_start w(1) quiet_possible w(2)] show ?thesis using w by auto
qed

text \<open>
  C3. A shutdown with bytes still in the output buffer completes: if every write event finds room for at
  least one byte, then after as many events as there were bytes, or fewer, everything sent was
  written and the write side has been shut down.
\<close>

theorem TcpConnection_shutdown_completes:
  assumes "tcp_start fd c l" and "TcpConnection_new dbg True c fd True l = Inr w0" and "body_possible mem body"
    and "tcp_reach_poller dbg mem body w0 w" and "tc_state w = kDisconnecting"
    and "Buffer_content (tc_outputBuffer w) \<noteq> []"
    and "\<forall>n \<in> set ns. 0 < n" and "length (Buffer_content (tc_outputBuffer w)) \<le> length ns"
  shows "returns (tcp_drain dbg (Poller_updateChannel False True) ns w)
    (\<lambda>w'. tw_written w' = tw_sent w \<and> Buffer_content (tc_outputBuffer w') = [] \<and> tw_shutdown w')"
  using assms(6-8) by (intro poller_tcp.tcp_drain_ok [OF reach_new_ok [OF assms(1-4)] assms(5)]) simp_all

theorem TcpConnection_shutdown_completes_witness:
  "\<exists>w :: (bool, Poller) Tcp. Buffer_content (tc_outputBuffer w) \<noteq> [] \<and> tc_state w = kDisconnecting \<and>
    returns (tcp_drain True (Poller_updateChannel False True) [1, 9, 1, 1, 1] w)
      (\<lambda>w'. tw_written w' = [104, 101, 108, 108, 111] \<and> tw_shutdown w')"
proof -
  obtain w0 w3 :: "(bool, Poller) Tcp" where w: "TcpConnection_new True True 1 7 True empty_loop = Inr w0"
    "tcp_reach_poller True hello quiet w0 w3" "tc_state w3 = kDisconnecting"
    "Buffer_content (tc_outputBuffer w3) \<noteq> []" "length (Buffer_content (tc_outputBuffer w3)) \<le> 5"
    "tw_sent w3 = [104, 101, 108, 108, 111]"
    using example_closing .
  have "returns (tcp_drain True (Poller_updateChannel False True) [1, 9, 1, 1, 1] w3)
      (\<lambda>w'. tw_written w' = tw_sent w3 \<and> Buffer_content (tc_outputBuffer w') = [] \<and> tw_shutdown w')"
    by (rule TcpConnection_shutdown_completes [OF empty_loop_start w(1) quiet_possible w(2, 3, 4)]) (use w(5) in simp_all)
  then show ?thesis using w(3, 4, 6) by (intro exI [of _ w3]) (auto elim!: returns_mono)
qed

text \<open>
  C39. Closing by the peer and destroying by the owner do not go together: after \<^verbatim>\<open>handleClose\<close>
  the connection is disconnected and no longer watched, and \<^verbatim>\<open>connectDestroyed\<close>, which the
  server and the client queue from the close callback, then fails its assert in a build with asserts, so
  the channel is never removed.
\<close>

theorem TcpConnection_destroy_after_close:
  assumes "tcp_start fd c l" and "TcpConnection_new True True c fd True l = Inr w0" and "body_possible mem body"
    and "tcp_reach_poller True mem body w0 w" and "tcp_up (tc_state w)"
    and "tcp_event_run True (Poller_updateChannel False True) (Poller_removeChannel False True) mem body CloseEvent w = Inr w'"
  shows "tc_state w' = kDisconnected \<and> Poller_watched (tw_loop w') fd = None \<and>
    tcp_event_run True (Poller_updateChannel False True) (Poller_removeChannel False True) mem body Destroy w' = Inl AssertFail"
proof -
  have ok: "poller_tcp.ok fd (tw_sent w) w" by (rule reach_new_ok [OF assms(1-4)])
  have "poller_tcp.ok fd (tw_sent w') w' \<and> tc_state w' = kDisconnected \<and> Poller_watched (tw_loop w') fd = None \<and>
      Poller_known (tw_loop w') (tc_channel w') fd"
    using poller_tcp.handleClose_ok [OF ok poller_tcp.ok_known [OF ok assms(5)] assms(3), of True] assms(5, 6) by simp
  then show ?thesis
    by (simp add: TcpConnection_connectDestroyed_def assertInLoopThread_def Tcp_ok_def)
qed

theorem TcpConnection_destroy_after_close_witness:
  "\<exists>w w' :: (bool, Poller) Tcp. tc_state w = kConnected \<and>
    tcp_event_run True (Poller_updateChannel False True) (Poller_removeChannel False True) hello quiet CloseEvent w = Inr w' \<and>
    tcp_event_run True (Poller_updateChannel False True) (Poller_removeChannel False True) hello quiet Destroy w' = Inl AssertFail"
proof -
  obtain w0 w1 :: "(bool, Poller) Tcp" where w: "TcpConnection_new True True 1 7 True empty_loop = Inr w0"
    "tcp_reach_poller True hello quiet w0 w1" "tc_state w1 = kConnected"
    using example_up .
  have up: "tcp_up (tc_state w1)" using w(3) by simp
  have ok: "poller_tcp.ok 7 (tw_sent w1) w1" by (rule reach_new_ok [OF empty_loop_start w(1) quiet_possible w(2)])
  obtain l where l: "Channel_disableAll True (Poller_updateChannel False True) (tc_channel w1) (tw_loop w1) = Inr l"
    using poller_tcp.disable_ok [OF ok poller_tcp.ok_known [OF ok up], of True] by blast
  have "tw_inLoop w1" using ok by (simp add: Tcp_ok_def)
  then obtain w' where w': "tcp_event_run True (Poller_updateChannel False True) (Poller_removeChannel False True) hello quiet
      CloseEvent w1 = Inr w'"
    using l w(3) by (cases "tc_closeCallback w1")
      (simp_all add: TcpConnection_handleClose_def assertInLoopThread_def on_channel_def call_user_def user_script_def)
  from TcpConnection_destroy_after_close [OF empty_loop_start w(1) quiet_possible w(2) up w'] show ?thesis
    using w(3) w' by blast
qed

text \<open>
  A failed write is not noticed: whatever error \<^verbatim>\<open>write\<close> reports, a broken pipe or a reset
  connection included, \<^verbatim>\<open>sendInLoop\<close> treats it as a full socket: the bytes are kept in the output
  buffer and the connection waits for room to write.
\<close>

theorem TcpConnection_write_error_ignored:
  assumes "tcp_start fd c l" and "TcpConnection_new dbg True c fd True l = Inr w0" and "body_possible mem body"
    and "tcp_reach_poller dbg mem body w0 w" and "tc_state w = kConnected" and "Buffer_content (tc_outputBuffer w) = []"
    and "op_possible mem (Send (WriteErr e) ptr len)" and "0 < len"
    and "TcpConnection_sendInLoop dbg (Poller_updateChannel False True) (WriteErr e) mem ptr len w = Inr w'"
  shows "Buffer_content (tc_outputBuffer w') = take len (the (mem ptr)) \<and> tc_state w' = kConnected \<and>
    Poller_watched (tw_loop w') fd = Some (7, tc_channel w')"
proof -
  have ok: "poller_tcp.ok fd (tw_sent w) w" by (rule reach_new_ok [OF assms(1-4)])
  have ok': "poller_tcp.ok fd (tw_sent w @ take len (the (mem ptr))) w'"
    using poller_tcp.sendInLoop_ok [OF ok assms(5, 7), of dbg] assms(8, 9) by simp
  have st: "tc_state w' = kConnected" and written: "tw_written w' = tw_written w"
    using sendInLoop_frame [OF assms(9)] assms(5) by simp_all
  have "tw_written w = tw_sent w" using ok assms(6) by (simp add: Tcp_ok_def)
  then have out: "Buffer_content (tc_outputBuffer w') = take len (the (mem ptr))"
    using ok' written by (simp add: Tcp_ok_def)
  have "take len (the (mem ptr)) \<noteq> []" using assms(7, 8) by auto
  then have "Poller_watched (tw_loop w') fd = Some (7, tc_channel w')"
    using ok_watched [OF ok'] st out by simp
  then show ?thesis using st out by simp
qed

theorem TcpConnection_write_error_ignored_witness:
  "\<exists>w w' :: (bool, Poller) Tcp. tc_state w = kConnected \<and>
    TcpConnection_sendInLoop True (Poller_updateChannel False True) (WriteErr EPIPE) hello 100 5 w = Inr w' \<and>
    Buffer_content (tc_outputBuffer w') = [104, 101, 108, 108, 111]"
proof -
  obtain w0 w1 :: "(bool, Poller) Tcp" where w0: "TcpConnection_new True True 1 7 True empty_loop = Inr w0"
    and w1: "tcp_reach_poller True hello quiet w0 w1" "tc_state w1 = kConnected" "tc_channel w1 = 1"
      "Buffer_content (tc_outputBuffer w1) = []" "tw_sent w1 = []"
      "Buffer_size (tc_outputBuffer w1) = 8 + kInitialSize" "tc_highWaterMark w1 = 64 * 1024 * 1024"
    using example_up .
  have ok: "poller_tcp.ok 7 (tw_sent w1) w1" by (rule reach_new_ok [OF empty_loop_start w0 quiet_possible w1(1)])
  obtain w' where w': "TcpConnection_sendInLoop True (Poller_updateChannel False True) (WriteErr EPIPE) hello 100 5 w1 = Inr w'"
    using example_send [OF ok w1(2, 4, 6, 7), of "WriteErr EPIPE"] by (auto simp: returns_iff)
  have "op_possible hello (Send (WriteErr EPIPE) 100 5)" by (simp add: hello_def vec_max_def)
  from TcpConnection_write_error_ignored [OF empty_loop_start w0 quiet_possible w1(1, 2, 4) this _ w'] show ?thesis
    using w1(2) w' by (auto simp: hello_def)
qed

text \<open>
  \<^verbatim>\<open>sendInLoop\<close> does not look at the state: the functor another thread's \<^verbatim>\<open>send\<close>
  queued while the connection was up, run after the connection was closed, makes the loop wait for
  room to write on the closed connection, although closing had left it watched for nothing.
\<close>

theorem TcpConnection_send_revives:
  assumes "tcp_start fd c l" and "TcpConnection_new dbg True c fd True l = Inr w0" and "body_possible mem body"
    and "tcp_reach_poller dbg mem body w0 w" and "tc_state w = kDisconnected"
    and "Poller_known (tw_loop w) (tc_channel w) fd" and "Buffer_content (tc_outputBuffer w) = []"
    and "op_possible mem (Send (WriteErr e) ptr len)" and "0 < len"
    and "run_functor dbg (Poller_updateChannel False True) user (WriteErr e) mem (SendFunctor ptr len) w = Inr w'"
  shows "Poller_watched (tw_loop w) fd = None \<and> tc_state w' = kDisconnected \<and>
    Poller_watched (tw_loop w') fd = Some (4, tc_channel w)"
proof -
  let ?upd = "Poller_updateChannel False True :: Poller loop_op" and ?c = "tc_channel w"
  have ok: "poller_tcp.ok fd (tw_sent w) w" by (rule reach_new_ok [OF assms(1-4)])
  obtain ch where ch: "the_channel w = Inr ch" "fst (tw_loop w) ?c = Some ch" "ch_loop ch" "ch_interestedEvents ch = 0"
    using poller_tcp.ok_channel [OF ok] assms(5) by (auto simp: tcp_interest_def)
  have loop: "tw_inLoop w" "Buffer_inv (tc_outputBuffer w)" "Poller_inv (tw_loop w)" using ok by (simp_all add: Tcp_ok_def)
  have none: "Poller_watched (tw_loop w) fd = None"
    using poller_channels.watched_channel [OF loop(3) assms(6) ch(2)] ch(4) by simp
  have zero: "Buffer_readableBytes (tc_outputBuffer w) = 0" using loop(2) assms(7) by (simp add: Buffer_readable_zero)
  obtain data where data: "load_bytes mem ptr len = Inr data" "length data = len"
    using assms(8, 9) by (auto simp: load_bytes_def)
  have hw: "tc_channel (high_water len w) = ?c" "tw_loop (high_water len w) = tw_loop w"
    "tc_outputBuffer (high_water len w) = tc_outputBuffer w"
    by (simp_all add: high_water_def queueInLoop_def Let_def)
  have "buffer_rest dbg ?upd data (high_water len w) = Inr w'"
    using assms(9, 10) loop(1) ch(1) zero data Channel_isWriting_bits(3) [OF ch(4)]
    by (auto simp: TcpConnection_sendInLoop_def assertInLoopThread_def Let_def write_directly_def cassert_holds)
  then obtain b l' where l': "Channel_enableWriting dbg ?upd ?c (tw_loop w) = Inr l'"
    and w': "w' = (high_water len w)\<lparr>tc_outputBuffer := b, tw_loop := l'\<rparr>"
    using ch Channel_isWriting_bits(3) [OF ch(4)] hw
    by (auto simp: buffer_rest_def Let_def the_channel_def on_channel_def)
  have "Poller_watched l' = (Poller_watched (tw_loop w))(fd \<mapsto> (4, ?c))"
    using poller_channels.setInterest_ok [OF loop(3) ch(2, 3), of "\<lambda>e. e OR kWriteEvent" 4 fd dbg] ch(4) assms(6) l'
    by (simp add: Channel_enableWriting_def)
  then show ?thesis using none w' assms(5) by simp
qed

theorem TcpConnection_send_revives_witness:
  "\<exists>w w' :: (bool, Poller) Tcp. tc_state w = kDisconnected \<and> Poller_watched (tw_loop w) 7 = None \<and>
    run_functor True (Poller_updateChannel False True) (\<lambda>_. Inr) (WriteErr EAGAIN) hello (SendFunctor 100 5) w = Inr w' \<and>
    Poller_watched (tw_loop w') 7 = Some (4, 1)"
proof -
  let ?upd = "Poller_updateChannel False True :: Poller loop_op"
  obtain w0 w1 :: "(bool, Poller) Tcp" where w0: "TcpConnection_new True True 1 7 True empty_loop = Inr w0"
    and w1: "tcp_reach_poller True hello quiet w0 w1" "tc_state w1 = kConnected" "tc_channel w1 = 1"
      "Buffer_content (tc_outputBuffer w1) = []" "tw_sent w1 = []"
      "Buffer_size (tc_outputBuffer w1) = 8 + kInitialSize" "tc_highWaterMark w1 = 64 * 1024 * 1024"
      "tc_closeCallback w1 = None"
    using example_up .
  have up: "tcp_up (tc_state w1)" using w1(2) by simp
  have ok: "poller_tcp.ok 7 [] w1" using reach_new_ok [OF empty_loop_start w0 quiet_possible w1(1)] w1(5) by simp
  obtain l where l: "Channel_disableAll True ?upd (tc_channel w1) (tw_loop w1) = Inr l" "Poller_known l (tc_channel w1) 7"
    "Poller_watched l 7 = None" "poller_tcp.ok 7 [] (w1\<lparr>tc_state := kDisconnected, tw_loop := l\<rparr>)"
    using poller_tcp.disable_ok [OF ok poller_tcp.ok_known [OF ok up], of True] .
  define w2 where "w2 = w1\<lparr>tc_state := kDisconnected, tw_loop := l\<rparr>"
  have loop: "tw_inLoop w1" using ok by (simp add: Tcp_ok_def)
  have "tcp_event_run True ?upd (Poller_removeChannel False True) hello quiet CloseEvent w1 = Inr w2"
    using l(1) loop w1(2, 8)
    by (simp add: TcpConnection_handleClose_def assertInLoopThread_def on_channel_def w2_def)
  from tcp_reach.step [OF w1(1) _ this] have r2: "tcp_reach_poller True hello quiet w0 w2" by (simp add: up)
  have ok2: "poller_tcp.ok 7 [] w2" and w2: "tc_state w2 = kDisconnected" "tc_channel w2 = 1" "tw_loop w2 = l"
    "tc_outputBuffer w2 = tc_outputBuffer w1" "tw_inLoop w2" "tc_highWaterMark w2 = 64 * 1024 * 1024"
    using l(4) w1(3, 7) loop by (simp_all add: w2_def)
  have inv: "Buffer_inv (tc_outputBuffer w2)" "Poller_inv l" using ok2 w2(3) by (simp_all add: Tcp_ok_def)
  have zero: "Buffer_readableBytes (tc_outputBuffer w2) = 0" using inv w1(4) w2(4) by (simp add: Buffer_readable_zero)
  obtain ch where ch: "the_channel w2 = Inr ch" "fst l 1 = Some ch" "ch_loop ch" "ch_interestedEvents ch = 0"
    using poller_tcp.ok_channel [OF ok2] w2 by (auto simp: tcp_interest_def)
  obtain b where b: "Buffer_append True (tc_outputBuffer w2) [104, 101, 108, 108, 111] = Inr b"
    using Buffer_append_ok [OF inv(1), of "[104, 101, 108, 108, 111]" True] w1(4, 6) w2(4)
    by (auto simp: returns_iff vec_max_def kInitialSize_def)
  obtain l' where l': "Channel_enableWriting True ?upd 1 l = Inr l'"
    using poller_channels.setInterest_ok [OF inv(2) ch(2, 3), of "\<lambda>e. e OR kWriteEvent" 4 7 True] ch(4) l(2) w1(3)
    by (auto simp: Channel_enableWriting_def returns_iff)
  have hw: "high_water 5 w2 = w2" using zero w2(6) by (simp add: high_water_def Let_def szadd_def)
  have data: "load_bytes hello 100 5 = Inr [104, 101, 108, 108, 111]" by (simp add: load_bytes_def hello_def)
  define data where "data = ([104, 101, 108, 108, 111] :: byte list)"
  have len: "length data = 5" by (simp add: data_def)
  have rest: "buffer_rest True ?upd data w2 = Inr (w2\<lparr>tc_outputBuffer := b, tw_loop := l'\<rparr>)"
    using b ch l' w2 Channel_isWriting_bits(3) [OF ch(4)]
    by (simp add: buffer_rest_def data_def Let_def the_channel_def on_channel_def)
  obtain w' where w': "run_functor True ?upd (\<lambda>_. Inr) (WriteErr EAGAIN) hello (SendFunctor 100 5) w2 = Inr w'"
    using w2 ch zero data [folded data_def] rest hw len Channel_isWriting_bits(3) [OF ch(4)]
    by (simp add: TcpConnection_sendInLoop_def assertInLoopThread_def Let_def write_directly_def)
  have "op_possible hello (Send (WriteErr EAGAIN) 100 5)" by (simp add: hello_def vec_max_def)
  from TcpConnection_send_revives [OF empty_loop_start w0 quiet_possible r2 w2(1) _ _ this _ w'] show ?thesis
    using w2 w' l(2) w1(3, 4) by (intro exI [of _ w2] exI [of _ w']) simp
qed

text \<open>
  The high water mark is 64 megabytes from the start, its callback is not set from the start: a
  connection on which nobody set it that has that much to buffer queues the call of an empty
  \<^verbatim>\<open>std::function\<close>, which throws \<^verbatim>\<open>std::bad_function_call\<close> in the loop.
\<close>

theorem TcpConnection_high_water_unset:
  assumes "tcp_start fd c l" and "TcpConnection_new dbg True c fd True l = Inr w0" and "body_possible mem body"
    and "tcp_reach_poller dbg mem body w0 w" and "tc_state w = kConnected" and "Buffer_content (tc_outputBuffer w) = []"
    and "tc_highWaterMarkCallback w = None" and "tc_highWaterMark w \<noteq> 0" and "tc_highWaterMark w \<le> len"
    and "op_possible mem (Send (WriteErr e) ptr len)" and "len < 2 ^ 64"
    and "TcpConnection_sendInLoop dbg (Poller_updateChannel False True) (WriteErr e) mem ptr len w = Inr w'"
  shows "tw_functors w' = tw_functors w @ [HighWaterMarkFunctor None len] \<and>
    run_functor dbg (Poller_updateChannel False True) user wr mem (last (tw_functors w')) w' = Inl BadCall"
proof -
  have ok: "poller_tcp.ok fd (tw_sent w) w" by (rule reach_new_ok [OF assms(1-4)])
  obtain ch where ch: "the_channel w = Inr ch" "ch_interestedEvents ch = 3"
    using poller_tcp.ok_channel [OF ok] assms(5, 6) by (auto simp: tcp_interest_def)
  have loop: "tw_inLoop w" "Buffer_inv (tc_outputBuffer w)" using ok by (simp_all add: Tcp_ok_def)
  have zero: "Buffer_readableBytes (tc_outputBuffer w) = 0" using loop(2) assms(6) by (simp add: Buffer_readable_zero)
  have pos: "0 < len" using assms(8, 9) by simp
  then obtain data where data: "load_bytes mem ptr len = Inr data" "length data = len"
    using assms(10) by (auto simp: load_bytes_def)
  have "buffer_rest dbg (Poller_updateChannel False True) data (high_water len w) = Inr w'"
    using pos assms(12) loop(1) ch(1) zero data Channel_isWriting_bits(1) [OF ch(2)]
    by (auto simp: TcpConnection_sendInLoop_def assertInLoopThread_def Let_def write_directly_def cassert_holds)
  then have "tw_functors w' = tw_functors (high_water len w)" using buffer_rest_frame by blast
  also have "\<dots> = tw_functors w @ [HighWaterMarkFunctor None len]"
    using assms(7-9, 11) zero by (simp add: high_water_def queueInLoop_def Let_def szadd_exact)
  finally show ?thesis by (simp add: call_user_def)
qed

theorem TcpConnection_high_water_unset_witness:
  "\<exists>w w' :: (bool, Poller) Tcp. tc_state w = kConnected \<and>
    TcpConnection_sendInLoop True (Poller_updateChannel False True) (WriteErr EAGAIN)
      [100 \<mapsto> replicate 67108864 0] 100 67108864 w = Inr w' \<and>
    run_functor True (Poller_updateChannel False True) (\<lambda>_. Inr) (WriteOk 0) (\<lambda>_. None) (last (tw_functors w')) w' = Inl BadCall"
proof -
  let ?upd = "Poller_updateChannel False True :: Poller loop_op"
  define mem :: "nat \<Rightarrow> byte list option" where "mem = [100 \<mapsto> replicate 67108864 0]"
  define data :: "byte list" where "data = replicate 67108864 0"
  have len: "length data = 67108864" by (simp add: data_def)
  then have ne: "data \<noteq> []" by auto
  obtain w0 w1 :: "(bool, Poller) Tcp" where w0: "TcpConnection_new True True 1 7 True empty_loop = Inr w0"
    and w1: "tcp_reach_poller True mem quiet w0 w1" "tc_state w1 = kConnected" "tc_channel w1 = 1"
      "Buffer_content (tc_outputBuffer w1) = []" "tw_sent w1 = []"
      "Buffer_size (tc_outputBuffer w1) = 8 + kInitialSize" "tc_highWaterMark w1 = 64 * 1024 * 1024"
      "tc_closeCallback w1 = None" "tc_highWaterMarkCallback w1 = None"
    using example_up .
  have ok: "poller_tcp.ok 7 [] w1" using reach_new_ok [OF empty_loop_start w0 quiet_possible w1(1)] w1(5) by simp
  have loop: "tw_inLoop w1" and inv: "Buffer_inv (tc_outputBuffer w1)" using ok by (simp_all add: Tcp_ok_def)
  obtain ch where ch: "the_channel w1 = Inr ch" "ch_interestedEvents ch = 3"
    using poller_tcp.ok_channel [OF ok] w1(2, 4) by (auto simp: tcp_interest_def)
  have zero: "Buffer_readableBytes (tc_outputBuffer w1) = 0" using inv w1(4) by (simp add: Buffer_readable_zero)
  have hw: "high_water 67108864 w1 = queueInLoop (HighWaterMarkFunctor None 67108864) w1"
    using zero w1(7, 9) by (simp add: high_water_def Let_def szadd_def)
  have okq: "poller_tcp.ok 7 [] (queueInLoop (HighWaterMarkFunctor None 67108864) w1)"
    by (rule poller_tcp.ok_queue [OF ok]) simp_all
  obtain b where b: "Buffer_append True (tc_outputBuffer w1) data = Inr b" "Buffer_inv b"
    "Buffer_content b = Buffer_content (tc_outputBuffer w1) @ data"
    using Buffer_append_ok [OF inv, of data True] w1(4, 6) len
    by (auto simp: returns_iff vec_max_def kInitialSize_def)
  obtain w' where "buffer_rest True ?upd data (high_water 67108864 w1) = Inr w'"
    using poller_tcp.buffer_rest_returns [OF okq _ ne, of True b] b w1(2) unfolding hw
    by (auto simp: returns_iff queueInLoop_def)
  then have w': "TcpConnection_sendInLoop True ?upd (WriteErr EAGAIN) mem 100 67108864 w1 = Inr w'"
    using loop ch(1) zero len ne Channel_isWriting_bits(1) [OF ch(2)]
    by (auto simp: TcpConnection_sendInLoop_def assertInLoopThread_def Let_def write_directly_def load_bytes_def mem_def
        data_def [symmetric])
  have "op_possible mem (Send (WriteErr EAGAIN) 100 67108864)"
    using len by (simp add: mem_def data_def [symmetric] vec_max_def)
  from TcpConnection_high_water_unset [OF empty_loop_start w0 quiet_possible w1(1, 2, 4, 9) _ _ this _ w', of "\<lambda>_. Inr" "WriteOk 0"] show ?thesis
    using w1(2, 7) w' unfolding mem_def by auto
qed

end
