(* ===== verification/LoopThreads.thy ===== *)
theory LoopThreads
  imports Printf
begin

text \<open>
  The threads that run event loops: the hand-over of a loop between two threads in eventloopthread.h and
  eventloopthread.cc, as interleaved steps, and the pool of eventloopthreadpool.h and eventloopthreadpool.cc
  that deals its loops out in turn. The loops themselves are those of EventLoop; here they are addresses.
\<close>

section \<open>EventLoopThread\<close>

text \<open>
  Where the owner is in \<^verbatim>\<open>startLoop\<close> or the destructor, and the new thread in \<^verbatim>\<open>threadFunc\<close>. A critical
  section is one step; \<open>Unlocked\<close> is between the block of the mutex and the return, \<open>Quitting\<close> between the
  test of \<^verbatim>\<open>loop_\<close> and the use of it.
\<close>

datatype owner_at = OwnerIdle | Locking | Waiting | Unlocked | Started "nat option" | Quitting | Joining | Destroyed

datatype loop_at = NotCreated | InCallback | Publishing | Entering | Running | Leaving | Finished

text \<open>\<open>lt_quit\<close> is \<^verbatim>\<open>quit_\<close> of the loop, the one of its members that matters here.\<close>

record EventLoopThread =
  lt_loop :: "nat option"
  lt_exiting :: bool
  lt_started :: bool
  lt_quit :: bool
  lt_owner :: owner_at
  lt_thread :: loop_at

definition EventLoopThread_new :: EventLoopThread where
  "EventLoopThread_new = \<lparr>lt_loop = None, lt_exiting = False, lt_started = False, lt_quit = False,
     lt_owner = OwnerIdle, lt_thread = NotCreated\<rparr>"

text \<open>A step is \<open>None\<close> when it is not enabled.\<close>

definition EventLoopThread_startLoop :: "bool \<Rightarrow> EventLoopThread \<Rightarrow> EventLoopThread res option" where
  "EventLoopThread_startLoop dbg s =
     (case lt_owner s of
        OwnerIdle \<Rightarrow> Some (cassert dbg (\<not> lt_started s)
          (Inr (s\<lparr>lt_started := True, lt_owner := Locking, lt_thread := InCallback\<rparr>)))
      | Locking \<Rightarrow> Some (Inr (s\<lparr>lt_owner := (if lt_loop s = None then Waiting else Unlocked)\<rparr>))
      | Unlocked \<Rightarrow> Some (Inr (s\<lparr>lt_owner := Started (lt_loop s)\<rparr>))
      | _ \<Rightarrow> None)"

definition EventLoopThread_destroy :: "EventLoopThread \<Rightarrow> EventLoopThread res option" where
  "EventLoopThread_destroy s =
     (case lt_owner s of
        Started p \<Rightarrow> Some (Inr (s\<lparr>lt_exiting := True, lt_owner := (if lt_loop s \<noteq> None then Quitting else Destroyed)\<rparr>))
      | OwnerIdle \<Rightarrow> Some (Inr (s\<lparr>lt_exiting := True, lt_owner := (if lt_loop s \<noteq> None then Quitting else Destroyed)\<rparr>))
      | Quitting \<Rightarrow> Some (case lt_loop s of None \<Rightarrow> Inl BadPointer
                        | Some _ \<Rightarrow> Inr (s\<lparr>lt_quit := True, lt_owner := Joining\<rparr>))
      | Joining \<Rightarrow> (if lt_thread s = Finished then Some (Inr (s\<lparr>lt_owner := Destroyed\<rparr>)) else None)
      | _ \<Rightarrow> None)"

text \<open>
  \<open>a\<close> is the address of the local loop. Waking moves a waiting owner back to its test of \<^verbatim>\<open>loop_\<close>; entering
  \<^verbatim>\<open>loop()\<close> resets \<^verbatim>\<open>quit_\<close>, and it is left once \<^verbatim>\<open>quit_\<close> is set.
\<close>

definition EventLoopThread_threadFunc :: "nat \<Rightarrow> EventLoopThread \<Rightarrow> EventLoopThread res option" where
  "EventLoopThread_threadFunc a s =
     (case lt_thread s of
        InCallback \<Rightarrow> Some (Inr (s\<lparr>lt_thread := Publishing\<rparr>))
      | Publishing \<Rightarrow> Some (Inr (s\<lparr>lt_loop := Some a,
            lt_owner := (if lt_owner s = Waiting then Locking else lt_owner s), lt_thread := Entering\<rparr>))
      | Entering \<Rightarrow> Some (Inr (s\<lparr>lt_quit := False, lt_thread := Running\<rparr>))
      | Running \<Rightarrow> (if lt_quit s then Some (Inr (s\<lparr>lt_thread := Leaving\<rparr>)) else None)
      | Leaving \<Rightarrow> Some (Inr (s\<lparr>lt_loop := None, lt_thread := Finished\<rparr>))
      | _ \<Rightarrow> None)"

text \<open>Code that got the loop from the callback, or runs in it, may quit it while it exists.\<close>

datatype thread_act = StartStep | DestroyStep | ThreadStep | SomebodyQuits

fun thread_step :: "bool \<Rightarrow> nat \<Rightarrow> thread_act \<Rightarrow> EventLoopThread \<Rightarrow> EventLoopThread res option" where
  "thread_step dbg a StartStep s = EventLoopThread_startLoop dbg s"
| "thread_step dbg a DestroyStep s = EventLoopThread_destroy s"
| "thread_step dbg a ThreadStep s = EventLoopThread_threadFunc a s"
| "thread_step dbg a SomebodyQuits s =
     (if lt_thread s \<in> {InCallback, Publishing, Entering, Running} then Some (Inr (s\<lparr>lt_quit := True\<rparr>)) else None)"

text \<open>A schedule; steps that are not enabled are passed over.\<close>

fun thread_run :: "bool \<Rightarrow> nat \<Rightarrow> thread_act list \<Rightarrow> EventLoopThread \<Rightarrow> EventLoopThread res" where
  "thread_run dbg a [] s = Inr s"
| "thread_run dbg a (x # xs) s =
     (case thread_step dbg a x s of
        None \<Rightarrow> thread_run dbg a xs s
      | Some r \<Rightarrow> bindR r (thread_run dbg a xs))"

text \<open>The states reached by schedules in which only the actions \<open>A\<close> occur.\<close>

inductive thread_reach for dbg a A where
  start: "thread_reach dbg a A EventLoopThread_new"
| step: "thread_reach dbg a A s \<Longrightarrow> x \<in> A \<Longrightarrow> thread_step dbg a x s = Some (Inr s') \<Longrightarrow> thread_reach dbg a A s'"

section \<open>The hand-over\<close>

definition thread_ok :: "nat \<Rightarrow> EventLoopThread \<Rightarrow> bool" where
  "thread_ok a s \<longleftrightarrow>
     (lt_owner s = OwnerIdle \<longrightarrow> lt_thread s = NotCreated \<and> \<not> lt_started s) \<and>
     lt_loop s = (if lt_thread s \<in> {Entering, Running, Leaving} then Some a else None) \<and>
     (lt_owner s = Locking \<longrightarrow> lt_thread s \<in> {InCallback, Publishing, Entering, Running}) \<and>
     (lt_owner s = Waiting \<longrightarrow> lt_thread s \<in> {InCallback, Publishing}) \<and>
     (lt_owner s \<in> {Unlocked, Quitting} \<longrightarrow> lt_thread s \<in> {Entering, Running}) \<and>
     (\<forall>p. lt_owner s = Started p \<longrightarrow> p = Some a \<and> lt_thread s \<in> {Entering, Running}) \<and>
     (lt_quit s \<longrightarrow> lt_owner s \<in> {Joining, Destroyed})"

text \<open>How many steps are left, of either thread.\<close>

definition steps_left :: "EventLoopThread \<Rightarrow> nat" where
  "steps_left s =
     (case lt_owner s of OwnerIdle \<Rightarrow> 14 | Locking \<Rightarrow> 5 | Waiting \<Rightarrow> 4 | Unlocked \<Rightarrow> 4 | Started _ \<Rightarrow> 3
        | Quitting \<Rightarrow> 2 | Joining \<Rightarrow> 1 | Destroyed \<Rightarrow> 0) +
     (case lt_thread s of NotCreated \<Rightarrow> 0 | InCallback \<Rightarrow> 6 | Publishing \<Rightarrow> 5 | Entering \<Rightarrow> 3 | Running \<Rightarrow> 2
        | Leaving \<Rightarrow> 1 | Finished \<Rightarrow> 0)"

lemmas thread_step_defs = EventLoopThread_startLoop_def EventLoopThread_destroy_def EventLoopThread_threadFunc_def

lemma thread_step_decreases:
  assumes "thread_step dbg a x s = Some (Inr s')" "x \<noteq> SomebodyQuits"
  shows "steps_left s' < steps_left s"
  using assms
  by (cases x; cases "lt_owner s"; cases "lt_thread s")
    (auto simp: thread_step_defs steps_left_def cassert_def split: if_splits option.splits)

lemma thread_step_ok:
  assumes "thread_ok a s" "thread_step dbg a x s = Some r" "x \<noteq> SomebodyQuits"
  shows "returns r (thread_ok a)"
proof (cases x)
  case StartStep
  then show ?thesis
    using assms by (cases "lt_owner s") (auto simp: thread_step_defs thread_ok_def cassert_def)
next
  case DestroyStep
  then show ?thesis
    using assms by (cases "lt_owner s") (auto simp: thread_step_defs thread_ok_def split: if_splits option.splits)
next
  case ThreadStep
  then show ?thesis
    using assms by (cases "lt_thread s") (auto simp: thread_step_defs thread_ok_def split: if_splits)
qed (use assms(3) in simp)

lemma thread_reach_ok:
  assumes "thread_reach dbg a A s" "SomebodyQuits \<notin> A"
  shows "thread_ok a s"
  using assms(1)
proof (induction rule: thread_reach.induct)
  case start
  show ?case by (simp add: thread_ok_def EventLoopThread_new_def)
next
  case (step s x s')
  then show ?case using thread_step_ok [OF step.IH step.hyps(3)] assms(2) by auto
qed

section \<open>EventLoopThreadPool\<close>

text \<open>\<open>'l\<close> are the addresses of loops. \<open>tp_names\<close> are the names given to the threads of \<^verbatim>\<open>threads_\<close>.\<close>

record 'l EventLoopThreadPool =
  tp_baseLoop :: 'l
  tp_name :: string
  tp_started :: bool
  tp_numThreads :: int
  tp_next :: int
  tp_names :: "string list"
  tp_loops :: "'l list"

definition EventLoopThreadPool_new :: "'l \<Rightarrow> string \<Rightarrow> 'l EventLoopThreadPool" where
  "EventLoopThreadPool_new baseLoop name =
     \<lparr>tp_baseLoop = baseLoop, tp_name = name, tp_started = False, tp_numThreads = 0, tp_next = 0,
      tp_names = [], tp_loops = []\<rparr>"

definition EventLoopThreadPool_setThreadNum :: "int \<Rightarrow> 'l EventLoopThreadPool \<Rightarrow> 'l EventLoopThreadPool" where
  "EventLoopThreadPool_setThreadNum numThreads p = p\<lparr>tp_numThreads := numThreads\<rparr>"

text \<open>
  \<open>startLoop i\<close> is the loop the thread number \<open>i\<close> hands over. The result says whether the callback was called
  on the base loop itself; \<open>cb\<close> whether there is a callback.
\<close>

fun start_threads :: "(nat \<Rightarrow> 'l) \<Rightarrow> nat \<Rightarrow> nat \<Rightarrow> 'l EventLoopThreadPool \<Rightarrow> 'l EventLoopThreadPool" where
  "start_threads startLoop i 0 p = p"
| "start_threads startLoop i (Suc n) p =
     (let buf = snprintf (szadd (length (tp_name p)) 32) (tp_name p @ fmt_d 0 (int i)) in
      start_threads startLoop (Suc i) n
        (p\<lparr>tp_names := tp_names p @ [buf], tp_loops := tp_loops p @ [startLoop i]\<rparr>))"

definition EventLoopThreadPool_start ::
  "bool \<Rightarrow> bool \<Rightarrow> bool \<Rightarrow> (nat \<Rightarrow> 'l) \<Rightarrow> 'l EventLoopThreadPool \<Rightarrow> (bool \<times> 'l EventLoopThreadPool) res" where
  "EventLoopThreadPool_start dbg inLoop cb startLoop p =
     cassert dbg (\<not> tp_started p) (if \<not> inLoop then Inl FatalAbort
       else Inr (tp_numThreads p = 0 \<and> cb,
                 start_threads startLoop 0 (nat (tp_numThreads p)) (p\<lparr>tp_started := True\<rparr>)))"

definition EventLoopThreadPool_getNextLoop ::
  "bool \<Rightarrow> bool \<Rightarrow> 'l EventLoopThreadPool \<Rightarrow> ('l \<times> 'l EventLoopThreadPool) res" where
  "EventLoopThreadPool_getNextLoop dbg inLoop p =
     (if \<not> inLoop then Inl FatalAbort
      else cassert dbg (tp_started p)
        (if tp_loops p \<noteq> []
         then if tp_next p < 0 \<or> length (tp_loops p) \<le> nat (tp_next p) then Inl OutOfBounds
              else let loop = tp_loops p ! nat (tp_next p); next' = tp_next p + 1 in
                   Inr (loop, p\<lparr>tp_next := (if length (tp_loops p) \<le> size_of_int next' then 0 else next')\<rparr>)
         else Inr (tp_baseLoop p, p)))"

fun next_loops :: "bool \<Rightarrow> nat \<Rightarrow> 'l EventLoopThreadPool \<Rightarrow> ('l list \<times> 'l EventLoopThreadPool) res" where
  "next_loops dbg 0 p = Inr ([], p)"
| "next_loops dbg (Suc k) p =
     bindR (EventLoopThreadPool_getNextLoop dbg True p) (\<lambda>(l, p').
     bindR (next_loops dbg k p') (\<lambda>(ls, p''). Inr (l # ls, p'')))"

lemma start_threads_eq:
  assumes "length (tp_name p) + 32 < 2 ^ 64" "i + n < 2 ^ 31"
  shows "start_threads startLoop i n p = p\<lparr>tp_names := tp_names p @ map (\<lambda>k. tp_name p @ dec_nat k) [i..<i + n],
    tp_loops := tp_loops p @ map startLoop [i..<i + n]\<rparr>"
  using assms
proof (induction n arbitrary: i p)
  case (Suc n)
  have "length (dec_nat i) \<le> 10" using Suc.prems by (intro length_dec_nat) simp_all
  then have "snprintf (szadd (length (tp_name p)) 32) (tp_name p @ fmt_d 0 (int i)) = tp_name p @ dec_nat i"
    using Suc.prems by (simp add: szadd_exact snprintf_fits fmt_d_def pad_left_def)
  moreover have "[i..<i + Suc n] = i # [Suc i..<Suc i + n]" by (simp add: upt_conv_Cons del: upt_Suc)
  ultimately show ?case
    using Suc.prems by (simp add: Let_def Suc.IH del: upt_Suc)
qed simp

lemma next_loops_eq:
  assumes "tp_started p" "tp_loops p \<noteq> []" "length (tp_loops p) < 2 ^ 31" "tp_next p = int m" "m < length (tp_loops p)"
  shows "next_loops dbg k p = Inr (map (\<lambda>i. tp_loops p ! ((m + i) mod length (tp_loops p))) [0..<k],
    p\<lparr>tp_next := int ((m + k) mod length (tp_loops p))\<rparr>)"
  using assms
proof (induction k arbitrary: p m)
  case 0
  then show ?case by simp
next
  case (Suc k)
  let ?n = "length (tp_loops p)" and ?m = "Suc m mod length (tp_loops p)"
  have m: "?m = (if ?n \<le> Suc m then 0 else Suc m)" using Suc.prems by (cases "Suc m = ?n") simp_all
  have n: "(if ?n \<le> size_of_int (int m + 1) then 0 else int m + 1) = int ?m"
    using Suc.prems(3, 5) unfolding m by (simp add: size_of_int_exact nat_add_distrib)
  have step: "EventLoopThreadPool_getNextLoop dbg True p = Inr (tp_loops p ! m, p\<lparr>tp_next := int ?m\<rparr>)"
    using Suc.prems unfolding EventLoopThreadPool_getNextLoop_def Let_def Suc.prems(4) n by (simp add: cassert_holds)
  have "?m < ?n" using Suc.prems by (intro mod_less_divisor) auto
  then have rest: "next_loops dbg k (p\<lparr>tp_next := int ?m\<rparr>) =
      Inr (map (\<lambda>i. tp_loops p ! ((?m + i) mod ?n)) [0..<k], p\<lparr>tp_next := int ((?m + k) mod ?n)\<rparr>)"
    using Suc.IH [of "p\<lparr>tp_next := int ?m\<rparr>" ?m] Suc.prems by simp
  have "map (\<lambda>i. tp_loops p ! ((m + i) mod ?n)) [0..<Suc k] =
      tp_loops p ! m # map (\<lambda>i. tp_loops p ! ((?m + i) mod ?n)) [0..<k]"
    using Suc.prems(5) by (simp add: upt_conv_Cons map_Suc_upt [symmetric] mod_simps del: upt_Suc)
  then show ?case
    using step rest by (simp add: mod_simps)
qed

section \<open>Properties\<close>

text \<open>
  C18. As long as nobody else quits the loop, \<^verbatim>\<open>startLoop\<close> returns, in every interleaving of the two threads,
  and what it returns is the address of the loop, which exists and is about to run or running: while the
  owner is in \<^verbatim>\<open>startLoop\<close> one of the two threads can step, and every step of a thread returns and leaves
  fewer steps to do.
\<close>

theorem EventLoopThread_starts:
  assumes "thread_reach dbg a {StartStep, DestroyStep, ThreadStep} s"
  shows "(\<forall>p. lt_owner s = Started p \<longrightarrow> p = Some a \<and> lt_thread s \<in> {Entering, Running}) \<and>
    (lt_owner s \<in> {Locking, Waiting, Unlocked} \<longrightarrow>
       thread_step dbg a StartStep s \<noteq> None \<or> thread_step dbg a ThreadStep s \<noteq> None) \<and>
    (\<forall>x r. x \<noteq> SomebodyQuits \<and> thread_step dbg a x s = Some r \<longrightarrow> returns r (\<lambda>s'. steps_left s' < steps_left s))"
proof -
  have ok: "thread_ok a s" by (rule thread_reach_ok [OF assms]) simp
  have "returns r (\<lambda>s'. steps_left s' < steps_left s)"
    if x: "x \<noteq> SomebodyQuits" "thread_step dbg a x s = Some r" for x r
    using thread_step_ok [OF ok x(2, 1)] thread_step_decreases [OF _ x(1)] x(2) by (auto simp: returns_iff)
  moreover have "thread_step dbg a StartStep s \<noteq> None \<or> thread_step dbg a ThreadStep s \<noteq> None"
    if "lt_owner s \<in> {Locking, Waiting, Unlocked}"
    using ok that by (cases "lt_owner s") (auto simp: thread_ok_def thread_step_defs)
  moreover have "\<forall>p. lt_owner s = Started p \<longrightarrow> p = Some a \<and> lt_thread s \<in> {Entering, Running}"
    using ok by (simp add: thread_ok_def)
  ultimately show ?thesis by blast
qed

theorem EventLoopThread_starts_witness:
  "returns (thread_run True 7 [StartStep, StartStep, ThreadStep, ThreadStep, StartStep, StartStep] EventLoopThread_new)
     (\<lambda>s. lt_owner s = Started (Some 7) \<and> lt_thread s \<in> {Entering, Running})"
proof -
  let ?A = "{StartStep, DestroyStep, ThreadStep}"
  have r: "thread_reach True 7 ?A s \<Longrightarrow> set xs \<subseteq> ?A \<Longrightarrow> thread_run True 7 xs s = Inr s' \<Longrightarrow> thread_reach True 7 ?A s'" for s xs s'
  proof (induction xs arbitrary: s)
    case (Cons x xs)
    then show ?case
    proof (cases "thread_step True 7 x s")
      case (Some r)
      then obtain s1 where "r = Inr s1" "thread_run True 7 xs s1 = Inr s'" using Cons.prems(3) by auto
      then show ?thesis using Cons.IH [OF thread_reach.step [OF Cons.prems(1)]] Cons.prems(2) Some by auto
    qed simp
  qed simp
  obtain s where s: "thread_run True 7 [StartStep, StartStep, ThreadStep, ThreadStep, StartStep, StartStep] EventLoopThread_new = Inr s"
      "lt_owner s = Started (Some 7)"
    by (auto simp: thread_step_defs EventLoopThread_new_def)
  have "thread_reach True 7 ?A s" by (rule r [OF thread_reach.start _ s(1)]) simp
  from EventLoopThread_starts [OF this] s show ?thesis by simp
qed

text \<open>
  Four schedules in which the hand-over fails. When the loop is quit before the owner has looked, the
  owner waits for ever, with no step left in either thread; quit a little later, \<^verbatim>\<open>startLoop\<close> returns null;
  a destructor that comes before the thread enters \<^verbatim>\<open>loop()\<close> joins a thread whose loop has forgotten the
  request; and one that comes while the loop ends calls \<^verbatim>\<open>quit\<close> through a null pointer.
\<close>

theorem EventLoopThread_races:
  "returns (thread_run dbg a [StartStep, ThreadStep, ThreadStep, ThreadStep, SomebodyQuits, ThreadStep, ThreadStep, StartStep]
      EventLoopThread_new)
     (\<lambda>s. lt_owner s = Waiting \<and> thread_step dbg a StartStep s = None \<and> thread_step dbg a ThreadStep s = None \<and>
        thread_step dbg a DestroyStep s = None \<and> thread_step dbg a SomebodyQuits s = None) \<and>
   returns (thread_run dbg a [StartStep, ThreadStep, ThreadStep, StartStep, ThreadStep, SomebodyQuits, ThreadStep, ThreadStep,
      StartStep] EventLoopThread_new)
     (\<lambda>s. lt_owner s = Started None) \<and>
   returns (thread_run dbg a [StartStep, ThreadStep, ThreadStep, StartStep, StartStep, DestroyStep, DestroyStep, ThreadStep]
      EventLoopThread_new)
     (\<lambda>s. lt_owner s = Joining \<and> thread_step dbg a StartStep s = None \<and> thread_step dbg a ThreadStep s = None \<and>
        thread_step dbg a DestroyStep s = None) \<and>
   thread_run dbg a [StartStep, ThreadStep, ThreadStep, StartStep, StartStep, ThreadStep, DestroyStep, SomebodyQuits, ThreadStep,
      ThreadStep, DestroyStep] EventLoopThread_new = Inl BadPointer"
  by (simp add: thread_step_defs EventLoopThread_new_def)

text \<open>
  C36. A pool started with \<open>n\<close> threads names them by the pool's name and their number, in full, and deals out
  its loops in turn: the \<open>k\<close>-th call of \<^verbatim>\<open>getNextLoop\<close> returns loop \<open>k mod n\<close>, for any number of calls,
  without a fault in either build. With no threads every call returns the base loop.
\<close>

theorem EventLoopThreadPool_round_robin:
  assumes "0 \<le> n" "n < 2 ^ 31" "length name + 32 < 2 ^ 64"
  shows "\<exists>p. EventLoopThreadPool_start dbg True cb startLoop
        (EventLoopThreadPool_setThreadNum n (EventLoopThreadPool_new base name)) = Inr (n = 0 \<and> cb, p) \<and>
     tp_names p = map (\<lambda>i. name @ dec_nat i) [0..<nat n] \<and>
     returns (next_loops dbg k p) (\<lambda>(ls, p').
       ls = map (\<lambda>i. if n = 0 then base else startLoop (i mod nat n)) [0..<k])"
proof -
  define p0 where "p0 = (EventLoopThreadPool_setThreadNum n (EventLoopThreadPool_new base name))\<lparr>tp_started := True\<rparr>"
  define p where "p = start_threads startLoop 0 (nat n) p0"
  have p: "tp_names p = map (\<lambda>i. name @ dec_nat i) [0..<nat n]" "tp_loops p = map startLoop [0..<nat n]"
      "tp_started p" "tp_next p = 0" "tp_baseLoop p = base"
    using assms start_threads_eq [of p0 0 "nat n" startLoop]
    by (simp_all add: p_def p0_def EventLoopThreadPool_setThreadNum_def EventLoopThreadPool_new_def nat_less_iff)
  have start: "EventLoopThreadPool_start dbg True cb startLoop
      (EventLoopThreadPool_setThreadNum n (EventLoopThreadPool_new base name)) = Inr (n = 0 \<and> cb, p)"
    by (simp add: EventLoopThreadPool_start_def p_def p0_def cassert_holds EventLoopThreadPool_setThreadNum_def
        EventLoopThreadPool_new_def)
  have "returns (next_loops dbg k p) (\<lambda>(ls, p').
       ls = map (\<lambda>i. if n = 0 then base else startLoop (i mod nat n)) [0..<k])"
  proof (cases "n = 0")
    case True
    have "EventLoopThreadPool_getNextLoop dbg True p = Inr (base, p)"
      using p True by (simp add: EventLoopThreadPool_getNextLoop_def cassert_holds)
    then have "next_loops dbg j p = Inr (replicate j base, p)" for j by (induction j) simp_all
    then show ?thesis using True by (simp add: map_replicate_const)
  next
    case False
    have "next_loops dbg k p = Inr (map (\<lambda>i. tp_loops p ! ((0 + i) mod length (tp_loops p))) [0..<k],
        p\<lparr>tp_next := int ((0 + k) mod length (tp_loops p))\<rparr>)"
      using p assms False by (intro next_loops_eq) (simp_all add: nat_less_iff)
    then show ?thesis using p assms False by simp
  qed
  with start p(1) show ?thesis by blast
qed

theorem EventLoopThreadPool_round_robin_witness:
  "\<exists>p. EventLoopThreadPool_start True True False (\<lambda>i. i + 1)
        (EventLoopThreadPool_setThreadNum 2 (EventLoopThreadPool_new (0::nat) ''io'')) = Inr (False, p) \<and>
     returns (next_loops True 5 p) (\<lambda>(ls, p'). ls = [1, 2, 1, 2, 1])"
proof -
  have l: "map (\<lambda>i. if (2::int) = 0 then (0::nat) else i mod nat 2 + 1) [0..<5] = [1, 2, 1, 2, 1]" by code_simp
  show ?thesis
    using EventLoopThreadPool_round_robin [of 2 "''io''" True False "\<lambda>i. i + 1" "0::nat" 5] unfolding l by auto
qed

end
