(* ===== verification/TcpServer.thy ===== *)
theory TcpServer
  imports Tcp_Properties Acceptor LoopThreads
begin

text \<open>
  The server of tcpserver.h and tcpserver.cc over its acceptor, its pool of loops and its connections. The
  connections are objects on a heap, each in one of several loops; the acceptor's channel has a store of its
  own. Log output is left out.
\<close>

section \<open>Connections and loops\<close>

text \<open>A connection object beside what TcpConnection holds: its name and its loop.\<close>

record ('cb, 'w) conn_object =
  co_name :: string
  co_loop :: nat
  co_tcp :: "('cb, 'w) Tcp"

text \<open>
  The loops with their channels, the connection objects, the \<^verbatim>\<open>connectDestroyed\<close> functors queued in each
  loop, and the loop in whose thread the code runs.
\<close>

record ('cb, 'w) world =
  wd_loops :: "nat \<Rightarrow> tcp_handler store \<times> 'w"
  wd_conns :: "nat \<Rightarrow> ('cb, 'w) conn_object option"
  wd_destroys :: "nat \<Rightarrow> nat list"
  wd_thread :: nat

text \<open>A member function of the connection at \<open>k\<close>, in the thread that runs.\<close>

definition on_conn ::
  "nat \<Rightarrow> (('cb, 'w) Tcp \<Rightarrow> ('cb, 'w) Tcp res) \<Rightarrow> ('cb, 'w) world \<Rightarrow> ('cb, 'w) world res" where
  "on_conn k f w =
     (case wd_conns w k of
        None \<Rightarrow> Inl BadPointer
      | Some ob \<Rightarrow>
          bindR (f ((co_tcp ob)\<lparr>tw_loop := wd_loops w (co_loop ob), tw_inLoop := (wd_thread w = co_loop ob)\<rparr>)) (\<lambda>t.
            Inr (w\<lparr>wd_conns := (wd_conns w)(k \<mapsto> ob\<lparr>co_tcp := t\<rparr>),
                   wd_loops := (wd_loops w)(co_loop ob := tw_loop t)\<rparr>)))"

definition queue_destroy :: "nat \<Rightarrow> nat \<Rightarrow> ('cb, 'w) world \<Rightarrow> ('cb, 'w) world" where
  "queue_destroy l k w = w\<lparr>wd_destroys := (wd_destroys w)(l := wd_destroys w l @ [k])\<rparr>"

text \<open>
  The callbacks of a connection: the close callback of its owner and the one that stands in for an owner that is
  gone, the two defaults of tcpconnection.cc, or the user's.
\<close>

datatype 'u owner_cb = RemoveConnection | OrphanRemove | DefaultConnection | DefaultMessage | UserCb 'u

section \<open>TcpServer\<close>

text \<open>
  The pending functors of the base loop that concern the server: listen, or remove a connection.
\<close>

datatype server_functor = ListenFunctor | RemoveFunctor nat

record ('u, 'w) TcpServer =
  ts_loop :: nat
  ts_name :: string
  ts_acceptor :: "(unit, 'w) Acceptor"
  ts_threadPool :: "nat EventLoopThreadPool option"
  ts_connectionCallback :: "'u option"
  ts_messageCallback :: "'u option"
  ts_started :: bool
  ts_nextConnId :: int
  ts_connections :: "string \<Rightarrow> nat option"
  ts_functors :: "server_functor list"
  ts_world :: "('u owner_cb, 'w) world"

definition TcpServer_new ::
  "bind_call \<Rightarrow> nat \<Rightarrow> int \<Rightarrow> sockaddr \<Rightarrow> string \<Rightarrow> nat \<Rightarrow> acceptor_handler store \<times> 'w \<Rightarrow> ('u owner_cb, 'w) world \<Rightarrow>
     ('u, 'w) TcpServer res" where
  "TcpServer_new bind c sockfd listenAddr name loop la world =
     bindR (Acceptor_new bind c sockfd listenAddr (wd_thread world = loop) la) (\<lambda>acceptor.
       Inr \<lparr>ts_loop = loop, ts_name = name, ts_acceptor = Acceptor_setNewConnectionCallback () acceptor,
            ts_threadPool = None, ts_connectionCallback = None, ts_messageCallback = None, ts_started = False,
            ts_nextConnId = 0, ts_connections = (\<lambda>_. None), ts_functors = [], ts_world = world\<rparr>)"

definition TcpServer_setConnectionCallback :: "'u \<Rightarrow> ('u, 'w) TcpServer \<Rightarrow> ('u, 'w) TcpServer" where
  "TcpServer_setConnectionCallback cb s = s\<lparr>ts_connectionCallback := Some cb\<rparr>"

definition TcpServer_setMessageCallback :: "'u \<Rightarrow> ('u, 'w) TcpServer \<Rightarrow> ('u, 'w) TcpServer" where
  "TcpServer_setMessageCallback cb s = s\<lparr>ts_messageCallback := Some cb\<rparr>"

definition server_in_loop :: "('u, 'w) TcpServer \<Rightarrow> bool" where
  "server_in_loop s \<longleftrightarrow> wd_thread (ts_world s) = ts_loop s"

definition server_listen :: "bool \<Rightarrow> 'w acceptor_op \<Rightarrow> int \<Rightarrow> ('u, 'w) TcpServer \<Rightarrow> ('u, 'w) TcpServer res" where
  "server_listen dbg upd ret s =
     bindR (Acceptor_listen dbg upd ret ((ts_acceptor s)\<lparr>aw_inLoop := server_in_loop s\<rparr>)) (\<lambda>a.
       Inr (s\<lparr>ts_acceptor := a\<rparr>))"

definition TcpServer_start :: "bool \<Rightarrow> 'w acceptor_op \<Rightarrow> int \<Rightarrow> ('u, 'w) TcpServer \<Rightarrow> ('u, 'w) TcpServer res" where
  "TcpServer_start dbg upd ret s =
     cassert dbg (\<not> ac_listenning (ts_acceptor s))
       (if server_in_loop s then server_listen dbg upd ret s
        else Inr (s\<lparr>ts_functors := ts_functors s @ [ListenFunctor]\<rparr>))"

text \<open>
  \<open>k\<close> and \<open>c\<close> are the addresses of the new object and its channel, \<open>bound\<close> says whether the constructor of the
  connection can bind the socket.
\<close>

definition TcpServer_newConnection ::
  "bool \<Rightarrow> 'w loop_op \<Rightarrow> ('u owner_cb, 'w) tcp_user \<Rightarrow> nat \<Rightarrow> nat \<Rightarrow> bool \<Rightarrow> int \<Rightarrow>
     ('u, 'w) TcpServer \<Rightarrow> ('u, 'w) TcpServer res" where
  "TcpServer_newConnection dbg upd user k c bound sockfd s =
     (if \<not> server_in_loop s then Inl FatalAbort else
      let buf = snprintf 64 (''#'' @ fmt_d 0 (ts_nextConnId s)) in
      bindR (cint 32 (ts_nextConnId s + 1)) (\<lambda>n.
      let connName = ts_name s @ buf in
      case ts_threadPool s of
        None \<Rightarrow> Inl BadPointer
      | Some pool \<Rightarrow>
          bindR (EventLoopThreadPool_getNextLoop dbg (wd_thread (ts_world s) = tp_baseLoop pool) pool) (\<lambda>(ioLoop, pool').
          bindR (TcpConnection_new dbg bound c sockfd (wd_thread (ts_world s) = ioLoop) (wd_loops (ts_world s) ioLoop)) (\<lambda>conn.
            let conn = TcpConnection_setCloseCallback RemoveConnection
                  (conn\<lparr>tc_connectionCallback := map_option UserCb (ts_connectionCallback s),
                        tc_messageCallback := map_option UserCb (ts_messageCallback s)\<rparr>);
                world = (ts_world s)\<lparr>wd_conns := (wd_conns (ts_world s))(k \<mapsto> \<lparr>co_name = connName, co_loop = ioLoop, co_tcp = conn\<rparr>),
                                     wd_loops := (wd_loops (ts_world s))(ioLoop := tw_loop conn)\<rparr>
            in bindR (on_conn k (TcpConnection_connectEstablished dbg upd user) world) (\<lambda>world'.
                 Inr (s\<lparr>ts_nextConnId := n, ts_threadPool := Some pool',
                        ts_connections := (ts_connections s)(connName \<mapsto> k), ts_world := world'\<rparr>))))))"

definition TcpServer_removeConnectionInLoop :: "bool \<Rightarrow> nat \<Rightarrow> ('u, 'w) TcpServer \<Rightarrow> ('u, 'w) TcpServer res" where
  "TcpServer_removeConnectionInLoop dbg k s =
     (if \<not> server_in_loop s then Inl FatalAbort else
      case wd_conns (ts_world s) k of
        None \<Rightarrow> Inl BadPointer
      | Some ob \<Rightarrow>
          let n = (if ts_connections s (co_name ob) = None then 0 else 1 :: nat);
              s' = s\<lparr>ts_connections := (ts_connections s)(co_name ob := None)\<rparr>
          in cassert dbg (n = 1) (Inr (s'\<lparr>ts_world := queue_destroy (co_loop ob) k (ts_world s')\<rparr>)))"

definition TcpServer_removeConnection :: "bool \<Rightarrow> nat \<Rightarrow> ('u, 'w) TcpServer \<Rightarrow> ('u, 'w) TcpServer res" where
  "TcpServer_removeConnection dbg k s =
     (if server_in_loop s then TcpServer_removeConnectionInLoop dbg k s
      else Inr (s\<lparr>ts_functors := ts_functors s @ [RemoveFunctor k]\<rparr>))"

text \<open>A functor of the base loop runs in its thread.\<close>

definition server_functor_run ::
  "bool \<Rightarrow> 'w acceptor_op \<Rightarrow> int \<Rightarrow> ('u, 'w) TcpServer \<Rightarrow> ('u, 'w) TcpServer res" where
  "server_functor_run dbg upd ret s =
     (case ts_functors s of
        [] \<Rightarrow> Inr s
      | f # fs \<Rightarrow> let s' = s\<lparr>ts_functors := fs\<rparr> in
          (case f of ListenFunctor \<Rightarrow> server_listen dbg upd ret s'
           | RemoveFunctor k \<Rightarrow> TcpServer_removeConnectionInLoop dbg k s'))"

text \<open>
  What happens to a server. A connection is accepted by the acceptor, whose callback is \<^verbatim>\<open>newConnection\<close>; it
  is closed by \<^verbatim>\<open>handleClose\<close>, whose last call is the close callback, \<^verbatim>\<open>removeConnection\<close>; a loop runs
  the first \<^verbatim>\<open>connectDestroyed\<close> in its queue. \<open>InThread\<close> says that another thread goes on.
\<close>

datatype 'u server_event =
    SetServerConnection 'u
  | SetServerMessage 'u
  | StartServer int
  | Accepted nat nat bool accept_result
  | Closed nat
  | ServerFunctor int
  | DestroyFunctor nat
  | InThread nat

definition server_close ::
  "bool \<Rightarrow> 'w loop_op \<Rightarrow> ('u owner_cb, 'w) tcp_user \<Rightarrow> nat \<Rightarrow> ('u, 'w) TcpServer \<Rightarrow> ('u, 'w) TcpServer res" where
  "server_close dbg upd user k s =
     bindR (on_conn k (TcpConnection_handleClose dbg upd user) (ts_world s)) (\<lambda>world.
       TcpServer_removeConnection dbg k (s\<lparr>ts_world := world\<rparr>))"

definition server_accept ::
  "bool \<Rightarrow> 'w loop_op \<Rightarrow> ('u owner_cb, 'w) tcp_user \<Rightarrow> nat \<Rightarrow> nat \<Rightarrow> bool \<Rightarrow> accept_result \<Rightarrow>
     ('u, 'w) TcpServer \<Rightarrow> ('u, 'w) TcpServer res" where
  "server_accept dbg upd user k c bound r s =
     bindR (Acceptor_handleRead quiet_user zero_in6 r ((ts_acceptor s)\<lparr>aw_inLoop := server_in_loop s\<rparr>)) (\<lambda>a.
       let s' = s\<lparr>ts_acceptor := a\<rparr> in
       case r of
         AcceptErr e \<Rightarrow> Inr s'
       | AcceptOk connfd addr \<Rightarrow>
           if 0 \<le> connfd then TcpServer_newConnection dbg upd user k c bound connfd s' else Inr s')"

definition server_destroy ::
  "bool \<Rightarrow> 'w loop_op \<Rightarrow> 'w loop_op \<Rightarrow> ('u owner_cb, 'w) tcp_user \<Rightarrow> nat \<Rightarrow> ('u, 'w) TcpServer \<Rightarrow> ('u, 'w) TcpServer res" where
  "server_destroy dbg upd rem user l s =
     (case wd_destroys (ts_world s) l of
        [] \<Rightarrow> Inr s
      | k # ks \<Rightarrow>
          bindR (on_conn k (TcpConnection_connectDestroyed dbg upd rem user)
                   ((ts_world s)\<lparr>wd_destroys := (wd_destroys (ts_world s))(l := ks), wd_thread := l\<rparr>)) (\<lambda>world.
            Inr (s\<lparr>ts_world := world\<lparr>wd_thread := wd_thread (ts_world s)\<rparr>\<rparr>)))"

fun server_event_run ::
  "bool \<Rightarrow> 'w acceptor_op \<Rightarrow> 'w loop_op \<Rightarrow> 'w loop_op \<Rightarrow> ('u owner_cb, 'w) tcp_user \<Rightarrow> 'u server_event \<Rightarrow>
     ('u, 'w) TcpServer \<Rightarrow> ('u, 'w) TcpServer res" where
  "server_event_run dbg upda upd rem user (SetServerConnection cb) s = Inr (TcpServer_setConnectionCallback cb s)"
| "server_event_run dbg upda upd rem user (SetServerMessage cb) s = Inr (TcpServer_setMessageCallback cb s)"
| "server_event_run dbg upda upd rem user (StartServer ret) s = TcpServer_start dbg upda ret s"
| "server_event_run dbg upda upd rem user (Accepted k c bound r) s = server_accept dbg upd user k c bound r s"
| "server_event_run dbg upda upd rem user (Closed k) s = server_close dbg upd user k s"
| "server_event_run dbg upda upd rem user (ServerFunctor ret) s = server_functor_run dbg upda ret s"
| "server_event_run dbg upda upd rem user (DestroyFunctor l) s = server_destroy dbg upd rem user l s"
| "server_event_run dbg upda upd rem user (InThread l) s = Inr (s\<lparr>ts_world := (ts_world s)\<lparr>wd_thread := l\<rparr>\<rparr>)"

fun server_events_run ::
  "bool \<Rightarrow> 'w acceptor_op \<Rightarrow> 'w loop_op \<Rightarrow> 'w loop_op \<Rightarrow> ('u owner_cb, 'w) tcp_user \<Rightarrow> 'u server_event list \<Rightarrow>
     ('u, 'w) TcpServer \<Rightarrow> ('u, 'w) TcpServer res" where
  "server_events_run dbg upda upd rem user [] s = Inr s"
| "server_events_run dbg upda upd rem user (ev # evs) s =
     bindR (server_event_run dbg upda upd rem user ev s) (server_events_run dbg upda upd rem user evs)"

section \<open>Lemmas\<close>

lemma server_in_loop_simps [simp]:
  "server_in_loop (s\<lparr>ts_acceptor := a\<rparr>) = server_in_loop s"
  "server_in_loop (s\<lparr>ts_functors := fs\<rparr>) = server_in_loop s"
  "server_in_loop (s\<lparr>ts_connections := m\<rparr>) = server_in_loop s"
  by (simp_all add: server_in_loop_def)

text \<open>The decimal text of a connection's number fits the array of 64 bytes.\<close>

lemma conn_number_text:
  assumes "0 \<le> n" "n < 2 ^ 31"
  shows "snprintf 64 (''#'' @ fmt_d 0 n) = ''#'' @ dec_nat (nat n)"
proof -
  have "length (dec_nat (nat n)) \<le> 10" using assms by (intro length_dec_nat) (simp_all add: nat_less_iff)
  then show ?thesis using assms by (simp add: snprintf_fits fmt_d_def pad_left_def)
qed

lemmas conn_number_texts = conn_number_text conn_number_text [simplified]

lemma dec_nat_inject: "dec_nat m = dec_nat n \<longleftrightarrow> m = n"
  by (metis dec_value_dec_nat)

text \<open>
  Names of live connections carry numbers already used. Every operation keeps this, whatever happens to the
  connections themselves.
\<close>

definition names_ok :: "('u, 'w) TcpServer \<Rightarrow> bool" where
  "names_ok s \<longleftrightarrow> 0 \<le> ts_nextConnId s \<and>
     (\<forall>nm \<in> dom (ts_connections s). \<exists>i. int i < ts_nextConnId s \<and> nm = ts_name s @ ''#'' @ dec_nat i)"

lemma names_ok_next:
  assumes "names_ok s"
  shows "ts_connections s (ts_name s @ ''#'' @ dec_nat (nat (ts_nextConnId s))) = None"
proof (rule ccontr)
  let ?nm = "ts_name s @ ''#'' @ dec_nat (nat (ts_nextConnId s))"
  assume "ts_connections s ?nm \<noteq> None"
  then have "?nm \<in> dom (ts_connections s)" by (simp only: domIff not_False_eq_True)
  then obtain i where i: "int i < ts_nextConnId s" "?nm = ts_name s @ ''#'' @ dec_nat i"
    using assms unfolding names_ok_def by (elim conjE bspec [elim_format] exE)
  then have "dec_nat (nat (ts_nextConnId s)) = dec_nat i" by (simp only: append_same_eq same_append_eq)
  then show False using i(1) by (simp add: dec_nat_inject)
qed

lemma newConnection_names:
  assumes "names_ok s" "TcpServer_newConnection dbg upd user k c bound sockfd s = Inr s'"
  shows "names_ok s' \<and> ts_name s' = ts_name s \<and> ts_nextConnId s' = ts_nextConnId s + 1 \<and>
    ts_connections s' = (ts_connections s)(ts_name s @ ''#'' @ dec_nat (nat (ts_nextConnId s)) \<mapsto> k)"
proof -
  have n: "0 \<le> ts_nextConnId s" using assms(1) by (simp add: names_ok_def)
  obtain m where m: "cint 32 (ts_nextConnId s + 1) = Inr m"
    using assms(2) by (cases "cint 32 (ts_nextConnId s + 1)") (auto simp: TcpServer_newConnection_def Let_def split: if_splits)
  then have "m = ts_nextConnId s + 1" "ts_nextConnId s < 2 ^ 31" by (auto simp: cint_def split: if_splits)
  then have "ts_name s' = ts_name s \<and> ts_nextConnId s' = ts_nextConnId s + 1 \<and>
    ts_connections s' = (ts_connections s)(ts_name s @ ''#'' @ dec_nat (nat (ts_nextConnId s)) \<mapsto> k)"
    using assms(2) m n
    by (auto simp: TcpServer_newConnection_def Let_def conn_number_texts split: if_splits option.splits)
  moreover have "\<exists>i. int i < ts_nextConnId s + 1 \<and> nm = ts_name s @ ''#'' @ dec_nat i"
    if "nm \<in> dom ((ts_connections s)(ts_name s @ ''#'' @ dec_nat (nat (ts_nextConnId s)) \<mapsto> k))" for nm
  proof (cases "nm = ts_name s @ ''#'' @ dec_nat (nat (ts_nextConnId s))")
    case True
    then show ?thesis using n by (intro exI [of _ "nat (ts_nextConnId s)"]) simp
  next
    case False
    then have "nm \<in> dom (ts_connections s)" using that by auto
    then show ?thesis using assms(1) unfolding names_ok_def by (meson less_trans zless_add1_eq)
  qed
  ultimately show ?thesis using n by (simp add: names_ok_def)
qed

lemma names_ok_cong:
  assumes "ts_nextConnId s' = ts_nextConnId s" "dom (ts_connections s') \<subseteq> dom (ts_connections s)" "ts_name s' = ts_name s"
    and "names_ok s"
  shows "names_ok s'"
  using assms unfolding names_ok_def by (metis subsetD)

lemma removeInLoop_names:
  assumes "names_ok s" "TcpServer_removeConnectionInLoop dbg k s = Inr s'"
  shows "names_ok s'"
proof (rule names_ok_cong [OF _ _ _ assms(1)])
qed (use assms(2) in \<open>auto simp: TcpServer_removeConnectionInLoop_def Let_def cassert_eq_Inr split: if_splits option.splits\<close>)

lemma listen_names: "server_listen dbg upd ret s = Inr s' \<Longrightarrow> \<exists>a. s' = s\<lparr>ts_acceptor := a\<rparr>"
  by (auto simp: server_listen_def)

lemma server_event_names:
  assumes ok: "names_ok s" and run: "server_event_run dbg upda upd rem user ev s = Inr s'"
  shows "names_ok s'"
proof (cases ev)
  case (Accepted k c bound r)
  have "names_ok (s\<lparr>ts_acceptor := a\<rparr>)" for a by (rule names_ok_cong [OF _ _ _ ok]) simp_all
  then show ?thesis
    using run Accepted
    by (cases r) (auto simp: server_accept_def Let_def dest!: newConnection_names [rotated, THEN conjunct1] split: if_splits)
next
  case (Closed k)
  have w: "names_ok (s\<lparr>ts_world := w\<rparr>)" "names_ok (s\<lparr>ts_world := w, ts_functors := fs\<rparr>)" for w fs
    by (rule names_ok_cong [OF _ _ _ ok]; simp)+
  show ?thesis
    using run Closed removeInLoop_names [OF w(1)] w(2)
    by (auto simp: server_close_def TcpServer_removeConnection_def split: if_splits)
next
  case (ServerFunctor ret)
  have f: "names_ok (s\<lparr>ts_functors := fs\<rparr>)" "names_ok (s\<lparr>ts_functors := fs, ts_acceptor := a\<rparr>)" for fs a
    by (rule names_ok_cong [OF _ _ _ ok]; simp)+
  show ?thesis
    using run ServerFunctor ok removeInLoop_names [OF f(1)] f(2)
    by (auto simp: server_functor_run_def Let_def dest!: listen_names split: list.splits server_functor.splits)
next
  case (StartServer ret)
  then show ?thesis
    using run ok by (auto simp: TcpServer_start_def cassert_eq_Inr dest!: listen_names intro: names_ok_cong [OF _ _ _ ok] split: if_splits)
next
  case (DestroyFunctor l)
  then show ?thesis
    using run ok by (auto simp: server_destroy_def intro: names_ok_cong [OF _ _ _ ok] split: list.splits)
qed (use run ok in \<open>auto simp: TcpServer_setConnectionCallback_def TcpServer_setMessageCallback_def intro: names_ok_cong [OF _ _ _ ok]\<close>)

lemma server_events_names:
  "names_ok s \<Longrightarrow> server_events_run dbg upda upd rem user evs s = Inr s' \<Longrightarrow> names_ok s'"
  by (induction evs arbitrary: s) (auto dest: server_event_names)

text \<open>Nothing gives a server a pool.\<close>

lemma no_pool_newConnection:
  assumes "ts_threadPool s = None" "ts_nextConnId s = 0" "server_in_loop s"
  shows "TcpServer_newConnection dbg upd user k c bound sockfd s = Inl BadPointer"
  using assms by (simp add: TcpServer_newConnection_def Let_def)

lemma no_pool_event:
  assumes p: "ts_threadPool s = None" "ts_nextConnId s = 0" and run: "server_event_run dbg upda upd rem user ev s = Inr s'"
  shows "ts_threadPool s' = None \<and> ts_nextConnId s' = 0"
proof (cases ev)
  case (Accepted k c bound r)
  have "TcpServer_newConnection dbg upd user k c bound fd (s\<lparr>ts_acceptor := a\<rparr>) \<noteq> Inr s'" for fd a
    using p by (simp add: TcpServer_newConnection_def Let_def)
  then show ?thesis
    using p run Accepted by (cases r) (auto simp: server_accept_def Let_def split: if_splits)
next
  case (Closed k)
  then show ?thesis
    using p run
    by (auto simp: server_close_def TcpServer_removeConnection_def TcpServer_removeConnectionInLoop_def Let_def cassert_eq_Inr
        split: if_splits option.splits)
next
  case (ServerFunctor ret)
  then show ?thesis
    using p run
    by (auto simp: server_functor_run_def TcpServer_removeConnectionInLoop_def Let_def cassert_eq_Inr
        dest!: listen_names split: list.splits server_functor.splits if_splits option.splits)
next
  case (StartServer ret)
  then show ?thesis
    using p run by (auto simp: TcpServer_start_def cassert_eq_Inr dest!: listen_names split: if_splits)
qed (use p run in \<open>auto simp: TcpServer_setConnectionCallback_def TcpServer_setMessageCallback_def server_destroy_def
      split: list.splits\<close>)

lemma no_pool_events:
  "ts_threadPool s = None \<Longrightarrow> ts_nextConnId s = 0 \<Longrightarrow> server_events_run dbg upda upd rem user evs s = Inr s' \<Longrightarrow>
   ts_threadPool s' = None \<and> ts_nextConnId s' = 0"
proof (induction evs arbitrary: s)
  case (Cons ev evs)
  then show ?case using no_pool_event [of s dbg upda upd rem user ev] by auto
qed simp

text \<open>A pool without threads, started: every connection is in the base loop.\<close>

definition single_loop :: "('u, 'w) TcpServer \<Rightarrow> bool" where
  "single_loop s \<longleftrightarrow> (\<exists>p. ts_threadPool s = Some p \<and> tp_started p \<and> tp_baseLoop p = ts_loop s \<and> tp_loops p = [])"

text \<open>The server after it has taken in the connection \<open>t\<close> at \<open>k\<close>.\<close>

definition served :: "('u, 'w) TcpServer \<Rightarrow> nat \<Rightarrow> ('u owner_cb, 'w) Tcp \<Rightarrow> ('u, 'w) TcpServer" where
  "served s k t =
     (let nm = ts_name s @ ''#'' @ dec_nat (nat (ts_nextConnId s)) in
      s\<lparr>ts_nextConnId := ts_nextConnId s + 1, ts_connections := (ts_connections s)(nm \<mapsto> k),
        ts_world := (ts_world s)\<lparr>wd_conns := (wd_conns (ts_world s))(k \<mapsto> \<lparr>co_name = nm, co_loop = ts_loop s, co_tcp = t\<rparr>),
                                 wd_loops := (wd_loops (ts_world s))(ts_loop s := tw_loop t)\<rparr>\<rparr>)"

lemma newConnection_single:
  fixes s :: "('u, Poller) TcpServer"
  assumes "names_ok s" "server_in_loop s" "single_loop s" "ts_nextConnId s < 2 ^ 31 - 1"
    and start: "tcp_start sockfd c (wd_loops (ts_world s) (ts_loop s))"
  obtains conn where "poller_tcp.ok sockfd (tw_sent conn) conn" "tc_state conn = TcpState.kConnecting" "tc_channel conn = c"
    "tc_connectionCallback conn = map_option UserCb (ts_connectionCallback s)"
    "TcpServer_newConnection dbg upd user k c True sockfd s =
       bindR (TcpConnection_connectEstablished dbg upd user conn) (\<lambda>t. Inr (served s k t))"
proof -
  let ?nm = "ts_name s @ ''#'' @ dec_nat (nat (ts_nextConnId s))" and ?l = "ts_loop s"
  obtain p where p: "ts_threadPool s = Some p" "tp_started p" "tp_baseLoop p = ?l" "tp_loops p = []"
    using assms(3) by (auto simp: single_loop_def)
  have thread: "wd_thread (ts_world s) = ?l" using assms(2) by (simp add: server_in_loop_def)
  have n: "cint 32 (ts_nextConnId s + 1) = Inr (ts_nextConnId s + 1)"
    "snprintf 64 (''#'' @ fmt_d 0 (ts_nextConnId s)) = ''#'' @ dec_nat (nat (ts_nextConnId s))"
    using assms(1, 4) by (simp_all add: names_ok_def conn_number_texts)
  have next': "EventLoopThreadPool_getNextLoop dbg (wd_thread (ts_world s) = tp_baseLoop p) p = Inr (?l, p)"
    using p thread by (simp add: EventLoopThreadPool_getNextLoop_def cassert_holds)
  obtain conn :: "('u owner_cb, Poller) Tcp" where conn: "TcpConnection_new dbg True c sockfd True (wd_loops (ts_world s) ?l) = Inr conn"
      "poller_tcp.ok sockfd [] conn" "tw_sent conn = []" "tc_state conn = TcpState.kConnecting" "tc_channel conn = c"
    using TcpConnection_new_ok [OF start, of dbg] by metis
  define conn' where "conn' = TcpConnection_setCloseCallback RemoveConnection
      (conn\<lparr>tc_connectionCallback := map_option UserCb (ts_connectionCallback s),
            tc_messageCallback := map_option UserCb (ts_messageCallback s)\<rparr>)"
  have conn': "poller_tcp.ok sockfd (tw_sent conn') conn'" "tc_state conn' = TcpState.kConnecting" "tc_channel conn' = c" "tw_inLoop conn'"
      "tc_connectionCallback conn' = map_option UserCb (ts_connectionCallback s)"
    using conn by (auto simp: conn'_def TcpConnection_setCloseCallback_def Tcp_ok_def)
  define w1 where "w1 = (ts_world s)\<lparr>wd_conns := (wd_conns (ts_world s))(k \<mapsto> \<lparr>co_name = ?nm, co_loop = ?l, co_tcp = conn'\<rparr>),
      wd_loops := (wd_loops (ts_world s))(?l := tw_loop conn')\<rparr>"
  have "TcpServer_newConnection dbg upd user k c True sockfd s =
      bindR (on_conn k (TcpConnection_connectEstablished dbg upd user) w1) (\<lambda>world'.
        Inr (s\<lparr>ts_nextConnId := ts_nextConnId s + 1, ts_threadPool := Some p,
               ts_connections := (ts_connections s)(?nm \<mapsto> k), ts_world := world'\<rparr>))"
    using assms(2) next' conn(1)
    by (simp only: TcpServer_newConnection_def not_True_eq_False if_False n Let_def bindR_simps p(1) option.case prod.case thread
        simp_thms w1_def conn'_def)
  also have "\<dots> = bindR (TcpConnection_connectEstablished dbg upd user conn') (\<lambda>t. Inr (served s k t))"
  proof -
    have "conn'\<lparr>tw_loop := wd_loops w1 ?l, tw_inLoop := (wd_thread w1 = ?l)\<rparr> = conn'"
      using conn'(4) thread by (simp add: w1_def)
    then have "on_conn k (TcpConnection_connectEstablished dbg upd user) w1 =
        bindR (TcpConnection_connectEstablished dbg upd user conn') (\<lambda>t.
          Inr (w1\<lparr>wd_conns := (wd_conns w1)(k \<mapsto> \<lparr>co_name = ?nm, co_loop = ?l, co_tcp = t\<rparr>),
                  wd_loops := (wd_loops w1)(?l := tw_loop t)\<rparr>))"
      by (simp add: on_conn_def w1_def)
    moreover have "s\<lparr>ts_threadPool := Some p\<rparr> = s" using p(1) by simp
    ultimately show ?thesis
      by (cases "TcpConnection_connectEstablished dbg upd user conn'") (simp_all add: served_def Let_def w1_def p(1))
  qed
  finally show ?thesis by (intro that [OF conn'(1-3, 5)])
qed

lemma served_removal:
  assumes "names_ok s" "server_in_loop s"
  shows "returns (TcpServer_removeConnection dbg k (served s k t)) (\<lambda>s''. ts_connections s'' = ts_connections s \<and>
         wd_destroys (ts_world s'') (ts_loop s) = wd_destroys (ts_world s) (ts_loop s) @ [k] \<and>
         TcpServer_removeConnection True k s'' = Inl AssertFail)"
  using assms(2) names_ok_next [OF assms(1)]
  by (simp add: TcpServer_removeConnection_def TcpServer_removeConnectionInLoop_def served_def Let_def server_in_loop_def
      queue_destroy_def cassert_def fun_upd_idem)

lemma on_conn_built: "(\<And>t. built p (f t) (f' t)) \<Longrightarrow> built p (on_conn k f w) (on_conn k f' w)"
  unfolding on_conn_def by (intro built_intros)

section \<open>Properties\<close>

text \<open>
  C40. A server never serves: its pool of loops is a null pointer from construction on, since no operation of
  the class sets it. Whatever sequence of operations a new server has gone through, the first connection
  accepted makes it follow that pointer.
\<close>

theorem TcpServer_never_serves:
  assumes "TcpServer_new bind c0 fd0 addr name loop la world = Inr s0"
    and "server_events_run dbg upda upd rem user evs s0 = Inr s" "server_in_loop s"
  shows "TcpServer_newConnection dbg' upd' user' k c bound sockfd s = Inl BadPointer"
proof -
  have "ts_threadPool s0 = None \<and> ts_nextConnId s0 = 0"
    using assms(1) by (auto simp: TcpServer_new_def)
  then show ?thesis
    using no_pool_events [OF _ _ assms(2)] no_pool_newConnection [OF _ _ assms(3)] by blast
qed

definition one_world :: "('u owner_cb, Poller) world" where
  "one_world = \<lparr>wd_loops = (\<lambda>_. (\<lambda>_. None, Poller_new)), wd_conns = (\<lambda>_. None), wd_destroys = (\<lambda>_. []), wd_thread = 0\<rparr>"

theorem TcpServer_never_serves_witness:
  "\<exists>s :: (unit, Poller) TcpServer. ts_connectionCallback s = Some () \<and>
     TcpServer_newConnection True (Poller_updateChannel False True) (\<lambda>_. Inr) 1 2 True 9 s = Inl BadPointer"
proof -
  obtain s0 where s0: "TcpServer_new (\<lambda>_ _. 0) 5 3 zero_in6 ''echo'' 0 (\<lambda>_. None, Poller_new) one_world =
      Inr (s0 :: (unit, Poller) TcpServer)" "server_in_loop s0"
    by (auto simp: TcpServer_new_def Acceptor_new_def createNonblockingOrDie_def Socket_bindAddress_def bindOrDie_def Let_def
        server_in_loop_def one_world_def)
  let ?s = "TcpServer_setConnectionCallback () s0"
  have run: "server_events_run True (Poller_updateChannel False True) (Poller_updateChannel False True)
      (Poller_removeChannel False True) (\<lambda>_. Inr) [SetServerConnection ()] s0 = Inr ?s" by simp
  have "server_in_loop ?s" using s0(2) by (simp add: TcpServer_setConnectionCallback_def server_in_loop_def)
  from TcpServer_never_serves [OF s0(1) run this] show ?thesis
    by (intro exI [of _ ?s]) (simp add: TcpServer_setConnectionCallback_def)
qed

text \<open>
  If a server had a pool, its connections would have names of their own: after any sequence of events, in
  any threads, every name in the map is the server's name, \<open>#\<close> and a number already used, so the name of the
  next connection is new and its entry replaces none, however many connections have come and gone.
\<close>

theorem TcpServer_names_unique:
  assumes "TcpServer_new bind c0 fd0 addr name loop la world = Inr s0"
    and "server_events_run dbg upda upd rem user evs (s0\<lparr>ts_threadPool := Some pool\<rparr>) = Inr s"
    and "TcpServer_newConnection dbg upd user k c bound sockfd s = Inr s'"
  shows "\<exists>nm. nm = ts_name s @ ''#'' @ dec_nat (nat (ts_nextConnId s)) \<and> ts_connections s nm = None \<and>
    ts_connections s' = (ts_connections s)(nm \<mapsto> k) \<and> ts_nextConnId s' = ts_nextConnId s + 1 \<and>
    (\<forall>nm' \<in> dom (ts_connections s). \<exists>i. int i < ts_nextConnId s \<and> nm' = ts_name s @ ''#'' @ dec_nat i)"
proof -
  have "names_ok (s0\<lparr>ts_threadPool := Some pool\<rparr>)"
    using assms(1) by (auto simp: TcpServer_new_def names_ok_def)
  then have ok: "names_ok s" by (rule server_events_names [OF _ assms(2)])
  then have "\<forall>nm' \<in> dom (ts_connections s). \<exists>i. int i < ts_nextConnId s \<and> nm' = ts_name s @ ''#'' @ dec_nat i"
    unfolding names_ok_def by blast
  with newConnection_names [OF ok assms(3)] names_ok_next [OF ok] show ?thesis by blast
qed

text \<open>A started pool that deals a loop other than the server's.\<close>

definition deals_other :: "('u, 'w) TcpServer \<Rightarrow> bool" where
  "deals_other s \<longleftrightarrow> (\<exists>p. ts_threadPool s = Some p \<and> tp_started p \<and> tp_baseLoop p = ts_loop s \<and> 0 \<le> tp_next p \<and>
     nat (tp_next p) < length (tp_loops p) \<and> tp_loops p ! nat (tp_next p) \<noteq> ts_loop s)"

lemma newConnection_other_loop:
  assumes "server_in_loop s" "deals_other s" "0 \<le> ts_nextConnId s" "ts_nextConnId s < 2 ^ 31 - 1"
  shows "TcpServer_newConnection dbg upd user k c bound sockfd s = Inl FatalAbort"
proof -
  obtain p where p: "ts_threadPool s = Some p" "tp_started p" "tp_baseLoop p = ts_loop s" "0 \<le> tp_next p"
      "nat (tp_next p) < length (tp_loops p)" "tp_loops p ! nat (tp_next p) \<noteq> ts_loop s"
    using assms(2) by (auto simp: deals_other_def)
  let ?io = "tp_loops p ! nat (tp_next p)"
  have thread: "wd_thread (ts_world s) = ts_loop s" using assms(1) by (simp add: server_in_loop_def)
  obtain p' where next': "EventLoopThreadPool_getNextLoop dbg (wd_thread (ts_world s) = tp_baseLoop p) p = Inr (?io, p')"
    using p thread by (cases "tp_loops p = []") (simp_all add: EventLoopThreadPool_getNextLoop_def cassert_holds Let_def)
  have "8 + kInitialSize \<le> vec_max" by (simp add: kInitialSize_def vec_max_def)
  then obtain b where "Buffer_new dbg kInitialSize = Inr b"
    using Buffer_new_size [of kInitialSize dbg] by (auto simp: returns_iff)
  then show ?thesis
    using assms p next' thread
    by (simp add: TcpServer_newConnection_def Let_def TcpConnection_new_def on_conn_def TcpConnection_connectEstablished_def
        assertInLoopThread_def TcpConnection_setCloseCallback_def)
qed

lemma newConnection_unbound:
  assumes "server_in_loop s" "single_loop s" "0 \<le> ts_nextConnId s" "ts_nextConnId s < 2 ^ 31 - 1"
  shows "TcpServer_newConnection dbg upd user k c False sockfd s = Inl FatalAbort"
proof -
  obtain p where p: "ts_threadPool s = Some p" "tp_started p" "tp_baseLoop p = ts_loop s" "tp_loops p = []"
    using assms(2) by (auto simp: single_loop_def)
  have thread: "wd_thread (ts_world s) = ts_loop s" using assms(1) by (simp add: server_in_loop_def)
  have "EventLoopThreadPool_getNextLoop dbg (wd_thread (ts_world s) = tp_baseLoop p) p = Inr (ts_loop s, p)"
    using p thread by (simp add: EventLoopThreadPool_getNextLoop_def cassert_holds)
  moreover have "8 + kInitialSize \<le> vec_max" by (simp add: kInitialSize_def vec_max_def)
  then obtain b where "Buffer_new dbg kInitialSize = Inr b"
    using Buffer_new_size [of kInitialSize dbg] by (auto simp: returns_iff)
  ultimately show ?thesis
    using assms p thread by (simp add: TcpServer_newConnection_def Let_def TcpConnection_new_def)
qed

lemma newConnection_built:
  "built pdbg (TcpServer_newConnection dbg (Poller_updateChannel pdbg True) (user_script dbg (Poller_updateChannel pdbg True) mem body)
       k c bound sockfd s)
     (TcpServer_newConnection dbg (Poller_updateChannel False True) (user_script dbg (Poller_updateChannel False True) mem body)
       k c bound sockfd s)"
  unfolding TcpServer_newConnection_def Let_def
  by (intro built_intros on_conn_built poller_tcp_builds.connectEstablished_built)

text \<open>What a server with a connection is like, and that its removal undoes it.\<close>

definition serves :: "bool \<Rightarrow> ('u, Poller) TcpServer \<Rightarrow> nat \<Rightarrow> nat \<Rightarrow> int \<Rightarrow> ('u, Poller) TcpServer \<Rightarrow> bool" where
  "serves dbg s k c sockfd s' \<longleftrightarrow> (\<exists>nm ob. ts_connections s nm = None \<and> ts_connections s' = (ts_connections s)(nm \<mapsto> k) \<and>
     wd_conns (ts_world s') k = Some ob \<and> co_name ob = nm \<and> tcp_up (tc_state (co_tcp ob)) \<and>
     Poller_watched (wd_loops (ts_world s') (ts_loop s)) sockfd =
       Some (if Buffer_content (tc_outputBuffer (co_tcp ob)) = [] then 3 else 7, c) \<and>
     returns (TcpServer_removeConnection dbg k s') (\<lambda>s''. ts_connections s'' = ts_connections s \<and>
       wd_destroys (ts_world s'') (ts_loop s) = wd_destroys (ts_world s) (ts_loop s) @ [k] \<and>
       TcpServer_removeConnection True k s'' = Inl AssertFail))"

lemma newConnection_serves:
  fixes s :: "('u, Poller) TcpServer"
  assumes "names_ok s" "server_in_loop s" "single_loop s" "ts_nextConnId s < 2 ^ 31 - 1"
    and "tcp_start sockfd c (wd_loops (ts_world s) (ts_loop s))" "body_possible mem body"
  shows "outcome (if ts_connectionCallback s = None then {BadCall} else {LengthError})
    (TcpServer_newConnection dbg (Poller_updateChannel False True) (user_script dbg (Poller_updateChannel False True) mem body)
       k c True sockfd s) (\<lambda>s'. ts_connectionCallback s \<noteq> None \<and> serves dbg s k c sockfd s')"
proof -
  let ?upd = "Poller_updateChannel False True :: nat \<Rightarrow> tcp_handler reactor \<Rightarrow> tcp_handler reactor res"
  let ?user = "user_script dbg ?upd mem body"
  let ?nm = "ts_name s @ ''#'' @ dec_nat (nat (ts_nextConnId s))"
  obtain conn where conn: "poller_tcp.ok sockfd (tw_sent conn) conn" "tc_state conn = TcpState.kConnecting" "tc_channel conn = c"
      "tc_connectionCallback conn = map_option UserCb (ts_connectionCallback s)"
      "TcpServer_newConnection dbg ?upd ?user k c True sockfd s =
         bindR (TcpConnection_connectEstablished dbg ?upd ?user conn) (\<lambda>t. Inr (served s k t))"
    by (rule newConnection_single [OF assms(1-5)])
  show ?thesis
  proof (cases "ts_connectionCallback s")
    case None
    obtain l where "Channel_enableReading dbg ?upd (tc_channel conn) (tw_loop conn) = Inr l"
      using poller_tcp.enable_ok [OF conn(1, 2), of dbg] .
    from poller_tcp.connectEstablished_eq [OF conn(1, 2) this] show ?thesis
      using None conn(4) unfolding conn(5) by (simp add: call_user_def)
  next
    case (Some cb)
    have est: "outcome {LengthError} (TcpConnection_connectEstablished dbg ?upd ?user conn)
        (\<lambda>t. poller_tcp.ok sockfd (tw_sent t) t \<and> tcp_up (tc_state t) \<and> tc_channel t = c)"
      by (rule outcome_mono [OF poller_tcp.connectEstablished_ok [OF conn(1, 2) assms(6)]]) (use Some conn(3, 4) in auto)
    have "serves dbg s k c sockfd (served s k t)"
      if "poller_tcp.ok sockfd (tw_sent t) t \<and> tcp_up (tc_state t) \<and> tc_channel t = c" for t
    proof -
      have "Poller_watched (tw_loop t) sockfd = Some (if Buffer_content (tc_outputBuffer t) = [] then 3 else 7, c)"
        using ok_watched [of sockfd "tw_sent t" t] that by simp
      then show ?thesis
        unfolding serves_def
        using that served_removal [OF assms(1, 2), of dbg k t] names_ok_next [OF assms(1)]
        by (intro exI [of _ ?nm] exI [of _ "\<lparr>co_name = ?nm, co_loop = ts_loop s, co_tcp = t\<rparr>"] conjI)
          (simp_all add: served_def Let_def)
    qed
    then show ?thesis
      unfolding conn(5) using Some by (auto intro!: outcome_bind [OF est])
  qed
qed

text \<open>
  C9. What a server does with a connection it has accepted, in its own thread, in builds with and without the asserts of
  server and connection (\<open>dbg\<close>) and of poller.cc (\<open>pdbg\<close>). Without a pool of loops it follows a null pointer,
  which is how every server ends (C40). Given a started pool: when the pool deals a loop of another thread the process
  aborts; when \<^verbatim>\<open>bind\<close> fails in the constructor of the connection it aborts too, as it does for every accepted socket,
  which bind(2) refuses with \<^verbatim>\<open>EINVAL\<close>; else, when the server was given no connection callback, the call of the
  connection's stops it, and when it was given one, the connection is established: it is in the map under a new name, the
  base loop watches its descriptor through its channel; removing it gives back the map as it was and queues one
  \<^verbatim>\<open>connectDestroyed\<close> for it, and removing it again fails the assert. The only faults left then are
  \<^verbatim>\<open>std::length_error\<close> for what the callback sends, and an assert of the poller when it has them.
\<close>

theorem TcpServer_serves:
  fixes s :: "('u, Poller) TcpServer"
  assumes "names_ok s" "server_in_loop s" "ts_nextConnId s < 2 ^ 31 - 1"
    and "tcp_start sockfd c (wd_loops (ts_world s) (ts_loop s))" "body_possible mem body"
  shows "let run = TcpServer_newConnection dbg (Poller_updateChannel pdbg True)
        (user_script dbg (Poller_updateChannel pdbg True) mem body) k c bound sockfd s in
    (ts_threadPool s = None \<longrightarrow> run = Inl BadPointer) \<and>
    (deals_other s \<longrightarrow> run = Inl FatalAbort) \<and>
    (single_loop s \<and> \<not> bound \<longrightarrow> run = Inl FatalAbort) \<and>
    (single_loop s \<and> bound \<and> ts_connectionCallback s = None \<longrightarrow> outcome ({BadCall} \<union> asserts pdbg) run (\<lambda>_. False)) \<and>
    (single_loop s \<and> bound \<and> ts_connectionCallback s \<noteq> None \<longrightarrow>
       outcome ({LengthError} \<union> asserts pdbg) run (\<lambda>s'. \<exists>nm ob. ts_connections s nm = None \<and>
         ts_connections s' = (ts_connections s)(nm \<mapsto> k) \<and>
         wd_conns (ts_world s') k = Some ob \<and> co_name ob = nm \<and> tcp_up (tc_state (co_tcp ob)) \<and>
         Poller_watched (wd_loops (ts_world s') (ts_loop s)) sockfd =
           Some (if Buffer_content (tc_outputBuffer (co_tcp ob)) = [] then 3 else 7, c) \<and>
         returns (TcpServer_removeConnection dbg k s') (\<lambda>s''. ts_connections s'' = ts_connections s \<and>
           wd_destroys (ts_world s'') (ts_loop s) = wd_destroys (ts_world s) (ts_loop s) @ [k] \<and>
           TcpServer_removeConnection True k s'' = Inl AssertFail)))"
proof -
  let ?run = "TcpServer_newConnection dbg (Poller_updateChannel pdbg True)
    (user_script dbg (Poller_updateChannel pdbg True) mem body) k c bound sockfd s"
  have id: "0 \<le> ts_nextConnId s" using assms(1) by (simp add: names_ok_def)
  have none: "ts_threadPool s = None \<longrightarrow> ?run = Inl BadPointer"
    using assms(2, 3) id by (simp add: TcpServer_newConnection_def Let_def cint_def)
  have run: "outcome ((if ts_connectionCallback s = None then {BadCall} else {LengthError}) \<union> asserts pdbg) ?run
      (\<lambda>s'. ts_connectionCallback s \<noteq> None \<and> serves dbg s k c sockfd s')" if "single_loop s" bound
    using built_outcome [OF newConnection_built newConnection_serves [OF assms(1, 2) that(1) assms(3-5)]] that(2) by simp
  show ?thesis
    unfolding Let_def serves_def [symmetric]
    using none newConnection_other_loop [OF assms(2) _ id assms(3)] newConnection_unbound [OF assms(2) _ id assms(3)] run
    by (auto elim!: outcome_mono)
qed

text \<open>A server whose null pool has been replaced by a started one.\<close>

definition patched_server :: "nat EventLoopThreadPool \<Rightarrow> (bool, Poller) TcpServer" where
  "patched_server p = \<lparr>ts_loop = 0, ts_name = ''echo'',
     ts_acceptor = \<lparr>ac_socket = 3, ac_channel = 5, ac_newConnectionCallback = Some (), ac_listenning = True, aw_inLoop = True,
                    aw_loop = (\<lambda>_. None, Poller_new), aw_open = [], aw_delivered = []\<rparr>,
     ts_threadPool = Some p, ts_connectionCallback = Some True, ts_messageCallback = Some True, ts_started = False,
     ts_nextConnId = 0, ts_connections = (\<lambda>_. None), ts_functors = [], ts_world = one_world\<rparr>"

theorem TcpServer_serves_witness:
  "outcome {LengthError}
    (TcpServer_newConnection True (Poller_updateChannel False True)
       (user_script True (Poller_updateChannel False True) (\<lambda>_. None) (\<lambda>_ _. [])) 4 1 True 7
       (patched_server ((EventLoopThreadPool_new 0 ''io'')\<lparr>tp_started := True\<rparr>)))
    (\<lambda>s'. \<exists>nm. ts_connections s' nm = Some 4)"
proof -
  let ?s = "patched_server ((EventLoopThreadPool_new 0 ''io'')\<lparr>tp_started := True\<rparr>)"
  have s: "names_ok ?s" "server_in_loop ?s" "ts_nextConnId ?s < 2 ^ 31 - 1" "tcp_start 7 1 (wd_loops (ts_world ?s) (ts_loop ?s))"
    "body_possible (\<lambda>_. None) (\<lambda>_ _. [])"
    by (simp_all add: names_ok_def server_in_loop_def patched_server_def one_world_def EventLoopThreadPool_new_def
        tcp_start_def Poller_inv_def Poller_new_def body_possible_def)
  have "single_loop ?s" "ts_connectionCallback ?s \<noteq> None"
    by (simp_all add: single_loop_def patched_server_def EventLoopThreadPool_new_def)
  then show ?thesis
    using TcpServer_serves [OF s, of True False 4 True] unfolding Let_def by (auto elim!: outcome_mono)
qed

lemma quiet_server_serves:
  assumes "names_ok s" "server_in_loop s" "single_loop s" "ts_nextConnId s < 2 ^ 31 - 1"
    and "tcp_start sockfd c (wd_loops (ts_world s) (ts_loop s))" "ts_connectionCallback s = Some cb"
  shows "\<exists>s'. TcpServer_newConnection dbg (Poller_updateChannel False True) (\<lambda>_. Inr) k c True sockfd s = Inr s'"
proof -
  obtain conn where conn: "poller_tcp.ok sockfd (tw_sent conn) conn" "tc_state conn = TcpState.kConnecting" "tc_channel conn = c"
      "tc_connectionCallback conn = map_option UserCb (ts_connectionCallback s)"
      "TcpServer_newConnection dbg (Poller_updateChannel False True) (\<lambda>_. Inr) k c True sockfd s =
         bindR (TcpConnection_connectEstablished dbg (Poller_updateChannel False True) (\<lambda>_. Inr) conn) (\<lambda>t. Inr (served s k t))"
    by (rule newConnection_single [OF assms(1-5)])
  obtain l where "Channel_enableReading dbg (Poller_updateChannel False True) (tc_channel conn) (tw_loop conn) = Inr l"
    using poller_tcp.enable_ok [OF conn(1, 2), of dbg] .
  then show ?thesis
    using conn assms(6)
    by (simp add: TcpConnection_connectEstablished_def assertInLoopThread_def Tcp_ok_def on_channel_def call_user_def cassert_holds)
qed

theorem TcpServer_names_unique_witness:
  "\<exists>(s :: (bool, Poller) TcpServer) (s' :: (bool, Poller) TcpServer). ts_connections s ''echo#0'' = None \<and> ts_connections s' = (ts_connections s)(''echo#0'' \<mapsto> 4)"
proof -
  let ?p = "(EventLoopThreadPool_new 0 ''io'')\<lparr>tp_started := True\<rparr>"
  obtain s0 :: "(bool, Poller) TcpServer" where s0: "TcpServer_new (\<lambda>_ _. 0) 5 3 zero_in6 ''echo'' 0 (\<lambda>_. None, Poller_new) one_world = Inr s0"
      "ts_loop s0 = 0" "ts_name s0 = ''echo''" "ts_nextConnId s0 = 0" "ts_connections s0 = (\<lambda>_. None)" "ts_world s0 = one_world"
    by (auto simp: TcpServer_new_def Acceptor_new_def createNonblockingOrDie_def Socket_bindAddress_def bindOrDie_def Let_def one_world_def)
  define s where "s = TcpServer_setConnectionCallback True (s0\<lparr>ts_threadPool := Some ?p\<rparr>)"
  have run: "server_events_run True (Poller_updateChannel False True) (Poller_updateChannel False True)
      (Poller_removeChannel False True) (\<lambda>_. Inr) [SetServerConnection True] (s0\<lparr>ts_threadPool := Some ?p\<rparr>) = Inr s"
    by (simp add: s_def)
  have "names_ok s" "server_in_loop s" "single_loop s" "ts_nextConnId s < 2 ^ 31 - 1" "ts_connectionCallback s = Some True"
      "tcp_start 7 1 (wd_loops (ts_world s) (ts_loop s))"
    using s0 by (simp_all add: s_def names_ok_def server_in_loop_def single_loop_def one_world_def EventLoopThreadPool_new_def
        TcpServer_setConnectionCallback_def tcp_start_def Poller_inv_def Poller_new_def)
  then obtain s' where s': "TcpServer_newConnection True (Poller_updateChannel False True) (\<lambda>_. Inr) 4 1 True 7 s = Inr s'"
    using quiet_server_serves [of s 7 1 True True 4] by blast
  have "dec_nat 0 = ''0''" by (simp add: dec_nat.simps digit_char_simps)
  then have nm: "ts_name s @ ''#'' @ dec_nat (nat (ts_nextConnId s)) = ''echo#0''"
    using s0 by (simp add: s_def TcpServer_setConnectionCallback_def)
  from TcpServer_names_unique [OF s0(1) run s'] show ?thesis
    unfolding nm by (intro exI [of _ s] exI [of _ s']) simp
qed

text \<open>
  With loops in other threads the first connection that is dealt to one of them aborts the process: the
  server establishes it in its own thread, where the connection's loop does not run.
\<close>

theorem TcpServer_other_loop_aborts:
  assumes "server_in_loop s" "ts_threadPool s = Some p" "tp_started p" "tp_baseLoop p = ts_loop s"
    and "0 \<le> tp_next p" "nat (tp_next p) < length (tp_loops p)" "tp_loops p ! nat (tp_next p) \<noteq> ts_loop s"
    and "0 \<le> ts_nextConnId s" "ts_nextConnId s < 2 ^ 31 - 1"
  shows "TcpServer_newConnection dbg upd user k c bound sockfd s = Inl FatalAbort"
  by (rule newConnection_other_loop) (use assms in \<open>auto simp: deals_other_def\<close>)

theorem TcpServer_other_loop_aborts_witness:
  "TcpServer_newConnection True (Poller_updateChannel False True) (\<lambda>_. Inr) 4 1 True 7
     (patched_server ((EventLoopThreadPool_new 0 ''io'')\<lparr>tp_started := True, tp_loops := [1, 2]\<rparr>)) = Inl FatalAbort"
  by (rule TcpServer_other_loop_aborts [where p = "(EventLoopThreadPool_new 0 ''io'')\<lparr>tp_started := True, tp_loops := [1, 2]\<rparr>"])
    (simp_all add: patched_server_def one_world_def server_in_loop_def EventLoopThreadPool_new_def)

end
