(* ===== verification/Multiplex.thy ===== *)
theory Multiplex
  imports Sharing TcpServer
begin

text \<open>
  Many connections on the loops of a program: each connection of tcpconnection.cc works on the channels of its
  loop through its own channel only, so that what is proved of one connection alone on a loop holds for any
  number of connections that share it, over either demultiplexer.
\<close>

section \<open>A world of connections\<close>

text \<open>
  The connections of a program change by these events, in the thread of the loop concerned: a connection is
  made, given its callbacks and established, as \<^verbatim>\<open>newConnection\<close> of server and client do, where \<open>bound\<close> says whether
  the constructor's \<^verbatim>\<open>bind\<close> of the socket succeeds; an event happens to a connection; one that its owner has destroyed
  is deleted.
\<close>

datatype 'cb world_event =
    Connect bool nat nat int string nat "'cb option" "'cb option" "'cb option" "'cb option"
  | OnConn nat "'cb tcp_event"
  | Delete nat

definition world_connect ::
  "bool \<Rightarrow> 'w loop_op \<Rightarrow> ('cb, 'w) tcp_user \<Rightarrow> bool \<Rightarrow> nat \<Rightarrow> nat \<Rightarrow> int \<Rightarrow> string \<Rightarrow> nat \<Rightarrow> 'cb option \<Rightarrow> 'cb option \<Rightarrow> 'cb option \<Rightarrow>
     'cb option \<Rightarrow> ('cb, 'w) world \<Rightarrow> ('cb, 'w) world res" where
  "world_connect dbg upd user bound k c sockfd connName loop conn_cb message_cb write_cb close_cb w =
     bindR (TcpConnection_new dbg bound c sockfd True (wd_loops w loop)) (\<lambda>t.
       let conn = t\<lparr>tc_connectionCallback := conn_cb, tc_messageCallback := message_cb, tc_writeCompleteCallback := write_cb,
                    tc_closeCallback := close_cb\<rparr>
       in on_conn k (TcpConnection_connectEstablished dbg upd user)
            (w\<lparr>wd_conns := (wd_conns w)(k \<mapsto> \<lparr>co_name = connName, co_loop = loop, co_tcp = conn\<rparr>),
               wd_loops := (wd_loops w)(loop := tw_loop conn), wd_thread := loop\<rparr>))"

fun world_event_run ::
  "bool \<Rightarrow> 'w loop_op \<Rightarrow> 'w loop_op \<Rightarrow> (nat \<Rightarrow> byte list option) \<Rightarrow> ('cb tcp_call \<Rightarrow> ('cb, 'w) Tcp \<Rightarrow> 'cb tcp_op list) \<Rightarrow>
     'cb world_event \<Rightarrow> ('cb, 'w) world \<Rightarrow> ('cb, 'w) world res" where
  "world_event_run dbg upd rem mem body (Connect bound k c fd nm l a b d e) w =
     world_connect dbg upd (user_script dbg upd mem body) bound k c fd nm l a b d e w"
| "world_event_run dbg upd rem mem body (OnConn k ev) w =
     (case wd_conns w k of
        None \<Rightarrow> Inl BadPointer
      | Some ob \<Rightarrow> on_conn k (tcp_event_run dbg upd rem mem body ev) (w\<lparr>wd_thread := co_loop ob\<rparr>))"
| "world_event_run dbg upd rem mem body (Delete k) w =
     (case wd_conns w k of
        None \<Rightarrow> Inl BadPointer
      | Some ob \<Rightarrow>
          bindR (TcpConnection_destroy dbg ((co_tcp ob)\<lparr>tw_loop := wd_loops w (co_loop ob)\<rparr>)) (\<lambda>l.
            Inr (w\<lparr>wd_conns := (wd_conns w)(k := None), wd_loops := (wd_loops w)(co_loop ob := l)\<rparr>)))"

text \<open>
  \<open>D\<close> are the connections that their owner has destroyed, with \<^verbatim>\<open>connectDestroyed\<close>. A new one has an address and a
  descriptor in nobody's use, and the life of each is that of one connection alone.
\<close>

fun world_possible ::
  "(tcp_handler store \<times> 'w \<Rightarrow> nat \<Rightarrow> int \<Rightarrow> bool) \<Rightarrow> (nat \<Rightarrow> byte list option) \<Rightarrow> nat set \<Rightarrow> 'cb world_event \<Rightarrow>
     ('cb, 'w) world \<Rightarrow> bool" where
  "world_possible vacant mem D (Connect bound k c fd nm l a b d e) w \<longleftrightarrow>
     wd_conns w k = None \<and> vacant (wd_loops w l) c fd \<and> fst (wd_loops w l) c = None"
| "world_possible vacant mem D (OnConn k ev) w \<longleftrightarrow> (\<exists>ob. wd_conns w k = Some ob \<and> life_possible mem (k \<in> D) ev (co_tcp ob))"
| "world_possible vacant mem D (Delete k) w \<longleftrightarrow> wd_conns w k \<noteq> None \<and> k \<in> D"

fun destroyed_after :: "nat set \<Rightarrow> 'cb world_event \<Rightarrow> nat set" where
  "destroyed_after D (Connect bound k c fd nm l a b d e) = D - {k}"
| "destroyed_after D (OnConn k ev) = (if ev = Destroy then insert k D else D)"
| "destroyed_after D (Delete k) = D - {k}"

inductive world_reach for dbg upd rem vacant mem body w0 where
  start: "world_reach dbg upd rem vacant mem body w0 w0 {}"
| step: "world_reach dbg upd rem vacant mem body w0 w D \<Longrightarrow> world_possible vacant mem D ev w \<Longrightarrow>
    world_event_run dbg upd rem mem body ev w = Inr w' \<Longrightarrow> world_reach dbg upd rem vacant mem body w0 w' (destroyed_after D ev)"

text \<open>A connection that cannot be bound, and an event that asserts that a connection is up when it is not.\<close>

fun unbound :: "'cb world_event \<Rightarrow> bool" where
  "unbound (Connect bound k c fd nm l a b d e) = (\<not> bound)"
| "unbound (OnConn k ev) = False"
| "unbound (Delete k) = False"

fun closed_again :: "'cb world_event \<Rightarrow> ('cb, 'w) world \<Rightarrow> bool" where
  "closed_again (Connect bound k c fd nm l a b d e) w \<longleftrightarrow> False"
| "closed_again (OnConn k ev) w \<longleftrightarrow> asserts_up ev \<and> (\<exists>ob. wd_conns w k = Some ob \<and> tc_state (co_tcp ob) = kDisconnected)"
| "closed_again (Delete k) w \<longleftrightarrow> False"

section \<open>A connection keeps its channel\<close>

definition steady :: "('cb, 'w) Tcp \<Rightarrow> ('cb, 'w) Tcp \<Rightarrow> bool" where
  "steady w w' \<longleftrightarrow> tc_channel w' = tc_channel w \<and> (tc_state w' = kConnecting \<longrightarrow> tc_state w = kConnecting)"

lemma steady_refl [simp]: "steady w w"
  by (simp add: steady_def)

lemma steady_trans: "steady w w' \<Longrightarrow> steady w' w'' \<Longrightarrow> steady w w''"
  by (simp add: steady_def)

lemma steady_same [simp]:
  "tc_channel w' = tc_channel w \<Longrightarrow> tc_state w' = tc_state w \<Longrightarrow> steady w w'"
  by (simp add: steady_def)

text \<open>Every result of an operation that returns is steady.\<close>

definition holds_steady :: "('cb, 'w) Tcp \<Rightarrow> ('cb, 'w) Tcp res \<Rightarrow> bool" where
  "holds_steady w r \<longleftrightarrow> (\<forall>w'. r = Inr w' \<longrightarrow> steady w w')"

named_theorems steady_intros "operations of a connection keep its channel"

lemma holds_steady_simps [simp]:
  "holds_steady w (Inl f)" "holds_steady w (Inr w') \<longleftrightarrow> steady w w'"
  by (simp_all add: holds_steady_def)

lemma holds_steady_bind:
  "holds_steady w r \<Longrightarrow> (\<And>w'. steady w w' \<Longrightarrow> holds_steady w' (f w')) \<Longrightarrow> holds_steady w (bindR r f)"
  by (cases r) (auto simp: holds_steady_def intro: steady_trans)

lemma holds_steady_let: "(\<And>x. r = Inr x \<Longrightarrow> holds_steady w (f x)) \<Longrightarrow> holds_steady w (bindR r f)"
  by (cases r) simp_all

lemma holds_steady_weaken: "steady w v \<Longrightarrow> holds_steady v r \<Longrightarrow> holds_steady w r"
  by (auto simp: holds_steady_def intro: steady_trans)

lemma holds_steady_assert [steady_intros]:
  "holds_steady w r \<Longrightarrow> holds_steady w (cassert dbg c r)" "holds_steady w r \<Longrightarrow> holds_steady w (assertInLoopThread v r)"
  by (simp_all add: cassert_def assertInLoopThread_def)

lemma on_channelD: "on_channel f w = Inr w' \<Longrightarrow> \<exists>l. w' = w\<lparr>tw_loop := l\<rparr>"
  by (auto simp: on_channel_def)

lemma on_channel_steady: "holds_steady w (on_channel f w)"
  by (auto simp: on_channel_def intro: holds_steady_let)

lemma on_channel_steady_of: "steady w v \<Longrightarrow> holds_steady w (on_channel f v)"
  by (rule holds_steady_weaken [OF _ on_channel_steady])

lemma buffer_rest_steady: "steady w v \<Longrightarrow> holds_steady w (buffer_rest dbg upd rest v)"
  by (auto simp: buffer_rest_def Let_def steady_def intro!: holds_steady_let on_channel_steady_of)

lemma high_water_steady [simp]: "steady w (high_water n v) = steady w v"
  by (simp add: high_water_def queueInLoop_def Let_def steady_def)

lemma write_directly_steady: "write_directly wr data w = (a, b, e, w') \<Longrightarrow> steady w w'"
  by (auto simp: write_directly_def Let_def queueInLoop_def split: write_result.splits if_splits option.splits)

lemma sendInLoop_steady: "holds_steady w (TcpConnection_sendInLoop dbg upd wr mem ptr len w)"
  unfolding TcpConnection_sendInLoop_def
  by (intro steady_intros holds_steady_let)
    (auto simp: Let_def cassert_def dest!: write_directly_steady intro!: buffer_rest_steady split: prod.split if_splits)

lemma shutdownInLoop_steady: "steady w v \<Longrightarrow> holds_steady w (TcpConnection_shutdownInLoop v)"
  by (auto simp: TcpConnection_shutdownInLoop_def steady_def intro!: steady_intros holds_steady_let)

lemma shutdown_steady: "holds_steady w (TcpConnection_shutdown w)"
  by (auto simp: TcpConnection_shutdown_def Let_def queueInLoop_def steady_def intro!: shutdownInLoop_steady)

lemma op_steady: "holds_steady w (tcp_op_run dbg upd mem x w)"
proof (cases x)
  case (Send wr ptr len)
  have "holds_steady w (TcpConnection_send dbg upd wr mem ptr len w)"
    by (simp add: TcpConnection_send_def queueInLoop_def sendInLoop_steady)
  then show ?thesis unfolding Send tcp_op_run.simps by (rule holds_steady_bind) simp
qed (auto simp: shutdown_steady TcpConnection_setConnectionCallback_def TcpConnection_setMessageCallback_def
    TcpConnection_setCloseCallback_def TcpConnection_setWriteCompleteCallback_def TcpConnection_setHighWaterMarkCallback_def
    intro!: holds_steady_let)

lemma ops_steady: "holds_steady w (tcp_ops_run dbg upd mem xs w)"
  by (induction xs arbitrary: w) (auto intro!: holds_steady_bind op_steady)

lemma call_steady: "steady w v \<Longrightarrow> holds_steady w (call_user (user_script dbg upd mem body) cb mk v)"
  by (auto simp: call_user_def user_script_def split: option.split intro!: holds_steady_weaken [OF _ ops_steady] elim!: steady_trans)

lemma handleClose_steady: "holds_steady w (TcpConnection_handleClose dbg upd (user_script dbg upd mem body) w)"
  unfolding TcpConnection_handleClose_def
  by (intro steady_intros holds_steady_bind on_channel_steady_of)
    (auto simp: steady_def split: option.split intro!: call_steady)

lemma event_steady: "holds_steady w (tcp_event_run dbg upd rem mem body ev w)"
proof (cases ev)
  case Establish
  show ?thesis
    unfolding Establish tcp_event_run.simps TcpConnection_connectEstablished_def
    by (intro steady_intros holds_steady_bind on_channel_steady_of) (auto simp: steady_def intro!: call_steady)
next
  case Destroy
  show ?thesis
    unfolding Destroy tcp_event_run.simps TcpConnection_connectDestroyed_def
    by (intro steady_intros holds_steady_bind on_channel_steady_of call_steady) (auto simp: steady_def)
next
  case (ReadEvent readv t)
  show ?thesis
    unfolding ReadEvent tcp_event_run.simps TcpConnection_handleRead_def
    by (intro holds_steady_let)
      (auto simp: Let_def TcpConnection_handleError_def intro!: call_steady holds_steady_weaken [OF _ handleClose_steady])
next
  case (WriteEvent wr)
  show ?thesis
    unfolding WriteEvent tcp_event_run.simps TcpConnection_handleWrite_def
    by (intro steady_intros holds_steady_let)
      (auto simp: Let_def queueInLoop_def split: write_result.split option.split
        intro!: holds_steady_let shutdownInLoop_steady dest!: on_channelD)
next
  case CloseEvent
  then show ?thesis by (simp add: handleClose_steady)
next
  case ErrorEvent
  then show ?thesis by (simp add: TcpConnection_handleError_def)
next
  case (UserOp x)
  then show ?thesis by (simp add: op_steady)
next
  case RemoteShutdown
  have "holds_steady w (TcpConnection_shutdown (w\<lparr>tw_inLoop := False\<rparr>))"
    by (rule holds_steady_weaken [OF _ shutdown_steady]) simp
  then show ?thesis unfolding RemoteShutdown tcp_event_run.simps by (rule holds_steady_bind) simp
next
  case (RunFunctor wr)
  have "holds_steady w (run_functor dbg upd (user_script dbg upd mem body) wr mem f (w\<lparr>tw_functors := fs\<rparr>))" for f fs
    by (cases f) (auto intro!: call_steady shutdownInLoop_steady holds_steady_weaken [OF _ sendInLoop_steady])
  then show ?thesis by (simp add: RunFunctor split: list.split)
qed

section \<open>One connection among others\<close>

text \<open>
  A connection in a loop that is not being set up: it works on its channel as it would alone, and its channel,
  of which it is the descriptor, is not being dispatched.
\<close>

abbreviation in_loop :: "tcp_handler store \<times> 'w \<Rightarrow> ('cb, 'w) Tcp \<Rightarrow> ('cb, 'w) Tcp" where
  "in_loop l t \<equiv> t\<lparr>tw_loop := l, tw_inLoop := True\<rparr>"

definition settled ::
  "(tcp_handler store \<times> 'w \<Rightarrow> bool) \<Rightarrow> (tcp_handler store \<times> 'w \<Rightarrow> nat \<Rightarrow> int \<Rightarrow> bool) \<Rightarrow>
     (tcp_handler store \<times> 'w \<Rightarrow> nat \<Rightarrow> int \<Rightarrow> bool) \<Rightarrow> int \<Rightarrow> bool \<Rightarrow> tcp_handler store \<times> 'w \<Rightarrow> ('cb, 'w) Tcp \<Rightarrow> bool" where
  "settled linv known fresh fd destroyed l t \<longleftrightarrow>
     Tcp_ok linv known fresh fd (tw_sent t) (in_loop l t) \<and> tc_state t \<noteq> kConnecting \<and>
     known l (tc_channel t) fd = (\<not> destroyed) \<and> (destroyed \<longrightarrow> tc_state t = kDisconnected) \<and>
     (\<exists>ch. fst l (tc_channel t) = Some ch \<and> ch_fd ch = fd \<and> \<not> ch_eventHanding ch)"

text \<open>
  Every loop is consistent, every connection settled, and no two connections of a loop share a channel.
\<close>

definition World_ok ::
  "(tcp_handler store \<times> 'w \<Rightarrow> bool) \<Rightarrow> (tcp_handler store \<times> 'w \<Rightarrow> nat \<Rightarrow> int \<Rightarrow> bool) \<Rightarrow>
     (tcp_handler store \<times> 'w \<Rightarrow> nat \<Rightarrow> int \<Rightarrow> bool) \<Rightarrow> nat set \<Rightarrow> ('cb, 'w) world \<Rightarrow> bool" where
  "World_ok linv known fresh D w \<longleftrightarrow>
     (\<forall>l. linv (wd_loops w l)) \<and>
     (\<forall>k ob. wd_conns w k = Some ob \<longrightarrow> (\<exists>fd. settled linv known fresh fd (k \<in> D) (wd_loops w (co_loop ob)) (co_tcp ob))) \<and>
     (\<forall>k k' ob ob'. wd_conns w k = Some ob \<longrightarrow> wd_conns w k' = Some ob' \<longrightarrow> k \<noteq> k' \<longrightarrow> co_loop ob = co_loop ob' \<longrightarrow>
        tc_channel (co_tcp ob) \<noteq> tc_channel (co_tcp ob'))"

lemma World_ok_D:
  assumes "World_ok linv known fresh D w"
  shows "linv (wd_loops w l)"
    "wd_conns w k = Some ob \<Longrightarrow> \<exists>fd. settled linv known fresh fd (k \<in> D) (wd_loops w (co_loop ob)) (co_tcp ob)"
    "wd_conns w k = Some ob \<Longrightarrow> wd_conns w k' = Some ob' \<Longrightarrow> k \<noteq> k' \<Longrightarrow> co_loop ob = co_loop ob' \<Longrightarrow>
       tc_channel (co_tcp ob) \<noteq> tc_channel (co_tcp ob')"
  using assms unfolding World_ok_def by blast+

lemma life_possible_in_loop [simp]: "life_possible mem d ev (in_loop l t) = life_possible mem d ev t"
  by (cases ev) simp_all

lemma down_in_loop [simp]: "down dbg (in_loop l t) = down dbg t"
  by (simp add: down_def)

locale tcp_world = shared_registry inv watched known fresh update remove vacant
  for inv :: "tcp_handler store \<times> 'w \<Rightarrow> bool" and watched :: "tcp_handler store \<times> 'w \<Rightarrow> int \<Rightarrow> (int \<times> nat) option"
    and known :: "tcp_handler store \<times> 'w \<Rightarrow> nat \<Rightarrow> int \<Rightarrow> bool" and fresh :: "tcp_handler store \<times> 'w \<Rightarrow> nat \<Rightarrow> int \<Rightarrow> bool"
    and update :: "'w loop_op" and remove :: "'w loop_op"
    and vacant :: "tcp_handler store \<times> 'w \<Rightarrow> nat \<Rightarrow> int \<Rightarrow> bool"
begin

abbreviation "tcp_on c fd s0 \<equiv> Tcp_ok (inv_on c s0) (known_on c fd) (fresh_on c fd) fd"

lemma tcp_on_loop: "tcp_loop (inv_on c s0) (watched_on c fd) (known_on c fd) (fresh_on c fd) update remove"
  by (intro tcp_loop.intro own_use)

text \<open>A connection seen as the only user of the loop since now, and back.\<close>

lemma tcp_on_start: "Tcp_ok inv known fresh fd sent t \<Longrightarrow> tcp_on (tc_channel t) fd (tw_loop t) sent t"
  by (simp add: Tcp_ok_def known_on_def fresh_on_def inv_on_start)

lemma tcp_on_end:
  assumes "tcp_on c fd s0 sent t" "tc_channel t = c"
  shows "Tcp_ok inv known fresh fd sent t" "inv (tw_loop t)" "own_channel c s0 (tw_loop t)"
    "c' \<noteq> c \<Longrightarrow> keeps_channel known c' s0 (tw_loop t)"
  using assms by (auto simp: Tcp_ok_def known_on_def fresh_on_def inv_on_def)

lemma settled_others:
  assumes "settled inv known fresh fd d l t" "inv l'" "keeps_channel known (tc_channel t) l l'"
  shows "settled inv known fresh fd d l' t"
proof -
  obtain ch where ch: "fst l (tc_channel t) = Some ch" "ch_fd ch = fd" "\<not> ch_eventHanding ch"
    using assms(1) by (auto simp: settled_def)
  obtain i where "fst l' (tc_channel t) = Some (ch\<lparr>ch_index := i\<rparr>)" "known l' (tc_channel t) = known l (tc_channel t)"
    using assms(3) ch(1) same_channel_SomeD by (auto simp: keeps_channel_def)
  then show ?thesis using assms(1, 2) ch by (auto simp: settled_def Tcp_ok_def)
qed

text \<open>What its channel waits for.\<close>

lemma settled_watched:
  assumes "settled inv known fresh fd d l t" "inv l"
  shows "tcp_up (tc_state t) \<Longrightarrow> watched l fd = Some (if Buffer_content (tc_outputBuffer t) = [] then 3 else 7, tc_channel t)"
    and "tc_state t = kDisconnected \<Longrightarrow> \<not> d \<Longrightarrow> watched l fd = None"
proof -
  obtain ch where ch: "fst l (tc_channel t) = Some ch" and tcp: "Tcp_ok inv known fresh fd (tw_sent t) (in_loop l t)"
    using assms(1) by (auto simp: settled_def)
  have k: "known l (tc_channel t) fd = (\<not> d)" "d \<longrightarrow> tc_state t = kDisconnected" using assms(1) by (simp_all add: settled_def)
  have "ch_interestedEvents ch = tcp_interest (tc_state t) (Buffer_content (tc_outputBuffer t))"
    using ch tcp by (simp add: Tcp_ok_def)
  with k watched_channel [OF assms(2) _ ch, of fd]
  show "tcp_up (tc_state t) \<Longrightarrow> watched l fd = Some (if Buffer_content (tc_outputBuffer t) = [] then 3 else 7, tc_channel t)"
    and "tc_state t = kDisconnected \<Longrightarrow> \<not> d \<Longrightarrow> watched l fd = None"
    by (auto simp: tcp_interest_def tcp_up_def)
qed

lemma settled_life:
  assumes "settled inv known fresh fd d l t"
  shows "tcp_loop.life_ok (inv_on (tc_channel t) l) (watched_on (tc_channel t) fd) (known_on (tc_channel t) fd)
    (fresh_on (tc_channel t) fd) fd d (in_loop l t)"
proof -
  have ok: "Tcp_ok inv known fresh fd (tw_sent t) (in_loop l t)" using assms by (simp add: settled_def)
  then have "inv l" by (simp add: Tcp_ok_def)
  then show ?thesis
    using assms tcp_on_start [OF ok] settled_watched(2) [OF assms]
    by (auto simp: tcp_loop.life_ok_def [OF tcp_on_loop] settled_def known_on_def watched_on_def)
qed

text \<open>What an event leaves of the connection and of the loop for the others.\<close>

definition stepped :: "int \<Rightarrow> bool \<Rightarrow> tcp_handler store \<times> 'w \<Rightarrow> ('cb, 'w) Tcp \<Rightarrow> ('cb, 'w) Tcp \<Rightarrow> bool" where
  "stepped fd d l t t' \<longleftrightarrow> settled inv known fresh fd d (tw_loop t') t' \<and> inv (tw_loop t') \<and> tc_channel t' = tc_channel t \<and>
     (\<forall>c. c \<noteq> tc_channel t \<longrightarrow> keeps_channel known c l (tw_loop t'))"

lemma stepped_of:
  assumes "tcp_on (tc_channel t) fd l (tw_sent t') t'" "tc_channel t' = tc_channel t" "tc_state t' \<noteq> kConnecting"
    and "known_on (tc_channel t) fd (tw_loop t') (tc_channel t) fd = (\<not> d)" "d \<longrightarrow> tc_state t' = kDisconnected"
    and "fst l (tc_channel t) = Some ch" "ch_fd ch = fd" "\<not> ch_eventHanding ch"
  shows "stepped fd d l t t'"
proof -
  note e = tcp_on_end [OF assms(1, 2)]
  have "in_loop (tw_loop t') t' = t'" using e(1) by (simp add: Tcp_ok_def)
  moreover obtain x i where "fst (tw_loop t') (tc_channel t) = Some (ch\<lparr>ch_interestedEvents := x, ch_index := i\<rparr>)"
    using e(3) assms(6) by (auto simp: own_channel_def)
  ultimately show ?thesis using e assms by (simp add: stepped_def settled_def known_on_def)
qed

lemma event_stepped:
  assumes "settled inv known fresh fd d l t" "body_possible mem body" "life_possible mem d ev t"
  shows "outcome ({LengthError, BadCall} \<union> (if asserts_up ev then down dbg t else {}))
    (tcp_event_run dbg update remove mem body ev (in_loop l t)) (stepped fd (d \<or> ev = Destroy) l t)"
proof -
  let ?t = "in_loop l t"
  obtain ch where ch: "fst l (tc_channel t) = Some ch" "ch_fd ch = fd" "\<not> ch_eventHanding ch"
    using assms(1) by (auto simp: settled_def)
  have "life_possible mem d ev ?t" using assms(3) by simp
  from tcp_loop.life_event_ok [OF tcp_on_loop settled_life [OF assms(1)] assms(2) this, of dbg]
    event_steady [of ?t dbg update remove mem body ev]
  show ?thesis
    using stepped_of [where t = t and l = l and fd = fd and ch = ch and d = "d \<or> ev = Destroy"] ch
    by (cases "tcp_event_run dbg update remove mem body ev ?t") (auto simp: steady_def tcp_loop.life_ok_def [OF tcp_on_loop])
qed

text \<open>A new connection: its channel is added to the store, and nobody else's is touched.\<close>

lemma new_ok:
  assumes "inv l" "vacant l c fd" "fst l c = None"
  obtains t :: "('cb, 'w) Tcp" where "TcpConnection_new dbg True c fd True l = Inr t" "Tcp_ok inv known fresh fd [] t" "tw_sent t = []"
    "tc_state t = kConnecting" "tc_channel t = c" "tw_inLoop t" "\<And>c'. c' \<noteq> c \<Longrightarrow> keeps_channel known c' l (tw_loop t)"
    "\<exists>ch. fst (tw_loop t) c = Some ch \<and> ch_fd ch = fd \<and> \<not> ch_eventHanding ch"
proof -
  have size: "8 + kInitialSize \<le> vec_max" by (simp add: kInitialSize_def vec_max_def)
  obtain b where b: "Buffer_new dbg kInitialSize = Inr b" "Buffer_inv b" "Buffer_content b = []"
    using Buffer_new_size [OF size, of dbg] by (auto simp: returns_iff)
  define ch where "ch = Channel_setErrorCallback HandleError (Channel_setCloseCallback HandleClose
      (Channel_setWriteCallback HandleWrite (Channel_setReadCallback HandleRead (Channel_new True fd))))"
  have ch: "ch_loop ch" "ch_interestedEvents ch = 0" "ch_fd ch = fd" "ch_index ch = - 1" "\<not> ch_eventHanding ch"
    by (simp_all add: ch_def Channel_setErrorCallback_def Channel_setCloseCallback_def Channel_setWriteCallback_def
        Channel_setReadCallback_def Channel_new_def)
  let ?l = "((fst l)(c \<mapsto> ch), snd l)"
  have made: "inv ?l" "fresh ?l c fd" "known ?l = known l"
    using create [OF assms(1, 2) ch(3, 4, 1)] by simp_all
  define t :: "('cb, 'w) Tcp" where
    "t = \<lparr>tc_state = kConnecting, tc_channel = c, tc_connectionCallback = None, tc_messageCallback = None,
       tc_closeCallback = None, tc_writeCompleteCallback = None, tc_highWaterMark = 64 * 1024 * 1024,
       tc_highWaterMarkCallback = None, tc_inputBuffer = b, tc_outputBuffer = b,
       tw_inLoop = True, tw_loop = ?l, tw_functors = [], tw_written = [], tw_shutdown = False, tw_calls = [], tw_sent = []\<rparr>"
  show thesis
  proof (rule that [of t])
    show "TcpConnection_new dbg True c fd True l = Inr t" using b(1) by (simp add: TcpConnection_new_def ch_def t_def)
    show "Tcp_ok inv known fresh fd [] t" using b ch made(1, 2) by (simp add: Tcp_ok_def tcp_interest_def t_def)
    show "keeps_channel known c' l (tw_loop t)" if "c' \<noteq> c" for c' using that made(3) by (simp add: keeps_channel_def t_def)
  qed (use ch in \<open>simp_all add: t_def\<close>)
qed

text \<open>The world after an event of the connection at \<open>k\<close>, new or old.\<close>

lemma World_ok_put:
  assumes ok: "World_ok inv known fresh D w" and t: "settled inv known fresh fd (k \<in> D') l' t" "inv l'"
    and D: "\<And>k'. k' \<noteq> k \<Longrightarrow> (k' \<in> D') = (k' \<in> D)"
    and keep: "\<And>c. c \<noteq> tc_channel t \<Longrightarrow> keeps_channel known c (wd_loops w lp) l'"
    and other: "\<And>k' ob'. k' \<noteq> k \<Longrightarrow> wd_conns w k' = Some ob' \<Longrightarrow> co_loop ob' = lp \<Longrightarrow> tc_channel (co_tcp ob') \<noteq> tc_channel t"
  shows "World_ok inv known fresh D' (w\<lparr>wd_conns := (wd_conns w)(k \<mapsto> \<lparr>co_name = nm, co_loop = lp, co_tcp = t\<rparr>),
     wd_loops := (wd_loops w)(lp := l'), wd_thread := x\<rparr>)"
proof -
  have "\<exists>fd. settled inv known fresh fd (k' \<in> D') (((wd_loops w)(lp := l')) (co_loop ob)) (co_tcp ob)"
    if "k' \<noteq> k" "wd_conns w k' = Some ob" for k' ob
    using World_ok_D(2) [OF ok that(2)] settled_others [of _ _ "wd_loops w lp" "co_tcp ob" l'] t(2) keep other [OF that] D [OF that(1)]
    by (cases "co_loop ob = lp") auto
  moreover have "tc_channel (co_tcp ob1) \<noteq> tc_channel (co_tcp ob2)"
    if "((wd_conns w)(k \<mapsto> \<lparr>co_name = nm, co_loop = lp, co_tcp = t\<rparr>)) k1 = Some ob1"
      "((wd_conns w)(k \<mapsto> \<lparr>co_name = nm, co_loop = lp, co_tcp = t\<rparr>)) k2 = Some ob2" "k1 \<noteq> k2" "co_loop ob1 = co_loop ob2"
    for k1 k2 ob1 ob2
    using that World_ok_D(3) [OF ok, of k1 ob1 k2 ob2] other [of k1 ob1] other [of k2 ob2] by (auto split: if_splits)
  ultimately show ?thesis
    using World_ok_D(1) [OF ok] t unfolding World_ok_def by (auto split: if_splits)
qed

lemma on_conn_at:
  assumes "wd_conns w k = Some ob" "wd_thread w = co_loop ob"
  shows "on_conn k f w = bindR (f (in_loop (wd_loops w (co_loop ob)) (co_tcp ob))) (\<lambda>t.
     Inr (w\<lparr>wd_conns := (wd_conns w)(k \<mapsto> \<lparr>co_name = co_name ob, co_loop = co_loop ob, co_tcp = t\<rparr>),
            wd_loops := (wd_loops w)(co_loop ob := tw_loop t), wd_thread := co_loop ob\<rparr>))"
  using assms by (cases ob, cases w) (simp add: on_conn_def)

text \<open>The world after a connection was made: the connection is up, and the other connections are as they were.\<close>

definition connected_world :: "nat set \<Rightarrow> nat \<Rightarrow> nat \<Rightarrow> int \<Rightarrow> string \<Rightarrow> nat \<Rightarrow> ('cb, 'w) world \<Rightarrow> ('cb, 'w) world \<Rightarrow> bool" where
  "connected_world D k c fd nm lp w w' \<longleftrightarrow> World_ok inv known fresh (D - {k}) w' \<and>
     (\<exists>t. w' = w\<lparr>wd_conns := (wd_conns w)(k \<mapsto> \<lparr>co_name = nm, co_loop = lp, co_tcp = t\<rparr>),
                 wd_loops := (wd_loops w)(lp := tw_loop t), wd_thread := lp\<rparr> \<and> tcp_up (tc_state t) \<and> tc_channel t = c \<and>
        watched (tw_loop t) fd = Some (if Buffer_content (tc_outputBuffer t) = [] then 3 else 7, c))"

lemma connect_up:
  fixes w :: "('cb, 'w) world"
  assumes ok: "World_ok inv known fresh D w" and v: "wd_conns w k = None" "vacant (wd_loops w lp) c fd" "fst (wd_loops w lp) c = None"
    and body: "body_possible mem body"
  shows "outcome ({LengthError} \<union> unset a)
    (world_connect dbg update (user_script dbg update mem body) True k c fd nm lp a b d e w) (connected_world D k c fd nm lp w)"
proof -
  obtain t0 :: "('cb, 'w) Tcp" where t0: "TcpConnection_new dbg True c fd True (wd_loops w lp) = Inr t0"
    "Tcp_ok inv known fresh fd [] t0" "tw_sent t0 = []"
    "tc_state t0 = kConnecting" "tc_channel t0 = c" "tw_inLoop t0"
    "\<And>c'. c' \<noteq> c \<Longrightarrow> keeps_channel known c' (wd_loops w lp) (tw_loop t0)"
    "\<exists>ch. fst (tw_loop t0) c = Some ch \<and> ch_fd ch = fd \<and> \<not> ch_eventHanding ch"
    using new_ok [OF World_ok_D(1) [OF ok] v(2, 3), of dbg] by metis
  define t where "t = t0\<lparr>tc_connectionCallback := a, tc_messageCallback := b, tc_writeCompleteCallback := d, tc_closeCallback := e\<rparr>"
  have t: "Tcp_ok inv known fresh fd (tw_sent t) t" "tc_state t = kConnecting" "tc_channel t = c" "tw_inLoop t" "tw_loop t = tw_loop t0"
      "tc_connectionCallback t = a"
    using t0(2-6) by (auto simp: t_def Tcp_ok_def)
  obtain ch where ch: "fst (tw_loop t) (tc_channel t) = Some ch" "ch_fd ch = fd" "\<not> ch_eventHanding ch"
    using t0(8) t(3, 5) by auto
  define w1 where "w1 = w\<lparr>wd_conns := (wd_conns w)(k \<mapsto> \<lparr>co_name = nm, co_loop = lp, co_tcp = t\<rparr>),
      wd_loops := (wd_loops w)(lp := tw_loop t), wd_thread := lp\<rparr>"
  let ?run = "TcpConnection_connectEstablished dbg update (user_script dbg update mem body) t"
  have est: "outcome ({LengthError} \<union> unset a) ?run (\<lambda>t'. stepped fd False (tw_loop t) t t' \<and> tcp_up (tc_state t'))"
  proof (rule outcome_mono [OF tcp_loop.connectEstablished_ok [OF tcp_on_loop tcp_on_start [OF t(1)] t(2) body]])
    fix t' :: "('cb, 'w) Tcp" assume *: "tcp_on (tc_channel t) fd (tw_loop t) (tw_sent t') t' \<and> tcp_up (tc_state t') \<and> tc_channel t' = tc_channel t"
    then have "known_on (tc_channel t) fd (tw_loop t') (tc_channel t) fd" by (auto simp: Tcp_ok_def)
    then show "stepped fd False (tw_loop t) t t' \<and> tcp_up (tc_state t')" using * ch by (auto intro!: stepped_of simp: tcp_up_def)
  qed (simp add: t(6))
  have "in_loop (tw_loop t) t = t" using t(4) by simp
  then have "world_connect dbg update (user_script dbg update mem body) True k c fd nm lp a b d e w =
      bindR ?run (\<lambda>t'. Inr (w\<lparr>wd_conns := (wd_conns w)(k \<mapsto> \<lparr>co_name = nm, co_loop = lp, co_tcp = t'\<rparr>),
        wd_loops := (wd_loops w)(lp := tw_loop t'), wd_thread := lp\<rparr>))"
    using on_conn_at [of w1 k "\<lparr>co_name = nm, co_loop = lp, co_tcp = t\<rparr>"]
    by (simp add: world_connect_def t0(1) Let_def t_def [symmetric] w1_def t(5))
  then show ?thesis
  proof (simp only:, intro outcome_bind [OF est], unfold outcome_simps, elim conjE)
    fix t' assume s: "stepped fd False (tw_loop t) t t'" and up: "tcp_up (tc_state t')"
    let ?w' = "w\<lparr>wd_conns := (wd_conns w)(k \<mapsto> \<lparr>co_name = nm, co_loop = lp, co_tcp = t'\<rparr>),
        wd_loops := (wd_loops w)(lp := tw_loop t'), wd_thread := lp\<rparr>"
    have "World_ok inv known fresh (D - {k}) ?w'"
    proof (rule World_ok_put [OF ok])
      show "keeps_channel known c' (wd_loops w lp) (tw_loop t')" if "c' \<noteq> tc_channel t'" for c'
        using s that t(3, 5) t0(7) [of c'] by (auto simp: stepped_def intro: keeps_channel_trans)
      show "tc_channel (co_tcp ob') \<noteq> tc_channel t'" if "k' \<noteq> k" "wd_conns w k' = Some ob'" "co_loop ob' = lp" for k' ob'
        using World_ok_D(2) [OF ok that(2)] that(3) v(3) s t(3) by (auto simp: settled_def stepped_def)
    qed (use s in \<open>auto simp: stepped_def\<close>)
    moreover have "watched (tw_loop t') fd = Some (if Buffer_content (tc_outputBuffer t') = [] then 3 else 7, tc_channel t')"
      using s by (intro settled_watched(1) up) (auto simp: stepped_def)
    ultimately show "connected_world D k c fd nm lp w ?w'"
      unfolding connected_world_def using s t(3) up by (intro conjI exI [of _ t']) (simp_all add: stepped_def)
  qed
qed

lemma delete_ok:
  assumes ok: "World_ok inv known fresh D w" and ob: "wd_conns w k = Some ob" "k \<in> D"
  shows "returns (world_event_run dbg update remove mem body (Delete k) w) (World_ok inv known fresh (D - {k}))"
proof -
  let ?l = "wd_loops w (co_loop ob)" and ?c = "tc_channel (co_tcp ob)"
  let ?l' = "((fst ?l)(?c := None), snd ?l)"
  obtain fd ch where ch: "fst ?l ?c = Some ch" "ch_fd ch = fd" "\<not> ch_eventHanding ch" "\<not> known ?l ?c fd"
      "tc_state (co_tcp ob) = kDisconnected"
    using World_ok_D(2) [OF ok ob(1)] ob(2) by (auto simp: settled_def)
  have "\<forall>fd. \<not> known ?l ?c fd" using known_fd [OF World_ok_D(1) [OF ok]] ch by fastforce
  then have gone: "inv ?l'" "known ?l' = known ?l" using delete [OF World_ok_D(1) [OF ok]] by simp_all
  have run: "world_event_run dbg update remove mem body (Delete k) w =
      Inr (w\<lparr>wd_conns := (wd_conns w)(k := None), wd_loops := (wd_loops w)(co_loop ob := ?l')\<rparr>)"
    using ob(1) ch by (simp add: TcpConnection_destroy_def the_channel_def Channel_destroy_def cassert_holds)
  have "\<exists>fd. settled inv known fresh fd (k' \<in> D - {k}) (((wd_loops w)(co_loop ob := ?l')) (co_loop ob')) (co_tcp ob')"
    if other: "k' \<noteq> k" "wd_conns w k' = Some ob'" for k' ob'
  proof (cases "co_loop ob' = co_loop ob")
    case True
    then have "tc_channel (co_tcp ob') \<noteq> ?c" using World_ok_D(3) [OF ok other(2) ob(1) other(1)] by simp
    then have "keeps_channel known (tc_channel (co_tcp ob')) ?l ?l'" using gone(2) by (simp add: keeps_channel_def)
    moreover obtain fd where "settled inv known fresh fd (k' \<in> D) ?l (co_tcp ob')" using World_ok_D(2) [OF ok other(2)] True by auto
    ultimately have "settled inv known fresh fd (k' \<in> D) ?l' (co_tcp ob')" using settled_others [OF _ gone(1)] by blast
    then show ?thesis using True other(1) by auto
  next
    case False
    then show ?thesis using World_ok_D(2) [OF ok other(2)] other(1) by simp
  qed
  then show ?thesis
    unfolding run returns_simps using ok gone(1) unfolding World_ok_def by (auto split: if_splits)
qed

lemma connect_unbound: "world_connect dbg upd user False k c fd nm lp a b d e w = Inl FatalAbort"
proof -
  have size: "8 + kInitialSize \<le> vec_max" by (simp add: kInitialSize_def vec_max_def)
  obtain x where "Buffer_new dbg kInitialSize = Inr x" using Buffer_new_size [OF size, of dbg] by (auto simp: returns_iff)
  then show ?thesis by (simp add: world_connect_def TcpConnection_new_def)
qed

lemma event_world_ok:
  assumes ok: "World_ok inv known fresh D w" and ev: "world_possible vacant mem D ev w" "\<not> unbound ev" and body: "body_possible mem body"
  shows "outcome ({LengthError, BadCall} \<union> (if closed_again ev w then asserts dbg else {}))
    (world_event_run dbg update remove mem body ev w) (World_ok inv known fresh (destroyed_after D ev))"
proof (cases ev)
  case (Connect bound k c fd nm l a b d e)
  have "outcome ({LengthError} \<union> unset a) (world_event_run dbg update remove mem body ev w) (connected_world D k c fd nm l w)"
    using connect_up [OF ok _ _ _ body] ev Connect by simp
  then show ?thesis using Connect unset_sub by (elim outcome_mono) (auto simp: connected_world_def)
next
  case (Delete k)
  then obtain ob where "wd_conns w k = Some ob" "k \<in> D" using ev by auto
  then show ?thesis unfolding Delete destroyed_after.simps by (rule returns_outcome [OF delete_ok [OF ok]])
next
  case (OnConn k x)
  then obtain ob where ob: "wd_conns w k = Some ob" "life_possible mem (k \<in> D) x (co_tcp ob)" using ev by auto
  obtain fd where fd: "settled inv known fresh fd (k \<in> D) (wd_loops w (co_loop ob)) (co_tcp ob)" using World_ok_D(2) [OF ok ob(1)] by blast
  have st: "tc_state (co_tcp ob) \<noteq> kConnecting" using fd by (simp add: settled_def)
  let ?w = "w\<lparr>wd_thread := co_loop ob\<rparr>" and ?F = "{LengthError, BadCall} \<union> (if closed_again ev w then asserts dbg else {})"
  have F: "(if asserts_up x then down dbg (co_tcp ob) else {}) = (if closed_again ev w then asserts dbg else {})"
    using st ob(1) by (cases "tc_state (co_tcp ob)") (simp_all add: OnConn down_def tcp_up_def)
  have run: "world_event_run dbg update remove mem body ev w =
      bindR (tcp_event_run dbg update remove mem body x (in_loop (wd_loops w (co_loop ob)) (co_tcp ob))) (\<lambda>t.
        Inr (w\<lparr>wd_conns := (wd_conns w)(k \<mapsto> \<lparr>co_name = co_name ob, co_loop = co_loop ob, co_tcp = t\<rparr>),
               wd_loops := (wd_loops w)(co_loop ob := tw_loop t), wd_thread := co_loop ob\<rparr>))"
    using ob(1) on_conn_at [of ?w k ob] by (simp add: OnConn)
  show ?thesis
    unfolding run
  proof (rule outcome_bind [OF event_stepped [OF fd body ob(2), of dbg, unfolded F]], unfold outcome_simps)
    fix t assume s: "stepped fd (k \<in> D \<or> x = Destroy) (wd_loops w (co_loop ob)) (co_tcp ob) t"
    show "World_ok inv known fresh (destroyed_after D ev)
        (w\<lparr>wd_conns := (wd_conns w)(k \<mapsto> \<lparr>co_name = co_name ob, co_loop = co_loop ob, co_tcp = t\<rparr>),
        wd_loops := (wd_loops w)(co_loop ob := tw_loop t), wd_thread := co_loop ob\<rparr>)"
      by (rule World_ok_put [OF ok, where fd = fd]) (use s World_ok_D(3) [OF ok _ ob(1)] in \<open>auto simp: stepped_def OnConn\<close>)
  qed
qed

lemma reach_world_ok:
  assumes "world_reach dbg update remove vacant mem body w0 w D" "World_ok inv known fresh {} w0" "body_possible mem body"
  shows "World_ok inv known fresh D w"
  using assms(1)
proof (induction rule: world_reach.induct)
  case start
  show ?case by (rule assms(2))
next
  case (step w D ev w')
  have "\<not> unbound ev"
  proof
    assume "unbound ev"
    then show False using step.hyps(3) by (cases ev) (simp_all add: connect_unbound)
  qed
  then show ?case using event_world_ok [OF step.IH step.hyps(2) _ assms(3), of dbg] step.hyps(3) by simp
qed

text \<open>A connection with a callback that does nothing is made without a fault.\<close>

lemma connect_quiet:
  fixes w :: "('cb, 'w) world"
  assumes ok: "World_ok inv known fresh D w" and v: "vacant (wd_loops w lp) c fd" "fst (wd_loops w lp) c = None"
  shows "\<exists>w'. world_connect dbg update (user_script dbg update mem (\<lambda>_ _. [])) True k c fd nm lp (Some f) b d e w = Inr w' \<and>
    (\<exists>ob. wd_conns w' k = Some ob \<and> tc_state (co_tcp ob) = kConnected)"
proof -
  obtain t0 :: "('cb, 'w) Tcp" where t0: "TcpConnection_new dbg True c fd True (wd_loops w lp) = Inr t0"
    "Tcp_ok inv known fresh fd [] t0" "tc_state t0 = kConnecting" "tw_inLoop t0"
    using new_ok [OF World_ok_D(1) [OF ok] v, of dbg] by metis
  define t where "t = t0\<lparr>tc_connectionCallback := Some f, tc_messageCallback := b, tc_writeCompleteCallback := d, tc_closeCallback := e\<rparr>"
  have t: "Tcp_ok inv known fresh fd [] t" "tc_state t = kConnecting" "tw_loop t = tw_loop t0" "tc_connectionCallback t = Some f"
      "in_loop (tw_loop t0) t = t"
    using t0(2-4) by (auto simp: t_def Tcp_ok_def)
  obtain l where "Channel_enableReading dbg update (tc_channel t) (tw_loop t) = Inr l"
    using tcp_loop.enable_ok [OF tcp_on_loop tcp_on_start [OF t(1)] t(2), of dbg] by metis
  then have "TcpConnection_connectEstablished dbg update (user_script dbg update mem (\<lambda>_ _. [])) t =
      Inr (t\<lparr>tc_state := kConnected, tw_loop := l, tw_calls := tw_calls t @ [ConnectionCall f True]\<rparr>)"
    using tcp_loop.connectEstablished_eq [OF tcp_on_loop tcp_on_start [OF t(1)] t(2)] t(4)
    by (simp add: call_user_def user_script_def)
  then show ?thesis
    using on_conn_at [of "w\<lparr>wd_conns := (wd_conns w)(k \<mapsto> \<lparr>co_name = nm, co_loop = lp, co_tcp = t\<rparr>),
      wd_loops := (wd_loops w)(lp := tw_loop t), wd_thread := lp\<rparr>" k "\<lparr>co_name = nm, co_loop = lp, co_tcp = t\<rparr>"]
    by (simp add: world_connect_def t0(1) Let_def t_def [symmetric] t(3, 5))
qed

text \<open>What each connection can be sure of.\<close>

lemma World_ok_conn:
  assumes ok: "World_ok inv known fresh D w" and ob: "wd_conns w k = Some ob" "co_tcp ob = t" "co_loop ob = l"
  shows "tw_written t @ Buffer_content (tc_outputBuffer t) = tw_sent t \<and>
    (\<exists>ch. fst (wd_loops w l) (tc_channel t) = Some ch \<and> known (wd_loops w l) (tc_channel t) (ch_fd ch) = (k \<notin> D) \<and>
      (tcp_up (tc_state t) \<longrightarrow> watched (wd_loops w l) (ch_fd ch) =
         Some (if Buffer_content (tc_outputBuffer t) = [] then 3 else 7, tc_channel t)) \<and>
      (tc_state t = kDisconnected \<and> k \<notin> D \<longrightarrow> watched (wd_loops w l) (ch_fd ch) = None))"
proof -
  obtain fd where fd: "settled inv known fresh fd (k \<in> D) (wd_loops w l) t" using World_ok_D(2) [OF ok ob(1)] ob(2, 3) by blast
  then obtain ch where "fst (wd_loops w l) (tc_channel t) = Some ch" "ch_fd ch = fd" "known (wd_loops w l) (tc_channel t) fd = (k \<notin> D)"
    "tw_written t @ Buffer_content (tc_outputBuffer t) = tw_sent t"
    by (auto simp: settled_def Tcp_ok_def)
  then show ?thesis using settled_watched [OF fd World_ok_D(1) [OF ok]] by auto
qed

end

interpretation poller_world: tcp_world Poller_inv Poller_watched Poller_known Poller_fresh
    "Poller_updateChannel False True" "Poller_removeChannel False True" Poller_vacant
  by unfold_locales

interpretation epoll_world: tcp_world EPoll_inv EPoll_watched EPoll_known EPoll_fresh
    "EPollPoller_updateChannel dbg True" "EPollPoller_removeChannel dbg True" EPoll_vacant for dbg
  by unfold_locales

section \<open>Builds with the asserts of the demultiplexer\<close>

context tcp_builds
begin

lemma world_connect_built:
  "built pdbg (world_connect dbg update (user_script dbg update mem body) bound k c fd nm l a b d e w)
     (world_connect dbg update' (user_script dbg update' mem body) bound k c fd nm l a b d e w)"
  unfolding world_connect_def Let_def by (intro built_intros on_conn_built connectEstablished_built)

lemma world_event_built:
  "built pdbg (world_event_run dbg update remove mem body ev w) (world_event_run dbg update' remove' mem body ev w)"
  by (cases ev) (auto simp: world_connect_built split: option.split intro!: on_conn_built event_built)

lemma world_reach_built:
  "world_reach dbg update remove vacant mem body w0 w D \<Longrightarrow> world_reach dbg update' remove' vacant mem body w0 w D"
proof (induction rule: world_reach.induct)
  case (step w D ev w')
  then show ?case by (intro world_reach.step [OF step.IH step.hyps(2)] built_InrD [OF world_event_built])
qed (rule world_reach.start)

end

section \<open>Properties\<close>

lemma World_ok_start: "\<forall>l. linv (wd_loops w l) \<Longrightarrow> wd_conns w = (\<lambda>_. None) \<Longrightarrow> World_ok linv known fresh {} w"
  by (simp add: World_ok_def)

text \<open>
  C4. Connections do not disturb each other. Any number of them, on any number of loops over pollers, are made, used,
  closed, destroyed by their owner and deleted in any order, in builds with and without the asserts of the connections, their
  buffers and channels (\<open>dbg\<close>) and those of poller.cc (\<open>pdbg\<close>). Making one whose socket cannot be bound aborts the process, as it does for every
  accepted or connected socket, which bind(2) refuses with \<^verbatim>\<open>EINVAL\<close>. Every other event that can happen next to
  one of them returns, or stops with \<^verbatim>\<open>std::length_error\<close>, with the call of a callback that was never set, at an assert
  of the poller if it has them, or at the assert that the connection is up, if it has them, and then only for a close, a
  read or the destruction of a connection that is closed already. At all times each connection has
  written and buffered exactly what was sent on it, it is registered on its own descriptor until it is destroyed, and
  while it is up it is watched for exactly the events it needs, on its own descriptor and channel, and once closed for
  none, whatever happened to the others.
\<close>

theorem TcpConnections_share_loops:
  fixes w :: "('cb, Poller) world"
  assumes "\<forall>l. Poller_inv (wd_loops w0 l)" "wd_conns w0 = (\<lambda>_. None)" "body_possible mem body"
    and "world_reach dbg (Poller_updateChannel pdbg True) (Poller_removeChannel pdbg True) Poller_vacant mem body w0 w D"
  shows "(\<forall>ev. world_possible Poller_vacant mem D ev w \<longrightarrow>
      (if unbound ev then world_event_run dbg (Poller_updateChannel pdbg True) (Poller_removeChannel pdbg True) mem body ev w = Inl FatalAbort
       else outcome ({LengthError, BadCall} \<union> asserts pdbg \<union> (if closed_again ev w then asserts dbg else {}))
         (world_event_run dbg (Poller_updateChannel pdbg True) (Poller_removeChannel pdbg True) mem body ev w) (\<lambda>_. True))) \<and>
    (\<forall>k ob. wd_conns w k = Some ob \<longrightarrow>
      (let t = co_tcp ob; l = wd_loops w (co_loop ob) in
       tw_written t @ Buffer_content (tc_outputBuffer t) = tw_sent t \<and>
       (\<exists>ch. fst l (tc_channel t) = Some ch \<and> Poller_known l (tc_channel t) (ch_fd ch) = (k \<notin> D) \<and>
          (tcp_up (tc_state t) \<longrightarrow>
             Poller_watched l (ch_fd ch) = Some (if Buffer_content (tc_outputBuffer t) = [] then 3 else 7, tc_channel t)) \<and>
          (tc_state t = kDisconnected \<and> k \<notin> D \<longrightarrow> Poller_watched l (ch_fd ch) = None))))"
proof -
  let ?run = "\<lambda>ev. world_event_run dbg (Poller_updateChannel pdbg True) (Poller_removeChannel pdbg True) mem body ev w"
  have ok: "World_ok Poller_inv Poller_known Poller_fresh D w"
    by (rule poller_world.reach_world_ok [OF poller_tcp_builds.world_reach_built [OF assms(4)]
          World_ok_start [where linv = Poller_inv, OF assms(1, 2)] assms(3)])
  have "?run ev = Inl FatalAbort" if "unbound ev" for ev
    using that by (cases ev) (simp_all add: poller_world.connect_unbound)
  moreover have "outcome ({LengthError, BadCall} \<union> asserts pdbg \<union> (if closed_again ev w then asserts dbg else {})) (?run ev) (\<lambda>_. True)"
    if "world_possible Poller_vacant mem D ev w" "\<not> unbound ev" for ev
    using built_outcome [OF poller_tcp_builds.world_event_built poller_world.event_world_ok [OF ok that assms(3)], of dbg pdbg]
    by (elim outcome_mono) auto
  ultimately show ?thesis using poller_world.World_ok_conn [OF ok] by (simp add: Let_def)
qed

theorem TcpConnections_share_loops_witness:
  "\<exists>w :: (bool, Poller) world. (\<exists>ob. wd_conns w 4 = Some ob) \<and> outcome {LengthError, BadCall}
     (world_event_run True (Poller_updateChannel False True) (Poller_removeChannel False True) hello quiet
        (OnConn 4 (UserOp (Send (WriteOk 2) 100 5))) w) (\<lambda>_. True)"
proof -
  let ?upd = "Poller_updateChannel False True :: Poller loop_op" and ?rem = "Poller_removeChannel False True :: Poller loop_op"
  define w0 :: "(bool, Poller) world" where
    "w0 = \<lparr>wd_loops = (\<lambda>_. empty_loop), wd_conns = (\<lambda>_. None), wd_destroys = (\<lambda>_. []), wd_thread = 0\<rparr>"
  have inv: "\<forall>l. Poller_inv (wd_loops w0 l)" "wd_conns w0 = (\<lambda>_. None)" and v: "Poller_vacant (wd_loops w0 0) 1 7" "fst (wd_loops w0 0) 1 = None"
    using empty_loop_start by (simp_all add: w0_def tcp_start_def Poller_vacant_def empty_loop_def Poller_new_def)
  note ok = World_ok_start [where linv = Poller_inv and known = Poller_known and fresh = Poller_fresh, OF inv]
  let ?ev = "Connect True 4 1 7 ''a'' 0 (Some True) None None None"
  obtain w ob where w: "world_event_run True ?upd ?rem hello quiet ?ev w0 = Inr w" "wd_conns w 4 = Some ob"
    using poller_world.connect_quiet [OF ok v, of True hello 4 "''a''" True None None None] by auto
  have "world_reach True ?upd ?rem Poller_vacant hello quiet w0 w (destroyed_after {} ?ev)"
    by (rule world_reach.step [OF world_reach.start _ w(1)]) (use v inv(2) in simp)
  note shared = TcpConnections_share_loops [OF inv quiet_possible this]
  have "world_possible Poller_vacant hello (destroyed_after {} ?ev) (OnConn 4 (UserOp (Send (WriteOk 2) 100 5))) w"
    using w(2) by (simp add: hello_def vec_max_def)
  with conjunct1 [OF shared] have "outcome {LengthError, BadCall}
     (world_event_run True ?upd ?rem hello quiet (OnConn 4 (UserOp (Send (WriteOk 2) 100 5))) w) (\<lambda>_. True)"
    by fastforce
  with w(2) show ?thesis by blast
qed

text \<open>
  The same over epoll demultiplexers whose loop pointer is set, with the asserts of the demultiplexer.
\<close>

theorem TcpConnections_share_epoll:
  fixes w :: "('cb, EPollPoller) world"
  assumes "\<forall>l. EPoll_inv (wd_loops w0 l)" "wd_conns w0 = (\<lambda>_. None)" "body_possible mem body"
    and "world_reach dbg (EPollPoller_updateChannel dbg True) (EPollPoller_removeChannel dbg True) EPoll_vacant mem body w0 w D"
    and "world_possible EPoll_vacant mem D ev w" "\<not> unbound ev"
  shows "outcome ({LengthError, BadCall} \<union> (if closed_again ev w then asserts dbg else {}))
      (world_event_run dbg (EPollPoller_updateChannel dbg True) (EPollPoller_removeChannel dbg True) mem body ev w) (\<lambda>_. True)"
proof -
  have ok: "World_ok EPoll_inv EPoll_known EPoll_fresh D w"
    by (rule epoll_world.reach_world_ok [OF assms(4) World_ok_start [where linv = EPoll_inv, OF assms(1, 2)] assms(3)])
  show ?thesis by (rule outcome_mono [OF epoll_world.event_world_ok [OF ok assms(5, 6, 3)]]) auto
qed

end
