(* ===== verification/TcpClient.thy ===== *)
theory TcpClient
  imports Multiplex Connector
begin

text \<open>
  The client of tcpclient.h and tcpclient.cc over its connector and its connection. Connections are objects of
  the world of TcpServer; the connector's channel has a store of its own. Log output is left out.
\<close>

section \<open>TcpClient\<close>

record ('u, 'w) TcpClient =
  cl_loop :: nat
  cl_connector :: "(unit, 'w) Connector"
  cl_name :: string
  cl_connectionCallback :: "'u owner_cb"
  cl_messageCallback :: "'u owner_cb"
  cl_writeCompleteCallback :: "'u owner_cb option"
  cl_retry :: bool
  cl_connected :: bool
  cl_nextConnId :: int
  cl_connection :: "nat option"
  cl_closeFunctors :: "nat list"
  cl_world :: "('u owner_cb, 'w) world"

definition client_in_loop :: "('u, 'w) TcpClient \<Rightarrow> bool" where
  "client_in_loop s \<longleftrightarrow> wd_thread (cl_world s) = cl_loop s"

definition TcpClient_new ::
  "nat \<Rightarrow> string \<Rightarrow> connector_handler store \<times> 'w \<Rightarrow> ('u owner_cb, 'w) world \<Rightarrow> ('u, 'w) TcpClient" where
  "TcpClient_new loop name lc world =
     \<lparr>cl_loop = loop, cl_connector = Connector_setNewConnectionCallback () (Connector_new (wd_thread world = loop) lc),
      cl_name = name, cl_connectionCallback = DefaultConnection, cl_messageCallback = DefaultMessage,
      cl_writeCompleteCallback = None, cl_retry = False, cl_connected = True, cl_nextConnId = 1, cl_connection = None,
      cl_closeFunctors = [], cl_world = world\<rparr>"

definition TcpClient_enableRetry :: "('u, 'w) TcpClient \<Rightarrow> ('u, 'w) TcpClient" where
  "TcpClient_enableRetry s = s\<lparr>cl_retry := True\<rparr>"

definition TcpClient_setConnectionCallback :: "'u \<Rightarrow> ('u, 'w) TcpClient \<Rightarrow> ('u, 'w) TcpClient" where
  "TcpClient_setConnectionCallback cb s = s\<lparr>cl_connectionCallback := UserCb cb\<rparr>"

definition TcpClient_setMessageCallback :: "'u \<Rightarrow> ('u, 'w) TcpClient \<Rightarrow> ('u, 'w) TcpClient" where
  "TcpClient_setMessageCallback cb s = s\<lparr>cl_messageCallback := UserCb cb\<rparr>"

definition TcpClient_setWriteCompleteCallback :: "'u \<Rightarrow> ('u, 'w) TcpClient \<Rightarrow> ('u, 'w) TcpClient" where
  "TcpClient_setWriteCompleteCallback cb s = s\<lparr>cl_writeCompleteCallback := Some (UserCb cb)\<rparr>"

text \<open>\<open>c\<close>, \<open>fd\<close> and \<open>e\<close> are the numbers of the attempt to connect, if one is made.\<close>

definition with_connector ::
  "(((unit, 'w) Connector) \<Rightarrow> (unit, 'w) Connector res) \<Rightarrow> ('u, 'w) TcpClient \<Rightarrow> ('u, 'w) TcpClient res" where
  "with_connector f s =
     bindR (f ((cl_connector s)\<lparr>cw_inLoop := client_in_loop s\<rparr>)) (\<lambda>cn.
       Inr (s\<lparr>cl_connector := cn\<lparr>cw_inLoop := cw_inLoop (cl_connector s)\<rparr>\<rparr>))"

definition TcpClient_connect ::
  "bool \<Rightarrow> 'w connector_op \<Rightarrow> nat \<Rightarrow> int \<Rightarrow> int \<Rightarrow> ('u, 'w) TcpClient \<Rightarrow> ('u, 'w) TcpClient res" where
  "TcpClient_connect dbg upd c fd e s = with_connector (Connector_start dbg upd c fd e) (s\<lparr>cl_connected := True\<rparr>)"

definition TcpClient_disconnect :: "('u, 'w) TcpClient \<Rightarrow> ('u, 'w) TcpClient res" where
  "TcpClient_disconnect s =
     (let s' = s\<lparr>cl_connected := False\<rparr> in
      case cl_connection s' of
        None \<Rightarrow> Inr s'
      | Some k \<Rightarrow> bindR (on_conn k TcpConnection_shutdown (cl_world s')) (\<lambda>world. Inr (s'\<lparr>cl_world := world\<rparr>)))"

definition TcpClient_stop :: "('u, 'w) TcpClient \<Rightarrow> ('u, 'w) TcpClient res" where
  "TcpClient_stop s = with_connector (\<lambda>cn. Inr (Connector_stop cn)) (s\<lparr>cl_connected := False\<rparr>)"

text \<open>\<open>peer\<close> is what \<^verbatim>\<open>getpeername\<close> gives. The text of the number goes into an array of 32 bytes.\<close>

definition client_conn_name :: "string \<Rightarrow> string \<Rightarrow> int \<Rightarrow> string" where
  "client_conn_name name peer_text n = name @ snprintf 32 ('':'' @ peer_text @ ''#'' @ fmt_d 0 n)"

definition TcpClient_newConnection ::
  "bool \<Rightarrow> endian \<Rightarrow> ntop \<Rightarrow> 'w loop_op \<Rightarrow> ('u owner_cb, 'w) tcp_user \<Rightarrow> nat \<Rightarrow> nat \<Rightarrow> bool \<Rightarrow> sockaddr option \<Rightarrow> int \<Rightarrow>
     ('u, 'w) TcpClient \<Rightarrow> ('u, 'w) TcpClient res" where
  "TcpClient_newConnection dbg h ntop upd user k c bound peer sockfd s =
     (if \<not> client_in_loop s then Inl FatalAbort else
      bindR (InetAddress_ipPort dbg h ntop (getPeerAddr peer)) (\<lambda>peer_text.
      let connName = client_conn_name (cl_name s) peer_text (cl_nextConnId s) in
      bindR (cint 32 (cl_nextConnId s + 1)) (\<lambda>n.
      bindR (TcpConnection_new dbg bound c sockfd True (wd_loops (cl_world s) (cl_loop s))) (\<lambda>conn.
        let conn = TcpConnection_setCloseCallback RemoveConnection
              (conn\<lparr>tc_connectionCallback := Some (cl_connectionCallback s), tc_messageCallback := Some (cl_messageCallback s),
                    tc_writeCompleteCallback := cl_writeCompleteCallback s\<rparr>);
            world = (cl_world s)\<lparr>wd_conns := (wd_conns (cl_world s))(k \<mapsto> \<lparr>co_name = connName, co_loop = cl_loop s, co_tcp = conn\<rparr>),
                                 wd_loops := (wd_loops (cl_world s))(cl_loop s := tw_loop conn)\<rparr>
        in bindR (on_conn k (TcpConnection_connectEstablished dbg upd user) world) (\<lambda>world'.
             Inr (s\<lparr>cl_nextConnId := n, cl_connection := Some k, cl_world := world'\<rparr>))))))"

definition TcpClient_removeConnection ::
  "bool \<Rightarrow> 'w connector_op \<Rightarrow> nat \<Rightarrow> int \<Rightarrow> int \<Rightarrow> nat \<Rightarrow> ('u, 'w) TcpClient \<Rightarrow> ('u, 'w) TcpClient res" where
  "TcpClient_removeConnection dbg upd c fd e k s =
     (if \<not> client_in_loop s then Inl FatalAbort else
      case wd_conns (cl_world s) k of
        None \<Rightarrow> Inl BadPointer
      | Some ob \<Rightarrow>
          cassert dbg (cl_loop s = co_loop ob) (cassert dbg (cl_connection s = Some k)
            (let s1 = s\<lparr>cl_connection := None, cl_world := queue_destroy (cl_loop s) k (cl_world s)\<rparr> in
             if cl_retry s1 \<and> cl_connected s1 then with_connector (Connector_restart dbg upd c fd e) s1
             else Inr s1)))"

text \<open>
  The destructor leaves a connection with a close callback that does without the client, at once or by a
  functor; without a connection it stops the connector, and sets a timer that does nothing.
\<close>

definition TcpClient_destroy :: "bool \<Rightarrow> ('u, 'w) TcpClient \<Rightarrow> ('u, 'w) TcpClient res" where
  "TcpClient_destroy dbg s =
     (case cl_connection s of
        Some k \<Rightarrow>
          (case wd_conns (cl_world s) k of
             None \<Rightarrow> Inl BadPointer
           | Some ob \<Rightarrow> cassert dbg (cl_loop s = co_loop ob)
               (if client_in_loop s
                then bindR (on_conn k (\<lambda>t. Inr (TcpConnection_setCloseCallback OrphanRemove t)) (cl_world s)) (\<lambda>world.
                       Inr (s\<lparr>cl_world := world\<rparr>))
                else Inr (s\<lparr>cl_closeFunctors := cl_closeFunctors s @ [k]\<rparr>)))
      | None \<Rightarrow> with_connector (\<lambda>cn. Inr (Connector_stop cn)) s)"

section \<open>Lemmas\<close>

text \<open>A connector whose connection was handed over is started again from the first delay.\<close>

lemma restart_connects:
  fixes w :: "('cb, Poller) Connector"
  assumes ok: "Connector_ok Poller_inv Poller_known w"
    and st: "cn_state w = ConnectorState.kConnected" "cn_channel w = None" "Poller_vacant (cw_loop w) c fd"
    and e: "e \<in> {0, EINPROGRESS, EINTR, EISCONN}"
  shows "returns (Connector_restart dbg (Poller_updateChannel False True) c fd e w) (\<lambda>w'.
     Connector_ok Poller_inv Poller_known w' \<and> cn_state w' = ConnectorState.kConnecting \<and> cw_open w' = [fd] \<and>
     Poller_watched (cw_loop w') fd = Some (4, c))"
proof -
  define w1 where "w1 = w\<lparr>cn_state := ConnectorState.kDisconnected, cn_retryDelayMs := kInitRetryDelayMs, cn_connected := True\<rparr>"
  have off: "conn_base Poller_inv w" "conn_off Poller_known w" using ok st(1) by (simp_all add: Connector_ok_def)
  then have "starts w = 0" using st(1) by (auto simp: conn_off_def)
  then have w1: "poller_connector.idle (w1\<lparr>cw_open := [fd]\<rparr>)" "cw_inLoop w1" "cn_state w1 = ConnectorState.kDisconnected"
      "cn_connected w1" "cw_open w1 = []"
    using off st(2) by (auto simp: w1_def poller_connector.idle_def conn_base_def conn_off_def kInitRetryDelayMs_def
        kMaxRetryDelayMs_def starts_def)
  have v: "Poller_vacant (cw_loop (w1\<lparr>cw_open := [fd]\<rparr>)) c fd" using st(3) by (simp add: w1_def)
  have "0 \<le> fd" using st(3) by (simp add: Poller_vacant_def)
  then have "Connector_restart dbg (Poller_updateChannel False True) c fd e w =
      Connector_connecting dbg (Poller_updateChannel False True) c fd (w1\<lparr>cw_open := [fd]\<rparr>)"
    using e w1(2-5) off(1) unfolding Connector_restart_def w1_def [symmetric]
    by (auto simp: in_loop_thread_def conn_base_def Connector_startInLoop_def cassert_holds Connector_connect_def Let_def)
  then show ?thesis
    using poller_connector.connecting_ok [OF w1(1) _ v, of dbg] by (auto elim!: returns_mono)
qed

section \<open>Properties\<close>

text \<open>
  C37. When its connection is removed, a client lets go of it and queues one \<^verbatim>\<open>connectDestroyed\<close> for it; if it
  is to retry and has not been stopped or disconnected, its connector makes a new attempt at once, with a socket
  that the loop watches for writing; otherwise the connector is left alone.
\<close>

theorem TcpClient_reconnects:
  fixes s :: "('u, Poller) TcpClient"
  assumes "Poller_inv l" "connector_states dbg stops () l (cl_connector s)"
    and "cn_state (cl_connector s) = ConnectorState.kConnected" "cn_channel (cl_connector s) = None"
    and "Poller_vacant (cw_loop (cl_connector s)) c fd" "e \<in> {0, EINPROGRESS, EINTR, EISCONN}"
    and "client_in_loop s" "cl_connection s = Some k" "wd_conns (cl_world s) k = Some ob" "co_loop ob = cl_loop s"
  shows "returns (TcpClient_removeConnection dbg (Poller_updateChannel False True) c fd e k s) (\<lambda>s'.
     cl_connection s' = None \<and> wd_destroys (cl_world s') (cl_loop s) = wd_destroys (cl_world s) (cl_loop s) @ [k] \<and>
     (if cl_retry s \<and> cl_connected s
      then cn_state (cl_connector s') = ConnectorState.kConnecting \<and> cw_open (cl_connector s') = [fd] \<and>
           Poller_watched (cw_loop (cl_connector s')) fd = Some (4, c)
      else cl_connector s' = cl_connector s))"
proof -
  have ok: "Connector_ok Poller_inv Poller_known (cl_connector s)"
    by (rule poller_connector.reach_ok [OF assms(2) Connector_start_ok [where linv = Poller_inv, OF assms(1)]])
  then have in_loop: "(cl_connector s)\<lparr>cw_inLoop := True\<rparr> = cl_connector s"
    by (auto simp: Connector_ok_def conn_base_def)
  obtain cn where cn: "Connector_restart dbg (Poller_updateChannel False True) c fd e (cl_connector s) = Inr cn"
      "cn_state cn = ConnectorState.kConnecting" "cw_open cn = [fd]" "Poller_watched (cw_loop cn) fd = Some (4, c)"
    using restart_connects [OF ok assms(3-6), of dbg] by (auto simp: returns_iff)
  show ?thesis
    using assms(7-10) cn in_loop
    by (auto simp: TcpClient_removeConnection_def cassert_holds Let_def with_connector_def queue_destroy_def client_in_loop_def)
qed

text \<open>A connector that was started, whose connection was handed over, and whose channel was then deleted.\<close>

definition handed_over :: "nat \<Rightarrow> (unit, Poller) Connector res" where
  "handed_over n = connector_events_run True (Poller_updateChannel False True) (Poller_removeChannel False True) (\<lambda>_ _. False)
     (take n [Start 7 5 EINPROGRESS, Report False True 0 False, RunFunctor 8 6 0])
     (Connector_setNewConnectionCallback () (Connector_new True (\<lambda>_. None, Poller_new)))"

lemmas connector_eval = Connector_setNewConnectionCallback_def Connector_new_def Connector_start_def Let_def
  Connector_startInLoop_def in_loop_thread_def cassert_def Connector_connect_def Connector_connecting_def delete_channel_def
  Channel_enableWriting_def Channel_setInterest_def close_socket_def to_short_def int_of_size_def Channel_update_def
  Channel_disableAll_def Channel_remove_def Poller_updateChannel_def Poller_removeChannel_def Channel_new_def
  Channel_setErrorCallback_def Channel_setWriteCallback_def Poller_new_def Connector_handleWrite_def
  Connector_removeAndResetChannel_def Connector_resetChannel_def stopping_user_def queue_def Channel_isNoneEvent_def Channel_destroy_def

lemma handed_over_state:
  "returns (handed_over 1) (\<lambda>w. cn_state w = ConnectorState.kConnecting)"
  "returns (handed_over 2) (\<lambda>w. snd (cw_loop w) = Poller_new)"
  "returns (handed_over 3) (\<lambda>w. cn_state w = ConnectorState.kConnected \<and> cn_channel w = None \<and> snd (cw_loop w) = Poller_new)"
  by (simp_all add: handed_over_def connector_eval)

lemma connecting_state:
  "returns (handed_over 1) (\<lambda>w. cn_state w = ConnectorState.kConnecting \<and> cn_connected w \<and> cw_open w = [5])"
  by (simp add: handed_over_def connector_eval)

lemma vacant_again: "snd l = Poller_new \<Longrightarrow> 0 \<le> fd \<Longrightarrow> Poller_vacant l c fd"
  using Poller_new_vacant [of fd "fst l" c] by (cases l) simp

lemma handed_over_ok:
  assumes w: "handed_over 3 = Inr w"
  shows "connector_states True (\<lambda>_ _. False) () (\<lambda>_. None, Poller_new) w"
proof -
  let ?U = "Poller_updateChannel False True :: Poller connector_op" and ?R = "Poller_removeChannel False True :: Poller connector_op"
  let ?run = "connector_event_run True ?U ?R (\<lambda>_ _. False)"
  let ?w0 = "Connector_setNewConnectionCallback () (Connector_new True (\<lambda>_. None, Poller_new))"
  obtain w1 w2 where run: "?run (Start 7 5 EINPROGRESS) ?w0 = Inr w1" "?run (Report False True 0 False) w1 = Inr w2"
      "?run (RunFunctor 8 6 0) w2 = Inr w"
    using w by (auto simp: handed_over_def bindR_def simp del: connector_event_run.simps split: sum.splits)
  then have "handed_over 1 = Inr w1" "handed_over 2 = Inr w2"
    by (simp_all add: handed_over_def numeral_2_eq_2 del: connector_event_run.simps)
  then have mid: "cn_state w1 = ConnectorState.kConnecting" "snd (cw_loop w2) = Poller_new"
    using handed_over_state(1, 2) by simp_all
  have "connector_states True (\<lambda>_ _. False) () (\<lambda>_. None, Poller_new) ?w0" by (rule connector_reach.start)
  then have r1: "connector_states True (\<lambda>_ _. False) () (\<lambda>_. None, Poller_new) w1"
    by (rule connector_reach.step [OF _ _ run(1)])
      (simp add: Connector_setNewConnectionCallback_def Connector_new_def starts_def vacant_again)
  have "Connector_ok Poller_inv Poller_known w1"
    by (rule poller_connector.reach_ok [OF r1 Connector_start_ok [where linv = Poller_inv, OF Poller_new_inv]])
  then have "connector_states True (\<lambda>_ _. False) () (\<lambda>_. None, Poller_new) w2"
    by (intro connector_reach.step [OF r1 _ run(2)] poller_connector.report_possible mid(1))
  then show ?thesis
    by (rule connector_reach.step [OF _ _ run(3)]) (simp add: vacant_again mid(2))
qed

lemma connecting_reach:
  assumes "handed_over 1 = Inr w"
  shows "connector_states True (\<lambda>_ _. False) () (\<lambda>_. None, Poller_new) w"
proof -
  let ?w0 = "Connector_setNewConnectionCallback () (Connector_new True (\<lambda>_. None, Poller_new))"
  have "connector_event_run True (Poller_updateChannel False True) (Poller_removeChannel False True) (\<lambda>_ _. False)
      (Start 7 5 EINPROGRESS) ?w0 = Inr w"
    using assms by (simp add: handed_over_def del: connector_event_run.simps)
  note run = this
  show ?thesis
    by (rule connector_reach.step [OF connector_reach.start _ run])
      (simp add: Connector_setNewConnectionCallback_def Connector_new_def starts_def vacant_again)
qed

theorem TcpClient_reconnects_witness:
  "\<exists>w s. handed_over 3 = Inr w \<and> cl_connector s = w \<and> cl_retry s \<and>
     returns (TcpClient_removeConnection True (Poller_updateChannel False True) 9 6 EINPROGRESS 3 (s :: (nat, Poller) TcpClient))
       (\<lambda>s'. cw_open (cl_connector s') = [6])"
proof -
  obtain w where w: "handed_over 3 = Inr w" "cn_state w = ConnectorState.kConnected" "cn_channel w = None"
      "snd (cw_loop w) = Poller_new"
    using handed_over_state(3) unfolding returns_iff by blast
  have v: "Poller_vacant (cw_loop w) 9 6" using w(4) by (simp add: vacant_again)
  define ob :: "(nat owner_cb, Poller) conn_object" where "ob = \<lparr>co_name = ''c'', co_loop = 0, co_tcp = undefined\<rparr>"
  define s :: "(nat, Poller) TcpClient" where
    "s = (TcpClient_enableRetry (TcpClient_new 0 ''c'' (\<lambda>_. None, Poller_new)
        \<lparr>wd_loops = (\<lambda>_. (\<lambda>_. None, Poller_new)), wd_conns = [3 \<mapsto> ob], wd_destroys = (\<lambda>_. []), wd_thread = 0\<rparr>))
        \<lparr>cl_connector := w, cl_connection := Some 3\<rparr>"
  have s: "cl_connector s = w" "cl_connection s = Some 3" "wd_conns (cl_world s) 3 = Some ob" "co_loop ob = cl_loop s" "client_in_loop s"
      "cl_retry s" "cl_connected s"
    by (simp_all add: s_def ob_def TcpClient_new_def TcpClient_enableRetry_def client_in_loop_def)
  note facts = handed_over_ok [OF w(1)] w(2, 3) v
  note r = TcpClient_reconnects [OF Poller_new_inv facts [folded s(1)] _ s(5, 2, 3, 4), of EINPROGRESS]
  have "returns (TcpClient_removeConnection True (Poller_updateChannel False True) 9 6 EINPROGRESS 3 s)
      (\<lambda>s'. cw_open (cl_connector s') = [6])"
    by (rule returns_mono [OF r]) (simp_all only: s(6, 7), simp_all)
  with w(1) s(1, 6) show ?thesis by blast
qed

section \<open>A connection comes up\<close>

text \<open>
  The loop reports the descriptor of the connector, whose callback is \<^verbatim>\<open>newConnection\<close>: \<open>err\<close> is the pending error
  of the socket, \<open>slf\<close> says whether it is connected to itself.
\<close>

definition client_report ::
  "bool \<Rightarrow> endian \<Rightarrow> ntop \<Rightarrow> 'w connector_op \<Rightarrow> 'w connector_op \<Rightarrow> 'w loop_op \<Rightarrow> ('u owner_cb, 'w) tcp_user \<Rightarrow> nat \<Rightarrow> nat \<Rightarrow>
     bool \<Rightarrow> sockaddr option \<Rightarrow> bool \<Rightarrow> bool \<Rightarrow> int \<Rightarrow> bool \<Rightarrow> ('u, 'w) TcpClient \<Rightarrow> ('u, 'w) TcpClient res" where
  "client_report dbg h ntop updc remc upd user k c bound peer er wr err slf s =
     bindR (with_connector (connector_event_run dbg updc remc (\<lambda>_ _. False) (Report er wr err slf)) s) (\<lambda>s'.
       let ds = cw_delivered (cl_connector s') in
       if ds = cw_delivered (cl_connector s) then Inr s'
       else TcpClient_newConnection dbg h ntop upd user k c bound peer (last ds) s')"

text \<open>The part of \<^verbatim>\<open>newConnection\<close> that concerns the world is that of every new connection.\<close>

lemma newConnection_world:
  assumes "client_in_loop s" "InetAddress_ipPort dbg h ntop (getPeerAddr peer) = Inr text'" "cint 32 (cl_nextConnId s + 1) = Inr n"
  shows "TcpClient_newConnection dbg h ntop upd user k c bound peer sockfd s =
    bindR (world_connect dbg upd user bound k c sockfd (client_conn_name (cl_name s) text' (cl_nextConnId s)) (cl_loop s)
        (Some (cl_connectionCallback s)) (Some (cl_messageCallback s)) (cl_writeCompleteCallback s) (Some RemoveConnection) (cl_world s))
      (\<lambda>world'. Inr (s\<lparr>cl_nextConnId := n, cl_connection := Some k, cl_world := world'\<rparr>))"
proof -
  have thread: "w\<lparr>wd_conns := x, wd_loops := y, wd_thread := cl_loop s\<rparr> = w\<lparr>wd_conns := x, wd_loops := y\<rparr>"
    if "wd_thread w = cl_loop s" for w :: "('a owner_cb, 'b) world" and x y
    using that by (cases w) simp
  show ?thesis
    using assms
    by (cases "TcpConnection_new dbg bound c sockfd True (wd_loops (cl_world s) (cl_loop s)) :: ('a owner_cb, 'b) Tcp res")
      (simp_all add: TcpClient_newConnection_def world_connect_def Let_def TcpConnection_setCloseCallback_def thread client_in_loop_def)
qed

text \<open>
  C10. A client's connection comes up, if it can: in every state of a careful owner in which a connection is under way and
  was not stopped, let the socket become writable without an error and not be connected to itself. With the poller's
  asserts (\<open>pdbg\<close>) the report stops at one of them. Without, when \<^verbatim>\<open>bind\<close> fails in the constructor of the connection
  the process aborts, as it does for every connected socket, which bind(2) refuses with \<^verbatim>\<open>EINVAL\<close>; else the report
  returns with the connector done with the socket and no longer watching it, the client has the connection, under a name
  made of its own, the peer's address and its number, established and watched by the loop on that same socket,
  and the other connections of the world are as they were. The only fault left is \<^verbatim>\<open>std::length_error\<close>, for what the
  callbacks send.
\<close>

theorem TcpClient_connects:
  fixes s :: "('u, Poller) TcpClient"
  assumes "Poller_inv l"
    and "connector_reach dbg (Poller_updateChannel pdbg True) (Poller_removeChannel pdbg True) stops Poller_inv Poller_known Poller_vacant
       (Connector_setNewConnectionCallback () (Connector_new True l)) (cl_connector s)"
    and "cn_state (cl_connector s) = ConnectorState.kConnecting" "cn_connected (cl_connector s)" "cw_open (cl_connector s) = [fd]"
    and "World_ok Poller_inv Poller_known Poller_fresh D (cl_world s)" "client_in_loop s" "cl_nextConnId s \<in> {0..<2 ^ 31 - 1}"
    and "wd_conns (cl_world s) k = None" "Poller_vacant (wd_loops (cl_world s) (cl_loop s)) c fd"
    and "fst (wd_loops (cl_world s) (cl_loop s)) c = None"
    and "ntop_contract ntop" "sockaddr_wf (getPeerAddr peer)" "body_possible mem body"
  shows "let run = client_report dbg h ntop (Poller_updateChannel pdbg True) (Poller_removeChannel pdbg True) (Poller_updateChannel pdbg True)
       (user_script dbg (Poller_updateChannel pdbg True) mem body) k c bound peer False True 0 False s in
    if pdbg then run = Inl AssertFail
    else if \<not> bound then run = Inl FatalAbort
    else outcome {LengthError} run
    (\<lambda>s'. cn_state (cl_connector s') = ConnectorState.kConnected \<and> cw_open (cl_connector s') = [] \<and>
       Poller_watched (cw_loop (cl_connector s')) fd = None \<and>
       cl_connection s' = Some k \<and> cl_nextConnId s' = cl_nextConnId s + 1 \<and>
       World_ok Poller_inv Poller_known Poller_fresh (D - {k}) (cl_world s') \<and>
       (\<forall>k'. k' \<noteq> k \<longrightarrow> wd_conns (cl_world s') k' = wd_conns (cl_world s) k') \<and>
       (\<exists>text' ob. InetAddress_ipPort dbg h ntop (getPeerAddr peer) = Inr text' \<and> wd_conns (cl_world s') k = Some ob \<and>
          co_name ob = client_conn_name (cl_name s) text' (cl_nextConnId s) \<and> co_loop ob = cl_loop s \<and> tcp_up (tc_state (co_tcp ob)) \<and>
          Poller_watched (wd_loops (cl_world s') (cl_loop s)) fd =
            Some (if Buffer_content (tc_outputBuffer (co_tcp ob)) = [] then 3 else 7, c)))"
proof -
  let ?C = "Poller_updateChannel False True :: Poller connector_op" and ?R = "Poller_removeChannel False True :: Poller connector_op"
  let ?upd = "Poller_updateChannel False True :: Poller loop_op"
  let ?ev = "Report False True 0 False :: Poller connector_event"
  have ok: "Connector_ok Poller_inv Poller_known (cl_connector s)"
    by (rule poller_connector.reach_ok [OF poller_connector_builds.reach_built [OF assms(2)]
          Connector_start_ok [where linv = Poller_inv, OF assms(1)]])
  then have same: "(cl_connector s)\<lparr>cw_inLoop := True\<rparr> = cl_connector s" "cw_inLoop (cl_connector s)"
    by (simp_all add: Connector_ok_def conn_base_def)
  have "connector_event_run dbg (Poller_updateChannel True True) (Poller_removeChannel True True) (\<lambda>_ _. False) ?ev (cl_connector s) =
      Inl AssertFail"
    by (rule Poller_takes_down_aborts [OF ok _ poller_connector.report_possible [OF ok assms(3)]]) simp
  then have "with_connector (connector_event_run dbg (Poller_updateChannel True True) (Poller_removeChannel True True) (\<lambda>_ _. False) ?ev) s =
      Inl AssertFail"
    by (simp only: with_connector_def assms(7) same bindR_simps)
  then have aborts: "client_report dbg h ntop (Poller_updateChannel True True) (Poller_removeChannel True True) upd user k c bound peer
      False True 0 False s = Inl AssertFail" for upd user
    by (simp add: client_report_def del: connector_event_run.simps)
  have "connector_event_run dbg ?C ?R (\<lambda>_ _. False) ?ev =
      Connector_handleWrite dbg ?C ?R (stopping_user (\<lambda>_ _. False)) 0 False"
    by (simp add: fun_eq_iff)
  then obtain cn where cn: "connector_event_run dbg ?C ?R (\<lambda>_ _. False) ?ev (cl_connector s) = Inr cn"
    "cn_state cn = ConnectorState.kConnected" "cw_open cn = []" "cw_delivered cn = cw_delivered (cl_connector s) @ [fd]"
    "Poller_watched (cw_loop cn) fd = None"
    using poller_connector.deliver_ok [OF ok assms(3-5), of dbg "\<lambda>_ _. False"] by (auto simp: returns_iff)
  define s1 where "s1 = s\<lparr>cl_connector := cn\<lparr>cw_inLoop := True\<rparr>\<rparr>"
  have s1: "client_in_loop s1" "cl_nextConnId s1 = cl_nextConnId s" "cl_world s1 = cl_world s" "cl_name s1 = cl_name s" "cl_loop s1 = cl_loop s"
    using assms(7) by (simp_all add: s1_def client_in_loop_def)
  have "with_connector (connector_event_run dbg ?C ?R (\<lambda>_ _. False) ?ev) s = Inr s1"
    by (simp only: with_connector_def assms(7) same cn(1) bindR_simps s1_def)
  then have report: "client_report dbg h ntop ?C ?R ?upd user k c bound peer False True 0 False s =
      TcpClient_newConnection dbg h ntop ?upd user k c bound peer fd s1" for user bound
    using cn(4) by (simp add: client_report_def Let_def del: connector_event_run.simps) (simp add: s1_def)
  obtain t where t: "toIp dbg ntop '''' 64 (getPeerAddr peer) = Inr t" "length t \<le> 45" using toIp_fits [OF assms(12, 13)] by blast
  then obtain text' where text': "InetAddress_ipPort dbg h ntop (getPeerAddr peer) = Inr text'"
    using toIpPort_text [OF t] by (simp add: InetAddress_ipPort_def)
  have "cint 32 (cl_nextConnId s1 + 1) = Inr (cl_nextConnId s + 1)" using assms(8) by (simp add: s1(2) cint_def)
  note new = newConnection_world [OF s1(1) text' this]
  have w: "World_ok Poller_inv Poller_known Poller_fresh D (cl_world s1)" "wd_conns (cl_world s1) k = None"
    "Poller_vacant (wd_loops (cl_world s1) (cl_loop s1)) c fd" "fst (wd_loops (cl_world s1) (cl_loop s1)) c = None"
    using assms(6, 9-11) s1 by simp_all
  have up: "outcome {LengthError} (client_report dbg h ntop ?C ?R ?upd (user_script dbg ?upd mem body) k c True peer False True 0 False s)
    (\<lambda>s'. cn_state (cl_connector s') = ConnectorState.kConnected \<and> cw_open (cl_connector s') = [] \<and>
       Poller_watched (cw_loop (cl_connector s')) fd = None \<and>
       cl_connection s' = Some k \<and> cl_nextConnId s' = cl_nextConnId s + 1 \<and>
       World_ok Poller_inv Poller_known Poller_fresh (D - {k}) (cl_world s') \<and>
       (\<forall>k'. k' \<noteq> k \<longrightarrow> wd_conns (cl_world s') k' = wd_conns (cl_world s) k') \<and>
       (\<exists>text' ob. InetAddress_ipPort dbg h ntop (getPeerAddr peer) = Inr text' \<and> wd_conns (cl_world s') k = Some ob \<and>
          co_name ob = client_conn_name (cl_name s) text' (cl_nextConnId s) \<and> co_loop ob = cl_loop s \<and> tcp_up (tc_state (co_tcp ob)) \<and>
          Poller_watched (wd_loops (cl_world s') (cl_loop s)) fd =
            Some (if Buffer_content (tc_outputBuffer (co_tcp ob)) = [] then 3 else 7, c)))"
    unfolding report new
    by (rule outcome_bind [OF outcome_mono [OF poller_world.connect_up [OF w assms(14)]]])
      (use cn text' s1 in \<open>auto simp: poller_world.connected_world_def s1_def\<close>)
  have down: "client_report dbg h ntop ?C ?R ?upd user k c False peer False True 0 False s = Inl FatalAbort" for user
    unfolding report new by (simp add: poller_world.connect_unbound)
  show ?thesis
    unfolding Let_def using aborts up down by (cases pdbg; cases bound) simp_all
qed

theorem TcpClient_connects_witness:
  "\<exists>s :: (nat, Poller) TcpClient. cw_open (cl_connector s) = [5] \<and> outcome {LengthError}
     (client_report True Little home_ntop (Poller_updateChannel False True) (Poller_removeChannel False True)
        (Poller_updateChannel False True) (user_script True (Poller_updateChannel False True) (\<lambda>_. None) (\<lambda>_ _. []))
        3 1 True (Some (InetAddress_new Little zero_in6 80 True False)) False True 0 False s)
     (\<lambda>s'. cl_connection s' = Some 3 \<and> cl_nextConnId s' = 2)"
proof -
  obtain w where w: "handed_over 1 = Inr w" "cn_state w = ConnectorState.kConnecting" "cn_connected w" "cw_open w = [5]"
    using connecting_state unfolding returns_iff by blast
  define s :: "(nat, Poller) TcpClient" where
    "s = (TcpClient_new 0 ''c'' (\<lambda>_. None, Poller_new) one_world)\<lparr>cl_connector := w\<rparr>"
  have s: "cl_connector s = w" "cl_world s = one_world" "client_in_loop s" "cl_nextConnId s = 1" "cl_loop s = 0"
    by (simp_all add: s_def TcpClient_new_def client_in_loop_def one_world_def)
  have world: "World_ok Poller_inv Poller_known Poller_fresh {} (one_world :: (nat owner_cb, Poller) world)"
    by (rule World_ok_start) (simp_all add: one_world_def Poller_new_inv)
  have vacant: "Poller_vacant (wd_loops (one_world :: (nat owner_cb, Poller) world) 0) 1 5"
      "fst (wd_loops (one_world :: (nat owner_cb, Poller) world) 0) 1 = None" "wd_conns (one_world :: (nat owner_cb, Poller) world) 3 = None"
    by (simp_all add: one_world_def Poller_new_vacant)
  have peer: "ntop_contract home_ntop" "sockaddr_wf (getPeerAddr (Some (InetAddress_new Little zero_in6 80 True False)))"
    by (simp_all add: ntop_contract_def home_ntop_def getPeerAddr_def sockaddr_wf_def InetAddress_new_def bzero_in_def zero_in6_def
        sin6_addr_def)
  have body: "body_possible (\<lambda>_. None) (\<lambda>_ _. [])" by (simp add: body_possible_def)
  note connects = TcpClient_connects [where s = s and dbg = True and pdbg = False and bound = True and h = Little and k = 3 and c = 1
      and fd = 5 and D = "{}",
      OF Poller_new_inv connecting_reach [OF w(1), folded s(1)] _ _ _ _ s(3) _ _ _ _ peer body,
      unfolded Let_def if_False not_True_eq_False]
  show ?thesis
    by (intro exI [of _ s] conjI outcome_mono [OF connects]) (use w s world vacant in simp_all)
qed

text \<open>
  The name of a client's connection carries its number only when the text of the peer's address is short
  enough: for one of at most 21 characters, that is any IPv4 address and port, the name is complete and
  different for every number up to a hundred million; for one of 30 or more, as of IPv6 addresses, the number
  is cut off and all connections to the peer get the same name. The array itself is never overrun.
\<close>

theorem TcpClient_name_truncates:
  shows "length (client_conn_name name peer n) \<le> length name + 31 \<and>
    (length peer \<le> 21 \<and> 0 \<le> n \<and> n < 10 ^ 8 \<longrightarrow> client_conn_name name peer n = name @ '':'' @ peer @ ''#'' @ dec_nat (nat n)) \<and>
    (30 \<le> length peer \<longrightarrow> client_conn_name name peer n = name @ '':'' @ take 30 peer)"
proof -
  have "length (dec_nat (nat n)) \<le> 8" if "0 \<le> n" "n < 10 ^ 8"
    using that by (intro length_dec_nat) (simp_all add: nat_less_iff)
  then show ?thesis
    by (auto simp: client_conn_name_def snprintf_def fmt_d_def pad_left_def take_Cons')
qed

theorem TcpClient_name_truncates_witness:
  "client_conn_name ''c'' ''2001:db8:85a3:8d3:1319:8a2e:370:7348:443'' 1 = client_conn_name ''c'' ''2001:db8:85a3:8d3:1319:8a2e:370:7348:443'' 2 \<and>
   client_conn_name ''c'' ''1.2.3.4:80'' 1 \<noteq> client_conn_name ''c'' ''1.2.3.4:80'' 2"
proof -
  have "dec_nat 1 = ''1''" "dec_nat 2 = ''2''" by (simp_all add: dec_nat.simps digit_char_simps digit_char_simps(2) [unfolded One_nat_def])
  then show ?thesis
    using TcpClient_name_truncates [of "''c''" "''2001:db8:85a3:8d3:1319:8a2e:370:7348:443''" 1]
      TcpClient_name_truncates [of "''c''" "''2001:db8:85a3:8d3:1319:8a2e:370:7348:443''" 2]
      TcpClient_name_truncates [of "''c''" "''1.2.3.4:80''" 1] TcpClient_name_truncates [of "''c''" "''1.2.3.4:80''" 2]
    by simp
qed

end
