(* ===== verification/Threads.thy ===== *)
theory Threads
  imports Logger Monitor Atomic
begin

text \<open>
  The threads of thread.h and thread.cc and the variables of currentthread.h that each thread has for itself.
  A thread object, its owner and the threads it makes take interleaved steps; a critical section of the latch
  is one step. What \<^verbatim>\<open>pthread_create\<close> returns, its identifiers and the kernel's numbers of threads are
  parameters.
\<close>

section \<open>currentThread\<close>

text \<open>
  \<^verbatim>\<open>t_threadName\<close> points to a literal or to the name in the thread's ThreadData. The other variables are
  those of Logger; a new thread's are as initialised.
\<close>

datatype name_pointer = Literal string | DataName

record ThreadData =
  td_name :: string
  td_platch :: bool

record CurrentThread =
  ct_log :: Log
  ct_threadName :: name_pointer

definition CurrentThread_new :: "Log \<Rightarrow> CurrentThread" where
  "CurrentThread_new lg =
     \<lparr>ct_log = lg\<lparr>lg_time := replicate 32 CHR 0x00, lg_lastSecond := 0, lg_errnobuf := '''', lg_cachedTid := 0,
        lg_tidString := '''', lg_tidStringLength := 6\<rparr>,
      ct_threadName = Literal ''unknown''\<rparr>"

definition currentThread_name :: "ThreadData option \<Rightarrow> CurrentThread \<Rightarrow> string res" where
  "currentThread_name data ct =
     (case ct_threadName ct of
        Literal s \<Rightarrow> Inr s
      | DataName \<Rightarrow> (case data of None \<Rightarrow> Inl BadPointer | Some d \<Rightarrow> Inr (td_name d)))"

definition cache_tid :: "int \<Rightarrow> CurrentThread \<Rightarrow> CurrentThread" where
  "cache_tid gettid ct = ct\<lparr>ct_log := currentThread_tid gettid (ct_log ct)\<rparr>"

text \<open>\<^verbatim>\<open>memcmp\<close> of the two numbers of 64 bits, the second an identifier of pthread.\<close>

definition isMainThread :: "int \<Rightarrow> int \<Rightarrow> CurrentThread \<Rightarrow> bool \<times> CurrentThread" where
  "isMainThread gettid pthread_self ct =
     (let ct' = cache_tid gettid ct in (lg_cachedTid (ct_log ct') = pthread_self, ct'))"

definition ThreadNameInitializer :: "int \<Rightarrow> CurrentThread \<Rightarrow> CurrentThread" where
  "ThreadNameInitializer gettid ct = cache_tid gettid (ct\<lparr>ct_threadName := Literal ''main''\<rparr>)"

definition afterFork :: "int \<Rightarrow> CurrentThread \<Rightarrow> CurrentThread" where
  "afterFork gettid ct =
     (let ct1 = ct\<lparr>ct_log := (ct_log ct)\<lparr>lg_cachedTid := 0\<rparr>\<rparr>; ct2 = ct1\<lparr>ct_threadName := Literal ''main''\<rparr>
      in cache_tid gettid ct2)"

section \<open>Thread\<close>

record Thread =
  th_threadName :: string
  th_pthreadId :: "nat option"
  th_started :: bool
  th_joined :: bool
  th_latch :: CountdownLatch

text \<open>\<open>n\<close> is the counter \<^verbatim>\<open>threadsCreated_\<close> that all threads share.\<close>

definition Thread_setDefaultName :: "AtomicInteger \<Rightarrow> Thread \<Rightarrow> (Thread \<times> AtomicInteger) res" where
  "Thread_setDefaultName n t =
     bindR (AtomicInteger_incrementAndGet 32 n) (\<lambda>(count, n').
       Inr (if th_threadName t = '''' then t\<lparr>th_threadName := snprintf 32 (''Thread'' @ fmt_d 0 count)\<rparr> else t, n'))"

definition Thread_new :: "string \<Rightarrow> AtomicInteger \<Rightarrow> (Thread \<times> AtomicInteger) res" where
  "Thread_new name n = Thread_setDefaultName n
     \<lparr>th_threadName = name, th_pthreadId = None, th_started = False, th_joined = False, th_latch = CountdownLatch_new 1\<rparr>"

definition Thread_threadsCreated :: "AtomicInteger \<Rightarrow> int" where
  "Thread_threadsCreated n = fst (AtomicInteger_get n)"

text \<open>
  A thread of the system: its ThreadData, its variables, how often it called the function, whether it can be
  joined, and where it is in \<^verbatim>\<open>startThread\<close>.
\<close>

datatype routine_at = Created | Named | Counted | Called | Exited

record Routine =
  rt_data :: "ThreadData option"
  rt_local :: CurrentThread
  rt_calls :: nat
  rt_joinable :: bool
  rt_at :: routine_at

datatype client_at = InClient | AtLatch | AsleepAtLatch | AtJoin nat

record ThreadWorld =
  tv_object :: "Thread option"
  tv_client :: client_at
  tv_threads :: "nat \<Rightarrow> Routine option"

text \<open>\<open>ret\<close> is what \<^verbatim>\<open>pthread_create\<close> returns and \<open>i\<close> the identifier it stores. A step is \<open>None\<close> when it is not enabled.\<close>

definition Thread_start :: "bool \<Rightarrow> Log \<Rightarrow> int \<Rightarrow> nat \<Rightarrow> ThreadWorld \<Rightarrow> ThreadWorld res" where
  "Thread_start dbg lg ret i w =
     (case tv_object w of
        None \<Rightarrow> Inl BadPointer
      | Some t \<Rightarrow> cassert dbg (\<not> th_started t)
          (let data = \<lparr>td_name = th_threadName t, td_platch = True\<rparr> in
           if ret \<noteq> 0 then Inr (w\<lparr>tv_object := Some (t\<lparr>th_started := False\<rparr>)\<rparr>)
           else Inr (w\<lparr>tv_object := Some (t\<lparr>th_pthreadId := Some i, th_started := True\<rparr>), tv_client := AtLatch,
                  tv_threads := (tv_threads w)(i \<mapsto> \<lparr>rt_data = Some data, rt_local = CurrentThread_new lg, rt_calls = 0,
                    rt_joinable = True, rt_at = Created\<rparr>)\<rparr>)))"

text \<open>The thread that starts takes the mutex of the latch, at first or after it was woken.\<close>

definition Thread_start_wait :: "bool \<Rightarrow> ThreadWorld \<Rightarrow> ThreadWorld res option" where
  "Thread_start_wait dbg w =
     (if tv_client w \<noteq> AtLatch then None
      else Some (case tv_object w of
        None \<Rightarrow> Inl BadPointer
      | Some t \<Rightarrow> bindR (CountdownLatch_wait dbg (th_latch t)) (\<lambda>r.
          case r of
            None \<Rightarrow> Inr (w\<lparr>tv_client := AsleepAtLatch\<rparr>)
          | Some (l, _, _) \<Rightarrow> Inr (w\<lparr>tv_object := Some (t\<lparr>th_latch := l\<rparr>), tv_client := InClient\<rparr>))))"

definition Thread_join :: "ThreadWorld \<Rightarrow> ThreadWorld res" where
  "Thread_join w =
     (case tv_object w of
        None \<Rightarrow> Inl BadPointer
      | Some t \<Rightarrow>
          (case th_pthreadId t of
             None \<Rightarrow> Inl BadPointer
           | Some i \<Rightarrow>
               (case tv_threads w i of
                  None \<Rightarrow> Inl BadPointer
                | Some r \<Rightarrow> if rt_joinable r then Inr (w\<lparr>tv_object := Some (t\<lparr>th_joined := True\<rparr>), tv_client := AtJoin i\<rparr>)
                    else Inl BadPointer)))"

definition pthread_join_returns :: "ThreadWorld \<Rightarrow> ThreadWorld res option" where
  "pthread_join_returns w =
     (case tv_client w of
        AtJoin i \<Rightarrow>
          (case tv_threads w i of
             None \<Rightarrow> None
           | Some r \<Rightarrow> if rt_at r = Exited
               then Some (Inr (w\<lparr>tv_client := InClient, tv_threads := (tv_threads w)(i \<mapsto> r\<lparr>rt_joinable := False\<rparr>)\<rparr>))
               else None)
      | _ \<Rightarrow> None)"

definition Thread_destroy :: "ThreadWorld \<Rightarrow> ThreadWorld res" where
  "Thread_destroy w =
     (case tv_object w of
        None \<Rightarrow> Inl BadPointer
      | Some t \<Rightarrow>
          if th_started t \<and> \<not> th_joined t
          then (case th_pthreadId t of
                  None \<Rightarrow> Inl BadPointer
                | Some i \<Rightarrow>
                    (case tv_threads w i of
                       None \<Rightarrow> Inl BadPointer
                     | Some r \<Rightarrow> if rt_joinable r
                         then Inr (w\<lparr>tv_object := None, tv_threads := (tv_threads w)(i \<mapsto> r\<lparr>rt_joinable := False\<rparr>)\<rparr>)
                         else Inl BadPointer))
          else Inr (w\<lparr>tv_object := None\<rparr>))"

text \<open>
  \<^verbatim>\<open>startThread\<close> and the deletion of the ThreadData after it. \<^verbatim>\<open>countDown\<close> goes through the pointer to the
  latch, a member of the thread object.
\<close>

definition startThread :: "(nat \<Rightarrow> int) \<Rightarrow> nat \<Rightarrow> ThreadWorld \<Rightarrow> ThreadWorld res option" where
  "startThread gettid i w =
     (case tv_threads w i of
        None \<Rightarrow> None
      | Some r \<Rightarrow>
          let put = (\<lambda>w r'. w\<lparr>tv_threads := (tv_threads w)(i \<mapsto> r')\<rparr>) in
          (case rt_data r of
             None \<Rightarrow> (if rt_at r = Exited then None else Some (Inl BadPointer))
           | Some d \<Rightarrow>
               (case rt_at r of
                  Created \<Rightarrow> Some (Inr (put w (r\<lparr>rt_local := (cache_tid (gettid i) (rt_local r))\<lparr>ct_threadName :=
                       (if td_name d = '''' then Literal ''leanetThread'' else DataName)\<rparr>, rt_at := Named\<rparr>)))
                | Named \<Rightarrow> Some (if \<not> td_platch d then Inl BadPointer else case tv_object w of
                      None \<Rightarrow> Inl BadPointer
                    | Some t \<Rightarrow> bindR (CountdownLatch_countDown (th_latch t)) (\<lambda>a.
                        case a of
                          None \<Rightarrow> Inl BadCall
                        | Some (l, _, wakes) \<Rightarrow>
                            Inr (put (w\<lparr>tv_object := Some (t\<lparr>th_latch := l\<rparr>),
                                   tv_client := (if tv_client w = AsleepAtLatch \<and> wakes Wait then AtLatch else tv_client w)\<rparr>)
                                 (r\<lparr>rt_data := Some (d\<lparr>td_platch := False\<rparr>), rt_at := Counted\<rparr>))))
                | Counted \<Rightarrow> Some (Inr (put w (r\<lparr>rt_calls := rt_calls r + 1, rt_at := Called\<rparr>)))
                | Called \<Rightarrow> Some (Inr (put w (r\<lparr>rt_local := (rt_local r)\<lparr>ct_threadName := Literal ''finished''\<rparr>,
                       rt_data := None, rt_at := Exited\<rparr>)))
                | Exited \<Rightarrow> None)))"

section \<open>Interleavings\<close>

text \<open>The owner's calls, the steps of its calls that wait, a wait that ends unasked, and the steps of a thread.\<close>

datatype thread_event = CallStart int nat | CallJoin | CallDestroy | ClientStep | Spurious | RoutineStep nat

fun thread_event_step ::
  "bool \<Rightarrow> Log \<Rightarrow> (nat \<Rightarrow> int) \<Rightarrow> thread_event \<Rightarrow> ThreadWorld \<Rightarrow> ThreadWorld res option" where
  "thread_event_step dbg lg gettid (CallStart ret i) w = (if tv_client w = InClient then Some (Thread_start dbg lg ret i w) else None)"
| "thread_event_step dbg lg gettid CallJoin w = (if tv_client w = InClient then Some (Thread_join w) else None)"
| "thread_event_step dbg lg gettid CallDestroy w = (if tv_client w = InClient then Some (Thread_destroy w) else None)"
| "thread_event_step dbg lg gettid ClientStep w =
     (if tv_client w = AtLatch then Thread_start_wait dbg w else pthread_join_returns w)"
| "thread_event_step dbg lg gettid Spurious w =
     (if tv_client w = AsleepAtLatch then Some (Inr (w\<lparr>tv_client := AtLatch\<rparr>)) else None)"
| "thread_event_step dbg lg gettid (RoutineStep i) w = startThread gettid i w"

text \<open>
  A careful owner starts a thread that is not started, joins one that is, once, and uses no destroyed one; the
  system's identifiers are new.
\<close>

fun thread_possible :: "thread_event \<Rightarrow> ThreadWorld \<Rightarrow> bool" where
  "thread_possible (CallStart ret i) w \<longleftrightarrow> (\<exists>t. tv_object w = Some t \<and> \<not> th_started t) \<and> tv_threads w i = None"
| "thread_possible CallJoin w \<longleftrightarrow> (\<exists>t. tv_object w = Some t \<and> th_started t \<and> \<not> th_joined t)"
| "thread_possible CallDestroy w \<longleftrightarrow> tv_object w \<noteq> None"
| "thread_possible _ w \<longleftrightarrow> True"

inductive thread_world_reach for dbg lg gettid t0 where
  start: "thread_world_reach dbg lg gettid t0 \<lparr>tv_object = Some t0, tv_client = InClient, tv_threads = (\<lambda>_. None)\<rparr>"
| step: "thread_world_reach dbg lg gettid t0 w \<Longrightarrow> thread_possible x w \<Longrightarrow> thread_event_step dbg lg gettid x w = Some (Inr w') \<Longrightarrow>
    thread_world_reach dbg lg gettid t0 w'"

section \<open>Invariant\<close>

definition routine_ok :: "(nat \<Rightarrow> int) \<Rightarrow> string \<Rightarrow> nat \<Rightarrow> Routine \<Rightarrow> bool" where
  "routine_ok gettid name i r \<longleftrightarrow>
     rt_calls r = (if rt_at r \<in> {Called, Exited} then 1 else 0) \<and>
     (case rt_data r of
        None \<Rightarrow> rt_at r = Exited
      | Some d \<Rightarrow> rt_at r \<noteq> Exited \<and> td_name d = name \<and> td_platch d = (rt_at r \<in> {Created, Named})) \<and>
     lg_cachedTid (ct_log (rt_local r)) = (if rt_at r = Created then 0 else gettid i) \<and>
     (rt_at r \<noteq> Created \<longrightarrow> ct_threadName (rt_local r) = (if rt_at r = Exited then Literal ''finished'' else DataName))"

text \<open>The owner of a started thread while the thread is at a given place.\<close>

definition phase_ok :: "Thread \<Rightarrow> client_at \<Rightarrow> nat \<Rightarrow> Routine \<Rightarrow> bool" where
  "phase_ok t client i r \<longleftrightarrow>
     (if rt_at r \<in> {Created, Named}
      then (client = AtLatch \<or> client = AsleepAtLatch) \<and> \<not> th_joined t \<and> cl_count (th_latch t) = 1 \<and> rt_joinable r
      else cl_count (th_latch t) = 0 \<and>
        (case client of
           AtLatch \<Rightarrow> \<not> th_joined t \<and> rt_joinable r
         | AsleepAtLatch \<Rightarrow> False
         | AtJoin j \<Rightarrow> j = i \<and> th_joined t
         | InClient \<Rightarrow> if th_joined t then rt_at r = Exited else rt_joinable r))"

definition object_ok :: "Thread \<Rightarrow> client_at \<Rightarrow> (nat \<Rightarrow> Routine option) \<Rightarrow> bool" where
  "object_ok t client threads \<longleftrightarrow>
     (case th_pthreadId t of
        None \<Rightarrow> \<not> th_started t \<and> \<not> th_joined t \<and> cl_count (th_latch t) = 1 \<and> client = InClient \<and> threads = (\<lambda>_. None)
      | Some i \<Rightarrow> th_started t \<and> (\<exists>r. threads = [i \<mapsto> r] \<and> phase_ok t client i r))"

definition thread_world_ok :: "(nat \<Rightarrow> int) \<Rightarrow> string \<Rightarrow> ThreadWorld \<Rightarrow> bool" where
  "thread_world_ok gettid name w \<longleftrightarrow>
     (case tv_object w of
        None \<Rightarrow> tv_client w = InClient \<and> (\<forall>i r. tv_threads w i = Some r \<longrightarrow> rt_at r \<notin> {Created, Named})
      | Some t \<Rightarrow> th_threadName t = name \<and> object_ok t (tv_client w) (tv_threads w)) \<and>
     (\<forall>i r. tv_threads w i = Some r \<longrightarrow> routine_ok gettid name i r)"

lemma cache_tid_cached:
  "lg_cachedTid (ct_log ct) = 0 \<Longrightarrow> lg_cachedTid (ct_log (cache_tid n ct)) = n"
  by (simp add: cache_tid_def currentThread_tid_def currentThread_cacheTid_def Let_def)

text \<open>A thread that exists beside the thread object is the one it started.\<close>

lemma object_thread:
  assumes "object_ok t client threads" "threads i = Some r"
  shows "th_pthreadId t = Some i" "th_started t" "threads = [i \<mapsto> r]" "phase_ok t client i r"
proof -
  obtain j r' where j: "th_pthreadId t = Some j" "th_started t" "threads = [j \<mapsto> r']" "phase_ok t client j r'"
    using assms by (auto simp: object_ok_def split: option.splits)
  then have "i = j \<and> r' = r" using assms(2) by (simp split: if_splits)
  with j show "th_pthreadId t = Some i" "th_started t" "threads = [i \<mapsto> r]" "phase_ok t client i r" by simp_all
qed

lemma object_okI:
  "th_pthreadId t = Some i \<Longrightarrow> th_started t \<Longrightarrow> phase_ok t client i r \<Longrightarrow> threads = [i \<mapsto> r] \<Longrightarrow> object_ok t client threads"
  by (auto simp: object_ok_def)

text \<open>A step of the thread that leaves its owner where it is.\<close>

lemma routine_moves:
  assumes ok: "thread_world_ok gettid name w" and r: "tv_threads w i = Some r" and r': "routine_ok gettid name i r'"
    and same: "rt_joinable r' = rt_joinable r" "rt_at r' \<in> {Created, Named} \<longleftrightarrow> rt_at r \<in> {Created, Named}" "rt_at r \<noteq> Exited"
  shows "thread_world_ok gettid name (w\<lparr>tv_threads := (tv_threads w)(i \<mapsto> r')\<rparr>)"
proof (cases "tv_object w")
  case None
  then show ?thesis using ok r r' same(2) by (auto simp: thread_world_ok_def)
next
  case (Some t)
  then have t: "object_ok t (tv_client w) (tv_threads w)" "th_threadName t = name" using ok by (simp_all add: thread_world_ok_def)
  note o = object_thread [OF t(1) r]
  have "phase_ok t (tv_client w) i r'"
    using o(4) same by (auto simp: phase_ok_def split: client_at.splits if_splits)
  then have "object_ok t (tv_client w) ((tv_threads w)(i \<mapsto> r'))"
    by (rule object_okI [OF o(1, 2)]) (simp add: o(3))
  then show ?thesis using Some t(2) ok r' by (auto simp: thread_world_ok_def)
qed

lemma routine_step_ok:
  assumes ok: "thread_world_ok gettid name w" and name: "name \<noteq> ''''" and s: "startThread gettid i w = Some res"
  shows "returns res (thread_world_ok gettid name)"
proof -
  obtain r where r: "tv_threads w i = Some r" using s by (auto simp: startThread_def split: option.splits)
  then have rok: "routine_ok gettid name i r" using ok by (auto simp: thread_world_ok_def)
  then obtain d where d: "rt_data r = Some d" "td_name d = name" using s r by (auto simp: startThread_def routine_ok_def split: option.splits)
  note moves = routine_moves [OF ok r]
  show ?thesis
  proof (cases "rt_at r")
    case Created
    then have "routine_ok gettid name i (r\<lparr>rt_local := (cache_tid (gettid i) (rt_local r))\<lparr>ct_threadName := DataName\<rparr>, rt_at := Named\<rparr>)"
      using rok d by (simp add: routine_ok_def cache_tid_cached)
    from moves [OF this] show ?thesis using s r d Created name by (auto simp: startThread_def)
  next
    case Named
    then obtain t where t: "tv_object w = Some t" using ok r by (auto simp: thread_world_ok_def split: option.splits)
    then have obj: "object_ok t (tv_client w) (tv_threads w)" "th_threadName t = name" using ok by (simp_all add: thread_world_ok_def)
    note o = object_thread [OF obj(1) r]
    define l where "l = (th_latch t)\<lparr>cl_count := 0\<rparr>"
    define client where "client = (if tv_client w = AsleepAtLatch then AtLatch else tv_client w)"
    define r' where "r' = r\<lparr>rt_data := Some (d\<lparr>td_platch := False\<rparr>), rt_at := Counted\<rparr>"
    have platch: "td_platch d" using rok d Named by (simp add: routine_ok_def)
    have "cl_count (th_latch t) = 1" using o(4) Named by (simp add: phase_ok_def)
    then have "CountdownLatch_countDown (th_latch t) = Inr (Some (l, (), \<lambda>c. True))"
      by (simp add: CountdownLatch_countDown_def c_op_def cint_def in_int_def l_def)
    then have res: "res = Inr (w\<lparr>tv_object := Some (t\<lparr>th_latch := l\<rparr>), tv_client := client, tv_threads := (tv_threads w)(i \<mapsto> r')\<rparr>)"
      using s r d(1) t Named platch by (simp add: startThread_def client_def r'_def)
    have "phase_ok (t\<lparr>th_latch := l\<rparr>) client i r'"
      using o(4) Named by (auto simp: phase_ok_def client_def r'_def l_def split: if_splits)
    then have "object_ok (t\<lparr>th_latch := l\<rparr>) client ((tv_threads w)(i \<mapsto> r'))"
      by (rule object_okI [rotated 2]) (simp_all add: o(1-3))
    moreover have "routine_ok gettid name i r'" using rok d Named by (simp add: routine_ok_def r'_def)
    ultimately show ?thesis using res obj(2) ok by (auto simp: thread_world_ok_def)
  next
    case Counted
    then have "routine_ok gettid name i (r\<lparr>rt_calls := rt_calls r + 1, rt_at := Called\<rparr>)" using rok d by (simp add: routine_ok_def)
    from moves [OF this] show ?thesis using s r d Counted by (auto simp: startThread_def)
  next
    case Called
    then have "routine_ok gettid name i (r\<lparr>rt_local := (rt_local r)\<lparr>ct_threadName := Literal ''finished''\<rparr>, rt_data := None, rt_at := Exited\<rparr>)"
      using rok d by (simp add: routine_ok_def)
    from moves [OF this] show ?thesis using s r d Called by (auto simp: startThread_def)
  qed (use s r d in \<open>simp add: startThread_def\<close>)
qed

lemma start_ok:
  assumes ok: "thread_world_ok gettid name w" and name: "name \<noteq> ''''" and p: "thread_possible (CallStart ret i) w"
  shows "returns (Thread_start dbg lg ret i w) (thread_world_ok gettid name)"
proof -
  obtain t where t: "tv_object w = Some t" "\<not> th_started t" using p by auto
  then have none: "th_pthreadId t = None" "\<not> th_joined t" "cl_count (th_latch t) = 1" "tv_client w = InClient" "tv_threads w = (\<lambda>_. None)"
      "th_threadName t = name"
    using ok by (auto simp: thread_world_ok_def object_ok_def split: option.splits)
  show ?thesis
  proof (cases "ret = 0")
    case False
    then show ?thesis using t none by (simp add: Thread_start_def cassert_holds thread_world_ok_def object_ok_def)
  next
    case True
    define r where "r = \<lparr>rt_data = Some \<lparr>td_name = name, td_platch = True\<rparr>, rt_local = CurrentThread_new lg, rt_calls = 0,
        rt_joinable = True, rt_at = Created\<rparr>"
    define t' where "t' = t\<lparr>th_pthreadId := Some i, th_started := True\<rparr>"
    have "routine_ok gettid name i r" by (simp add: r_def routine_ok_def CurrentThread_new_def)
    moreover have "phase_ok t' AtLatch i r" using none by (simp add: t'_def r_def phase_ok_def)
    then have "object_ok t' AtLatch [i \<mapsto> r]" by (rule object_okI [rotated 2]) (simp_all add: t'_def)
    moreover have "Thread_start dbg lg ret i w = Inr (w\<lparr>tv_object := Some t', tv_client := AtLatch, tv_threads := [i \<mapsto> r]\<rparr>)"
      using True t none by (simp add: Thread_start_def cassert_holds r_def t'_def)
    ultimately show ?thesis using none(6) by (auto simp: thread_world_ok_def t'_def)
  qed
qed

text \<open>The thread that a started object made.\<close>

lemma started_thread:
  assumes "thread_world_ok gettid name w" "tv_object w = Some t" "th_started t"
  obtains i r where "th_pthreadId t = Some i" "tv_threads w = [i \<mapsto> r]" "phase_ok t (tv_client w) i r" "routine_ok gettid name i r"
    "th_threadName t = name"
proof -
  have "object_ok t (tv_client w) (tv_threads w)" "th_threadName t = name" using assms(1, 2) by (simp_all add: thread_world_ok_def)
  moreover obtain i r where "th_pthreadId t = Some i" "tv_threads w = [i \<mapsto> r]" "phase_ok t (tv_client w) i r"
    using calculation(1) assms(3) by (auto simp: object_ok_def split: option.splits)
  moreover have "routine_ok gettid name i r" using assms(1) calculation(4) by (auto simp: thread_world_ok_def)
  ultimately show thesis using that by blast
qed

lemma routine_ok_joinable [simp]: "routine_ok gettid name i (r\<lparr>rt_joinable := b\<rparr>) = routine_ok gettid name i r"
  by (cases "rt_data r") (simp_all add: routine_ok_def)

text \<open>Putting a world together again around the thread of an object.\<close>

lemma thread_world_okI:
  "tv_object w = Some t \<Longrightarrow> th_threadName t = name \<Longrightarrow> th_pthreadId t = Some i \<Longrightarrow> th_started t \<Longrightarrow> tv_threads w = [i \<mapsto> r] \<Longrightarrow>
   phase_ok t (tv_client w) i r \<Longrightarrow> routine_ok gettid name i r \<Longrightarrow> thread_world_ok gettid name w"
  by (auto simp: thread_world_ok_def intro: object_okI)

lemma join_ok:
  assumes ok: "thread_world_ok gettid name w" and p: "thread_possible CallJoin w" and c: "tv_client w = InClient"
  shows "returns (Thread_join w) (thread_world_ok gettid name)"
proof -
  obtain t where t: "tv_object w = Some t" "th_started t" "\<not> th_joined t" using p by auto
  obtain i r where i: "th_pthreadId t = Some i" "tv_threads w = [i \<mapsto> r]" "phase_ok t (tv_client w) i r" "routine_ok gettid name i r"
    "th_threadName t = name" by (rule started_thread [OF ok t(1, 2)])
  have "rt_joinable r" "phase_ok (t\<lparr>th_joined := True\<rparr>) (AtJoin i) i r"
    using i(3) t(3) c by (auto simp: phase_ok_def split: if_splits)
  then show ?thesis
    using t i by (auto simp: Thread_join_def intro: thread_world_okI [where t = "t\<lparr>th_joined := True\<rparr>" and i = i and r = r])
qed

lemma destroy_ok:
  assumes ok: "thread_world_ok gettid name w" and p: "thread_possible CallDestroy w" and c: "tv_client w = InClient"
  shows "returns (Thread_destroy w) (thread_world_ok gettid name)"
proof -
  obtain t where t: "tv_object w = Some t" using p by auto
  show ?thesis
  proof (cases "th_started t")
    case True
    obtain i r where i: "th_pthreadId t = Some i" "tv_threads w = [i \<mapsto> r]" "phase_ok t (tv_client w) i r" "routine_ok gettid name i r"
      "th_threadName t = name" by (rule started_thread [OF ok t True])
    moreover have "rt_at r \<notin> {Created, Named}" "\<not> th_joined t \<longrightarrow> rt_joinable r"
      using i(3) c by (auto simp: phase_ok_def split: if_splits)
    ultimately show ?thesis using t c by (auto simp: Thread_destroy_def thread_world_ok_def)
  next
    case False
    then show ?thesis using t ok c by (auto simp: Thread_destroy_def thread_world_ok_def object_ok_def split: option.splits)
  qed
qed

lemma client_step_ok:
  assumes ok: "thread_world_ok gettid name w" and s: "thread_event_step dbg lg gettid ClientStep w = Some res"
  shows "returns res (thread_world_ok gettid name)"
proof (cases "tv_client w = AtLatch")
  case True
  then obtain t where t: "tv_object w = Some t" using ok by (auto simp: thread_world_ok_def split: option.splits)
  then have "th_started t" using ok True by (auto simp: thread_world_ok_def object_ok_def split: option.splits)
  then obtain i r where i: "th_pthreadId t = Some i" "tv_threads w = [i \<mapsto> r]" "phase_ok t (tv_client w) i r" "routine_ok gettid name i r"
    "th_threadName t = name" by (rule started_thread [OF ok t])
  have "phase_ok t (if rt_at r \<in> {Created, Named} then AsleepAtLatch else InClient) i r"
      "cl_count (th_latch t) = (if rt_at r \<in> {Created, Named} then 1 else 0)"
    using i(3) True by (auto simp: phase_ok_def)
  then have "res = Inr (w\<lparr>tv_object := Some t, tv_client := (if rt_at r \<in> {Created, Named} then AsleepAtLatch else InClient)\<rparr>)"
    using s True t by (cases w) (auto simp: Thread_start_wait_def CountdownLatch_wait_def cassert_holds split: if_splits)
  moreover have "thread_world_ok gettid name (w\<lparr>tv_object := Some t,
      tv_client := (if rt_at r \<in> {Created, Named} then AsleepAtLatch else InClient)\<rparr>)"
    by (rule thread_world_okI [where t = t and i = i and r = r]) (use i \<open>th_started t\<close> \<open>phase_ok t (if _ then _ else _) i r\<close> in simp_all)
  ultimately show ?thesis by simp
next
  case False
  then obtain i r where i: "tv_client w = AtJoin i" "tv_threads w i = Some r" "rt_at r = Exited"
      "res = Inr (w\<lparr>tv_client := InClient, tv_threads := (tv_threads w)(i \<mapsto> r\<lparr>rt_joinable := False\<rparr>)\<rparr>)"
    using s by (auto simp: pthread_join_returns_def split: client_at.splits option.splits if_splits)
  then obtain t where t: "tv_object w = Some t" using ok by (auto simp: thread_world_ok_def split: option.splits)
  then have obj: "object_ok t (tv_client w) (tv_threads w)" "th_threadName t = name" "routine_ok gettid name i r"
    using ok i(2) by (simp_all add: thread_world_ok_def)
  note o = object_thread [OF obj(1) i(2)]
  have "phase_ok t InClient i (r\<lparr>rt_joinable := False\<rparr>)" using o(4) i(1, 3) by (simp add: phase_ok_def)
  moreover have "(tv_threads w)(i \<mapsto> r\<lparr>rt_joinable := False\<rparr>) = [i \<mapsto> r\<lparr>rt_joinable := False\<rparr>]" using o(3) by simp
  ultimately show ?thesis
    unfolding i(4) returns_simps
    by (intro thread_world_okI [where t = t and i = i and r = "r\<lparr>rt_joinable := False\<rparr>"]) (use t obj o in simp_all)
qed

lemma thread_event_ok:
  assumes ok: "thread_world_ok gettid name w" and name: "name \<noteq> ''''" and p: "thread_possible x w"
    and s: "thread_event_step dbg lg gettid x w = Some res"
  shows "returns res (thread_world_ok gettid name)"
proof (cases x)
  case (CallStart ret i)
  then show ?thesis using start_ok [OF ok name] p s by (auto split: if_splits)
next
  case CallJoin
  then show ?thesis using join_ok [OF ok] p s by (auto split: if_splits)
next
  case CallDestroy
  then show ?thesis using destroy_ok [OF ok] p s by (auto split: if_splits)
next
  case ClientStep
  then show ?thesis using client_step_ok [OF ok] s by blast
next
  case Spurious
  then have w: "res = Inr (w\<lparr>tv_client := AtLatch\<rparr>)" "tv_client w = AsleepAtLatch" using s by (auto split: if_splits)
  then obtain t where t: "tv_object w = Some t" using ok by (auto simp: thread_world_ok_def split: option.splits)
  then have "th_started t" using ok w(2) by (auto simp: thread_world_ok_def object_ok_def split: option.splits)
  then obtain i r where i: "th_pthreadId t = Some i" "tv_threads w = [i \<mapsto> r]" "phase_ok t (tv_client w) i r" "routine_ok gettid name i r"
    "th_threadName t = name" by (rule started_thread [OF ok t])
  moreover have "phase_ok t AtLatch i r" using i(3) w(2) by (auto simp: phase_ok_def split: if_splits)
  ultimately show ?thesis
    unfolding w(1) returns_simps by (intro thread_world_okI [where t = t and i = i and r = r]) (use t \<open>th_started t\<close> in simp_all)
next
  case (RoutineStep i)
  then show ?thesis using routine_step_ok [OF ok name] s by auto
qed

lemma thread_world_reach_ok:
  assumes "thread_world_reach dbg lg gettid t0 w" "Thread_new name n = Inr (t0, n')"
  shows "thread_world_ok gettid (th_threadName t0) w \<and> th_threadName t0 \<noteq> ''''"
  using assms(1)
proof (induction rule: thread_world_reach.induct)
  case start
  show ?case
    using assms(2) by (auto simp: Thread_new_def Thread_setDefaultName_def thread_world_ok_def object_ok_def CountdownLatch_new_def
        snprintf_def bindR_def split: sum.splits if_splits)
next
  case (step w x w')
  then show ?case using thread_event_ok [of gettid "th_threadName t0" w x dbg lg "Inr w'"] by simp
qed

text \<open>How many steps are left until a call that waits has returned, its owner's and the thread's.\<close>

definition call_steps_left :: "nat \<Rightarrow> ThreadWorld \<Rightarrow> nat" where
  "call_steps_left i w =
     (case tv_client w of InClient \<Rightarrow> 0 | AtLatch \<Rightarrow> 2 | AsleepAtLatch \<Rightarrow> 1 | AtJoin _ \<Rightarrow> 1) +
     (case tv_threads w i of
        None \<Rightarrow> 0
      | Some r \<Rightarrow> (case rt_at r of Created \<Rightarrow> 8 | Named \<Rightarrow> 6 | Counted \<Rightarrow> 4 | Called \<Rightarrow> 2 | Exited \<Rightarrow> 0))"

lemma client_step_decreases:
  assumes "thread_event_step dbg lg gettid ClientStep w = Some (Inr w')"
  shows "call_steps_left i w' < call_steps_left i w"
proof (cases "tv_client w = AtLatch")
  case True
  obtain t where t: "tv_object w = Some t" using assms True by (cases "tv_object w") (simp_all add: Thread_start_wait_def)
  have step: "bindR (CountdownLatch_wait dbg (th_latch t)) (\<lambda>r.
      case r of
        None \<Rightarrow> Inr (w\<lparr>tv_client := AsleepAtLatch\<rparr>)
      | Some (l, _, _) \<Rightarrow> Inr (w\<lparr>tv_object := Some (t\<lparr>th_latch := l\<rparr>), tv_client := InClient\<rparr>)) = Inr w'"
    using assms True t by (simp add: Thread_start_wait_def)
  then obtain r where r: "CountdownLatch_wait dbg (th_latch t) = Inr r" by (auto simp: bindR_eq_Inr)
  show ?thesis
  proof (cases r)
    case None
    then show ?thesis using step r True by (auto simp: call_steps_left_def)
  next
    case (Some a)
    then show ?thesis using step r True by (cases a) (auto simp: call_steps_left_def)
  qed
next
  case False
  then obtain j r where "tv_client w = AtJoin j" "tv_threads w j = Some r" "rt_at r = Exited"
      "w' = w\<lparr>tv_client := InClient, tv_threads := (tv_threads w)(j \<mapsto> r\<lparr>rt_joinable := False\<rparr>)\<rparr>"
    using assms by (auto simp: pthread_join_returns_def split: client_at.splits option.splits if_splits)
  then show ?thesis by (auto simp: call_steps_left_def)
qed

lemma routine_step_decreases:
  assumes "startThread gettid i w = Some (Inr w')"
  shows "call_steps_left i w' < call_steps_left i w"
proof -
  obtain r d where r: "tv_threads w i = Some r" "rt_data r = Some d"
    using assms by (auto simp: startThread_def split: option.splits if_splits)
  show ?thesis
  proof (cases "rt_at r")
    case Named
    then have p: "td_platch d" "tv_object w \<noteq> None" using assms r by (auto simp: startThread_def split: if_splits option.splits)
    then obtain t where t: "tv_object w = Some t" by blast
    obtain a where a: "CountdownLatch_countDown (th_latch t) = Inr (Some a)"
      using assms r Named p(1) t
      by (cases "CountdownLatch_countDown (th_latch t)") (auto simp: startThread_def split: option.splits)
    then show ?thesis
      using assms r Named p(1) t by (cases a) (auto simp: startThread_def call_steps_left_def split: if_splits client_at.splits)
  qed (use assms r in \<open>auto simp: startThread_def call_steps_left_def\<close>)
qed

lemma call_steps_decrease:
  assumes "x = ClientStep \<or> x = RoutineStep i" "thread_event_step dbg lg gettid x w = Some (Inr w')"
  shows "call_steps_left i w' < call_steps_left i w"
  using assms client_step_decreases routine_step_decreases by auto

section \<open>Properties\<close>

text \<open>
  C20. Whatever a careful owner does with a thread object, no step of either thread faults: the new thread never
  uses the object once it is destroyed, and its identifier is always one that can be joined or detached. A call
  of \<^verbatim>\<open>start\<close> or \<^verbatim>\<open>join\<close> that waits returns: while it does one of the two threads can step, and every step
  of them leaves fewer to do. After \<^verbatim>\<open>start\<close> the thread knows its number, after \<^verbatim>\<open>join\<close> it has called
  the function exactly once.
\<close>

theorem Thread_start_join:
  assumes "Thread_new name n = Inr (t0, n')" "thread_world_reach dbg lg gettid t0 w"
  shows "(\<forall>x res. thread_possible x w \<and> thread_event_step dbg lg gettid x w = Some res \<longrightarrow> returns res (\<lambda>w'.
       \<forall>i. x \<in> {ClientStep, RoutineStep i} \<longrightarrow> call_steps_left i w' < call_steps_left i w)) \<and>
    (tv_client w \<noteq> InClient \<longrightarrow> (\<exists>t i. tv_object w = Some t \<and> th_pthreadId t = Some i \<and>
       (thread_event_step dbg lg gettid ClientStep w \<noteq> None \<or> thread_event_step dbg lg gettid (RoutineStep i) w \<noteq> None))) \<and>
    (\<forall>t. tv_client w = InClient \<and> tv_object w = Some t \<and> th_started t \<longrightarrow> (\<exists>i r. th_pthreadId t = Some i \<and>
       tv_threads w i = Some r \<and> lg_cachedTid (ct_log (rt_local r)) = gettid i \<and> (th_joined t \<longrightarrow> rt_calls r = 1 \<and> rt_at r = Exited)))"
proof -
  have ok: "thread_world_ok gettid (th_threadName t0) w" "th_threadName t0 \<noteq> ''''"
    using thread_world_reach_ok [OF assms(2, 1)] by simp_all
  have "returns res (\<lambda>w'. \<forall>i. x \<in> {ClientStep, RoutineStep i} \<longrightarrow> call_steps_left i w' < call_steps_left i w)"
    if "thread_possible x w" "thread_event_step dbg lg gettid x w = Some res" for x res
    using thread_event_ok [OF ok that] that(2) call_steps_decrease [of x _ dbg lg gettid w] by (auto simp: returns_iff)
  moreover have "\<exists>t i. tv_object w = Some t \<and> th_pthreadId t = Some i \<and>
       (thread_event_step dbg lg gettid ClientStep w \<noteq> None \<or> thread_event_step dbg lg gettid (RoutineStep i) w \<noteq> None)"
    if c: "tv_client w \<noteq> InClient"
  proof -
    obtain t where t: "tv_object w = Some t" "th_started t"
      using ok(1) c by (auto simp: thread_world_ok_def object_ok_def split: option.splits)
    obtain i r where i: "th_pthreadId t = Some i" "tv_threads w = [i \<mapsto> r]" "phase_ok t (tv_client w) i r"
      "routine_ok gettid (th_threadName t0) i r" by (rule started_thread [OF ok(1) t])
    have "rt_data r \<noteq> None \<or> rt_at r = Exited" using i(4) by (auto simp: routine_ok_def split: option.splits)
    then have "thread_event_step dbg lg gettid (RoutineStep i) w \<noteq> None" if "rt_at r \<noteq> Exited"
      using that i(2) by (cases "rt_at r") (auto simp: startThread_def)
    moreover have "thread_event_step dbg lg gettid ClientStep w \<noteq> None" if "rt_at r = Exited"
      using that i(2, 3) c by (auto simp: Thread_start_wait_def pthread_join_returns_def phase_ok_def split: client_at.splits option.splits)
    ultimately show ?thesis using t i(1) by blast
  qed
  moreover have "\<exists>i r. th_pthreadId t = Some i \<and> tv_threads w i = Some r \<and> lg_cachedTid (ct_log (rt_local r)) = gettid i \<and>
      (th_joined t \<longrightarrow> rt_calls r = 1 \<and> rt_at r = Exited)"
    if t: "tv_client w = InClient" "tv_object w = Some t" "th_started t" for t
  proof -
    obtain i r where i: "th_pthreadId t = Some i" "tv_threads w = [i \<mapsto> r]" "phase_ok t (tv_client w) i r"
      "routine_ok gettid (th_threadName t0) i r" by (rule started_thread [OF ok(1) t(2, 3)])
    have "rt_at r \<notin> {Created, Named}" "th_joined t \<longrightarrow> rt_at r = Exited" using i(3) t(1) by (auto simp: phase_ok_def split: if_splits)
    then show ?thesis using i by (auto simp: routine_ok_def)
  qed
  ultimately show ?thesis by blast
qed

text \<open>A thread object without a name of its own, and the worlds of its start.\<close>

definition first_thread :: Thread where
  "first_thread = \<lparr>th_threadName = ''Thread1'', th_pthreadId = None, th_started = False, th_joined = False, th_latch = CountdownLatch_new 1\<rparr>"

lemma first_thread_new: "Thread_new '''' 0 = Inr (first_thread, 1)"
proof -
  have "dec_nat 1 = ''1''" by (simp add: dec_nat.simps digit_char_simps(2) [unfolded One_nat_def])
  then show ?thesis
    by (simp add: Thread_new_def Thread_setDefaultName_def first_thread_def AtomicInteger_incrementAndGet_def
        AtomicInteger_addAndGet_ok in_int_def snprintf_def fmt_d_def pad_left_def)
qed

lemma first_thread_starts:
  obtains w where "thread_world_reach True first_log (\<lambda>_. 4242) first_thread w" "tv_client w = AtLatch"
    "thread_event_step True first_log (\<lambda>_. 4242) ClientStep w \<noteq> None"
proof -
  let ?w0 = "\<lparr>tv_object = Some first_thread, tv_client = InClient, tv_threads = (\<lambda>_. None)\<rparr>"
  have "\<not> th_started first_thread" by (simp add: first_thread_def)
  then obtain w where w: "Thread_start True first_log 0 7 ?w0 = Inr w" "tv_client w = AtLatch"
    by (simp add: Thread_start_def cassert_holds)
  moreover have "thread_world_reach True first_log (\<lambda>_. 4242) first_thread ?w0" by (rule thread_world_reach.start)
  ultimately have "thread_world_reach True first_log (\<lambda>_. 4242) first_thread w"
    using \<open>\<not> th_started first_thread\<close> by (auto intro: thread_world_reach.step [where x = "CallStart 0 7"])
  moreover have "thread_event_step True first_log (\<lambda>_. 4242) ClientStep w \<noteq> None"
    using w(2) by (simp add: Thread_start_wait_def)
  ultimately show thesis using w(2) that by blast
qed

theorem Thread_start_join_witness:
  "\<exists>w res. thread_world_reach True first_log (\<lambda>_. 4242) first_thread w \<and> tv_client w = AtLatch \<and>
     thread_event_step True first_log (\<lambda>_. 4242) ClientStep w = Some res \<and>
     returns res (\<lambda>w'. call_steps_left 7 w' < call_steps_left 7 w)"
proof -
  obtain w where w: "thread_world_reach True first_log (\<lambda>_. 4242) first_thread w" "tv_client w = AtLatch"
    "thread_event_step True first_log (\<lambda>_. 4242) ClientStep w \<noteq> None" by (rule first_thread_starts)
  then obtain res where res: "thread_event_step True first_log (\<lambda>_. 4242) ClientStep w = Some res" by blast
  have "thread_possible ClientStep w" by simp
  with Thread_start_join [OF first_thread_new w(1)] res
  have "returns res (\<lambda>w'. \<forall>i. ClientStep \<in> {ClientStep, RoutineStep i} \<longrightarrow> call_steps_left i w' < call_steps_left i w)" by blast
  then have "returns res (\<lambda>w'. call_steps_left 7 w' < call_steps_left 7 w)" by (rule returns_mono) simp
  with w(1, 2) res show ?thesis by blast
qed

text \<open>
  A thread knows itself: in every state a careful owner can bring about, before it has done anything else a
  thread has stored its number, and from then on \<^verbatim>\<open>name\<close> gives the name of its object, even once the object
  is destroyed, until it is \<open>finished\<close>; the pointer behind it never dangles. The function has been called at most
  once.
\<close>

theorem Thread_knows_itself:
  assumes "Thread_new name n = Inr (t0, n')" "thread_world_reach dbg lg gettid t0 w" "tv_threads w i = Some r" "rt_at r \<noteq> Created"
  shows "lg_cachedTid (ct_log (rt_local r)) = gettid i \<and> rt_calls r \<le> 1 \<and>
    currentThread_name (rt_data r) (rt_local r) = Inr (if rt_at r = Exited then ''finished'' else th_threadName t0)"
proof -
  have "routine_ok gettid (th_threadName t0) i r"
    using thread_world_reach_ok [OF assms(2, 1)] assms(3) by (simp add: thread_world_ok_def)
  then show ?thesis using assms(4) by (auto simp: routine_ok_def currentThread_name_def split: option.splits)
qed

theorem Thread_knows_itself_witness:
  "\<exists>w r. thread_world_reach True first_log (\<lambda>_. 4242) first_thread w \<and> tv_threads w 7 = Some r \<and>
     currentThread_name (rt_data r) (rt_local r) = Inr ''Thread1''"
proof -
  let ?w0 = "\<lparr>tv_object = Some first_thread, tv_client = InClient, tv_threads = (\<lambda>_. None)\<rparr>"
  obtain w1 where w1: "Thread_start True first_log 0 7 ?w0 = Inr w1" "tv_object w1 \<noteq> None"
      "tv_threads w1 7 = Some \<lparr>rt_data = Some \<lparr>td_name = ''Thread1'', td_platch = True\<rparr>, rt_local = CurrentThread_new first_log,
         rt_calls = 0, rt_joinable = True, rt_at = Created\<rparr>"
    by (simp add: Thread_start_def cassert_holds first_thread_def)
  obtain w2 r where w2: "startThread (\<lambda>_. 4242) 7 w1 = Some (Inr w2)" "tv_threads w2 7 = Some r" "rt_at r = Named"
    using w1(3) by (simp add: startThread_def)
  have "\<not> th_started first_thread" by (simp add: first_thread_def)
  moreover have "thread_world_reach True first_log (\<lambda>_. 4242) first_thread ?w0" by (rule thread_world_reach.start)
  ultimately have "thread_world_reach True first_log (\<lambda>_. 4242) first_thread w1"
    using w1(1) by (auto intro: thread_world_reach.step [where x = "CallStart 0 7"])
  then have reach: "thread_world_reach True first_log (\<lambda>_. 4242) first_thread w2"
    using w2(1) by (auto intro: thread_world_reach.step [where x = "RoutineStep 7"])
  have "rt_at r \<noteq> Created" using w2(3) by simp
  from Thread_knows_itself [OF first_thread_new reach w2(2) this] w2(3)
  have "currentThread_name (rt_data r) (rt_local r) = Inr ''Thread1''" by (simp add: first_thread_def)
  with reach w2(2) show ?thesis by blast
qed

text \<open>The names of threads made one after the other.\<close>

fun thread_names :: "string list \<Rightarrow> AtomicInteger \<Rightarrow> (string list \<times> AtomicInteger) res" where
  "thread_names [] n = Inr ([], n)"
| "thread_names (name # names) n =
     bindR (Thread_new name n) (\<lambda>(t, n1). bindR (thread_names names n1) (\<lambda>(ts, n2). Inr (th_threadName t # ts, n2)))"

lemma Thread_new_name:
  assumes "0 \<le> n" "n < 2 ^ 31 - 1"
  obtains t where "Thread_new name n = Inr (t, n + 1)"
    "th_threadName t = (if name = '''' then ''Thread'' @ dec_nat (nat (n + 1)) else name)"
proof -
  have "length (dec_nat (nat (n + 1))) \<le> 10" using assms by (intro length_dec_nat) (simp_all add: nat_less_iff)
  then have "snprintf 32 (''Thread'' @ fmt_d 0 (n + 1)) = ''Thread'' @ dec_nat (nat (n + 1))"
    using assms(1) by (simp add: snprintf_fits fmt_d_def pad_left_def)
  moreover have "AtomicInteger_incrementAndGet 32 n = Inr (n + 1, n + 1)"
    using assms by (simp add: AtomicInteger_incrementAndGet_def AtomicInteger_addAndGet_ok in_int_def)
  ultimately show thesis
    by (cases "name = ''''") (rule that, simp add: Thread_new_def Thread_setDefaultName_def, simp add: Thread_new_def Thread_setDefaultName_def)+
qed

text \<open>
  Threads are numbered in the order they are made, the named ones too; one without a name is called
  \<open>Thread\<close> and its number, in full, for every number of 32 bits.
\<close>

theorem Thread_numbers:
  assumes "0 \<le> n" "n + int (length names) < 2 ^ 31"
  shows "returns (thread_names names n) (\<lambda>(ts, n'). Thread_threadsCreated n' = n + int (length names) \<and>
    ts = map (\<lambda>i. if names ! i = '''' then ''Thread'' @ dec_nat (nat (n + int i + 1)) else names ! i) [0..<length names])"
  using assms
proof (induction names arbitrary: n)
  case (Cons name names)
  obtain t where t: "Thread_new name n = Inr (t, n + 1)"
      "th_threadName t = (if name = '''' then ''Thread'' @ dec_nat (nat (n + 1)) else name)"
    using Thread_new_name [of n name] Cons.prems by auto
  have "[0..<length (name # names)] = 0 # map Suc [0..<length names]" by (simp add: map_Suc_upt upt_conv_Cons del: upt_Suc)
  moreover have "returns (thread_names names (n + 1)) (\<lambda>(ts, n'). Thread_threadsCreated n' = n + 1 + int (length names) \<and>
    ts = map (\<lambda>i. if names ! i = '''' then ''Thread'' @ dec_nat (nat (n + 1 + int i + 1)) else names ! i) [0..<length names])"
    using Cons.prems by (intro Cons.IH) simp_all
  ultimately show ?case using t by (auto simp: returns_iff add.commute add.left_commute simp del: upt_Suc)
qed (simp add: Thread_threadsCreated_def)

theorem Thread_numbers_witness:
  "returns (thread_names ['''', ''io'', ''''] 0) (\<lambda>(ts, n). Thread_threadsCreated n = 3 \<and> ts = [''Thread1'', ''io'', ''Thread3''])"
proof -
  have "dec_nat (Suc 0) = ''1''" "dec_nat 3 = ''3''" by (simp_all add: dec_nat.simps digit_char_simps digit_char_simps(2) [unfolded One_nat_def])
  moreover have "[0..<3] = [0, 1, 2 :: nat]" by (simp add: upt_rec)
  moreover have "returns (thread_names ['''', ''io'', ''''] 0) (\<lambda>(ts, n'). Thread_threadsCreated n' = 0 + int (length ['''', ''io'', '''']) \<and>
    ts = map (\<lambda>i. if ['''', ''io'', ''''] ! i = '''' then ''Thread'' @ dec_nat (nat (0 + int i + 1)) else ['''', ''io'', ''''] ! i) [0..<length ['''', ''io'', '''']])"
    by (rule Thread_numbers) simp_all
  ultimately show ?thesis by (simp add: numeral_2_eq_2 returns_iff del: thread_names.simps)
qed

text \<open>
  On Linux no thread is the main thread: \<^verbatim>\<open>isMainThread\<close> compares the kernel's number, which is below
  \<open>2 ^ 22\<close>, with the identifier of pthread, an address above it, whether the number was cached before or not.
\<close>

theorem isMainThread_never:
  assumes "0 < gettid" "gettid < 2 ^ 22" "2 ^ 22 \<le> pthread_self" "lg_cachedTid (ct_log ct) \<in> {0, gettid}"
  shows "\<not> fst (isMainThread gettid pthread_self ct)"
  using assms by (auto simp: isMainThread_def cache_tid_def currentThread_tid_def currentThread_cacheTid_def Let_def)

theorem isMainThread_never_witness:
  "\<not> fst (isMainThread 4242 0x7f0000000000 (ThreadNameInitializer 4242 (CurrentThread_new first_log)))"
  by (rule isMainThread_never)
    (simp_all add: ThreadNameInitializer_def cache_tid_cached CurrentThread_new_def)

text \<open>A child of \<^verbatim>\<open>fork\<close> does not keep the number of the thread that forked.\<close>

lemma afterFork_renews:
  "lg_cachedTid (ct_log (afterFork child ct)) = child \<and> currentThread_name data (afterFork child ct) = Inr ''main''"
  by (simp add: afterFork_def Let_def cache_tid_def currentThread_tid_def currentThread_cacheTid_def currentThread_name_def)

end
