(* ===== verification/Mutexes.thy ===== *)
theory Mutexes
  imports Monitor
begin

text \<open>
  The mutex of mutex.h and the condition variable of condition.h, and what is done with them: calls that take
  the mutex, wait while they must, run, wake and release it, each of these a step of its own. Every such
  execution is one of the steps of Monitor, where a call is one step. The pthread functions behind the classes
  are those of their documentation.
\<close>

section \<open>Mutex and Condition\<close>

text \<open>
  A step is \<open>None\<close> when it blocks. Unlocking the mutex of another thread and destroying one that is locked are
  undefined; locking one's own mutex blocks for ever.
\<close>

record 't Mutex =
  mx_owner :: "'t option"

definition Mutex_new :: "'t Mutex" where
  "Mutex_new = \<lparr>mx_owner = None\<rparr>"

definition Mutex_lock :: "'t \<Rightarrow> 't Mutex \<Rightarrow> 't Mutex res option" where
  "Mutex_lock t m = (if mx_owner m = None then Some (Inr (m\<lparr>mx_owner := Some t\<rparr>)) else None)"

definition Mutex_unlock :: "'t \<Rightarrow> 't Mutex \<Rightarrow> 't Mutex res" where
  "Mutex_unlock t m = (if mx_owner m = Some t then Inr (m\<lparr>mx_owner := None\<rparr>) else Inl BadCall)"

definition Mutex_destroy :: "'t Mutex \<Rightarrow> unit res" where
  "Mutex_destroy m = (if mx_owner m = None then Inr () else Inl BadPointer)"

record 't Condition =
  cv_waiting :: "'t set"

definition Condition_new :: "'t Condition" where
  "Condition_new = \<lparr>cv_waiting = {}\<rparr>"

definition Condition_wait :: "'t \<Rightarrow> 't Condition \<Rightarrow> 't Mutex \<Rightarrow> ('t Condition \<times> 't Mutex) res" where
  "Condition_wait t cv m = bindR (Mutex_unlock t m) (\<lambda>m'. Inr (cv\<lparr>cv_waiting := insert t (cv_waiting cv)\<rparr>, m'))"

definition Condition_wakeAll :: "'t Condition \<Rightarrow> 't set \<times> 't Condition" where
  "Condition_wakeAll cv = (cv_waiting cv, cv\<lparr>cv_waiting := {}\<rparr>)"

text \<open>\<open>t\<close> is the waiter that \<^verbatim>\<open>pthread_cond_signal\<close> picks, if there is one. No class of the library calls it.\<close>

definition Condition_wakeOne :: "'t \<Rightarrow> 't Condition \<Rightarrow> 't set \<times> 't Condition" where
  "Condition_wakeOne t cv = (cv_waiting cv \<inter> {t}, cv\<lparr>cv_waiting := cv_waiting cv - {t}\<rparr>)"

section \<open>Calls under a mutex\<close>

text \<open>
  Where a thread is in a call \<open>c\<close>: outside of all, at the constructor of MutexLock or, woken, at the mutex again
  (\<open>Want\<close>), holding the mutex before it tests its condition (\<open>Hold\<close>), in \<^verbatim>\<open>wait\<close>, before it wakes others
  (\<open>Notify\<close>), or at the destructor of MutexLock.
\<close>

datatype 'c place = Out | Want 'c bool | Hold 'c bool | Sleep 'c | Notify "'c \<Rightarrow> bool" | Leave

record ('t, 'k, 'c, 's, 'r) Locked =
  lk_mutex :: "'t Mutex"
  lk_cond :: "'k \<Rightarrow> 't Condition"
  lk_state :: 's
  lk_at :: "'t \<Rightarrow> 'c place"
  lk_log :: "('c \<times> 'r) list"

definition locked_new :: "'s \<Rightarrow> ('t, 'k, 'c, 's, 'r) Locked" where
  "locked_new s = \<lparr>lk_mutex = Mutex_new, lk_cond = (\<lambda>_. Condition_new), lk_state = s, lk_at = (\<lambda>_. Out), lk_log = []\<rparr>"

text \<open>\<open>cond_of c\<close> is the condition variable that the call \<open>c\<close> waits on.\<close>

definition wake_conditions :: "('c \<Rightarrow> 'k) \<Rightarrow> ('c \<Rightarrow> bool) \<Rightarrow> ('t, 'k, 'c, 's, 'r) Locked \<Rightarrow> ('t, 'k, 'c, 's, 'r) Locked" where
  "wake_conditions cond_of w m =
     (let woken = (\<lambda>k. \<exists>c. cond_of c = k \<and> w c) in
      m\<lparr>lk_cond := (\<lambda>k. if woken k then snd (Condition_wakeAll (lk_cond m k)) else lk_cond m k),
        lk_at := (\<lambda>t. case lk_at m t of
            Sleep c \<Rightarrow> if woken (cond_of c) \<and> t \<in> fst (Condition_wakeAll (lk_cond m (cond_of c))) then Want c True else Sleep c
          | p \<Rightarrow> p)\<rparr>)"

inductive locked_step ::
  "('c, 's, 'r) attempt \<Rightarrow> ('c \<Rightarrow> 'k) \<Rightarrow> ('t, 'k, 'c, 's, 'r) Locked \<Rightarrow> ('t, 'k, 'c, 's, 'r) Locked \<Rightarrow> bool"
  for attempt cond_of where
  call: "lk_at m t = Out \<Longrightarrow> locked_step attempt cond_of m (m\<lparr>lk_at := (lk_at m)(t := Want c False)\<rparr>)"
| lock: "lk_at m t = Want c b \<Longrightarrow> Mutex_lock t (lk_mutex m) = Some (Inr mx) \<Longrightarrow>
    locked_step attempt cond_of m (m\<lparr>lk_mutex := mx, lk_at := (lk_at m)(t := Hold c b)\<rparr>)"
| wait: "lk_at m t = Hold c b \<Longrightarrow> attempt c (lk_state m) = Inr None \<Longrightarrow>
    Condition_wait t (lk_cond m (cond_of c)) (lk_mutex m) = Inr (cv, mx) \<Longrightarrow>
    locked_step attempt cond_of m (m\<lparr>lk_mutex := mx, lk_cond := (lk_cond m)(cond_of c := cv), lk_at := (lk_at m)(t := Sleep c)\<rparr>)"
| body: "lk_at m t = Hold c b \<Longrightarrow> attempt c (lk_state m) = Inr (Some (s', r, w)) \<Longrightarrow>
    locked_step attempt cond_of m (m\<lparr>lk_state := s', lk_at := (lk_at m)(t := Notify w), lk_log := lk_log m @ [(c, r)]\<rparr>)"
| notify: "lk_at m t = Notify w \<Longrightarrow>
    locked_step attempt cond_of m (wake_conditions cond_of w (m\<lparr>lk_at := (lk_at m)(t := Leave)\<rparr>))"
| unlock: "lk_at m t = Leave \<Longrightarrow> Mutex_unlock t (lk_mutex m) = Inr mx \<Longrightarrow>
    locked_step attempt cond_of m (m\<lparr>lk_mutex := mx, lk_at := (lk_at m)(t := Out)\<rparr>)"
| spurious: "lk_at m t = Sleep c \<Longrightarrow>
    locked_step attempt cond_of m (m\<lparr>lk_cond := (lk_cond m)(cond_of c :=
        (lk_cond m (cond_of c))\<lparr>cv_waiting := cv_waiting (lk_cond m (cond_of c)) - {t}\<rparr>), lk_at := (lk_at m)(t := Want c True)\<rparr>)"

inductive locked_reach for attempt cond_of m0 where
  start: "locked_reach attempt cond_of m0 m0"
| step: "locked_reach attempt cond_of m0 m \<Longrightarrow> locked_step attempt cond_of m m' \<Longrightarrow> locked_reach attempt cond_of m0 m'"

section \<open>Atomicity\<close>

text \<open>The thread is inside: it holds the mutex.\<close>

fun inside :: "'c place \<Rightarrow> bool" where
  "inside (Hold c b) = True"
| "inside (Notify w) = True"
| "inside Leave = True"
| "inside _ = False"

text \<open>
  The state of Monitor that a state stands for: a call has run once its body has; a sleeper that is about to be
  woken by the thread inside has been woken.
\<close>

definition pending :: "('t \<Rightarrow> 'c place) \<Rightarrow> 'c \<Rightarrow> bool" where
  "pending at c \<longleftrightarrow> (\<exists>t w. at t = Notify w \<and> w c)"

fun status_of :: "('c \<Rightarrow> bool) \<Rightarrow> 'c place \<Rightarrow> 'c status" where
  "status_of p (Want c b) = (if b then Woken c else Running)"
| "status_of p (Hold c b) = (if b then Woken c else Running)"
| "status_of p (Sleep c) = (if p c then Woken c else Waiting c)"
| "status_of p _ = Running"

definition locked_abs :: "('t, 'k, 'c, 's, 'r) Locked \<Rightarrow> ('t, 'c, 's, 'r) Shared" where
  "locked_abs m = \<lparr>sh_state = lk_state m, sh_status = (\<lambda>t. status_of (pending (lk_at m)) (lk_at m t)), sh_log = lk_log m\<rparr>"

text \<open>Mutual exclusion, and who is in the queues of the conditions.\<close>

definition excl :: "('t \<Rightarrow> 'c place) \<Rightarrow> 't option \<Rightarrow> bool" where
  "excl at own \<longleftrightarrow> (\<forall>t. inside (at t) \<longleftrightarrow> own = Some t)"

lemma excl_stays: "excl at own \<Longrightarrow> inside p = inside (at t) \<Longrightarrow> excl (at(t := p)) own"
  by (simp add: excl_def)

lemma excl_enters: "excl at None \<Longrightarrow> inside p \<Longrightarrow> excl (at(t := p)) (Some t)"
  by (simp add: excl_def)

lemma excl_leaves: "excl at (Some t) \<Longrightarrow> \<not> inside p \<Longrightarrow> excl (at(t := p)) None"
  by (auto simp: excl_def)

lemma excl_owner: "excl at own \<Longrightarrow> inside (at t) \<Longrightarrow> own = Some t"
  by (simp add: excl_def)

lemma pending_upd:
  assumes "\<And>w. at t \<noteq> Notify w" "\<And>w. p \<noteq> Notify w"
  shows "pending (at(t := p)) = pending at"
proof (rule ext)
  fix c
  have "(\<exists>w. (at(t := p)) u = Notify w \<and> w c) \<longleftrightarrow> (\<exists>w. at u = Notify w \<and> w c)" for u
    using assms by (cases "u = t") auto
  then show "pending (at(t := p)) c = pending at c" by (simp only: pending_def)
qed

definition sleepers :: "('c \<Rightarrow> 'k) \<Rightarrow> ('t \<Rightarrow> 'c place) \<Rightarrow> ('k \<Rightarrow> 't Condition) \<Rightarrow> bool" where
  "sleepers cond_of at cond \<longleftrightarrow> (\<forall>t k. t \<in> cv_waiting (cond k) \<longleftrightarrow> (\<exists>c. at t = Sleep c \<and> cond_of c = k))"

lemma sleepers_stay: "sleepers cond_of at cond \<Longrightarrow> (\<And>c. at t \<noteq> Sleep c) \<Longrightarrow> (\<And>c. p \<noteq> Sleep c) \<Longrightarrow> sleepers cond_of (at(t := p)) cond"
  by (simp add: sleepers_def)

lemma sleepers_wait:
  assumes "sleepers cond_of at cond" "\<And>c. at t \<noteq> Sleep c"
  shows "sleepers cond_of (at(t := Sleep c)) (cond(cond_of c := (cond (cond_of c))\<lparr>cv_waiting := insert t (cv_waiting (cond (cond_of c)))\<rparr>))"
  using assms unfolding sleepers_def by auto

lemma sleepers_spurious:
  assumes "sleepers cond_of at cond" "at t = Sleep c"
  shows "sleepers cond_of (at(t := Want c b)) (cond(cond_of c := (cond (cond_of c))\<lparr>cv_waiting := cv_waiting (cond (cond_of c)) - {t}\<rparr>))"
  using assms unfolding sleepers_def by auto

text \<open>The places after the conditions that \<open>w\<close> tells are woken.\<close>

lemma wake_conditions_at:
  assumes "sleepers cond_of (lk_at m) (lk_cond m)" "\<And>a b. cond_of a = cond_of b \<Longrightarrow> w a = w b"
  shows "lk_at (wake_conditions cond_of w m) = (\<lambda>t. case lk_at m t of Sleep c \<Rightarrow> if w c then Want c True else Sleep c | p \<Rightarrow> p)"
proof -
  have "(\<exists>c'. cond_of c' = cond_of c \<and> w c') \<longleftrightarrow> w c" for c using assms(2) by blast
  moreover have "t \<in> cv_waiting (lk_cond m (cond_of c))" if "lk_at m t = Sleep c" for t c
    using assms(1) that by (auto simp: sleepers_def)
  ultimately show ?thesis
    by (auto simp: wake_conditions_def Let_def Condition_wakeAll_def fun_eq_iff split: place.split)
qed

lemma wake_conditions_sleepers:
  assumes "sleepers cond_of (lk_at m) (lk_cond m)" "\<And>a b. cond_of a = cond_of b \<Longrightarrow> w a = w b"
  shows "sleepers cond_of (lk_at (wake_conditions cond_of w m)) (lk_cond (wake_conditions cond_of w m))"
proof -
  have "lk_cond (wake_conditions cond_of w m) =
      (\<lambda>k. if \<exists>c. cond_of c = k \<and> w c then (lk_cond m k)\<lparr>cv_waiting := {}\<rparr> else lk_cond m k)"
    by (rule ext) (auto simp: wake_conditions_def Let_def Condition_wakeAll_def)
  moreover have "(\<exists>c'. cond_of c' = cond_of c \<and> w c') \<longleftrightarrow> w c" for c using assms(2) by blast
  moreover have "lk_at (wake_conditions cond_of w m) t = Sleep c \<longleftrightarrow> lk_at m t = Sleep c \<and> \<not> w c" for t c
    by (cases "lk_at m t") (auto simp: wake_conditions_at [OF assms])
  ultimately show ?thesis using assms(1) unfolding sleepers_def by auto (metis assms(2))
qed

lemma wake_conditions_excl:
  assumes "excl (lk_at m) own"
  shows "excl (lk_at (wake_conditions cond_of w m)) own"
proof -
  have "inside (lk_at (wake_conditions cond_of w m) t) = inside (lk_at m t)" for t
    by (cases "lk_at m t") (simp_all add: wake_conditions_def Let_def)
  then show ?thesis using assms by (simp add: excl_def)
qed

lemma wake_conditions_other [simp]:
  "lk_state (wake_conditions cond_of w m) = lk_state m" "lk_log (wake_conditions cond_of w m) = lk_log m"
  "lk_mutex (wake_conditions cond_of w m) = lk_mutex m"
  by (simp_all add: wake_conditions_def Let_def)

lemma locked_abs_new: "locked_abs (locked_new s) = shared_new s"
  by (simp add: locked_abs_def locked_new_def shared_new_def)

text \<open>The law of a class that waits on several conditions: a call wakes all the waiters of a condition or none.\<close>

locale locked_monitor =
  fixes attempt :: "('c, 's, 'r) attempt" and cond_of :: "'c \<Rightarrow> 'k"
  assumes wakes_whole: "attempt c s = Inr (Some (s', r, w)) \<Longrightarrow> cond_of a = cond_of b \<Longrightarrow> w a = w b"
begin

definition locked_ok :: "('t, 'k, 'c, 's, 'r) Locked \<Rightarrow> bool" where
  "locked_ok m \<longleftrightarrow> excl (lk_at m) (mx_owner (lk_mutex m)) \<and> sleepers cond_of (lk_at m) (lk_cond m) \<and>
     (\<forall>t w a b. lk_at m t = Notify w \<longrightarrow> cond_of a = cond_of b \<longrightarrow> w a = w b)"

lemma new_ok: "locked_ok (locked_new s)"
  by (simp add: locked_ok_def locked_new_def Mutex_new_def Condition_new_def excl_def sleepers_def)

lemma not_pending:
  assumes "locked_ok m" "lk_at m t = Hold c b"
  shows "pending (lk_at m) = (\<lambda>_. False)"
proof (rule ext, rule ccontr)
  fix a assume "pending (lk_at m) a \<noteq> False"
  then obtain u w where u: "lk_at m u = Notify w" by (auto simp: pending_def)
  have "mx_owner (lk_mutex m) = Some u" "mx_owner (lk_mutex m) = Some t"
    using assms u excl_owner [of "lk_at m" "mx_owner (lk_mutex m)"] by (simp_all add: locked_ok_def)
  then show False using u assms(2) by simp
qed

text \<open>A step that changes the place of one thread, which is not woken or waking others, and what it stands for not at all.\<close>

lemma abs_stays:
  assumes "\<And>w. lk_at m t \<noteq> Notify w" "\<And>w. p \<noteq> Notify w" "\<And>f. status_of f p = status_of f (lk_at m t)"
    and "lk_at m' = (lk_at m)(t := p)" "lk_state m' = lk_state m" "lk_log m' = lk_log m"
  shows "locked_abs m' = locked_abs m"
proof -
  have same: "pending ((lk_at m)(t := p)) = pending (lk_at m)" by (rule pending_upd) (simp_all add: assms(1, 2))
  have "status_of (pending (lk_at m')) (lk_at m' u) = status_of (pending (lk_at m)) (lk_at m u)" for u
    using assms(3) by (cases "u = t") (simp_all add: assms(4) same)
  then show ?thesis by (simp add: locked_abs_def assms(5, 6))
qed

text \<open>One step keeps the invariant, and is none or one of Monitor's.\<close>

lemma step_refines:
  assumes "locked_step attempt cond_of m m'" "locked_ok m"
  shows "locked_ok m' \<and> (locked_abs m' = locked_abs m \<or> shared_step attempt (locked_abs m) (locked_abs m'))"
  using assms
proof (induction rule: locked_step.induct)
  case (call m t c)
  then have "locked_ok (m\<lparr>lk_at := (lk_at m)(t := Want c False)\<rparr>)"
    by (auto simp: locked_ok_def intro: excl_stays sleepers_stay)
  moreover have "locked_abs (m\<lparr>lk_at := (lk_at m)(t := Want c False)\<rparr>) = locked_abs m"
    by (rule abs_stays [of m t "Want c False"]) (simp_all add: call(1))
  ultimately show ?case by blast
next
  case (lock m t c b mx)
  then have own: "mx_owner (lk_mutex m) = None" "mx = (lk_mutex m)\<lparr>mx_owner := Some t\<rparr>"
    by (auto simp: Mutex_lock_def split: if_splits)
  then have "locked_ok (m\<lparr>lk_mutex := mx, lk_at := (lk_at m)(t := Hold c b)\<rparr>)"
    using lock(1, 3) by (auto simp: locked_ok_def intro: excl_enters sleepers_stay)
  moreover have "locked_abs (m\<lparr>lk_mutex := mx, lk_at := (lk_at m)(t := Hold c b)\<rparr>) = locked_abs m"
    by (rule abs_stays [of m t "Hold c b"]) (simp_all add: lock(1))
  ultimately show ?case by blast
next
  case (wait m t c b cv mx)
  define m' where "m' = m\<lparr>lk_mutex := mx, lk_cond := (lk_cond m)(cond_of c := cv), lk_at := (lk_at m)(t := Sleep c)\<rparr>"
  have own: "mx_owner (lk_mutex m) = Some t" "mx = (lk_mutex m)\<lparr>mx_owner := None\<rparr>"
    and cv: "cv = (lk_cond m (cond_of c))\<lparr>cv_waiting := insert t (cv_waiting (lk_cond m (cond_of c)))\<rparr>"
    using wait(3) by (auto simp: Condition_wait_def Mutex_unlock_def split: if_splits)
  have "excl (lk_at m') (mx_owner (lk_mutex m'))" "sleepers cond_of (lk_at m') (lk_cond m')"
    using wait(1, 4) own unfolding cv
    by (auto simp: m'_def locked_ok_def cv intro!: excl_leaves sleepers_wait)
  moreover have "\<forall>u w a b. lk_at m' u = Notify w \<longrightarrow> cond_of a = cond_of b \<longrightarrow> w a = w b"
    using wait(4) by (simp add: m'_def locked_ok_def)
  ultimately have "locked_ok m'" by (simp add: locked_ok_def)
  moreover note none = not_pending [OF wait(4, 1)]
  have sleep: "pending (lk_at m') = (\<lambda>_. False)"
    unfolding none [symmetric] m'_def by (simp, rule pending_upd) (simp_all add: wait(1))
  have "locked_abs m' = (locked_abs m)\<lparr>sh_status := (sh_status (locked_abs m))(t := Waiting c)\<rparr>"
    by (simp add: locked_abs_def none sleep fun_eq_iff) (simp add: m'_def)
  moreover have "shared_step attempt (locked_abs m) ((locked_abs m)\<lparr>sh_status := (sh_status (locked_abs m))(t := Waiting c)\<rparr>)"
    by (rule shared_step.waits) (simp_all add: locked_abs_def wait(1, 2))
  ultimately show ?case by (simp add: m'_def)
next
  case (body m t c b s' r w)
  define m' where "m' = m\<lparr>lk_state := s', lk_at := (lk_at m)(t := Notify w), lk_log := lk_log m @ [(c, r)]\<rparr>"
  have "excl (lk_at m') (mx_owner (lk_mutex m'))" "sleepers cond_of (lk_at m') (lk_cond m')"
    using body(1, 3) by (auto simp: locked_ok_def m'_def intro: excl_stays sleepers_stay)
  moreover have "v a = v b'" if "lk_at m' u = Notify v" "cond_of a = cond_of b'" for u v a b'
  proof (cases "u = t")
    case True
    then show ?thesis using that(1) wakes_whole [OF body(2) that(2)] by (simp add: m'_def)
  next
    case False
    then have "lk_at m u = Notify v" using that(1) by (simp add: m'_def)
    then show ?thesis using body(3) that(2) by (simp add: locked_ok_def)
  qed
  ultimately have "locked_ok m'" by (simp add: locked_ok_def)
  moreover note none = not_pending [OF body(3, 1)]
  have pend: "pending (lk_at m') = w"
  proof (rule ext)
    fix a
    have "\<not> pending (lk_at m) a" by (simp add: none)
    then have "(\<exists>w'. lk_at m' u = Notify w' \<and> w' a) \<longleftrightarrow> u = t \<and> w a" for u
      by (cases "u = t") (auto simp: m'_def pending_def)
    then show "pending (lk_at m') a = w a" by (simp only: pending_def) blast
  qed
  have "status_of w (lk_at m u) = wake w (status_of (\<lambda>_. False) (lk_at m u))" for u
    by (cases "lk_at m u") simp_all
  then have "(\<lambda>u. status_of w (lk_at m' u)) = (\<lambda>u. wake w (status_of (\<lambda>_. False) (lk_at m u)))(t := Running)"
    by (auto simp: m'_def fun_eq_iff)
  then have "locked_abs m' = returned t c s' r w (locked_abs m)"
    by (simp add: locked_abs_def returned_def pend none) (simp add: m'_def)
  moreover have "shared_step attempt (locked_abs m) (returned t c s' r w (locked_abs m))"
    by (rule shared_step.returns) (simp_all add: locked_abs_def body(1, 2))
  ultimately show ?case by (simp add: m'_def)
next
  case (notify m t w)
  define m1 where "m1 = m\<lparr>lk_at := (lk_at m)(t := Leave)\<rparr>"
  define m' where "m' = wake_conditions cond_of w m1"
  have whole: "w a = w b" if "cond_of a = cond_of b" for a b using notify that by (simp add: locked_ok_def)
  have m1: "excl (lk_at m1) (mx_owner (lk_mutex m1))" "sleepers cond_of (lk_at m1) (lk_cond m1)"
    using notify by (auto simp: m1_def locked_ok_def intro: excl_stays sleepers_stay)
  note at = wake_conditions_at [OF m1(2) whole]
  have only: "lk_at m u \<noteq> Notify w'" if "u \<noteq> t" for u w'
  proof
    assume u: "lk_at m u = Notify w'"
    have "mx_owner (lk_mutex m) = Some u" "mx_owner (lk_mutex m) = Some t"
      using notify u excl_owner [of "lk_at m" "mx_owner (lk_mutex m)"] by (simp_all add: locked_ok_def)
    then show False using that by simp
  qed
  have "lk_at m' u \<noteq> Notify w'" for u w'
    using only [of u w'] by (cases "u = t"; cases "lk_at m u") (auto simp: m'_def m1_def at [unfolded m1_def])
  then have "locked_ok m'" and none: "pending (lk_at m') = (\<lambda>_. False)"
    using m1 wake_conditions_excl wake_conditions_sleepers [OF m1(2) whole] by (auto simp: locked_ok_def m'_def pending_def fun_eq_iff)
  moreover have "pending (lk_at m) = w"
    using notify(1) only by (auto simp: pending_def fun_eq_iff) (metis place.inject(4))
  then have "status_of (\<lambda>_. False) (lk_at m' u) = status_of (pending (lk_at m)) (lk_at m u)" for u
    using notify(1) by (cases "lk_at m u") (auto simp: m'_def m1_def at [unfolded m1_def])
  then have "locked_abs m' = locked_abs m" by (simp add: locked_abs_def none) (simp add: m'_def m1_def)
  ultimately show ?case by (simp add: m'_def m1_def)
next
  case (unlock m t mx)
  then have own: "mx_owner (lk_mutex m) = Some t" "mx = (lk_mutex m)\<lparr>mx_owner := None\<rparr>"
    by (auto simp: Mutex_unlock_def split: if_splits)
  then have "locked_ok (m\<lparr>lk_mutex := mx, lk_at := (lk_at m)(t := Out)\<rparr>)"
    using unlock(1, 3) by (auto simp: locked_ok_def intro: excl_leaves sleepers_stay)
  moreover have "locked_abs (m\<lparr>lk_mutex := mx, lk_at := (lk_at m)(t := Out)\<rparr>) = locked_abs m"
    by (rule abs_stays [of m t Out]) (simp_all add: unlock(1))
  ultimately show ?case by blast
next
  case (spurious m t c)
  define m' where "m' = m\<lparr>lk_cond := (lk_cond m)(cond_of c :=
        (lk_cond m (cond_of c))\<lparr>cv_waiting := cv_waiting (lk_cond m (cond_of c)) - {t}\<rparr>), lk_at := (lk_at m)(t := Want c True)\<rparr>"
  have "locked_ok m'"
    using spurious by (auto simp: m'_def locked_ok_def intro: excl_stays sleepers_spurious)
  moreover have same: "pending (lk_at m') = pending (lk_at m)"
    using pending_upd [of "lk_at m" t "Want c True"] spurious(1) by (simp add: m'_def)
  have "locked_abs m' = (locked_abs m)\<lparr>sh_status := (sh_status (locked_abs m))(t := Woken c)\<rparr>"
    by (auto simp: locked_abs_def same fun_eq_iff) (simp_all add: m'_def)
  moreover have "shared_step attempt (locked_abs m) ((locked_abs m)\<lparr>sh_status := (sh_status (locked_abs m))(t := Woken c)\<rparr>)"
    if "\<not> pending (lk_at m) c"
    by (rule shared_step.spurious) (simp add: locked_abs_def spurious(1) that)
  moreover have "(locked_abs m)\<lparr>sh_status := (sh_status (locked_abs m))(t := Woken c)\<rparr> = locked_abs m" if "pending (lk_at m) c"
    using that spurious(1) by (auto simp: locked_abs_def fun_eq_iff)
  ultimately show ?case unfolding m'_def [symmetric] by metis
qed

lemma reach_refines:
  assumes "locked_reach attempt cond_of (locked_new s) m"
  shows "locked_ok m \<and> shared_reach attempt (shared_new s) (locked_abs m)"
  using assms
proof (induction rule: locked_reach.induct)
  case start
  show ?case by (simp add: new_ok locked_abs_new shared_reach.start)
next
  case (step m m')
  then show ?case using step_refines [OF step.hyps(2)] by (metis shared_reach.step)
qed

text \<open>The thread inside is the only one, and can go on.\<close>

lemma ok_exclusive:
  assumes "locked_ok m" "inside (lk_at m t)"
  shows "inside (lk_at m u) \<Longrightarrow> u = t" "Mutex_unlock t (lk_mutex m) = Inr Mutex_new"
    "\<exists>cv. Condition_wait t (lk_cond m k) (lk_mutex m) = Inr (cv, Mutex_new)" "Mutex_lock u (lk_mutex m) = None"
proof -
  have own: "mx_owner (lk_mutex m) = Some t" using assms excl_owner by (auto simp: locked_ok_def)
  then show "Mutex_unlock t (lk_mutex m) = Inr Mutex_new" by (simp add: Mutex_unlock_def Mutex_new_def)
  then show "\<exists>cv. Condition_wait t (lk_cond m k) (lk_mutex m) = Inr (cv, Mutex_new)" by (simp add: Condition_wait_def)
  show "Mutex_lock u (lk_mutex m) = None" using own by (simp add: Mutex_lock_def)
  show "inside (lk_at m u) \<Longrightarrow> u = t" using own assms(1) excl_owner by (fastforce simp: locked_ok_def)
qed

text \<open>What a class that keeps the law gets: its calls are atomic and use the mutex rightly.\<close>

lemma atomic:
  assumes "locked_reach attempt cond_of (locked_new s) m"
  shows "shared_reach attempt (shared_new s) (locked_abs m)"
    and "inside (lk_at m t) \<Longrightarrow> inside (lk_at m u) \<Longrightarrow> t = u"
    and "inside (lk_at m t) \<Longrightarrow> Mutex_unlock t (lk_mutex m) = Inr Mutex_new \<and>
      (\<exists>cv. Condition_wait t (lk_cond m k) (lk_mutex m) = Inr (cv, Mutex_new))"
    and "mx_owner (lk_mutex m) = None \<Longrightarrow> sh_status (locked_abs m) t = (case lk_at m t of Sleep c \<Rightarrow> Waiting c | p \<Rightarrow> status_of (\<lambda>_. False) p)"
proof -
  have ok: "locked_ok m" using reach_refines [OF assms] by simp
  show "shared_reach attempt (shared_new s) (locked_abs m)" using reach_refines [OF assms] by simp
  show "inside (lk_at m t) \<Longrightarrow> inside (lk_at m u) \<Longrightarrow> t = u" using ok_exclusive(1) [OF ok, of t u] by auto
  show "inside (lk_at m t) \<Longrightarrow> Mutex_unlock t (lk_mutex m) = Inr Mutex_new \<and>
      (\<exists>cv. Condition_wait t (lk_cond m k) (lk_mutex m) = Inr (cv, Mutex_new))"
    using ok_exclusive(2, 3) [OF ok, of t] by blast
  assume free: "mx_owner (lk_mutex m) = None"
  have "lk_at m u \<noteq> Notify w" for u w
    using free ok excl_owner [of "lk_at m" "mx_owner (lk_mutex m)" u] by (auto simp: locked_ok_def)
  then have "pending (lk_at m) = (\<lambda>_. False)" by (auto simp: pending_def fun_eq_iff)
  then show "sh_status (locked_abs m) t = (case lk_at m t of Sleep c \<Rightarrow> Waiting c | p \<Rightarrow> status_of (\<lambda>_. False) p)"
    by (simp add: locked_abs_def split: place.split)
qed

end

text \<open>Who waits on \<^verbatim>\<open>notEmpty_\<close> and who on \<^verbatim>\<open>notFull_\<close>, and the one condition of the latch.\<close>

interpretation locked_queue: locked_monitor "BlockingQueue_attempt dbg dead" is_Get for dbg and dead :: "'a \<Rightarrow> 'a res"
proof
  fix c a b :: "'a queue_call" and s s' r w
  assume "BlockingQueue_attempt dbg dead c s = Inr (Some (s', r, w))" "is_Get a = is_Get b"
  then show "w a = w b"
    by (cases c) (auto simp: BlockingQueue_put_def BlockingQueue_get_def cassert_def Let_def split: if_splits)
qed

interpretation locked_bounded: locked_monitor "BoundedBlockingQueue_attempt dbg dead" is_Get for dbg and dead :: "'a \<Rightarrow> 'a res"
proof
  fix c a b :: "'a queue_call" and s s' r w
  assume "BoundedBlockingQueue_attempt dbg dead c s = Inr (Some (s', r, w))" "is_Get a = is_Get b"
  then show "w a = w b"
    by (cases c) (auto simp: BoundedBlockingQueue_put_def BoundedBlockingQueue_get_def cassert_def Let_def is_Put_def is_Get_def split: if_splits)
qed

interpretation locked_latch: locked_monitor "latch_attempt dbg" "\<lambda>c. c = Wait" for dbg
proof
  fix c s s' r w and a b :: latch_call
  assume "latch_attempt dbg c s = Inr (Some (s', r, w))" "(a = Wait) = (b = Wait)"
  then show "w a = w b"
    by (cases c) (auto simp: CountdownLatch_wait_def CountdownLatch_countDown_def cassert_def bindR_def split: if_splits sum.splits)
qed

section \<open>Properties\<close>

text \<open>
  C23. The calls of a bounded queue are atomic: in every execution of its calls with a step for each lock, wait,
  wake and unlock, by any number of threads, at most one is between lock and unlock, unlocking and waiting
  never misuse the mutex, and the queue, the calls returned and the threads waiting are those of an execution in
  which each call is one step. Whenever the mutex is free, who sleeps has to.
\<close>

theorem BoundedBlockingQueue_atomic:
  assumes "locked_reach (BoundedBlockingQueue_attempt dbg Inr) is_Get (locked_new (BoundedBlockingQueue_new n)) m"
  shows "shared_reach (BoundedBlockingQueue_attempt dbg Inr) (shared_new (BoundedBlockingQueue_new n)) (locked_abs m) \<and>
    (\<forall>t u. inside (lk_at m t) \<and> inside (lk_at m u) \<longrightarrow> t = u) \<and>
    (\<forall>t k. inside (lk_at m t) \<longrightarrow> Mutex_unlock t (lk_mutex m) = Inr Mutex_new \<and>
       (\<exists>cv. Condition_wait t (lk_cond m k) (lk_mutex m) = Inr (cv, Mutex_new))) \<and>
    (\<forall>t c. mx_owner (lk_mutex m) = None \<and> lk_at m t = Sleep c \<longrightarrow> must_wait_bounded c (lk_state m))"
proof -
  note atomic = locked_bounded.atomic [OF assms]
  have new: "bounded_related n (BoundedBlockingQueue_new n) []"
    by (simp add: bounded_related_def BoundedBlockingQueue_new_def)
  have "must_wait_bounded c (lk_state m)" if "mx_owner (lk_mutex m) = None" "lk_at m t = Sleep c" for t c
  proof -
    have "sh_status (locked_abs m) t = Waiting c" using atomic(4) [OF that(1), of t] that(2) by simp
    then have "must_wait_bounded c (sh_state (locked_abs m))"
      by (rule bounded.waits_rightly [OF atomic(1) new])
    then show ?thesis by (simp add: locked_abs_def)
  qed
  then show ?thesis using atomic(1-3) by blast
qed

theorem BoundedBlockingQueue_atomic_witness:
  "\<exists>m :: (nat, bool, nat queue_call, nat BoundedBlockingQueue, nat option) Locked.
     lk_at m 0 = Leave \<and> bb_queue (lk_state m) = [5] \<and> Mutex_unlock 0 (lk_mutex m) = Inr Mutex_new \<and>
     shared_reach (BoundedBlockingQueue_attempt True Inr) (shared_new (BoundedBlockingQueue_new 2)) (locked_abs m)"
proof -
  let ?a = "BoundedBlockingQueue_attempt True Inr :: (nat queue_call, nat BoundedBlockingQueue, nat option) attempt"
  let ?m0 = "locked_new (BoundedBlockingQueue_new 2) :: (nat, bool, nat queue_call, nat BoundedBlockingQueue, nat option) Locked"
  let ?m1 = "?m0\<lparr>lk_at := (lk_at ?m0)(0 := Want (Put 5) False)\<rparr>"
  let ?m2 = "?m1\<lparr>lk_mutex := \<lparr>mx_owner = Some 0\<rparr>, lk_at := (lk_at ?m1)(0 := Hold (Put 5) False)\<rparr>"
  let ?q = "(BoundedBlockingQueue_new 2)\<lparr>bb_queue := [5 :: nat]\<rparr>"
  let ?m3 = "?m2\<lparr>lk_state := ?q, lk_at := (lk_at ?m2)(0 := Notify is_Get), lk_log := lk_log ?m2 @ [(Put 5, None)]\<rparr>"
  let ?m4 = "wake_conditions is_Get is_Get (?m3\<lparr>lk_at := (lk_at ?m3)(0 := Leave)\<rparr>)"
  have "locked_step ?a is_Get ?m0 ?m1" by (rule locked_step.call) (simp add: locked_new_def)
  moreover have "locked_step ?a is_Get ?m1 ?m2" by (rule locked_step.lock) (simp_all add: locked_new_def Mutex_lock_def Mutex_new_def)
  moreover have "locked_step ?a is_Get ?m2 ?m3"
    by (rule locked_step.body [where b = False])
      (simp_all add: locked_new_def BoundedBlockingQueue_put_def BoundedBlockingQueue_new_def cassert_holds)
  moreover have "locked_step ?a is_Get ?m3 ?m4" by (rule locked_step.notify) simp
  ultimately have reach: "locked_reach ?a is_Get ?m0 ?m4" by (meson locked_reach.intros)
  have at: "lk_at ?m4 0 = Leave" by (simp add: wake_conditions_def Let_def)
  then have "inside (lk_at ?m4 0)" by simp
  with BoundedBlockingQueue_atomic [OF reach]
  have "Mutex_unlock 0 (lk_mutex ?m4) = Inr Mutex_new" "shared_reach ?a (shared_new (BoundedBlockingQueue_new 2)) (locked_abs ?m4)"
    by blast+
  moreover have "bb_queue (lk_state ?m4) = [5]" by simp
  ultimately show ?thesis using at by blast
qed

end
