(* ===== verification/ThreadLocals.thy ===== *)
theory ThreadLocals
  imports Prelude
begin

text \<open>
  The thread-local objects of threadlocal.h: a key of pthread under which each thread keeps the address of an
  object it makes at its first use. Keys and their destructors are those of pthread; the addresses \<^verbatim>\<open>new\<close>
  returns are parameters.
\<close>

section \<open>ThreadLocal\<close>

text \<open>\<open>tl_key\<close> says whether the key exists, \<open>tl_specific\<close> holds the non-null values, \<open>tl_heap\<close> the objects.\<close>

record ('t, 'v) ThreadLocal =
  tl_key :: bool
  tl_specific :: "'t \<Rightarrow> nat option"
  tl_heap :: "nat \<Rightarrow> 'v option"

definition ThreadLocal_new :: "('t, 'v) ThreadLocal" where
  "ThreadLocal_new = \<lparr>tl_key = True, tl_specific = (\<lambda>_. None), tl_heap = (\<lambda>_. None)\<rparr>"

definition ThreadLocal_destroy :: "('t, 'v) ThreadLocal \<Rightarrow> ('t, 'v) ThreadLocal" where
  "ThreadLocal_destroy s = s\<lparr>tl_key := False, tl_specific := (\<lambda>_. None)\<rparr>"

text \<open>\<open>a\<close> is the address of a new object and \<open>v0\<close> what \<^verbatim>\<open>T()\<close> makes; using a deleted key is undefined.\<close>

definition ThreadLocal_value :: "bool \<Rightarrow> 'v \<Rightarrow> 't \<Rightarrow> nat \<Rightarrow> ('t, 'v) ThreadLocal \<Rightarrow> (nat \<times> ('t, 'v) ThreadLocal) res" where
  "ThreadLocal_value dbg v0 t a s =
     (if \<not> tl_key s then Inl BadCall
      else
        let (p, s') = (case tl_specific s t of
            None \<Rightarrow> (Some a, s\<lparr>tl_heap := (tl_heap s)(a \<mapsto> v0), tl_specific := (tl_specific s)(t := Some a)\<rparr>)
          | Some p \<Rightarrow> (Some p, s))
        in cassert dbg (p \<noteq> None) (case p of None \<Rightarrow> Inl BadPointer | Some p \<Rightarrow> Inr (p, s')))"

definition ThreadLocal_destructor :: "nat \<Rightarrow> ('t, 'v) ThreadLocal \<Rightarrow> ('t, 'v) ThreadLocal res" where
  "ThreadLocal_destructor p s = (if tl_heap s p = None then Inl BadPointer else Inr (s\<lparr>tl_heap := (tl_heap s)(p := None)\<rparr>))"

section \<open>Threads\<close>

text \<open>A thread uses the object, assigns to it, or ends, which calls the destructor of a non-null value.\<close>

datatype ('t, 'v) local_event = Use 't nat | Assign 't nat 'v | End 't

fun local_event_run :: "bool \<Rightarrow> 'v \<Rightarrow> ('t, 'v) local_event \<Rightarrow> ('t, 'v) ThreadLocal \<Rightarrow> ('t, 'v) ThreadLocal res" where
  "local_event_run dbg v0 (Use t a) s = bindR (ThreadLocal_value dbg v0 t a s) (\<lambda>(p, s'). Inr s')"
| "local_event_run dbg v0 (Assign t a x) s = bindR (ThreadLocal_value dbg v0 t a s) (\<lambda>(p, s').
     if tl_heap s' p = None then Inl BadPointer else Inr (s'\<lparr>tl_heap := (tl_heap s')(p \<mapsto> x)\<rparr>))"
| "local_event_run dbg v0 (End t) s =
     (case tl_specific s t of
        None \<Rightarrow> Inr s
      | Some p \<Rightarrow> ThreadLocal_destructor p (s\<lparr>tl_specific := (tl_specific s)(t := None)\<rparr>))"

fun local_events_run :: "bool \<Rightarrow> 'v \<Rightarrow> ('t, 'v) local_event list \<Rightarrow> ('t, 'v) ThreadLocal \<Rightarrow> ('t, 'v) ThreadLocal res" where
  "local_events_run dbg v0 [] s = Inr s"
| "local_events_run dbg v0 (x # xs) s = bindR (local_event_run dbg v0 x s) (local_events_run dbg v0 xs)"

text \<open>The addresses that \<^verbatim>\<open>new\<close> would return are free.\<close>

fun local_fresh :: "('t, 'v) local_event \<Rightarrow> ('t, 'v) ThreadLocal \<Rightarrow> bool" where
  "local_fresh (Use t a) s = (tl_heap s a = None)"
| "local_fresh (Assign t a x) s = (tl_heap s a = None)"
| "local_fresh (End t) s = True"

fun local_all_fresh :: "bool \<Rightarrow> 'v \<Rightarrow> ('t, 'v) local_event list \<Rightarrow> ('t, 'v) ThreadLocal \<Rightarrow> bool" where
  "local_all_fresh dbg v0 [] s = True"
| "local_all_fresh dbg v0 (x # xs) s =
     (local_fresh x s \<and> (case local_event_run dbg v0 x s of Inl _ \<Rightarrow> True | Inr s' \<Rightarrow> local_all_fresh dbg v0 xs s'))"

text \<open>What a variable of the thread's own would hold.\<close>

fun own_event :: "'v \<Rightarrow> 't \<Rightarrow> ('t, 'v) local_event \<Rightarrow> 'v option \<Rightarrow> 'v option" where
  "own_event v0 t (Use u a) x = (if u = t \<and> x = None then Some v0 else x)"
| "own_event v0 t (Assign u a y) x = (if u = t then Some y else x)"
| "own_event v0 t (End u) x = (if u = t then None else x)"

definition local_get :: "'t \<Rightarrow> ('t, 'v) ThreadLocal \<Rightarrow> 'v option" where
  "local_get t s = (case tl_specific s t of None \<Rightarrow> None | Some p \<Rightarrow> tl_heap s p)"

section \<open>Invariant\<close>

definition ThreadLocal_inv :: "('t, 'v) ThreadLocal \<Rightarrow> bool" where
  "ThreadLocal_inv s \<longleftrightarrow> tl_key s \<and> dom (tl_heap s) = ran (tl_specific s) \<and>
     (\<forall>t u p. tl_specific s t = Some p \<and> tl_specific s u = Some p \<longrightarrow> t = u)"

lemma ThreadLocal_invI:
  "tl_key s \<Longrightarrow> dom (tl_heap s) = ran (tl_specific s) \<Longrightarrow>
   (\<And>t u p. tl_specific s t = Some p \<Longrightarrow> tl_specific s u = Some p \<Longrightarrow> t = u) \<Longrightarrow> ThreadLocal_inv s"
  unfolding ThreadLocal_inv_def by blast

lemma ThreadLocal_invD:
  "ThreadLocal_inv s \<Longrightarrow> tl_specific s t = Some p \<Longrightarrow> tl_specific s u = Some p \<Longrightarrow> t = u"
  unfolding ThreadLocal_inv_def by blast

lemma ThreadLocal_value_ok:
  assumes inv: "ThreadLocal_inv s" and a: "tl_heap s a = None"
  shows "returns (ThreadLocal_value dbg v0 t a s) (\<lambda>(p, s'). ThreadLocal_inv s' \<and> tl_specific s' t = Some p \<and> tl_heap s' p \<noteq> None \<and>
     (\<forall>u. local_get u s' = own_event v0 u (Use t a) (local_get u s)))"
proof (cases "tl_specific s t")
  case None
  have free: "tl_specific s u \<noteq> Some a" for u
  proof
    assume "tl_specific s u = Some a"
    then have "a \<in> dom (tl_heap s)" using inv by (auto simp: ThreadLocal_inv_def ran_def)
    then show False using a by auto
  qed
  have sets: "ran ((tl_specific s)(t \<mapsto> a)) = insert a (ran (tl_specific s))" "tl_key s" "dom (tl_heap s) = ran (tl_specific s)"
    using None inv by (simp_all add: ThreadLocal_inv_def)
  have inj: "u = w" if "((tl_specific s)(t \<mapsto> a)) u = Some p" "((tl_specific s)(t \<mapsto> a)) w = Some p" for u w p
  proof (cases "u = t \<or> w = t")
    case True
    then have "p = a" using that by auto
    then show ?thesis using that free by (metis fun_upd_other)
  next
    case False
    then show ?thesis using that by (intro ThreadLocal_invD [OF inv]) simp_all
  qed
  have "ThreadLocal_inv (s\<lparr>tl_heap := (tl_heap s)(a \<mapsto> v0), tl_specific := (tl_specific s)(t := Some a)\<rparr>)"
  proof (rule ThreadLocal_invI)
    fix u w p
    assume "tl_specific (s\<lparr>tl_heap := (tl_heap s)(a \<mapsto> v0), tl_specific := (tl_specific s)(t := Some a)\<rparr>) u = Some p"
      "tl_specific (s\<lparr>tl_heap := (tl_heap s)(a \<mapsto> v0), tl_specific := (tl_specific s)(t := Some a)\<rparr>) w = Some p"
    then show "u = w" by (intro inj) simp_all
  qed (simp_all add: sets)
  moreover have "local_get u (s\<lparr>tl_heap := (tl_heap s)(a \<mapsto> v0), tl_specific := (tl_specific s)(t := Some a)\<rparr>) =
      own_event v0 u (Use t a) (local_get u s)" for u
    using None free [of u] by (auto simp: local_get_def split: option.splits)
  moreover have "ThreadLocal_value dbg v0 t a s = Inr (a, s\<lparr>tl_heap := (tl_heap s)(a \<mapsto> v0), tl_specific := (tl_specific s)(t := Some a)\<rparr>)"
    using None sets(2) by (simp add: ThreadLocal_value_def cassert_holds)
  ultimately show ?thesis by simp
next
  case (Some p)
  then have "p \<in> dom (tl_heap s)" using inv by (auto simp: ThreadLocal_inv_def ran_def)
  then have "tl_heap s p \<noteq> None" by auto
  then show ?thesis
    using Some inv by (auto simp: ThreadLocal_value_def ThreadLocal_inv_def cassert_holds local_get_def)
qed

lemma local_event_ok:
  assumes inv: "ThreadLocal_inv s" and fresh: "local_fresh x s"
  shows "returns (local_event_run dbg v0 x s) (\<lambda>s'. ThreadLocal_inv s' \<and> (\<forall>u. local_get u s' = own_event v0 u x (local_get u s)))"
proof (cases x)
  case (Use t a)
  then have "tl_heap s a = None" using fresh by simp
  from ThreadLocal_value_ok [OF inv this, of dbg v0 t] show ?thesis using Use by (auto simp: returns_iff)
next
  case (Assign t a y)
  then have "tl_heap s a = None" using fresh by simp
  from ThreadLocal_value_ok [OF inv this, of dbg v0 t] obtain p s'
    where s': "ThreadLocal_value dbg v0 t a s = Inr (p, s')" "ThreadLocal_inv s'" "tl_specific s' t = Some p" "tl_heap s' p \<noteq> None"
      "\<forall>u. local_get u s' = own_event v0 u (Use t a) (local_get u s)"
    by (auto simp: returns_iff)
  then have "dom ((tl_heap s')(p \<mapsto> y)) = dom (tl_heap s')" by auto
  then have "ThreadLocal_inv (s'\<lparr>tl_heap := (tl_heap s')(p \<mapsto> y)\<rparr>)" using s'(2) by (simp add: ThreadLocal_inv_def)
  moreover have "local_get u (s'\<lparr>tl_heap := (tl_heap s')(p \<mapsto> y)\<rparr>) = own_event v0 u x (local_get u s)" for u
  proof (cases "u = t")
    case True
    then show ?thesis using s'(3) Assign by (simp add: local_get_def)
  next
    case False
    then have "tl_specific s' u \<noteq> Some p" using s'(2, 3) by (auto simp: ThreadLocal_inv_def)
    then have "local_get u (s'\<lparr>tl_heap := (tl_heap s')(p \<mapsto> y)\<rparr>) = local_get u s'" by (auto simp: local_get_def split: option.split)
    then show ?thesis using s'(5) False Assign by simp
  qed
  ultimately show ?thesis using Assign s'(1, 4) by simp
next
  case (End t)
  show ?thesis
  proof (cases "tl_specific s t")
    case None
    then show ?thesis using End inv by (auto simp: local_get_def)
  next
    case (Some p)
    then have p: "tl_heap s p \<noteq> None" using inv by (auto simp: ThreadLocal_inv_def ran_def)
    have other: "tl_specific s u \<noteq> Some p" if "u \<noteq> t" for u using Some inv that by (auto simp: ThreadLocal_inv_def)
    have "ran ((tl_specific s)(t := None)) = ran (tl_specific s) - {p}"
    proof -
      let ?f = "(tl_specific s)(t := None)"
      have "?f(t \<mapsto> p) = tl_specific s" using Some by auto
      then have "ran (tl_specific s) = insert p (ran ?f)" using ran_map_upd [of ?f t p] by simp
      moreover have "p \<notin> ran ?f" using other by (auto simp: ran_def)
      ultimately show ?thesis by simp
    qed
    then have "ThreadLocal_inv (s\<lparr>tl_specific := (tl_specific s)(t := None), tl_heap := (tl_heap s)(p := None)\<rparr>)"
      using inv by (auto simp: ThreadLocal_inv_def)
    moreover have "local_get u (s\<lparr>tl_specific := (tl_specific s)(t := None), tl_heap := (tl_heap s)(p := None)\<rparr>) =
        own_event v0 u x (local_get u s)" for u
      using other [of u] End by (auto simp: local_get_def split: option.splits)
    ultimately show ?thesis using End Some p by (simp add: ThreadLocal_destructor_def)
  qed
qed

section \<open>Properties\<close>

text \<open>
  Each thread has an object of its own: however the threads use it, assign to it and end, no call faults, and
  what a thread finds is what a variable that only it uses would hold, made anew after its end; the objects
  that exist are exactly those of the threads that have one. Destroying the thread-local object while threads
  have theirs deletes none of them.
\<close>

theorem ThreadLocal_private:
  assumes "local_all_fresh dbg v0 xs ThreadLocal_new"
  shows "returns (local_events_run dbg v0 xs ThreadLocal_new) (\<lambda>s.
    (\<forall>t. local_get t s = fold (own_event v0 t) xs None) \<and> dom (tl_heap s) = ran (tl_specific s) \<and>
    tl_heap (ThreadLocal_destroy s) = tl_heap s)"
proof -
  have "returns (local_events_run dbg v0 xs s) (\<lambda>s'. ThreadLocal_inv s' \<and>
      (\<forall>t. local_get t s' = fold (own_event v0 t) xs (local_get t s)))"
    if "ThreadLocal_inv s" "local_all_fresh dbg v0 xs s" for xs s
    using that
  proof (induction xs arbitrary: s)
    case (Cons x xs)
    obtain s1 where s1: "local_event_run dbg v0 x s = Inr s1" "ThreadLocal_inv s1" "\<forall>u. local_get u s1 = own_event v0 u x (local_get u s)"
      using local_event_ok [OF Cons.prems(1), of x dbg v0] Cons.prems(2) by (auto simp: returns_iff)
    then show ?case using Cons.IH [OF s1(2)] Cons.prems(2) by (simp del: local_event_run.simps)
  qed simp
  from this [OF _ assms]
  have "returns (local_events_run dbg v0 xs ThreadLocal_new) (\<lambda>s'. ThreadLocal_inv s' \<and>
      (\<forall>t. local_get t s' = fold (own_event v0 t) xs (local_get t ThreadLocal_new)))"
    by (simp add: ThreadLocal_inv_def ThreadLocal_new_def)
  then show ?thesis
    by (rule returns_mono) (simp add: ThreadLocal_inv_def ThreadLocal_destroy_def local_get_def ThreadLocal_new_def)
qed

theorem ThreadLocal_private_witness:
  "returns (local_events_run True (0 :: nat) [Use 1 10, Assign (2 :: nat) 20 7, Assign 1 30 5, End 2, Use 2 40] ThreadLocal_new)
     (\<lambda>s. local_get 1 s = Some 5 \<and> local_get 2 s = Some 0)"
proof -
  have "local_all_fresh True (0 :: nat) [Use 1 10, Assign (2 :: nat) 20 7, Assign 1 30 5, End 2, Use 2 40] ThreadLocal_new"
    by (simp add: ThreadLocal_new_def ThreadLocal_value_def cassert_holds ThreadLocal_destructor_def)
  then show ?thesis by (rule returns_mono [OF ThreadLocal_private]) simp
qed

end
