(* ===== verification/SocketApi.thy ===== *)
theory SocketApi
  imports Sockets
begin

unbundle bit_operations_syntax

text \<open>
  What a Socket of socket.h and socket.cc does with its descriptor once it has one: options, shutting down, closing
  (through sockets.cc), the text of the kernel's statistics, and what builds without accept4 do. The kernel's open sockets are a map, on which
  the calls act as they are documented to; what was logged is kept.
\<close>

section \<open>Open sockets\<close>

record ksocket =
  so_nodelay :: bool
  so_reuseaddr :: bool
  so_reuseport :: bool
  so_keepalive :: bool
  so_wrshut :: bool

datatype sockopt = TCP_NODELAY | SO_REUSEADDR | SO_REUSEPORT | SO_KEEPALIVE

record net =
  nt_sockets :: "int \<Rightarrow> ksocket option"
  nt_log :: "string list"

fun put_option :: "sockopt \<Rightarrow> bool \<Rightarrow> ksocket \<Rightarrow> ksocket" where
  "put_option TCP_NODELAY on s = s\<lparr>so_nodelay := on\<rparr>"
| "put_option SO_REUSEADDR on s = s\<lparr>so_reuseaddr := on\<rparr>"
| "put_option SO_REUSEPORT on s = s\<lparr>so_reuseport := on\<rparr>"
| "put_option SO_KEEPALIVE on s = s\<lparr>so_keepalive := on\<rparr>"

fun has_option :: "sockopt \<Rightarrow> ksocket \<Rightarrow> bool" where
  "has_option TCP_NODELAY s = so_nodelay s"
| "has_option SO_REUSEADDR s = so_reuseaddr s"
| "has_option SO_REUSEPORT s = so_reuseport s"
| "has_option SO_KEEPALIVE s = so_keepalive s"

text \<open>\<^verbatim>\<open>setsockopt\<close>, \<^verbatim>\<open>shutdown\<close> and \<^verbatim>\<open>close\<close> return -1 for a descriptor that is not open.\<close>

definition setsockopt :: "int \<Rightarrow> sockopt \<Rightarrow> int \<Rightarrow> net \<Rightarrow> int \<times> net" where
  "setsockopt fd opt optval w =
     (case nt_sockets w fd of
        None \<Rightarrow> (- 1, w)
      | Some s \<Rightarrow> (0, w\<lparr>nt_sockets := (nt_sockets w)(fd \<mapsto> put_option opt (optval \<noteq> 0) s)\<rparr>))"

definition shutdown_write :: "int \<Rightarrow> net \<Rightarrow> int \<times> net" where
  "shutdown_write fd w =
     (case nt_sockets w fd of
        None \<Rightarrow> (- 1, w)
      | Some s \<Rightarrow> (0, w\<lparr>nt_sockets := (nt_sockets w)(fd \<mapsto> s\<lparr>so_wrshut := True\<rparr>)\<rparr>))"

definition close_fd :: "int \<Rightarrow> net \<Rightarrow> int \<times> net" where
  "close_fd fd w =
     (case nt_sockets w fd of
        None \<Rightarrow> (- 1, w)
      | Some s \<Rightarrow> (0, w\<lparr>nt_sockets := (nt_sockets w)(fd := None)\<rparr>))"

text \<open>\<^verbatim>\<open>LOG_SYSERR\<close> when the call failed.\<close>

definition logged :: "string \<Rightarrow> int \<times> net \<Rightarrow> net" where
  "logged msg r = (if fst r < 0 then (snd r)\<lparr>nt_log := nt_log (snd r) @ [msg]\<rparr> else snd r)"

section \<open>sockets.cc and socket.cc\<close>

definition sockets_shutdownWrite :: "int \<Rightarrow> net \<Rightarrow> net" where
  "sockets_shutdownWrite sockfd w = logged ''sockets::shutdownwrite'' (shutdown_write sockfd w)"

definition sockets_close :: "int \<Rightarrow> net \<Rightarrow> net" where
  "sockets_close sockfd w = logged ''sockets::close'' (close_fd sockfd w)"

text \<open>A Socket is the descriptor it was made with.\<close>

record Socket =
  sk_sockfd :: int

definition Socket_new :: "int \<Rightarrow> Socket" where
  "Socket_new sockfd = \<lparr>sk_sockfd = sockfd\<rparr>"

definition Socket_fd :: "Socket \<Rightarrow> int" where
  "Socket_fd s = sk_sockfd s"

definition Socket_destroy :: "Socket \<Rightarrow> net \<Rightarrow> net" where
  "Socket_destroy s w = sockets_close (sk_sockfd s) w"

definition Socket_shutdownWrite :: "Socket \<Rightarrow> net \<Rightarrow> net" where
  "Socket_shutdownWrite s w = sockets_shutdownWrite (sk_sockfd s) w"

definition Socket_setTcpNoDelay :: "bool \<Rightarrow> Socket \<Rightarrow> net \<Rightarrow> net" where
  "Socket_setTcpNoDelay on s w =
     (let optval = (if on then 1 else 0) in logged ''TCP_NODELAY set error'' (setsockopt (sk_sockfd s) TCP_NODELAY optval w))"

definition Socket_setReuseAddr :: "bool \<Rightarrow> Socket \<Rightarrow> net \<Rightarrow> net" where
  "Socket_setReuseAddr on s w =
     (let optval = (if on then 1 else 0) in logged ''SO_REUSEADDR set error'' (setsockopt (sk_sockfd s) SO_REUSEADDR optval w))"

definition Socket_setReusePort :: "bool \<Rightarrow> Socket \<Rightarrow> net \<Rightarrow> net" where
  "Socket_setReusePort on s w =
     (let optval = (if on then 1 else 0) in logged ''SO_REUSEPORT set error'' (setsockopt (sk_sockfd s) SO_REUSEPORT optval w))"

definition Socket_setKeepAlive :: "bool \<Rightarrow> Socket \<Rightarrow> net \<Rightarrow> net" where
  "Socket_setKeepAlive on s w =
     (let optval = (if on then 1 else 0) in logged ''SO_KEEPALIVE set error'' (setsockopt (sk_sockfd s) SO_KEEPALIVE optval w))"

text \<open>
  The members of \<^verbatim>\<open>struct tcp_info\<close> that are printed; the first has 8 bits. \<open>getsockopt\<close> is the structure the kernel
  gives, \<open>None\<close> when the call fails; it is zeroed before.
\<close>

record tcp_info =
  tcpi_retransmits :: "8 word"
  tcpi_rto :: "32 word"
  tcpi_ato :: "32 word"
  tcpi_snd_mss :: "32 word"
  tcpi_rcv_mss :: "32 word"
  tcpi_lost :: "32 word"
  tcpi_retrans :: "32 word"
  tcpi_rtt :: "32 word"
  tcpi_rttvar :: "32 word"
  tcpi_snd_ssthresh :: "32 word"
  tcpi_snd_cwnd :: "32 word"
  tcpi_total_retrans :: "32 word"

definition zero_info :: tcp_info where
  "zero_info = \<lparr>tcpi_retransmits = 0, tcpi_rto = 0, tcpi_ato = 0, tcpi_snd_mss = 0, tcpi_rcv_mss = 0, tcpi_lost = 0,
     tcpi_retrans = 0, tcpi_rtt = 0, tcpi_rttvar = 0, tcpi_snd_ssthresh = 0, tcpi_snd_cwnd = 0, tcpi_total_retrans = 0\<rparr>"

definition Socket_getTcpInfo :: "tcp_info option \<Rightarrow> bool \<times> tcp_info" where
  "Socket_getTcpInfo r = (case r of None \<Rightarrow> (False, zero_info) | Some info \<Rightarrow> (True, info))"

text \<open>The fields with their labels, in the order of the format.\<close>

definition info_fields :: "tcp_info \<Rightarrow> (string \<times> nat) list" where
  "info_fields i =
     [(''unrecovered='', unat (tcpi_retransmits i)), ('' rto='', unat (tcpi_rto i)), ('' ato='', unat (tcpi_ato i)),
      ('' snd_mss='', unat (tcpi_snd_mss i)), ('' rcv_mss='', unat (tcpi_rcv_mss i)), ('' lost='', unat (tcpi_lost i)),
      ('' retrans='', unat (tcpi_retrans i)), ('' rtt='', unat (tcpi_rtt i)), ('' rttvar='', unat (tcpi_rttvar i)),
      ('' sshthresh='', unat (tcpi_snd_ssthresh i)), ('' cwnd='', unat (tcpi_snd_cwnd i)),
      ('' total_retrans='', unat (tcpi_total_retrans i))]"

definition info_text :: "tcp_info \<Rightarrow> string" where
  "info_text i = concat (map (\<lambda>(label, n). label @ dec_nat n) (info_fields i))"

text \<open>
  The result and the text in the array of \<open>room\<close> bytes at \<open>buf\<close>. \<^verbatim>\<open>snprintf\<close> is told the length converted to
  \<^verbatim>\<open>size_t\<close>, and writes nothing for zero.
\<close>

definition Socket_getTcpInfoString :: "tcp_info option \<Rightarrow> nat \<Rightarrow> string \<Rightarrow> int \<Rightarrow> (bool \<times> string) res" where
  "Socket_getTcpInfoString r room buf len =
     (let (ok, info) = Socket_getTcpInfo r in
      if ok
      then let n = size_of_int len; out = snprintf n (info_text info) in
           if n = 0 then Inr (ok, buf)
           else if length out < room then Inr (ok, out) else Inl OutOfBounds
      else Inr (ok, buf))"

section \<open>Calls on sockets\<close>

datatype socket_call = SetOption sockopt bool | ShutdownWrite | CloseSocket

fun socket_call_run :: "socket_call \<Rightarrow> Socket \<Rightarrow> net \<Rightarrow> net" where
  "socket_call_run (SetOption TCP_NODELAY on) s w = Socket_setTcpNoDelay on s w"
| "socket_call_run (SetOption SO_REUSEADDR on) s w = Socket_setReuseAddr on s w"
| "socket_call_run (SetOption SO_REUSEPORT on) s w = Socket_setReusePort on s w"
| "socket_call_run (SetOption SO_KEEPALIVE on) s w = Socket_setKeepAlive on s w"
| "socket_call_run ShutdownWrite s w = Socket_shutdownWrite s w"
| "socket_call_run CloseSocket s w = Socket_destroy s w"

fun socket_calls_run :: "(int \<times> socket_call) list \<Rightarrow> net \<Rightarrow> net" where
  "socket_calls_run [] w = w"
| "socket_calls_run ((fd, c) # cs) w = socket_calls_run cs (socket_call_run c (Socket_new fd) w)"

text \<open>What is expected: the calls on one descriptor alone decide what becomes of it.\<close>

fun call_on :: "socket_call \<Rightarrow> ksocket option \<Rightarrow> ksocket option" where
  "call_on c None = None"
| "call_on (SetOption opt on) (Some s) = Some (put_option opt on s)"
| "call_on ShutdownWrite (Some s) = Some (s\<lparr>so_wrshut := True\<rparr>)"
| "call_on CloseSocket (Some s) = None"

definition calls_of :: "int \<Rightarrow> (int \<times> socket_call) list \<Rightarrow> socket_call list" where
  "calls_of fd cs = map snd (filter (\<lambda>(fd', c). fd' = fd) cs)"

lemma calls_of_simps [simp]:
  "calls_of fd [] = []" "calls_of fd ((fd', c) # cs) = (if fd' = fd then c # calls_of fd cs else calls_of fd cs)"
  by (simp_all add: calls_of_def)

lemmas socket_defs = Socket_setTcpNoDelay_def Socket_setReuseAddr_def Socket_setReusePort_def Socket_setKeepAlive_def
  Socket_shutdownWrite_def Socket_destroy_def sockets_shutdownWrite_def sockets_close_def Socket_new_def
  setsockopt_def shutdown_write_def close_fd_def logged_def Let_def

lemma call_run_sockets:
  "nt_sockets (socket_call_run c (Socket_new fd) w) = (nt_sockets w)(fd := call_on c (nt_sockets w fd))"
proof (cases "nt_sockets w fd")
  case None
  then show ?thesis by (induction c "Socket_new fd" w rule: socket_call_run.induct) (auto simp: socket_defs fun_upd_idem)
next
  case (Some s)
  then show ?thesis by (induction c "Socket_new fd" w rule: socket_call_run.induct) (auto simp: socket_defs)
qed

lemma call_run_log:
  "nt_sockets w fd \<noteq> None \<Longrightarrow> nt_log (socket_call_run c (Socket_new fd) w) = nt_log w"
  "nt_sockets w fd = None \<Longrightarrow> length (nt_log (socket_call_run c (Socket_new fd) w)) = Suc (length (nt_log w))"
  by (induction c "Socket_new fd" w rule: socket_call_run.induct) (auto simp: socket_defs)

lemma calls_run_sockets: "nt_sockets (socket_calls_run cs w) fd = fold call_on (calls_of fd cs) (nt_sockets w fd)"
  by (induction cs w rule: socket_calls_run.induct) (simp_all add: call_run_sockets)

lemma fold_call_on_None [simp]: "fold call_on cs None = None"
  by (induction cs) simp_all

text \<open>The last value given to an option, and what it was before when none was given.\<close>

definition last_option :: "sockopt \<Rightarrow> bool \<Rightarrow> socket_call list \<Rightarrow> bool" where
  "last_option opt before cs = fold (\<lambda>c on. case c of SetOption opt' on' \<Rightarrow> if opt' = opt then on' else on | _ \<Rightarrow> on) cs before"

lemma last_option_simps [simp]:
  "last_option opt b [] = b"
  "last_option opt b (SetOption opt' on # cs) = last_option opt (if opt' = opt then on else b) cs"
  "last_option opt b (ShutdownWrite # cs) = last_option opt b cs"
  by (simp_all add: last_option_def)

lemma get_set_option [simp]: "has_option opt (put_option opt' on s) = (if opt' = opt then on else has_option opt s)"
  by (cases opt; cases opt') simp_all

lemma get_option_shut [simp]:
  "has_option opt (s\<lparr>so_wrshut := x\<rparr>) = has_option opt s" "so_wrshut (put_option opt on s) = so_wrshut s"
  by (cases opt; simp)+

lemma fold_call_on:
  "if CloseSocket \<in> set cs then fold call_on cs (Some s) = None
   else \<exists>s'. fold call_on cs (Some s) = Some s' \<and> (\<forall>opt. has_option opt s' = last_option opt (has_option opt s) cs) \<and>
      so_wrshut s' = (so_wrshut s \<or> ShutdownWrite \<in> set cs)"
proof (induction cs arbitrary: s)
  case (Cons c cs)
  show ?case
  proof (cases c)
    case (SetOption opt on)
    then show ?thesis using Cons.IH [of "put_option opt on s"] by (simp cong: if_cong)
  next
    case ShutdownWrite
    then show ?thesis using Cons.IH [of "s\<lparr>so_wrshut := True\<rparr>"] by auto
  qed simp
qed simp

section \<open>Without accept4\<close>

text \<open>
  Builds with VALGRIND or NO_ACCEPT4 set the flags of a descriptor with \<^verbatim>\<open>fcntl\<close>. The open descriptors are a map
  to their status flags and their descriptor flags; \<^verbatim>\<open>fcntl\<close> fails for a descriptor that is not open.
\<close>

type_synonym open_files = "int \<Rightarrow> (int \<times> int) option"

datatype fcntl_cmd = F_GETFL | F_SETFL int | F_GETFD | F_SETFD int

definition O_RDWR :: int where "O_RDWR = 2"
definition O_NONBLOCK :: int where "O_NONBLOCK = 2048"
definition FD_CLOEXEC :: int where "FD_CLOEXEC = 1"

definition fcntl :: "int \<Rightarrow> fcntl_cmd \<Rightarrow> open_files \<Rightarrow> int \<times> open_files" where
  "fcntl fd cmd files =
     (case files fd of
        None \<Rightarrow> (- 1, files)
      | Some (fl, fdfl) \<Rightarrow>
          (case cmd of
             F_GETFL \<Rightarrow> (fl, files)
           | F_SETFL flags \<Rightarrow> (0, files(fd \<mapsto> (flags, fdfl)))
           | F_GETFD \<Rightarrow> (fdfl, files)
           | F_SETFD flags \<Rightarrow> (0, files(fd \<mapsto> (fl, flags)))))"

text \<open>The flags that \<^verbatim>\<open>fcntl\<close> returned are not checked before they are set again.\<close>

definition setNonBlockAndCloseOnExec :: "int \<Rightarrow> open_files \<Rightarrow> open_files res" where
  "setNonBlockAndCloseOnExec sockfd files =
     (let (flags, files) = fcntl sockfd F_GETFL files;
          flags = flags OR O_NONBLOCK;
          (ret, files) = fcntl sockfd (F_SETFL flags) files in
      if ret < 0 then Inl FatalAbort
      else
        (let (flags, files) = fcntl sockfd F_GETFD files;
             flags = flags OR FD_CLOEXEC;
             (ret, files) = fcntl sockfd (F_SETFD flags) files in
         if ret < 0 then Inl FatalAbort else Inr files))"

definition sockets_accept_plain ::
  "accept_result \<Rightarrow> sockaddr \<Rightarrow> open_files \<Rightarrow> ((int \<times> sockaddr \<times> int) \<times> open_files) res" where
  "sockets_accept_plain r addr files =
     (let connfd = (case r of AcceptOk connfd a \<Rightarrow> connfd | AcceptErr savedErrno \<Rightarrow> - 1) in
      bindR (setNonBlockAndCloseOnExec connfd files) (\<lambda>files.
      bindR (sockets_accept r addr) (\<lambda>result. Inr (result, files))))"

definition createNonblockingOrDie_valgrind :: "int \<Rightarrow> open_files \<Rightarrow> (int \<times> open_files) res" where
  "createNonblockingOrDie_valgrind sockfd files =
     (if sockfd < 0 then Inl FatalAbort
      else bindR (setNonBlockAndCloseOnExec sockfd files) (\<lambda>files. Inr (sockfd, files)))"

text \<open>What the kernel opens: \<^verbatim>\<open>accept\<close> a descriptor without flags, \<^verbatim>\<open>accept4\<close> and \<^verbatim>\<open>socket\<close> one with both.\<close>

definition opened :: "int \<Rightarrow> bool \<Rightarrow> open_files \<Rightarrow> open_files" where
  "opened fd flagged files = files(fd \<mapsto> (if flagged then (O_RDWR OR O_NONBLOCK, FD_CLOEXEC) else (O_RDWR, 0)))"

lemma setNonBlock_open:
  "files fd = Some (fl, fdfl) \<Longrightarrow>
   setNonBlockAndCloseOnExec fd files = Inr (files(fd \<mapsto> (fl OR O_NONBLOCK, fdfl OR FD_CLOEXEC)))"
  by (simp add: setNonBlockAndCloseOnExec_def fcntl_def)

lemma setNonBlock_closed: "files fd = None \<Longrightarrow> setNonBlockAndCloseOnExec fd files = Inl FatalAbort"
  by (simp add: setNonBlockAndCloseOnExec_def fcntl_def)

section \<open>Properties\<close>

text \<open>
  Sockets are independent. After any sequence of option settings, shutdowns and closings of any descriptors,
  each descriptor is in the state its own calls lead to: closed if one of them closed it; otherwise every
  option has the value given last, or the one it had, and the write side is shut down exactly if it was or a
  call did it. A call on an open descriptor logs nothing, one on a closed descriptor logs one error and
  changes nothing.
\<close>

theorem Socket_calls_independent:
  "(\<forall>s. nt_sockets w fd = Some s \<longrightarrow>
      (if CloseSocket \<in> set (calls_of fd cs) then nt_sockets (socket_calls_run cs w) fd = None
       else \<exists>s'. nt_sockets (socket_calls_run cs w) fd = Some s' \<and>
         (\<forall>opt. has_option opt s' = last_option opt (has_option opt s) (calls_of fd cs)) \<and>
         so_wrshut s' = (so_wrshut s \<or> ShutdownWrite \<in> set (calls_of fd cs)))) \<and>
   (nt_sockets w fd = None \<longrightarrow> nt_sockets (socket_calls_run cs w) fd = None) \<and>
   (let w' = socket_call_run c (Socket_new fd) w in
      length (nt_log w') = length (nt_log w) + (if nt_sockets w fd = None then 1 else 0) \<and>
      (nt_sockets w fd = None \<longrightarrow> nt_sockets w' = nt_sockets w))"
  using fold_call_on [of "calls_of fd cs"] call_run_log [of w fd c]
  by (auto simp: calls_run_sockets call_run_sockets Let_def fun_upd_idem)

lemma length_info_text: "length (info_text i) \<le> 213"
proof -
  have w: "length (dec_nat (unat x)) \<le> 10" for x :: "32 word"
  proof (rule length_dec_nat)
    have "unat x < 2 ^ LENGTH(32)" by (rule unsigned_less)
    then show "unat x < 10 ^ 10" by simp
  qed simp
  have b: "length (dec_nat (unat x)) \<le> 3" for x :: "8 word"
  proof (rule length_dec_nat)
    have "unat x < 2 ^ LENGTH(8)" by (rule unsigned_less)
    then show "unat x < 10 ^ 3" by simp
  qed simp
  show ?thesis
    using b [of "tcpi_retransmits i"] w [of "tcpi_rto i"] w [of "tcpi_ato i"] w [of "tcpi_snd_mss i"] w [of "tcpi_rcv_mss i"]
      w [of "tcpi_lost i"] w [of "tcpi_retrans i"] w [of "tcpi_rtt i"] w [of "tcpi_rttvar i"] w [of "tcpi_snd_ssthresh i"]
      w [of "tcpi_snd_cwnd i"] w [of "tcpi_total_retrans i"]
    by (simp add: info_text_def info_fields_def)
qed

text \<open>
  The text of the statistics. It has at most 213 characters, so an array of 214 bytes always takes it in full;
  any array whose length is told truthfully gets a prefix of it with its terminator. A negative length, which
  becomes a very large one, overruns every array that is too small for the text (with a library that takes lengths
  above INT_MAX, as glibc does).
\<close>

theorem Socket_tcpInfo_bounds:
  shows "(0 < len \<and> len \<le> int room \<and> room < 2 ^ 64 \<longrightarrow>
      Socket_getTcpInfoString (Some info) room buf len = Inr (True, take (nat len - 1) (info_text info))) \<and>
    (214 \<le> len \<and> len \<le> int room \<and> room < 2 ^ 64 \<longrightarrow> Socket_getTcpInfoString (Some info) room buf len = Inr (True, info_text info)) \<and>
    (len < 0 \<and> - (2 ^ 31) \<le> len \<and> room \<le> length (info_text info) \<longrightarrow>
      Socket_getTcpInfoString (Some info) room buf len = Inl OutOfBounds) \<and>
    Socket_getTcpInfoString None room buf len = Inr (False, buf)"
proof -
  have neg: "213 < size_of_int len - 1" if "len < 0" "- (2 ^ 31) \<le> len"
    using that by (simp add: size_of_int_neg)
  have pos: "size_of_int len = nat len" if "0 < len" "len \<le> int room" "room < 2 ^ 64"
    using that by (intro size_of_int_exact) simp_all
  show ?thesis
    using length_info_text [of info] neg pos
    by (auto simp: Socket_getTcpInfoString_def Socket_getTcpInfo_def snprintf_def Let_def)
qed

theorem Socket_tcpInfo_bounds_witness:
  "Socket_getTcpInfoString (Some zero_info) 16 [] 16 = Inr (True, ''unrecovered=0 r'') \<and>
   Socket_getTcpInfoString (Some zero_info) 16 [] (- 1) = Inl OutOfBounds"
proof -
  have "dec_nat 0 = ''0''" by (simp add: dec_nat.simps digit_char_simps)
  then have t: "info_text zero_info = ''unrecovered=0 rto=0 ato=0 snd_mss=0 rcv_mss=0 lost=0 retrans=0 rtt=0 rttvar=0 sshthresh=0 cwnd=0 total_retrans=0''"
    by (simp add: info_text_def info_fields_def zero_info_def)
  have "take 15 (info_text zero_info) = ''unrecovered=0 r''" unfolding t by simp
  moreover have "16 \<le> length (info_text zero_info)" unfolding t by simp
  moreover have "Socket_getTcpInfoString (Some zero_info) 16 [] 16 = Inr (True, take 15 (info_text zero_info))"
    using Socket_tcpInfo_bounds [of 16 16 zero_info "[]"] by simp
  ultimately show ?thesis
    using Socket_tcpInfo_bounds [of "- 1" 16 zero_info "[]"] by simp
qed

text \<open>One socket gets an option and is shut down, another is closed twice.\<close>

definition two_sockets :: net where
  "two_sockets = \<lparr>nt_sockets = (\<lambda>_. None)(3 \<mapsto> \<lparr>so_nodelay = False, so_reuseaddr = False, so_reuseport = False,
       so_keepalive = False, so_wrshut = False\<rparr>, 4 \<mapsto> \<lparr>so_nodelay = True, so_reuseaddr = True, so_reuseport = True,
       so_keepalive = True, so_wrshut = False\<rparr>), nt_log = []\<rparr>"

theorem Socket_calls_independent_witness:
  "\<exists>s. nt_sockets (socket_calls_run [(3, SetOption TCP_NODELAY True), (4, CloseSocket), (3, ShutdownWrite), (4, CloseSocket)] two_sockets) 3 =
     Some s \<and> so_nodelay s \<and> so_wrshut s \<and> \<not> so_keepalive s"
proof -
  let ?cs = "[(3, SetOption TCP_NODELAY True), (4, CloseSocket), (3, ShutdownWrite), (4, CloseSocket)]"
  obtain s where "nt_sockets (socket_calls_run ?cs two_sockets) 3 = Some s" "so_wrshut s"
      "\<And>opt. has_option opt s = last_option opt False (calls_of 3 ?cs) \<or> opt \<notin> {TCP_NODELAY, SO_KEEPALIVE}"
    using Socket_calls_independent [of two_sockets 3 ?cs] by (simp add: two_sockets_def cong: if_cong) fastforce
  from this(1, 2) this(3) [of TCP_NODELAY] this(3) [of SO_KEEPALIVE] show ?thesis by auto
qed

text \<open>
  C25. The two builds of accept differ when it fails. An accepted descriptor ends with the same flags and the same
  address in both, and a new socket has both flags in both. When accept fails with an error that the code
  means to survive (no connection there any more, no descriptor left), the build with accept4 returns -1 and the
  error; the other one gives -1 to fcntl before it looks at the error, and every failure ends the program.
\<close>

theorem accept_builds:
  assumes "files (- 1) = None" "0 \<le> fd"
  shows "sockets_accept_plain (AcceptOk fd a) addr (opened fd False files) = Inr ((fd, a, 0), opened fd True files) \<and>
    sockets_accept (AcceptOk fd a) addr = Inr (fd, a, 0) \<and>
    createNonblockingOrDie_valgrind fd (opened fd True files) = Inr (fd, opened fd True files) \<and>
    createNonblockingOrDie fd = Inr fd \<and>
    (e \<in> {EAGAIN, ECONNABORTED, EINTR, EPROTO, EPERM, EMFILE} \<longrightarrow> sockets_accept (AcceptErr e) addr = Inr (- 1, addr, e)) \<and>
    sockets_accept_plain (AcceptErr e) addr files = Inl FatalAbort"
proof -
  have flags: "(O_RDWR OR O_NONBLOCK) OR O_NONBLOCK = O_RDWR OR O_NONBLOCK" "FD_CLOEXEC OR FD_CLOEXEC = FD_CLOEXEC" "0 OR FD_CLOEXEC = FD_CLOEXEC"
    by (simp_all add: O_RDWR_def O_NONBLOCK_def FD_CLOEXEC_def)
  have "sockets_accept_plain (AcceptOk fd a) addr (opened fd False files) = Inr ((fd, a, 0), opened fd True files)"
    using setNonBlock_open [of "opened fd False files" fd O_RDWR 0]
    by (simp add: sockets_accept_plain_def sockets_accept_def opened_def flags)
  moreover have "createNonblockingOrDie_valgrind fd (opened fd True files) = Inr (fd, opened fd True files)"
    using setNonBlock_open [of "opened fd True files" fd "O_RDWR OR O_NONBLOCK" FD_CLOEXEC] assms(2)
    by (simp add: createNonblockingOrDie_valgrind_def opened_def flags)
  moreover have "sockets_accept_plain (AcceptErr e) addr files = Inl FatalAbort"
    using setNonBlock_closed [of files "- 1"] assms(1) by (simp add: sockets_accept_plain_def)
  ultimately show ?thesis using assms(2) by (auto simp: sockets_accept_def createNonblockingOrDie_def)
qed

text \<open>Descriptor 5 is accepted; later there are no descriptors left.\<close>

theorem accept_builds_witness:
  "sockets_accept_plain (AcceptOk 5 zero_in6) zero_in6 [5 \<mapsto> (2, 0)] = Inr ((5, zero_in6, 0), [5 \<mapsto> (2050, 1)]) \<and>
   sockets_accept (AcceptErr EMFILE) zero_in6 = Inr (- 1, zero_in6, EMFILE) \<and>
   sockets_accept_plain (AcceptErr EMFILE) zero_in6 (\<lambda>_. None) = Inl FatalAbort"
  using accept_builds [of "\<lambda>_. None" 5 zero_in6 zero_in6 EMFILE]
  by (simp add: opened_def O_RDWR_def O_NONBLOCK_def FD_CLOEXEC_def)

end
