(* ===== verification/Views.thy ===== *)
theory Views
  imports Buffer
begin

text \<open>
  The classes that refer to objects they do not own: StringArg and StringView of stringview.h, which hold a pointer to
  characters of somebody else, and WeakCallback of weakcallback.h, which calls a member function if the object is
  still there. Memory is a map from blocks to bytes; shared objects have the count of their owners, the variables of the
  program say whom they own.
\<close>

section \<open>Pointers to characters\<close>

datatype char_ptr = NullPtr | At nat nat

type_synonym blocks = "nat \<Rightarrow> byte list option"

text \<open>\<open>len\<close> bytes read from a pointer, and \<^verbatim>\<open>strlen\<close>.\<close>

definition read_at :: "blocks \<Rightarrow> char_ptr \<Rightarrow> nat \<Rightarrow> byte list res" where
  "read_at mem p len =
     (if len = 0 then Inr []
      else case p of
        NullPtr \<Rightarrow> Inl BadPointer
      | At a i \<Rightarrow> (case mem a of None \<Rightarrow> Inl BadPointer | Some bs \<Rightarrow> copy_from bs i len))"

definition strlen :: "blocks \<Rightarrow> char_ptr \<Rightarrow> nat res" where
  "strlen mem p =
     (case p of
        NullPtr \<Rightarrow> Inl BadPointer
      | At a i \<Rightarrow>
          (case mem a of
             None \<Rightarrow> Inl BadPointer
           | Some bs \<Rightarrow>
               let n = length (takeWhile (\<lambda>b. b \<noteq> 0) (drop i bs))
               in if i + n < length bs then Inr n else Inl OutOfBounds))"

text \<open>A \<^verbatim>\<open>std::string\<close> at \<open>a\<close> with these characters: they lie in the block, with a terminator.\<close>

definition string_at :: "blocks \<Rightarrow> nat \<Rightarrow> byte list \<Rightarrow> bool" where
  "string_at mem a s \<longleftrightarrow> mem a = Some (s @ [0])"

definition string_size :: "blocks \<Rightarrow> nat \<Rightarrow> nat res" where
  "string_size mem a = (case mem a of None \<Rightarrow> Inl BadPointer | Some bs \<Rightarrow> Inr (length bs - 1))"

section \<open>StringArg and StringView\<close>

record StringArg =
  sg_str :: char_ptr

definition StringArg_cstr :: "char_ptr \<Rightarrow> StringArg" where
  "StringArg_cstr str = \<lparr>sg_str = str\<rparr>"

definition StringArg_string :: "nat \<Rightarrow> StringArg" where
  "StringArg_string s = \<lparr>sg_str = At s 0\<rparr>"

definition StringArg_c_str :: "StringArg \<Rightarrow> char_ptr" where
  "StringArg_c_str a = sg_str a"

record StringView =
  sv_data :: char_ptr
  sv_length :: nat

definition StringView_new :: StringView where
  "StringView_new = \<lparr>sv_data = NullPtr, sv_length = 0\<rparr>"

definition StringView_cstr :: "blocks \<Rightarrow> char_ptr \<Rightarrow> StringView res" where
  "StringView_cstr mem cstr = bindR (strlen mem cstr) (\<lambda>n. Inr \<lparr>sv_data = cstr, sv_length = n\<rparr>)"

definition StringView_string :: "blocks \<Rightarrow> nat \<Rightarrow> StringView res" where
  "StringView_string mem str = bindR (string_size mem str) (\<lambda>n. Inr \<lparr>sv_data = At str 0, sv_length = n\<rparr>)"

definition StringView_range :: "char_ptr \<Rightarrow> nat \<Rightarrow> StringView" where
  "StringView_range dataArg len = \<lparr>sv_data = dataArg, sv_length = len\<rparr>"

definition StringView_data :: "StringView \<Rightarrow> char_ptr" where
  "StringView_data v = sv_data v"

definition StringView_size :: "StringView \<Rightarrow> nat" where
  "StringView_size v = sv_length v"

definition StringView_begin :: "StringView \<Rightarrow> char_ptr" where
  "StringView_begin v = StringView_data v"

definition ptr_add :: "char_ptr \<Rightarrow> nat \<Rightarrow> char_ptr" where
  "ptr_add p n = (case p of NullPtr \<Rightarrow> NullPtr | At a i \<Rightarrow> At a (i + n))"

definition StringView_end :: "StringView \<Rightarrow> char_ptr" where
  "StringView_end v = ptr_add (StringView_begin v) (StringView_size v)"

text \<open>The constructor of \<^verbatim>\<open>std::string\<close> from a null pointer and a length that is not zero throws.\<close>

definition StringView_toString :: "blocks \<Rightarrow> StringView \<Rightarrow> byte list res" where
  "StringView_toString mem v =
     (if sv_data v = NullPtr \<and> 0 < sv_length v
      then Inl (LogicError ''basic_string: construction from null is not valid'')
      else read_at mem (sv_data v) (sv_length v))"

section \<open>Views of a buffer\<close>

text \<open>
  The vector of a buffer is the block at \<open>a\<close>. \<^verbatim>\<open>append\<close> of a view makes room first and reads the view after
  that; when the vector grew, \<open>moved\<close> says whether it had to take another block, as it does when its capacity is
  used up, and the old block is gone then.
\<close>

definition Buffer_view :: "nat \<Rightarrow> Buffer \<Rightarrow> StringView" where
  "Buffer_view a b = StringView_range (At a (b_readerIndex b)) (Buffer_readableBytes b)"

definition storage_after :: "bool \<Rightarrow> nat \<Rightarrow> Buffer \<Rightarrow> Buffer \<Rightarrow> blocks \<Rightarrow> blocks" where
  "storage_after moved a b b' mem =
     (if length (b_buffer b') \<noteq> length (b_buffer b) \<and> moved then mem(a := None) else mem(a \<mapsto> b_buffer b'))"

definition Buffer_append_view :: "bool \<Rightarrow> bool \<Rightarrow> blocks \<Rightarrow> nat \<Rightarrow> Buffer \<Rightarrow> StringView \<Rightarrow> Buffer res" where
  "Buffer_append_view dbg moved mem a b view =
     bindR (Buffer_ensureWritableBytes dbg b (sv_length view)) (\<lambda>b'.
     bindR (read_at (storage_after moved a b b' mem) (sv_data view) (sv_length view)) (\<lambda>data.
     bindR (copy_to (b_buffer b') (b_writerIndex b') data) (\<lambda>v.
       Buffer_hasWritten dbg (b'\<lparr>b_buffer := v\<rparr>) (length data))))"

section \<open>WeakCallback\<close>

text \<open>
  Objects owned through \<^verbatim>\<open>shared_ptr\<close>: for each that is alive the count in its control block, the
  variables of the program that own objects, and the objects destroyed so far, in order. The control block outlives the
  object while there are weak pointers, so an address that is gone stays gone.
\<close>

record 'o shared_world =
  sw_objects :: "nat \<Rightarrow> (nat \<times> 'o) option"
  sw_vars :: "nat \<Rightarrow> nat option"
  sw_destroyed :: "nat list"

text \<open>
  A new reference, empty when the object is gone: \<^verbatim>\<open>weak_ptr::lock\<close>, or the copy of a reference. The end of a
  reference destroys the object when the count comes to zero.
\<close>

definition weak_lock :: "nat option \<Rightarrow> 'o shared_world \<Rightarrow> nat option \<times> 'o shared_world" where
  "weak_lock object w =
     (case object of
        None \<Rightarrow> (None, w)
      | Some p \<Rightarrow>
          (case sw_objects w p of
             None \<Rightarrow> (None, w)
           | Some (n, ob) \<Rightarrow> (Some p, w\<lparr>sw_objects := (sw_objects w)(p \<mapsto> (Suc n, ob))\<rparr>)))"

definition shared_release :: "nat \<Rightarrow> 'o shared_world \<Rightarrow> 'o shared_world res" where
  "shared_release p w =
     (case sw_objects w p of
        None \<Rightarrow> Inl BadPointer
      | Some (n, ob) \<Rightarrow>
          Inr (if n \<le> 1 then w\<lparr>sw_objects := (sw_objects w)(p := None), sw_destroyed := sw_destroyed w @ [p]\<rparr>
               else w\<lparr>sw_objects := (sw_objects w)(p \<mapsto> (n - 1, ob))\<rparr>))"

text \<open>A variable takes over a reference that is counted already and lets its old one go.\<close>

definition shared_assign :: "nat \<Rightarrow> nat option \<Rightarrow> 'o shared_world \<Rightarrow> 'o shared_world res" where
  "shared_assign x new w =
     (let w' = w\<lparr>sw_vars := (sw_vars w)(x := new)\<rparr> in
      case sw_vars w x of None \<Rightarrow> Inr w' | Some q \<Rightarrow> shared_release q w')"

record ('o, 'a) WeakCallback =
  wk_object :: "nat option"
  wk_function :: "nat \<Rightarrow> 'a \<Rightarrow> 'o shared_world \<Rightarrow> 'o shared_world res"

definition WeakCallback_new ::
  "nat option \<Rightarrow> (nat \<Rightarrow> 'a \<Rightarrow> 'o shared_world \<Rightarrow> 'o shared_world res) \<Rightarrow> ('o, 'a) WeakCallback" where
  "WeakCallback_new object function' = \<lparr>wk_object = object, wk_function = function'\<rparr>"

text \<open>The local \<^verbatim>\<open>ptr\<close> is a reference of the call's own, let go when the call returns.\<close>

definition WeakCallback_call :: "('o, 'a) WeakCallback \<Rightarrow> 'a \<Rightarrow> 'o shared_world \<Rightarrow> 'o shared_world res" where
  "WeakCallback_call cb args w =
     (case weak_lock (wk_object cb) w of
        (None, w') \<Rightarrow> Inr w'
      | (Some p, w') \<Rightarrow> bindR (wk_function cb p args w') (shared_release p))"

definition makeWeakCallback ::
  "nat \<Rightarrow> (nat \<Rightarrow> 'a \<Rightarrow> 'o shared_world \<Rightarrow> 'o shared_world res) \<Rightarrow> ('o, 'a) WeakCallback" where
  "makeWeakCallback object function' = WeakCallback_new (Some object) function'"

text \<open>
  A member function of the object at \<open>p\<close>, given by what it does to objects and owners: it uses its own object
  through the raw pointer, copies one variable to another or clears it, locks a weak pointer to any object into
  a variable, or calls another weak callback, whose function does such things in turn. The names of the variables are
  those of the program; the local of \<^verbatim>\<open>operator()\<close> has no name that a function could use.
\<close>

datatype 'o shared_op =
    UseThis "'o \<Rightarrow> 'o"
  | CopyPtr nat nat
  | ResetPtr nat
  | LockInto nat nat
  | CallWeak nat "'o shared_op list"

fun run_shared :: "nat \<Rightarrow> 'o shared_op list \<Rightarrow> 'o shared_world \<Rightarrow> 'o shared_world res" where
  "run_shared p [] w = Inr w"
| "run_shared p (UseThis g # xs) w =
     (case sw_objects w p of
        None \<Rightarrow> Inl BadPointer
      | Some (n, ob) \<Rightarrow> run_shared p xs (w\<lparr>sw_objects := (sw_objects w)(p \<mapsto> (n, g ob))\<rparr>))"
| "run_shared p (CopyPtr x y # xs) w =
     bindR (let (new, w') = weak_lock (sw_vars w y) w in shared_assign x new w') (run_shared p xs)"
| "run_shared p (ResetPtr x # xs) w = bindR (shared_assign x None w) (run_shared p xs)"
| "run_shared p (LockInto x q # xs) w =
     bindR (let (new, w') = weak_lock (Some q) w in shared_assign x new w') (run_shared p xs)"
| "run_shared p (CallWeak q ys # xs) w =
     bindR (case weak_lock (Some q) w of
              (None, w') \<Rightarrow> Inr w'
            | (Some _, w') \<Rightarrow> bindR (run_shared q ys w') (shared_release q)) (run_shared p xs)"

definition member_function ::
  "(nat \<Rightarrow> 'a \<Rightarrow> 'o shared_world \<Rightarrow> 'o shared_op list) \<Rightarrow> nat \<Rightarrow> 'a \<Rightarrow> 'o shared_world \<Rightarrow> 'o shared_world res" where
  "member_function body p args w = run_shared p (body p args w) w"

text \<open>
  The counts are right: an object that is alive has as many owners as its count says, among the variables and among
  the locals \<open>ls\<close> of the calls in progress, and at least one; nobody owns one that is gone; none is destroyed
  twice.
\<close>

definition owners :: "(nat \<Rightarrow> nat option) \<Rightarrow> nat \<Rightarrow> nat" where
  "owners v p = card {x. v x = Some p}"

definition count_ok :: "nat list \<Rightarrow> 'o shared_world \<Rightarrow> nat \<Rightarrow> bool" where
  "count_ok ls w p \<longleftrightarrow>
     (case sw_objects w p of
        None \<Rightarrow> (\<forall>x. sw_vars w x \<noteq> Some p) \<and> p \<notin> set ls
      | Some (n, ob) \<Rightarrow> 0 < n \<and> n = owners (sw_vars w) p + count_list ls p)"

definition shared_ok :: "nat list \<Rightarrow> 'o shared_world \<Rightarrow> bool" where
  "shared_ok ls w \<longleftrightarrow> finite (dom (sw_vars w)) \<and> distinct (sw_destroyed w) \<and>
     (\<forall>p \<in> set (sw_destroyed w). sw_objects w p = None) \<and> (\<forall>p. count_ok ls w p)"

section \<open>Lemmas\<close>

lemma read_at_block: "mem a = Some bs \<Longrightarrow> i + len \<le> length bs \<Longrightarrow> read_at mem (At a i) len = Inr (slice bs i (i + len))"
  by (simp add: read_at_def copy_from_def)

lemma strlen_string:
  assumes "string_at mem a s"
  shows "strlen mem (At a 0) = Inr (length (takeWhile (\<lambda>b. b \<noteq> 0) s))"
proof -
  have "takeWhile (\<lambda>b. b \<noteq> 0) (s @ [0]) = takeWhile (\<lambda>b. b \<noteq> 0) s" by (induction s) auto
  moreover have "length (takeWhile (\<lambda>b. b \<noteq> 0) s) \<le> length s" by (rule length_takeWhile_le)
  ultimately show ?thesis using assms by (simp add: strlen_def string_at_def Let_def)
qed

text \<open>Moving the readable bytes to the front, exactly.\<close>

definition moved_front :: "Buffer \<Rightarrow> byte list" where
  "moved_front b = take 8 (b_buffer b) @ Buffer_content b @ drop (8 + length (Buffer_content b)) (b_buffer b)"

lemma Buffer_extend_moved:
  assumes inv: "Buffer_inv b" and small: "Buffer_writableBytes b < len"
    and free: "len + 8 \<le> Buffer_writableBytes b + b_readerIndex b"
  shows "Buffer_extend dbg b len =
     Inr (b\<lparr>b_buffer := moved_front b, b_readerIndex := 8, b_writerIndex := 8 + length (Buffer_content b)\<rparr>)"
proof -
  let ?n = "Buffer_readableBytes b"
  have w: "Buffer_writableBytes b = length (b_buffer b) - b_writerIndex b" by (rule Buffer_writable [OF inv])
  have n: "?n = b_writerIndex b - b_readerIndex b" "length (Buffer_content b) = ?n"
    by (rule Buffer_readable [OF inv], rule length_Buffer_content [OF inv])
  have r8: "8 < b_readerIndex b" using small free by simp
  have add: "szadd (Buffer_writableBytes b) (b_readerIndex b) = Buffer_writableBytes b + b_readerIndex b"
      "szadd len 8 = len + 8" "szadd 8 ?n = 8 + ?n"
    using inv small r8 free by (auto simp: szadd_def w n(1) Buffer_inv_def vec_max_def intro!: mod_less)
  have m: "copy_from (b_buffer b) (b_readerIndex b) ?n = Inr (Buffer_content b)"
    using Buffer_toStringView_ok [OF inv] by (simp add: Buffer_toStringView_def)
  have fit: "8 + length (Buffer_content b) \<le> length (b_buffer b)" using inv r8 by (auto simp: n Buffer_inv_def)
  then have v: "copy_to (b_buffer b) 8 (Buffer_content b) = Inr (moved_front b)"
    by (simp add: copy_to_def moved_front_def)
  have "length (moved_front b) = length (b_buffer b)" by (rule copy_to_length [OF v])
  then have "Buffer_inv (b\<lparr>b_buffer := moved_front b, b_readerIndex := 8, b_writerIndex := 8 + ?n\<rparr>)"
    using inv r8 by (auto simp: Buffer_inv_def n)
  then show ?thesis using free r8 by (simp add: Buffer_extend_def add m v Let_def Buffer_readable n(2) cassert_holds)
qed

text \<open>References come and go.\<close>

lemma finite_owners: "finite (dom v) \<Longrightarrow> finite {x. v x = Some (p :: nat)}"
  by (rule finite_subset [of _ "dom v"]) auto

lemma owners_pos: "finite (dom v) \<Longrightarrow> 0 < owners v p \<longleftrightarrow> (\<exists>x. v x = Some p)"
  using finite_owners [of v p] by (auto simp: owners_def card_gt_0_iff)

lemma owners_upd:
  assumes "finite (dom v)"
  shows "owners (v(x := new)) p + (if v x = Some p then 1 else 0) = owners v p + (if new = Some p then 1 else 0)"
proof -
  note fin = finite_owners [OF assms, of p]
  have "{y. (v(x := new)) y = Some p} = (if new = Some p then insert x else (\<lambda>A. A - {x})) {y. v y = Some p}"
    by auto
  then show ?thesis using fin card_Suc_Diff1 [OF fin, of x] by (auto simp: owners_def card_insert_if)
qed

lemma shared_okD:
  assumes "shared_ok ls w"
  shows "finite (dom (sw_vars w))" "distinct (sw_destroyed w)" "p \<in> set (sw_destroyed w) \<Longrightarrow> sw_objects w p = None"
    "count_ok ls w p"
  using assms unfolding shared_ok_def by blast+

lemma shared_ok_object:
  assumes "shared_ok ls w" "p \<in> set ls \<or> sw_vars w x = Some p"
  shows "\<exists>n ob. sw_objects w p = Some (Suc n, ob)"
  using shared_okD(4) [OF assms(1), of p] assms(2)
  by (cases "sw_objects w p") (auto simp: count_ok_def gr0_conv_Suc)

text \<open>A change of what is known of one object only.\<close>

lemma shared_ok_change:
  assumes "shared_ok ls w" "sw_vars w' = sw_vars w" "\<And>q. q \<noteq> p \<Longrightarrow> sw_objects w' q = sw_objects w q"
    and "\<And>q. q \<noteq> p \<Longrightarrow> count_list ls' q = count_list ls q" "count_ok ls' w' p"
    and "sw_destroyed w' = sw_destroyed w \<and> sw_objects w p \<noteq> None \<or>
      sw_destroyed w' = sw_destroyed w @ [p] \<and> sw_objects w' p = None \<and> sw_objects w p \<noteq> None"
  shows "shared_ok ls' w'"
  unfolding shared_ok_def
proof (intro conjI allI)
  fix q
  have "q \<noteq> p \<Longrightarrow> q \<in> set ls' \<longleftrightarrow> q \<in> set ls" using assms(4) [of q] by (metis count_list_0_iff)
  then have "q \<noteq> p \<Longrightarrow> count_ok ls' w' q = count_ok ls w q"
    using assms(2-4) by (cases "sw_objects w q") (auto simp: count_ok_def)
  then show "count_ok ls' w' q" using assms(5) shared_okD(4) [OF assms(1)] by (cases "q = p") auto
next
  have p: "p \<notin> set (sw_destroyed w)" using assms(6) shared_okD(3) [OF assms(1), of p] by auto
  then show "distinct (sw_destroyed w')" using assms(6) shared_okD(2) [OF assms(1)] by auto
  show "\<forall>q \<in> set (sw_destroyed w'). sw_objects w' q = None"
  proof
    fix q assume "q \<in> set (sw_destroyed w')"
    then show "sw_objects w' q = None"
      using p assms(3) [of q] assms(6) shared_okD(3) [OF assms(1), of q] by (cases "q = p") auto
  qed
qed (use assms(2) shared_okD(1) [OF assms(1)] in simp)

lemma shared_ok_update:
  assumes "shared_ok ls w" "sw_objects w p = Some (n, ob)"
  shows "shared_ok ls (w\<lparr>sw_objects := (sw_objects w)(p \<mapsto> (n, ob'))\<rparr>)"
  by (rule shared_ok_change [OF assms(1), where p = p])
    (use assms(2) shared_okD(4) [OF assms(1), of p] in \<open>auto simp: count_ok_def\<close>)

lemma weak_lock_ok:
  assumes "shared_ok ls w"
  obtains "weak_lock (Some p) w = (None, w)" "sw_objects w p = None"
  | w' where "weak_lock (Some p) w = (Some p, w')" "shared_ok (p # ls) w'" "sw_vars w' = sw_vars w"
      "sw_destroyed w' = sw_destroyed w" "sw_objects w p \<noteq> None"
proof (cases "sw_objects w p")
  case None
  then show ?thesis by (intro that(1)) (simp_all add: weak_lock_def)
next
  case (Some a)
  obtain n ob where a: "a = (n, ob)" by (cases a)
  let ?w = "w\<lparr>sw_objects := (sw_objects w)(p \<mapsto> (Suc n, ob))\<rparr>"
  have "shared_ok (p # ls) ?w"
    by (rule shared_ok_change [OF assms, where p = p])
      (use Some a shared_okD(4) [OF assms, of p] in \<open>simp_all add: count_ok_def\<close>)
  then show ?thesis using Some a by (intro that(2) [of ?w]) (simp_all add: weak_lock_def)
qed

lemma shared_release_ok:
  assumes "shared_ok (p # ls) w"
  shows "returns (shared_release p w) (\<lambda>w'. shared_ok ls w' \<and> sw_vars w' = sw_vars w \<and>
     (let kept = (\<exists>x. sw_vars w x = Some p) \<or> p \<in> set ls in
      (sw_objects w' p \<noteq> None) = kept \<and> sw_destroyed w' = sw_destroyed w @ (if kept then [] else [p])))"
proof -
  obtain n ob where ob: "sw_objects w p = Some (Suc n, ob)" using shared_ok_object [OF assms, of p] by auto
  have n: "n = owners (sw_vars w) p + count_list ls p"
    using shared_okD(4) [OF assms, of p] ob by (simp add: count_ok_def)
  then have kept: "0 < n \<longleftrightarrow> (\<exists>x. sw_vars w x = Some p) \<or> p \<in> set ls"
    using owners_pos [OF shared_okD(1) [OF assms], of p] count_list_0_iff [of ls p] by auto
  obtain w' where w': "shared_release p w = Inr w'" "sw_vars w' = sw_vars w" "\<And>q. q \<noteq> p \<Longrightarrow> sw_objects w' q = sw_objects w q"
      "sw_objects w' p = (if n = 0 then None else Some (n, ob))"
      "sw_destroyed w' = sw_destroyed w @ (if n = 0 then [p] else [])"
    using ob by (cases "n = 0") (simp_all add: shared_release_def)
  have "shared_ok ls w'"
    by (rule shared_ok_change [OF assms w'(2, 3)])
      (use n kept w'(2, 4, 5) ob in \<open>auto simp: count_ok_def split: if_splits\<close>)
  then show ?thesis using w' kept by (auto simp: Let_def)
qed

lemma shared_assign_ok:
  assumes "shared_ok ((case new of None \<Rightarrow> [] | Some p \<Rightarrow> [p]) @ ls) w"
  shows "returns (shared_assign x new w) (shared_ok ls)"
proof -
  let ?w = "w\<lparr>sw_vars := (sw_vars w)(x := new)\<rparr>"
  note card = owners_upd [OF shared_okD(1) [OF assms], of x new]
  have ok: "shared_ok ((case sw_vars w x of None \<Rightarrow> [] | Some p \<Rightarrow> [p]) @ ls) ?w"
    unfolding shared_ok_def
  proof (intro conjI allI)
    fix p
    have c: "count_ok ((case new of None \<Rightarrow> [] | Some p \<Rightarrow> [p]) @ ls) w p" by (rule shared_okD(4) [OF assms])
    show "count_ok ((case sw_vars w x of None \<Rightarrow> [] | Some p \<Rightarrow> [p]) @ ls) ?w p"
    proof (cases "sw_objects w p")
      case None
      have "(\<forall>y. sw_vars w y \<noteq> Some p) \<and> new \<noteq> Some p \<and> p \<notin> set ls"
        using c None by (cases new) (auto simp: count_ok_def)
      then show ?thesis using None by (cases "sw_vars w x") (auto simp: count_ok_def)
    next
      case (Some a)
      then have "fst a = owners (sw_vars w) p + (if new = Some p then 1 else 0) + count_list ls p" "0 < fst a"
        using c by (cases new; cases a; auto simp: count_ok_def)+
      then show ?thesis using card [of p] Some by (cases "sw_vars w x"; cases a) (auto simp: count_ok_def)
    qed
  qed (use shared_okD(1-3) [OF assms] in auto)
  show ?thesis
  proof (cases "sw_vars w x")
    case None
    then show ?thesis using ok by (simp add: shared_assign_def)
  next
    case (Some q)
    then have "shared_ok (q # ls) ?w" using ok by simp
    from shared_release_ok [OF this] show ?thesis
      using Some by (auto simp: shared_assign_def elim!: returns_mono)
  qed
qed

lemma shared_copy_ok:
  assumes "shared_ok ls w"
  shows "returns (let (new, w') = weak_lock r w in shared_assign x new w') (shared_ok ls)"
proof (cases r)
  case None
  then show ?thesis using shared_assign_ok [of None ls w x] assms by (simp add: weak_lock_def)
next
  case (Some p)
  show ?thesis
  proof (cases rule: weak_lock_ok [OF assms, of p])
    case 1
    then show ?thesis using shared_assign_ok [of None ls w x] assms Some by simp
  next
    case (2 w')
    then show ?thesis using shared_assign_ok [of "Some p" ls w' x] Some by simp
  qed
qed

text \<open>A function that runs while somebody up the stack holds its object returns, and the counts stay right.\<close>

lemma run_shared_ok: "shared_ok ls w \<Longrightarrow> p \<in> set ls \<Longrightarrow> returns (run_shared p xs w) (shared_ok ls)"
proof (induction p xs w arbitrary: ls rule: run_shared.induct)
  case (2 p g xs w)
  then obtain n ob where ob: "sw_objects w p = Some (Suc n, ob)" using shared_ok_object by blast
  show ?case
    using 2(1) [OF ob [symmetric, THEN sym] _ shared_ok_update [OF 2(2) ob] 2(3)] ob by simp
next
  case (3 p x y xs w)
  show ?case unfolding run_shared.simps by (rule returns_bind_eq [OF shared_copy_ok [OF 3(2)] 3(1)]) (use 3 in simp_all)
next
  case (4 p x xs w)
  have "returns (shared_assign x None w) (shared_ok ls)" using shared_assign_ok [of None ls w x] 4(2) by simp
  then show ?case unfolding run_shared.simps by (rule returns_bind_eq) (use 4 in simp)
next
  case (5 p x q xs w)
  show ?case unfolding run_shared.simps by (rule returns_bind_eq [OF shared_copy_ok [OF 5(2)] 5(1)]) (use 5 in simp_all)
next
  case (6 p q ys xs w)
  have "returns (case weak_lock (Some q) w of (None, w') \<Rightarrow> Inr w'
      | (Some _, w') \<Rightarrow> bindR (run_shared q ys w') (shared_release q)) (shared_ok ls)"
  proof (cases rule: weak_lock_ok [OF 6(3), of q])
    case 1
    then show ?thesis using 6(3) by simp
  next
    case (2 w')
    have "returns (run_shared q ys w') (shared_ok (q # ls))"
      by (rule 6(1) [OF 2(1) [symmetric] refl 2(2)]) simp
    then show ?thesis
      using 2(1) by (auto intro!: returns_bind [OF _ returns_mono [OF shared_release_ok]])
  qed
  then show ?case unfolding run_shared.simps by (rule returns_bind_eq) (use 6 in simp)
qed simp

section \<open>Properties\<close>

text \<open>
  A view shows what it was made of, as long as that is there and unchanged: a view of a string all its bytes,
  null characters included; one made of the string's \<^verbatim>\<open>c_str\<close> the bytes before the first null character; a view of
  a buffer the bytes to be read. Its two pointers are as far apart as its size. When the string has been
  destroyed, reading a view that is not empty is a use of a dangling pointer.
\<close>

theorem StringView_shows:
  assumes "string_at mem a s" "mem a' = Some (b_buffer b)" "Buffer_inv b"
  shows "returns (StringView_string mem a) (\<lambda>v. StringView_toString mem v = Inr s \<and> StringView_end v = At a (length s) \<and>
      (s \<noteq> [] \<longrightarrow> StringView_toString (mem(a := None)) v = Inl BadPointer)) \<and>
    returns (StringView_cstr mem (StringArg_c_str (StringArg_string a))) (\<lambda>v.
      StringView_toString mem v = Inr (takeWhile (\<lambda>c. c \<noteq> 0) s)) \<and>
    StringView_toString mem (Buffer_view a' b) = Inr (Buffer_content b) \<and>
    StringView_toString mem StringView_new = Inr []"
proof -
  have m: "mem a = Some (s @ [0])" using assms(1) by (simp add: string_at_def)
  have cut: "slice (s @ [0]) 0 (length (takeWhile (\<lambda>c. c \<noteq> 0) s)) = takeWhile (\<lambda>c. c \<noteq> 0) s"
    by (simp add: slice_def length_takeWhile_le takeWhile_eq_take [symmetric])
  have "read_at mem (At a 0) (length (takeWhile (\<lambda>c. c \<noteq> 0) s)) = Inr (takeWhile (\<lambda>c. c \<noteq> 0) s)"
    using read_at_block [where mem = mem and a = a and bs = "s @ [0]" and i = 0 and len = "length (takeWhile (\<lambda>c. c \<noteq> 0) s)"] m length_takeWhile_le [of "\<lambda>c. c \<noteq> 0" s] cut by simp
  moreover have "read_at mem (At a 0) (length s) = Inr s"
    using read_at_block [where mem = mem and a = a and bs = "s @ [0]" and i = 0 and len = "length s"] m by (simp add: slice_def)
  moreover have "read_at mem (At a' (b_readerIndex b)) (Buffer_readableBytes b) = Inr (Buffer_content b)"
    using read_at_block [where mem = mem and a = a' and bs = "b_buffer b" and i = "b_readerIndex b" and len = "Buffer_readableBytes b"] assms(2, 3)
    by (simp add: Buffer_readable Buffer_inv_def Buffer_content_def)
  ultimately show ?thesis
    using m strlen_string [OF assms(1)]
    by (simp add: StringView_string_def string_size_def StringView_cstr_def StringArg_c_str_def StringArg_string_def
        StringView_toString_def StringView_end_def StringView_begin_def StringView_data_def StringView_size_def ptr_add_def
        Buffer_view_def StringView_range_def StringView_new_def read_at_def)
qed

text \<open>A string with a null character in it, and a buffer that holds two bytes.\<close>

theorem StringView_shows_witness:
  "returns (StringView_cstr [1 \<mapsto> [97, 0, 98, 0], 2 \<mapsto> replicate 8 0 @ [5, 6, 0]] (StringArg_c_str (StringArg_string 1)))
     (\<lambda>v. StringView_toString [1 \<mapsto> [97, 0, 98, 0], 2 \<mapsto> replicate 8 0 @ [5, 6, 0]] v = Inr [97]) \<and>
   StringView_toString [1 \<mapsto> [97, 0, 98, 0], 2 \<mapsto> replicate 8 0 @ [5, 6, 0]]
     (Buffer_view 2 \<lparr>b_buffer = replicate 8 0 @ [5, 6, 0], b_readerIndex = 8, b_writerIndex = 10\<rparr>) = Inr [5, 6]"
proof -
  let ?b = "\<lparr>b_buffer = replicate 8 0 @ [5, 6, 0], b_readerIndex = 8, b_writerIndex = 10\<rparr> :: Buffer"
  have "Buffer_inv ?b" "Buffer_content ?b = [5, 6]" by (simp_all add: Buffer_inv_def vec_max_def Buffer_content_def slice_def)
  then show ?thesis
    using StringView_shows [of "[1 \<mapsto> [97, 0, 98, 0], 2 \<mapsto> replicate 8 0 @ [5, 6, 0]]" 1 "[97, 0, 98]" 2 ?b]
    by (simp add: string_at_def)
qed

text \<open>
  Appending a view of something else appends the bytes it shows. Appending a view of the buffer to itself is right
  only when there is room behind the writer: when the readable bytes are moved to the front to make room, the
  view then shows other bytes of the vector, and when the vector takes another block, the view dangles.
\<close>

theorem Buffer_append_itself:
  assumes "Buffer_inv b" "mem a = Some (b_buffer b)" "Buffer_content b \<noteq> []"
  shows "(length (Buffer_content b) \<le> Buffer_writableBytes b \<longrightarrow>
      returns (Buffer_append_view dbg moved mem a b (Buffer_view a b)) (\<lambda>b'. Buffer_content b' = Buffer_content b @ Buffer_content b)) \<and>
    (Buffer_writableBytes b < length (Buffer_content b) \<and> length (Buffer_content b) + 8 \<le> Buffer_writableBytes b + b_readerIndex b \<longrightarrow>
      returns (Buffer_append_view dbg moved mem a b (Buffer_view a b)) (\<lambda>b'. Buffer_content b' = Buffer_content b @
        slice (moved_front b) (b_readerIndex b) (b_writerIndex b))) \<and>
    (Buffer_writableBytes b + b_readerIndex b < length (Buffer_content b) + 8 \<and> Buffer_writableBytes b < length (Buffer_content b) \<and>
      b_writerIndex b + length (Buffer_content b) \<le> vec_max \<longrightarrow>
      Buffer_append_view dbg True mem a b (Buffer_view a b) = Inl BadPointer)"
proof -
  let ?n = "length (Buffer_content b)" and ?r = "b_readerIndex b"
  have n: "Buffer_readableBytes b = ?n" "?r + ?n = b_writerIndex b" "b_writerIndex b \<le> length (b_buffer b)"
    using assms(1) length_Buffer_content [OF assms(1)] Buffer_readable [OF assms(1)] by (simp_all add: Buffer_inv_def)
  have view: "sv_length (Buffer_view a b) = ?n" "sv_data (Buffer_view a b) = At a ?r"
    by (simp_all add: Buffer_view_def StringView_range_def n(1))
  have room: "returns (Buffer_append_view dbg moved mem a b (Buffer_view a b)) (\<lambda>b'. Buffer_content b' = Buffer_content b @ Buffer_content b)"
    if "?n \<le> Buffer_writableBytes b"
  proof -
    have "Buffer_ensureWritableBytes dbg b ?n = Inr b" using that by (simp add: Buffer_ensureWritableBytes_def cassert_holds)
    moreover have "read_at (storage_after moved a b b mem) (At a ?r) ?n = Inr (Buffer_content b)"
      using read_at_block [of "mem(a \<mapsto> b_buffer b)" a "b_buffer b" ?r ?n] n by (simp add: storage_after_def Buffer_content_def)
    ultimately show ?thesis
      using Buffer_write_ok [OF assms(1) that, of dbg] by (simp add: Buffer_append_view_def view) (auto elim!: returns_mono)
  qed
  have front: "returns (Buffer_append_view dbg moved mem a b (Buffer_view a b)) (\<lambda>b'. Buffer_content b' = Buffer_content b @
        slice (moved_front b) ?r (b_writerIndex b))"
    if small: "Buffer_writableBytes b < ?n" and free: "?n + 8 \<le> Buffer_writableBytes b + ?r"
  proof -
    let ?b = "b\<lparr>b_buffer := moved_front b, b_readerIndex := 8, b_writerIndex := 8 + ?n\<rparr>"
    have b: "Buffer_inv ?b" "Buffer_content ?b = Buffer_content b" "?n \<le> Buffer_writableBytes ?b" "Buffer_size ?b = Buffer_size b"
      using Buffer_extend_move_ok [OF assms(1) small free, of dbg] Buffer_extend_moved [OF assms(1) small free, of dbg] by simp_all
    then have same: "length (moved_front b) = length (b_buffer b)" by (simp add: Buffer_size_def)
    have "Buffer_ensureWritableBytes dbg b ?n = Inr ?b"
      using small b(3) Buffer_extend_moved [OF assms(1) small free, of dbg] by (simp add: Buffer_ensureWritableBytes_def cassert_holds)
    moreover have "read_at (storage_after moved a b ?b mem) (At a ?r) ?n = Inr (slice (moved_front b) ?r (b_writerIndex b))"
      using read_at_block [of "mem(a \<mapsto> moved_front b)" a "moved_front b" ?r ?n] n same by (simp add: storage_after_def)
    moreover have "length (slice (moved_front b) ?r (b_writerIndex b)) = ?n" using n same by simp
    ultimately show ?thesis
      using Buffer_write_ok [OF b(1), of "slice (moved_front b) ?r (b_writerIndex b)" dbg] b(2, 3)
      by (simp add: Buffer_append_view_def view) (auto elim!: returns_mono)
  qed
  have "Buffer_append_view dbg True mem a b (Buffer_view a b) = Inl BadPointer"
    if grow: "Buffer_writableBytes b + ?r < ?n + 8" "Buffer_writableBytes b < ?n" "b_writerIndex b + ?n \<le> vec_max"
  proof -
    obtain b' where b': "Buffer_extend dbg b ?n = Inr b'" "?n \<le> Buffer_writableBytes b'" "Buffer_size b' = b_writerIndex b + ?n"
      using Buffer_extend_grow_ok [OF assms(1) grow(2, 1, 3), of dbg] by (auto simp: returns_iff)
    have "length (b_buffer b') \<noteq> length (b_buffer b)"
      using b'(3) grow(2) n(3) Buffer_writable [OF assms(1)] by (simp add: Buffer_size_def)
    moreover have "Buffer_ensureWritableBytes dbg b ?n = Inr b'"
      using grow(2) b' by (simp add: Buffer_ensureWritableBytes_def cassert_holds)
    ultimately show ?thesis using assms(3) by (simp add: Buffer_append_view_def view storage_after_def read_at_def)
  qed
  with room front show ?thesis by blast
qed

text \<open>
  Two bytes to be read behind a reader at 9 and room for one: the view shows the second byte and what lay behind.
\<close>

theorem Buffer_append_itself_witness:
  "returns (Buffer_append_view True False [1 \<mapsto> replicate 9 0 @ [5, 6, 7]] 1
       \<lparr>b_buffer = replicate 9 0 @ [5, 6, 7], b_readerIndex = 9, b_writerIndex = 11\<rparr>
       (Buffer_view 1 \<lparr>b_buffer = replicate 9 0 @ [5, 6, 7], b_readerIndex = 9, b_writerIndex = 11\<rparr>))
     (\<lambda>b'. Buffer_content b' = [5, 6, 6, 6])"
proof -
  let ?b = "\<lparr>b_buffer = replicate 9 0 @ [5, 6, 7], b_readerIndex = 9, b_writerIndex = 11\<rparr> :: Buffer"
  have b: "Buffer_inv ?b" "Buffer_content ?b = [5, 6]" by (simp_all add: Buffer_inv_def vec_max_def Buffer_content_def slice_def)
  have "Buffer_writableBytes ?b = 1" using Buffer_writable [OF b(1)] by simp
  then show ?thesis
    using Buffer_append_itself [of ?b "[1 \<mapsto> replicate 9 0 @ [5, 6, 7]]" 1 True False] b
    by (simp add: moved_front_def slice_def eval_nat_numeral)
qed

text \<open>
  C24. A weak callback never touches an object that is gone, never lets one go while its function runs and never leaves
  one behind, from any state with the right counts and whatever the function does to the owners. When the object has
  been destroyed the call does nothing. Otherwise the object is there after each step of the function, even when the
  function clears the last variable that owned it; the call returns with the right counts, the variables are
  those the function left, and at its end, not before, the object is destroyed, once, exactly when nobody else owns it.
\<close>

theorem WeakCallback_safe:
  assumes "shared_ok ls w"
  shows "case sw_objects w p of
      None \<Rightarrow> WeakCallback_call (makeWeakCallback p (member_function body)) args w = Inr w
    | Some _ \<Rightarrow> let w' = snd (weak_lock (Some p) w) in
        (\<forall>xs ys. body p args w' = xs @ ys \<longrightarrow> returns (run_shared p xs w') (\<lambda>w1. sw_objects w1 p \<noteq> None)) \<and>
        returns (run_shared p (body p args w') w') (\<lambda>w1.
          returns (WeakCallback_call (makeWeakCallback p (member_function body)) args w) (\<lambda>w2.
            shared_ok ls w2 \<and> sw_vars w2 = sw_vars w1 \<and> p \<notin> set (sw_destroyed w1) \<and>
            (let kept = (\<exists>x. sw_vars w1 x = Some p) \<or> p \<in> set ls in
             (sw_objects w2 p \<noteq> None) = kept \<and> sw_destroyed w2 = sw_destroyed w1 @ (if kept then [] else [p]))))"
proof (cases rule: weak_lock_ok [OF assms, of p])
  case 1
  then show ?thesis by (simp add: WeakCallback_call_def makeWeakCallback_def WeakCallback_new_def)
next
  case (2 w')
  have run: "returns (run_shared p xs w') (shared_ok (p # ls))" for xs by (rule run_shared_ok [OF 2(2)]) simp
  obtain w1 where w1: "run_shared p (body p args w') w' = Inr w1" "shared_ok (p # ls) w1"
    using run [of "body p args w'"] by (auto simp: returns_iff)
  have "\<exists>n ob. sw_objects w1 p = Some (Suc n, ob)" using shared_ok_object [OF w1(2)] by auto
  then have gone: "p \<notin> set (sw_destroyed w1)" using shared_okD(3) [OF w1(2), of p] by auto
  have call: "WeakCallback_call (makeWeakCallback p (member_function body)) args w = shared_release p w1"
    using 2(1) w1(1) by (simp add: WeakCallback_call_def makeWeakCallback_def WeakCallback_new_def member_function_def)
  have "returns (run_shared p xs w') (\<lambda>w1. sw_objects w1 p \<noteq> None)" for xs
    using shared_ok_object by (fastforce intro: returns_mono [OF run])
  then show ?thesis
    using 2(1, 5) w1(1) gone shared_release_ok [OF w1(2)] by (auto simp: Let_def call elim!: returns_mono split: option.split)
qed

text \<open>
  The only owner, variable 1, is cleared by the function, which then goes on using its object; the object goes when the
  callback has returned.
\<close>

theorem WeakCallback_safe_witness:
  "returns (WeakCallback_call (makeWeakCallback 3 (member_function (\<lambda>_ _ _. [ResetPtr 1, UseThis (\<lambda>s. s @ ''!'')])))
       () \<lparr>sw_objects = [3 \<mapsto> (1, ''object'')], sw_vars = [1 \<mapsto> 3], sw_destroyed = []\<rparr>)
     (\<lambda>w. sw_objects w 3 = None \<and> sw_destroyed w = [3])"
proof -
  let ?w = "\<lparr>sw_objects = [3 \<mapsto> (1, ''object'')], sw_vars = [1 \<mapsto> 3], sw_destroyed = []\<rparr>"
  have "{x. [1 \<mapsto> 3] x = Some (3 :: nat)} = {1 :: nat}" by auto
  then have ok: "shared_ok [] ?w" by (auto simp: shared_ok_def count_ok_def owners_def)
  show ?thesis
    using WeakCallback_safe [OF ok, of 3 "\<lambda>_ _ _. [ResetPtr 1, UseThis (\<lambda>s. s @ ''!'')]" "()"]
    by (auto simp: weak_lock_def shared_assign_def shared_release_def Let_def elim!: returns_mono simp del: not_None_eq)
qed

end
