(* ===== verification/Spec2Isabelle.thy ===== *)
theory Spec2Isabelle
  imports CircularBuffer Timezone LogStream EventLoop ThreadPool Epoll_Clients Logger Multiplex TcpClient Threads Mutexes ThreadLocals
    SocketApi Views
begin

text \<open>
  leanet is a C++ library for TCP servers and clients in the reactor style: one event loop for a thread, one
  thread for a loop. This development is a model of the library, one theory for one component, and the
  theorems that say what the components do. Files are named as in src/leanet.

  \<^bold>\<open>The program.\<close> An EventLoop asks a demultiplexer (Poller over poll(2), EPollPoller over epoll(7)) which
  descriptors are ready and lets the Channel of each call its handler. Handlers belong to the owners of
  channels: an Acceptor (listening socket), a Connector (connection under way), a TcpConnection (stream with
  an input and an output Buffer), the TimerQueue and the loop's own wakeup descriptor. TcpServer joins an
  Acceptor, an EventLoopThreadPool and its connections, TcpClient a Connector and its connection. Other threads
  reach a loop by queueing functors. Around these stand threads and what they share (Mutex, Condition,
  CountdownLatch, blocking queues, ThreadPool, Thread, ThreadLocal, AtomicInteger), and dates, times, time zones,
  the formatting stream and the logger.

  \<^bold>\<open>Conventions.\<close> A class is a record, an object that is shared lives in a store from addresses to records, an
  enumeration is a datatype. An operation that can stop without returning has a result \<open>'a res = fault + 'a\<close>
  (Prelude); the fault says how: a failed assert, an access out of bounds, a null or dangling pointer, an
  overflow of a signed integer, \<^verbatim>\<open>abort\<close> after LOG_FATAL or LOG_SYSFATAL, an empty function called, an exception.
  The flag \<open>dbg\<close> says whether asserts are compiled in; CMakeLists.txt turns them off for the Release
  configuration only, so both builds are modelled. Signed arithmetic is checked at 32 or 64 bits (CInt), sizes
  wrap at \<open>2 ^ 64\<close>, fixed widths are words. What is not under src/ is an argument of the definitions that use it:
  the results of system calls, the addresses \<^verbatim>\<open>new\<close> returns, the clock, \<^verbatim>\<open>inet_ntop\<close> and \<^verbatim>\<open>inet_pton\<close>,
  \<^verbatim>\<open>mktime\<close>, the kernel's thread numbers, and what the callbacks of the user do. What properties need of them
  is a named hypothesis (\<open>read_contract\<close>, \<open>ntop_contract\<close>, \<open>pton_contract\<close>, \<open>acceptor_user_keeps\<close> and others).
  Where an operation runs inside a loop or among threads, the state machine is an inductive step relation or a
  function on events with a reachability relation, and the properties hold in every reachable state.

  \<^bold>\<open>Foundations.\<close>
  \<^item> Prelude: faults, results, the predicates \<open>returns\<close> and \<open>outcome\<close>, asserts, \<^verbatim>\<open>size_t\<close>, copies into arrays.
  \<^item> CInt: int and int64_t with overflow as a fault. Posix: results of read and write, error numbers, \<^verbatim>\<open>struct tm\<close>.
  \<^item> Endian: the byte order conversions at the end of sockets.cc for hosts of either order; locale \<open>int_codec\<close>.
  \<^item> Printf, Ctime: the conversions of snprintf, the parts of time.h and of double arithmetic the code uses.

  \<^bold>\<open>Data.\<close>
  \<^item> Byte_Queue: locale \<open>byte_queue\<close>, a buffer as a queue of bytes. Buffer (buffer.h, buffer.cc) and
    CircularBuffer (circularbuffer.h) have every member, an invariant of the indices and an interpretation of the
    locale; Buffer refines an ideal queue for any script of calls, and the two agree within the ring's limits.
  \<^item> Views (stringview.h, weakcallback.h): references to what somebody else owns, over a memory of blocks and over
    shared objects with their counts and the variables that own them; what becomes of a view of a buffer that is
    appended to it, and of an object whose owners let go while a weak callback runs.
  \<^item> Date (date.h, date.cc) against a calendar defined without its formulas; Timestamp (timestamp.h, timestamp.cc);
    Timezone (timezone.h, timezone.cc): the reader of zone files against a writer of the format, the search, and the
    conversions against \<^verbatim>\<open>gmtime\<close>.
  \<^item> LogStream (logstream.h, logstream.cc): the integer conversions against \<^verbatim>\<open>%d\<close>, the insertions.
    Logger (logger.h, logger.cc, currentthread.h): the layout of a message, the cached second, the level filter;
    LogLevel is an instance of \<open>linorder\<close>.

  \<^bold>\<open>The reactor.\<close>
  \<^item> Channel (channel.h, channel.cc): a store of channels, the events wanted, the dispatch of reported events.
  \<^item> Poller (poller.h, poller.cc): the array of pollfd, the map of channels and the indices, with their invariant, and
    locale \<open>registry\<close>, the contract of a demultiplexer. Registry: \<open>channel_registry\<close> and \<open>channel_owner\<close>, what the
    owners of channels rely on beyond it. EPollPoller (epollpoller.h, epollpoller.cc): the kernel's set beside the map,
    the second provider of all three, and its equivalence with Poller, for the state whose loop pointer is set, which
    the constructor leaves unset. Builds: locale \<open>two_builds\<close>, what the asserts of a demultiplexer add to its clients.
  \<^item> TimerQueue (timer.h, timer.cc, timerid.h, timerqueue.h, timerqueue.cc): timers on the heap, the two sets, the alarm.
  \<^item> EventLoop (eventloop.h, eventloop.cc): the functor queue, waking, the loop as steps among other threads.

  \<^bold>\<open>Clients of the loop.\<close>
  \<^item> TcpConnection (tcpconnection.h, tcpconnection.cc): events and their handlers, locale \<open>tcp_loop\<close> with the invariant;
    Tcp_Properties: the whole life of a connection, the byte stream, the shutdown, over Poller.
  \<^item> Connector (connector.h, connector.cc), locale \<open>connector_loop\<close>; Sockets (sockets.cc, inetaddress.h, inetaddress.cc):
    addresses in memory and their texts; Acceptor (acceptor.h, acceptor.cc, socket.cc), locale \<open>acceptor_loop\<close>.
    Epoll_Clients interprets the three locales over EPollPoller, as their own theories do over Poller.
    SocketApi (socket.h, socket.cc, sockets.cc): what is done with a descriptor, over the kernel's open sockets and
    their flags, and accept in builds without \<^verbatim>\<open>accept4\<close>.
  \<^item> LoopThreads (eventloopthread.h, eventloopthread.cc, eventloopthreadpool.h, eventloopthreadpool.cc): the hand-over of a
    loop to the thread that asked for it, the pool.
  \<^item> TcpServer (tcpserver.h, tcpserver.cc) and TcpClient (tcpclient.h, tcpclient.cc): the compositions.
  \<^item> Sharing: locale \<open>shared_registry\<close>, the work of one owner leaves the channels and registrations of the others
    (Poller moves their indices, nothing else), for both demultiplexers. Multiplex: locale \<open>tcp_world\<close>, any number of
    connections on any number of loops as a function on events; what is proved of one connection alone holds for
    each of them. TcpClient brings a connection up in such a world.

  \<^bold>\<open>Threads.\<close>
  \<^item> Atomic (atomic.h). Monitor (blockingqueue.h, boundedblockingqueue.h, countdownlatch.h): a call as attempts under the
    mutex, locale \<open>monitor\<close>. Mutexes (mutex.h, condition.h): the same calls with a step for each lock, wait, wake and
    unlock, locale \<open>locked_monitor\<close>, and the proof that each such execution is one of Monitor. ThreadPool (threadpool.h,
    threadpool.cc), Threads (thread.h, thread.cc), ThreadLocals (threadlocal.h).

  \<^bold>\<open>How the proofs are built.\<close> Each component has an invariant, lemmas that every operation keeps
  it and returns (\<open>inv_intros\<close>), and lemmas for what it does to the abstract state
  (\<open>abs_simps\<close>). A component that relies on another is proved inside a locale over the operations it
  calls; the provider's theory interprets the locale on the code's definitions and the properties are read off the
  interpretation. The clients of a demultiplexer allow others to work on it between their own events
  (\<open>keeps_channel\<close> of Registry says what those may do).

  \<^bold>\<open>Two flags for asserts.\<close> One assert of poller.cc fails for each update of an enabled channel
  (\<open>Poller_update_aborts\<close>), so the contracts of Poller hold for its release build, and a client has two flags: \<open>dbg\<close>,
  for its own asserts and those of the classes it is made of, and \<open>pdbg\<close>, for the poller's. A build with asserts has
  both set, the Release configuration has neither. What \<open>pdbg\<close> adds is proved once (Builds): each operation stops at an
  assert of the poller or does what it does without, so the safety of connections, of many connections, of connectors,
  servers and clients is stated for both values of it, the fault \<open>AssertFail\<close> among the outcomes when it is set, and
  with the operations that always stop there. The invariants \<open>TcpConnection_stream\<close> and
  \<open>TcpConnection_shutdown_completes\<close>, the errors \<open>TcpConnection_destroy_after_close\<close> and
  \<open>Connector_stop_start_dangles\<close>, the reconnection of a client and the theorems about the poller and the acceptor are
  about the poller's release build. Over EPollPoller the same clients run with all asserts on.

  \<^bold>\<open>Connections and bind.\<close> The constructor of TcpConnection binds the socket it is given, which is accepted or
  connected, and bind(2) refuses such a socket with \<^verbatim>\<open>EINVAL\<close>, so the process aborts there. Whether the call succeeds is
  an argument (\<open>bound\<close>) of everything that makes a connection, and the theorems say what happens in both cases;
  what they say of a connection that is up is for a kernel that lets the call pass, or for the code without that line.

  \<^bold>\<open>Bounds and fuel.\<close> Loops recurse structurally or with a measure. The one recursion with fuel is
  CircularBuffer's: its \<^verbatim>\<open>append\<close> calls \<^verbatim>\<open>extend\<close>, which calls
  \<^verbatim>\<open>append\<close> on a fresh ring that need not grow, so two units are enough, and the lemmas of the
  theory show that they are. Sizes are bounded by \<open>vec_max\<close> where a vector grows. Liveness is stated as a
  bound on the number of steps, never as a hypothesis that something returns.

  \<^bold>\<open>Not modelled.\<close> Log output inside the other components: it does not change their state, but in
  a build with asserts the logger's own assert fails first (theory Logger), so results for \<open>dbg = True\<close>
  are about the component alone. Memory ordering below that of mutexes and of the compiler's atomic operations. Base
  types and casts (types.h, copyable.h, noncopyable.h, callbacks.h): no state. The functions of sockets.cc that hand
  one call on (connect, read, write, readv) are the results their callers take. posix.h and posix.cc hand calls to
  pthread one by one and are not compiled; timerfd.h and timerfd.cc are an empty frame. Tests and build files.
\<close>

end
